(* ===== verification/Supa_Prelude.thy ===== *)
theory Supa_Prelude
  imports Complex_Main "HOL-Library.Word"
begin

text \<open>
  The prelude of the development: the state-and-exception computations in which the stateful C++
  classes are written, the weakest-precondition calculus the component proofs use, and generic
  lemmas on lists, sets of intervals and machine words that several components share.

  A C++ member function that mutates its object and may throw is a function from the object's state
  to an outcome \<^emph>\<open>and\<close> the state reached: an exception does not undo what was written before it was
  thrown, so the state is returned in both cases.
\<close>

named_theorems wp_simps \<open>rewrite rules of the weakest-precondition calculus\<close>
named_theorems frame_simps \<open>parts of a state that an operation leaves alone\<close>

section \<open>Exceptions\<close>

text \<open>
  What the C++ code throws: a failed \<^verbatim>\<open>TORCH_CHECK\<close>, a failed \<^verbatim>\<open>TORCH_INTERNAL_ASSERT\<close> (the string
  names the check), an out-of-memory error, a driver error seen by \<^verbatim>\<open>C10_SUPA_CHECK\<close> and the standard
  library's exceptions. Five outcomes are not exceptions of the program but ways in which it could go
  wrong: \<open>UseAfterFree\<close>, a dereference of a null or deleted object, \<open>OutOfBounds\<close>, an access past the end
  of a vector or array, \<open>LoopBound\<close>, a loop that ran longer than the bound the model gives it,
  \<open>Terminated\<close>, the end of the process by an exception that leaves a \<^verbatim>\<open>noexcept\<close> function, and
  \<open>ForeignBlock\<close>, an operation of one device allocator on a block of another one.
\<close>

datatype supaError =
    supaSuccess
  | supaErrorMemoryAllocation
  | supaErrorNotReady
  | supaErrorNoDevice
  | supaErrorInsufficientDriver
  | supaErrorUnknown
  | supaErrorPeerAccessAlreadyEnabled
  | supaErrorOther nat

datatype exn =
    TorchCheck string
  | InternalAssert string
  | OutOfMemoryError
  | SupaCheck supaError
  | StdInvalidArgument
  | StdOutOfRange
  | BadOptionalAccess
  | OutOfBounds
  | UseAfterFree
  | LoopBound
  | Terminated
  | ForeignBlock

section \<open>Computations with state and exceptions\<close>

type_synonym ('s, 'e, 'a) sx = "'s \<Rightarrow> ('e + 'a) \<times> 's"

definition sx_ret :: "'a \<Rightarrow> ('s, 'e, 'a) sx" where
  "sx_ret x = (\<lambda>s. (Inr x, s))"

definition sx_throw :: "'e \<Rightarrow> ('s, 'e, 'a) sx" where
  "sx_throw e = (\<lambda>s. (Inl e, s))"

definition sx_bind :: "('s, 'e, 'a) sx \<Rightarrow> ('a \<Rightarrow> ('s, 'e, 'b) sx) \<Rightarrow> ('s, 'e, 'b) sx" where
  "sx_bind m f = (\<lambda>s. case m s of (Inl e, s') \<Rightarrow> (Inl e, s') | (Inr x, s') \<Rightarrow> f x s')"

definition sx_seq :: "('s, 'e, unit) sx \<Rightarrow> ('s, 'e, 'b) sx \<Rightarrow> ('s, 'e, 'b) sx" where
  "sx_seq m k = sx_bind m (\<lambda>_. k)"

definition sx_get :: "('s \<Rightarrow> 'a) \<Rightarrow> ('s, 'e, 'a) sx" where
  "sx_get f = (\<lambda>s. (Inr (f s), s))"

definition sx_mod :: "('s \<Rightarrow> 's) \<Rightarrow> ('s, 'e, unit) sx" where
  "sx_mod f = (\<lambda>s. (Inr (), f s))"

definition sx_check :: "bool \<Rightarrow> 'e \<Rightarrow> ('s, 'e, unit) sx" where
  "sx_check b e = (if b then sx_ret () else sx_throw e)"

definition sx_when :: "bool \<Rightarrow> ('s, 'e, unit) sx \<Rightarrow> ('s, 'e, unit) sx" where
  "sx_when b m = (if b then m else sx_ret ())"

text \<open>A range-based for loop over a sequence fixed before the loop starts.\<close>

primrec sx_for :: "'a list \<Rightarrow> ('a \<Rightarrow> ('s, 'e, unit) sx) \<Rightarrow> ('s, 'e, unit) sx" where
  "sx_for [] f = sx_ret ()"
| "sx_for (x # xs) f = sx_seq (f x) (sx_for xs f)"

text \<open>The short-circuit disjunction of two operations, \<^verbatim>\<open>a() || b()\<close>, and conjunction \<^verbatim>\<open>a() && b()\<close>.\<close>

definition sx_or :: "('s, 'e, bool) sx \<Rightarrow> ('s, 'e, bool) sx \<Rightarrow> ('s, 'e, bool) sx" where
  "sx_or a b = sx_bind a (\<lambda>x. if x then sx_ret True else b)"

definition sx_and :: "('s, 'e, bool) sx \<Rightarrow> ('s, 'e, bool) sx \<Rightarrow> ('s, 'e, bool) sx" where
  "sx_and a b = sx_bind a (\<lambda>x. if x then b else sx_ret False)"

text \<open>
  A computation on one field of a record, given by its selector and its update function, and one on
  the entry of an array.
\<close>

definition sx_field :: "('s \<Rightarrow> 'f) \<Rightarrow> (('f \<Rightarrow> 'f) \<Rightarrow> 's \<Rightarrow> 's) \<Rightarrow> ('f, 'e, 'a) sx \<Rightarrow> ('s, 'e, 'a) sx" where
  "sx_field sel upd m = (\<lambda>s. case m (sel s) of (r, x) \<Rightarrow> (r, upd (\<lambda>_. x) s))"

definition sx_at :: "'k \<Rightarrow> ('v, 'e, 'a) sx \<Rightarrow> ('k \<Rightarrow> 'v, 'e, 'a) sx" where
  "sx_at k m = (\<lambda>a. case m (a k) of (r, x) \<Rightarrow> (r, a(k := x)))"

text \<open>
  A computation whose clean-up runs however it ends, as a destructor does, and one that is declared
  \<^verbatim>\<open>noexcept\<close>.
\<close>

definition sx_finally :: "('s, 'e, 'a) sx \<Rightarrow> ('s, 'e, unit) sx \<Rightarrow> ('s, 'e, 'a) sx" where
  "sx_finally m c = (\<lambda>s. case m s of (r, t) \<Rightarrow> (case c t of (Inl e, u) \<Rightarrow> (Inl e, u) | (Inr _, u) \<Rightarrow> (r, u)))"

definition sx_noexcept :: "('s, exn, 'a) sx \<Rightarrow> ('s, exn, 'a) sx" where
  "sx_noexcept m = (\<lambda>s. case m s of (Inl e, t) \<Rightarrow> (Inl Terminated, t) | (Inr x, t) \<Rightarrow> (Inr x, t))"

text \<open>A function that runs once: a call that throws leaves the flag unset.\<close>

definition sx_once :: "('s \<Rightarrow> bool) \<Rightarrow> ('s \<Rightarrow> 's) \<Rightarrow> ('s, 'e, unit) sx \<Rightarrow> ('s, 'e, unit) sx" where
  "sx_once flag mark m = sx_bind (sx_get flag) (\<lambda>over. if over then sx_ret () else sx_seq m (sx_mod mark))"

lemmas sx_defs = sx_ret_def sx_throw_def sx_bind_def sx_seq_def sx_get_def sx_mod_def
  sx_check_def sx_when_def sx_or_def sx_and_def

section \<open>Weakest preconditions\<close>

text \<open>
  \<open>wp m Q E s\<close>: run from \<open>s\<close>, the computation \<open>m\<close> either returns a value and a state that satisfy
  \<open>Q\<close>, or throws an error and leaves a state that satisfy \<open>E\<close>. Every computation of the model is a
  total function, so this is total correctness.
\<close>

definition wp :: "('s, 'e, 'a) sx \<Rightarrow> ('a \<Rightarrow> 's \<Rightarrow> bool) \<Rightarrow> ('e \<Rightarrow> 's \<Rightarrow> bool) \<Rightarrow> 's \<Rightarrow> bool" where
  "wp m Q E s = (case m s of (Inl e, s') \<Rightarrow> E e s' | (Inr x, s') \<Rightarrow> Q x s')"

lemma wp_ret [simp, wp_simps]: "wp (sx_ret x) Q E = Q x"
  by (intro ext) (simp add: wp_def sx_ret_def)

lemma wp_throw [simp, wp_simps]: "wp (sx_throw e) Q E = E e"
  by (intro ext) (simp add: wp_def sx_throw_def)

lemma wp_bind [simp, wp_simps]: "wp (sx_bind m f) Q E = wp m (\<lambda>x. wp (f x) Q E) E"
  by (intro ext) (simp add: wp_def sx_bind_def split: prod.splits sum.splits)

lemma wp_seq [simp, wp_simps]: "wp (sx_seq m k) Q E = wp m (\<lambda>_. wp k Q E) E"
  by (simp add: sx_seq_def)

lemma wp_get [simp, wp_simps]: "wp (sx_get f) Q E = (\<lambda>s. Q (f s) s)"
  by (intro ext) (simp add: wp_def sx_get_def)

lemma wp_mod [simp, wp_simps]: "wp (sx_mod f) Q E = (\<lambda>s. Q () (f s))"
  by (intro ext) (simp add: wp_def sx_mod_def)

lemma wp_check [simp, wp_simps]: "wp (sx_check b e) Q E = (if b then Q () else E e)"
  by (simp add: sx_check_def)

lemma wp_when [simp, wp_simps]: "wp (sx_when b m) Q E = (if b then wp m Q E else Q ())"
  by (simp add: sx_when_def)

lemma wp_or [simp, wp_simps]:
  "wp (sx_or a b) Q E = wp a (\<lambda>x. if x then Q True else wp b Q E) E"
  by (intro ext) (simp add: sx_or_def wp_def sx_bind_def sx_ret_def split: prod.splits sum.splits)

lemma wp_and [simp, wp_simps]:
  "wp (sx_and a b) Q E = wp a (\<lambda>x. if x then wp b Q E else Q False) E"
  by (intro ext) (simp add: sx_and_def wp_def sx_bind_def sx_ret_def split: prod.splits sum.splits)

lemma wp_field [simp, wp_simps]:
  "wp (sx_field sel upd m) Q E
    = (\<lambda>s. wp m (\<lambda>r x. Q r (upd (\<lambda>_. x) s)) (\<lambda>e x. E e (upd (\<lambda>_. x) s)) (sel s))"
  by (intro ext) (simp add: wp_def sx_field_def split: prod.splits sum.splits)

lemma wp_at [simp, wp_simps]:
  "wp (sx_at k m) Q E = (\<lambda>a. wp m (\<lambda>r x. Q r (a(k := x))) (\<lambda>e x. E e (a(k := x))) (a k))"
  by (intro ext) (simp add: wp_def sx_at_def split: prod.splits sum.splits)

lemma wp_finally [simp, wp_simps]:
  "wp (sx_finally m c) Q E = wp m (\<lambda>x. wp c (\<lambda>_. Q x) E) (\<lambda>e. wp c (\<lambda>_. E e) E)"
  by (intro ext) (simp add: sx_finally_def wp_def split: prod.splits sum.splits)

lemma wp_noexcept [simp, wp_simps]: "wp (sx_noexcept m) Q E = wp m Q (\<lambda>_. E Terminated)"
  by (intro ext) (simp add: sx_noexcept_def wp_def split: prod.splits sum.splits)

lemma wp_once [simp, wp_simps]:
  "wp (sx_once flag mark m) Q E = (\<lambda>s. if flag s then Q () s else wp m (\<lambda>_ t. Q () (mark t)) E s)"
  by (intro ext) (simp add: sx_once_def)

lemma wp_if [wp_simps]: "wp (if b then m else n) Q E = (if b then wp m Q E else wp n Q E)"
  by simp

text \<open>The rule of consequence: a lemma about a callee is used with a weaker postcondition.\<close>

lemma wp_conseq:
  assumes "wp m Q E s"
    and "\<And>x t. Q x t \<Longrightarrow> Q' x t"
    and "\<And>e t. E e t \<Longrightarrow> E' e t"
  shows "wp m Q' E' s"
  using assms by (auto simp: wp_def split: prod.splits sum.splits)

lemma wp_conj:
  assumes "wp m Q E s" and "wp m Q' E' s"
  shows "wp m (\<lambda>x t. Q x t \<and> Q' x t) (\<lambda>e t. E e t \<and> E' e t) s"
  using assms by (auto simp: wp_def split: prod.splits sum.splits)

lemma wpD_Inr: "wp m Q E s \<Longrightarrow> m s = (Inr x, t) \<Longrightarrow> Q x t"
  by (simp add: wp_def)

lemma wpD_Inl: "wp m Q E s \<Longrightarrow> m s = (Inl e, t) \<Longrightarrow> E e t"
  by (simp add: wp_def)

lemma wpI:
  assumes "\<And>x t. m s = (Inr x, t) \<Longrightarrow> Q x t"
    and "\<And>e t. m s = (Inl e, t) \<Longrightarrow> E e t"
  shows "wp m Q E s"
  using assms by (auto simp: wp_def split: prod.splits sum.splits)

text \<open>The invariant rule of the for loop.\<close>

lemma wp_for:
  assumes "I s"
    and "\<And>x t. x \<in> set xs \<Longrightarrow> I t \<Longrightarrow> wp (f x) (\<lambda>_. I) E t"
  shows "wp (sx_for xs f) (\<lambda>_. I) E s"
  using assms
proof (induction xs arbitrary: s)
  case Nil
  then show ?case by simp
next
  case (Cons x xs)
  have "wp (f x) (\<lambda>_. I) E s"
    using Cons.prems by simp
  then have "wp (f x) (\<lambda>_. wp (sx_for xs f) (\<lambda>_. I) E) E s"
    by (rule wp_conseq) (use Cons.IH Cons.prems(2) in auto)
  then show ?case by simp
qed

text \<open>A for loop with an invariant on what it has visited.\<close>

lemma wp_for_visited:
  assumes "I [] s"
    and "\<And>ys x zs t. xs = ys @ x # zs \<Longrightarrow> I ys t \<Longrightarrow> wp (f x) (\<lambda>_. I (ys @ [x])) E t"
  shows "wp (sx_for xs f) (\<lambda>_. I xs) E s"
proof -
  have rest: "wp (sx_for zs f) (\<lambda>_. I xs) E t" if "xs = ys @ zs" "I ys t" for ys zs t
    using that
  proof (induction zs arbitrary: ys t)
    case (Cons x zs)
    show ?case
      unfolding sx_for.simps wp_seq
      by (rule wp_conseq [OF assms(2) [OF Cons.prems]]) (use Cons.IH [of "ys @ [x]"] Cons.prems(1) in auto)
  qed simp
  show ?thesis using rest [of "[]" xs s] assms(1) by simp
qed

section \<open>Address intervals\<close>

text \<open>A block of device memory is the half-open interval from its address, of its size.\<close>

definition span :: "nat \<Rightarrow> nat \<Rightarrow> nat set" where
  "span p n = {p ..< p + n}"

lemma span_split: "k \<le> n \<Longrightarrow> span p n = span p k \<union> span (p + k) (n - k)"
  by (auto simp: span_def)

lemma span_split_disjoint: "span p k \<inter> span (p + k) m = {}"
  by (auto simp: span_def)

lemma span_join: "span p m \<union> span (p + m) n = span p (m + n)"
  by (auto simp: span_def)

lemma span_nonempty [simp]: "0 < n \<Longrightarrow> p \<in> span p n"
  by (simp add: span_def)

lemma span_subset_iff: "0 < n \<Longrightarrow> span p n \<subseteq> span q m \<longleftrightarrow> q \<le> p \<and> p + n \<le> q + m"
  by (auto simp: span_def)

section \<open>Machine words\<close>

lemma unat_two_power [simp]:
  assumes "k < LENGTH('a)"
  shows "unat (2 ^ k :: 'a::len word) = 2 ^ k"
proof -
  have "unat (of_nat (2 ^ k) :: 'a word) = 2 ^ k mod 2 ^ LENGTH('a)"
    by (rule unat_of_nat)
  also have "\<dots> = (2 ^ k :: nat)"
    using assms by simp
  finally show ?thesis by simp
qed

lemma unat_push_bit_one [simp]:
  "k < LENGTH('a) \<Longrightarrow> unat (push_bit k 1 :: 'a::len word) = 2 ^ k"
  by (simp add: push_bit_eq_mult)

lemma unat_less_32: "unat (n :: 32 word) < 2 ^ 32"
  using unsigned_less [of n, where ?'a = nat] by simp

lemma unat_less_64: "unat (n :: 64 word) < 2 ^ 64"
  using unsigned_less [of n, where ?'a = nat] by simp

lemma unat_add_small:
  "unat x + unat y < 2 ^ LENGTH('a) \<Longrightarrow> unat (x + y) = unat x + unat (y :: 'a::len word)"
  by (simp add: unat_add_lem)

lemma unat_mult_small:
  "unat x * unat y < 2 ^ LENGTH('a) \<Longrightarrow> unat (x * y) = unat x * unat (y :: 'a::len word)"
  by (simp add: unat_mult_lem)

lemma unat_drop_bit_word: "unat (drop_bit k w :: 'a::len word) = unat w div 2 ^ k"
  by (simp only: unat_drop_bit_eq) (simp add: drop_bit_eq_div)

lemma unat_ucast_up:
  "LENGTH('a::len) \<le> LENGTH('b::len) \<Longrightarrow> unat (ucast (w :: 'a word) :: 'b word) = unat w"
  by (simp add: unsigned_ucast_eq take_bit_nat_eq_self
      order_less_le_trans [OF unsigned_less power_increasing])

lemma unat_ucast_down:
  "unat (ucast (w :: 'a::len word) :: 'b::len word) = unat w mod 2 ^ LENGTH('b)"
  by (simp add: unsigned_ucast_eq take_bit_eq_mod)

end
