(* ===== verification/Int_Divider.thy ===== *)
theory Int_Divider
  imports Supa_Prelude
begin

text \<open>
  \<^verbatim>\<open>aten/ops/kernels/elementwise/IntegerDivider.cuh\<close>: division of 32-bit unsigned integers by a
  fixed divisor, done with one multiplication and a shift. The constructor finds the shift and the
  magic number; the host and the device compute the quotient differently (64-bit and 32-bit
  addition). All arithmetic is kept at its width. The theory shows that the constructor's assertions
  hold for every divisor it accepts, that the host quotient is exact for every dividend, and that the
  device quotient is exact for dividends up to \<^verbatim>\<open>INT32_MAX\<close> and wrong for a dividend above it.
\<close>

section \<open>The divider\<close>

record IntDivider =
  divisor :: "32 word"
  m1 :: "32 word"
  shift :: nat

text \<open>\<^verbatim>\<open>for (shift = 0; shift < 32; shift++) if ((1U << shift) >= divisor) break;\<close>\<close>

function find_shift :: "32 word \<Rightarrow> nat \<Rightarrow> nat" where
  "find_shift d s =
     (if s < 32 then (if d \<le> push_bit s 1 then s else find_shift d (Suc s)) else s)"
  by pat_completeness auto
termination
  by (relation "measure (\<lambda>(d, s). 32 - s)") auto

declare find_shift.simps [simp del]

definition magic_number :: "32 word \<Rightarrow> nat \<Rightarrow> 64 word" where
  "magic_number d s = (push_bit 32 1 * (push_bit s 1 - ucast d)) div ucast d + 1"

text \<open>\<open>None\<close> is a failed \<^verbatim>\<open>assert\<close>.\<close>

definition IntDivider_ctor :: "32 word \<Rightarrow> IntDivider option" where
  "IntDivider_ctor d =
     (if \<not> (1 \<le> d \<and> d \<le> 2147483647) then None
      else let s = find_shift d 0; magic = magic_number d s; m = ucast magic in
        if 0 < m \<and> ucast m = magic then Some \<lparr>divisor = d, m1 = m, shift = s\<rparr> else None)"

definition umulhi :: "32 word \<Rightarrow> 32 word \<Rightarrow> 32 word" where
  "umulhi a b = ucast (drop_bit 32 (ucast a * ucast b :: 64 word))"

definition div_host :: "IntDivider \<Rightarrow> 32 word \<Rightarrow> 32 word" where
  "div_host x n =
     (let t = drop_bit 32 (ucast n * ucast (m1 x)) :: 64 word in
      ucast (drop_bit (shift x) (t + ucast n)))"

definition div_device :: "IntDivider \<Rightarrow> 32 word \<Rightarrow> 32 word" where
  "div_device x n = (let t = umulhi n (m1 x) in drop_bit (shift x) (t + n))"

definition mod_with :: "(IntDivider \<Rightarrow> 32 word \<Rightarrow> 32 word) \<Rightarrow> IntDivider \<Rightarrow> 32 word \<Rightarrow> 32 word" where
  "mod_with dv x n = n - dv x n * divisor x"

definition divmod_with ::
  "(IntDivider \<Rightarrow> 32 word \<Rightarrow> 32 word) \<Rightarrow> IntDivider \<Rightarrow> 32 word \<Rightarrow> 32 word \<times> 32 word" where
  "divmod_with dv x n = (let q = dv x n in (q, n - q * divisor x))"

section \<open>The arithmetic behind it\<close>

text \<open>
  For \<open>s\<close> with \<open>d \<le> 2 ^ s\<close>, the number \<open>2 ^ (N + s) div d + 1\<close> exceeds \<open>2 ^ (N + s) / d\<close> by so little that
  multiplying by it and shifting right is division by \<open>d\<close>.
\<close>

lemma magic_product_div:
  fixes n d m P :: nat
  assumes d: "0 < d" and md: "m * d = P + e" and e: "e \<le> d" and small: "n * e < P"
  shows "m * n div P = n div d"
proof -
  define q r where "q = n div d" and "r = n mod d"
  have n: "n = q * d + r" and r: "r < d"
    using d by (simp_all add: q_def r_def)
  have P: "0 < P" using small by simp
  have prod: "m * n * d = n * P + n * e"
    using arg_cong [OF md, of "\<lambda>x. x * n"] by (simp add: algebra_simps)
  have "q * P * d \<le> m * n * d"
    using prod n by (simp add: algebra_simps)
  then have lower: "q * P \<le> m * n"
    using d by simp
  have "m * n * d < (q * d + r) * P + P"
    using prod small n by simp
  also have "\<dots> = (q * d + Suc r) * P"
    by (simp add: algebra_simps)
  also have "\<dots> \<le> (Suc q * d) * P"
    using r by (intro mult_le_mono1) simp
  finally have "m * n * d < (Suc q * P) * d"
    by (simp add: algebra_simps)
  then have upper: "m * n < Suc q * P"
    using d by (meson mult_less_cancel2)
  show ?thesis
    unfolding q_def [symmetric] using lower upper P
    by (intro div_nat_eqI) (simp_all add: algebra_simps)
qed

lemma fast_div_nat:
  fixes n d s :: nat
  assumes d: "0 < d" "d \<le> 2 ^ s" and n: "n < 2 ^ N"
  defines "m' \<equiv> 2 ^ N * (2 ^ s - d) div d + 1"
  shows "(m' * n div 2 ^ N + n) div 2 ^ s = n div d"
proof -
  define P where "P = (2::nat) ^ (N + s)"
  define m where "m = m' + 2 ^ N"
  have "P = 2 ^ N * (2 ^ s - d) + 2 ^ N * d"
    using d(2) by (simp add: P_def power_add flip: distrib_left)
  then have "P div d = 2 ^ N * (2 ^ s - d) div d + 2 ^ N"
    using d(1) by (simp only: div_mult_self1)
  then have m: "m = P div d + 1"
    by (simp add: m_def m'_def)
  have md: "m * d = P + (d - P mod d)"
  proof -
    have "P div d * d + P mod d = P" by (rule div_mult_mod_eq)
    moreover have "P mod d < d" using d(1) by simp
    ultimately have "P div d * d + d = P + (d - P mod d)" by linarith
    then show ?thesis unfolding m by (simp only: distrib_right mult_1)
  qed
  have "n * (d - P mod d) \<le> n * 2 ^ s"
    using d(2) by (intro mult_le_mono2) simp
  also have "\<dots> < P"
    using n by (simp add: P_def power_add)
  finally have "m * n div P = n div d"
    by (intro magic_product_div [OF d(1) md]) simp_all
  moreover have "m * n div P = (m * n div 2 ^ N) div 2 ^ s"
    by (simp add: P_def power_add div_mult2_eq)
  moreover have "m * n div 2 ^ N = m' * n div 2 ^ N + n"
    by (simp add: m_def distrib_right)
  ultimately show ?thesis by simp
qed

section \<open>The constructor\<close>

lemma find_shift_spec:
  assumes "unat d \<le> 2 ^ 31" and "s \<le> 31" and "\<And>k. k < s \<Longrightarrow> 2 ^ k < unat d"
  shows "find_shift d s \<le> 31 \<and> unat d \<le> 2 ^ find_shift d s
    \<and> (\<forall>k < find_shift d s. 2 ^ k < unat d)"
  using assms
proof (induction d s rule: find_shift.induct)
  case (1 d s)
  have s32: "s < 32" using "1.prems"(2) by simp
  have le: "d \<le> push_bit s 1 \<longleftrightarrow> unat d \<le> 2 ^ s"
    using s32 by (simp add: word_le_nat_alt)
  show ?case
  proof (cases "unat d \<le> 2 ^ s")
    case True
    then show ?thesis
      using "1.prems" s32 le by (simp add: find_shift.simps [of d s])
  next
    case False
    then have "s \<noteq> 31" using "1.prems"(1) by auto
    then have "Suc s \<le> 31" using "1.prems"(2) by simp
    moreover have "\<And>k. k < Suc s \<Longrightarrow> 2 ^ k < unat d"
      using False "1.prems"(3) by (auto simp: less_Suc_eq)
    ultimately show ?thesis
      using "1.IH" False s32 le "1.prems"(1) by (simp add: find_shift.simps [of d s])
  qed
qed

lemma find_shift_two_power:
  assumes "1 \<le> unat d" and "unat d \<le> 2 ^ 31"
  defines "s \<equiv> find_shift d 0"
  shows "s \<le> 31" and "unat d \<le> 2 ^ s" and "2 ^ s < 2 * unat d"
proof -
  have spec: "s \<le> 31 \<and> unat d \<le> 2 ^ s \<and> (\<forall>k < s. 2 ^ k < unat d)"
    unfolding s_def using assms(2) by (intro find_shift_spec) simp_all
  then show "s \<le> 31" and "unat d \<le> 2 ^ s" by simp_all
  show "2 ^ s < 2 * unat d"
  proof (cases s)
    case 0
    then show ?thesis using assms(1) by simp
  next
    case (Suc k)
    then show ?thesis using spec by auto
  qed
qed

lemma magic_number_unat:
  assumes d: "1 \<le> unat d" "unat d \<le> 2147483647"
  defines "s \<equiv> find_shift d 0"
  shows "unat (magic_number d s) = 2 ^ 32 * (2 ^ s - unat d) div unat d + 1"
    and "unat (magic_number d s) < 2 ^ 32"
proof -
  note sh = find_shift_two_power [of d, folded s_def]
  have s: "s \<le> 31" "unat d \<le> 2 ^ s" "2 ^ s < 2 * unat d"
    using sh d by simp_all
  have uc: "unat (ucast d :: 64 word) = unat d"
    by (simp add: unat_ucast_up)
  have sub: "unat (2 ^ s - ucast d :: 64 word) = 2 ^ s - unat d"
    using s(1,2) uc by (subst unat_sub) (simp_all add: word_le_nat_alt)
  define a where "a = (2::nat) ^ s - unat d"
  have a: "a < unat d" using s d(1) by (simp add: a_def)
  then have a31: "a < 2147483647" using d(2) by simp
  have mul: "unat (push_bit 32 1 * (push_bit s 1 - ucast d) :: 64 word) = 2 ^ 32 * a"
    using a31 by (subst unat_mult_small) (simp_all add: sub a_def)
  have "2 ^ 32 * a div unat d \<le> 2 ^ 32 * a div Suc a"
    using a by (intro div_le_mono2) simp_all
  also have "\<dots> < 2 ^ 32 - 1"
  proof -
    have "2 ^ 32 * a < (2 ^ 32 - 1) * Suc a"
      using a31 by simp
    then show ?thesis by (simp add: less_mult_imp_div_less)
  qed
  finally have q: "2 ^ 32 * a div unat d < 2 ^ 32 - 1" .
  have "unat (magic_number d s) = 2 ^ 32 * a div unat d + 1"
    unfolding magic_number_def using q
    by (subst unat_add_small) (simp_all only: unat_div mul uc, simp_all)
  then show "unat (magic_number d s) = 2 ^ 32 * (2 ^ s - unat d) div unat d + 1"
    and "unat (magic_number d s) < 2 ^ 32"
    using q by (simp_all add: a_def)
qed

text \<open>The constructor's assertions never fail on a divisor in the documented range.\<close>

lemma IntDivider_ctor_total:
  assumes "1 \<le> unat d" and "unat d \<le> 2147483647"
  shows "IntDivider_ctor d = Some \<lparr>divisor = d,
    m1 = ucast (magic_number d (find_shift d 0)), shift = find_shift d 0\<rparr>"
proof -
  note m = magic_number_unat [OF assms]
  have fits: "ucast (ucast (magic_number d (find_shift d 0)) :: 32 word)
      = magic_number d (find_shift d 0)"
    by (rule word_unat_eq_iff [THEN iffD2]) (use m in \<open>simp add: unat_ucast_up unat_ucast_down\<close>)
  have pos: "0 < (ucast (magic_number d (find_shift d 0)) :: 32 word)"
    using m by (simp add: word_less_nat_alt unat_ucast_down)
  show ?thesis
    using assms fits pos by (simp add: IntDivider_ctor_def Let_def word_le_nat_alt)
qed

section \<open>The quotients\<close>

lemma IntDivider_ctor_cases:
  assumes "IntDivider_ctor d = Some x"
  shows "1 \<le> unat d" and "unat d \<le> 2147483647" and "divisor x = d" and "shift x \<le> 31"
    and "unat d \<le> 2 ^ shift x"
    and "unat (m1 x) = 2 ^ 32 * (2 ^ shift x - unat d) div unat d + 1"
proof -
  show d: "1 \<le> unat d" "unat d \<le> 2147483647"
    using assms by (simp_all add: IntDivider_ctor_def word_le_nat_alt split: if_splits)
  then have x: "x = \<lparr>divisor = d, m1 = ucast (magic_number d (find_shift d 0)), shift = find_shift d 0\<rparr>"
    using assms IntDivider_ctor_total by simp
  show "divisor x = d" and "shift x \<le> 31" and "unat d \<le> 2 ^ shift x"
    and "unat (m1 x) = 2 ^ 32 * (2 ^ shift x - unat d) div unat d + 1"
    using find_shift_two_power [of d] magic_number_unat [OF d] d
    by (simp_all add: x unat_ucast_down)
qed

lemma high_product_unat:
  "unat (drop_bit 32 (ucast (a :: 32 word) * ucast (b :: 32 word)) :: 64 word)
   = unat a * unat b div 2 ^ 32"
proof -
  have "unat a * unat b < 2 ^ 32 * 2 ^ 32"
    using unat_less_32 [of a] unat_less_32 [of b]
    by (intro mult_strict_mono) simp_all
  then have "unat (ucast a * ucast b :: 64 word) = unat a * unat b"
    by (subst unat_mult_small) (simp_all add: unat_ucast_up)
  then show ?thesis by (simp only: unat_drop_bit_word)
qed

lemma high_product_less: "unat (a :: 32 word) * unat (b :: 32 word) div 2 ^ 32 < 2 ^ 32"
proof -
  have "unat a * unat b < 2 ^ 32 * 2 ^ 32"
    using unat_less_32 [of a] unat_less_32 [of b]
    by (intro mult_strict_mono) simp_all
  then show ?thesis by (rule less_mult_imp_div_less)
qed

lemma fast_quotient:
  assumes "IntDivider_ctor d = Some x"
  shows "(unat (n :: 32 word) * unat (m1 x) div 2 ^ 32 + unat n) div 2 ^ shift x = unat n div unat d"
proof -
  note x = IntDivider_ctor_cases [OF assms]
  have "(unat (m1 x) * unat n div 2 ^ 32 + unat n) div 2 ^ shift x = unat n div unat d"
    unfolding x(6) using x(1) by (intro fast_div_nat x(5) unat_less_32) simp
  then show ?thesis by (simp only: mult.commute [of "unat n"])
qed

lemma div_host_exact:
  assumes "IntDivider_ctor d = Some x"
  shows "div_host x n = n div d"
proof -
  let ?t = "drop_bit 32 (ucast n * ucast (m1 x)) :: 64 word"
  have t: "unat ?t = unat n * unat (m1 x) div 2 ^ 32"
    by (rule high_product_unat)
  have "unat ?t + unat (ucast n :: 64 word) < 2 ^ 64"
    using high_product_less [of n "m1 x"] unat_less_32 [of n]
    by (simp add: t unat_ucast_up)
  then have "unat (?t + ucast n) = unat n * unat (m1 x) div 2 ^ 32 + unat n"
    by (subst unat_add_small) (simp_all add: t unat_ucast_up)
  then have "unat (drop_bit (shift x) (?t + ucast n)) = unat n div unat d"
    using fast_quotient [OF assms, of n] by (simp only: unat_drop_bit_word)
  moreover have "unat n div unat d < 2 ^ 32"
    using unat_less_32 [of n] by (meson div_le_dividend le_less_trans)
  ultimately show ?thesis
    by (intro word_unat_eq_iff [THEN iffD2])
      (simp add: div_host_def Let_def unat_ucast_down unat_div)
qed

lemma div_device_exact:
  assumes "IntDivider_ctor d = Some x" and "unat n \<le> 2147483647"
  shows "div_device x n = n div d"
proof -
  have t: "unat (umulhi n (m1 x)) = unat n * unat (m1 x) div 2 ^ 32"
    using high_product_less [of n "m1 x"]
    by (simp add: umulhi_def unat_ucast_down high_product_unat del: unat_mult_lem)
  have "unat n * unat (m1 x) \<le> unat n * 2 ^ 32"
    using unat_less_32 [of "m1 x"] by (intro mult_le_mono2) simp
  then have "unat n * unat (m1 x) div 2 ^ 32 \<le> unat n * 2 ^ 32 div 2 ^ 32"
    by (rule div_le_mono)
  then have "unat n * unat (m1 x) div 2 ^ 32 \<le> unat n"
    by simp
  then have "unat (umulhi n (m1 x) + n) = unat n * unat (m1 x) div 2 ^ 32 + unat n"
    using assms(2) by (subst unat_add_small) (simp_all add: t)
  then have "unat (drop_bit (shift x) (umulhi n (m1 x) + n)) = unat n div unat d"
    using fast_quotient [OF assms(1), of n] by (simp only: unat_drop_bit_word)
  then show ?thesis
    by (intro word_unat_eq_iff [THEN iffD2]) (simp add: div_device_def Let_def unat_div)
qed

lemma divmod_with_exact:
  assumes "dv x n = n div d" and "divisor x = d"
  shows "divmod_with dv x n = (n div d, n mod d)" and "mod_with dv x n = n mod d"
  using assms by (simp_all add: divmod_with_def mod_with_def Let_def minus_div_mult_eq_mod)

section \<open>The interface the offset calculators rely on\<close>

text \<open>
  A divider for 32-bit indices: whatever the constructor accepts divides exactly, for dividends up
  to a limit.
\<close>

locale index_divider =
  fixes mk :: "32 word \<Rightarrow> 'd option"
    and dm :: "'d \<Rightarrow> 32 word \<Rightarrow> 32 word \<times> 32 word"
    and lim :: nat
  assumes mk_pos: "mk d = Some x \<Longrightarrow> 0 < unat d"
    and dm_exact: "mk d = Some x \<Longrightarrow> unat n \<le> lim \<Longrightarrow> dm x n = (n div d, n mod d)"
begin

lemma dm_quotient_le:
  assumes "mk d = Some x" and "unat n \<le> lim"
  shows "unat (fst (dm x n)) \<le> lim"
  using assms le_trans [OF div_le_dividend] by (simp add: dm_exact unat_div)

end

interpretation host_divider: index_divider IntDivider_ctor "divmod_with div_host" "2 ^ 32 - 1"
  by unfold_locales
    (use IntDivider_ctor_cases(1) in force,
     simp add: divmod_with_exact div_host_exact IntDivider_ctor_cases(3))

interpretation device_divider: index_divider IntDivider_ctor "divmod_with div_device" "2147483647"
  by unfold_locales
    (use IntDivider_ctor_cases(1) in force,
     simp add: divmod_with_exact div_device_exact IntDivider_ctor_cases(3))

section \<open>Properties\<close>

text \<open>
  C25: the constructor's assertions never fail for a divisor between 1 and \<^verbatim>\<open>INT32_MAX\<close>; the divider
  it returns computes the exact quotient and remainder on the host for every 32-bit dividend, and on
  the device for every dividend up to \<^verbatim>\<open>INT32_MAX\<close>.
\<close>

theorem divider_exact:
  assumes "1 \<le> unat d" and "unat d \<le> 2147483647"
  shows "\<exists>x. IntDivider_ctor d = Some x
    \<and> (\<forall>n. divmod_with div_host x n = (n div d, n mod d) \<and> mod_with div_host x n = n mod d)
    \<and> (\<forall>n. unat n \<le> 2147483647 \<longrightarrow>
         divmod_with div_device x n = (n div d, n mod d) \<and> mod_with div_device x n = n mod d)"
proof -
  obtain x where x: "IntDivider_ctor d = Some x" using IntDivider_ctor_total [OF assms] by blast
  then show ?thesis
    using divmod_with_exact [OF _ IntDivider_ctor_cases(3) [OF x]] div_host_exact [OF x]
      div_device_exact [OF x] by blast
qed

theorem divider_exact_witness:
  "\<exists>x. IntDivider_ctor 3 = Some x \<and> divmod_with div_device x 11 = (3, 2)"
  using divider_exact [of 3] by auto


end
