(* ===== verification/Offset_Calculator.thy ===== *)
theory Offset_Calculator
  imports Int_Divider
begin

text \<open>
  \<^verbatim>\<open>aten/ops/kernels/elementwise/OffsetCalculator.cuh\<close>: from the linear index of an element to the
  offset of that element in each operand, by successive division with the dimension sizes. The
  calculators are templates over the index divider; the theory proves them once over the
  \<open>index_divider\<close> interface against the definition of column-major coordinates.
\<close>

section \<open>The calculators\<close>

datatype offset_error = TooManyDims | DividerAssert

definition MAX_DIMS :: nat where
  "MAX_DIMS = 25"

record 'd OffsetCalculator =
  oc_sizes :: "'d list"
  oc_strides :: "32 word list list"

text \<open>C++ integer division truncates towards zero; the quotient is stored as an \<^verbatim>\<open>index_t\<close>.\<close>

definition trunc_div :: "int \<Rightarrow> int \<Rightarrow> int" where
  "trunc_div a b = sgn a * sgn b * (\<bar>a\<bar> div \<bar>b\<bar>)"

definition dim_strides :: "int list list \<Rightarrow> int list option \<Rightarrow> nat \<Rightarrow> 32 word list" where
  "dim_strides strides element_sizes i =
     map (\<lambda>arg. word_of_int (trunc_div (strides ! arg ! i)
            (case element_sizes of None \<Rightarrow> 1 | Some es \<Rightarrow> es ! arg)))
       [0 ..< length strides]"

fun make_dividers :: "(32 word \<Rightarrow> 'd option) \<Rightarrow> int list \<Rightarrow> 'd list option" where
  "make_dividers mk [] = Some []"
| "make_dividers mk (n # ns) =
     (case mk (word_of_int n) of None \<Rightarrow> None
      | Some d \<Rightarrow> map_option ((#) d) (make_dividers mk ns))"

text \<open>
  The constructor: \<open>sizes\<close> holds the sizes of the \<open>dims\<close> dimensions and \<open>strides ! arg\<close> the strides of
  operand \<open>arg\<close>; the number of operands \<^verbatim>\<open>NARGS\<close> is the length of \<open>strides\<close>.
\<close>

definition OffsetCalculator_ctor ::
  "(32 word \<Rightarrow> 'd option) \<Rightarrow> int list \<Rightarrow> int list list \<Rightarrow> int list option \<Rightarrow>
   offset_error + 'd OffsetCalculator" where
  "OffsetCalculator_ctor mk sizes strides element_sizes =
     (if MAX_DIMS < length sizes then Inl TooManyDims
      else case make_dividers mk sizes of None \<Rightarrow> Inl DividerAssert
        | Some ds \<Rightarrow> Inr \<lparr>oc_sizes = ds,
            oc_strides = map (dim_strides strides element_sizes) [0 ..< length sizes]\<rparr>)"

fun offset_loop ::
  "('d \<Rightarrow> 32 word \<Rightarrow> 32 word \<times> 32 word) \<Rightarrow> ('d \<times> 32 word list) list \<Rightarrow> 32 word \<Rightarrow>
   32 word list \<Rightarrow> 32 word list" where
  "offset_loop dm [] linear_idx offsets = offsets"
| "offset_loop dm ((sz, st) # rest) linear_idx offsets =
     (case dm sz linear_idx of (q, r) \<Rightarrow>
        offset_loop dm rest q (map2 (\<lambda>off stride. off + r * stride) offsets st))"

definition OffsetCalculator_get ::
  "('d \<Rightarrow> 32 word \<Rightarrow> 32 word \<times> 32 word) \<Rightarrow> nat \<Rightarrow> 'd OffsetCalculator \<Rightarrow> 32 word \<Rightarrow> 32 word list" where
  "OffsetCalculator_get dm nargs oc linear_idx =
     offset_loop dm (zip (oc_sizes oc) (oc_strides oc)) linear_idx (replicate nargs 0)"

definition TrivialOffsetCalculator_get :: "nat \<Rightarrow> 32 word \<Rightarrow> 32 word list" where
  "TrivialOffsetCalculator_get nargs linear_idx = replicate nargs linear_idx"

text \<open>The hybrid calculator leaves the offset of the matched operand at the linear index.\<close>

fun hybrid_loop ::
  "('d \<Rightarrow> 32 word \<Rightarrow> 32 word \<times> 32 word) \<Rightarrow> nat \<Rightarrow> ('d \<times> 32 word list) list \<Rightarrow> 32 word \<Rightarrow>
   32 word list \<Rightarrow> 32 word list" where
  "hybrid_loop dm matched [] linear_idx offsets = offsets"
| "hybrid_loop dm matched ((sz, st) # rest) linear_idx offsets =
     (case dm sz linear_idx of (q, r) \<Rightarrow>
        hybrid_loop dm matched rest q
          (map (\<lambda>(arg, off, stride). if arg = matched then off else off + r * stride)
             (enumerate 0 (zip offsets st))))"

definition HybridOffsetCalculator_get ::
  "('d \<Rightarrow> 32 word \<Rightarrow> 32 word \<times> 32 word) \<Rightarrow> nat \<Rightarrow> nat \<Rightarrow> 'd OffsetCalculator \<Rightarrow> 32 word \<Rightarrow>
   32 word list" where
  "HybridOffsetCalculator_get dm nargs matched oc linear_idx =
     hybrid_loop dm matched (zip (oc_sizes oc) (oc_strides oc)) linear_idx
       (map (\<lambda>arg. if arg = matched then linear_idx else 0) [0 ..< nargs])"

section \<open>Reference: column-major coordinates\<close>

primrec coords :: "nat list \<Rightarrow> nat \<Rightarrow> nat list" where
  "coords [] n = []"
| "coords (d # ds) n = (n mod d) # coords ds (n div d)"

primrec linear_index :: "nat list \<Rightarrow> nat list \<Rightarrow> nat" where
  "linear_index [] cs = 0"
| "linear_index (d # ds) cs = hd cs + d * linear_index ds (tl cs)"

lemma length_coords [simp]: "length (coords ds n) = length ds"
  by (induction ds arbitrary: n) simp_all

lemma linear_index_coords: "n < prod_list ds \<Longrightarrow> linear_index ds (coords ds n) = n"
proof (induction ds arbitrary: n)
  case Nil
  then show ?case by simp
next
  case (Cons d ds)
  have "n div d < prod_list ds"
    using Cons.prems by (simp add: less_mult_imp_div_less mult.commute)
  then show ?case by (simp add: Cons.IH)
qed

text \<open>The offset of operand \<open>arg\<close> is the scalar product of coordinates and strides, at 32 bits.\<close>

definition ref_offset :: "nat list \<Rightarrow> 32 word list list \<Rightarrow> nat \<Rightarrow> nat \<Rightarrow> 32 word" where
  "ref_offset ds sts n arg = sum_list (map2 (\<lambda>c st. of_nat c * st ! arg) (coords ds n) sts)"

section \<open>Correctness over the divider interface\<close>

lemma map2_add_nth:
  "k < length xs \<Longrightarrow> k < length ys \<Longrightarrow> map2 f xs ys ! k = f (xs ! k) (ys ! k)"
  by simp

lemma make_dividers_spec:
  "make_dividers mk sizes = Some ds \<Longrightarrow> length ds = length sizes
    \<and> (\<forall>i < length sizes. mk (word_of_int (sizes ! i)) = Some (ds ! i))"
  by (induction sizes arbitrary: ds)
    (auto simp: less_Suc_eq_0_disj split: option.splits)

definition index_sizes :: "int list \<Rightarrow> nat list" where
  "index_sizes sizes = map (\<lambda>n. unat (word_of_int n :: 32 word)) sizes"

lemma OffsetCalculator_ctor_dims:
  assumes "OffsetCalculator_ctor mk sizes strides es = Inr oc"
  defines "ps \<equiv> zip (oc_sizes oc) (oc_strides oc)"
  shows "length ps = length sizes"
    and "\<And>i. i < length sizes \<Longrightarrow> mk (word_of_int (sizes ! i)) = Some (fst (ps ! i))"
    and "\<And>i. i < length sizes \<Longrightarrow> length (snd (ps ! i)) = length strides"
    and "map snd ps = map (dim_strides strides es) [0 ..< length sizes]"
    and "length (oc_sizes oc) = length sizes" and "length (oc_strides oc) = length sizes"
  using assms(1) make_dividers_spec [of mk sizes "oc_sizes oc"]
  by (auto simp: ps_def OffsetCalculator_ctor_def dim_strides_def split: if_splits option.splits)

context index_divider
begin

lemma offset_loop_correct:
  assumes "length ds = length ps"
    and "\<And>i. i < length ps \<Longrightarrow> mk (ds ! i) = Some (fst (ps ! i)) \<and> length (snd (ps ! i)) = length offs"
    and "unat n \<le> lim" and "arg < length offs"
  shows "offset_loop dm ps n offs ! arg
      = offs ! arg + ref_offset (map unat ds) (map snd ps) (unat n) arg"
  using assms
proof (induction ps arbitrary: ds n offs)
  case Nil
  then show ?case by (simp add: ref_offset_def)
next
  case (Cons p ps)
  obtain sz st where p: "p = (sz, st)" by fastforce
  obtain d ds' where ds: "ds = d # ds'" using Cons.prems(1) by (cases ds) simp_all
  have mk: "mk d = Some sz" and len: "length st = length offs"
    using Cons.prems(2) [of 0] by (simp_all add: p ds)
  let ?offs = "map2 (\<lambda>off stride. off + n mod d * stride) offs st"
  have dm: "dm sz n = (n div d, n mod d)"
    using mk Cons.prems(3) by (rule dm_exact)
  have q: "unat (n div d) \<le> lim"
    using dm_quotient_le [OF mk Cons.prems(3)] by (simp add: dm)
  have IH: "offset_loop dm ps (n div d) ?offs ! arg
      = ?offs ! arg + ref_offset (map unat ds') (map snd ps) (unat (n div d)) arg"
  proof (rule Cons.IH)
    show "length ds' = length ps" using Cons.prems(1) by (simp add: ds)
    show "mk (ds' ! i) = Some (fst (ps ! i)) \<and> length (snd (ps ! i)) = length ?offs"
      if "i < length ps" for i
      using Cons.prems(2) [of "Suc i"] that len by (simp add: ds)
  qed (use q Cons.prems(4) len in simp_all)
  show ?case
    using IH len Cons.prems(4)
    by (simp add: p ds dm ref_offset_def unat_div unat_mod flip: unat_mod)
qed

lemma hybrid_loop_correct:
  assumes "length ds = length ps"
    and "\<And>i. i < length ps \<Longrightarrow> mk (ds ! i) = Some (fst (ps ! i)) \<and> length (snd (ps ! i)) = length offs"
    and "unat n \<le> lim" and "arg < length offs"
  shows "hybrid_loop dm matched ps n offs ! arg
      = (if arg = matched then offs ! arg
         else offs ! arg + ref_offset (map unat ds) (map snd ps) (unat n) arg)"
  using assms
proof (induction ps arbitrary: ds n offs)
  case Nil
  then show ?case by (simp add: ref_offset_def)
next
  case (Cons p ps)
  obtain sz st where p: "p = (sz, st)" by fastforce
  obtain d ds' where ds: "ds = d # ds'" using Cons.prems(1) by (cases ds) simp_all
  have mk: "mk d = Some sz" and len: "length st = length offs"
    using Cons.prems(2) [of 0] by (simp_all add: p ds)
  let ?offs = "map (\<lambda>(arg, off, stride). if arg = matched then off else off + n mod d * stride)
    (enumerate 0 (zip offs st))"
  have dm: "dm sz n = (n div d, n mod d)"
    using mk Cons.prems(3) by (rule dm_exact)
  have q: "unat (n div d) \<le> lim"
    using dm_quotient_le [OF mk Cons.prems(3)] by (simp add: dm)
  have IH: "hybrid_loop dm matched ps (n div d) ?offs ! arg
      = (if arg = matched then ?offs ! arg
         else ?offs ! arg + ref_offset (map unat ds') (map snd ps) (unat (n div d)) arg)"
  proof (rule Cons.IH)
    show "length ds' = length ps" using Cons.prems(1) by (simp add: ds)
    show "mk (ds' ! i) = Some (fst (ps ! i)) \<and> length (snd (ps ! i)) = length ?offs"
      if "i < length ps" for i
      using Cons.prems(2) [of "Suc i"] that len by (simp add: ds)
  qed (use q Cons.prems(4) len in simp_all)
  show ?case
    using IH len Cons.prems(4)
    by (simp add: p ds dm ref_offset_def unat_div nth_enumerate_eq flip: unat_mod)
qed

lemma OffsetCalculator_get_ref:
  assumes oc: "OffsetCalculator_ctor mk sizes strides es = Inr oc"
    and "unat n \<le> lim" and "arg < length strides"
  shows "OffsetCalculator_get dm (length strides) oc n ! arg
    = ref_offset (index_sizes sizes) (map (dim_strides strides es) [0 ..< length sizes]) (unat n) arg"
proof -
  note ps = OffsetCalculator_ctor_dims [OF oc]
  have "OffsetCalculator_get dm (length strides) oc n ! arg
      = replicate (length strides) 0 ! arg + ref_offset (map unat (map word_of_int sizes :: 32 word list))
          (map snd (zip (oc_sizes oc) (oc_strides oc))) (unat n) arg"
    unfolding OffsetCalculator_get_def
    by (rule offset_loop_correct) (use ps(2,3,5,6) assms in simp_all)
  then show ?thesis
    using assms(3) by (simp add: ps(4) index_sizes_def comp_def)
qed

lemma HybridOffsetCalculator_get_ref:
  assumes oc: "OffsetCalculator_ctor mk sizes strides es = Inr oc"
    and "unat n \<le> lim" and "arg < length strides"
  shows "HybridOffsetCalculator_get dm (length strides) matched oc n ! arg
    = (if arg = matched then TrivialOffsetCalculator_get (length strides) n ! arg
       else OffsetCalculator_get dm (length strides) oc n ! arg)"
proof -
  note ps = OffsetCalculator_ctor_dims [OF oc]
  let ?offs = "map (\<lambda>arg. if arg = matched then n else 0) [0 ..< length strides]"
  have "HybridOffsetCalculator_get dm (length strides) matched oc n ! arg
      = (if arg = matched then ?offs ! arg
         else ?offs ! arg + ref_offset (map unat (map word_of_int sizes :: 32 word list))
          (map snd (zip (oc_sizes oc) (oc_strides oc))) (unat n) arg)"
    unfolding HybridOffsetCalculator_get_def
    by (rule hybrid_loop_correct) (use ps(2,3,5,6) assms in simp_all)
  then show ?thesis
    using assms OffsetCalculator_get_ref [OF assms]
    by (simp add: ps(4) index_sizes_def comp_def TrivialOffsetCalculator_get_def)
qed

end

section \<open>Properties\<close>

text \<open>
  C24: on the device, the offset of every operand is the scalar product of its strides with the
  column-major coordinates of the linear index, for every index up to \<^verbatim>\<open>INT32_MAX\<close>, although each
  coordinate is computed by multiplication with a magic number; and the coordinates determine the
  index.
\<close>

theorem device_offsets_correct:
  assumes "OffsetCalculator_ctor IntDivider_ctor sizes strides es = Inr oc"
    and "unat n \<le> 2147483647" and "arg < length strides"
  shows "OffsetCalculator_get (divmod_with div_device) (length strides) oc n ! arg
      = ref_offset (index_sizes sizes) (map (dim_strides strides es) [0 ..< length sizes]) (unat n) arg
    \<and> HybridOffsetCalculator_get (divmod_with div_device) (length strides) matched oc n ! arg
      = (if arg = matched then n
         else ref_offset (index_sizes sizes) (map (dim_strides strides es) [0 ..< length sizes])
           (unat n) arg)
    \<and> (unat n < prod_list (index_sizes sizes) \<longrightarrow>
        linear_index (index_sizes sizes) (coords (index_sizes sizes) (unat n)) = unat n)"
  using device_divider.OffsetCalculator_get_ref [OF assms]
    device_divider.HybridOffsetCalculator_get_ref [OF assms] linear_index_coords assms(3)
  by (simp add: TrivialOffsetCalculator_get_def)

theorem device_offsets_correct_witness:
  "\<exists>oc. OffsetCalculator_ctor IntDivider_ctor [3, 4] [[1, 3], [0, 8]] None = Inr oc
    \<and> OffsetCalculator_get (divmod_with div_device) 2 oc 7 ! 0 = 7
    \<and> OffsetCalculator_get (divmod_with div_device) 2 oc 7 ! 1 = 16"
proof -
  define oc where "oc = (case OffsetCalculator_ctor IntDivider_ctor [3, 4] [[1, 3], [0, 8]] None of
    Inr oc \<Rightarrow> oc | Inl _ \<Rightarrow> undefined)"
  have "OffsetCalculator_ctor IntDivider_ctor [3, 4] [[1, 3], [0, 8]] None = Inr oc"
    by (simp add: oc_def OffsetCalculator_ctor_def MAX_DIMS_def IntDivider_ctor_total)
  then show ?thesis
    using device_offsets_correct [of "[3, 4]" "[[1, 3], [0, 8]]" None oc 7 0 1]
      device_offsets_correct [of "[3, 4]" "[[1, 3], [0, 8]]" None oc 7 1 0]
    by (auto simp: ref_offset_def index_sizes_def dim_strides_def trunc_div_def upt_rec simp flip: numeral_2_eq_2)
qed

end
