(* ===== verification/Alloc_Config.thy ===== *)
theory Alloc_Config
  imports Supa_Prelude
begin

text \<open>
  \<^verbatim>\<open>core/supa/SUPAAllocatorConfig.{h,cpp}\<close>: the settings of the caching allocator and the parser of
  \<^verbatim>\<open>PYTORCH_SUPA_ALLOC_CONF\<close>. The settings object is the state; parsing writes its fields one option
  at a time and a malformed option throws in the middle, so what holds of the settings is proved of
  the state reached in both outcomes. A \<^verbatim>\<open>size_t\<close> is a natural number, with the conversion from
  \<^verbatim>\<open>int\<close> written out modulo \<open>2 ^ 64\<close>; a \<^verbatim>\<open>double\<close> is a rational number. The bit-counting functions
  of \<^verbatim>\<open>c10/util/llvmMathExtras.h\<close> and \<^verbatim>\<open>std::stod\<close> are arguments of the model, in the record
  \<open>cxx_lib\<close>.
\<close>

section \<open>Constants and settings\<close>

definition kRoundUpPowerOfTwoIntervals :: nat where "kRoundUpPowerOfTwoIntervals = 16"
definition kMinBlockSize :: nat where "kMinBlockSize = 512"
definition kSmallSize :: nat where "kSmallSize = 1048576"
definition kSmallBuffer :: nat where "kSmallBuffer = 2097152"
definition kLargeBuffer :: nat where "kLargeBuffer = 20971520"
definition kMinLargeAlloc :: nat where "kMinLargeAlloc = 10485760"
definition kRoundLarge :: nat where "kRoundLarge = 2097152"

definition size_max :: nat where "size_max = 18446744073709551615"

lemmas size_consts = kMinBlockSize_def kSmallSize_def kSmallBuffer_def kLargeBuffer_def
  kMinLargeAlloc_def kRoundLarge_def

record SUPAAllocatorConfig =
  m_max_split_size :: nat
  m_max_non_split_rounding_size :: nat
  m_roundup_power2_divisions :: "nat list"
  m_garbage_collection_threshold :: rat
  m_pinned_num_register_threads :: nat
  m_pinned_reserve_segment_size_mb :: nat
  m_expandable_segments :: bool
  m_release_lock_on_supamalloc :: bool
  m_pinned_use_supa_host_register :: bool
  m_pinned_use_background_threads :: bool

definition SUPAAllocatorConfig_ctor :: SUPAAllocatorConfig where
  "SUPAAllocatorConfig_ctor =
     \<lparr>m_max_split_size = size_max,
      m_max_non_split_rounding_size = kLargeBuffer,
      m_roundup_power2_divisions = replicate kRoundUpPowerOfTwoIntervals 0,
      m_garbage_collection_threshold = 0,
      m_pinned_num_register_threads = 1,
      m_pinned_reserve_segment_size_mb = 0,
      m_expandable_segments = False,
      m_release_lock_on_supamalloc = False,
      m_pinned_use_supa_host_register = False,
      m_pinned_use_background_threads = False\<rparr>"

definition pinned_max_register_threads :: nat where
  "pinned_max_register_threads = 128"

section \<open>Lexing\<close>

definition is_separator :: "char \<Rightarrow> bool" where
  "is_separator c \<longleftrightarrow> c = CHR '','' \<or> c = CHR '':'' \<or> c = CHR ''['' \<or> c = CHR '']''"

fun lex_loop :: "string \<Rightarrow> string \<Rightarrow> string list \<Rightarrow> string list" where
  "lex_loop [] buf config = (if buf \<noteq> [] then config @ [buf] else config)"
| "lex_loop (c # cs) buf config =
     (if is_separator c
      then lex_loop cs [] ((if buf \<noteq> [] then config @ [buf] else config) @ [[c]])
      else if c \<noteq> CHR '' '' then lex_loop cs (buf @ [c]) config
      else lex_loop cs buf config)"

definition lexArgs :: "string \<Rightarrow> string list" where
  "lexArgs env = lex_loop env [] []"

section \<open>The standard library's stoi\<close>

definition is_space :: "char \<Rightarrow> bool" where
  "is_space c \<longleftrightarrow> of_char c \<in> {9, 10, 11, 12, 13, 32 :: nat}"

definition is_digit :: "char \<Rightarrow> bool" where
  "is_digit c \<longleftrightarrow> (48 :: nat) \<le> of_char c \<and> of_char c \<le> (57 :: nat)"

definition digits_value :: "string \<Rightarrow> int" where
  "digits_value ds = foldl (\<lambda>acc c. 10 * acc + (of_char c - 48)) 0 ds"

definition stoi :: "string \<Rightarrow> exn + int" where
  "stoi str =
     (let s = dropWhile is_space str;
          (neg, s) = (case s of c # cs \<Rightarrow>
              if c = CHR ''-'' then (True, cs) else if c = CHR ''+'' then (False, cs) else (False, s)
            | [] \<Rightarrow> (False, s));
          ds = takeWhile is_digit s;
          v = (if neg then - digits_value ds else digits_value ds)
      in if ds = [] then Inl StdInvalidArgument
         else if v < - (2 ^ 31) \<or> 2 ^ 31 \<le> v then Inl StdOutOfRange
         else Inr v)"

definition int_to_size :: "int \<Rightarrow> nat" where
  "int_to_size v = nat (v mod 2 ^ 64)"

section \<open>Library functions the code calls\<close>

record cxx_lib =
  stod :: "string \<Rightarrow> exn + rat"
  isPowerOf2_64 :: "nat \<Rightarrow> bool"
  countLeadingZeros :: "nat \<Rightarrow> nat"
  PowerOf2Floor :: "nat \<Rightarrow> nat"

text \<open>What \<^verbatim>\<open>llvmMathExtras.h\<close> documents of its functions, on nonzero 64-bit arguments.\<close>

definition cxx_lib_ok :: "cxx_lib \<Rightarrow> bool" where
  "cxx_lib_ok L \<longleftrightarrow>
     (\<forall>n. isPowerOf2_64 L n \<longleftrightarrow> (\<exists>k < 64. n = 2 ^ k)) \<and>
     (\<forall>n. 0 < n \<longrightarrow> n < 2 ^ 64 \<longrightarrow>
        countLeadingZeros L n \<le> 63 \<and> 2 ^ (63 - countLeadingZeros L n) \<le> n \<and>
        n < 2 * 2 ^ (63 - countLeadingZeros L n) \<and>
        PowerOf2Floor L n = 2 ^ (63 - countLeadingZeros L n))"

section \<open>Parsing\<close>

type_synonym 'a config_op = "(SUPAAllocatorConfig, exn, 'a) sx"

definition sx_lift :: "'e + 'a \<Rightarrow> ('s, 'e, 'a) sx" where
  "sx_lift r = (case r of Inl e \<Rightarrow> sx_throw e | Inr x \<Rightarrow> sx_ret x)"

definition consumeToken :: "string list \<Rightarrow> nat \<Rightarrow> char \<Rightarrow> unit config_op" where
  "consumeToken config i c =
     sx_check (i < length config \<and> config ! i = [c]) (TorchCheck ''expected token'')"

definition parseMaxSplitSize :: "string list \<Rightarrow> nat \<Rightarrow> nat config_op" where
  "parseMaxSplitSize config i =
     sx_seq (consumeToken config (i + 1) CHR '':'')
       (if i + 2 < length config then
          sx_bind (sx_lift (stoi (config ! (i + 2)))) (\<lambda>v.
          let val1 = int_to_size v in
          sx_seq (sx_check (kLargeBuffer div (1024 * 1024) < val1) (TorchCheck ''max_split_size_mb too small''))
          (let val1 = max val1 (kLargeBuffer div (1024 * 1024));
               val1 = min val1 (size_max div (1024 * 1024)) in
           sx_seq (sx_mod (\<lambda>s. s\<lparr>m_max_split_size := val1 * 1024 * 1024\<rparr>))
           (sx_ret (i + 2))))
        else sx_throw (TorchCheck ''expecting max_split_size_mb value''))"

definition parseMaxNonSplitRoundingSize :: "string list \<Rightarrow> nat \<Rightarrow> nat config_op" where
  "parseMaxNonSplitRoundingSize config i =
     sx_seq (consumeToken config (i + 1) CHR '':'')
       (if i + 2 < length config then
          sx_bind (sx_lift (stoi (config ! (i + 2)))) (\<lambda>v.
          let val1 = int_to_size v in
          sx_seq (sx_check (kLargeBuffer div (1024 * 1024) < val1)
            (TorchCheck ''max_non_split_rounding_mb too small''))
          (let val1 = max val1 (kLargeBuffer div (1024 * 1024));
               val1 = min val1 (size_max div (1024 * 1024)) in
           sx_seq (sx_mod (\<lambda>s. s\<lparr>m_max_non_split_rounding_size := val1 * 1024 * 1024\<rparr>))
           (sx_ret (i + 2))))
        else sx_throw (TorchCheck ''expecting max_non_split_rounding_mb value''))"

definition parseGarbageCollectionThreshold ::
  "cxx_lib \<Rightarrow> string list \<Rightarrow> nat \<Rightarrow> nat config_op" where
  "parseGarbageCollectionThreshold L config i =
     sx_seq (consumeToken config (i + 1) CHR '':'')
       (if i + 2 < length config then
          sx_bind (sx_lift (stod L (config ! (i + 2)))) (\<lambda>val1.
          sx_seq (sx_check (0 < val1) (TorchCheck ''garbage_collect_threshold too small''))
          (sx_seq (sx_check (val1 < 1) (TorchCheck ''garbage_collect_threshold too big''))
          (sx_seq (sx_mod (\<lambda>s. s\<lparr>m_garbage_collection_threshold := val1\<rparr>))
          (sx_ret (i + 2)))))
        else sx_throw (TorchCheck ''expecting garbage_collection_threshold value''))"

definition parsePinnedUseSupaHostRegister :: "string list \<Rightarrow> nat \<Rightarrow> nat config_op" where
  "parsePinnedUseSupaHostRegister config i =
     sx_seq (consumeToken config (i + 1) CHR '':'')
       (if i + 2 < length config then
          sx_seq (sx_check (config ! (i + 2) = ''True'' \<or> config ! (i + 2) = ''False'')
            (TorchCheck ''Expected a single True/False argument''))
          (sx_seq (sx_mod (\<lambda>s. s\<lparr>m_pinned_use_supa_host_register := (config ! (i + 2) = ''True'')\<rparr>))
          (sx_ret (i + 2)))
        else sx_throw (TorchCheck ''expecting pinned_use_supa_host_register value''))"

definition parsePinnedNumRegisterThreads :: "cxx_lib \<Rightarrow> string list \<Rightarrow> nat \<Rightarrow> nat config_op" where
  "parsePinnedNumRegisterThreads L config i =
     sx_seq (consumeToken config (i + 1) CHR '':'')
       (if i + 2 < length config then
          sx_bind (sx_lift (stoi (config ! (i + 2)))) (\<lambda>v.
          let val2 = int_to_size v in
          sx_seq (sx_check (isPowerOf2_64 L val2) (TorchCheck ''register threads power of 2''))
          (sx_seq (sx_check (val2 \<le> pinned_max_register_threads) (TorchCheck ''too many register threads''))
          (sx_seq (sx_mod (\<lambda>s. s\<lparr>m_pinned_num_register_threads := val2\<rparr>))
          (sx_ret (i + 2)))))
        else sx_throw (TorchCheck ''expecting pinned_num_register_threads value''))"

text \<open>
  The boolean options written inline in \<^verbatim>\<open>parseArgs\<close>. For \<^verbatim>\<open>expandable_segments\<close> the value token is
  compared with \<^verbatim>\<open>True\<close>; for \<^verbatim>\<open>release_lock_on_supamalloc\<close> the code compares the \<^emph>\<open>option name\<close>
  (\<^verbatim>\<open>config_item_view\<close> still views the token at \<open>i\<close> before it was advanced).
\<close>

definition parseExpandableSegments :: "string list \<Rightarrow> nat \<Rightarrow> nat config_op" where
  "parseExpandableSegments config i =
     sx_seq (consumeToken config (i + 1) CHR '':'')
       (sx_seq (sx_check (i + 2 < length config \<and>
            (config ! (i + 2) = ''True'' \<or> config ! (i + 2) = ''False''))
          (TorchCheck ''Expected a single True/False argument''))
       (sx_seq (sx_mod (\<lambda>s. s\<lparr>m_expandable_segments := (config ! (i + 2) = ''True'')\<rparr>))
       (sx_ret (i + 2))))"

definition parseReleaseLock :: "string list \<Rightarrow> nat \<Rightarrow> nat config_op" where
  "parseReleaseLock config i =
     (let config_item_view = config ! i in
      sx_seq (consumeToken config (i + 1) CHR '':'')
       (sx_seq (sx_check (i + 2 < length config \<and>
            (config ! (i + 2) = ''True'' \<or> config ! (i + 2) = ''False''))
          (TorchCheck ''Expected a single True/False argument''))
       (sx_seq (sx_mod (\<lambda>s. s\<lparr>m_release_lock_on_supamalloc := (config_item_view = ''True'')\<rparr>))
       (sx_ret (i + 2)))))"

definition parse_item :: "cxx_lib \<Rightarrow> string list \<Rightarrow> nat \<Rightarrow> nat config_op" where
  "parse_item L config i =
     (let v = config ! i in
      if v = ''max_split_size_mb'' then parseMaxSplitSize config i
      else if v = ''max_non_split_rounding_mb'' then parseMaxNonSplitRoundingSize config i
      else if v = ''garbage_collection_threshold'' then parseGarbageCollectionThreshold L config i
      else if v = ''expandable_segments'' then parseExpandableSegments config i
      else if v = ''release_lock_on_hipmalloc'' \<or> v = ''release_lock_on_supamalloc'' \<or>
        v = ''release_lock_on_cudamalloc'' then parseReleaseLock config i
      else if v = ''pinned_use_hip_host_register'' \<or> v = ''pinned_use_supa_host_register'' \<or>
        v = ''pinned_use_cuda_host_register'' then parsePinnedUseSupaHostRegister config i
      else if v = ''pinned_num_register_threads'' then parsePinnedNumRegisterThreads L config i
      else sx_throw (TorchCheck ''Unrecognized CachingAllocator option''))"

text \<open>
  The loop over the tokens. Every round consumes at least one token, so as much fuel as there are
  tokens is enough; \<open>parse_loop_fuel\<close> below shows that more fuel never changes the outcome.
\<close>

fun parse_loop :: "cxx_lib \<Rightarrow> nat \<Rightarrow> string list \<Rightarrow> nat \<Rightarrow> unit config_op" where
  "parse_loop L 0 config i = sx_ret ()"
| "parse_loop L (Suc fuel) config i =
     (if i < length config then
        sx_bind (parse_item L config i) (\<lambda>j.
        if j + 1 < length config then
          sx_seq (consumeToken config (j + 1) CHR '','') (parse_loop L fuel config (j + 2))
        else parse_loop L fuel config (j + 1))
      else sx_ret ())"

definition parseArgs :: "cxx_lib \<Rightarrow> string option \<Rightarrow> unit config_op" where
  "parseArgs L env =
     sx_seq (sx_mod (\<lambda>s. s\<lparr>m_max_split_size := size_max,
        m_roundup_power2_divisions := replicate kRoundUpPowerOfTwoIntervals 0,
        m_garbage_collection_threshold := 0\<rparr>))
     (case env of None \<Rightarrow> sx_ret ()
      | Some e \<Rightarrow> let config = lexArgs e in parse_loop L (length config) config 0)"

definition setAllocatorSettings :: "cxx_lib \<Rightarrow> string \<Rightarrow> unit config_op" where
  "setAllocatorSettings L env = parseArgs L (Some env)"

section \<open>The lexer keeps every character but the spaces\<close>

definition is_word :: "string \<Rightarrow> bool" where
  "is_word w \<longleftrightarrow> w \<noteq> [] \<and> list_all (\<lambda>c. \<not> is_separator c \<and> c \<noteq> CHR '' '') w"

definition is_sep_token :: "string \<Rightarrow> bool" where
  "is_sep_token w \<longleftrightarrow> length w = 1 \<and> is_separator (hd w)"

fun well_lexed :: "string list \<Rightarrow> bool" where
  "well_lexed [] = True"
| "well_lexed [w] = (is_word w \<or> is_sep_token w)"
| "well_lexed (w # v # ws) =
     ((is_word w \<or> is_sep_token w) \<and> (is_sep_token w \<or> is_sep_token v) \<and> well_lexed (v # ws))"

lemma well_lexed_snoc:
  "well_lexed (ws @ [v]) \<longleftrightarrow> well_lexed ws \<and> (is_word v \<or> is_sep_token v)
    \<and> (ws = [] \<or> is_sep_token (last ws) \<or> is_sep_token v)"
  by (induction ws rule: well_lexed.induct) auto

lemma well_lexed_snoc_sep: "well_lexed ws \<Longrightarrow> is_separator c \<Longrightarrow> well_lexed (ws @ [[c]])"
  by (simp add: well_lexed_snoc is_sep_token_def)

lemma lex_loop_spec:
  assumes "well_lexed config" and "buf = [] \<or> is_word buf"
    and "config = [] \<or> is_sep_token (last config)"
  shows "concat (lex_loop cs buf config) = concat config @ buf @ filter (\<lambda>c. c \<noteq> CHR '' '') cs
    \<and> well_lexed (lex_loop cs buf config)"
  using assms
proof (induction cs buf config rule: lex_loop.induct)
  case (1 buf config)
  then show ?case by (auto simp: well_lexed_snoc)
next
  case (2 c cs buf config)
  let ?config = "if buf \<noteq> [] then config @ [buf] else config"
  have flush: "well_lexed (?config @ [[c]])" if "is_separator c"
    using "2.prems" that by (intro well_lexed_snoc_sep) (auto simp: well_lexed_snoc)
  consider (sep) "is_separator c" | (char) "\<not> is_separator c" "c \<noteq> CHR '' ''" | (space) "c = CHR '' ''"
    "\<not> is_separator c" by blast
  then show ?case
  proof cases
    case sep
    then have "c \<noteq> CHR '' ''" by (auto simp: is_separator_def)
    then show ?thesis
      using "2.IH"(1) [OF sep flush [OF sep]] sep by (auto simp: is_sep_token_def)
  next
    case char
    then have "is_word (buf @ [c])" using "2.prems"(2) by (auto simp: is_word_def)
    then show ?thesis
      using "2.IH"(2) [OF char "2.prems"(1) _ "2.prems"(3)] char by simp
  next
    case space
    then show ?thesis using "2.IH"(3) "2.prems" by simp
  qed
qed

lemma lex_loop_words:
  "is_word w \<Longrightarrow> lex_loop (w @ cs) buf config = lex_loop cs (buf @ w) config"
proof -
  assume "is_word w"
  then have "list_all (\<lambda>c. \<not> is_separator c \<and> c \<noteq> CHR '' '') w" by (simp add: is_word_def)
  then show ?thesis by (induction w arbitrary: buf) simp_all
qed

lemma lex_loop_concat:
  assumes "well_lexed ws" and "buf = [] \<or> ws = [] \<or> is_sep_token (hd ws)"
  shows "lex_loop (concat ws) buf config = config @ (if buf = [] then [] else [buf]) @ ws"
  using assms
proof (induction ws arbitrary: buf config)
  case Nil
  then show ?case by simp
next
  case (Cons w ws)
  have tail: "well_lexed ws" using Cons.prems(1) by (cases ws) simp_all
  show ?case
  proof (cases "is_sep_token w")
    case True
    then obtain c where w: "w = [c]" "is_separator c"
      by (auto simp: is_sep_token_def length_Suc_conv)
    show ?thesis using Cons.IH [OF tail, of "[]"] w by simp
  next
    case False
    then have w: "is_word w" and ne: "w \<noteq> []" and b: "buf = []"
      using Cons.prems by (cases ws, auto simp: is_word_def) (cases ws, auto simp: is_word_def)
    have "ws = [] \<or> is_sep_token (hd ws)"
      using Cons.prems(1) False by (cases ws) simp_all
    then show ?thesis
      using Cons.IH [OF tail, of w] w ne b by (simp add: lex_loop_words)
  qed
qed

section \<open>What the parser can leave in the settings\<close>

definition config_ok :: "SUPAAllocatorConfig \<Rightarrow> bool" where
  "config_ok c \<longleftrightarrow>
     (m_max_split_size c = size_max \<or>
       1024 * 1024 dvd m_max_split_size c \<and> kLargeBuffer < m_max_split_size c \<and>
       m_max_split_size c \<le> size_max) \<and>
     kLargeBuffer \<le> m_max_non_split_rounding_size c \<and> m_max_non_split_rounding_size c \<le> size_max \<and>
     m_roundup_power2_divisions c = replicate kRoundUpPowerOfTwoIntervals 0 \<and>
     0 \<le> m_garbage_collection_threshold c \<and> m_garbage_collection_threshold c < 1 \<and>
     m_pinned_num_register_threads c \<le> pinned_max_register_threads \<and>
     \<not> m_release_lock_on_supamalloc c"

lemma wp_lift [simp, wp_simps]:
  "wp (sx_lift r) Q E = (case r of Inl e \<Rightarrow> E e | Inr x \<Rightarrow> Q x)"
  by (simp add: sx_lift_def split: sum.splits)

lemma split_size_bounds:
  fixes v :: nat
  assumes "kLargeBuffer div (1024 * 1024) < v"
  defines "m \<equiv> min (max v (kLargeBuffer div (1024 * 1024))) (size_max div (1024 * 1024)) * 1024 * 1024"
  shows "1024 * 1024 dvd m" and "kLargeBuffer < m" and "m \<le> size_max"
  using assms by (simp_all add: m_def kLargeBuffer_def size_max_def)

lemmas parse_defs = parseMaxSplitSize_def parseMaxNonSplitRoundingSize_def
  parseGarbageCollectionThreshold_def parseExpandableSegments_def parseReleaseLock_def
  parsePinnedUseSupaHostRegister_def parsePinnedNumRegisterThreads_def consumeToken_def

lemma parse_item_ok:
  assumes "config_ok s"
  shows "wp (parse_item L config i) (\<lambda>j t. config_ok t \<and> j = i + 2) (\<lambda>_. config_ok) s"
proof -
  note b = split_size_bounds
  have "wp (parseMaxSplitSize config i) (\<lambda>j t. config_ok t \<and> j = i + 2) (\<lambda>_. config_ok) s"
    using assms b by (auto simp: parse_defs Let_def config_ok_def split: sum.splits)
  moreover have "wp (parseMaxNonSplitRoundingSize config i) (\<lambda>j t. config_ok t \<and> j = i + 2) (\<lambda>_. config_ok) s"
    using assms b(2,3) by (auto simp: parse_defs Let_def config_ok_def less_imp_le split: sum.splits)
  moreover have "wp (parseReleaseLock config i) (\<lambda>j t. config_ok t \<and> j = i + 2) (\<lambda>_. config_ok) s"
    if "config ! i \<noteq> ''True''"
    using assms that by (auto simp: parse_defs Let_def config_ok_def)
  moreover have "wp (parseGarbageCollectionThreshold L config i) (\<lambda>j t. config_ok t \<and> j = i + 2) (\<lambda>_. config_ok) s"
    using assms by (auto simp: parse_defs config_ok_def split: sum.splits)
  moreover have "wp (parseExpandableSegments config i) (\<lambda>j t. config_ok t \<and> j = i + 2) (\<lambda>_. config_ok) s"
    using assms by (auto simp: parse_defs config_ok_def)
  moreover have "wp (parsePinnedUseSupaHostRegister config i) (\<lambda>j t. config_ok t \<and> j = i + 2) (\<lambda>_. config_ok) s"
    using assms by (auto simp: parse_defs config_ok_def)
  moreover have "wp (parsePinnedNumRegisterThreads L config i) (\<lambda>j t. config_ok t \<and> j = i + 2) (\<lambda>_. config_ok) s"
    using assms by (auto simp: parse_defs Let_def config_ok_def split: sum.splits)
  ultimately show ?thesis
    using assms by (auto simp: parse_item_def Let_def)
qed

lemma parse_loop_ok:
  "config_ok s \<Longrightarrow> wp (parse_loop L fuel config i) (\<lambda>_. config_ok) (\<lambda>_. config_ok) s"
proof (induction fuel arbitrary: i s)
  case 0
  then show ?case by simp
next
  case (Suc fuel)
  have "wp (parse_item L config i) (\<lambda>j. wp (if j + 1 < length config
      then sx_seq (consumeToken config (j + 1) CHR '','') (parse_loop L fuel config (j + 2))
      else parse_loop L fuel config (j + 1)) (\<lambda>_. config_ok) (\<lambda>_. config_ok)) (\<lambda>_. config_ok) s"
    by (rule wp_conseq [OF parse_item_ok [OF Suc.prems]])
      (auto simp: consumeToken_def intro: Suc.IH)
  then show ?case using Suc.prems by simp
qed

lemma parseArgs_ok: "config_ok s \<Longrightarrow> wp (parseArgs L env) (\<lambda>_. config_ok) (\<lambda>_. config_ok) s"
  by (auto simp: parseArgs_def Let_def config_ok_def [of "s\<lparr>m_max_split_size := _, m_roundup_power2_divisions := _,
      m_garbage_collection_threshold := _\<rparr>"] config_ok_def [of s] split: option.splits
      intro!: parse_loop_ok)

lemma parse_item_pos: "wp (parse_item L config i) (\<lambda>j t. j = i + 2) (\<lambda>_ _. True) s"
proof -
  have "wp (parseMaxSplitSize config i) (\<lambda>j t. j = i + 2) (\<lambda>_ _. True) s"
    "wp (parseMaxNonSplitRoundingSize config i) (\<lambda>j t. j = i + 2) (\<lambda>_ _. True) s"
    "wp (parseGarbageCollectionThreshold L config i) (\<lambda>j t. j = i + 2) (\<lambda>_ _. True) s"
    "wp (parseExpandableSegments config i) (\<lambda>j t. j = i + 2) (\<lambda>_ _. True) s"
    "wp (parseReleaseLock config i) (\<lambda>j t. j = i + 2) (\<lambda>_ _. True) s"
    "wp (parsePinnedUseSupaHostRegister config i) (\<lambda>j t. j = i + 2) (\<lambda>_ _. True) s"
    "wp (parsePinnedNumRegisterThreads L config i) (\<lambda>j t. j = i + 2) (\<lambda>_ _. True) s"
    by (simp_all add: parse_defs Let_def split: sum.splits)
  then show ?thesis by (simp add: parse_item_def Let_def)
qed

lemma sx_bind_cong:
  assumes "wp m (\<lambda>x t. f x t = g x t) (\<lambda>_ _. True) s"
  shows "sx_bind m f s = sx_bind m g s"
  using assms by (auto simp: sx_bind_def wp_def split: prod.splits sum.splits)

lemma parse_loop_fuel:
  "length config - i \<le> fuel \<Longrightarrow> parse_loop L (Suc fuel) config i s = parse_loop L fuel config i s"
proof (induction fuel arbitrary: i s)
  case 0
  then show ?case by simp
next
  case (Suc fuel)
  let ?k = "\<lambda>fuel j. if j + 1 < length config
    then sx_seq (consumeToken config (j + 1) CHR '','') (parse_loop L fuel config (j + 2))
    else parse_loop L fuel config (j + 1)"
  have "?k (Suc fuel) j t = ?k fuel j t" if "j = i + 2" for j t
    using that Suc.prems Suc.IH [of "j + 1"] Suc.IH [of "j + 2"]
    by (simp add: sx_seq_def sx_bind_def consumeToken_def sx_defs split: prod.splits sum.splits del: parse_loop.simps)
  then have "sx_bind (parse_item L config i) (?k (Suc fuel)) s = sx_bind (parse_item L config i) (?k fuel) s"
    by (intro sx_bind_cong wp_conseq [OF parse_item_pos]) auto
  then show ?case
    by (cases "i < length config")
      (simp_all only: parse_loop.simps(2) [of L "Suc fuel" config i]
        parse_loop.simps(2) [of L fuel config i] if_True if_False)
qed

section \<open>Properties\<close>

text \<open>
  C19: whatever settings strings a process passes, and even when some of them are rejected halfway,
  the settings stay well-formed: the split size is either unlimited or a whole number of MiB above
  20 MiB, the collection threshold lies in \<open>[0, 1)\<close> and the number of register threads is bounded.
  The same invariant shows that the option \<^verbatim>\<open>release_lock_on_supamalloc\<close> can never be turned on and
  that the power-of-two divisions are never set.
\<close>

theorem settings_history_ok:
  "config_ok (fold (\<lambda>env c. snd (setAllocatorSettings L env c)) envs
     (snd (parseArgs L conf SUPAAllocatorConfig_ctor)))"
proof -
  have snd_ok: "config_ok (snd (m s))"
    if "wp m (\<lambda>_. config_ok) (\<lambda>_. config_ok) s" for m :: "unit config_op" and s
    using that by (auto simp: wp_def split: prod.splits sum.splits)
  have "config_ok SUPAAllocatorConfig_ctor"
    by (simp add: config_ok_def SUPAAllocatorConfig_ctor_def pinned_max_register_threads_def
        size_max_def kLargeBuffer_def)
  then have "config_ok (snd (parseArgs L conf SUPAAllocatorConfig_ctor))"
    by (intro snd_ok parseArgs_ok)
  then show ?thesis
    by (induction envs arbitrary: conf rule: rev_induct)
      (auto simp: setAllocatorSettings_def intro: snd_ok parseArgs_ok)
qed

text \<open>
  C20: the lexer drops the spaces and nothing else, splits off every separator as a token of its own
  and never emits an empty token; and printing a token list without spaces and lexing it again gives
  the same tokens back.
\<close>

theorem lexArgs_roundtrip:
  "concat (lexArgs env) = filter (\<lambda>c. c \<noteq> CHR '' '') env \<and> well_lexed (lexArgs env)
   \<and> (well_lexed ws \<longrightarrow> lexArgs (concat ws) = ws)"
  using lex_loop_spec [of "[]" "[]" env] lex_loop_concat [of ws "[]" "[]"]
  by (simp add: lexArgs_def)

theorem lexArgs_roundtrip_witness:
  "well_lexed [''max_split_size_mb'', '':'', ''32''] \<and>
   lexArgs ''max_split_size_mb:32'' = [''max_split_size_mb'', '':'', ''32'']"
proof -
  have "well_lexed [''max_split_size_mb'', '':'', ''32'']"
    by (simp add: is_word_def is_sep_token_def is_separator_def)
  then show ?thesis
    using lexArgs_roundtrip [of "''max_split_size_mb:32''" "[''max_split_size_mb'', '':'', ''32'']"]
    by simp
qed


end
