(* ===== verification/Alloc_Sizes.thy ===== *)
theory Alloc_Sizes
  imports Alloc_Config
begin

text \<open>
  The size arithmetic of \<^verbatim>\<open>core/supa/SUPACachingAllocator.cpp\<close>: rounding of a requested size, the
  size of the segment requested from the driver, and the settings lookup for power-of-two divisions.
  A \<^verbatim>\<open>size_t\<close> is a natural number below \<open>2 ^ 64\<close> and every operation that can wrap around does so
  explicitly.
\<close>

unbundle bit_operations_syntax

section \<open>Rounding\<close>

definition roundup_power2_divisions :: "cxx_lib \<Rightarrow> SUPAAllocatorConfig \<Rightarrow> nat \<Rightarrow> exn + nat" where
  "roundup_power2_divisions L cfg sz =
     (let log_size = 63 - countLeadingZeros L sz;
          interval_start = 63 - countLeadingZeros L 1048576;
          interval_end = 63 - countLeadingZeros L 68719476736 in
      if interval_end - interval_start \<noteq> kRoundUpPowerOfTwoIntervals
      then Inl (TorchCheck ''kRoundUpPowerOfTwoIntervals mismatch'')
      else let index = int log_size - int interval_start;
               index = max 0 index;
               index = min index (int kRoundUpPowerOfTwoIntervals - 1) in
        Inr (m_roundup_power2_divisions cfg ! nat index))"

definition roundup_power2_next_division :: "cxx_lib \<Rightarrow> nat \<Rightarrow> nat \<Rightarrow> exn + nat" where
  "roundup_power2_next_division L sz divisions =
     (if isPowerOf2_64 L sz then Inr sz
      else if \<not> 2 \<le> divisions then Inl (TorchCheck ''Only 2 or more divisions are supported'')
      else let power2_floor = PowerOf2Floor L sz;
               power2_divison = power2_floor div 2 ^ (63 - countLeadingZeros L divisions) in
        if power2_divison = 0 then Inr (power2_floor * 2 mod 2 ^ 64)
        else let round_size_floor =
               unat ((of_nat sz :: 64 word) AND NOT (of_nat power2_divison - 1)) in
          Inr (if round_size_floor = sz then sz
               else (round_size_floor + power2_divison) mod 2 ^ 64))"

definition round_size :: "cxx_lib \<Rightarrow> SUPAAllocatorConfig \<Rightarrow> nat \<Rightarrow> exn + nat" where
  "round_size L cfg sz =
     (if sz < kMinBlockSize then Inr kMinBlockSize
      else case roundup_power2_divisions L cfg sz of Inl e \<Rightarrow> Inl e
        | Inr divisions \<Rightarrow>
          if 1 < divisions \<and> kMinBlockSize * divisions mod 2 ^ 64 < sz
          then roundup_power2_next_division L sz divisions
          else Inr (kMinBlockSize * ((sz + (kMinBlockSize - 1)) mod 2 ^ 64 div kMinBlockSize) mod 2 ^ 64))"

definition get_allocation_size :: "nat \<Rightarrow> nat" where
  "get_allocation_size sz =
     (if sz \<le> kSmallSize then kSmallBuffer
      else if sz < kMinLargeAlloc then kLargeBuffer
      else kRoundLarge * ((sz + (kRoundLarge - 1)) mod 2 ^ 64 div kRoundLarge) mod 2 ^ 64)"

section \<open>Rounding up to a multiple\<close>

lemma round_up_bounds:
  fixes n q :: nat
  assumes "0 < q"
  shows "n \<le> q * ((n + (q - 1)) div q)" and "q * ((n + (q - 1)) div q) < n + q"
proof -
  define a where "a = (n + (q - 1)) div q * q"
  have "a + (n + (q - 1)) mod q = n + (q - 1)"
    unfolding a_def by (rule div_mult_mod_eq)
  moreover have "(n + (q - 1)) mod q < q"
    using assms by simp
  ultimately have "n \<le> a" and "a < n + q"
    using assms by linarith+
  then show "n \<le> q * ((n + (q - 1)) div q)" and "q * ((n + (q - 1)) div q) < n + q"
    unfolding a_def by (simp_all only: mult.commute [of q])
qed

lemma clear_low_bits:
  assumes "n < 2 ^ 64" and "k < 64"
  shows "unat ((of_nat n :: 64 word) AND NOT (of_nat (2 ^ k) - 1)) = n - n mod 2 ^ k"
proof -
  let ?w = "of_nat n :: 64 word"
  have n: "unat ?w = n" using assms(1) by (simp add: unat_of_nat)
  have low: "unat (?w AND mask k) = n mod 2 ^ k"
    using assms(2) n by (simp only: take_bit_eq_mask [symmetric] unsigned_take_bit_eq)
      (simp add: take_bit_eq_mod)
  have "?w - (?w AND mask k) = ?w AND NOT (?w AND mask k)"
    by (rule disjunctive_diff_eq_and_not) (simp add: bit_eq_iff bit_simps)
  also have "\<dots> = ?w AND NOT (of_nat (2 ^ k) - 1)"
    by (auto simp: bit_eq_iff bit_simps simp flip: mask_eq_exp_minus_1)
  finally have "?w AND NOT (of_nat (2 ^ k) - 1) = ?w - (?w AND mask k)" ..
  moreover have "?w AND mask k \<le> ?w"
    by (simp add: word_le_nat_alt low n)
  ultimately show ?thesis by (simp add: unat_sub low n)
qed

lemma cxx_lib_log:
  assumes "cxx_lib_ok L" and "0 < n" and "n < 2 ^ 64"
  shows "2 ^ (63 - countLeadingZeros L n) \<le> n" and "n < 2 ^ Suc (63 - countLeadingZeros L n)"
    and "PowerOf2Floor L n = 2 ^ (63 - countLeadingZeros L n)"
  using assms by (auto simp: cxx_lib_ok_def)

lemma cxx_lib_log_exact:
  assumes "cxx_lib_ok L" and "k < 64"
  shows "63 - countLeadingZeros L (2 ^ k) = k"
proof -
  have "(2::nat) ^ k < 2 ^ 64"
    using assms(2) by (simp only: power_strict_increasing_iff)
  then have "2 ^ (63 - countLeadingZeros L (2 ^ k)) \<le> (2::nat) ^ k"
    and "(2::nat) ^ k < 2 ^ Suc (63 - countLeadingZeros L (2 ^ k))"
    using cxx_lib_log [OF assms(1), of "2 ^ k"] by simp_all
  then show ?thesis
    using power_le_imp_le_exp [of 2] power_less_imp_less_exp [of 2] by (meson le_antisym less_Suc_eq_le
        one_less_numeral_iff semiring_norm(76))
qed

lemma roundup_power2_divisions_default:
  assumes "cxx_lib_ok L" and "config_ok cfg"
  shows "roundup_power2_divisions L cfg sz = Inr 0"
  using cxx_lib_log_exact [OF assms(1), of 20] cxx_lib_log_exact [OF assms(1), of 36] assms(2)
  by (simp add: roundup_power2_divisions_def kRoundUpPowerOfTwoIntervals_def config_ok_def Let_def)

lemma round_size_default:
  assumes "cxx_lib_ok L" and "config_ok cfg"
  shows "round_size L cfg sz =
    (if sz < kMinBlockSize then Inr kMinBlockSize
     else Inr (kMinBlockSize * ((sz + (kMinBlockSize - 1)) mod 2 ^ 64 div kMinBlockSize) mod 2 ^ 64))"
  using roundup_power2_divisions_default [OF assms] by (simp add: round_size_def)

lemma power2_div_pos:
  assumes "0 < (2::nat) ^ l div 2 ^ d"
  shows "d \<le> l" and "(2::nat) ^ l div 2 ^ d = 2 ^ (l - d)"
proof -
  have "(2::nat) ^ d \<le> 2 ^ l" using assms by (simp add: div_greater_zero_iff)
  then show "d \<le> l" by simp
  then show "(2::nat) ^ l div 2 ^ d = 2 ^ (l - d)" by (simp add: power_diff)
qed

text \<open>The next multiple of \<open>st\<close> above \<open>n\<close> does not pass a multiple of \<open>st\<close> above \<open>n\<close>.\<close>

lemma next_multiple:
  fixes n st m :: nat
  assumes "0 < st" and "st dvd m" and "n < m"
  defines "f \<equiv> n - n mod st"
  shows "st dvd f" and "f + st \<le> m" and "n < f + st" and "f \<le> n"
proof -
  show f: "st dvd f" by (simp add: f_def dvd_minus_mod)
  show "n < f + st" using mod_less_divisor [OF assms(1), of n] by (simp add: f_def)
  show "f \<le> n" by (simp add: f_def)
  then have "f < m" using assms(3) by simp
  then show "f + st \<le> m"
    using f assms(1,2) by (auto elim!: dvdE) (metis Suc_leI mult.commute mult_Suc_right mult_le_mono2 add.commute)
qed

lemma roundup_power2_next_division_bounds:
  assumes L: "cxx_lib_ok L" and div: "2 \<le> divisions" "divisions < 2 ^ 64"
    and sz: "0 < sz" "sz < 2 ^ 63"
  defines "fl \<equiv> PowerOf2Floor L sz"
    and "st \<equiv> PowerOf2Floor L sz div 2 ^ (63 - countLeadingZeros L divisions)"
  shows "\<exists>r. roundup_power2_next_division L sz divisions = Inr r \<and> sz \<le> r \<and> r \<le> 2 * fl
    \<and> (0 < st \<longrightarrow> st dvd r \<and> r < sz + st)"
proof -
  define l where "l = 63 - countLeadingZeros L sz"
  define dl where "dl = 63 - countLeadingZeros L divisions"
  have sz64: "sz < 2 ^ 64" using sz(2) by simp
  note lg = cxx_lib_log [OF L sz(1) sz64, folded l_def]
  have fl: "fl = 2 ^ l" "fl \<le> sz" "sz < 2 * fl" using lg by (simp_all add: fl_def)
  have "(2::nat) ^ l < 2 ^ 63" using fl sz(2) by linarith
  then have l63: "l < 63" using power_less_imp_less_exp [of 2 l 63] by simp
  have l2: "2 * (2::nat) ^ l \<le> 2 ^ 63"
    using l63 power_increasing [of "Suc l" 63 "2::nat"] by simp
  consider (pow) "isPowerOf2_64 L sz" | (zero) "\<not> isPowerOf2_64 L sz" "st = 0"
    | (step) "\<not> isPowerOf2_64 L sz" "0 < st" by blast
  then show ?thesis
  proof cases
    case pow
    then obtain k where k: "sz = 2 ^ k" "k < 64" using L by (auto simp: cxx_lib_ok_def)
    have lk: "l = k" using cxx_lib_log_exact [OF L k(2)] by (simp add: l_def k(1))
    have st: "st = 2 ^ l div 2 ^ dl" using fl(1) by (simp add: st_def fl_def dl_def)
    have "st dvd sz" if "0 < st"
      unfolding power2_div_pos(2) [OF that [unfolded st], folded st]
      by (simp add: k(1) lk le_imp_power_dvd)
    then show ?thesis using pow fl by (simp add: roundup_power2_next_division_def)
  next
    case zero
    then have "roundup_power2_next_division L sz divisions = Inr (2 * fl)"
      using div fl(1) l2 by (simp add: roundup_power2_next_division_def fl_def st_def Let_def mult.commute)
    then show ?thesis using fl zero by simp
  next
    case step
    have std: "st = 2 ^ l div 2 ^ dl" using fl(1) by (simp add: st_def fl_def dl_def)
    have st: "st = 2 ^ (l - dl)"
      using power2_div_pos(2) [OF step(2) [unfolded std]] std by simp
    have "st dvd 2 * fl" using st fl(1) by (simp add: le_imp_power_dvd dvd_mult)
    note nm = next_multiple [OF step(2) this fl(3)]
    have low: "unat ((of_nat sz :: 64 word) AND NOT (of_nat st - 1)) = sz - sz mod st"
      unfolding st using sz64 l63 by (intro clear_low_bits) simp_all
    have "2 * fl < 2 ^ 64" using l2 fl(1) by simp
    then have "(sz - sz mod st + st) mod 2 ^ 64 = sz - sz mod st + st"
      by (intro mod_less le_less_trans [OF nm(2)])
    then have "roundup_power2_next_division L sz divisions
        = Inr (if sz - sz mod st = sz then sz else sz - sz mod st + st)"
      using step div(1) low
      by (simp add: roundup_power2_next_division_def Let_def flip: st_def)
    moreover define a where "a = sz - sz mod st"
    ultimately have val: "roundup_power2_next_division L sz divisions
        = Inr (if a = sz then sz else a + st)" by simp
    note nm = nm [folded a_def]
    show ?thesis
    proof (cases "a = sz")
      case True
      then show ?thesis using val nm(1) fl(3) step(2) by simp
    next
      case False
      then have "a < sz" using nm(4) by simp
      moreover have "st dvd a + st" using nm(1) by simp
      ultimately show ?thesis using val nm(2,3) False by simp
    qed
  qed
qed

section \<open>Rounding under settings the parser can leave\<close>

lemma round_up_mod:
  assumes "0 < q" and "sz + q \<le> (2::nat) ^ 64"
  shows "q * ((sz + (q - 1)) mod 2 ^ 64 div q) mod 2 ^ 64 = q * ((sz + (q - 1)) div q)"
proof -
  have "(sz + (q - 1)) mod 2 ^ 64 = sz + (q - 1)"
    using assms by (intro mod_less) linarith
  moreover have "q * ((sz + (q - 1)) div q) < 2 ^ 64"
    using round_up_bounds(2) [OF assms(1), of sz] assms(2) by linarith
  ultimately show ?thesis by (simp only: mod_less)
qed

text \<open>The condition is the exact one: the addition inside the rounding must not pass \<open>2 ^ 64\<close>.\<close>

lemma round_size_value:
  assumes "cxx_lib_ok L" and "config_ok cfg" and "sz + 512 \<le> 2 ^ 64"
  shows "round_size L cfg sz = Inr (if sz < 512 then 512 else 512 * ((sz + 511) div 512))"
  using round_size_default [OF assms(1,2), of sz] round_up_mod [of 512 sz] assms(3)
  by (simp add: kMinBlockSize_def)

lemma round_size_wraps:
  assumes "cxx_lib_ok L" and "config_ok cfg" and "2 ^ 64 < sz + 512" and "sz < 2 ^ 64"
  shows "round_size L cfg sz = Inr 0"
proof -
  have "(sz + 511) mod 2 ^ 64 = sz + 511 - 2 ^ 64"
    using assms(3,4) by (simp add: mod_if le_mod_geq)
  moreover have "sz + 511 - 2 ^ 64 < 512" using assms(4) by linarith
  ultimately show ?thesis
    using round_size_default [OF assms(1,2), of sz] assms(3) by (simp add: kMinBlockSize_def)
qed

lemma get_allocation_size_value:
  assumes "kMinLargeAlloc \<le> sz" and "sz + kRoundLarge \<le> 2 ^ 64"
  shows "get_allocation_size sz = kRoundLarge * ((sz + (kRoundLarge - 1)) div kRoundLarge)"
  using assms round_up_mod [of kRoundLarge sz] by (simp add: get_allocation_size_def size_consts)

lemma get_allocation_size_props:
  assumes "sz + kRoundLarge \<le> 2 ^ 64"
  shows "sz \<le> get_allocation_size sz" and "kRoundLarge dvd get_allocation_size sz"
    and "get_allocation_size sz \<le> max kLargeBuffer (sz + kRoundLarge)" and "0 < get_allocation_size sz"
    and "kSmallBuffer \<le> get_allocation_size sz"
proof -
  consider (small) "sz < kMinLargeAlloc" | (large) "kMinLargeAlloc \<le> sz" by linarith
  then have "sz \<le> get_allocation_size sz \<and> kRoundLarge dvd get_allocation_size sz
    \<and> get_allocation_size sz \<le> max kLargeBuffer (sz + kRoundLarge) \<and> 0 < get_allocation_size sz
    \<and> kSmallBuffer \<le> get_allocation_size sz"
  proof cases
    case small
    then show ?thesis by (simp add: get_allocation_size_def size_consts)
  next
    case large
    have q: "0 < kRoundLarge" by (simp add: size_consts)
    show ?thesis
      using get_allocation_size_value [OF large assms] round_up_bounds [OF q, of sz] large
      by (auto simp: size_consts)
  qed
  then show "sz \<le> get_allocation_size sz" and "kRoundLarge dvd get_allocation_size sz"
    and "get_allocation_size sz \<le> max kLargeBuffer (sz + kRoundLarge)" and "0 < get_allocation_size sz"
    and "kSmallBuffer \<le> get_allocation_size sz"
    by blast+
qed

text \<open>A concrete library that meets the documented behaviour, for the witnesses.\<close>

fun log2_nat :: "nat \<Rightarrow> nat" where
  "log2_nat n = (if n < 2 then 0 else Suc (log2_nat (n div 2)))"

declare log2_nat.simps [simp del]

lemma log2_nat_bounds: "0 < n \<Longrightarrow> 2 ^ log2_nat n \<le> n \<and> n < 2 * 2 ^ log2_nat n"
proof (induction n rule: log2_nat.induct)
  case (1 n)
  show ?case
  proof (cases "n < 2")
    case True
    then show ?thesis using 1 by (simp add: log2_nat.simps [of n])
  next
    case False
    then show ?thesis using "1.IH" by (simp add: log2_nat.simps [of n]) linarith
  qed
qed

definition ref_lib :: cxx_lib where
  "ref_lib = \<lparr>stod = (\<lambda>_. Inl StdInvalidArgument),
     isPowerOf2_64 = (\<lambda>n. 0 < n \<and> n < 2 ^ 64 \<and> n = 2 ^ log2_nat n),
     countLeadingZeros = (\<lambda>n. 63 - log2_nat n),
     PowerOf2Floor = (\<lambda>n. if n = 0 then 0 else 2 ^ log2_nat n)\<rparr>"

lemma log2_nat_power: "log2_nat (2 ^ k) = k"
proof -
  have "2 ^ log2_nat (2 ^ k) \<le> (2::nat) ^ k" and "(2::nat) ^ k < 2 ^ Suc (log2_nat (2 ^ k))"
    using log2_nat_bounds [of "2 ^ k"] by simp_all
  then have "log2_nat (2 ^ k) \<le> k" and "k < Suc (log2_nat (2 ^ k))"
    by (simp_all only: power_increasing_iff power_strict_increasing_iff one_less_numeral_iff
        semiring_norm(76))
  then show ?thesis by simp
qed

lemma log2_nat_less: "0 < n \<Longrightarrow> n < 2 ^ k \<Longrightarrow> log2_nat n < k"
  using le_less_trans [of "2 ^ log2_nat n" n "2 ^ k"] log2_nat_bounds [of n] by simp

lemma ref_lib_ok: "cxx_lib_ok ref_lib"
proof -
  have "(\<exists>k < 64. n = 2 ^ k) \<longleftrightarrow> 0 < n \<and> n < 2 ^ 64 \<and> n = 2 ^ log2_nat n" for n
  proof
    assume "\<exists>k < 64. n = 2 ^ k"
    then obtain k where k: "k < 64" "n = 2 ^ k" by blast
    then have "n < 2 ^ 64" by (simp only: power_strict_increasing_iff)
    then show "0 < n \<and> n < 2 ^ 64 \<and> n = 2 ^ log2_nat n" using k by (simp add: log2_nat_power)
  qed (use log2_nat_less [of n 64] in blast)
  moreover have "63 - (63 - log2_nat n) = log2_nat n" if "0 < n" "n < 2 ^ 64" for n
    using log2_nat_less [OF that] by simp
  ultimately show ?thesis
    using log2_nat_bounds by (auto simp: cxx_lib_ok_def ref_lib_def)
qed

lemma ctor_config_ok: "config_ok SUPAAllocatorConfig_ctor"
  by (simp add: config_ok_def SUPAAllocatorConfig_ctor_def pinned_max_register_threads_def
      size_max_def kLargeBuffer_def)

section \<open>Properties\<close>

text \<open>
  C22: under every setting the parser can leave, a request of at most \<open>2 ^ 64 - 512\<close> bytes is rounded
  to the least positive multiple of 512 that holds it, and rounding again changes nothing; above that
  limit the addition wraps around and the rounded size is zero.
\<close>

theorem round_size_correct:
  assumes "cxx_lib_ok L" and "config_ok cfg" and "sz < 2 ^ 64"
  shows "(sz + 512 \<le> 2 ^ 64 \<longrightarrow> (\<exists>r. round_size L cfg sz = Inr r \<and> sz \<le> r \<and> 0 < r
      \<and> kMinBlockSize dvd r
      \<and> (\<forall>r'. kMinBlockSize dvd r' \<and> sz \<le> r' \<and> 0 < r' \<longrightarrow> r \<le> r')
      \<and> (r + 512 \<le> 2 ^ 64 \<longrightarrow> round_size L cfg r = Inr r)))
    \<and> (2 ^ 64 < sz + 512 \<longrightarrow> round_size L cfg sz = Inr 0)"
proof (intro conjI impI)
  define r where "r = (if sz < 512 then 512 else 512 * ((sz + 511) div 512))"
  assume sz: "sz + 512 \<le> 2 ^ 64"
  have val: "round_size L cfg sz = Inr r"
    using round_size_value [OF assms(1,2) sz] by (simp add: r_def)
  have dvd: "kMinBlockSize dvd r" and pos: "0 < r" by (auto simp: r_def kMinBlockSize_def)
  have le: "sz \<le> r" and lt: "r < max sz 1 + 512"
    using round_up_bounds [of 512 sz] by (auto simp: r_def)
  have least: "r \<le> r'" if r': "kMinBlockSize dvd r'" "sz \<le> r'" "0 < r'" for r'
  proof (rule ccontr)
    assume "\<not> r \<le> r'"
    moreover obtain a b where "r = 512 * a" "r' = 512 * b"
      using dvd r'(1) by (auto simp: kMinBlockSize_def elim!: dvdE)
    ultimately have "r' + 512 \<le> r" by simp
    then show False using lt r'(2,3) by simp
  qed
  have "round_size L cfg r = Inr r" if "r + 512 \<le> 2 ^ 64"
    using round_size_value [OF assms(1,2) that] dvd pos by (auto simp: kMinBlockSize_def elim!: dvdE)
  then show "\<exists>r. round_size L cfg sz = Inr r \<and> sz \<le> r \<and> 0 < r \<and> kMinBlockSize dvd r
      \<and> (\<forall>r'. kMinBlockSize dvd r' \<and> sz \<le> r' \<and> 0 < r' \<longrightarrow> r \<le> r')
      \<and> (r + 512 \<le> 2 ^ 64 \<longrightarrow> round_size L cfg r = Inr r)"
    using val le pos dvd least by blast
qed (use round_size_wraps [OF assms(1,2)] assms(3) in blast)

theorem round_size_correct_witness:
  "(\<exists>r. round_size ref_lib SUPAAllocatorConfig_ctor 1000 = Inr r \<and> 1000 \<le> r \<and> kMinBlockSize dvd r
      \<and> (\<forall>r'. kMinBlockSize dvd r' \<and> 1000 \<le> r' \<and> 0 < r' \<longrightarrow> r \<le> r'))
    \<and> round_size ref_lib SUPAAllocatorConfig_ctor (2 ^ 64 - 1) = Inr 0"
  using round_size_correct [OF ref_lib_ok ctor_config_ok, of 1000]
    round_size_correct [OF ref_lib_ok ctor_config_ok, of "2 ^ 64 - 1"] by auto

text \<open>
  C23: with power-of-two divisions, a request below \<open>2 ^ 63\<close> is rounded up, at most to the next power of
  two, to a multiple of the division step, and by less than one step.
\<close>

theorem next_division_bounds:
  assumes "cxx_lib_ok L" and "2 \<le> divisions" and "divisions < 2 ^ 64" and "0 < sz" and "sz < 2 ^ 63"
  shows "\<exists>r. roundup_power2_next_division L sz divisions = Inr r \<and> sz \<le> r
    \<and> r \<le> 2 * PowerOf2Floor L sz
    \<and> (0 < PowerOf2Floor L sz div 2 ^ (63 - countLeadingZeros L divisions) \<longrightarrow>
        PowerOf2Floor L sz div 2 ^ (63 - countLeadingZeros L divisions) dvd r
        \<and> r < sz + PowerOf2Floor L sz div 2 ^ (63 - countLeadingZeros L divisions))"
  by (rule roundup_power2_next_division_bounds [OF assms])

theorem next_division_bounds_witness:
  "\<exists>r. roundup_power2_next_division ref_lib 1200 4 = Inr r \<and> 1200 \<le> r \<and> r \<le> 2 * PowerOf2Floor ref_lib 1200"
  using next_division_bounds [OF ref_lib_ok, of 4 1200] by auto

end
