(* ===== verification/Alloc_Stats.thy ===== *)
theory Alloc_Stats
  imports Supa_Prelude
begin

text \<open>
  The statistics of the caching allocator: \<^verbatim>\<open>Stat\<close>, \<^verbatim>\<open>StatType\<close> and \<^verbatim>\<open>DeviceStats\<close> of
  \<^verbatim>\<open>core/supa/SUPACachingAllocator.h\<close> and the functions that update and reset them in
  \<^verbatim>\<open>SUPACachingAllocator.cpp\<close>, in the variant for PyTorch before 2.5, whose counters are the
  repository's own code. Counters are unbounded integers. The theory shows what a counter holds after
  any history of updates.
\<close>

section \<open>Counters\<close>

record Stat =
  current :: int
  peak :: int
  stat_allocated :: int
  freed :: int

definition zero_stat :: Stat where
  "zero_stat = \<lparr>current = 0, peak = 0, stat_allocated = 0, freed = 0\<rparr>"

definition update_stat :: "int \<Rightarrow> (Stat, exn, unit) sx" where
  "update_stat amount =
     sx_seq (sx_mod (\<lambda>s. s\<lparr>current := current s + amount\<rparr>))
     (sx_bind (sx_get current) (\<lambda>c.
      sx_seq (sx_check (0 \<le> c) (TorchCheck ''Negative tracked stat in SUPA allocator''))
      (sx_seq (sx_mod (\<lambda>s. s\<lparr>peak := max (current s) (peak s)\<rparr>))
      (sx_seq (sx_when (0 < amount) (sx_mod (\<lambda>s. s\<lparr>stat_allocated := stat_allocated s + amount\<rparr>)))
      (sx_when (amount < 0) (sx_mod (\<lambda>s. s\<lparr>freed := freed s + - amount\<rparr>)))))))"

definition reset_accumulated_stat :: "Stat \<Rightarrow> Stat" where
  "reset_accumulated_stat s = s\<lparr>stat_allocated := 0, freed := 0\<rparr>"

definition reset_peak_stat :: "Stat \<Rightarrow> Stat" where
  "reset_peak_stat s = s\<lparr>peak := current s\<rparr>"

section \<open>Counters by pool kind\<close>

datatype StatType = AGGREGATE | SMALL_POOL | LARGE_POOL

type_synonym StatArray = "StatType \<Rightarrow> Stat"
type_synonym StatTypes = "StatType \<Rightarrow> bool"

definition all_stat_types :: "StatType list" where
  "all_stat_types = [AGGREGATE, SMALL_POOL, LARGE_POOL]"

definition for_each_selected_stat_type ::
  "StatTypes \<Rightarrow> (StatType \<Rightarrow> ('s, exn, unit) sx) \<Rightarrow> ('s, exn, unit) sx" where
  "for_each_selected_stat_type stat_types f =
     sx_for all_stat_types (\<lambda>stat_type. sx_when (stat_types stat_type) (f stat_type))"

definition update_stat_array :: "int \<Rightarrow> StatTypes \<Rightarrow> (StatArray, exn, unit) sx" where
  "update_stat_array amount stat_types =
     (if amount = 0 then sx_ret ()
      else sx_for all_stat_types (\<lambda>stat_type.
        sx_when (stat_types stat_type) (sx_at stat_type (update_stat amount))))"

record DeviceStats =
  allocation :: StatArray
  segment :: StatArray
  active :: StatArray
  inactive_split :: StatArray
  allocated_bytes :: StatArray
  reserved_bytes :: StatArray
  active_bytes :: StatArray
  inactive_split_bytes :: StatArray
  requested_bytes :: StatArray
  num_alloc_retries :: int
  num_ooms :: int
  oversize_allocations :: Stat
  oversize_segments :: Stat
  num_sync_all_streams :: int
  num_device_alloc :: int
  num_device_free :: int
  max_split_size :: int

definition DeviceStats_init :: "int \<Rightarrow> DeviceStats" where
  "DeviceStats_init max_split =
     \<lparr>allocation = \<lambda>_. zero_stat, segment = \<lambda>_. zero_stat, active = \<lambda>_. zero_stat,
      inactive_split = \<lambda>_. zero_stat, allocated_bytes = \<lambda>_. zero_stat, reserved_bytes = \<lambda>_. zero_stat,
      active_bytes = \<lambda>_. zero_stat, inactive_split_bytes = \<lambda>_. zero_stat,
      requested_bytes = \<lambda>_. zero_stat, num_alloc_retries = 0, num_ooms = 0,
      oversize_allocations = zero_stat, oversize_segments = zero_stat, num_sync_all_streams = 0,
      num_device_alloc = 0, num_device_free = 0, max_split_size = max_split\<rparr>"

definition resetAccumulatedStats :: "DeviceStats \<Rightarrow> DeviceStats" where
  "resetAccumulatedStats s = s
     \<lparr>allocation := reset_accumulated_stat \<circ> allocation s,
      segment := reset_accumulated_stat \<circ> segment s,
      active := reset_accumulated_stat \<circ> active s,
      inactive_split := reset_accumulated_stat \<circ> inactive_split s,
      allocated_bytes := reset_accumulated_stat \<circ> allocated_bytes s,
      reserved_bytes := reset_accumulated_stat \<circ> reserved_bytes s,
      active_bytes := reset_accumulated_stat \<circ> active_bytes s,
      inactive_split_bytes := reset_accumulated_stat \<circ> inactive_split_bytes s,
      requested_bytes := reset_accumulated_stat \<circ> requested_bytes s,
      num_alloc_retries := 0, num_ooms := 0, num_sync_all_streams := 0,
      num_device_alloc := 0, num_device_free := 0,
      oversize_allocations := reset_accumulated_stat (oversize_allocations s),
      oversize_segments := reset_accumulated_stat (oversize_segments s)\<rparr>"

definition resetPeakStats :: "DeviceStats \<Rightarrow> DeviceStats" where
  "resetPeakStats s = s
     \<lparr>allocation := reset_peak_stat \<circ> allocation s,
      segment := reset_peak_stat \<circ> segment s,
      active := reset_peak_stat \<circ> active s,
      inactive_split := reset_peak_stat \<circ> inactive_split s,
      allocated_bytes := reset_peak_stat \<circ> allocated_bytes s,
      reserved_bytes := reset_peak_stat \<circ> reserved_bytes s,
      active_bytes := reset_peak_stat \<circ> active_bytes s,
      inactive_split_bytes := reset_peak_stat \<circ> inactive_split_bytes s,
      requested_bytes := reset_peak_stat \<circ> requested_bytes s,
      oversize_allocations := reset_peak_stat (oversize_allocations s),
      oversize_segments := reset_peak_stat (oversize_segments s)\<rparr>"

section \<open>What a counter holds\<close>

lemma wp_update_stat [simp]:
  "wp (update_stat amount) Q E s =
    (if 0 \<le> current s + amount
     then Q () \<lparr>current = current s + amount, peak = max (current s + amount) (peak s),
            stat_allocated = stat_allocated s + max 0 amount, freed = freed s + max 0 (- amount),
            \<dots> = Stat.more s\<rparr>
     else E (TorchCheck ''Negative tracked stat in SUPA allocator'') (s\<lparr>current := current s + amount\<rparr>))"
  by (cases s) (auto simp: update_stat_def max_def)

text \<open>The running totals of a history of updates, starting from a given value.\<close>

primrec running :: "int \<Rightarrow> int list \<Rightarrow> int list" where
  "running c [] = []"
| "running c (a # as) = (c + a) # running (c + a) as"

lemma wp_for_update_stat:
  assumes "\<forall>v \<in> set (running (current s) as). 0 \<le> v"
  shows "wp (sx_for as update_stat)
    (\<lambda>_ t. current t = current s + sum_list as
       \<and> peak t = fold max (running (current s) as) (peak s)
       \<and> stat_allocated t = stat_allocated s + sum_list (map (max 0) as)
       \<and> freed t = freed s + sum_list (map (\<lambda>a. max 0 (- a)) as)) (\<lambda>_ _. False) s"
  using assms
proof (induction as arbitrary: s)
  case Nil
  then show ?case by simp
next
  case (Cons a as)
  let ?s = "\<lparr>current = current s + a, peak = max (current s + a) (peak s),
    stat_allocated = stat_allocated s + max 0 a, freed = freed s + max 0 (- a), \<dots> = Stat.more s\<rparr>"
  have "wp (sx_for as update_stat)
    (\<lambda>_ t. current t = current s + sum_list (a # as)
       \<and> peak t = fold max (running (current s) (a # as)) (peak s)
       \<and> stat_allocated t = stat_allocated s + sum_list (map (max 0) (a # as))
       \<and> freed t = freed s + sum_list (map (\<lambda>a. max 0 (- a)) (a # as))) (\<lambda>_ _. False) ?s"
    by (rule wp_conseq [OF Cons.IH]) (use Cons.prems in auto)
  then show ?case using Cons.prems by simp
qed

lemma fold_max_Max: "fold max vs (p::int) = Max (insert p (set vs))"
  by (metis List.list.simps(15) Max.set_eq_fold)

lemma wp_for_update_stat_fails:
  assumes "\<exists>v \<in> set (running (current s) as). v < 0"
  shows "wp (sx_for as update_stat) (\<lambda>_ _. False)
    (\<lambda>e _. e = TorchCheck ''Negative tracked stat in SUPA allocator'') s"
  using assms
proof (induction as arbitrary: s)
  case (Cons a as)
  show ?case
  proof (cases "0 \<le> current s + a")
    case True
    then show ?thesis using Cons.prems by (auto intro!: Cons.IH)
  qed simp
qed simp

section \<open>Properties\<close>


end
