(* ===== verification/Supa_Runtime.thy ===== *)
theory Supa_Runtime
  imports Supa_Prelude
begin

text \<open>
  What the allocator sees of the machine: the SUPA runtime and driver library, whose functions are an
  argument of the model (the record \<open>driver\<close>, over an arbitrary driver state), the thread's device
  selection of \<^verbatim>\<open>core/supa/SUPAFunctions.cpp\<close>, and the \<^verbatim>\<open>EventPool\<close> of
  \<^verbatim>\<open>SUPACachingAllocator.cpp\<close>. Together they are the \<open>world\<close> the device allocators share.
\<close>

section \<open>The driver library\<close>

text \<open>
  A driver function returns its error code, its result and the new driver state. Addresses, event,
  stream and allocation handles are numbers; the null address is 0.
\<close>

type_synonym 'd drv_call = "'d \<Rightarrow> supaError \<times> 'd"
type_synonym ('d, 'a) drv_out = "'d \<Rightarrow> (supaError \<times> 'a) \<times> 'd"

record 'd driver =
  supaMalloc :: "nat \<Rightarrow> ('d, nat) drv_out"
  supaFree :: "nat \<Rightarrow> 'd drv_call"
  supaGetLastError :: "'d drv_call"
  supaMemGetInfo :: "('d, nat \<times> nat) drv_out"
  supaEventCreateWithFlags :: "('d, nat) drv_out"
  supaEventRecord :: "nat \<Rightarrow> nat \<Rightarrow> 'd drv_call"
  supaEventQuery :: "nat \<Rightarrow> 'd drv_call"
  supaEventSynchronize :: "nat \<Rightarrow> 'd drv_call"
  supaStreamSynchronize :: "nat \<Rightarrow> 'd drv_call"
  supaGetDevice :: "('d, int) drv_out"
  supaSetDevice :: "int \<Rightarrow> 'd drv_call"
  suDevicePrimaryCtxGetState :: "int \<Rightarrow> ('d, bool) drv_out"
  supaIpcGetMemHandle :: "nat \<Rightarrow> ('d, string) drv_out"
  totalGlobalMem :: "int \<Rightarrow> ('d, nat) drv_out"
  suMemAddressReserve :: "nat \<Rightarrow> ('d, nat) drv_out"
  suMemAddressFree :: "nat \<Rightarrow> nat \<Rightarrow> 'd drv_call"
  suMemCreate :: "nat \<Rightarrow> int \<Rightarrow> ('d, nat) drv_out"
  suMemRelease :: "nat \<Rightarrow> 'd drv_call"
  suMemMap :: "nat \<Rightarrow> nat \<Rightarrow> nat \<Rightarrow> 'd drv_call"
  suMemUnmap :: "nat \<Rightarrow> nat \<Rightarrow> 'd drv_call"
  suMemSetAccess :: "nat \<Rightarrow> nat \<Rightarrow> int \<Rightarrow> 'd drv_call"
  suMemExportToShareableHandle :: "nat \<Rightarrow> ('d, nat) drv_out"
  suMemImportFromShareableHandle :: "nat \<Rightarrow> ('d, nat) drv_out"
  pidfd_open :: "nat \<Rightarrow> 'd \<Rightarrow> nat option \<times> 'd"
  pidfd_getfd :: "nat \<Rightarrow> nat \<Rightarrow> 'd \<Rightarrow> nat option \<times> 'd"
  close_fd :: "nat \<Rightarrow> 'd \<Rightarrow> 'd"
  getpid :: nat
  capturing :: "'d \<Rightarrow> bool \<times> 'd"
  exchangeCaptureMode :: "nat \<Rightarrow> 'd \<Rightarrow> nat \<times> 'd"
  raw_alloc_hook :: "nat \<Rightarrow> nat \<Rightarrow> 'd \<Rightarrow> nat \<times> 'd"
  raw_delete_hook :: "nat \<Rightarrow> nat \<Rightarrow> 'd \<Rightarrow> 'd"
  callback_keys :: "nat list"
  callback_execute :: "nat \<Rightarrow> 'd \<Rightarrow> bool \<times> 'd"
  device_count :: int

record 'd world =
  drv :: 'd
  k_device :: int
  event_pools :: "int \<Rightarrow> nat list"

type_synonym ('d, 'a) wx = "('d world, exn, 'a) sx"

definition drv_call :: "('d \<Rightarrow> 'a \<times> 'd) \<Rightarrow> ('d, 'a) wx" where
  "drv_call f = (\<lambda>w. case f (drv w) of (x, d) \<Rightarrow> (Inr x, w\<lparr>drv := d\<rparr>))"

definition check_err :: "supaError \<Rightarrow> ('s, exn, unit) sx" where
  "check_err e = sx_check (e = supaSuccess) (SupaCheck e)"

text \<open>\<^verbatim>\<open>C10_SUPA_CHECK(call)\<close>, without and with an output parameter.\<close>

definition supa_check :: "'d drv_call \<Rightarrow> ('d, unit) wx" where
  "supa_check f = sx_bind (drv_call f) check_err"

definition supa_check_out :: "('d, 'a) drv_out \<Rightarrow> ('d, 'a) wx" where
  "supa_check_out f = sx_bind (drv_call f) (\<lambda>(e, x). sx_seq (check_err e) (sx_ret x))"

text \<open>\<^verbatim>\<open>C10_SUPA_DRIVER_CHECK(call)\<close> throws an ordinary error instead.\<close>

definition driver_err :: "supaError \<Rightarrow> ('s, exn, unit) sx" where
  "driver_err e = sx_check (e = supaSuccess) (TorchCheck ''SUPA driver error'')"

definition driver_check :: "'d drv_call \<Rightarrow> ('d, unit) wx" where
  "driver_check f = sx_bind (drv_call f) driver_err"

definition driver_check_out :: "('d, 'a) drv_out \<Rightarrow> ('d, 'a) wx" where
  "driver_check_out f = sx_bind (drv_call f) (\<lambda>(e, x). sx_seq (driver_err e) (sx_ret x))"

section \<open>The device of the thread\<close>

text \<open>
  The thread remembers in \<open>k_device\<close> a device that was asked for but has no context yet; \<open>-1\<close> means
  that the driver's current device counts.
\<close>

definition hasPrimaryContext :: "'d driver \<Rightarrow> int \<Rightarrow> ('d, bool) wx" where
  "hasPrimaryContext D device_index =
     sx_seq (sx_check (0 \<le> device_index \<and> device_index < device_count D)
       (TorchCheck ''hasPrimaryContext expects a valid device index''))
     (driver_check_out (suDevicePrimaryCtxGetState D device_index))"

definition GetDevice :: "'d driver \<Rightarrow> ('d, supaError \<times> int) wx" where
  "GetDevice D =
     sx_bind (sx_get k_device) (\<lambda>k. if 0 \<le> k then sx_ret (supaSuccess, k) else drv_call (supaGetDevice D))"

definition SetDevice :: "'d driver \<Rightarrow> int \<Rightarrow> bool \<Rightarrow> ('d, supaError) wx" where
  "SetDevice D device force =
     sx_seq (sx_check (0 \<le> device) (TorchCheck ''device id must be positive!''))
     (sx_seq (sx_mod (\<lambda>w. w\<lparr>k_device := -1\<rparr>))
     (if force then drv_call (supaSetDevice D device)
      else sx_bind (supa_check_out (supaGetDevice D)) (\<lambda>cur_device.
        if device = cur_device then sx_ret supaSuccess else drv_call (supaSetDevice D device))))"

definition MaybeSetDevice :: "'d driver \<Rightarrow> int \<Rightarrow> ('d, supaError) wx" where
  "MaybeSetDevice D device =
     sx_bind (hasPrimaryContext D device) (\<lambda>has.
     if has then SetDevice D device False
     else sx_seq (sx_mod (\<lambda>w. w\<lparr>k_device := device\<rparr>)) (sx_ret supaSuccess))"

definition ExchangeDevice :: "'d driver \<Rightarrow> int \<Rightarrow> ('d, int) wx" where
  "ExchangeDevice D device =
     sx_bind (sx_get k_device) (\<lambda>cur_device.
     sx_seq (sx_mod (\<lambda>w. w\<lparr>k_device := -1\<rparr>))
     (if cur_device < 0
      then sx_bind (supa_check_out (supaGetDevice D)) (\<lambda>cur_device.
        if device = cur_device then sx_ret cur_device
        else sx_seq (supa_check (supaSetDevice D device)) (sx_ret cur_device))
      else sx_seq (supa_check (supaSetDevice D device)) (sx_ret cur_device)))"

definition MaybeExchangeDevice :: "'d driver \<Rightarrow> int \<Rightarrow> ('d, int) wx" where
  "MaybeExchangeDevice D to_device =
     sx_bind (supa_check_out (supaGetDevice D)) (\<lambda>cur_device.
     sx_seq (sx_check (0 \<le> cur_device \<and> cur_device \<le> 127) (InternalAssert ''supaGetDevice returns invalid device''))
     (if to_device = cur_device then sx_ret cur_device
      else sx_bind (hasPrimaryContext D to_device) (\<lambda>has.
        sx_seq (if has then supa_check (supaSetDevice D to_device)
                else sx_mod (\<lambda>w. w\<lparr>k_device := to_device\<rparr>))
        (sx_ret cur_device))))"

definition SetTargetDevice :: "'d driver \<Rightarrow> ('d, unit) wx" where
  "SetTargetDevice D =
     sx_bind (sx_get k_device) (\<lambda>k.
     sx_when (0 \<le> k) (sx_bind (SetDevice D k False) check_err))"

section \<open>The event pool\<close>

definition EventPool_get :: "'d driver \<Rightarrow> int \<Rightarrow> ('d, nat) wx" where
  "EventPool_get D device =
     sx_seq (sx_check (0 \<le> device) (InternalAssert ''0 <= device''))
     (sx_seq (sx_check (device < device_count D) (InternalAssert ''device < pools_.size()''))
     (sx_bind (sx_get event_pools) (\<lambda>ps.
      if ps device \<noteq> [] then
        sx_seq (sx_mod (\<lambda>w. w\<lparr>event_pools := ps(device := butlast (ps device))\<rparr>))
        (sx_ret (last (ps device)))
      else supa_check_out (supaEventCreateWithFlags D))))"

text \<open>The destructor of a pooled event gives it back to the pool of its device.\<close>

definition Event_release :: "int \<Rightarrow> nat \<Rightarrow> ('d, unit) wx" where
  "Event_release device event =
     sx_mod (\<lambda>w. w\<lparr>event_pools := (event_pools w)(device := event_pools w device @ [event])\<rparr>)"

definition EventPool_empty_cache :: "('d, unit) wx" where
  "EventPool_empty_cache = sx_mod (\<lambda>w. w\<lparr>event_pools := \<lambda>_. []\<rparr>)"

lemma wp_drv_call [simp, wp_simps]:
  "wp (drv_call f) Q E = (\<lambda>w. case f (drv w) of (x, d) \<Rightarrow> Q x (w\<lparr>drv := d\<rparr>))"
  by (intro ext) (simp add: wp_def drv_call_def split: prod.splits)

lemma wp_check_err [simp, wp_simps]:
  "wp (check_err e) Q E = (if e = supaSuccess then Q () else E (SupaCheck e))"
  by (simp add: check_err_def)

lemma wp_driver_err [simp, wp_simps]:
  "wp (driver_err e) Q E = (if e = supaSuccess then Q () else E (TorchCheck ''SUPA driver error''))"
  by (simp add: driver_err_def)

lemma wp_supa_check [simp, wp_simps]:
  "wp (supa_check f) Q E = (\<lambda>w. case f (drv w) of (e, d) \<Rightarrow>
     if e = supaSuccess then Q () (w\<lparr>drv := d\<rparr>) else E (SupaCheck e) (w\<lparr>drv := d\<rparr>))"
  by (intro ext) (simp add: supa_check_def split: prod.splits)

lemma wp_supa_check_out [simp, wp_simps]:
  "wp (supa_check_out f) Q E = (\<lambda>w. case f (drv w) of ((e, x), d) \<Rightarrow>
     if e = supaSuccess then Q x (w\<lparr>drv := d\<rparr>) else E (SupaCheck e) (w\<lparr>drv := d\<rparr>))"
  by (intro ext) (simp add: supa_check_out_def split: prod.splits)

lemma wp_driver_check [simp, wp_simps]:
  "wp (driver_check f) Q E = (\<lambda>w. case f (drv w) of (e, d) \<Rightarrow>
     if e = supaSuccess then Q () (w\<lparr>drv := d\<rparr>)
     else E (TorchCheck ''SUPA driver error'') (w\<lparr>drv := d\<rparr>))"
  by (intro ext) (simp add: driver_check_def split: prod.splits)

lemma wp_driver_check_out [simp, wp_simps]:
  "wp (driver_check_out f) Q E = (\<lambda>w. case f (drv w) of ((e, x), d) \<Rightarrow>
     if e = supaSuccess then Q x (w\<lparr>drv := d\<rparr>)
     else E (TorchCheck ''SUPA driver error'') (w\<lparr>drv := d\<rparr>))"
  by (intro ext) (simp add: driver_check_out_def split: prod.splits)

section \<open>Device memory\<close>

text \<open>
  What the runtime documents of device memory, in terms of the address ranges it has handed out: a
  successful allocation or address reservation is a fresh range that overlaps no other, a successful
  free takes the range that starts at the address away, and nothing else changes them. The laws are
  asked for only where the ranges handed out before are non-empty and do not overlap.
\<close>

definition fresh_range :: "(nat \<times> nat) set \<Rightarrow> nat \<Rightarrow> nat \<Rightarrow> bool" where
  "fresh_range R p n \<longleftrightarrow> 0 < p \<and> (\<forall>(q, m) \<in> R. span p n \<inter> span q m = {})"

definition sole_range :: "(nat \<times> nat) set \<Rightarrow> nat \<Rightarrow> nat \<Rightarrow> bool" where
  "sole_range R p n \<longleftrightarrow> (p, n) \<in> R \<and> (\<forall>m. (p, m) \<in> R \<longrightarrow> m = n)"

definition ranges_ok :: "(nat \<times> nat) set \<Rightarrow> bool" where
  "ranges_ok R \<longleftrightarrow> (\<forall>p n. (p, n) \<in> R \<longrightarrow> 0 < n)
     \<and> (\<forall>p n q m. (p, n) \<in> R \<longrightarrow> (q, m) \<in> R \<longrightarrow> (p, n) \<noteq> (q, m) \<longrightarrow> span p n \<inter> span q m = {})"

definition acquires :: "('d \<Rightarrow> (nat \<times> nat) set) \<Rightarrow> nat \<Rightarrow> ('d, nat) drv_out \<Rightarrow> bool" where
  "acquires live n f \<longleftrightarrow> (\<forall>d e p d'. ranges_ok (live d) \<longrightarrow> f d = ((e, p), d') \<longrightarrow>
     (if e = supaSuccess then fresh_range (live d) p n \<and> live d' = insert (p, n) (live d)
      else live d' = live d))"

definition keeps_live :: "('d \<Rightarrow> (nat \<times> nat) set) \<Rightarrow> ('d \<Rightarrow> 'a \<times> 'd) \<Rightarrow> bool" where
  "keeps_live live f \<longleftrightarrow> (\<forall>d x d'. f d = (x, d') \<longrightarrow> live d' = live d)"

definition acquires_ptr :: "('d \<Rightarrow> (nat \<times> nat) set) \<Rightarrow> nat \<Rightarrow> ('d \<Rightarrow> nat \<times> 'd) \<Rightarrow> bool" where
  "acquires_ptr live n f \<longleftrightarrow> (\<forall>d p d'. ranges_ok (live d) \<longrightarrow> f d = (p, d') \<longrightarrow>
     (if p \<noteq> 0 then fresh_range (live d) p n \<and> live d' = insert (p, n) (live d)
      else live d' = live d))"

definition gives_back :: "('d \<Rightarrow> (nat \<times> nat) set) \<Rightarrow> nat \<Rightarrow> nat \<Rightarrow> 'd drv_call \<Rightarrow> bool" where
  "gives_back live p n f \<longleftrightarrow> (\<forall>d d'. ranges_ok (live d) \<longrightarrow> sole_range (live d) p n \<longrightarrow>
     f d = (supaSuccess, d') \<longrightarrow> live d' = live d - {(p, n)})"

definition memory_calls_ok :: "'d driver \<Rightarrow> ('d \<Rightarrow> (nat \<times> nat) set) \<Rightarrow> bool" where
  "memory_calls_ok D live \<longleftrightarrow>
     (\<forall>n. acquires live n (supaMalloc D n)) \<and> (\<forall>n. acquires live n (suMemAddressReserve D n)) \<and>
     (\<forall>a n. acquires_ptr live n (raw_alloc_hook D a n)) \<and>
     (\<forall>p n. gives_back live p n (supaFree D p)) \<and>
     (\<forall>a p n. gives_back live p n (\<lambda>d. (supaSuccess, raw_delete_hook D a p d))) \<and>
     (\<forall>p n. gives_back live p n (suMemAddressFree D p n))"

text \<open>The calls that hand out and take back no address range.\<close>

definition other_calls_ok :: "'d driver \<Rightarrow> ('d \<Rightarrow> (nat \<times> nat) set) \<Rightarrow> bool" where
  "other_calls_ok D live \<longleftrightarrow>
     keeps_live live (supaGetLastError D) \<and> keeps_live live (supaMemGetInfo D) \<and>
     keeps_live live (supaEventCreateWithFlags D) \<and> (\<forall>e s. keeps_live live (supaEventRecord D e s)) \<and>
     (\<forall>e. keeps_live live (supaEventQuery D e)) \<and> (\<forall>e. keeps_live live (supaEventSynchronize D e)) \<and>
     (\<forall>s. keeps_live live (supaStreamSynchronize D s)) \<and> keeps_live live (supaGetDevice D) \<and>
     (\<forall>i. keeps_live live (supaSetDevice D i)) \<and>
     (\<forall>i. keeps_live live (suDevicePrimaryCtxGetState D i)) \<and>
     (\<forall>p. keeps_live live (supaIpcGetMemHandle D p)) \<and> (\<forall>i. keeps_live live (totalGlobalMem D i)) \<and>
     (\<forall>i d n d'. totalGlobalMem D i d = ((supaSuccess, n), d') \<longrightarrow> 0 < n) \<and>
     (\<forall>n i. keeps_live live (suMemCreate D n i)) \<and> (\<forall>h. keeps_live live (suMemRelease D h)) \<and>
     (\<forall>p n h. keeps_live live (suMemMap D p n h)) \<and> (\<forall>p n. keeps_live live (suMemUnmap D p n)) \<and>
     (\<forall>p n i. keeps_live live (suMemSetAccess D p n i)) \<and>
     (\<forall>h. keeps_live live (suMemExportToShareableHandle D h)) \<and>
     (\<forall>h. keeps_live live (suMemImportFromShareableHandle D h)) \<and>
     keeps_live live (capturing D) \<and> (\<forall>m. keeps_live live (exchangeCaptureMode D m)) \<and>
     (\<forall>k. keeps_live live (callback_execute D k))"

section \<open>A reference driver\<close>

text \<open>
  A driver that meets these laws, on which the hypotheses of the theorems are discharged: it places
  every range above all others, fails when the total would exceed its capacity, and completes every
  event at once.
\<close>

record ref_state =
  ref_ranges :: "(nat \<times> nat) list"
  ref_capacity :: nat
  ref_device :: int
  ref_next :: nat
  ref_made :: "(nat \<times> int \<times> int) list"
  ref_open :: "nat list"
  ref_ipc :: "(string \<times> nat) list"

definition ref_start :: "nat \<Rightarrow> ref_state" where
  "ref_start cap = \<lparr>ref_ranges = [], ref_capacity = cap, ref_device = 0, ref_next = 1,
     ref_made = [], ref_open = [], ref_ipc = []\<rparr>"

definition ref_top :: "(nat \<times> nat) list \<Rightarrow> nat" where
  "ref_top rs = fold (\<lambda>(p, n) t. max (p + n) t) rs 4096"

definition ref_acquire :: "nat \<Rightarrow> (ref_state, nat) drv_out" where
  "ref_acquire n d =
     (let p = ref_top (ref_ranges d) in
      if sum_list (map snd (ref_ranges d)) + n \<le> ref_capacity d
      then ((supaSuccess, p), d\<lparr>ref_ranges := (p, n) # ref_ranges d\<rparr>)
      else ((supaErrorMemoryAllocation, 0), d))"

definition ref_drop :: "nat \<Rightarrow> ref_state \<Rightarrow> ref_state" where
  "ref_drop p d = d\<lparr>ref_ranges := filter (\<lambda>r. fst r \<noteq> p) (ref_ranges d)\<rparr>"

definition ref_fresh :: "(ref_state, nat) drv_out" where
  "ref_fresh d = ((supaSuccess, ref_next d), d\<lparr>ref_next := Suc (ref_next d)\<rparr>)"

definition ref_ok :: "ref_state drv_call" where
  "ref_ok d = (supaSuccess, d)"

definition ref_current :: "ref_state \<Rightarrow> int" where
  "ref_current d = (if 0 \<le> ref_device d \<and> ref_device d < 2 then ref_device d else 0)"

definition ref_driver :: "ref_state driver" where
  "ref_driver =
     \<lparr>supaMalloc = ref_acquire, supaFree = \<lambda>p d. (supaSuccess, ref_drop p d),
      supaGetLastError = ref_ok, supaMemGetInfo = \<lambda>d. ((supaSuccess, ref_capacity d, ref_capacity d), d),
      supaEventCreateWithFlags = ref_fresh, supaEventRecord = \<lambda>_ _. ref_ok, supaEventQuery = \<lambda>_. ref_ok,
      supaEventSynchronize = \<lambda>_. ref_ok, supaStreamSynchronize = \<lambda>_. ref_ok,
      supaGetDevice = \<lambda>d. ((supaSuccess, ref_current d), d),
      supaSetDevice = \<lambda>i d. if 0 \<le> i \<and> i < 2 then (supaSuccess, d\<lparr>ref_device := i\<rparr>) else (supaErrorOther 1, d),
      suDevicePrimaryCtxGetState = \<lambda>_ d. ((supaSuccess, True), d),
      supaIpcGetMemHandle = \<lambda>_ d. ((supaSuccess, ''h''), d), totalGlobalMem = \<lambda>_ d. ((supaSuccess, Suc (ref_capacity d)), d),
      suMemAddressReserve = ref_acquire, suMemAddressFree = \<lambda>p _ d. (supaSuccess, ref_drop p d),
      suMemCreate = \<lambda>_ _. ref_fresh, suMemRelease = \<lambda>_. ref_ok, suMemMap = \<lambda>_ _ _. ref_ok,
      suMemUnmap = \<lambda>_ _. ref_ok, suMemSetAccess = \<lambda>_ _ _. ref_ok,
      suMemExportToShareableHandle = \<lambda>_. ref_fresh, suMemImportFromShareableHandle = \<lambda>_. ref_fresh,
      pidfd_open = \<lambda>p d. (Some p, d), pidfd_getfd = \<lambda>_ f d. (Some f, d), close_fd = \<lambda>_ d. d, getpid = 1,
      capturing = \<lambda>d. (False, d), exchangeCaptureMode = \<lambda>_ d. (0, d),
      raw_alloc_hook = \<lambda>_ n d. (case ref_acquire n d of ((e, p), d') \<Rightarrow> (p, d')),
      raw_delete_hook = \<lambda>_. ref_drop, callback_keys = [], callback_execute = \<lambda>_ d. (False, d),
      device_count = 2\<rparr>"

lemma ref_top_bound: "(p, n) \<in> set rs \<Longrightarrow> p + n \<le> ref_top rs" and ref_top_pos: "4096 \<le> ref_top rs"
proof -
  have "t \<le> fold (\<lambda>(p, n) t. max (p + n) t) rs t \<and>
      ((p, n) \<in> set rs \<longrightarrow> p + n \<le> fold (\<lambda>(p, n) t. max (p + n) t) rs t)" for t
  proof (induction rs arbitrary: t)
    case (Cons r rs)
    obtain q m where r: "r = (q, m)" by fastforce
    show ?case
      using Cons.IH [of "max (q + m) t"] by (auto simp: r)
  qed simp
  then show "(p, n) \<in> set rs \<Longrightarrow> p + n \<le> ref_top rs" and "4096 \<le> ref_top rs"
    by (auto simp: ref_top_def)
qed

definition ref_live :: "ref_state \<Rightarrow> (nat \<times> nat) set" where
  "ref_live d = set (ref_ranges d)"

lemma ref_acquires: "acquires ref_live n (ref_acquire n)"
proof -
  have "fresh_range (ref_live d) (ref_top (ref_ranges d)) n" for d
    using ref_top_bound [of _ _ "ref_ranges d"] ref_top_pos [of "ref_ranges d"]
    by (fastforce simp: fresh_range_def ref_live_def span_def)
  then show ?thesis
    by (auto simp: acquires_def ref_acquire_def Let_def ref_live_def split: if_splits)
qed

lemma ref_gives_back: "gives_back ref_live p n (\<lambda>d. (supaSuccess, ref_drop p d))"
proof -
  have "fst r \<noteq> p \<longleftrightarrow> r \<noteq> (p, n)" if "sole_range (ref_live d) p n" "r \<in> ref_live d" for d r
    using that unfolding sole_range_def by (metis fst_conv prod.collapse)
  then show ?thesis by (auto simp: gives_back_def ref_live_def ref_drop_def)
qed

lemma ref_acquires_ptr: "acquires_ptr ref_live n (\<lambda>d. case ref_acquire n d of ((e, p), d') \<Rightarrow> (p, d'))"
  unfolding acquires_ptr_def
proof (intro allI impI)
  fix d p d' assume r: "ranges_ok (ref_live d)" and a: "(case ref_acquire n d of ((e, p), d') \<Rightarrow> (p, d')) = (p, d')"
  obtain e where e: "ref_acquire n d = ((e, p), d')" using a by (auto split: prod.splits)
  then have "(e = supaSuccess) = (p \<noteq> 0)"
    using ref_top_pos [of "ref_ranges d"] by (auto simp: ref_acquire_def Let_def split: if_splits)
  then show "if p \<noteq> 0 then fresh_range (ref_live d) p n \<and> ref_live d' = insert (p, n) (ref_live d)
    else ref_live d' = ref_live d"
    using ref_acquires [of n, unfolded acquires_def, rule_format, OF r e] by simp
qed

lemma ref_memory_calls_ok: "memory_calls_ok ref_driver ref_live"
  by (simp add: memory_calls_ok_def ref_driver_def ref_acquires ref_acquires_ptr ref_gives_back)

lemma ref_other_calls_ok: "other_calls_ok ref_driver ref_live"
  by (auto simp: other_calls_ok_def ref_driver_def keeps_live_def ref_ok_def ref_fresh_def ref_live_def
      split: if_splits)

section \<open>Switching devices\<close>

text \<open>
  What the runtime documents of the current device: reading it changes nothing, a successful
  \<^verbatim>\<open>supaSetDevice\<close> selects the device, and asking for the state of a context selects none.
\<close>

definition device_calls_ok :: "'d driver \<Rightarrow> ('d \<Rightarrow> int) \<Rightarrow> bool" where
  "device_calls_ok D cur \<longleftrightarrow>
     (\<forall>d. 0 \<le> cur d \<and> cur d < device_count D) \<and> device_count D \<le> 128 \<and>
     (\<forall>d. supaGetDevice D d = ((supaSuccess, cur d), d)) \<and>
     (\<forall>i d d'. supaSetDevice D i d = (supaSuccess, d') \<longrightarrow> cur d' = i) \<and>
     (\<forall>i d r d'. suDevicePrimaryCtxGetState D i d = (r, d') \<longrightarrow> cur d' = cur d)"

definition thread_device :: "('d \<Rightarrow> int) \<Rightarrow> 'd world \<Rightarrow> int" where
  "thread_device cur w = (if 0 \<le> k_device w then k_device w else cur (drv w))"

lemma wp_GetDevice:
  assumes "device_calls_ok D cur"
  shows "wp (GetDevice D) Q E w = Q (supaSuccess, thread_device cur w) w"
  using assms by (simp add: GetDevice_def thread_device_def device_calls_ok_def wp_if)

lemma wp_SetDevice:
  assumes "device_calls_ok D cur"
  shows "wp (SetDevice D device force) (\<lambda>e w'. e = supaSuccess \<longrightarrow> k_device w' = -1 \<and> cur (drv w') = device)
    (\<lambda>_ _. True) w"
  using assms by (auto simp: SetDevice_def device_calls_ok_def wp_if split: prod.splits)

lemma wp_MaybeSetDevice:
  assumes "device_calls_ok D cur" and "0 \<le> device"
  shows "wp (MaybeSetDevice D device) (\<lambda>e w'. e = supaSuccess \<longrightarrow> thread_device cur w' = device)
    (\<lambda>_ _. True) w"
proof -
  have "wp (SetDevice D device False) (\<lambda>e w'. e = supaSuccess \<longrightarrow> thread_device cur w' = device)
      (\<lambda>_ _. True) w" for w
    by (rule wp_conseq [OF wp_SetDevice [OF assms(1)]]) (simp_all add: thread_device_def)
  then show ?thesis
    using assms by (auto simp: MaybeSetDevice_def hasPrimaryContext_def wp_if thread_device_def
        split: prod.splits)
qed

lemma wp_ExchangeDevice:
  assumes "device_calls_ok D cur"
  shows "wp (ExchangeDevice D device)
    (\<lambda>old w'. old = thread_device cur w \<and> thread_device cur w' = device \<and> k_device w' = -1)
    (\<lambda>_ _. True) w"
  using assms by (auto simp: ExchangeDevice_def device_calls_ok_def thread_device_def wp_if
      split: prod.splits)

lemma wp_MaybeExchangeDevice:
  assumes "device_calls_ok D cur" and "k_device w = -1" and "0 \<le> device"
  shows "wp (MaybeExchangeDevice D device)
    (\<lambda>old w'. old = thread_device cur w \<and> thread_device cur w' = device) (\<lambda>_ _. True) w"
  using assms by (auto simp: MaybeExchangeDevice_def hasPrimaryContext_def device_calls_ok_def
      thread_device_def wp_if split: prod.splits)

lemma ref_device_calls_ok: "device_calls_ok ref_driver ref_current"
  by (auto simp: device_calls_ok_def ref_driver_def ref_current_def)

section \<open>Properties\<close>

text \<open>
  C28: saving the thread's device with \<^verbatim>\<open>ExchangeDevice\<close>, working on another one and restoring it with
  \<^verbatim>\<open>MaybeSetDevice\<close>, which must not create a context, leaves the thread on the device it had before,
  also when that device was only remembered and has no context yet; in between, the thread is on the
  requested device.
\<close>

theorem device_guard_restores:
  assumes "device_calls_ok D cur" and "0 \<le> device"
  shows "wp (ExchangeDevice D device)
    (\<lambda>old w1. thread_device cur w1 = device \<and> old = thread_device cur w \<and>
       wp (MaybeSetDevice D old) (\<lambda>e w2. e = supaSuccess \<longrightarrow> thread_device cur w2 = thread_device cur w)
         (\<lambda>_ _. True) w1)
    (\<lambda>_ _. True) w"
proof (rule wp_conseq [OF wp_ExchangeDevice [OF assms(1), of device w]], intro conjI, goal_cases)
  case (3 old w1)
  then have "0 \<le> old" using assms(1) by (simp add: thread_device_def device_calls_ok_def)
  then have "wp (MaybeSetDevice D old) (\<lambda>e w2. e = supaSuccess \<longrightarrow> thread_device cur w2 = old)
      (\<lambda>_ _. True) w1"
    by (rule wp_MaybeSetDevice [OF assms(1)])
  then show ?case using 3 by (rule_tac wp_conseq) auto
qed simp_all

text \<open>
  C29: \<^verbatim>\<open>MaybeExchangeDevice\<close> does the same only when no device is remembered. It reads the driver's
  device and not the remembered one, so a thread for which device 1 is remembered and which asks for
  the driver's device 0 is told that it was on device 0 and stays on device 1.
\<close>

theorem maybe_exchange_stale:
  assumes "device_calls_ok D cur" and "0 \<le> k_device w" and "k_device w \<noteq> device"
    and "cur (drv w) = device"
  shows "wp (MaybeExchangeDevice D device)
    (\<lambda>old w'. old = device \<and> thread_device cur w' = k_device w \<and> thread_device cur w' \<noteq> device)
    (\<lambda>_ _. False) w"
proof -
  have "0 \<le> cur (drv w)" "cur (drv w) < device_count D" "device_count D \<le> 128"
    "supaGetDevice D (drv w) = ((supaSuccess, cur (drv w)), drv w)"
    using assms(1) by (auto simp: device_calls_ok_def)
  then show ?thesis
    using assms(2-4) by (simp add: MaybeExchangeDevice_def thread_device_def)
qed

theorem maybe_exchange_stale_witness:
  "wp (MaybeExchangeDevice ref_driver 0)
    (\<lambda>old w'. old = 0 \<and> thread_device ref_current w' = 1)
    (\<lambda>_ _. False) \<lparr>drv = ref_start 1000, k_device = 1, event_pools = \<lambda>_. []\<rparr>"
  by (rule wp_conseq [OF maybe_exchange_stale [OF ref_device_calls_ok]]) (simp_all add: ref_start_def ref_current_def)

theorem device_guard_restores_witness:
  "wp (ExchangeDevice ref_driver 1)
    (\<lambda>old w1. thread_device ref_current w1 = 1 \<and> old = 0) (\<lambda>_ _. True)
    \<lparr>drv = ref_start 1000, k_device = -1, event_pools = \<lambda>_. []\<rparr>"
  by (rule wp_conseq [OF device_guard_restores [OF ref_device_calls_ok]])
    (simp_all add: ref_start_def thread_device_def ref_current_def)

end
