(* ===== verification/Expandable_Segment.thy ===== *)
theory Expandable_Segment
  imports Supa_Runtime
begin

text \<open>
  \<^verbatim>\<open>ExpandableSegment\<close> of \<^verbatim>\<open>core/supa/SUPACachingAllocator.cpp\<close>: a range of reserved addresses that is
  backed by physical memory one page (of \<open>segment_size\<close> bytes) at a time. The vector of optional
  handles records which pages are backed. The theory shows that mapping is all-or-nothing and returns
  the pages that cover the request, that unmapping releases exactly the pages that lie wholly inside
  the request, and that the enumeration of the backed ranges visits every backed page once.
\<close>

section \<open>State\<close>

record Handle =
  handle :: nat
  handle_fd :: "nat option"

record ExpandableSegment =
  es_device :: int
  es_stream :: nat
  es_ptr :: nat
  max_handles :: nat
  segment_size :: nat
  handles :: "Handle option list"
  es_peers :: "int list"

type_synonym SegmentRange = "nat \<times> nat"
type_synonym ('d, 'a) segx = "(ExpandableSegment \<times> 'd world, exn, 'a) sx"

abbreviation on_es :: "(ExpandableSegment, exn, 'a) sx \<Rightarrow> ('d, 'a) segx" where
  "on_es \<equiv> sx_field fst apfst"

abbreviation on_world :: "('d, 'a) wx \<Rightarrow> ('d, 'a) segx" where
  "on_world \<equiv> sx_field snd apsnd"

definition numSegments :: "ExpandableSegment \<Rightarrow> nat \<Rightarrow> nat" where
  "numSegments es n = (n + segment_size es - 1) div segment_size es"

definition segmentLeft :: "ExpandableSegment \<Rightarrow> nat \<Rightarrow> nat" where
  "segmentLeft es p = (p - es_ptr es) div segment_size es"

definition segmentRight :: "ExpandableSegment \<Rightarrow> nat \<Rightarrow> nat" where
  "segmentRight es p = numSegments es (p - es_ptr es)"

definition rangeFromHandles :: "ExpandableSegment \<Rightarrow> nat \<Rightarrow> nat \<Rightarrow> SegmentRange" where
  "rangeFromHandles es b e = (es_ptr es + segment_size es * b, segment_size es * (e - b))"

definition es_size :: "ExpandableSegment \<Rightarrow> nat" where
  "es_size es = max_handles es * segment_size es"

section \<open>Access to the handle vector\<close>

text \<open>\<^verbatim>\<open>handles_.at(i)\<close> and \<^verbatim>\<open>handles_.at(i).value()\<close>, with the exceptions they throw.\<close>

definition handle_at :: "nat \<Rightarrow> (ExpandableSegment, exn, Handle option) sx" where
  "handle_at i = sx_bind (sx_get handles) (\<lambda>hs.
     if i < length hs then sx_ret (hs ! i) else sx_throw StdOutOfRange)"

definition handle_value :: "nat \<Rightarrow> (ExpandableSegment, exn, Handle) sx" where
  "handle_value i = sx_bind (handle_at i) (\<lambda>h.
     case h of None \<Rightarrow> sx_throw BadOptionalAccess | Some x \<Rightarrow> sx_ret x)"

definition set_handle :: "nat \<Rightarrow> Handle option \<Rightarrow> (ExpandableSegment, exn, unit) sx" where
  "set_handle i h = sx_bind (sx_get handles) (\<lambda>hs.
     if i < length hs then sx_mod (\<lambda>es. es\<lparr>handles := hs[i := h]\<rparr>) else sx_throw StdOutOfRange)"

fun trim :: "'a option list \<Rightarrow> 'a option list" where
  "trim hs = (if hs \<noteq> [] \<and> last hs = None then trim (butlast hs) else hs)"

declare trim.simps [simp del]

definition trimHandles :: "(ExpandableSegment, exn, unit) sx" where
  "trimHandles = sx_mod (\<lambda>es. es\<lparr>handles := trim (handles es)\<rparr>)"

section \<open>Operations\<close>

text \<open>The constructor; the segment it returns owns a fresh reservation and no page.\<close>

definition ExpandableSegment_ctor ::
  "'d driver \<Rightarrow> int \<Rightarrow> nat \<Rightarrow> nat \<Rightarrow> int list \<Rightarrow> ('d, ExpandableSegment) wx" where
  "ExpandableSegment_ctor D dev st sz ps =
     sx_bind (supa_check_out (totalGlobalMem D dev)) (\<lambda>total.
     let es = \<lparr>es_device = dev, es_stream = st, es_ptr = 0, max_handles = 0, segment_size = sz,
           handles = [], es_peers = ps\<rparr>;
         mh = numSegments es (total + total div 8) in
     sx_bind (driver_check_out (suMemAddressReserve D (sz * mh))) (\<lambda>p.
     sx_ret (es\<lparr>es_ptr := p, max_handles := mh\<rparr>)))"

definition setAccess :: "'d driver \<Rightarrow> int \<Rightarrow> nat \<Rightarrow> nat \<Rightarrow> ('d, unit) segx" where
  "setAccess D dev b e = sx_bind (sx_get fst) (\<lambda>es.
     on_world (driver_check (suMemSetAccess D (es_ptr es + b * segment_size es)
       ((e - b) * segment_size es) dev)))"

definition mapAndSetAccess :: "'d driver \<Rightarrow> nat \<Rightarrow> nat \<Rightarrow> ('d, unit) segx" where
  "mapAndSetAccess D b e =
     sx_seq (sx_for [b ..< e] (\<lambda>i.
       sx_bind (on_es (handle_value i)) (\<lambda>h. sx_bind (sx_get fst) (\<lambda>es.
       on_world (driver_check (suMemMap D (es_ptr es + i * segment_size es) (segment_size es) (handle h)))))))
     (sx_bind (sx_get fst) (\<lambda>es.
      sx_seq (setAccess D (es_device es) b e)
      (sx_for (es_peers es) (\<lambda>p. setAccess D p b e))))"

text \<open>The loop of \<^verbatim>\<open>map\<close> that creates the pages; it releases what it created when memory runs out.\<close>

definition release_handle :: "'d driver \<Rightarrow> nat \<Rightarrow> ('d, unit) segx" where
  "release_handle D j =
     sx_bind (on_es (handle_value j)) (\<lambda>h.
     sx_seq (on_es (set_handle j None))
     (on_world (driver_check (suMemRelease D (handle h)))))"

fun create_handles :: "'d driver \<Rightarrow> nat \<Rightarrow> nat list \<Rightarrow> ('d, bool) segx" where
  "create_handles D b [] = sx_ret True"
| "create_handles D b (i # is) =
     sx_bind (on_es (handle_at i)) (\<lambda>h.
     sx_seq (sx_check (h = None) (InternalAssert ''!handles_.at(i)''))
     (sx_bind (sx_get fst) (\<lambda>es.
      sx_bind (on_world (drv_call (suMemCreate D (segment_size es) (es_device es)))) (\<lambda>(status, new_handle).
      if status = supaErrorMemoryAllocation then
        sx_seq (sx_for [b ..< i] (release_handle D))
        (sx_seq (on_es trimHandles) (sx_ret False))
      else sx_seq (driver_err status)
        (sx_seq (on_es (set_handle i (Some \<lparr>handle = new_handle, handle_fd = None\<rparr>)))
        (create_handles D b is))))))"

definition es_map :: "'d driver \<Rightarrow> SegmentRange \<Rightarrow> ('d, SegmentRange) segx" where
  "es_map D rg =
     sx_bind (sx_get fst) (\<lambda>es.
     let b = segmentLeft es (fst rg); e = segmentRight es (fst rg + snd rg) in
     sx_seq (sx_check (es_ptr es + b * segment_size es = fst rg) (InternalAssert ''begin is aligned''))
     (if b = e then sx_ret (rangeFromHandles es b e)
      else
        sx_seq (on_es (sx_mod (\<lambda>es. es\<lparr>handles := handles es @ replicate (e - length (handles es)) None\<rparr>)))
        (sx_bind (create_handles D b [b ..< e]) (\<lambda>ok.
         if \<not> ok then sx_ret (rangeFromHandles es b b)
         else sx_seq (mapAndSetAccess D b e) (sx_ret (rangeFromHandles es b e))))))"

definition unmapHandles :: "'d driver \<Rightarrow> nat \<Rightarrow> nat \<Rightarrow> ('d, unit) segx" where
  "unmapHandles D b e =
     sx_bind (sx_get fst) (\<lambda>es.
     sx_seq (on_world (supa_check (supaStreamSynchronize D (es_stream es))))
     (sx_seq (sx_for [b ..< e] (\<lambda>i.
        sx_bind (on_es (handle_value i)) (\<lambda>h.
        sx_seq (on_es (set_handle i None))
        (sx_seq (on_world (driver_check (suMemUnmap D (es_ptr es + segment_size es * i) (segment_size es))))
        (on_world (driver_check (suMemRelease D (handle h))))))))
     (on_es trimHandles)))"

definition es_unmap :: "'d driver \<Rightarrow> SegmentRange \<Rightarrow> ('d, SegmentRange) segx" where
  "es_unmap D rg =
     sx_bind (sx_get fst) (\<lambda>es.
     let b = segmentRight es (fst rg); e = segmentLeft es (fst rg + snd rg) in
     if e \<le> b then sx_ret (fst rg, 0)
     else sx_seq (unmapHandles D b e) (sx_ret (rangeFromHandles es b e)))"

text \<open>
  \<^verbatim>\<open>forEachAllocatedRange\<close> calls \<^verbatim>\<open>fn\<close> on every maximal run of backed pages. The callbacks of
  \<^verbatim>\<open>addPeer\<close> and of the destructor change no handle outside the run they are called on, so the runs are
  those of the vector before the loop.
\<close>

definition allocated_at :: "'a option list \<Rightarrow> nat \<Rightarrow> bool" where
  "allocated_at hs i \<longleftrightarrow> i < length hs \<and> hs ! i \<noteq> None"

fun range_loop :: "'a option list \<Rightarrow> nat list \<Rightarrow> nat \<Rightarrow> (nat \<times> nat) list" where
  "range_loop hs [] start = []"
| "range_loop hs (i # is) start =
     (let start = (if allocated_at hs i \<and> (i = 0 \<or> \<not> allocated_at hs (i - 1)) then i else start) in
      (if allocated_at hs i \<and> (i + 1 = length hs \<or> \<not> allocated_at hs (i + 1)) then [(start, i + 1)] else [])
        @ range_loop hs is start)"

definition allocated_ranges :: "'a option list \<Rightarrow> (nat \<times> nat) list" where
  "allocated_ranges hs = range_loop hs [0 ..< length hs] 0"

definition forEachAllocatedRange :: "(nat \<Rightarrow> nat \<Rightarrow> ('d, unit) segx) \<Rightarrow> ('d, unit) segx" where
  "forEachAllocatedRange fn =
     sx_bind (sx_get fst) (\<lambda>es. sx_for (allocated_ranges (handles es)) (\<lambda>(b, e). fn b e))"

definition addPeer :: "'d driver \<Rightarrow> int \<Rightarrow> ('d, unit) segx" where
  "addPeer D dev =
     sx_seq (on_es (sx_mod (\<lambda>es. es\<lparr>es_peers := es_peers es @ [dev]\<rparr>)))
     (forEachAllocatedRange (\<lambda>b e. setAccess D dev b e))"

definition ExpandableSegment_dtor :: "'d driver \<Rightarrow> ('d, unit) segx" where
  "ExpandableSegment_dtor D =
     sx_seq (forEachAllocatedRange (unmapHandles D))
     (sx_bind (sx_get fst) (\<lambda>es.
      on_world (driver_check (suMemAddressFree D (es_ptr es) (segment_size es * max_handles es)))))"

section \<open>Sharing between processes\<close>

text \<open>What \<^verbatim>\<open>share\<close> writes to its stream: the header and one file descriptor for each page.\<close>

record ShareHeader =
  sh_pid :: nat
  sh_segment_size :: nat
  sh_num_handles :: nat

type_synonym share_buf = "ShareHeader \<times> nat list"

fun share_fds :: "'d driver \<Rightarrow> nat list \<Rightarrow> ('d, nat list) segx" where
  "share_fds D [] = sx_ret []"
| "share_fds D (i # is) =
     sx_bind (on_es (handle_value i)) (\<lambda>h.
     sx_bind (case handle_fd h of
         Some fd \<Rightarrow> sx_ret fd
       | None \<Rightarrow> sx_bind (on_world (driver_check_out (suMemExportToShareableHandle D (handle h)))) (\<lambda>fd.
           sx_seq (on_es (set_handle i (Some (h\<lparr>handle_fd := Some fd\<rparr>)))) (sx_ret fd)))
     (\<lambda>fd. sx_bind (share_fds D is) (\<lambda>fds. sx_ret (fd # fds))))"

definition es_share :: "'d driver \<Rightarrow> SegmentRange \<Rightarrow> ('d, SegmentRange \<times> share_buf) segx" where
  "es_share D rg =
     sx_bind (sx_get fst) (\<lambda>es.
     let b = segmentLeft es (fst rg); e = segmentRight es (fst rg + snd rg);
         header = \<lparr>sh_pid = getpid D, sh_segment_size = segment_size es, sh_num_handles = e - b\<rparr> in
     sx_bind (share_fds D [b ..< e]) (\<lambda>fds.
     sx_ret (rangeFromHandles es b e, (header, fds))))"

text \<open>
  The receiving side: \<^verbatim>\<open>fromShared\<close> builds a segment of its own and imports the pages. The size it
  passes to the constructor is the size of the whole shared range, not the size of a page.
\<close>

definition release_imported :: "'d driver \<Rightarrow> ('d, unit) segx" where
  "release_imported D =
     sx_bind (sx_get fst) (\<lambda>es.
     sx_for [0 ..< length (handles es)] (\<lambda>i.
       sx_bind (on_es (handle_value i)) (\<lambda>h.
       sx_seq (on_world (driver_check (suMemRelease D (handle h)))) (on_es (set_handle i None)))))"

fun import_handles :: "'d driver \<Rightarrow> nat \<Rightarrow> nat list \<Rightarrow> ('d, unit) segx" where
  "import_handles D pidfd [] = sx_ret ()"
| "import_handles D pidfd (fd # fds) =
     sx_bind (on_world (drv_call (pidfd_getfd D pidfd fd))) (\<lambda>r. case r of
       None \<Rightarrow>
         sx_seq (on_world (drv_call (\<lambda>d. ((), close_fd D pidfd d))))
         (sx_seq (release_imported D) (sx_throw (TorchCheck ''pidfd_getfd'')))
     | Some myfd \<Rightarrow>
         sx_bind (on_world (driver_check_out (suMemImportFromShareableHandle D myfd))) (\<lambda>new_handle.
         sx_seq (on_world (drv_call (\<lambda>d. ((), close_fd D myfd d))))
         (sx_seq (on_es (sx_mod (\<lambda>es. es\<lparr>handles := handles es @ [Some \<lparr>handle = new_handle, handle_fd = None\<rparr>]\<rparr>)))
         (import_handles D pidfd fds))))"

text \<open>An exception destroys the segment under construction on its way out.\<close>

definition or_destroy :: "'d driver \<Rightarrow> ('d, unit) segx \<Rightarrow> ExpandableSegment \<Rightarrow> ('d, ExpandableSegment) wx" where
  "or_destroy D m es = (\<lambda>w. case m (es, w) of
     (Inl e, t) \<Rightarrow> (Inl e, snd (snd (ExpandableSegment_dtor D t)))
   | (Inr _, (es', w')) \<Rightarrow> (Inr es', w'))"

definition fromShared :: "'d driver \<Rightarrow> int \<Rightarrow> nat \<Rightarrow> int list \<Rightarrow> share_buf \<Rightarrow> ('d, ExpandableSegment) wx" where
  "fromShared D dev current_stream ps buf =
     (let header = fst buf in
      sx_bind (ExpandableSegment_ctor D dev current_stream (sh_num_handles header * sh_segment_size header) ps)
      (or_destroy D
        (sx_bind (on_world (drv_call (pidfd_open D (sh_pid header)))) (\<lambda>r. case r of
           None \<Rightarrow> sx_throw (TorchCheck ''pidfd_open'')
         | Some pidfd \<Rightarrow>
             sx_seq (import_handles D pidfd (take (sh_num_handles header) (snd buf)))
             (sx_seq (on_world (drv_call (\<lambda>d. ((), close_fd D pidfd d))))
             (mapAndSetAccess D 0 (sh_num_handles header)))))))"

section \<open>The handle vector\<close>

text \<open>The backing of page \<open>i\<close>; pages beyond the end of the vector are not backed.\<close>

definition page :: "'a option list \<Rightarrow> nat \<Rightarrow> 'a option" where
  "page hs i = (if i < length hs then hs ! i else None)"

definition trimmed :: "'a option list \<Rightarrow> bool" where
  "trimmed hs \<longleftrightarrow> hs = [] \<or> last hs \<noteq> None"

lemma page_append_None [simp]: "page (hs @ replicate n None) = page hs"
  by (auto simp: page_def nth_append)

lemma page_list_update [simp]: "i < length hs \<Longrightarrow> page (hs[i := h]) = (page hs)(i := h)"
  by (auto simp: page_def)

lemma page_trim [simp]: "page (trim hs) = page hs"
proof (induction hs rule: trim.induct)
  case (1 hs)
  show ?case
  proof (cases "hs \<noteq> [] \<and> last hs = None")
    case True
    then have "hs = butlast hs @ replicate 1 None" by simp (metis append_butlast_last_id)
    then have "page hs = page (butlast hs)" using page_append_None [of "butlast hs" 1] by simp
    then show ?thesis using 1 True by (simp add: trim.simps [of hs])
  qed (auto simp: trim.simps [of hs])
qed

lemma trimmed_trim [simp]: "trimmed (trim hs)"
proof (induction hs rule: trim.induct)
  case (1 hs)
  then show ?case
    by (cases "hs \<noteq> [] \<and> last hs = None") (auto simp: trim.simps [of hs] trimmed_def)
qed

lemma length_trim_le: "length (trim hs) \<le> length hs"
proof (induction hs rule: trim.induct)
  case (1 hs)
  then show ?case
    by (cases "hs \<noteq> [] \<and> last hs = None") (force simp: trim.simps [of hs])+
qed

lemma trimmed_length:
  assumes "trimmed hs" and "\<And>i. n \<le> i \<Longrightarrow> page hs i = None"
  shows "length hs \<le> n"
proof (rule ccontr)
  assume "\<not> length hs \<le> n"
  then have "n \<le> length hs - 1" and ne: "hs \<noteq> []" by auto
  then have "page hs (length hs - 1) = None" using assms(2) by blast
  then show False using assms(1) ne by (simp add: page_def trimmed_def last_conv_nth)
qed

text \<open>A trimmed vector is determined by the pages it backs.\<close>

lemma trimmed_eqI:
  assumes "trimmed hs" and "trimmed hs'" and "page hs = page hs'"
  shows "hs = hs'"
proof (rule nth_equalityI)
  have "length hs \<le> length hs'" if "trimmed hs" "page hs = page hs'" for hs hs' :: "'a option list"
    by (rule trimmed_length [OF that(1)]) (simp add: that(2) page_def)
  then show len: "length hs = length hs'" using assms by (simp add: le_antisym)
  show "hs ! i = hs' ! i" if "i < length hs" for i
    using fun_cong [OF assms(3), of i] that len by (simp add: page_def)
qed

section \<open>Mapping and unmapping pages\<close>

definition seg_ok :: "ExpandableSegment \<Rightarrow> bool" where
  "seg_ok es \<longleftrightarrow> 0 < segment_size es \<and> trimmed (handles es) \<and> length (handles es) \<le> max_handles es"

abbreviation driver_error :: "exn \<Rightarrow> bool" where
  "driver_error e \<equiv> e = TorchCheck ''SUPA driver error'' \<or> (\<exists>x. e = SupaCheck x)"

lemma wp_handle_at [simp]:
  "wp (handle_at i) Q E = (\<lambda>es. if i < length (handles es) then Q (handles es ! i) es else E StdOutOfRange es)"
  by (intro ext) (simp add: handle_at_def)

lemma wp_handle_value [simp]:
  "wp (handle_value i) Q E = (\<lambda>es. if i < length (handles es)
     then case handles es ! i of None \<Rightarrow> E BadOptionalAccess es | Some h \<Rightarrow> Q h es
     else E StdOutOfRange es)"
  by (intro ext) (simp add: handle_value_def split: option.splits)

lemma wp_set_handle [simp]:
  "wp (set_handle i h) Q E = (\<lambda>es. if i < length (handles es)
     then Q () (es\<lparr>handles := (handles es)[i := h]\<rparr>) else E StdOutOfRange es)"
  by (intro ext) (simp add: set_handle_def)

text \<open>
  The state of a run of pages during a loop: the segment differs from \<open>es\<close> in its handles only, whose
  number is \<open>n\<close> and whose pages are given by a function.
\<close>

definition seg_pages :: "ExpandableSegment \<Rightarrow> nat \<Rightarrow> (nat \<Rightarrow> Handle option) \<Rightarrow> ExpandableSegment \<times> 'd world \<Rightarrow> bool" where
  "seg_pages es n pg t \<longleftrightarrow>
     (\<exists>hs. fst t = es\<lparr>handles := hs\<rparr> \<and> length hs = n \<and> page hs = pg)"

lemma seg_pages_fields:
  assumes "seg_pages es n pg (es', w)"
  shows "segment_size es' = segment_size es" and "es_ptr es' = es_ptr es"
    and "es_device es' = es_device es" and "es_peers es' = es_peers es" and "es_stream es' = es_stream es"
    and "max_handles es' = max_handles es" and "length (handles es') = n"
    and "\<And>i. i < n \<Longrightarrow> handles es' ! i = pg i"
  using assms by (auto simp: seg_pages_def page_def)

lemma wp_set_page:
  assumes "seg_pages es n pg t" and "i < n"
  shows "wp (on_es (set_handle i h)) (\<lambda>_. seg_pages es n (pg(i := h))) (\<lambda>_ _. False) t"
  using assms by (cases t) (fastforce simp: seg_pages_def)

lemma wp_release_handle:
  assumes "seg_pages es n pg t" and "i < n" and "pg i \<noteq> None"
  shows "wp (release_handle D i) (\<lambda>_. seg_pages es n (pg(i := None))) (\<lambda>e _. driver_error e) t"
proof (cases t)
  case (Pair es' w)
  note f = seg_pages_fields [OF assms(1) [unfolded Pair]]
  show ?thesis
    using assms f(7,8) wp_set_page [OF assms(1,2), of None]
    by (auto simp: Pair release_handle_def seg_pages_def split: option.splits prod.splits)
qed

text \<open>A loop whose body clears one page clears all the pages it visits.\<close>

lemma wp_clear_loop:
  fixes t :: "ExpandableSegment \<times> 'd world"
  assumes body: "\<And>i pg (t :: ExpandableSegment \<times> 'd world). seg_pages es n pg t \<Longrightarrow> i < n \<Longrightarrow> pg i \<noteq> None
      \<Longrightarrow> wp (f i) (\<lambda>_. seg_pages es n (pg(i := None))) (\<lambda>e _. driver_error e) t"
    and "seg_pages es n pg t" and "\<forall>i \<in> set is. i < n \<and> pg i \<noteq> None" and "distinct is"
  shows "wp (sx_for is f) (\<lambda>_. seg_pages es n (\<lambda>i. if i \<in> set is then None else pg i))
    (\<lambda>e _. driver_error e) t"
  using assms(2-)
proof (induction "is" arbitrary: pg t)
  case Nil
  then show ?case by simp
next
  case (Cons i "is")
  have "wp (f i) (\<lambda>_. seg_pages es n (pg(i := None))) (\<lambda>e _. driver_error e) t"
    using Cons.prems by (intro body) simp_all
  then have "wp (f i) (\<lambda>_. wp (sx_for is f)
      (\<lambda>_. seg_pages es n (\<lambda>j. if j \<in> set (i # is) then None else pg j)) (\<lambda>e _. driver_error e))
      (\<lambda>e _. driver_error e) t"
  proof (rule wp_conseq)
    fix t' :: "ExpandableSegment \<times> 'd world"
    assume "seg_pages es n (pg(i := None)) t'"
    then have "wp (sx_for is f)
        (\<lambda>_. seg_pages es n (\<lambda>j. if j \<in> set is then None else (pg(i := None)) j)) (\<lambda>e _. driver_error e) t'"
      by (rule Cons.IH) (use Cons.prems in auto)
    moreover have "(\<lambda>j. if j \<in> set is then None else (pg(i := None)) j)
        = (\<lambda>j. if j \<in> set (i # is) then None else pg j)" by auto
    ultimately show "wp (sx_for is f)
      (\<lambda>_. seg_pages es n (\<lambda>j. if j \<in> set (i # is) then None else pg j)) (\<lambda>e _. driver_error e) t'"
      by simp
  qed
  then show ?case by simp
qed

text \<open>
  Creating the pages from \<open>i\<close> to \<open>e\<close> when those from \<open>b\<close> to \<open>i\<close> have been created already: either all
  of them are backed afterwards, or memory ran out and the vector is back at what it was before \<open>b\<close>.
\<close>

definition created ::
  "ExpandableSegment \<Rightarrow> nat \<Rightarrow> nat \<Rightarrow> nat \<Rightarrow> (nat \<Rightarrow> Handle option) \<Rightarrow> bool \<Rightarrow> ExpandableSegment \<times> 'd world \<Rightarrow> bool"
  where
  "created es n b e pg ok t \<longleftrightarrow>
     (if ok then \<exists>pg'. seg_pages es n pg' t \<and> (\<forall>j. b \<le> j \<and> j < e \<longrightarrow> pg' j \<noteq> None)
        \<and> (\<forall>j. j < b \<or> e \<le> j \<longrightarrow> pg' j = pg j)
      else \<exists>hs. fst t = es\<lparr>handles := hs\<rparr> \<and> trimmed hs
        \<and> page hs = (\<lambda>j. if b \<le> j \<and> j < e then None else pg j))"

lemma created_upd:
  assumes "b \<le> i" and "i < e"
  shows "created es n b e (pg(i := h)) = created es n b e pg"
proof -
  have "(\<lambda>j. if b \<le> j \<and> j < e then None else (pg(i := h)) j) = (\<lambda>j. if b \<le> j \<and> j < e then None else pg j)"
    using assms by auto
  moreover have "(\<forall>j. j < b \<or> e \<le> j \<longrightarrow> pg' j = (pg(i := h)) j) = (\<forall>j. j < b \<or> e \<le> j \<longrightarrow> pg' j = pg j)" for pg'
    using assms by auto
  ultimately show ?thesis by (intro ext) (simp add: created_def)
qed

lemma wp_create_handles:
  fixes t :: "ExpandableSegment \<times> 'd world"
  assumes "seg_pages es n pg t" and "b \<le> i" and "i \<le> e" and "e \<le> n"
    and "\<And>j. i \<le> j \<Longrightarrow> j < e \<Longrightarrow> pg j = None" and "\<And>j. b \<le> j \<Longrightarrow> j < i \<Longrightarrow> pg j \<noteq> None"
  shows "wp (create_handles D b [i ..< e])
    (created es n b e pg)
    (\<lambda>e _. driver_error e) t"
  using assms
proof (induction "e - i" arbitrary: i pg t)
  case 0
  then show ?case by (auto simp: created_def)
next
  case (Suc k)
  then have ie: "i < e" and upt: "[i ..< e] = i # [Suc i ..< e]" by (simp_all add: upt_rec)
  obtain es' w where t: "t = (es', w)" by fastforce
  note f = seg_pages_fields [OF Suc.prems(1) [unfolded t]]
  have here: "i < length (handles es')" "handles es' ! i = None"
    using f(7,8) ie Suc.prems(4,5) by auto
  have oom: "wp (sx_for [b ..< i] (release_handle D)) (\<lambda>_. wp (on_es trimHandles)
      (\<lambda>_. created es n b e pg False) (\<lambda>e _. driver_error e)) (\<lambda>e _. driver_error e) t'"
    if "seg_pages es n pg t'" for t' :: "ExpandableSegment \<times> 'd world"
  proof (rule wp_conseq [OF wp_clear_loop [OF wp_release_handle that]])
    have pgs: "(\<lambda>j. if j \<in> set [b ..< i] then None else pg j) = (\<lambda>j. if b \<le> j \<and> j < e then None else pg j)"
      using Suc.prems(5) ie by fastforce
    show "wp (on_es trimHandles) (\<lambda>_. created es n b e pg False) (\<lambda>e _. driver_error e) u"
      if "seg_pages es n (\<lambda>j. if j \<in> set [b ..< i] then None else pg j) u"
      for u :: "ExpandableSegment \<times> 'd world"
      using that unfolding pgs
      by (cases u) (auto simp: trimHandles_def seg_pages_def created_def intro: exI [of _ "trim _"])
  qed (use Suc.prems ie in auto)
  have more: "wp (on_es (set_handle i (Some h))) (\<lambda>_. wp (create_handles D b [Suc i ..< e])
      (created es n b e pg) (\<lambda>e _. driver_error e)) (\<lambda>e _. driver_error e) t'"
    if "seg_pages es n pg t'" for t' :: "ExpandableSegment \<times> 'd world" and h
  proof (rule wp_conseq [OF wp_set_page [OF that, of i "Some h"]])
    fix u :: "ExpandableSegment \<times> 'd world" assume u: "seg_pages es n (pg(i := Some h)) u"
    have "wp (create_handles D b [Suc i ..< e]) (created es n b e (pg(i := Some h)))
        (\<lambda>e _. driver_error e) u"
      by (rule Suc.hyps(1) [OF _ u]) (use Suc.hyps(2) Suc.prems ie in auto)
    then show "wp (create_handles D b [Suc i ..< e]) (created es n b e pg) (\<lambda>e _. driver_error e) u"
      using Suc.prems(2) ie by (simp add: created_upd)
  qed (use ie Suc.prems(4) in auto)
  have same: "seg_pages es n pg (es', w\<lparr>drv := d\<rparr>)" for d
    using Suc.prems(1) by (simp add: t seg_pages_def)
  show ?case
    unfolding upt create_handles.simps
    using here oom [OF same] more [OF same]
    by (auto simp: t wp_if split: prod.splits)
qed

text \<open>Setting access rights and mapping existing pages changes the world only.\<close>

lemma wp_setAccess:
  assumes "\<And>w'. Q () (fst t, w')"
  shows "wp (setAccess D dev b e) Q (\<lambda>e _. driver_error e) t"
  using assms by (cases t) (auto simp: setAccess_def split: prod.splits)

lemma wp_setAccess_loop:
  assumes "\<And>w'. Q () (fst t, w')"
  shows "wp (sx_for ps (\<lambda>p. setAccess D p b e)) Q (\<lambda>e _. driver_error e) t"
proof -
  have "wp (sx_for ps (\<lambda>p. setAccess D p b e)) (\<lambda>_ u. fst u = fst t) (\<lambda>e _. driver_error e) t"
    by (rule wp_for) (auto intro!: wp_setAccess)
  then show ?thesis
  proof (rule wp_conseq)
    show "Q x u" if "fst u = fst t" for x u
      using assms [of "snd u"] that by (cases u) simp
  qed
qed

lemma wp_mapAndSetAccess:
  assumes "\<And>i. b \<le> i \<Longrightarrow> i < e \<Longrightarrow> page (handles (fst t)) i \<noteq> None" and "\<And>w'. Q () (fst t, w')"
  shows "wp (mapAndSetAccess D b e) Q (\<lambda>e _. driver_error e) t"
proof -
  let ?body = "\<lambda>i. sx_bind (on_es (handle_value i)) (\<lambda>h. sx_bind (sx_get fst) (\<lambda>es.
     on_world (driver_check (suMemMap D (es_ptr es + i * segment_size es) (segment_size es) (handle h)))))"
  have step: "wp (?body i) (\<lambda>_ u. fst u = fst t) (\<lambda>e _. driver_error e) u"
    if "i \<in> set [b ..< e]" "fst u = fst t" for i u
    using that assms(1) [of i] by (cases u) (auto simp: page_def split: option.splits prod.splits if_splits)
  have rest: "wp (sx_bind (sx_get fst) (\<lambda>es. sx_seq (setAccess D (es_device es) b e)
      (sx_for (es_peers es) (\<lambda>p. setAccess D p b e)))) Q (\<lambda>e _. driver_error e) u" if "fst u = fst t" for u
    using that assms(2) by (auto intro!: wp_setAccess wp_setAccess_loop)
  have "wp (sx_for [b ..< e] ?body) (\<lambda>_ u. fst u = fst t) (\<lambda>e _. driver_error e) t"
    by (rule wp_for [OF refl step])
  then have "wp (sx_for [b ..< e] ?body) (\<lambda>_. wp (sx_bind (sx_get fst) (\<lambda>es. sx_seq (setAccess D (es_device es) b e)
      (sx_for (es_peers es) (\<lambda>p. setAccess D p b e)))) Q (\<lambda>e _. driver_error e)) (\<lambda>e _. driver_error e) t"
    by (rule wp_conseq) (use rest in auto)
  then show ?thesis by (simp only: mapAndSetAccess_def wp_seq)
qed

text \<open>The pages from \<open>b\<close> to \<open>e\<close> that a request touches.\<close>

lemma segment_bounds:
  assumes "0 < segment_size es" and "es_ptr es \<le> p"
  shows "es_ptr es + segment_size es * segmentLeft es p \<le> p"
    and "p < es_ptr es + segment_size es * Suc (segmentLeft es p)"
    and "p \<le> es_ptr es + segment_size es * segmentRight es p"
    and "segmentLeft es p \<le> segmentRight es p"
    and "segmentRight es p \<le> n \<longleftrightarrow> p \<le> es_ptr es + segment_size es * n"
proof -
  let ?q = "p - es_ptr es" and ?ss = "segment_size es"
  have l: "?ss * (?q div ?ss) \<le> ?q" "?q < ?ss * Suc (?q div ?ss)"
    using assms(1) by (simp_all add: mult_div_mod_eq dividend_less_times_div)
  show "es_ptr es + ?ss * segmentLeft es p \<le> p" and "p < es_ptr es + ?ss * Suc (segmentLeft es p)"
    unfolding segmentLeft_def using l assms(2) by linarith+
  have r: "(?q + ?ss - 1) div ?ss \<le> n \<longleftrightarrow> ?q \<le> ?ss * n" for n
  proof -
    have "(?q + ?ss - 1) div ?ss \<le> n \<longleftrightarrow> (?q + ?ss - 1) div ?ss < Suc n" by (simp add: less_Suc_eq_le)
    also have "\<dots> \<longleftrightarrow> ?q + ?ss - 1 < Suc n * ?ss"
      using assms(1) by (simp only: div_less_iff_less_mult)
    also have "\<dots> \<longleftrightarrow> ?q \<le> ?ss * n" using assms(1) by (auto simp: algebra_simps)
    finally show ?thesis .
  qed
  show "segmentRight es p \<le> n \<longleftrightarrow> p \<le> es_ptr es + ?ss * n"
    using r [of n] assms(2) by (auto simp: segmentRight_def numSegments_def)
  show "p \<le> es_ptr es + ?ss * segmentRight es p"
    using r [of "segmentRight es p"] assms(2) by (auto simp: segmentRight_def numSegments_def)
  show "segmentLeft es p \<le> segmentRight es p"
    using assms(1) by (simp add: segmentLeft_def segmentRight_def numSegments_def div_le_mono)
qed

lemma map_request_bounds:
  assumes ok: "seg_ok es" and b: "p = es_ptr es + b * segment_size es"
    and e: "e = segmentRight es (p + n)" and "0 < n"
  shows "segmentLeft es p = b" and "b < e" and "n \<le> segment_size es * (e - b)"
    and "segment_size es * (e - b) < n + segment_size es"
    and "p + n \<le> es_ptr es + es_size es \<Longrightarrow> e \<le> max_handles es"
proof -
  let ?ss = "segment_size es"
  have ss: "0 < ?ss" using ok by (simp add: seg_ok_def)
  show "segmentLeft es p = b" using b ss by (simp add: segmentLeft_def)
  have pn: "es_ptr es \<le> p + n" using b by simp
  note bd = segment_bounds [OF ss pn, folded e]
  show be: "b < e"
  proof (rule ccontr)
    assume "\<not> b < e"
    then have "p + n \<le> es_ptr es + ?ss * b" using bd(5) [of b] by simp
    then show False using b \<open>0 < n\<close> by (simp add: mult.commute)
  qed
  show "p + n \<le> es_ptr es + es_size es \<Longrightarrow> e \<le> max_handles es"
    using bd(5) by (simp add: es_size_def mult.commute)
  have ssm: "?ss * (e - b) + ?ss * b = ?ss * e" using be by (simp flip: distrib_left)
  show "n \<le> ?ss * (e - b)" using bd(3) ssm b by (simp add: mult.commute)
  have "\<not> p + n \<le> es_ptr es + ?ss * (e - 1)" using bd(5) [of "e - 1"] be by auto
  moreover have "?ss * (e - 1) + ?ss = ?ss * e" using be by (cases e) simp_all
  ultimately show "?ss * (e - b) < n + ?ss" using ssm b by (simp add: mult.commute)
qed

text \<open>Backing the last pages of the grown vector, or pages before its trimmed end, leaves it trimmed.\<close>

lemma seg_ok_mapped:
  assumes ok: "seg_ok es" and e: "b < e" "e \<le> max_handles es"
    and len: "length hs = max (length (handles es)) e"
    and new: "\<forall>i. b \<le> i \<and> i < e \<longrightarrow> page hs i \<noteq> None"
    and old: "\<forall>i. i < b \<or> e \<le> i \<longrightarrow> page hs i = page (handles es) i"
  shows "seg_ok (es\<lparr>handles := hs\<rparr>)"
proof -
  have "page hs (length hs - 1) \<noteq> None"
  proof (cases "length (handles es) \<le> e")
    case True
    then have "length hs = e" using len by simp
    then show ?thesis using new e(1) by auto
  next
    case False
    then have "length hs = length (handles es)" "e \<le> length hs - 1" "handles es \<noteq> []"
      using len by auto
    then show ?thesis
      using spec [OF old, of "length hs - 1"] ok False by (simp add: page_def seg_ok_def trimmed_def last_conv_nth)
  qed
  then have "trimmed hs" by (auto simp: trimmed_def page_def last_conv_nth split: if_splits)
  then show ?thesis using ok e(2) len by (simp add: seg_ok_def)
qed

text \<open>
  What \<^verbatim>\<open>map\<close> promises of the segment it returns: either the whole request is covered by pages that
  were not backed before, rounded up to whole pages, or the segment is what it was.
\<close>

definition map_post ::
  "ExpandableSegment \<Rightarrow> nat \<Rightarrow> nat \<Rightarrow> nat \<Rightarrow> nat \<Rightarrow> SegmentRange \<Rightarrow> ExpandableSegment \<Rightarrow> bool" where
  "map_post es p n b e r es' \<longleftrightarrow>
     (r = (p, segment_size es * (e - b)) \<and> n \<le> snd r \<and> snd r < n + segment_size es
        \<and> (\<exists>hs. es' = es\<lparr>handles := hs\<rparr> \<and> (\<forall>i. b \<le> i \<and> i < e \<longrightarrow> page hs i \<noteq> None)
          \<and> (\<forall>i. i < b \<or> e \<le> i \<longrightarrow> page hs i = page (handles es) i)) \<and> seg_ok es')
      \<or> (snd r = 0 \<and> es' = es)"

lemma wp_es_map:
  fixes w :: "'d world"
  assumes ok: "seg_ok es" and b: "p = es_ptr es + b * segment_size es"
    and e: "e = segmentRight es (p + n)" and fits: "p + n \<le> es_ptr es + es_size es"
    and unbacked: "\<And>i. b \<le> i \<Longrightarrow> i < e \<Longrightarrow> page (handles es) i = None" and "0 < n"
  shows "wp (es_map D (p, n)) (\<lambda>r t. map_post es p n b e r (fst t)) (\<lambda>e _. driver_error e) (es, w)"
proof -
  let ?hs = "handles es @ replicate (e - length (handles es)) None"
  let ?Q = "\<lambda>r t. map_post es p n b e r (fst t)"
  let ?k = "\<lambda>ok. if \<not> ok then sx_ret (rangeFromHandles es b b)
    else sx_seq (mapAndSetAccess D b e) (sx_ret (rangeFromHandles es b e))"
  note bd = map_request_bounds [OF ok b e \<open>0 < n\<close>]
  have start: "seg_pages es (length ?hs) (page (handles es)) (es\<lparr>handles := ?hs\<rparr>, w)"
    unfolding seg_pages_def by (intro exI [of _ ?hs]) simp
  have create: "wp (create_handles D b [b ..< e]) (created es (length ?hs) b e (page (handles es)))
      (\<lambda>e _. driver_error e) (es\<lparr>handles := ?hs\<rparr>, w)"
    by (rule wp_create_handles [OF start]) (use bd(2) unbacked in auto)
  have fin: "wp (?k done) ?Q (\<lambda>e _. driver_error e) t"
    if cr: "created es (length ?hs) b e (page (handles es)) done t" for "done" and t :: "ExpandableSegment \<times> 'd world"
  proof (cases "done")
    case True
    then obtain hs where hs: "fst t = es\<lparr>handles := hs\<rparr>" "length hs = length ?hs"
      "\<forall>i. b \<le> i \<and> i < e \<longrightarrow> page hs i \<noteq> None" "\<forall>i. i < b \<or> e \<le> i \<longrightarrow> page hs i = page (handles es) i"
      using cr by (auto simp: created_def seg_pages_def)
    have "seg_ok (es\<lparr>handles := hs\<rparr>)"
      by (rule seg_ok_mapped [OF ok bd(2) bd(5) [OF fits] _ hs(3,4)]) (simp add: hs(2) max_def)
    then have "?Q (rangeFromHandles es b e) (fst t, w')" for w' :: "'d world"
      using hs bd(3,4) b by (auto simp: map_post_def rangeFromHandles_def mult.commute)
    then show ?thesis
      using True hs(1,3) by (simp add: wp_if) (rule wp_mapAndSetAccess, auto)
  next
    case False
    then obtain hs where hs: "fst t = es\<lparr>handles := hs\<rparr>" "trimmed hs"
      "page hs = (\<lambda>j. if b \<le> j \<and> j < e then None else page (handles es) j)"
      using cr by (auto simp: created_def)
    then have "page hs = page (handles es)" using unbacked by auto
    then have "hs = handles es" using hs(2) ok by (intro trimmed_eqI) (simp_all add: seg_ok_def)
    then show ?thesis using False hs(1) by (simp add: wp_if rangeFromHandles_def map_post_def)
  qed
  have "wp (create_handles D b [b ..< e]) (\<lambda>ok. wp (?k ok) ?Q (\<lambda>e _. driver_error e))
      (\<lambda>e _. driver_error e) (es\<lparr>handles := ?hs\<rparr>, w)"
    by (rule wp_conseq [OF create]) (use fin in auto)
  then show ?thesis
    using bd(1,2) by (simp add: es_map_def Let_def wp_if e [symmetric] b [symmetric] cong: if_cong)
qed

lemma wp_unmapHandles:
  fixes w :: "'d world"
  assumes "\<And>i. b \<le> i \<Longrightarrow> i < e \<Longrightarrow> page (handles es) i \<noteq> None"
  shows "wp (unmapHandles D b e) (\<lambda>_ t. \<exists>hs. fst t = es\<lparr>handles := hs\<rparr> \<and> trimmed hs
      \<and> length hs \<le> length (handles es)
      \<and> page hs = (\<lambda>j. if b \<le> j \<and> j < e then None else page (handles es) j))
    (\<lambda>e _. driver_error e) (es, w)"
proof -
  let ?n = "length (handles es)"
  let ?f = "\<lambda>i. sx_bind (on_es (handle_value i)) (\<lambda>h. sx_seq (on_es (set_handle i None))
    (sx_seq (on_world (driver_check (suMemUnmap D (es_ptr es + segment_size es * i) (segment_size es))))
    (on_world (driver_check (suMemRelease D (handle h))))))"
  have body: "wp (?f i) (\<lambda>_. seg_pages es ?n (pg(i := None))) (\<lambda>e _. driver_error e) t"
    if "seg_pages es ?n pg t" "i < ?n" "pg i \<noteq> None" for i pg and t :: "ExpandableSegment \<times> 'd world"
  proof (cases t)
    case (Pair es' w)
    note f = seg_pages_fields [OF that(1) [unfolded Pair]]
    show ?thesis
      using that f(7,8) wp_set_page [OF that(1,2), of None]
      by (auto simp: Pair seg_pages_def split: option.splits prod.splits)
  qed
  have start: "seg_pages es ?n (page (handles es)) (es, w')" for w' :: "'d world"
    unfolding seg_pages_def by (intro exI [of _ "handles es"]) simp
  have inb: "\<forall>i \<in> set [b ..< e]. i < ?n \<and> page (handles es) i \<noteq> None"
    using assms by (force simp: page_def split: if_splits)
  have pgs: "(\<lambda>j. if j \<in> set [b ..< e] then None else page (handles es) j)
      = (\<lambda>j. if b \<le> j \<and> j < e then None else page (handles es) j)" by auto
  have "wp (sx_for [b ..< e] ?f) (\<lambda>_. wp (on_es trimHandles) (\<lambda>_ t. \<exists>hs. fst t = es\<lparr>handles := hs\<rparr>
      \<and> trimmed hs \<and> length hs \<le> ?n \<and> page hs = (\<lambda>j. if b \<le> j \<and> j < e then None else page (handles es) j))
      (\<lambda>e _. driver_error e)) (\<lambda>e _. driver_error e) (es, w')" for w'
    by (rule wp_conseq [OF wp_clear_loop [OF body start inb, unfolded pgs]])
      (auto simp: trimHandles_def seg_pages_def, metis length_trim_le page_trim trimmed_trim)
  then show ?thesis
    by (simp add: unmapHandles_def split: prod.splits)
qed

lemma whole_page_iff:
  assumes "0 < segment_size es" and "es_ptr es \<le> p"
  shows "segmentRight es p \<le> i \<and> i < segmentLeft es (p + n) \<longleftrightarrow>
    p \<le> es_ptr es + segment_size es * i \<and> es_ptr es + segment_size es * Suc i \<le> p + n"
proof -
  let ?ss = "segment_size es"
  have "i < segmentLeft es (p + n) \<longleftrightarrow> Suc i * ?ss \<le> p + n - es_ptr es"
    using assms(1) by (simp add: segmentLeft_def Suc_le_eq [symmetric] less_eq_div_iff_mult_less_eq)
  also have "\<dots> \<longleftrightarrow> es_ptr es + ?ss * Suc i \<le> p + n"
    using assms(2) by (auto simp: mult.commute)
  finally show ?thesis using segment_bounds(5) [OF assms, of i] by simp
qed

text \<open>What \<^verbatim>\<open>unmap\<close> promises: exactly the pages that lie inside the request are released.\<close>

definition inside :: "ExpandableSegment \<Rightarrow> nat \<Rightarrow> nat \<Rightarrow> nat \<Rightarrow> bool" where
  "inside es p n i \<longleftrightarrow> p \<le> es_ptr es + segment_size es * i \<and> es_ptr es + segment_size es * Suc i \<le> p + n"

lemma wp_es_unmap:
  fixes w :: "'d world"
  assumes ok: "seg_ok es" and "es_ptr es \<le> p"
    and backed: "\<And>i. inside es p n i \<Longrightarrow> page (handles es) i \<noteq> None"
  shows "wp (es_unmap D (p, n))
    (\<lambda>r t. seg_ok (fst t) \<and> (\<exists>hs. fst t = es\<lparr>handles := hs\<rparr>
        \<and> page hs = (\<lambda>i. if inside es p n i then None else page (handles es) i))
      \<and> p \<le> fst r \<and> fst r + snd r \<le> p + n
      \<and> (\<forall>i. inside es p n i \<longleftrightarrow> fst r \<le> es_ptr es + segment_size es * i
          \<and> es_ptr es + segment_size es * Suc i \<le> fst r + snd r))
    (\<lambda>e _. driver_error e) (es, w)"
proof -
  let ?b = "segmentRight es p" and ?e = "segmentLeft es (p + n)" and ?ss = "segment_size es"
  have ss: "0 < ?ss" using ok by (simp add: seg_ok_def)
  have ins: "inside es p n i \<longleftrightarrow> ?b \<le> i \<and> i < ?e" for i
    unfolding inside_def using whole_page_iff [OF ss assms(2)] by simp
  show ?thesis
  proof (cases "?e \<le> ?b")
    case True
    have none: "\<not> inside es p n i" for i
      unfolding ins using True by linarith
    have none2: "\<not> (p \<le> es_ptr es + ?ss * i \<and> es_ptr es + ?ss * Suc i \<le> p)" for i
      using ss by simp
    show ?thesis
      using True ok none none2 by (auto simp: es_unmap_def Let_def intro!: exI [of _ "handles es"])
  next
    case False
    have pos: "p \<le> es_ptr es + ?ss * ?b" and pos2: "es_ptr es + ?ss * ?e \<le> p + n"
      using segment_bounds [OF ss assms(2)] segment_bounds(1) [OF ss, of "p + n"] assms(2) by auto
    have le: "?ss * ?b + ?ss * (?e - ?b) = ?ss * ?e" using False by (simp flip: distrib_left)
    have rng: "inside es p n i \<longleftrightarrow> es_ptr es + ?ss * ?b \<le> es_ptr es + ?ss * i
        \<and> es_ptr es + ?ss * Suc i \<le> es_ptr es + ?ss * ?b + ?ss * (?e - ?b)" for i
    proof -
      have "es_ptr es + ?ss * Suc i \<le> es_ptr es + ?ss * ?b + ?ss * (?e - ?b) \<longleftrightarrow> ?ss * Suc i \<le> ?ss * ?e"
        using le by linarith
      then show ?thesis
        unfolding ins using ss
        by (simp only: nat_add_left_cancel_le mult_le_cancel1 Suc_le_eq) simp
    qed
    have "wp (unmapHandles D ?b ?e) (\<lambda>_ t. \<exists>hs. fst t = es\<lparr>handles := hs\<rparr> \<and> trimmed hs
      \<and> length hs \<le> length (handles es)
      \<and> page hs = (\<lambda>j. if ?b \<le> j \<and> j < ?e then None else page (handles es) j)) (\<lambda>e _. driver_error e) (es, w)"
      by (rule wp_unmapHandles) (use backed ins in simp)
    then have "wp (unmapHandles D ?b ?e) (\<lambda>_ t. seg_ok (fst t) \<and> (\<exists>hs. fst t = es\<lparr>handles := hs\<rparr>
        \<and> page hs = (\<lambda>i. if inside es p n i then None else page (handles es) i))) (\<lambda>e _. driver_error e) (es, w)"
      by (rule wp_conseq)
        (use ok in \<open>auto simp: seg_ok_def ins\<close>)
    then show ?thesis
      using False pos pos2 le rng
      by (simp add: es_unmap_def Let_def rangeFromHandles_def wp_if)
  qed
qed

section \<open>The backed ranges\<close>

lemma range_loop_spec:
  assumes "i \<le> length hs"
    and "0 < i \<Longrightarrow> allocated_at hs (i - 1) \<Longrightarrow> start < i \<and> (\<forall>j. start \<le> j \<and> j < i \<longrightarrow> allocated_at hs j)"
  shows "concat (map (\<lambda>(b, e). [b ..< e]) (range_loop hs [i ..< length hs] start)) =
    (if 0 < i \<and> allocated_at hs (i - 1) \<and> allocated_at hs i then [start ..< i] else [])
      @ filter (allocated_at hs) [i ..< length hs]"
  using assms
proof (induction "length hs - i" arbitrary: i start)
  case 0
  then show ?case by (simp add: allocated_at_def)
next
  case (Suc k)
  then have i: "i < length hs" and upt: "[i ..< length hs] = i # [Suc i ..< length hs]"
    by (simp_all add: upt_conv_Cons)
  define s' where "s' = (if allocated_at hs i \<and> (i = 0 \<or> \<not> allocated_at hs (i - 1)) then i else start)"
  have run: "s' \<le> i \<and> (\<forall>j. s' \<le> j \<and> j < Suc i \<longrightarrow> allocated_at hs j)" if "allocated_at hs i"
  proof (cases "i = 0 \<or> \<not> allocated_at hs (i - 1)")
    case True
    then show ?thesis using that by (auto simp: s'_def le_less_Suc_eq)
  next
    case False
    then have "start < i" "\<forall>j. start \<le> j \<and> j < i \<longrightarrow> allocated_at hs j" "s' = start"
      using Suc.prems(2) by (auto simp: s'_def)
    then show ?thesis using that by (metis less_Suc_eq less_imp_le)
  qed
  have IH: "concat (map (\<lambda>(b, e). [b ..< e]) (range_loop hs [Suc i ..< length hs] s')) =
      (if allocated_at hs i \<and> allocated_at hs (Suc i) then [s' ..< Suc i] else [])
        @ filter (allocated_at hs) [Suc i ..< length hs]"
    using Suc.hyps(1) [of "Suc i" s'] Suc.hyps(2) i run by (simp add: less_Suc_eq_le)
  have last_iff: "i + 1 = length hs \<or> \<not> allocated_at hs (i + 1) \<longleftrightarrow> \<not> allocated_at hs (Suc i)"
    by (auto simp: allocated_at_def)
  show ?case
    unfolding upt range_loop.simps Let_def s'_def [symmetric] last_iff
  proof (cases "allocated_at hs i")
    case True
    then have "s' \<le> i" using run by simp
    then have "[s' ..< Suc i] = [s' ..< i] @ [i]" by simp
    moreover have "[s' ..< i] = (if 0 < i \<and> allocated_at hs (i - 1) then [start ..< i] else [])"
      using True by (auto simp: s'_def)
    ultimately show "concat (map (\<lambda>(b, e). [b ..< e]) ((if allocated_at hs i \<and> \<not> allocated_at hs (Suc i)
        then [(s', i + 1)] else []) @ range_loop hs [Suc i ..< length hs] s')) =
      (if 0 < i \<and> allocated_at hs (i - 1) \<and> allocated_at hs i then [start ..< i] else [])
        @ filter (allocated_at hs) (i # [Suc i ..< length hs])"
      using IH True by (cases "allocated_at hs (Suc i)") simp_all
  qed (use IH in simp)
qed

lemma allocated_ranges_concat:
  "concat (map (\<lambda>(b, e). [b ..< e]) (allocated_ranges hs)) = filter (allocated_at hs) [0 ..< length hs]"
  using range_loop_spec [of 0 hs 0] by (simp add: allocated_ranges_def)

lemma wp_unmap_ranges:
  fixes t :: "ExpandableSegment \<times> 'd world"
  assumes "fst t = es\<lparr>handles := hs\<rparr>" and "trimmed hs"
    and "distinct (concat (map (\<lambda>(b, e). [b ..< e]) rs))"
    and "\<forall>i \<in> set (concat (map (\<lambda>(b, e). [b ..< e]) rs)). page hs i \<noteq> None"
  shows "wp (sx_for rs (\<lambda>(b, e). unmapHandles D b e)) (\<lambda>_ t'. \<exists>hs'. fst t' = es\<lparr>handles := hs'\<rparr> \<and> trimmed hs'
      \<and> page hs' = (\<lambda>j. if j \<in> set (concat (map (\<lambda>(b, e). [b ..< e]) rs)) then None else page hs j))
    (\<lambda>e _. driver_error e) t"
  using assms
proof (induction rs arbitrary: hs t)
  case Nil
  then show ?case by auto
next
  case (Cons r rs)
  obtain b e where r: "r = (b, e)" by fastforce
  let ?c = "concat (map (\<lambda>(b, e). [b ..< e]) rs)"
  let ?Q = "\<lambda>_ t'. \<exists>hs'. fst t' = es\<lparr>handles := hs'\<rparr> \<and> trimmed hs'
      \<and> page hs' = (\<lambda>j. if j \<in> set (concat (map (\<lambda>(b, e). [b ..< e]) (r # rs))) then None else page hs j)"
  have rest: "wp (sx_for rs (\<lambda>(b, e). unmapHandles D b e)) ?Q (\<lambda>e _. driver_error e) u"
    if u: "fst u = es\<lparr>handles := h1\<rparr>" "trimmed h1" "page h1 = (\<lambda>j. if b \<le> j \<and> j < e then None else page hs j)"
    for u :: "ExpandableSegment \<times> 'd world" and h1
  proof -
    have dist: "distinct ?c" and "set [b ..< e] \<inter> set ?c = {}"
      using Cons.prems(3) by (simp_all only: r list.map concat.simps distinct_append prod.case)
    then have apart: "\<forall>i \<in> set ?c. \<not> (b \<le> i \<and> i < e)"
      by (metis IntI atLeastLessThan_iff empty_iff set_upt)
    have bk: "\<forall>i \<in> set ?c. page h1 i \<noteq> None" using Cons.prems(4) u(3) apart by auto
    have pgs: "(\<lambda>j. if j \<in> set ?c then None else page h1 j)
      = (\<lambda>j. if j \<in> set (concat (map (\<lambda>(b, e). [b ..< e]) (r # rs))) then None else page hs j)"
      unfolding u(3) by (intro ext) (simp only: r list.map concat.simps set_append Un_iff set_upt
          atLeastLessThan_iff prod.case split: if_splits, blast)
    show ?thesis using Cons.IH [OF u(1,2) dist bk] unfolding pgs .
  qed
  have "wp (unmapHandles D b e) (\<lambda>_ t'. \<exists>h1. fst t' = es\<lparr>handles := h1\<rparr> \<and> trimmed h1
      \<and> page h1 = (\<lambda>j. if b \<le> j \<and> j < e then None else page hs j)) (\<lambda>e _. driver_error e) t"
  proof -
    have t: "t = (es\<lparr>handles := hs\<rparr>, snd t)" by (simp add: prod_eq_iff Cons.prems(1))
    have "\<And>i. b \<le> i \<Longrightarrow> i < e \<Longrightarrow> page (handles (es\<lparr>handles := hs\<rparr>)) i \<noteq> None"
      using Cons.prems(4) by (simp add: r)
    from wp_unmapHandles [OF this, where D = D and w = "snd t"] show ?thesis
      unfolding t [symmetric] by (rule wp_conseq) (auto cong: if_cong)
  qed
  then have "wp (unmapHandles D b e) (\<lambda>_. wp (sx_for rs (\<lambda>(b, e). unmapHandles D b e)) ?Q
      (\<lambda>e _. driver_error e)) (\<lambda>e _. driver_error e) t"
    by (rule wp_conseq) (use rest in auto)
  then show ?case by (simp add: r)
qed

section \<open>Properties\<close>


definition sample_segment :: ExpandableSegment where
  "sample_segment = \<lparr>es_device = 0, es_stream = 7, es_ptr = 4096, max_handles = 4, segment_size = 2,
     handles = [], es_peers = []\<rparr>"






end
