(* ===== verification/Ordered_Set.thy ===== *)
theory Ordered_Set
  imports Main
begin

text \<open>
  \<^verbatim>\<open>std::set\<close> with a comparator, as the caching allocator uses it for its pools: the elements are object
  references, the comparator looks at a key stored in the object, and the set is the list of its
  elements in order. Two elements are the same to the set when neither is less than the other. The
  interface \<open>weak_order\<close> states what C++ requires of a comparator; the client lemmas are proved over it.
\<close>

section \<open>Operations\<close>

definition set_lower_bound :: "('k \<Rightarrow> 'k \<Rightarrow> bool) \<Rightarrow> ('a \<Rightarrow> 'k) \<Rightarrow> 'k \<Rightarrow> 'a list \<Rightarrow> 'a list" where
  "set_lower_bound lt f k xs = dropWhile (\<lambda>x. lt (f x) k) xs"

definition set_before :: "('k \<Rightarrow> 'k \<Rightarrow> bool) \<Rightarrow> ('a \<Rightarrow> 'k) \<Rightarrow> 'k \<Rightarrow> 'a list \<Rightarrow> 'a list" where
  "set_before lt f k xs = takeWhile (\<lambda>x. lt (f x) k) xs"

text \<open>Whether the set has an element the comparator does not tell apart from the key.\<close>

definition set_has :: "('k \<Rightarrow> 'k \<Rightarrow> bool) \<Rightarrow> ('a \<Rightarrow> 'k) \<Rightarrow> 'k \<Rightarrow> 'a list \<Rightarrow> bool" where
  "set_has lt f k xs =
     (case set_lower_bound lt f k xs of [] \<Rightarrow> False | y # _ \<Rightarrow> \<not> lt k (f y))"

definition set_insert :: "('k \<Rightarrow> 'k \<Rightarrow> bool) \<Rightarrow> ('a \<Rightarrow> 'k) \<Rightarrow> 'a \<Rightarrow> 'a list \<Rightarrow> 'a list" where
  "set_insert lt f x xs =
     (if set_has lt f (f x) xs then xs
      else set_before lt f (f x) xs @ x # set_lower_bound lt f (f x) xs)"

definition set_erase :: "('k \<Rightarrow> 'k \<Rightarrow> bool) \<Rightarrow> ('a \<Rightarrow> 'k) \<Rightarrow> 'a \<Rightarrow> 'a list \<Rightarrow> 'a list" where
  "set_erase lt f x xs =
     (if set_has lt f (f x) xs
      then set_before lt f (f x) xs @ tl (set_lower_bound lt f (f x) xs) else xs)"

definition ordered :: "('k \<Rightarrow> 'k \<Rightarrow> bool) \<Rightarrow> ('a \<Rightarrow> 'k) \<Rightarrow> 'a list \<Rightarrow> bool" where
  "ordered lt f xs = sorted_wrt (\<lambda>x y. lt (f x) (f y)) xs"

lemmas set_ops = set_lower_bound_def set_before_def set_has_def set_insert_def set_erase_def

text \<open>The operations look at the keys of the elements only.\<close>

lemma set_ops_cong:
  assumes "\<And>x. x \<in> set xs \<Longrightarrow> f x = g x"
  shows "set_lower_bound lt f k xs = set_lower_bound lt g k xs"
    and "set_before lt f k xs = set_before lt g k xs"
    and "set_has lt f k xs = set_has lt g k xs"
    and "ordered lt f xs = ordered lt g xs"
proof -
  show lb: "set_lower_bound lt f k xs = set_lower_bound lt g k xs"
    using assms by (simp add: set_lower_bound_def cong: dropWhile_cong)
  show "set_before lt f k xs = set_before lt g k xs"
    using assms by (simp add: set_before_def cong: takeWhile_cong)
  have "y \<in> set xs" if "set_lower_bound lt g k xs = y # ys" for y ys
    using that set_dropWhileD [of y "\<lambda>x. lt (g x) k" xs] by (simp add: set_lower_bound_def)
  then show "set_has lt f k xs = set_has lt g k xs"
    using assms by (auto simp: set_has_def lb split: list.splits)
  show "ordered lt f xs = ordered lt g xs"
    using assms by (induction xs) (auto simp: ordered_def)
qed

section \<open>The interface of a comparator\<close>

locale weak_order =
  fixes lt :: "'k \<Rightarrow> 'k \<Rightarrow> bool"
  assumes irrefl: "\<not> lt a a"
    and trans: "lt a b \<Longrightarrow> lt b c \<Longrightarrow> lt a c"
    and cotrans: "lt a c \<Longrightarrow> lt a b \<or> lt b c"
begin

lemma asym: "lt a b \<Longrightarrow> \<not> lt b a"
  using irrefl trans by blast

lemma ordered_distinct: "ordered lt f xs \<Longrightarrow> distinct xs"
  by (induction xs) (auto simp: ordered_def irrefl)

text \<open>What precedes the lower bound is less than the key, and nothing from it on is.\<close>

lemma lower_bound_split:
  assumes "ordered lt f xs"
  shows "x \<in> set (set_before lt f k xs) \<longleftrightarrow> x \<in> set xs \<and> lt (f x) k"
    and "x \<in> set (set_lower_bound lt f k xs) \<longleftrightarrow> x \<in> set xs \<and> \<not> lt (f x) k"
  using assms
proof (induction xs)
  case (Cons y ys)
  { case 1
    then show ?case using Cons.IH(1) trans by (auto simp: ordered_def set_before_def) }
  { case 2
    then show ?case using Cons.IH(2) trans by (auto simp: ordered_def set_lower_bound_def) }
qed (simp_all add: set_before_def set_lower_bound_def)

lemma has_iff:
  assumes "ordered lt f xs"
  shows "set_has lt f k xs \<longleftrightarrow> (\<exists>x \<in> set xs. \<not> lt (f x) k \<and> \<not> lt k (f x))"
proof (cases "set_lower_bound lt f k xs")
  case Nil
  then show ?thesis
    using lower_bound_split(2) [OF assms, of _ k] by (auto simp: set_has_def)
next
  case (Cons y ys)
  have "ordered lt f (set_lower_bound lt f k xs)"
    using assms by (simp add: ordered_def set_lower_bound_def sorted_wrt_dropWhile)
  then have "\<forall>x \<in> set ys. lt (f y) (f x)" by (simp add: Cons ordered_def)
  then have "\<not> lt k (f y)" if "x \<in> set (y # ys)" "\<not> lt k (f x)" for x
    using that trans by auto
  then show ?thesis
    using lower_bound_split(2) [OF assms, of _ k] by (auto simp: set_has_def Cons)
qed

lemma before_append: "set_before lt f k xs @ set_lower_bound lt f k xs = xs"
  by (simp add: set_before_def set_lower_bound_def)

lemma insert_ordered:
  assumes "ordered lt f xs"
  shows "ordered lt f (set_insert lt f x xs)"
proof (cases "set_has lt f (f x) xs")
  case False
  have "lt (f x) (f y)" if "y \<in> set (set_lower_bound lt f (f x) xs)" for y
    using that False lower_bound_split(2) [OF assms, of y "f x"] has_iff [OF assms, of "f x"] by blast
  moreover have "lt (f y) (f x)" if "y \<in> set (set_before lt f (f x) xs)" for y
    using that lower_bound_split(1) [OF assms] by blast
  moreover have "sorted_wrt (\<lambda>x y. lt (f x) (f y))
      (set_before lt f (f x) xs @ set_lower_bound lt f (f x) xs)"
    using assms by (simp add: ordered_def before_append)
  ultimately show ?thesis
    using False by (auto simp: set_insert_def ordered_def sorted_wrt_append)
qed (use assms in \<open>simp add: set_insert_def\<close>)

lemma insert_set:
  assumes "ordered lt f xs" and "\<forall>y \<in> set xs. lt (f x) (f y) \<or> lt (f y) (f x)"
  shows "set (set_insert lt f x xs) = insert x (set xs)" and "\<not> set_has lt f (f x) xs"
proof -
  show new: "\<not> set_has lt f (f x) xs"
    using assms has_iff by blast
  then show "set (set_insert lt f x xs) = insert x (set xs)"
    using arg_cong [OF before_append [of f "f x" xs], of set] by (auto simp: set_insert_def)
qed

lemma erase_member:
  assumes "ordered lt f xs" and "x \<in> set xs"
  shows "set (set_erase lt f x xs) = set xs - {x}" and "ordered lt f (set_erase lt f x xs)"
    and "set_has lt f (f x) xs"
proof -
  obtain y ys where lb: "set_lower_bound lt f (f x) xs = y # ys"
    using lower_bound_split(2) [OF assms(1), of x "f x"] assms(2) irrefl by (cases "set_lower_bound lt f (f x) xs") auto
  have ord: "sorted_wrt (\<lambda>x y. lt (f x) (f y)) (set_before lt f (f x) xs @ y # ys)"
    using assms(1) before_append [of f "f x" xs] by (simp add: ordered_def lb)
  have "x \<in> set (y # ys)"
    using lower_bound_split(2) [OF assms(1), of x "f x"] assms(2) irrefl by (simp add: lb)
  moreover have "\<not> lt (f y) (f x)"
    using lower_bound_split(2) [OF assms(1), of y "f x"] by (simp add: lb)
  ultimately have y: "y = x" using ord by (auto simp: sorted_wrt_append)
  show has: "set_has lt f (f x) xs" by (simp add: set_has_def lb y irrefl)
  have er: "set_erase lt f x xs = set_before lt f (f x) xs @ ys"
    using has by (simp add: set_erase_def lb)
  show "ordered lt f (set_erase lt f x xs)"
    using ord by (simp add: er ordered_def sorted_wrt_append)
  have "distinct (set_before lt f (f x) xs @ x # ys)"
    using ordered_distinct [OF assms(1)] before_append [of f "f x" xs] by (simp add: lb y)
  moreover have "set xs = set (set_before lt f (f x) xs @ x # ys)"
    using before_append [of f "f x" xs] by (simp add: lb y)
  ultimately show "set (set_erase lt f x xs) = set xs - {x}"
    by (auto simp: er)
qed

text \<open>The lower bound is the least element that is not less than the key.\<close>

lemma lower_bound_least:
  assumes "ordered lt f xs" and "set_lower_bound lt f k xs = y # ys"
  shows "y \<in> set xs" and "\<not> lt (f y) k" and "x \<in> set xs \<Longrightarrow> \<not> lt (f x) k \<Longrightarrow> \<not> lt (f x) (f y)"
proof -
  show "y \<in> set xs" and "\<not> lt (f y) k"
    using lower_bound_split(2) [OF assms(1), of y k] by (simp_all add: assms(2))
  show "\<not> lt (f x) (f y)" if "x \<in> set xs" "\<not> lt (f x) k"
  proof -
    have "x \<in> set (y # ys)"
      using lower_bound_split(2) [OF assms(1), of x k] that by (simp add: assms(2))
    moreover have "ordered lt f (y # ys)"
      using assms by (metis ordered_def set_lower_bound_def sorted_wrt_dropWhile)
    ultimately show ?thesis using irrefl asym by (auto simp: ordered_def)
  qed
qed

end

end
