(* ===== verification/Block_Store.thy ===== *)
theory Block_Store
  imports Alloc_Sizes Alloc_Stats Expandable_Segment Ordered_Set
begin

text \<open>
  The data of the device allocator of \<^verbatim>\<open>core/supa/SUPACachingAllocator.cpp\<close>: blocks, block pools,
  private pools, trace entries, and the state of a \<^verbatim>\<open>DeviceCachingAllocator\<close> with the primitive
  operations on it. Block objects live in an explicit store (the field \<open>heap\<close>), so that the pointers
  between neighbouring blocks are references that can alias; reading or writing a deleted object is
  the outcome \<open>UseAfterFree\<close>. A \<^verbatim>\<open>BlockPool\<close> is named by a \<open>pool_ref\<close>: the small or large pool of the
  allocator itself or of a private pool. Hash sets and maps are lists in insertion order.
\<close>

section \<open>Blocks and pools\<close>

type_synonym mempool_id = "nat \<times> nat"

datatype pool_ref = Global bool | Private mempool_id bool

primrec is_small :: "pool_ref \<Rightarrow> bool" where
  "is_small (Global small) = small"
| "is_small (Private i small) = small"

primrec owner_PrivatePool :: "pool_ref \<Rightarrow> mempool_id option" where
  "owner_PrivatePool (Global small) = None"
| "owner_PrivatePool (Private i small) = Some i"

definition owner_MempoolId :: "pool_ref \<Rightarrow> mempool_id" where
  "owner_MempoolId p = (case owner_PrivatePool p of Some i \<Rightarrow> i | None \<Rightarrow> (0, 0))"

record stream_ref =
  stream_device :: int
  stream_handle :: nat

record Block =
  b_device :: int
  b_stream :: nat
  stream_uses :: "stream_ref list"
  b_size :: nat
  requested_size :: nat
  b_pool :: pool_ref
  b_ptr :: nat
  allocated :: bool
  mapped :: bool
  b_prev :: "nat option"
  b_next :: "nat option"
  event_count :: int
  gc_count_base :: int
  context_when_allocated :: "nat option"
  context_when_segment_allocated :: "nat option"
  expandable_segment :: "nat option"

definition Block_ctor :: "int \<Rightarrow> nat \<Rightarrow> nat \<Rightarrow> pool_ref \<Rightarrow> nat \<Rightarrow> Block" where
  "Block_ctor dev st sz p ptr =
     \<lparr>b_device = dev, b_stream = st, stream_uses = [], b_size = sz, requested_size = 0, b_pool = p,
      b_ptr = ptr, allocated = False, mapped = True, b_prev = None, b_next = None, event_count = 0,
      gc_count_base = 0, context_when_allocated = None, context_when_segment_allocated = None,
      expandable_segment = None\<rparr>"

definition is_split :: "Block \<Rightarrow> bool" where
  "is_split b \<longleftrightarrow> b_prev b \<noteq> None \<or> b_next b \<noteq> None"

text \<open>What the comparators look at; a search key is one with a null address.\<close>

type_synonym block_key = "nat \<times> nat \<times> nat"

definition key_of :: "Block \<Rightarrow> block_key" where
  "key_of b = (b_stream b, b_size b, b_ptr b)"

definition BlockComparatorSize :: "block_key \<Rightarrow> block_key \<Rightarrow> bool" where
  "BlockComparatorSize a b =
     (case (a, b) of ((sa, za, pa), (sb, zb, pb)) \<Rightarrow>
        if sa \<noteq> sb then sa < sb else if za \<noteq> zb then za < zb else pa < pb)"

definition BlockComparatorAddress :: "block_key \<Rightarrow> block_key \<Rightarrow> bool" where
  "BlockComparatorAddress a b =
     (case (a, b) of ((sa, za, pa), (sb, zb, pb)) \<Rightarrow> if sa \<noteq> sb then sa < sb else pa < pb)"

record BlockPool =
  blocks :: "nat list"
  unmapped :: "nat list"
  get_free_blocks_call_count :: int

definition BlockPool_ctor :: BlockPool where
  "BlockPool_ctor = \<lparr>blocks = [], unmapped = [], get_free_blocks_call_count = 0\<rparr>"

text \<open>The two block pools of a private pool are \<^term>\<open>Private i True\<close> and \<^term>\<open>Private i False\<close>.\<close>

record PrivatePool =
  use_count :: int
  supaMalloc_count :: int
  pp_allocator :: "nat option"

definition PrivatePool_ctor :: "nat option \<Rightarrow> PrivatePool" where
  "PrivatePool_ctor a = \<lparr>use_count = 1, supaMalloc_count = 0, pp_allocator = a\<rparr>"

section \<open>Trace entries\<close>

datatype Action =
    ALLOC | FREE_REQUESTED | FREE_COMPLETED | SEGMENT_ALLOC | SEGMENT_FREE | SEGMENT_MAP
  | SEGMENT_UNMAP | SNAPSHOT | OOM | WORKSPACE_SNAPSHOT

record TraceEntry =
  te_action :: Action
  te_device :: int
  te_addr :: int
  te_context :: "nat option"
  te_stream :: nat
  te_size :: nat
  te_mempool :: mempool_id

datatype RecordContext = RC_NEVER | RC_STATE | RC_ALLOC | RC_ALL

primrec rc_level :: "RecordContext \<Rightarrow> nat" where
  "rc_level RC_NEVER = 0"
| "rc_level RC_STATE = 1"
| "rc_level RC_ALLOC = 2"
| "rc_level RC_ALL = 3"

instantiation RecordContext :: linorder
begin

definition less_eq_RecordContext :: "RecordContext \<Rightarrow> RecordContext \<Rightarrow> bool" where
  "less_eq_RecordContext a b \<longleftrightarrow> rc_level a \<le> rc_level b"

definition less_RecordContext :: "RecordContext \<Rightarrow> RecordContext \<Rightarrow> bool" where
  "less_RecordContext a b \<longleftrightarrow> rc_level a < rc_level b"

instance
proof
  fix a b :: RecordContext
  show "a \<le> b \<Longrightarrow> b \<le> a \<Longrightarrow> a = b"
    by (cases a; cases b) (simp_all add: less_eq_RecordContext_def)
qed (auto simp: less_eq_RecordContext_def less_RecordContext_def)

end

section \<open>The state of a device allocator\<close>

record 'd dca =
  stats :: DeviceStats
  heap :: "nat \<Rightarrow> Block option"
  next_block :: nat
  pools :: "pool_ref \<Rightarrow> BlockPool"
  active_blocks :: "nat list"
  captures_underway :: "(mempool_id \<times> (nat \<Rightarrow> bool)) list"
  use_on_oom_pools :: "mempool_id list"
  no_split_pools :: "mempool_id list"
  needs_events_deferred :: "nat list"
  supa_events :: "(stream_ref \<times> (nat \<times> nat) list) list"
  total_allocated_memory :: nat
  allowed_memory_maximum :: nat
  segs :: "nat \<Rightarrow> ExpandableSegment option"
  next_seg :: nat
  expandable_segments :: "nat list"
  devices_with_peer_access :: "int list"
  set_fraction :: bool
  record_history :: bool
  context_recorder :: "nat option"
  alloc_trace_next :: nat
  record_context :: RecordContext
  alloc_trace_max_entries :: nat
  alloc_trace :: "TraceEntry list"
  graph_pools :: "(mempool_id \<times> PrivatePool) list"
  graph_pools_freeable :: "mempool_id list"
  oom_observers :: "nat list"
  trace_trackers :: "nat list"
  block_to_supagraph_stream_uses :: "nat \<Rightarrow> stream_ref list option"
  world :: "'d world"

type_synonym ('d, 'a) dx = "('d dca, exn, 'a) sx"

text \<open>
  What an operation sees besides the state: the driver library, the settings, the C++ library and the
  memory pool that is active on the calling thread (its identifier and its allocator, if any).
\<close>

record 'd env =
  Drv :: "'d driver"
  Cfg :: SUPAAllocatorConfig
  Lib :: cxx_lib
  ActiveMemPool :: "(mempool_id \<times> nat option) option"

definition DeviceCachingAllocator_ctor :: "'d env \<Rightarrow> 'd world \<Rightarrow> 'd dca" where
  "DeviceCachingAllocator_ctor E w =
     \<lparr>stats = DeviceStats_init (int (m_max_split_size (Cfg E))), heap = \<lambda>_. None, next_block = 0,
      pools = \<lambda>_. BlockPool_ctor, active_blocks = [], captures_underway = [], use_on_oom_pools = [],
      no_split_pools = [], needs_events_deferred = [], supa_events = [], total_allocated_memory = 0,
      allowed_memory_maximum = 0, segs = \<lambda>_. None, next_seg = 0, expandable_segments = [],
      devices_with_peer_access = [], set_fraction = False, record_history = False,
      context_recorder = None, alloc_trace_next = 0, record_context = RC_NEVER,
      alloc_trace_max_entries = 1, alloc_trace = [], graph_pools = [], graph_pools_freeable = [],
      oom_observers = [], trace_trackers = [], block_to_supagraph_stream_uses = \<lambda>_. None, world = w\<rparr>"

section \<open>Primitive operations\<close>

definition deref :: "nat \<Rightarrow> ('d, Block) dx" where
  "deref b = (\<lambda>s. case heap s b of None \<Rightarrow> (Inl UseAfterFree, s) | Some blk \<Rightarrow> (Inr blk, s))"

definition setb :: "nat \<Rightarrow> (Block \<Rightarrow> Block) \<Rightarrow> ('d, unit) dx" where
  "setb b f = (\<lambda>s. case heap s b of None \<Rightarrow> (Inl UseAfterFree, s)
     | Some blk \<Rightarrow> (Inr (), s\<lparr>heap := (heap s)(b \<mapsto> f blk)\<rparr>))"

definition new_block :: "Block \<Rightarrow> ('d, nat) dx" where
  "new_block blk = (\<lambda>s. (Inr (next_block s),
     s\<lparr>heap := (heap s)(next_block s \<mapsto> blk), next_block := Suc (next_block s)\<rparr>))"

definition delete_block :: "nat \<Rightarrow> ('d, unit) dx" where
  "delete_block b = (\<lambda>s. case heap s b of None \<Rightarrow> (Inl UseAfterFree, s)
     | Some blk \<Rightarrow> (Inr (), s\<lparr>heap := (heap s)(b := None)\<rparr>))"

text \<open>The key of a block in a set; a deleted element has no meaningful key.\<close>

definition bkey :: "(nat \<Rightarrow> Block option) \<Rightarrow> nat \<Rightarrow> block_key" where
  "bkey h b = (case h b of Some blk \<Rightarrow> key_of blk | None \<Rightarrow> (0, 0, 0))"

definition pool_live :: "(mempool_id \<times> PrivatePool) list \<Rightarrow> pool_ref \<Rightarrow> bool" where
  "pool_live gps p = (case owner_PrivatePool p of None \<Rightarrow> True | Some i \<Rightarrow> i \<in> fst ` set gps)"

definition get_BlockPool :: "pool_ref \<Rightarrow> ('d, BlockPool) dx" where
  "get_BlockPool p = (\<lambda>s. if pool_live (graph_pools s) p then (Inr (pools s p), s)
     else (Inl UseAfterFree, s))"

definition upd_BlockPool :: "pool_ref \<Rightarrow> (BlockPool \<Rightarrow> BlockPool) \<Rightarrow> ('d, unit) dx" where
  "upd_BlockPool p f = (\<lambda>s. if pool_live (graph_pools s) p
     then (Inr (), s\<lparr>pools := (pools s)(p := f (pools s p))\<rparr>) else (Inl UseAfterFree, s))"

text \<open>\<^verbatim>\<open>insert_into_blocks\<close>; the result says whether the set had no equivalent element.\<close>

definition insert_into_blocks :: "pool_ref \<Rightarrow> nat \<Rightarrow> ('d, bool) dx" where
  "insert_into_blocks p b =
     sx_bind (get_BlockPool p) (\<lambda>bp.
     sx_seq (setb b (\<lambda>blk. blk\<lparr>gc_count_base := get_free_blocks_call_count bp\<rparr>))
     (sx_bind (sx_get heap) (\<lambda>h.
      sx_seq (upd_BlockPool p (\<lambda>bp. bp\<lparr>blocks := set_insert BlockComparatorSize (bkey h) b (blocks bp)\<rparr>))
      (sx_ret (\<not> set_has BlockComparatorSize (bkey h) (bkey h b) (blocks bp))))))"

definition erase_from_blocks :: "pool_ref \<Rightarrow> nat \<Rightarrow> ('d, unit) dx" where
  "erase_from_blocks p b =
     sx_bind (deref b) (\<lambda>_. sx_bind (sx_get heap) (\<lambda>h.
     upd_BlockPool p (\<lambda>bp. bp\<lparr>blocks := set_erase BlockComparatorSize (bkey h) b (blocks bp)\<rparr>)))"

definition insert_into_unmapped :: "pool_ref \<Rightarrow> nat \<Rightarrow> ('d, unit) dx" where
  "insert_into_unmapped p b =
     sx_bind (deref b) (\<lambda>_. sx_bind (sx_get heap) (\<lambda>h.
     upd_BlockPool p (\<lambda>bp. bp\<lparr>unmapped := set_insert BlockComparatorAddress (bkey h) b (unmapped bp)\<rparr>)))"

definition erase_from_unmapped :: "pool_ref \<Rightarrow> nat \<Rightarrow> ('d, unit) dx" where
  "erase_from_unmapped p b =
     sx_bind (deref b) (\<lambda>_. sx_bind (sx_get heap) (\<lambda>h.
     upd_BlockPool p (\<lambda>bp. bp\<lparr>unmapped := set_erase BlockComparatorAddress (bkey h) b (unmapped bp)\<rparr>)))"

definition splice :: "nat \<Rightarrow> nat option \<Rightarrow> nat option \<Rightarrow> ('d, unit) dx" where
  "splice this before after =
     sx_seq (case before of None \<Rightarrow> sx_ret ()
       | Some p \<Rightarrow> sx_bind (deref p) (\<lambda>pb.
           sx_seq (sx_check (b_next pb = after) (InternalAssert ''before->next == after''))
           (setb p (\<lambda>x. x\<lparr>b_next := Some this\<rparr>))))
     (sx_seq (setb this (\<lambda>x. x\<lparr>b_prev := before\<rparr>))
     (sx_seq (case after of None \<Rightarrow> sx_ret ()
       | Some n \<Rightarrow> sx_bind (deref n) (\<lambda>nb.
           sx_seq (sx_check (b_prev nb = before) (InternalAssert ''after->prev == before''))
           (setb n (\<lambda>x. x\<lparr>b_prev := Some this\<rparr>))))
     (setb this (\<lambda>x. x\<lparr>b_next := after\<rparr>))))"

text \<open>\<^verbatim>\<open>gc_count\<close> narrows the difference to \<^verbatim>\<open>int\<close> and returns it as a \<^verbatim>\<open>size_t\<close>.\<close>

definition to_int32 :: "int \<Rightarrow> int" where
  "to_int32 v = (v + 2 ^ 31) mod 2 ^ 32 - 2 ^ 31"

definition gc_count :: "BlockPool \<Rightarrow> Block \<Rightarrow> nat" where
  "gc_count bp b = int_to_size (to_int32 (get_free_blocks_call_count bp - gc_count_base b))"

text \<open>Sums of \<^verbatim>\<open>size_t\<close> that may wrap around.\<close>

definition size_add :: "nat \<Rightarrow> nat \<Rightarrow> nat" where
  "size_add a b = (a + b) mod 2 ^ 64"

definition size_sub :: "nat \<Rightarrow> nat \<Rightarrow> nat" where
  "size_sub a b = (a + (2 ^ 64 - b mod 2 ^ 64)) mod 2 ^ 64"

section \<open>Private pools\<close>

definition get_private_pool :: "mempool_id \<Rightarrow> ('d, PrivatePool) dx" where
  "get_private_pool i = sx_bind (sx_get graph_pools) (\<lambda>gps.
     case map_of gps i of None \<Rightarrow> sx_throw (InternalAssert ''it != graph_pools.end()'')
     | Some pp \<Rightarrow> sx_ret pp)"

definition upd_private_pool :: "mempool_id \<Rightarrow> (PrivatePool \<Rightarrow> PrivatePool) \<Rightarrow> ('d, unit) dx" where
  "upd_private_pool i f =
     sx_bind (sx_get graph_pools) (\<lambda>gps.
     if i \<in> fst ` set gps
     then sx_mod (\<lambda>s. s\<lparr>graph_pools := map (\<lambda>(k, pp). if k = i then (k, f pp) else (k, pp)) gps\<rparr>)
     else sx_throw UseAfterFree)"

definition deref_private_pool :: "mempool_id \<Rightarrow> ('d, PrivatePool) dx" where
  "deref_private_pool i = sx_bind (sx_get graph_pools) (\<lambda>gps.
     case map_of gps i of None \<Rightarrow> sx_throw UseAfterFree | Some pp \<Rightarrow> sx_ret pp)"

definition create_or_incref_pool :: "mempool_id \<Rightarrow> nat option \<Rightarrow> ('d, unit) dx" where
  "create_or_incref_pool i a =
     sx_bind (sx_get graph_pools) (\<lambda>gps. case map_of gps i of
       None \<Rightarrow> sx_mod (\<lambda>s. s\<lparr>graph_pools := gps @ [(i, PrivatePool_ctor a)],
         pools := (pools s)(Private i True := BlockPool_ctor, Private i False := BlockPool_ctor)\<rparr>)
     | Some pp \<Rightarrow>
         sx_seq (sx_check (0 < use_count pp) (InternalAssert ''use_count > 0''))
         (sx_seq (sx_check (a = None) (InternalAssert ''allocator == nullptr''))
         (upd_private_pool i (\<lambda>pp. pp\<lparr>use_count := use_count pp + 1\<rparr>))))"

section \<open>Statistics and the trace\<close>

abbreviation on_stats :: "(DeviceStats, exn, 'a) sx \<Rightarrow> ('d, 'a) dx" where
  "on_stats \<equiv> sx_field stats stats_update"

abbreviation on_drv :: "('d, 'a) wx \<Rightarrow> ('d, 'a) dx" where
  "on_drv \<equiv> sx_field world world_update"

definition get_stat_types_for_pool :: "pool_ref \<Rightarrow> StatTypes" where
  "get_stat_types_for_pool p = (\<lambda>st. st = AGGREGATE \<or> st = (if is_small p then SMALL_POOL else LARGE_POOL))"

definition upd_stat ::
  "(DeviceStats \<Rightarrow> StatArray) \<Rightarrow> ((StatArray \<Rightarrow> StatArray) \<Rightarrow> DeviceStats \<Rightarrow> DeviceStats) \<Rightarrow> StatType \<Rightarrow> int \<Rightarrow>
   (DeviceStats, exn, unit) sx" where
  "upd_stat sel upd st amount = sx_field sel upd (sx_at st (update_stat amount))"

definition maybeGatherContext :: "RecordContext \<Rightarrow> ('d, nat option) dx" where
  "maybeGatherContext level = sx_get (\<lambda>s. if record_context s < level then None else context_recorder s)"

definition record_trace ::
  "Action \<Rightarrow> int \<Rightarrow> nat \<Rightarrow> nat \<Rightarrow> int \<Rightarrow> mempool_id \<Rightarrow> nat option \<Rightarrow> ('d, unit) dx" where
  "record_trace action addr sz st dev mempool ctx = sx_bind (sx_get (\<lambda>s. s)) (\<lambda>s.
     if \<not> record_history s \<and> trace_trackers s = [] then sx_ret ()
     else let te = \<lparr>te_action = action, te_device = dev, te_addr = addr,
              te_context = (if RC_ALLOC \<le> record_context s then ctx else None), te_stream = st,
              te_size = sz, te_mempool = mempool\<rparr> in
       if record_history s then
         if length (alloc_trace s) < alloc_trace_max_entries s
         then sx_mod (\<lambda>s. s\<lparr>alloc_trace := alloc_trace s @ [te]\<rparr>)
         else sx_seq (sx_check (alloc_trace_next s < length (alloc_trace s)) OutOfBounds)
           (sx_mod (\<lambda>s. s\<lparr>alloc_trace := (alloc_trace s)[alloc_trace_next s := te],
              alloc_trace_next :=
                (if Suc (alloc_trace_next s) = alloc_trace_max_entries s then 0 else Suc (alloc_trace_next s))\<rparr>))
       else sx_ret ())"

end
