(* ===== verification/Device_Allocator.thy ===== *)
theory Device_Allocator
  imports Block_Store
begin

text \<open>
  The private operations of \<^verbatim>\<open>DeviceCachingAllocator\<close> in
  \<^verbatim>\<open>core/supa/SUPACachingAllocator.cpp\<close>: merging and freeing blocks, expandable segments, the search
  for a cached block, allocation from the driver, garbage collection, release of cached memory and the
  life cycle of events. Each definition follows its member function statement by statement. The
  allocator's lock is not modelled: an operation runs from its first to its last statement on one
  state.
\<close>

section \<open>Merging and freeing\<close>

definition try_merge_blocks :: "nat \<Rightarrow> nat option \<Rightarrow> pool_ref \<Rightarrow> ('d, nat) dx" where
  "try_merge_blocks dst src pool = (case src of None \<Rightarrow> sx_ret 0 | Some sr \<Rightarrow>
     sx_bind (deref sr) (\<lambda>sb. sx_bind (deref dst) (\<lambda>db.
     if allocated sb \<or> 0 < event_count sb \<or> stream_uses sb \<noteq> [] \<or> mapped db \<noteq> mapped sb then sx_ret 0
     else
       sx_seq (sx_check (is_split db \<and> is_split sb) (InternalAssert ''dst->is_split() && src->is_split()''))
       (sx_seq (if b_prev db = Some sr then
           sx_seq (setb dst (\<lambda>d. d\<lparr>b_ptr := b_ptr sb, b_prev := b_prev sb\<rparr>))
           (sx_seq (case b_prev sb of None \<Rightarrow> sx_ret () | Some p \<Rightarrow> setb p (\<lambda>x. x\<lparr>b_next := Some dst\<rparr>))
           (setb dst (\<lambda>d. d\<lparr>context_when_segment_allocated := context_when_segment_allocated sb\<rparr>)))
         else
           sx_seq (setb dst (\<lambda>d. d\<lparr>b_next := b_next sb\<rparr>))
           (case b_next sb of None \<Rightarrow> sx_ret () | Some n \<Rightarrow> setb n (\<lambda>x. x\<lparr>b_prev := Some dst\<rparr>)))
       (sx_seq (setb dst (\<lambda>d. d\<lparr>b_size := b_size d + b_size sb\<rparr>))
       (sx_seq (if mapped sb then erase_from_blocks pool sr else erase_from_unmapped pool sr)
       (sx_seq (delete_block sr) (sx_ret (b_size sb)))))))))"

definition free_block_stats :: "pool_ref \<Rightarrow> bool \<Rightarrow> int \<Rightarrow> int \<Rightarrow> nat \<Rightarrow> nat \<Rightarrow> ('d, unit) dx" where
  "free_block_stats pool plain nblocks nsize orig req =
     on_stats (for_each_selected_stat_type (get_stat_types_for_pool pool) (\<lambda>st.
       sx_seq (sx_when plain
         (sx_seq (upd_stat inactive_split inactive_split_update st nblocks)
         (upd_stat inactive_split_bytes inactive_split_bytes_update st nsize)))
       (sx_seq (upd_stat active active_update st (-1))
       (sx_seq (upd_stat active_bytes active_bytes_update st (- int orig))
       (upd_stat requested_bytes requested_bytes_update st (- int req))))))"

definition free_block :: "nat \<Rightarrow> nat option \<Rightarrow> ('d, unit) dx" where
  "free_block b ctx =
     sx_bind (deref b) (\<lambda>blk.
     sx_seq (sx_check (\<not> allocated blk \<and> event_count blk = 0 \<and> stream_uses blk = [])
       (InternalAssert ''!block->allocated && block->event_count == 0 && block->stream_uses.empty()''))
     (sx_seq (record_trace FREE_COMPLETED (int (b_ptr blk)) (requested_size blk) (b_stream blk)
        (b_device blk) (owner_MempoolId (b_pool blk))
        (if ctx \<noteq> None then ctx else context_when_allocated blk))
     (sx_seq (setb b (\<lambda>x. x\<lparr>context_when_allocated := None\<rparr>))
     (sx_bind (try_merge_blocks b (b_prev blk) (b_pool blk)) (\<lambda>subsumed1.
      sx_bind (try_merge_blocks b (b_next blk) (b_pool blk)) (\<lambda>subsumed2.
      sx_seq (sx_mod (\<lambda>s. s\<lparr>active_blocks := filter (\<lambda>x. x \<noteq> b) (active_blocks s)\<rparr>))
      (sx_bind (insert_into_blocks (b_pool blk) b) (\<lambda>inserted.
       sx_seq (sx_check inserted (InternalAssert ''inserted''))
       (sx_bind (deref b) (\<lambda>blk'.
        free_block_stats (b_pool blk) (expandable_segment blk' = None)
          ((if 0 < subsumed1 then -1 else 0) + (if 0 < subsumed2 then -1 else 0)
            + (if is_split blk' then 1 else 0))
          (- int subsumed1 - int subsumed2 + (if is_split blk' then int (b_size blk') else 0))
          (b_size blk) (requested_size blk)))))))))))"

section \<open>Expandable segments\<close>

definition on_segment :: "nat option \<Rightarrow> ('d, 'a) segx \<Rightarrow> ('d, 'a) dx" where
  "on_segment sg m = (\<lambda>s. case sg of None \<Rightarrow> (Inl UseAfterFree, s) | Some i \<Rightarrow>
     (case segs s i of None \<Rightarrow> (Inl UseAfterFree, s) | Some es \<Rightarrow>
       (case m (es, world s) of (r, (es', w')) \<Rightarrow>
          (r, s\<lparr>segs := (segs s)(i \<mapsto> es'), world := w'\<rparr>))))"

definition allocatable :: "Block \<Rightarrow> bool" where
  "allocatable b \<longleftrightarrow> \<not> allocated b \<and> event_count b = 0 \<and> stream_uses b = []"

text \<open>
  The walk of \<^verbatim>\<open>has_available_address_space\<close> along the neighbours; every block it passes adds to the
  bytes found, so the requested size bounds its length.
\<close>

fun address_space_loop :: "nat \<Rightarrow> nat \<Rightarrow> nat option \<Rightarrow> nat \<Rightarrow> ('d, bool) dx" where
  "address_space_loop fuel sz b bytes =
     (if bytes < sz then (case b of None \<Rightarrow> sx_ret False | Some x \<Rightarrow>
        sx_bind (deref x) (\<lambda>blk.
        if allocatable blk then
          (case fuel of 0 \<Rightarrow> sx_throw LoopBound
           | Suc f \<Rightarrow> address_space_loop f sz (b_next blk) (bytes + b_size blk))
        else sx_ret False))
      else sx_ret True)"

declare address_space_loop.simps [simp del]

definition has_available_address_space :: "nat \<Rightarrow> nat \<Rightarrow> ('d, bool) dx" where
  "has_available_address_space sz b = address_space_loop sz sz (Some b) 0"

text \<open>The loop over the unmapped blocks of the stream, from the lowest address on.\<close>

fun find_unmapped :: "nat \<Rightarrow> nat \<Rightarrow> nat list \<Rightarrow> ('d, nat option) dx" where
  "find_unmapped st sz [] = sx_ret None"
| "find_unmapped st sz (c # cs) =
     sx_bind (deref c) (\<lambda>cb.
     if b_stream cb = st then
       sx_bind (case b_prev cb of None \<Rightarrow> sx_ret c
         | Some p \<Rightarrow> sx_bind (deref p) (\<lambda>pb. sx_ret (if allocatable pb then p else c)))
       (\<lambda>c'. sx_bind (has_available_address_space sz c') (\<lambda>ok.
        if ok then sx_ret (Some c') else find_unmapped st sz cs))
     else sx_ret None)"

definition find_expandable_block ::
  "'d env \<Rightarrow> int \<Rightarrow> nat \<Rightarrow> pool_ref \<Rightarrow> nat \<Rightarrow> ('d, nat) dx" where
  "find_expandable_block V dev st pool sz =
     sx_bind (get_BlockPool pool) (\<lambda>bp. sx_bind (sx_get heap) (\<lambda>h.
     sx_bind (find_unmapped st sz (set_lower_bound BlockComparatorAddress (bkey h) (st, 0, 0) (unmapped bp)))
     (\<lambda>found. case found of Some c \<Rightarrow> sx_ret c | None \<Rightarrow>
       let segment_size = (if is_small pool then kSmallBuffer else kLargeBuffer) in
       sx_bind (sx_get devices_with_peer_access) (\<lambda>ps.
       sx_bind (on_drv (ExpandableSegment_ctor (Drv V) dev st segment_size ps)) (\<lambda>es.
       sx_bind (sx_get next_seg) (\<lambda>i.
       sx_seq (sx_mod (\<lambda>s. s\<lparr>segs := (segs s)(i \<mapsto> es), next_seg := Suc i,
          expandable_segments := expandable_segments s @ [i]\<rparr>))
       (sx_bind (new_block ((Block_ctor dev st (es_size es) pool (es_ptr es))
            \<lparr>mapped := False, expandable_segment := Some i\<rparr>)) (\<lambda>candidate.
        sx_seq (insert_into_unmapped pool candidate) (sx_ret candidate)))))))))"

definition map_block_stats :: "pool_ref \<Rightarrow> nat \<Rightarrow> ('d, unit) dx" where
  "map_block_stats pool n =
     sx_seq (on_stats (for_each_selected_stat_type (get_stat_types_for_pool pool)
       (\<lambda>st. upd_stat reserved_bytes reserved_bytes_update st (int n))))
     (on_stats (sx_mod (\<lambda>d. d\<lparr>num_device_alloc := num_device_alloc d + 1\<rparr>)))"

definition map_block :: "'d env \<Rightarrow> nat \<Rightarrow> nat \<Rightarrow> nat option \<Rightarrow> ('d, bool) dx" where
  "map_block V to_map sz ctx =
     sx_bind (deref to_map) (\<lambda>blk.
     sx_seq (sx_check (\<not> mapped blk \<and> sz \<le> b_size blk) (InternalAssert ''!to_map->mapped && size <= to_map->size''))
     (sx_seq (sx_check (context_when_allocated blk = None) (InternalAssert ''!to_map->context_when_allocated''))
     (sx_bind (on_segment (expandable_segment blk) (es_map (Drv V) (b_ptr blk, sz))) (\<lambda>mapped_range.
      if snd mapped_range = 0 then sx_ret False
      else
        sx_seq (sx_check (fst mapped_range = b_ptr blk \<and> sz \<le> snd mapped_range)
          (InternalAssert ''mapped_range.ptr == to_map->ptr && mapped_range.size >= size''))
        (sx_seq (erase_from_unmapped (b_pool blk) to_map)
        (sx_seq (setb to_map (\<lambda>x. x\<lparr>mapped := True\<rparr>))
        (sx_seq (sx_when (snd mapped_range < b_size blk)
           (sx_bind (new_block ((Block_ctor (b_device blk) (b_stream blk) (b_size blk - snd mapped_range)
               (b_pool blk) (b_ptr blk + snd mapped_range))
               \<lparr>mapped := False, expandable_segment := expandable_segment blk\<rparr>)) (\<lambda>remaining.
            sx_seq (splice remaining (Some to_map) (b_next blk))
            (sx_seq (insert_into_unmapped (b_pool blk) remaining)
            (setb to_map (\<lambda>x. x\<lparr>b_size := snd mapped_range\<rparr>))))))
        (sx_bind (deref to_map) (\<lambda>m1. sx_bind (try_merge_blocks to_map (b_prev m1) (b_pool blk)) (\<lambda>_.
        (sx_bind (deref to_map) (\<lambda>m2. sx_bind (try_merge_blocks to_map (b_next m2) (b_pool blk)) (\<lambda>_.
        (sx_bind (insert_into_blocks (b_pool blk) to_map) (\<lambda>_.
        (sx_seq (sx_mod (\<lambda>s. s\<lparr>total_allocated_memory := size_add (total_allocated_memory s) (snd mapped_range)\<rparr>))
        (sx_seq (map_block_stats (b_pool blk) (snd mapped_range))
        (sx_seq (record_trace SEGMENT_MAP (int (fst mapped_range)) (snd mapped_range) (b_stream blk)
           (b_device blk) (owner_MempoolId (b_pool blk)) ctx)
        (sx_bind (deref to_map) (\<lambda>m3.
         sx_seq (sx_when (b_prev m3 = None \<and> context_when_segment_allocated m3 = None)
           (setb to_map (\<lambda>x. x\<lparr>context_when_segment_allocated := ctx\<rparr>)))
         (sx_ret True)))))))))))))))))))))"

text \<open>The loop that maps more pages until the candidate is large enough; each round adds to its size.\<close>

fun grow_candidate :: "'d env \<Rightarrow> nat \<Rightarrow> nat \<Rightarrow> nat option \<Rightarrow> nat \<Rightarrow> ('d, nat option) dx" where
  "grow_candidate V fuel sz ctx candidate =
     sx_bind (deref candidate) (\<lambda>blk.
     if b_size blk < sz then
       (case b_next blk of None \<Rightarrow> sx_throw UseAfterFree | Some new_candidate \<Rightarrow>
         sx_bind (deref new_candidate) (\<lambda>nb.
         sx_bind (map_block V new_candidate (min (sz - b_size blk) (b_size nb)) ctx) (\<lambda>ok.
         if \<not> ok then sx_ret None
         else (case fuel of 0 \<Rightarrow> sx_throw LoopBound | Suc f \<Rightarrow> grow_candidate V f sz ctx new_candidate))))
     else sx_ret (Some candidate))"

declare grow_candidate.simps [simp del]

definition try_allocate_expandable_block ::
  "'d env \<Rightarrow> int \<Rightarrow> nat \<Rightarrow> pool_ref \<Rightarrow> nat \<Rightarrow> nat option \<Rightarrow> ('d, nat option) dx" where
  "try_allocate_expandable_block V dev st pool sz ctx =
     sx_bind (find_expandable_block V dev st pool sz) (\<lambda>candidate.
     sx_bind (deref candidate) (\<lambda>cb.
     sx_bind (if mapped cb then sx_ret True else map_block V candidate (min (b_size cb) sz) ctx) (\<lambda>ok.
     if \<not> ok then sx_ret None
     else
       sx_bind (deref candidate) (\<lambda>cb'.
       sx_seq (sx_check (mapped cb') (InternalAssert ''candidate->mapped''))
       (sx_bind (grow_candidate V sz sz ctx candidate) (\<lambda>r. case r of None \<Rightarrow> sx_ret None
        | Some c \<Rightarrow> sx_seq (erase_from_blocks pool c) (sx_ret (Some c))))))))"

section \<open>Searching the cache\<close>

record AllocParams =
  p_device :: int
  p_stream :: nat
  p_size :: nat
  p_pool :: pool_ref
  p_alloc_size :: nat
  p_block :: "nat option"
  p_stat_types :: StatTypes
  p_err :: supaError

definition AllocParams_ctor :: "int \<Rightarrow> nat \<Rightarrow> nat \<Rightarrow> pool_ref \<Rightarrow> nat \<Rightarrow> AllocParams" where
  "AllocParams_ctor dev sz st pool alloc_size =
     \<lparr>p_device = dev, p_stream = st, p_size = sz, p_pool = pool, p_alloc_size = alloc_size,
      p_block = None, p_stat_types = \<lambda>_. False, p_err = supaSuccess\<rparr>"

definition get_pool :: "nat \<Rightarrow> nat \<Rightarrow> ('d, pool_ref) dx" where
  "get_pool sz st = sx_bind (sx_get captures_underway) (\<lambda>cs.
     case find (\<lambda>(i, flt). flt st) cs of
       Some (i, flt) \<Rightarrow> sx_bind (sx_get graph_pools) (\<lambda>gps.
         sx_seq (sx_check (i \<in> fst ` set gps) (InternalAssert ''it1 != graph_pools.end()''))
         (sx_ret (Private i (sz \<le> kSmallSize))))
     | None \<Rightarrow> sx_ret (Global (sz \<le> kSmallSize)))"

definition should_split :: "'d env \<Rightarrow> Block \<Rightarrow> nat \<Rightarrow> bool" where
  "should_split V blk sz =
     (let remaining = b_size blk - sz in
      if is_small (b_pool blk) \<or> m_expandable_segments (Cfg V) then kMinBlockSize \<le> remaining
      else sz < m_max_split_size (Cfg V) \<and> kSmallSize < remaining)"

definition gc_enabled :: "'d env \<Rightarrow> 'd dca \<Rightarrow> bool" where
  "gc_enabled V s \<longleftrightarrow> set_fraction s \<and> 0 < m_garbage_collection_threshold (Cfg V)"

text \<open>The size of a block together with the unmapped block behind it.\<close>

definition expandable_size :: "nat \<Rightarrow> ('d, nat) dx" where
  "expandable_size b = sx_bind (deref b) (\<lambda>blk. case b_next blk of None \<Rightarrow> sx_ret (b_size blk)
     | Some n \<Rightarrow> sx_bind (deref n) (\<lambda>nb. sx_ret (b_size blk + (if \<not> mapped nb then b_size nb else 0))))"

text \<open>The iterator is the list of the elements from its position on.\<close>

fun best_expandable :: "nat \<Rightarrow> nat list \<Rightarrow> ('d, nat list) dx" where
  "best_expandable st (b # n # rest) =
     sx_bind (deref b) (\<lambda>bb. sx_bind (deref n) (\<lambda>nb.
     if expandable_segment bb \<noteq> None \<and> b_stream nb = st then
       sx_bind (expandable_size n) (\<lambda>zn. sx_bind (expandable_size b) (\<lambda>zb.
       if zn < zb then best_expandable st (n # rest) else sx_ret (b # n # rest)))
     else sx_ret (b # n # rest)))"
| "best_expandable st it = sx_ret it"

fun skip_expandable :: "nat \<Rightarrow> nat list \<Rightarrow> ('d, nat list) dx" where
  "skip_expandable st (b # n # rest) =
     sx_bind (deref n) (\<lambda>nb.
     if expandable_segment nb \<noteq> None \<and> b_stream nb = st then skip_expandable st (n # rest)
     else sx_ret (n # rest))"
| "skip_expandable st it = sx_ret []"

text \<open>The last checks of \<^verbatim>\<open>get_free_block\<close> on the block the search stopped at.\<close>

definition take_free_block :: "'d env \<Rightarrow> AllocParams \<Rightarrow> nat list \<Rightarrow> ('d, bool \<times> AllocParams) dx" where
  "take_free_block V p it = (case it of [] \<Rightarrow> sx_ret (False, p) | b # _ \<Rightarrow>
     sx_bind (deref b) (\<lambda>blk.
     if b_stream blk \<noteq> p_stream p then sx_ret (False, p)
     else if p_size p < m_max_split_size (Cfg V) \<and> m_max_split_size (Cfg V) \<le> b_size blk then sx_ret (False, p)
     else if m_max_split_size (Cfg V) \<le> p_size p \<and> p_size p + kLargeBuffer \<le> b_size blk then sx_ret (False, p)
     else sx_seq (upd_BlockPool (p_pool p) (\<lambda>bp. bp\<lparr>blocks := remove1 b (blocks bp)\<rparr>))
       (sx_ret (True, p\<lparr>p_block := Some b\<rparr>))))"

definition get_free_block :: "'d env \<Rightarrow> AllocParams \<Rightarrow> ('d, bool \<times> AllocParams) dx" where
  "get_free_block V p =
     sx_bind (sx_get (gc_enabled V)) (\<lambda>gc.
     sx_seq (sx_when gc (upd_BlockPool (p_pool p)
       (\<lambda>bp. bp\<lparr>get_free_blocks_call_count := get_free_blocks_call_count bp + 1\<rparr>)))
     (sx_bind (get_BlockPool (p_pool p)) (\<lambda>bp. sx_bind (sx_get heap) (\<lambda>h.
      case set_lower_bound BlockComparatorSize (bkey h) (p_stream p, p_size p, 0) (blocks bp) of
        [] \<Rightarrow> sx_ret (False, p)
      | b # rest \<Rightarrow> sx_bind (deref b) (\<lambda>blk.
          if b_stream blk \<noteq> p_stream p then sx_ret (False, p)
          else if expandable_segment blk \<noteq> None then
            sx_bind (if m_expandable_segments (Cfg V) then best_expandable (p_stream p) (b # rest)
              else skip_expandable (p_stream p) (b # rest)) (take_free_block V p)
          else take_free_block V p (b # rest))))))"

fun run_callbacks :: "'d driver \<Rightarrow> nat list \<Rightarrow> bool \<Rightarrow> ('d, bool) wx" where
  "run_callbacks D [] freed_memory = sx_ret freed_memory"
| "run_callbacks D (k # ks) freed_memory =
     sx_bind (drv_call (callback_execute D k)) (\<lambda>r. run_callbacks D ks (freed_memory \<or> r))"

definition trigger_free_memory_callbacks :: "'d env \<Rightarrow> ('d, bool) dx" where
  "trigger_free_memory_callbacks V = on_drv (run_callbacks (Drv V) (callback_keys (Drv V)) False)"

section \<open>Allocating from the driver\<close>

definition allocPrimitive :: "'d env \<Rightarrow> nat \<Rightarrow> AllocParams \<Rightarrow> ('d, supaError \<times> nat) dx" where
  "allocPrimitive V sz p = (case owner_PrivatePool (p_pool p) of
       None \<Rightarrow> on_drv (drv_call (supaMalloc (Drv V) sz))
     | Some i \<Rightarrow> sx_bind (deref_private_pool i) (\<lambda>pp. case pp_allocator pp of
         None \<Rightarrow> on_drv (drv_call (supaMalloc (Drv V) sz))
       | Some a \<Rightarrow> sx_bind (on_drv (drv_call (raw_alloc_hook (Drv V) a sz))) (\<lambda>ptr.
           sx_ret (if ptr \<noteq> 0 then supaSuccess else supaErrorMemoryAllocation, ptr))))"

definition supaMallocMaybeCapturing :: "'d env \<Rightarrow> nat \<Rightarrow> AllocParams \<Rightarrow> ('d, supaError \<times> nat) dx" where
  "supaMallocMaybeCapturing V sz p =
     sx_bind (on_drv (drv_call (capturing (Drv V)))) (\<lambda>cap.
     if \<not> cap then allocPrimitive V sz p
     else sx_bind (on_drv (drv_call (exchangeCaptureMode (Drv V) 2))) (\<lambda>old.
       sx_bind (allocPrimitive V sz p) (\<lambda>r.
       sx_bind (on_drv (drv_call (exchangeCaptureMode (Drv V) old))) (\<lambda>_. sx_ret r))))"

text \<open>The check that the active memory pool and the pool of the block are the same.\<close>

definition check_active_pool :: "'d env \<Rightarrow> pool_ref \<Rightarrow> ('d, unit) dx" where
  "check_active_pool V pool = (case (ActiveMemPool V, owner_PrivatePool pool) of
       (Some (i, Some a), Some j) \<Rightarrow> sx_bind (get_private_pool i) (\<lambda>_.
         sx_check (i = j) (InternalAssert ''pp == p.pool->owner_PrivatePool''))
     | _ \<Rightarrow> sx_ret ())"

definition upd_owner :: "pool_ref \<Rightarrow> (PrivatePool \<Rightarrow> PrivatePool) \<Rightarrow> ('d, unit) dx" where
  "upd_owner pool f = (case owner_PrivatePool pool of None \<Rightarrow> sx_ret () | Some i \<Rightarrow> upd_private_pool i f)"

definition alloc_block_stats :: "'d env \<Rightarrow> StatTypes \<Rightarrow> nat \<Rightarrow> ('d, unit) dx" where
  "alloc_block_stats V stat_types sz =
     sx_seq (on_stats (for_each_selected_stat_type stat_types (\<lambda>st.
       sx_seq (upd_stat segment segment_update st 1)
       (upd_stat reserved_bytes reserved_bytes_update st (int sz)))))
     (sx_when (m_max_split_size (Cfg V) \<le> sz)
       (on_stats (sx_field oversize_segments oversize_segments_update (update_stat 1))))"

text \<open>\<^verbatim>\<open>release_lock_on_supamalloc\<close> only affects the lock.\<close>

definition alloc_block :: "'d env \<Rightarrow> AllocParams \<Rightarrow> bool \<Rightarrow> nat option \<Rightarrow> ('d, bool \<times> AllocParams) dx" where
  "alloc_block V p isRetry ctx =
     sx_seq (on_drv (supa_check (supaGetLastError (Drv V))))
     (let sz = p_alloc_size p in
      sx_seq (sx_when isRetry (on_stats (sx_mod (\<lambda>d. d\<lparr>num_alloc_retries := num_alloc_retries d + 1\<rparr>))))
      (sx_bind (sx_get (\<lambda>s. set_fraction s
          \<and> allowed_memory_maximum s < size_add (total_allocated_memory s) sz)) (\<lambda>limited.
       if limited then sx_ret (False, p\<lparr>p_err := supaErrorMemoryAllocation\<rparr>)
       else if m_expandable_segments (Cfg V) \<and> owner_PrivatePool (p_pool p) = None then
         sx_bind (try_allocate_expandable_block V (p_device p) (p_stream p) (p_pool p) (p_size p) ctx)
         (\<lambda>r. case r of None \<Rightarrow> sx_ret (False, p\<lparr>p_block := None, p_err := supaErrorMemoryAllocation\<rparr>)
          | Some b \<Rightarrow> sx_seq (upd_owner (p_pool p) (\<lambda>pp. pp\<lparr>supaMalloc_count := supaMalloc_count pp + 1\<rparr>))
              (sx_ret (True, p\<lparr>p_block := Some b, p_err := supaSuccess\<rparr>)))
       else
         sx_seq (check_active_pool V (p_pool p))
         (sx_bind (supaMallocMaybeCapturing V sz p) (\<lambda>(err, ptr).
          if err \<noteq> supaSuccess then
            if err = supaErrorMemoryAllocation then
              sx_bind (on_drv (drv_call (supaGetLastError (Drv V)))) (\<lambda>_. sx_ret (False, p\<lparr>p_err := err\<rparr>))
            else sx_throw (SupaCheck err)
          else
            sx_seq (upd_owner (p_pool p) (\<lambda>pp. pp\<lparr>supaMalloc_count := supaMalloc_count pp + 1\<rparr>))
            (sx_seq (sx_mod (\<lambda>s. s\<lparr>total_allocated_memory := size_add (total_allocated_memory s) sz\<rparr>))
            (sx_bind (new_block (Block_ctor (p_device p) (p_stream p) sz (p_pool p) ptr)) (\<lambda>b.
             sx_seq (alloc_block_stats V (p_stat_types p) sz)
             (sx_seq (sx_check (ptr \<noteq> 0) (InternalAssert ''p.block->ptr != nullptr''))
             (sx_seq (on_stats (sx_mod (\<lambda>d. d\<lparr>num_device_alloc := num_device_alloc d + 1\<rparr>)))
             (sx_seq (record_trace SEGMENT_ALLOC (int ptr) sz (p_stream p) (p_device p)
                (owner_MempoolId (p_pool p)) ctx)
             (sx_seq (setb b (\<lambda>x. x\<lparr>context_when_segment_allocated := ctx\<rparr>))
             (sx_ret (True, p\<lparr>p_block := Some b, p_err := err\<rparr>))))))))))))))"

section \<open>Releasing cached memory\<close>

definition release_block_stats :: "'d env \<Rightarrow> pool_ref \<Rightarrow> nat \<Rightarrow> ('d, unit) dx" where
  "release_block_stats V pool sz =
     sx_seq (on_stats (for_each_selected_stat_type (get_stat_types_for_pool pool) (\<lambda>st.
       sx_seq (upd_stat segment segment_update st (-1))
       (upd_stat reserved_bytes reserved_bytes_update st (- int sz)))))
     (sx_when (m_max_split_size (Cfg V) \<le> sz)
       (on_stats (sx_field oversize_segments oversize_segments_update (update_stat (-1)))))"

text \<open>The memory goes back through the active pool's allocator, or to the driver.\<close>

definition release_memory :: "'d env \<Rightarrow> pool_ref \<Rightarrow> nat \<Rightarrow> ('d, unit) dx" where
  "release_memory V pool ptr = (case (ActiveMemPool V, owner_PrivatePool pool) of
       (Some (i, Some a), Some j) \<Rightarrow>
         sx_seq (check_active_pool V pool)
         (on_drv (drv_call (\<lambda>d. ((), raw_delete_hook (Drv V) a ptr d))))
     | _ \<Rightarrow> on_drv (supa_check (supaFree (Drv V) ptr)))"

definition decrement_owner :: "pool_ref \<Rightarrow> ('d, unit) dx" where
  "decrement_owner pool = (case owner_PrivatePool pool of None \<Rightarrow> sx_ret () | Some i \<Rightarrow>
     sx_bind (deref_private_pool i) (\<lambda>pp.
     sx_seq (sx_check (0 < supaMalloc_count pp) (InternalAssert ''supaMalloc_count > 0''))
     (upd_private_pool i (\<lambda>pp. pp\<lparr>supaMalloc_count := supaMalloc_count pp - 1\<rparr>))))"

definition release_block :: "'d env \<Rightarrow> nat \<Rightarrow> nat option \<Rightarrow> ('d, unit) dx" where
  "release_block V b ctx =
     sx_bind (deref b) (\<lambda>blk.
     sx_seq (sx_check (expandable_segment blk = None) (InternalAssert ''!block->expandable_segment_''))
     (sx_seq (on_stats (sx_mod (\<lambda>d. d\<lparr>num_device_free := num_device_free d + 1\<rparr>)))
     (sx_seq (record_trace SEGMENT_FREE (int (b_ptr blk)) (b_size blk) (b_stream blk) (b_device blk)
        (owner_MempoolId (b_pool blk)) (if ctx \<noteq> None then ctx else context_when_segment_allocated blk))
     (sx_seq (release_memory V (b_pool blk) (b_ptr blk))
     (sx_seq (sx_mod (\<lambda>s. s\<lparr>total_allocated_memory := size_sub (total_allocated_memory s) (b_size blk)\<rparr>))
     (sx_seq (decrement_owner (b_pool blk))
     (sx_seq (release_block_stats V (b_pool blk) (b_size blk))
     (sx_seq (erase_from_blocks (b_pool blk) b)
     (delete_block b)))))))))"

definition unmap_block_stats :: "pool_ref \<Rightarrow> nat \<Rightarrow> ('d, unit) dx" where
  "unmap_block_stats pool n =
     on_stats (for_each_selected_stat_type (get_stat_types_for_pool pool)
       (\<lambda>st. upd_stat reserved_bytes reserved_bytes_update st (- int n)))"

definition unmap_block :: "'d env \<Rightarrow> nat \<Rightarrow> nat option \<Rightarrow> ('d, unit) dx" where
  "unmap_block V b ctx =
     sx_bind (deref b) (\<lambda>blk.
     sx_bind (on_segment (expandable_segment blk) (es_unmap (Drv V) (b_ptr blk, b_size blk))) (\<lambda>(uptr, usize).
     if usize = 0 then sx_ret ()
     else
       sx_seq (erase_from_blocks (b_pool blk) b)
       (let before_size = uptr - b_ptr blk; after_size = b_size blk - (before_size + usize) in
       sx_seq (sx_when (0 < before_size)
         (sx_bind (new_block ((Block_ctor (b_device blk) (b_stream blk) before_size (b_pool blk) (b_ptr blk))
             \<lparr>expandable_segment := expandable_segment blk\<rparr>)) (\<lambda>before_free.
          sx_seq (splice before_free (b_prev blk) (Some b))
          (sx_bind (insert_into_blocks (b_pool blk) before_free) (\<lambda>_. sx_ret ())))))
       (sx_seq (sx_when (0 < after_size)
         (sx_bind (new_block ((Block_ctor (b_device blk) (b_stream blk) after_size (b_pool blk) (uptr + usize))
             \<lparr>expandable_segment := expandable_segment blk\<rparr>)) (\<lambda>after_free.
          sx_seq (splice after_free (Some b) (b_next blk))
          (sx_bind (insert_into_blocks (b_pool blk) after_free) (\<lambda>_. sx_ret ())))))
       (sx_seq (setb b (\<lambda>x. x\<lparr>b_ptr := uptr, b_size := usize, mapped := False\<rparr>))
       (sx_bind (deref b) (\<lambda>b1. sx_bind (try_merge_blocks b (b_prev b1) (b_pool blk)) (\<lambda>_.
        sx_bind (deref b) (\<lambda>b2. sx_bind (try_merge_blocks b (b_next b2) (b_pool blk)) (\<lambda>_.
        sx_seq (insert_into_unmapped (b_pool blk) b)
        (sx_seq (sx_mod (\<lambda>s. s\<lparr>total_allocated_memory := size_sub (total_allocated_memory s) usize\<rparr>))
        (sx_seq (unmap_block_stats (b_pool blk) usize)
        (sx_seq (decrement_owner (b_pool blk))
        (sx_seq (on_stats (sx_mod (\<lambda>d. d\<lparr>num_device_free := num_device_free d + 1\<rparr>)))
        (sx_bind (deref b) (\<lambda>b3.
         record_trace SEGMENT_UNMAP (int uptr) usize (b_stream blk) (b_device blk)
           (owner_MempoolId (b_pool blk))
           (if ctx \<noteq> None then ctx else context_when_segment_allocated b3)))))))))))))))))"

definition release_expandable_segment :: "'d env \<Rightarrow> nat \<Rightarrow> ('d, unit) dx" where
  "release_expandable_segment V b =
     sx_bind (deref b) (\<lambda>blk.
     sx_bind (on_segment (expandable_segment blk) (sx_get fst)) (\<lambda>es.
     sx_seq (sx_check (b_size blk = es_size es) (InternalAssert ''block disagrees with segment''))
     (sx_seq (sx_check (\<not> mapped blk) (InternalAssert ''!block->mapped''))
     (sx_bind (sx_get expandable_segments) (\<lambda>ess.
      sx_seq (sx_check (\<exists>i \<in> set ess. expandable_segment blk = Some i)
        (InternalAssert ''it != expandable_segments_.end()''))
      (sx_seq (sx_mod (\<lambda>s. s\<lparr>expandable_segments := remove1 (the (expandable_segment blk)) ess\<rparr>))
      (sx_seq (erase_from_unmapped (b_pool blk) b)
      (sx_seq (on_segment (expandable_segment blk) (ExpandableSegment_dtor (Drv V)))
      (sx_seq (sx_mod (\<lambda>s. s\<lparr>segs := (segs s)(the (expandable_segment blk) := None)\<rparr>))
      (delete_block b))))))))))"

text \<open>The first loop of \<^verbatim>\<open>release_blocks\<close> gathers the blocks of expandable segments.\<close>

fun release_unsplit :: "'d env \<Rightarrow> nat option \<Rightarrow> nat list \<Rightarrow> ('d, nat list) dx" where
  "release_unsplit V ctx [] = sx_ret []"
| "release_unsplit V ctx (b # bs) =
     sx_bind (deref b) (\<lambda>blk.
     if expandable_segment blk \<noteq> None then
       sx_bind (release_unsplit V ctx bs) (\<lambda>to_unmap. sx_ret (b # to_unmap))
     else sx_seq (sx_when (\<not> is_split blk) (release_block V b ctx)) (release_unsplit V ctx bs))"

definition release_blocks :: "'d env \<Rightarrow> pool_ref \<Rightarrow> nat option \<Rightarrow> ('d, unit) dx" where
  "release_blocks V pool ctx =
     sx_bind (get_BlockPool pool) (\<lambda>bp.
     sx_bind (release_unsplit V ctx (blocks bp)) (\<lambda>to_unmap.
     sx_for to_unmap (\<lambda>b.
       sx_seq (unmap_block V b ctx)
       (sx_bind (deref b) (\<lambda>blk. sx_when (\<not> is_split blk) (release_expandable_segment V b))))))"

section \<open>Garbage collection and the release of oversize blocks\<close>

text \<open>The total age and the number of the unsplit blocks of the large pool.\<close>

fun age_of_blocks :: "nat list \<Rightarrow> rat \<Rightarrow> int \<Rightarrow> ('d, rat \<times> int) dx" where
  "age_of_blocks [] total_age cnt = sx_ret (total_age, cnt)"
| "age_of_blocks (b # bs) total_age cnt =
     sx_bind (deref b) (\<lambda>blk. sx_bind (get_BlockPool (b_pool blk)) (\<lambda>bp.
     if \<not> is_split blk then age_of_blocks bs (total_age + of_nat (gc_count bp blk)) (cnt + 1)
     else age_of_blocks bs total_age cnt))"

record gc_state =
  block_freed :: bool
  gc_reclaimed :: nat
  gc_total_age :: rat
  freeable_block_count :: int

fun gc_pass :: "'d env \<Rightarrow> nat option \<Rightarrow> rat \<Rightarrow> nat list \<Rightarrow> gc_state \<Rightarrow> ('d, gc_state) dx" where
  "gc_pass V ctx age_threshold [] g = sx_ret g"
| "gc_pass V ctx age_threshold (b # bs) g =
     sx_bind (deref b) (\<lambda>blk. sx_bind (get_BlockPool (b_pool blk)) (\<lambda>bp.
     if \<not> is_split blk \<and> expandable_segment blk = None \<and> age_threshold \<le> of_nat (gc_count bp blk) then
       sx_seq (release_block V b ctx)
       (gc_pass V ctx age_threshold bs
         \<lparr>block_freed = True, gc_reclaimed = gc_reclaimed g + b_size blk,
          gc_total_age = gc_total_age g - of_nat (gc_count bp blk),
          freeable_block_count = freeable_block_count g - 1\<rparr>)
     else gc_pass V ctx age_threshold bs g))"

text \<open>Every round but the last frees a block, so the number of blocks bounds the rounds.\<close>

fun gc_loop :: "'d env \<Rightarrow> nat \<Rightarrow> nat option \<Rightarrow> nat \<Rightarrow> gc_state \<Rightarrow> ('d, unit) dx" where
  "gc_loop V fuel ctx target g =
     (if gc_reclaimed g < target \<and> block_freed g \<and> 0 < freeable_block_count g then
        (case fuel of 0 \<Rightarrow> sx_throw LoopBound | Suc f \<Rightarrow>
          let age_threshold = gc_total_age g / of_int (freeable_block_count g) in
          sx_bind (get_BlockPool (Global False)) (\<lambda>bp.
          sx_bind (gc_pass V ctx age_threshold (blocks bp) (g\<lparr>block_freed := False\<rparr>)) (\<lambda>g'.
          gc_loop V f ctx target g')))
      else sx_ret ())"

declare gc_loop.simps [simp del]

definition garbage_collect_cached_blocks :: "'d env \<Rightarrow> nat option \<Rightarrow> ('d, unit) dx" where
  "garbage_collect_cached_blocks V ctx =
     sx_bind (sx_get (\<lambda>s. s)) (\<lambda>s.
     let gc_threshold = nat \<lfloor>m_garbage_collection_threshold (Cfg V) * of_nat (allowed_memory_maximum s)\<rfloor> in
     if total_allocated_memory s \<le> gc_threshold then sx_ret ()
     else
       let target = total_allocated_memory s - gc_threshold in
       sx_bind (get_BlockPool (Global False)) (\<lambda>bp.
       sx_bind (age_of_blocks (blocks bp) 0 0) (\<lambda>(total_age, cnt).
       if cnt = 0 then sx_ret ()
       else gc_loop V (Suc (length (blocks bp))) ctx target
         \<lparr>block_freed = True, gc_reclaimed = 0, gc_total_age = total_age, freeable_block_count = cnt\<rparr>)))"

text \<open>The backwards loop of \<^verbatim>\<open>release_available_cached_blocks\<close>, over the blocks before the iterator.\<close>

fun release_oversize :: "'d env \<Rightarrow> nat option \<Rightarrow> nat \<Rightarrow> nat \<Rightarrow> nat \<Rightarrow> nat list \<Rightarrow> ('d, nat) dx" where
  "release_oversize V ctx st key_size totalReleased [] = sx_ret totalReleased"
| "release_oversize V ctx st key_size totalReleased (cur # before) =
     sx_bind (deref cur) (\<lambda>blk.
     if totalReleased < key_size \<and> m_max_split_size (Cfg V) \<le> b_size blk \<and> b_stream blk = st then
       (if expandable_segment blk = None then
          sx_seq (release_block V cur ctx)
          (release_oversize V ctx st key_size (totalReleased + b_size blk) before)
        else release_oversize V ctx st key_size totalReleased before)
     else sx_ret totalReleased)"

definition release_available_cached_blocks :: "'d env \<Rightarrow> AllocParams \<Rightarrow> nat option \<Rightarrow> ('d, bool) dx" where
  "release_available_cached_blocks V p ctx =
     (if m_max_split_size (Cfg V) = size_max then sx_ret False
      else
        let key_size = (if p_size p < m_max_split_size (Cfg V) then m_max_split_size (Cfg V) else p_size p) in
        sx_bind (get_BlockPool (p_pool p)) (\<lambda>bp. sx_bind (sx_get heap) (\<lambda>h.
        let key = (p_stream p, key_size, 0);
            it = set_lower_bound BlockComparatorSize (bkey h) key (blocks bp);
            before = set_before BlockComparatorSize (bkey h) key (blocks bp) in
        sx_bind (case it of [] \<Rightarrow> sx_ret None | b # _ \<Rightarrow> sx_bind (deref b) (\<lambda>blk.
          sx_ret (if b_stream blk \<noteq> p_stream p \<or> expandable_segment blk \<noteq> None then None else Some b)))
        (\<lambda>found. case found of
          None \<Rightarrow> if before = [] then sx_ret False
            else sx_bind (release_oversize V ctx (p_stream p) key_size 0 (rev before)) (\<lambda>totalReleased.
              sx_ret (\<not> totalReleased < key_size))
        | Some b \<Rightarrow> sx_seq (release_block V b ctx) (sx_ret True)))))"

section \<open>Events\<close>

text \<open>The queue of a stream in \<^verbatim>\<open>supa_events\<close>; adding to it creates it, an empty one is erased.\<close>

definition push_event :: "stream_ref \<Rightarrow> nat \<times> nat \<Rightarrow> (stream_ref \<times> (nat \<times> nat) list) list \<Rightarrow>
    (stream_ref \<times> (nat \<times> nat) list) list" where
  "push_event st e evs =
     (if st \<in> fst ` set evs then map (\<lambda>(k, q). if k = st then (k, q @ [e]) else (k, q)) evs
      else evs @ [(st, [e])])"

definition set_queue :: "stream_ref \<Rightarrow> (nat \<times> nat) list \<Rightarrow> ('d, unit) dx" where
  "set_queue st q = sx_mod (\<lambda>s. s\<lparr>supa_events :=
     map (\<lambda>(k, q'). if k = st then (k, q) else (k, q')) (supa_events s)\<rparr>)"

definition erase_queue :: "stream_ref \<Rightarrow> ('d, unit) dx" where
  "erase_queue st = sx_mod (\<lambda>s. s\<lparr>supa_events := filter (\<lambda>(k, q). k \<noteq> st) (supa_events s)\<rparr>)"

definition insert_events :: "'d env \<Rightarrow> nat \<Rightarrow> ('d, unit) dx" where
  "insert_events V b =
     sx_bind (on_drv (GetDevice (Drv V))) (\<lambda>(err, prev_device).
     sx_seq (check_err err)
     (sx_bind (deref b) (\<lambda>blk.
      sx_seq (setb b (\<lambda>x. x\<lparr>stream_uses := []\<rparr>))
      (sx_seq (sx_for (stream_uses blk) (\<lambda>st.
         sx_seq (sx_bind (on_drv (SetDevice (Drv V) (stream_device st) False)) check_err)
         (sx_bind (on_drv (EventPool_get (Drv V) (stream_device st))) (\<lambda>event.
          sx_seq (on_drv (supa_check (supaEventRecord (Drv V) event (stream_handle st))))
          (sx_seq (setb b (\<lambda>x. x\<lparr>event_count := event_count x + 1\<rparr>))
          (sx_mod (\<lambda>s. s\<lparr>supa_events := push_event st (event, b) (supa_events s)\<rparr>)))))))
      (sx_bind (on_drv (MaybeSetDevice (Drv V) prev_device)) check_err)))))"

definition remove_supagraph_stream_uses :: "nat \<Rightarrow> ('d, unit) dx" where
  "remove_supagraph_stream_uses b =
     sx_bind (sx_get block_to_supagraph_stream_uses) (\<lambda>m. case m b of None \<Rightarrow> sx_ret ()
     | Some graph_uses \<Rightarrow>
         sx_seq (setb b (\<lambda>x. x\<lparr>stream_uses := filter (\<lambda>st. st \<notin> set graph_uses) (stream_uses x)\<rparr>))
         (sx_mod (\<lambda>s. s\<lparr>block_to_supagraph_stream_uses := m(b := None)\<rparr>)))"

definition insert_events_deferred_until_no_capture :: "'d env \<Rightarrow> nat option \<Rightarrow> ('d, unit) dx" where
  "insert_events_deferred_until_no_capture V ctx =
     sx_bind (sx_get needs_events_deferred) (\<lambda>bs.
     sx_seq (sx_for bs (\<lambda>b.
       sx_bind (deref b) (\<lambda>blk.
       sx_seq (sx_check (stream_uses blk \<noteq> []) (InternalAssert ''!block->stream_uses.empty()''))
       (sx_seq (remove_supagraph_stream_uses b)
       (sx_seq (insert_events V b)
       (sx_bind (deref b) (\<lambda>blk'. sx_when (event_count blk' = 0) (free_block b ctx))))))))
     (sx_mod (\<lambda>s. s\<lparr>needs_events_deferred := []\<rparr>)))"

text \<open>An event of the block is done; the last one frees the block.\<close>

definition event_done :: "nat \<Rightarrow> nat option \<Rightarrow> ('d, unit) dx" where
  "event_done b ctx =
     sx_seq (setb b (\<lambda>x. x\<lparr>event_count := event_count x - 1\<rparr>))
     (sx_bind (deref b) (\<lambda>blk. sx_when (event_count blk = 0) (free_block b ctx)))"

fun process_queue :: "'d env \<Rightarrow> nat option \<Rightarrow> stream_ref \<Rightarrow> (nat \<times> nat) list \<Rightarrow> ('d, unit) dx" where
  "process_queue V ctx st [] = erase_queue st"
| "process_queue V ctx st ((event, b) # q) =
     sx_bind (on_drv (drv_call (supaEventQuery (Drv V) event))) (\<lambda>err.
     if err = supaErrorNotReady then
       sx_bind (on_drv (drv_call (supaGetLastError (Drv V)))) (\<lambda>_. sx_ret ())
     else
       sx_seq (check_err err)
       (sx_seq (event_done b ctx)
       (sx_seq (set_queue st q)
       (sx_seq (on_drv (Event_release (stream_device st) event))
       (process_queue V ctx st q)))))"

definition process_events :: "'d env \<Rightarrow> nat option \<Rightarrow> ('d, unit) dx" where
  "process_events V ctx =
     sx_seq (insert_events_deferred_until_no_capture V ctx)
     (sx_bind (sx_get supa_events) (\<lambda>evs. sx_for evs (\<lambda>(st, q). process_queue V ctx st q)))"

text \<open>
  The inner loop of \<^verbatim>\<open>synchronize_and_free_events\<close>: \<open>kept\<close> are the events of other pools it has passed.
\<close>

fun sync_queue :: "'d env \<Rightarrow> nat option \<Rightarrow> mempool_id option \<Rightarrow> stream_ref \<Rightarrow> (nat \<times> nat) list \<Rightarrow>
    (nat \<times> nat) list \<Rightarrow> ('d, unit) dx" where
  "sync_queue V ctx pool st kept [] = (if kept = [] then erase_queue st else sx_ret ())"
| "sync_queue V ctx pool st kept ((event, b) # q) =
     sx_bind (deref b) (\<lambda>blk.
     if pool \<noteq> None \<and> owner_PrivatePool (b_pool blk) \<noteq> pool
     then sync_queue V ctx pool st (kept @ [(event, b)]) q
     else
       sx_seq (on_drv (supa_check (supaEventSynchronize (Drv V) event)))
       (sx_seq (event_done b ctx)
       (sx_seq (set_queue st (kept @ q))
       (sx_seq (on_drv (Event_release (stream_device st) event))
       (sync_queue V ctx pool st kept q)))))"

definition synchronize_and_free_events :: "'d env \<Rightarrow> nat option \<Rightarrow> mempool_id option \<Rightarrow> ('d, unit) dx" where
  "synchronize_and_free_events V ctx pool =
     sx_seq (on_stats (sx_mod (\<lambda>d. d\<lparr>num_sync_all_streams := num_sync_all_streams d + 1\<rparr>)))
     (sx_bind (sx_get captures_underway) (\<lambda>cs.
      sx_seq (sx_check (cs = []) (InternalAssert ''captures_underway.empty()''))
      (sx_seq (insert_events_deferred_until_no_capture V ctx)
      (sx_bind (sx_get supa_events) (\<lambda>evs.
       sx_for evs (\<lambda>(st, q). sync_queue V ctx pool st [] q))))))"

section \<open>Releasing the cache\<close>

fun release_freeable :: "'d env \<Rightarrow> nat option \<Rightarrow> mempool_id \<Rightarrow> mempool_id list \<Rightarrow> ('d, unit) dx" where
  "release_freeable V ctx mempool [] = sx_ret ()"
| "release_freeable V ctx mempool (i # is) =
     (if mempool \<noteq> (0, 0) \<and> i \<noteq> mempool then release_freeable V ctx mempool is
      else
        sx_seq (sx_when (mempool \<noteq> (0, 0)) (synchronize_and_free_events V ctx (Some i)))
        (sx_bind (deref_private_pool i) (\<lambda>pp.
         sx_seq (sx_check (use_count pp = 0) (InternalAssert ''it->second->use_count == 0''))
         (sx_seq (release_blocks V (Private i True) ctx)
         (sx_seq (release_blocks V (Private i False) ctx)
         (sx_bind (deref_private_pool i) (\<lambda>pp'.
          sx_seq (sx_when (supaMalloc_count pp' = 0)
            (sx_mod (\<lambda>s. s\<lparr>graph_pools := filter (\<lambda>(k, pp). k \<noteq> i) (graph_pools s),
               graph_pools_freeable := filter (\<lambda>k. k \<noteq> i) (graph_pools_freeable s)\<rparr>)))
          (release_freeable V ctx mempool is))))))))"

definition release_cached_blocks :: "'d env \<Rightarrow> nat option \<Rightarrow> mempool_id \<Rightarrow> ('d, bool) dx" where
  "release_cached_blocks V ctx mempool =
     (let mempool = (case ActiveMemPool V of Some (i, a) \<Rightarrow> i | None \<Rightarrow> mempool) in
      sx_bind (sx_get captures_underway) (\<lambda>cs.
      sx_seq (sx_when (mempool = (0, 0) \<and> cs = [])
        (sx_seq (synchronize_and_free_events V ctx None)
        (sx_seq (release_blocks V (Global False) ctx)
        (release_blocks V (Global True) ctx))))
      (sx_bind (sx_get graph_pools_freeable) (\<lambda>fs.
       sx_seq (release_freeable V ctx mempool fs) (sx_ret True)))))"

end
