(* ===== verification/Device_Api.thy ===== *)
theory Device_Api
  imports Device_Allocator
begin

text \<open>
  The public operations of \<^verbatim>\<open>DeviceCachingAllocator\<close> in \<^verbatim>\<open>core/supa/SUPACachingAllocator.cpp\<close>:
  allocation and free, the queries, private pools and captures, checkpointing of private pools, the
  snapshot and the trace.
\<close>

section \<open>Allocation\<close>

definition split_stats :: "StatTypes \<Rightarrow> bool \<Rightarrow> nat \<Rightarrow> nat \<Rightarrow> ('d, unit) dx" where
  "split_stats stat_types already_split block_size remaining_size =
     (if already_split then
        on_stats (sx_field inactive_split_bytes inactive_split_bytes_update
          (update_stat_array (- int block_size) stat_types))
      else on_stats (for_each_selected_stat_type stat_types (\<lambda>st.
        sx_seq (upd_stat inactive_split_bytes inactive_split_bytes_update st (int remaining_size))
        (upd_stat inactive_split inactive_split_update st 1))))"

definition unsplit_stats :: "StatTypes \<Rightarrow> nat \<Rightarrow> ('d, unit) dx" where
  "unsplit_stats stat_types block_size =
     on_stats (for_each_selected_stat_type stat_types (\<lambda>st.
       sx_seq (upd_stat inactive_split_bytes inactive_split_bytes_update st (- int block_size))
       (upd_stat inactive_split inactive_split_update st (-1))))"

definition alloc_stats :: "'d env \<Rightarrow> StatTypes \<Rightarrow> nat \<Rightarrow> nat \<Rightarrow> ('d, unit) dx" where
  "alloc_stats V stat_types block_size req =
     sx_seq (on_stats (for_each_selected_stat_type stat_types (\<lambda>st.
       sx_seq (upd_stat allocation allocation_update st 1)
       (sx_seq (upd_stat allocated_bytes allocated_bytes_update st (int block_size))
       (sx_seq (upd_stat active active_update st 1)
       (sx_seq (upd_stat active_bytes active_bytes_update st (int block_size))
       (upd_stat requested_bytes requested_bytes_update st (int req))))))))
     (sx_when (m_max_split_size (Cfg V) \<le> block_size)
       (on_stats (sx_field oversize_allocations oversize_allocations_update (update_stat 1))))"

text \<open>
  The split: a new block takes the front of \<open>remaining\<close>, which shrinks and goes back to the pool.
\<close>

definition split_block :: "AllocParams \<Rightarrow> nat \<Rightarrow> ('d, nat) dx" where
  "split_block p remaining =
     sx_bind (deref remaining) (\<lambda>rb.
     sx_bind (new_block ((Block_ctor (p_device p) (p_stream p) (p_size p) (p_pool p) (b_ptr rb))
         \<lparr>expandable_segment := expandable_segment rb, b_prev := b_prev rb\<rparr>)) (\<lambda>b.
     sx_seq (case b_prev rb of None \<Rightarrow> sx_ret () | Some q \<Rightarrow> setb q (\<lambda>x. x\<lparr>b_next := Some b\<rparr>))
     (sx_seq (setb b (\<lambda>x. x\<lparr>b_next := Some remaining\<rparr>))
     (sx_seq (setb remaining (\<lambda>x. x\<lparr>b_prev := Some b, b_ptr := b_ptr x + p_size p, b_size := b_size x - p_size p\<rparr>))
     (sx_bind (insert_into_blocks (p_pool p) remaining) (\<lambda>_. sx_ret b))))))"

definition alloc_found_block ::
  "'d env \<Rightarrow> AllocParams \<Rightarrow> nat \<Rightarrow> nat option \<Rightarrow> bool \<Rightarrow> ('d, nat) dx" where
  "alloc_found_block V p orig_size ctx split_remainder =
     (case p_block p of None \<Rightarrow> sx_throw (InternalAssert ''params.block != nullptr'')
      | Some fb \<Rightarrow> sx_bind (deref fb) (\<lambda>fblk.
        sx_seq (sx_check (p_err p = supaSuccess \<and> b_ptr fblk \<noteq> 0)
          (InternalAssert ''params.err == supaSuccess && params.block->ptr != nullptr''))
        (let already_split = is_split fblk; plain = (expandable_segment fblk = None) in
         sx_bind (if split_remainder then
             sx_bind (split_block p fb) (\<lambda>b.
             sx_seq (sx_when plain (split_stats (p_stat_types p) already_split (p_size p) (b_size fblk - p_size p)))
             (sx_ret b))
           else sx_seq (sx_when (already_split \<and> plain) (unsplit_stats (p_stat_types p) (b_size fblk)))
             (sx_ret fb)) (\<lambda>b.
         sx_seq (setb b (\<lambda>x. x\<lparr>allocated := True, requested_size := orig_size, context_when_allocated := ctx\<rparr>))
         (sx_bind (deref b) (\<lambda>blk.
          sx_seq (record_trace ALLOC (int (b_ptr blk)) orig_size (b_stream blk) (b_device blk)
            (owner_MempoolId (b_pool blk)) (context_when_allocated blk))
          (sx_seq (sx_mod (\<lambda>s. s\<lparr>active_blocks :=
             (if b \<in> set (active_blocks s) then active_blocks s else active_blocks s @ [b])\<rparr>))
          (sx_seq (alloc_stats V (p_stat_types p) (b_size blk) orig_size)
          (sx_ret b)))))))))"

text \<open>The report of an allocation that failed after every attempt to make room.\<close>

definition out_of_memory :: "'d env \<Rightarrow> AllocParams \<Rightarrow> nat option \<Rightarrow> ('d, 'a) dx" where
  "out_of_memory V p ctx =
     sx_seq (sx_check (p_err p = supaErrorMemoryAllocation) (InternalAssert ''params.err == supaErrorMemoryAllocation''))
     (sx_bind (on_drv (supa_check_out (supaMemGetInfo (Drv V)))) (\<lambda>(device_free, device_total).
      sx_seq (record_trace OOM (int device_free) (p_size p) (p_stream p) (p_device p)
        (owner_MempoolId (p_pool p)) ctx)
      (sx_seq (on_stats (sx_mod (\<lambda>d. d\<lparr>num_ooms := num_ooms d + 1\<rparr>)))
      (sx_throw OutOfMemoryError))))"

text \<open>The search for a block: the cache, then the driver, releasing cached memory in between.\<close>

definition search_cache :: "'d env \<Rightarrow> AllocParams \<Rightarrow> ('d, bool \<times> AllocParams) dx" where
  "search_cache V p =
     sx_bind (get_free_block V p) (\<lambda>(found, p).
     if found then sx_ret (True, p)
     else sx_bind (trigger_free_memory_callbacks V) (\<lambda>freed.
       if freed then get_free_block V p else sx_ret (False, p)))"

definition obtain_block :: "'d env \<Rightarrow> AllocParams \<Rightarrow> nat option \<Rightarrow> ('d, bool \<times> AllocParams) dx" where
  "obtain_block V p ctx =
     sx_bind (alloc_block V p False ctx) (\<lambda>(found, p).
     if found then sx_ret (True, p)
     else sx_bind (release_available_cached_blocks V p ctx) (\<lambda>released.
       sx_bind (if released then alloc_block V p False ctx else sx_ret (False, p)) (\<lambda>(found, p).
       if found then sx_ret (True, p)
       else sx_bind (sx_get captures_underway) (\<lambda>cs.
         if cs = [] then
           sx_bind (release_cached_blocks V ctx (0, 0)) (\<lambda>released.
           if released then alloc_block V p True ctx else sx_ret (False, p))
         else sx_ret (False, p)))))"

definition device_malloc :: "'d env \<Rightarrow> int \<Rightarrow> nat \<Rightarrow> nat \<Rightarrow> ('d, nat) dx" where
  "device_malloc V dev orig_size st =
     sx_bind (maybeGatherContext RC_STATE) (\<lambda>ctx.
     sx_bind (sx_get captures_underway) (\<lambda>cs.
     sx_seq (sx_when (cs = []) (process_events V ctx))
     (sx_bind (sx_lift (round_size (Lib V) (Cfg V) orig_size)) (\<lambda>sz.
      sx_bind (get_pool sz st) (\<lambda>pool.
      let p = (AllocParams_ctor dev sz st pool (get_allocation_size sz))
            \<lparr>p_stat_types := get_stat_types_for_pool pool\<rparr> in
      sx_bind (search_cache V p) (\<lambda>(found, p).
      sx_bind (if found then sx_ret (True, p)
        else sx_bind (sx_get (gc_enabled V)) (\<lambda>gc.
          sx_seq (sx_when gc (garbage_collect_cached_blocks V ctx)) (obtain_block V p ctx))) (\<lambda>(found, p).
      if \<not> found then out_of_memory V p ctx
      else (case p_block p of None \<Rightarrow> sx_throw UseAfterFree | Some b \<Rightarrow>
        sx_bind (deref b) (\<lambda>blk.
        alloc_found_block V p orig_size ctx (should_split V blk (p_size p)))))))))))"

section \<open>Free and use on other streams\<close>

definition free_stats :: "'d env \<Rightarrow> pool_ref \<Rightarrow> nat \<Rightarrow> ('d, unit) dx" where
  "free_stats V pool sz =
     on_stats (for_each_selected_stat_type (get_stat_types_for_pool pool) (\<lambda>st.
       sx_seq (upd_stat allocation allocation_update st (-1))
       (upd_stat allocated_bytes allocated_bytes_update st (- int sz))))"

definition device_free :: "'d env \<Rightarrow> nat \<Rightarrow> ('d, unit) dx" where
  "device_free V b =
     sx_bind (maybeGatherContext RC_ALL) (\<lambda>ctx.
     sx_seq (setb b (\<lambda>x. x\<lparr>allocated := False\<rparr>))
     (sx_bind (deref b) (\<lambda>blk.
      sx_seq (free_stats V (b_pool blk) (b_size blk))
      (sx_seq (record_trace FREE_REQUESTED (int (b_ptr blk)) (requested_size blk) (b_stream blk)
         (b_device blk) (owner_MempoolId (b_pool blk)) (if ctx \<noteq> None then ctx else context_when_allocated blk))
      (sx_seq (sx_when (m_max_split_size (Cfg V) \<le> b_size blk)
         (on_stats (sx_field oversize_allocations oversize_allocations_update (update_stat (-1)))))
      (if stream_uses blk \<noteq> [] then
         sx_bind (sx_get captures_underway) (\<lambda>cs.
         if cs \<noteq> [] then sx_mod (\<lambda>s. s\<lparr>needs_events_deferred := needs_events_deferred s @ [b]\<rparr>)
         else insert_events V b)
       else free_block b ctx))))))"

definition recordStream :: "nat \<Rightarrow> stream_ref \<Rightarrow> ('d, unit) dx" where
  "recordStream b st =
     sx_bind (deref b) (\<lambda>blk.
     if stream_handle st = b_stream blk then sx_ret ()
     else setb b (\<lambda>x. x\<lparr>stream_uses := (if st \<in> set (stream_uses x) then stream_uses x else stream_uses x @ [st])\<rparr>))"

section \<open>The segment of a block\<close>

text \<open>The walks along the neighbours; a chain has at most as many blocks as were ever created.\<close>

fun walk_prev :: "nat \<Rightarrow> nat \<Rightarrow> ('d, nat) dx" where
  "walk_prev fuel b = sx_bind (deref b) (\<lambda>blk. case b_prev blk of None \<Rightarrow> sx_ret b
     | Some q \<Rightarrow> (case fuel of 0 \<Rightarrow> sx_throw LoopBound | Suc f \<Rightarrow> walk_prev f q))"

fun walk_size :: "nat \<Rightarrow> nat option \<Rightarrow> nat \<Rightarrow> ('d, nat) dx" where
  "walk_size fuel b sz = (case b of None \<Rightarrow> sx_ret sz | Some x \<Rightarrow>
     (case fuel of 0 \<Rightarrow> sx_throw LoopBound | Suc f \<Rightarrow>
       sx_bind (deref x) (\<lambda>blk. walk_size f (b_next blk) (sz + b_size blk))))"

declare walk_prev.simps [simp del]
declare walk_size.simps [simp del]

definition getBaseAllocation :: "nat \<Rightarrow> ('d, nat \<times> nat) dx" where
  "getBaseAllocation b =
     sx_bind (deref b) (\<lambda>blk.
     sx_seq (sx_check (expandable_segment blk = None)
       (TorchCheck ''Tensors allocated with expandable_segments:True cannot be shared between processes''))
     (sx_bind (sx_get next_block) (\<lambda>n.
      sx_bind (walk_prev n b) (\<lambda>base. sx_bind (deref base) (\<lambda>bb.
      sx_bind (walk_size n (Some base) 0) (\<lambda>sz. sx_ret (b_ptr bb, sz)))))))"

datatype ShareableHandle =
    SHAREABLE_SUPA_MALLOC string
  | SHAREABLE_SUPA_EXPANDABLE_SEGMENT share_buf

definition shareIpcHandle :: "'d env \<Rightarrow> nat \<Rightarrow> ('d, nat \<times> ShareableHandle) dx" where
  "shareIpcHandle V b =
     sx_bind (deref b) (\<lambda>blk.
     if expandable_segment blk = None then
       sx_bind (sx_get next_block) (\<lambda>n. sx_bind (walk_prev n b) (\<lambda>base. sx_bind (deref base) (\<lambda>bb.
       sx_bind (on_drv (supa_check_out (supaIpcGetMemHandle (Drv V) (b_ptr bb)))) (\<lambda>h.
       sx_ret (b_ptr blk - b_ptr bb, SHAREABLE_SUPA_MALLOC h)))))
     else
       sx_bind (on_segment (expandable_segment blk) (es_share (Drv V) (b_ptr blk, b_size blk))) (\<lambda>(full_range, buf).
       sx_ret (b_ptr blk - fst full_range, SHAREABLE_SUPA_EXPANDABLE_SEGMENT buf)))"

section \<open>Limits and queries\<close>

definition getMemoryFraction :: "'d env \<Rightarrow> ('d, rat) dx" where
  "getMemoryFraction V = sx_bind (sx_get (\<lambda>s. s)) (\<lambda>s.
     if \<not> set_fraction s then sx_ret 1
     else sx_bind (on_drv (supa_check_out (supaMemGetInfo (Drv V)))) (\<lambda>(device_free, device_total).
       sx_ret (of_nat (allowed_memory_maximum s) / of_nat device_total)))"

definition setMemoryFraction :: "'d env \<Rightarrow> rat \<Rightarrow> ('d, unit) dx" where
  "setMemoryFraction V fraction =
     sx_bind (on_drv (supa_check_out (supaMemGetInfo (Drv V)))) (\<lambda>(device_free, device_total).
     sx_mod (\<lambda>s. s\<lparr>allowed_memory_maximum := nat \<lfloor>fraction * of_nat device_total\<rfloor>, set_fraction := True\<rparr>))"

definition emptyCache :: "'d env \<Rightarrow> mempool_id \<Rightarrow> ('d, unit) dx" where
  "emptyCache V mempool =
     sx_bind (maybeGatherContext RC_ALL) (\<lambda>ctx.
     sx_bind (release_cached_blocks V ctx mempool) (\<lambda>_. sx_ret ()))"

fun cache_info_aux :: "nat list \<Rightarrow> nat \<Rightarrow> ('d, nat) dx" where
  "cache_info_aux [] largest = sx_ret largest"
| "cache_info_aux (b # bs) largest =
     sx_bind (deref b) (\<lambda>blk. cache_info_aux bs (if largest < b_size blk then b_size blk else largest))"

definition private_pool_refs :: "(mempool_id \<times> PrivatePool) list \<Rightarrow> pool_ref list" where
  "private_pool_refs gps = concat (map (\<lambda>(i, pp). [Private i False, Private i True]) gps)"

definition cacheInfo :: "'d env \<Rightarrow> nat \<Rightarrow> ('d, nat) dx" where
  "cacheInfo V largest =
     sx_bind (if largest = 0 then
         sx_bind (on_drv (supa_check_out (supaMemGetInfo (Drv V)))) (\<lambda>(device_free, tmp_bytes). sx_ret device_free)
       else sx_ret largest) (\<lambda>largest.
     sx_bind (sx_get (\<lambda>s. s)) (\<lambda>s.
     cache_info_aux (concat (map (\<lambda>p. blocks (pools s p))
       ([Global False, Global True] @ private_pool_refs (graph_pools s)))) largest))"

definition getStats :: "('d, DeviceStats) dx" where
  "getStats = sx_get stats"

definition get_all_blocks :: "'d dca \<Rightarrow> nat list" where
  "get_all_blocks s =
     blocks (pools s (Global True)) @ blocks (pools s (Global False))
     @ concat (map (\<lambda>(i, pp). blocks (pools s (Private i True)) @ blocks (pools s (Private i False))) (graph_pools s))
     @ active_blocks s"

fun filter_blocks :: "(Block \<Rightarrow> bool) \<Rightarrow> nat list \<Rightarrow> ('d, nat list) dx" where
  "filter_blocks P [] = sx_ret []"
| "filter_blocks P (b # bs) = sx_bind (deref b) (\<lambda>blk. sx_bind (filter_blocks P bs) (\<lambda>r.
     sx_ret (if P blk then b # r else r)))"

definition get_private_pool_head_blocks :: "mempool_id \<Rightarrow> ('d, nat list) dx" where
  "get_private_pool_head_blocks i =
     sx_bind (sx_get active_blocks) (\<lambda>act.
     sx_bind (get_BlockPool (Private i True)) (\<lambda>small. sx_bind (get_BlockPool (Private i False)) (\<lambda>large.
     sx_bind (filter_blocks (\<lambda>b. (b_pool b = Private i True \<or> b_pool b = Private i False) \<and> b_prev b = None) act) (\<lambda>r1.
     sx_bind (filter_blocks (\<lambda>b. b_prev b = None) (blocks small)) (\<lambda>r2.
     sx_bind (filter_blocks (\<lambda>b. b_prev b = None) (blocks large)) (\<lambda>r3.
     sx_ret (r1 @ r2 @ r3)))))))"

fun count_live :: "mempool_id \<Rightarrow> nat list \<Rightarrow> nat list \<Rightarrow> nat \<Rightarrow> ('d, nat option) dx" where
  "count_live i expected [] n = sx_ret (Some n)"
| "count_live i expected (b # bs) n = sx_bind (deref b) (\<lambda>blk.
     if allocated blk \<and> owner_PrivatePool (b_pool blk) = Some i then
       (if b_ptr blk \<notin> set expected then sx_ret None else count_live i expected bs (Suc n))
     else count_live i expected bs n)"

definition checkPoolLiveAllocations :: "mempool_id \<Rightarrow> nat list \<Rightarrow> ('d, bool) dx" where
  "checkPoolLiveAllocations i expected =
     sx_bind (sx_get graph_pools) (\<lambda>gps.
     sx_seq (sx_check (i \<in> fst ` set gps) (TorchCheck ''Could not find pool of id''))
     (sx_bind (sx_get active_blocks) (\<lambda>act.
      sx_bind (count_live i expected act 0) (\<lambda>r. case r of None \<Rightarrow> sx_ret False
      | Some n \<Rightarrow> sx_ret (n = length (remdups expected))))))"

section \<open>Private pools and captures\<close>

definition createOrIncrefPool :: "mempool_id \<Rightarrow> nat option \<Rightarrow> ('d, unit) dx" where
  "createOrIncrefPool i a = create_or_incref_pool i a"

definition ensureExistsAndIncrefPool :: "mempool_id \<Rightarrow> ('d, unit) dx" where
  "ensureExistsAndIncrefPool i = create_or_incref_pool i None"

definition setUseOnOOM :: "mempool_id \<Rightarrow> ('d, unit) dx" where
  "setUseOnOOM i = sx_mod (\<lambda>s. s\<lparr>use_on_oom_pools := List.insert i (use_on_oom_pools s)\<rparr>)"

definition setNoSplit :: "mempool_id \<Rightarrow> ('d, unit) dx" where
  "setNoSplit i = sx_mod (\<lambda>s. s\<lparr>no_split_pools := List.insert i (no_split_pools s)\<rparr>)"

definition beginAllocateToPool :: "mempool_id \<Rightarrow> (nat \<Rightarrow> bool) \<Rightarrow> ('d, unit) dx" where
  "beginAllocateToPool i flt =
     sx_seq (create_or_incref_pool i None)
     (sx_bind (sx_get captures_underway) (\<lambda>cs.
      sx_seq (sx_check (i \<notin> fst ` set cs) (TorchCheck ''beginAllocateToPool: already recording to mempool_id''))
      (sx_mod (\<lambda>s. s\<lparr>captures_underway := cs @ [(i, flt)]\<rparr>))))"

fun erase_capture :: "mempool_id \<Rightarrow> (mempool_id \<times> 'f) list \<Rightarrow> (mempool_id \<times> 'f) list option" where
  "erase_capture i [] = None"
| "erase_capture i (c # cs) = (if fst c = i then Some cs else map_option ((#) c) (erase_capture i cs))"

definition endAllocateToPool :: "mempool_id \<Rightarrow> ('d, unit) dx" where
  "endAllocateToPool i = sx_bind (sx_get captures_underway) (\<lambda>cs. case erase_capture i cs of
     None \<Rightarrow> sx_throw (TorchCheck ''endAllocatePool: not currently recording to mempool_id'')
   | Some cs' \<Rightarrow> sx_mod (\<lambda>s. s\<lparr>captures_underway := cs'\<rparr>))"

definition releasePool :: "mempool_id \<Rightarrow> ('d, unit) dx" where
  "releasePool i =
     sx_bind (get_private_pool i) (\<lambda>pp.
     sx_seq (upd_private_pool i (\<lambda>pp. pp\<lparr>use_count := use_count pp - 1\<rparr>))
     (let uc = use_count pp - 1 in
      sx_seq (sx_check (0 \<le> uc) (InternalAssert ''uc >= 0''))
      (if uc = 0 then
         sx_bind (sx_get graph_pools_freeable) (\<lambda>fs.
         sx_seq (sx_mod (\<lambda>s. s\<lparr>graph_pools_freeable := (if i \<in> set fs then fs else fs @ [i])\<rparr>))
         (sx_check (i \<notin> set fs) (InternalAssert ''inserted'')))
       else sx_ret ())))"

definition getPoolUseCount :: "mempool_id \<Rightarrow> ('d, int) dx" where
  "getPoolUseCount i = sx_bind (get_private_pool i) (\<lambda>pp. sx_ret (use_count pp))"

definition addPeerAccess :: "'d env \<Rightarrow> int \<Rightarrow> ('d, unit) dx" where
  "addPeerAccess V dev = sx_bind (sx_get (\<lambda>s. s)) (\<lambda>s.
     if dev \<in> set (devices_with_peer_access s) then sx_ret ()
     else sx_seq (sx_mod (\<lambda>s. s\<lparr>devices_with_peer_access := devices_with_peer_access s @ [dev]\<rparr>))
       (sx_for (expandable_segments s) (\<lambda>i. on_segment (Some i) (addPeer (Drv V) dev))))"

definition hasAllocatedExpandableSegments :: "('d, bool) dx" where
  "hasAllocatedExpandableSegments = sx_get (\<lambda>s. expandable_segments s \<noteq> [])"

section \<open>History\<close>

definition recordHistory :: "bool \<Rightarrow> nat option \<Rightarrow> nat \<Rightarrow> RecordContext \<Rightarrow> ('d, unit) dx" where
  "recordHistory enabled recorder max_entries when_level =
     sx_seq (sx_check (when_level = RC_NEVER \<or> recorder \<noteq> None) (TorchCheck ''when == RecordContext::NEVER || context_recorder''))
     (sx_seq (sx_mod (\<lambda>s. s\<lparr>record_history := enabled, context_recorder := (if enabled then recorder else None),
        alloc_trace_max_entries := max 1 max_entries,
        record_context := (if enabled then when_level else RC_NEVER)\<rparr>))
     (sx_when (\<not> enabled) (sx_mod (\<lambda>s. s\<lparr>alloc_trace_next := 0, alloc_trace := []\<rparr>))))"

definition isHistoryEnabled :: "('d, bool) dx" where
  "isHistoryEnabled = sx_get record_history"

definition attachOutOfMemoryObserver :: "nat \<Rightarrow> ('d, unit) dx" where
  "attachOutOfMemoryObserver obs = sx_mod (\<lambda>s. s\<lparr>oom_observers := oom_observers s @ [obs]\<rparr>)"

definition attachAllocatorTraceTracker :: "nat \<Rightarrow> ('d, unit) dx" where
  "attachAllocatorTraceTracker tracker = sx_mod (\<lambda>s. s\<lparr>trace_trackers := trace_trackers s @ [tracker]\<rparr>)"

text \<open>The entries from the oldest to the newest; the conversion of their time stamps is not modelled.\<close>

definition trace :: "('d, TraceEntry list) dx" where
  "trace = sx_get (\<lambda>s. drop (alloc_trace_next s) (alloc_trace s) @ take (alloc_trace_next s) (alloc_trace s))"

end
