(* ===== verification/Device_Checkpoint.thy ===== *)
theory Device_Checkpoint
  imports Device_Api
begin

text \<open>
  Checkpoints of private pools and the memory snapshot of \<^verbatim>\<open>DeviceCachingAllocator\<close> in
  \<^verbatim>\<open>core/supa/SUPACachingAllocator.cpp\<close>: what a checkpoint stores, how it is taken and restored, and the
  description of all segments that \<^verbatim>\<open>snapshot\<close> returns.
\<close>

section \<open>Checkpoints\<close>

record BlockState =
  bs_device :: int
  bs_stream :: nat
  bs_stream_uses :: "stream_ref list"
  bs_size :: nat
  bs_ptr :: nat
  bs_allocated :: bool
  bs_gc_count_base :: int

text \<open>The constructor copies everything but the device, which keeps its default of 0.\<close>

definition BlockState_ctor :: "Block \<Rightarrow> ('d, BlockState) dx" where
  "BlockState_ctor b =
     sx_seq (sx_check (event_count b = 0) (TorchCheck ''Events should have synchronized when checkpointing block''))
     (sx_ret \<lparr>bs_device = 0, bs_stream = b_stream b, bs_stream_uses = stream_uses b, bs_size = b_size b,
        bs_ptr = b_ptr b, bs_allocated = allocated b, bs_gc_count_base = gc_count_base b\<rparr>)"

record SegmentState =
  ss_blocks :: "BlockState list"
  ss_is_small :: bool

fun chain_states :: "nat \<Rightarrow> nat option \<Rightarrow> ('d, BlockState list) dx" where
  "chain_states fuel b = (case b of None \<Rightarrow> sx_ret [] | Some x \<Rightarrow>
     (case fuel of 0 \<Rightarrow> sx_throw LoopBound | Suc f \<Rightarrow>
       sx_bind (deref x) (\<lambda>blk. sx_bind (BlockState_ctor blk) (\<lambda>bs.
       sx_bind (chain_states f (b_next blk)) (\<lambda>r. sx_ret (bs # r))))))"

declare chain_states.simps [simp del]

definition SegmentState_ctor :: "nat \<Rightarrow> ('d, SegmentState) dx" where
  "SegmentState_ctor head =
     sx_bind (deref head) (\<lambda>hb.
     sx_seq (sx_check (b_prev hb = None) (InternalAssert ''head->prev == nullptr && head->pool != nullptr''))
     (sx_bind (sx_get next_block) (\<lambda>n.
      sx_bind (chain_states n (Some head)) (\<lambda>bs.
      sx_ret \<lparr>ss_blocks = bs, ss_is_small = is_small (b_pool hb)\<rparr>))))"

record PrivatePoolState =
  owner_id :: mempool_id
  pps_segments :: "SegmentState list"

fun PrivatePoolState_segments :: "nat list \<Rightarrow> ('d, SegmentState list) dx" where
  "PrivatePoolState_segments [] = sx_ret []"
| "PrivatePoolState_segments (h # hs) =
     sx_bind (SegmentState_ctor h) (\<lambda>s. sx_bind (PrivatePoolState_segments hs) (\<lambda>r. sx_ret (s # r)))"

definition getCheckpointState :: "'d env \<Rightarrow> mempool_id \<Rightarrow> ('d, PrivatePoolState) dx" where
  "getCheckpointState V i =
     sx_bind (maybeGatherContext RC_ALL) (\<lambda>ctx.
     sx_seq (insert_events_deferred_until_no_capture V ctx)
     (sx_bind (sx_get (\<lambda>s. s)) (\<lambda>s.
      if i \<in> fst ` set (graph_pools s) then
        sx_bind (get_private_pool_head_blocks i) (\<lambda>heads.
        sx_bind (PrivatePoolState_segments heads) (\<lambda>segments.
        sx_ret \<lparr>owner_id = i, pps_segments = segments\<rparr>))
      else if i \<in> set (graph_pools_freeable s)
        then sx_throw (TorchCheck ''Not expected to checkpoint freeable graph'')
      else sx_throw (TorchCheck ''Could not find pool of id''))))"

text \<open>Freeing the allocated blocks of a chain; the result is the list of their addresses.\<close>

fun free_chain :: "'d env \<Rightarrow> nat \<Rightarrow> nat option \<Rightarrow> ('d, nat list) dx" where
  "free_chain V fuel cur = (case cur of None \<Rightarrow> sx_ret [] | Some x \<Rightarrow>
     (case fuel of 0 \<Rightarrow> sx_throw LoopBound | Suc f \<Rightarrow>
       sx_bind (deref x) (\<lambda>blk.
       sx_bind (if allocated blk then
           sx_seq (sx_check (event_count blk = 0)
             (TorchCheck ''Events should have synchronized when setting checkpointed block''))
           (sx_seq (device_free V x)
           (sx_bind (deref x) (\<lambda>blk'.
            sx_seq (sx_check (\<not> allocated blk') (TorchCheck ''!cur->allocated'')) (sx_ret [b_ptr blk]))))
         else sx_ret []) (\<lambda>freed_here.
       sx_bind (deref x) (\<lambda>blk2.
       sx_bind (free_chain V f (b_next blk2)) (\<lambda>r. sx_ret (freed_here @ r)))))))"

declare free_chain.simps [simp del]

fun check_chain_free :: "nat \<Rightarrow> nat option \<Rightarrow> ('d, unit) dx" where
  "check_chain_free fuel cur = (case cur of None \<Rightarrow> sx_ret () | Some x \<Rightarrow>
     (case fuel of 0 \<Rightarrow> sx_throw LoopBound | Suc f \<Rightarrow>
       sx_bind (deref x) (\<lambda>blk.
       sx_seq (sx_check (\<not> allocated blk) (TorchCheck ''!cur->allocated'')) (check_chain_free f (b_next blk)))))"

declare check_chain_free.simps [simp del]

fun free_chains :: "'d env \<Rightarrow> nat \<Rightarrow> nat list \<Rightarrow> ('d, nat list) dx" where
  "free_chains V fuel [] = sx_ret []"
| "free_chains V fuel (h # hs) =
     sx_bind (free_chain V fuel (Some h)) (\<lambda>r1. sx_bind (free_chains V fuel hs) (\<lambda>r2. sx_ret (r1 @ r2)))"

definition freeBlocksAllocatedToPool :: "'d env \<Rightarrow> mempool_id \<Rightarrow> ('d, nat list) dx" where
  "freeBlocksAllocatedToPool V i =
     sx_bind (get_private_pool_head_blocks i) (\<lambda>pool_blocks.
     sx_bind (filter_blocks (\<lambda>b. b_prev b = None) pool_blocks) (\<lambda>head_blocks.
     sx_bind (sx_get next_block) (\<lambda>n.
     sx_bind (free_chains V n head_blocks) (\<lambda>allocations_freed.
     sx_bind (get_private_pool_head_blocks i) (\<lambda>heads.
     sx_seq (sx_for heads (\<lambda>h. check_chain_free n (Some h)))
     (sx_ret allocations_freed))))))"

text \<open>
  Rebuilding a segment: the first loop allocates all the blocks of the checkpoint from the free block
  of the segment, the second frees those that were free.
\<close>

fun alloc_states ::
  "'d env \<Rightarrow> pool_ref \<Rightarrow> nat option \<Rightarrow> BlockState list \<Rightarrow> nat option \<Rightarrow> nat \<Rightarrow> ('d, nat) dx" where
  "alloc_states V pool ctx [] cur last_block = sx_ret last_block"
| "alloc_states V pool ctx (bs # rest) cur last_block =
     (case cur of None \<Rightarrow> sx_throw UseAfterFree | Some c \<Rightarrow>
        sx_seq (erase_from_blocks pool c)
        (let p = (AllocParams_ctor (bs_device bs) (bs_size bs) (bs_stream bs) pool (bs_size bs))
               \<lparr>p_block := Some c, p_stat_types := get_stat_types_for_pool pool\<rparr> in
        sx_bind (alloc_found_block V p (bs_size bs) ctx (rest \<noteq> [])) (\<lambda>b.
        sx_bind (deref b) (\<lambda>blk.
        sx_seq (sx_check (b_ptr blk = bs_ptr bs) (TorchCheck ''curr_block->ptr == block_state.ptr''))
        (sx_seq (sx_check (b_size blk = bs_size bs) (TorchCheck ''curr_block->size == block_state.size''))
        (sx_seq (sx_check ((b_next blk \<noteq> None) = (rest \<noteq> []))
           (TorchCheck ''(curr_block != nullptr) == ((i + 1) < (segment_len))''))
        (alloc_states V pool ctx rest (b_next blk) b)))))))"

fun free_states :: "'d env \<Rightarrow> BlockState list \<Rightarrow> nat option \<Rightarrow> ('d, nat list) dx" where
  "free_states V [] cur = sx_ret []"
| "free_states V (bs # rest) cur = (case cur of
       None \<Rightarrow> sx_throw (InternalAssert ''curr_block != nullptr'')
     | Some c \<Rightarrow>
         if bs_allocated bs then
           sx_bind (deref c) (\<lambda>blk. sx_bind (free_states V rest (b_next blk)) (\<lambda>r. sx_ret (c # r)))
         else
           sx_seq (device_free V c)
           (sx_bind (deref c) (\<lambda>blk.
            sx_seq (sx_check (b_ptr blk = bs_ptr bs) (TorchCheck ''curr_block->ptr == block_state.ptr''))
            (sx_seq (sx_check (allocated blk = bs_allocated bs) (TorchCheck ''curr_block->allocated == block_state.allocated''))
            (sx_seq (sx_check (b_size blk = bs_size bs) (TorchCheck ''curr_block->size == block_state.size''))
            (free_states V rest (b_next blk)))))))"

definition setSegmentStateToCheckpoint ::
  "'d env \<Rightarrow> nat \<Rightarrow> SegmentState \<Rightarrow> nat option \<Rightarrow> ('d, nat list) dx" where
  "setSegmentStateToCheckpoint V b segment_state ctx =
     sx_bind (deref b) (\<lambda>blk.
     sx_bind (alloc_states V (b_pool blk) ctx (ss_blocks segment_state) (Some b) b) (\<lambda>last_block.
     sx_bind (sx_get next_block) (\<lambda>n.
     sx_bind (walk_prev n last_block) (\<lambda>first.
     free_states V (ss_blocks segment_state) (Some first)))))"

text \<open>Every segment of the checkpoint is found by the address of its first block.\<close>

fun restore_segments :: "'d env \<Rightarrow> nat option \<Rightarrow> (nat \<Rightarrow> nat option) \<Rightarrow> SegmentState list \<Rightarrow> ('d, nat list) dx" where
  "restore_segments V ctx ptrs_to_blocks [] = sx_ret []"
| "restore_segments V ctx ptrs_to_blocks (seg # rest) = (case ss_blocks seg of
       [] \<Rightarrow> sx_throw StdOutOfRange
     | bs # _ \<Rightarrow> (case ptrs_to_blocks (bs_ptr bs) of
         None \<Rightarrow> sx_throw (TorchCheck '' could not find '')
       | Some b \<Rightarrow> sx_bind (setSegmentStateToCheckpoint V b seg ctx) (\<lambda>r1.
           sx_bind (restore_segments V ctx ptrs_to_blocks rest) (\<lambda>r2. sx_ret (r1 @ r2)))))"

fun ptr_map :: "nat list \<Rightarrow> (nat \<Rightarrow> nat option) \<Rightarrow> ('d, nat \<Rightarrow> nat option) dx" where
  "ptr_map [] m = sx_ret m"
| "ptr_map (b # bs) m = sx_bind (deref b) (\<lambda>blk. ptr_map bs (m(b_ptr blk \<mapsto> b)))"

record RestoreResult =
  allocations_freed :: "nat list"
  allocations_created :: "nat list"

definition setCheckpointPoolState :: "'d env \<Rightarrow> PrivatePoolState \<Rightarrow> ('d, RestoreResult) dx" where
  "setCheckpointPoolState V pps =
     sx_bind (maybeGatherContext RC_STATE) (\<lambda>ctx.
     sx_bind (sx_get (\<lambda>s. s)) (\<lambda>s.
     sx_seq (sx_check (owner_id pps \<notin> set (graph_pools_freeable s))
       (TorchCheck ''Not expected to checkpoint freeable graph''))
     (sx_seq (sx_check (owner_id pps \<in> fst ` set (graph_pools s)) (TorchCheck ''Could not find private pool id''))
     (sx_bind (freeBlocksAllocatedToPool V (owner_id pps)) (\<lambda>freed_ptrs.
      sx_bind (get_BlockPool (Private (owner_id pps) True)) (\<lambda>small.
      sx_bind (get_BlockPool (Private (owner_id pps) False)) (\<lambda>large.
      sx_bind (ptr_map (blocks small @ blocks large) (\<lambda>_. None)) (\<lambda>m.
      sx_bind (restore_segments V ctx m (pps_segments pps)) (\<lambda>created_blocks.
      sx_ret \<lparr>allocations_freed = freed_ptrs, allocations_created = created_blocks\<rparr>)))))))))"

section \<open>Snapshot\<close>

record BlockInfo =
  bi_size :: nat
  bi_requested_size :: nat
  bi_allocated :: bool
  bi_active :: bool
  bi_context :: "nat option"

record SegmentInfo =
  si_device :: int
  si_address :: nat
  si_stream :: nat
  si_total_size :: nat
  si_requested_size :: nat
  si_allocated_size :: nat
  si_active_size :: nat
  si_is_large :: bool
  si_is_expandable :: bool
  si_owner_private_pool_id :: mempool_id
  si_blocks :: "BlockInfo list"
  si_context :: "nat option"

definition block_info :: "Block \<Rightarrow> BlockInfo" where
  "block_info b = \<lparr>bi_size = b_size b, bi_requested_size = requested_size b, bi_allocated = allocated b,
     bi_active = (allocated b \<or> 0 < event_count b \<or> stream_uses b \<noteq> []), bi_context = context_when_allocated b\<rparr>"

fun chain_infos :: "nat \<Rightarrow> nat option \<Rightarrow> ('d, BlockInfo list) dx" where
  "chain_infos fuel b = (case b of None \<Rightarrow> sx_ret [] | Some x \<Rightarrow>
     sx_bind (deref x) (\<lambda>blk.
     if mapped blk then
       (case fuel of 0 \<Rightarrow> sx_throw LoopBound | Suc f \<Rightarrow>
         sx_bind (chain_infos f (b_next blk)) (\<lambda>r. sx_ret (block_info blk # r)))
     else sx_ret []))"

declare chain_infos.simps [simp del]

definition segment_info :: "mempool_id \<Rightarrow> Block \<Rightarrow> BlockInfo list \<Rightarrow> SegmentInfo" where
  "segment_info mempool h infos =
     (let i = owner_MempoolId (b_pool h) in
      \<lparr>si_device = b_device h, si_address = b_ptr h, si_stream = b_stream h,
       si_total_size = sum_list (map bi_size infos),
       si_requested_size = sum_list (map bi_requested_size (filter bi_active infos)),
       si_allocated_size = sum_list (map bi_size (filter bi_allocated infos)),
       si_active_size = sum_list (map bi_size (filter bi_active infos)),
       si_is_large = (\<not> is_small (b_pool h)), si_is_expandable = (expandable_segment h \<noteq> None),
       si_owner_private_pool_id = (if mempool = (0, 0) \<or> i = mempool then i else (0, 0)),
       si_blocks = infos, si_context = context_when_segment_allocated h\<rparr>)"

fun snapshot_loop :: "nat \<Rightarrow> mempool_id \<Rightarrow> nat list \<Rightarrow> ('d, SegmentInfo list) dx" where
  "snapshot_loop n mempool [] = sx_ret []"
| "snapshot_loop n mempool (h # hs) =
     sx_bind (deref h) (\<lambda>hb.
     sx_bind (case b_prev hb of None \<Rightarrow> sx_ret False | Some q \<Rightarrow> sx_bind (deref q) (\<lambda>qb. sx_ret (mapped qb))) (\<lambda>skip.
     if skip then snapshot_loop n mempool hs
     else sx_bind (chain_infos n (Some h)) (\<lambda>infos.
       sx_bind (snapshot_loop n mempool hs) (\<lambda>r. sx_ret (segment_info mempool hb infos # r)))))"

definition device_snapshot :: "'d env \<Rightarrow> mempool_id \<Rightarrow> ('d, SegmentInfo list) dx" where
  "device_snapshot V mempool =
     (let mempool = (case ActiveMemPool V of Some (i, a) \<Rightarrow> i | None \<Rightarrow> mempool) in
      sx_bind (sx_get (\<lambda>s. s)) (\<lambda>s.
      sx_bind (if mempool \<noteq> (0, 0) then
          (if mempool \<in> fst ` set (graph_pools s) then get_private_pool_head_blocks mempool else sx_ret [])
        else sx_ret (get_all_blocks s)) (\<lambda>all_blocks.
      sx_bind (snapshot_loop (next_block s) mempool all_blocks) (\<lambda>infos.
      sx_seq (record_trace SNAPSHOT 0 (sum_list (map si_active_size infos)) 0 0 mempool None)
      (sx_ret (sort_key si_address infos))))))"

end
