(* ===== verification/Block_Heap.thy ===== *)
theory Block_Heap
  imports Device_Allocator
begin

text \<open>
  The shape of the block store: neighbouring blocks point at each other and lie next to each other in
  memory, blocks do not overlap, and every block lies in an address range the driver handed out, which
  the first and the last block of a chain delimit. The theory shows that splitting a block, merging
  two neighbours, adding a fresh segment and removing an unsplit block keep this shape. It also
  discharges the comparator interface for the two comparators of the allocator.
\<close>

section \<open>The comparators\<close>

interpretation by_size: weak_order BlockComparatorSize
  by unfold_locales (auto simp: BlockComparatorSize_def split: prod.splits if_splits)

interpretation by_address: weak_order BlockComparatorAddress
  by unfold_locales (auto simp: BlockComparatorAddress_def split: prod.splits if_splits)

section \<open>Shape\<close>

type_synonym bheap = "nat \<Rightarrow> Block option"

text \<open>The part of a block that says where it lies and who its neighbours are.\<close>

definition skel :: "Block \<Rightarrow> nat option \<times> nat option \<times> nat \<times> nat \<times> pool_ref \<times> nat \<times> nat option" where
  "skel x = (b_prev x, b_next x, b_ptr x, b_size x, b_pool x, b_stream x, expandable_segment x)"

definition adj :: "Block \<Rightarrow> Block \<Rightarrow> bool" where
  "adj x y \<longleftrightarrow> b_ptr y = b_ptr x + b_size x \<and> b_pool y = b_pool x \<and> b_stream y = b_stream x
     \<and> expandable_segment y = expandable_segment x"

definition links :: "bheap \<Rightarrow> bool" where
  "links h \<longleftrightarrow>
     (\<forall>b x n. h b = Some x \<longrightarrow> b_next x = Some n \<longrightarrow> (\<exists>y. h n = Some y \<and> b_prev y = Some b \<and> adj x y)) \<and>
     (\<forall>b x p. h b = Some x \<longrightarrow> b_prev x = Some p \<longrightarrow> (\<exists>y. h p = Some y \<and> b_next y = Some b))"

definition apart :: "bheap \<Rightarrow> bool" where
  "apart h \<longleftrightarrow> (\<forall>b c x y. h b = Some x \<longrightarrow> h c = Some y \<longrightarrow> b \<noteq> c \<longrightarrow>
     span (b_ptr x) (b_size x) \<inter> span (b_ptr y) (b_size y) = {})"

definition positive :: "bheap \<Rightarrow> bool" where
  "positive h \<longleftrightarrow> (\<forall>b x. h b = Some x \<longrightarrow> 0 < b_size x \<and> 0 < b_ptr x)"

definition bounded :: "nat \<Rightarrow> bheap \<Rightarrow> bool" where
  "bounded n h \<longleftrightarrow> (\<forall>b x. h b = Some x \<longrightarrow> b < n)"

text \<open>A block lies in a range; the ends of a chain are the ends of the range.\<close>

definition covers :: "nat \<times> nat \<Rightarrow> Block \<Rightarrow> bool" where
  "covers r x \<longleftrightarrow> fst r \<le> b_ptr x \<and> b_ptr x + b_size x \<le> fst r + snd r
     \<and> (b_prev x = None \<longrightarrow> b_ptr x = fst r) \<and> (b_next x = None \<longrightarrow> b_ptr x + b_size x = fst r + snd r)"

definition segment_of :: "(nat \<Rightarrow> ExpandableSegment option) \<Rightarrow> nat \<times> nat \<Rightarrow> nat option \<Rightarrow> bool" where
  "segment_of sg r i \<longleftrightarrow> (case i of None \<Rightarrow> True
     | Some j \<Rightarrow> (\<exists>es. sg j = Some es \<and> r = (es_ptr es, es_size es) \<and> 0 < segment_size es))"

definition covered :: "(nat \<times> nat) set \<Rightarrow> (nat \<Rightarrow> ExpandableSegment option) \<Rightarrow> bheap \<Rightarrow> bool" where
  "covered R sg h \<longleftrightarrow> (\<exists>f. \<forall>b x. h b = Some x \<longrightarrow>
     f b \<in> R \<and> covers (f b) x \<and> segment_of sg (f b) (expandable_segment x)
     \<and> (\<forall>n. b_next x = Some n \<longrightarrow> f n = f b))"

definition shape :: "(nat \<times> nat) set \<Rightarrow> (nat \<Rightarrow> ExpandableSegment option) \<Rightarrow> nat \<Rightarrow> bheap \<Rightarrow> bool" where
  "shape R sg n h \<longleftrightarrow> links h \<and> apart h \<and> positive h \<and> bounded n h \<and> covered R sg h"

lemma shapeD:
  assumes "shape R sg n h"
  shows "links h" and "apart h" and "positive h" and "bounded n h" and "covered R sg h"
  using assms by (simp_all add: shape_def)

lemma links_next:
  assumes "links h" and "h b = Some x" and "b_next x = Some n"
  obtains y where "h n = Some y" and "b_prev y = Some b" and "adj x y"
  using assms unfolding links_def by blast

lemma links_prev:
  assumes "links h" and "h b = Some x" and "b_prev x = Some p"
  obtains y where "h p = Some y" and "b_next y = Some b" and "adj y x"
proof -
  obtain y where y: "h p = Some y" "b_next y = Some b"
    using assms unfolding links_def by blast
  then obtain z where "h b = Some z" "adj y z"
    using assms(1) by (elim links_next)
  then show ?thesis using that y assms(2) by simp
qed

lemma positiveD: "positive h \<Longrightarrow> h b = Some x \<Longrightarrow> 0 < b_size x" "positive h \<Longrightarrow> h b = Some x \<Longrightarrow> 0 < b_ptr x"
  by (auto simp: positive_def)

lemma apart_ptr:
  assumes "apart h" and "positive h" and "h b = Some x" and "h c = Some y" and "b \<noteq> c"
  shows "b_ptr x \<noteq> b_ptr y"
proof
  assume "b_ptr x = b_ptr y"
  then have "b_ptr x \<in> span (b_ptr x) (b_size x) \<inter> span (b_ptr y) (b_size y)"
    using assms(2-4) by (simp add: positive_def)
  then show False using assms(1,3-5) unfolding apart_def by blast
qed

text \<open>The address grows along a chain, so a block is none of its neighbours.\<close>

lemma next_neq:
  assumes "links h" and "positive h" and "h b = Some x" and "b_next x = Some n"
  shows "n \<noteq> b"
  using assms by (elim links_next) (auto simp: adj_def dest: positiveD(1))

lemma prev_neq:
  assumes "links h" and "positive h" and "h b = Some x" and "b_prev x = Some p"
  shows "p \<noteq> b"
  using assms by (elim links_prev) (auto simp: adj_def dest: positiveD(1))

lemma prev_next_neq:
  assumes "links h" and "positive h" and "h b = Some x" and "b_prev x = Some p" and "b_next x = Some n"
  shows "p \<noteq> n"
proof -
  obtain y where y: "h p = Some y" "adj y x" using assms(1,3,4) by (rule links_prev)
  obtain z where z: "h n = Some z" "adj x z" using assms(1,3,5) by (rule links_next)
  have "b_ptr y < b_ptr z"
    using y z positiveD(1) [OF assms(2,3)] by (simp add: adj_def)
  then show ?thesis using y z by auto
qed

text \<open>The shape depends on the skeletons only.\<close>

lemma skel_fields:
  assumes "skel x = skel y"
  shows "b_prev x = b_prev y" and "b_next x = b_next y" and "b_ptr x = b_ptr y" and "b_size x = b_size y"
    and "b_pool x = b_pool y" and "b_stream x = b_stream y" and "expandable_segment x = expandable_segment y"
  using assms by (simp_all add: skel_def)

definition same_shape :: "bheap \<Rightarrow> bheap \<Rightarrow> bool" where
  "same_shape h h' \<longleftrightarrow> (\<forall>b. map_option skel (h b) = map_option skel (h' b))"

lemma same_shape_Some:
  assumes "same_shape h h'" and "h' b = Some x'"
  obtains x where "h b = Some x" and "skel x = skel x'"
  using assms unfolding same_shape_def by (metis map_option_eq_Some option.simps(9))

lemma same_shape_sym: "same_shape h h' \<Longrightarrow> same_shape h' h"
  by (simp add: same_shape_def)

lemma links_same: "same_shape h h' \<Longrightarrow> links h \<Longrightarrow> links h'"
  unfolding links_def
proof (intro conjI allI impI; elim conjE)
  fix b x n
  assume s: "same_shape h h'" and hx: "h' b = Some x" and nx: "b_next x = Some n"
    and L: "\<forall>b x n. h b = Some x \<longrightarrow> b_next x = Some n \<longrightarrow> (\<exists>y. h n = Some y \<and> b_prev y = Some b \<and> adj x y)"
  obtain z where z: "h b = Some z" "skel z = skel x" using same_shape_Some [OF s hx] by blast
  then obtain y where y: "h n = Some y" "b_prev y = Some b" "adj z y"
    using L nx skel_fields(2) [OF z(2)] by metis
  obtain y' where "h' n = Some y'" "skel y' = skel y"
    using same_shape_Some [OF same_shape_sym [OF s] y(1)] by blast
  then show "\<exists>y. h' n = Some y \<and> b_prev y = Some b \<and> adj x y"
    using y skel_fields [OF z(2)] by (auto simp: adj_def dest: skel_fields)
next
  fix b x p
  assume s: "same_shape h h'" and hx: "h' b = Some x" and nx: "b_prev x = Some p"
    and L: "\<forall>b x p. h b = Some x \<longrightarrow> b_prev x = Some p \<longrightarrow> (\<exists>y. h p = Some y \<and> b_next y = Some b)"
  obtain z where z: "h b = Some z" "skel z = skel x" using same_shape_Some [OF s hx] by blast
  then obtain y where y: "h p = Some y" "b_next y = Some b"
    using L nx skel_fields(1) [OF z(2)] by metis
  obtain y' where "h' p = Some y'" "skel y' = skel y"
    using same_shape_Some [OF same_shape_sym [OF s] y(1)] by blast
  then show "\<exists>y. h' p = Some y \<and> b_next y = Some b"
    using y by (auto dest: skel_fields)
qed

lemma shape_same:
  assumes s: "same_shape h h'" and sh: "shape R sg n h"
  shows "shape R sg n h'"
proof -
  have eq: "\<exists>z. h b = Some z \<and> b_ptr z = b_ptr x \<and> b_size z = b_size x \<and> covers r z = covers r x
      \<and> expandable_segment z = expandable_segment x" if hx: "h' b = Some x" for b x r
  proof -
    obtain z where z: "h b = Some z" "skel z = skel x" using same_shape_Some [OF s hx] by blast
    then show ?thesis by (simp add: covers_def skel_fields [OF z(2)])
  qed
  have "apart h'"
    unfolding apart_def
  proof (intro allI impI)
    fix b c x y assume "h' b = Some x" "h' c = Some y" "b \<noteq> c"
    with eq [of b x] eq [of c y] shapeD(2) [OF sh, unfolded apart_def]
    show "span (b_ptr x) (b_size x) \<inter> span (b_ptr y) (b_size y) = {}" by fastforce
  qed
  moreover have "positive h'"
    unfolding positive_def
  proof (intro allI impI)
    fix b x assume "h' b = Some x"
    with eq [of b x] shapeD(3) [OF sh, unfolded positive_def]
    show "0 < b_size x \<and> 0 < b_ptr x" by fastforce
  qed
  moreover have "bounded n h'"
    unfolding bounded_def
  proof (intro allI impI)
    fix b x assume "h' b = Some x"
    with eq [of b x] shapeD(4) [OF sh, unfolded bounded_def] show "b < n" by blast
  qed
  moreover have "covered R sg h'"
  proof -
    obtain f where f: "\<And>b x. h b = Some x \<Longrightarrow> f b \<in> R \<and> covers (f b) x
        \<and> segment_of sg (f b) (expandable_segment x) \<and> (\<forall>n. b_next x = Some n \<longrightarrow> f n = f b)"
      using shapeD(5) [OF sh] unfolding covered_def by blast
    have "f b \<in> R \<and> covers (f b) x \<and> segment_of sg (f b) (expandable_segment x)
        \<and> (\<forall>n. b_next x = Some n \<longrightarrow> f n = f b)" if hx: "h' b = Some x" for b x
    proof -
      obtain z where z: "h b = Some z" "skel z = skel x" using same_shape_Some [OF s hx] by blast
      show ?thesis using f [OF z(1)] by (simp add: covers_def skel_fields [OF z(2)])
    qed
    then show ?thesis unfolding covered_def by blast
  qed
  ultimately show ?thesis
    using links_same [OF s shapeD(1) [OF sh]] by (simp add: shape_def)
qed

section \<open>Merging two neighbours\<close>

text \<open>
  \<open>h'\<close> is \<open>h\<close> with the neighbours \<open>l\<close> and \<open>r\<close> merged into the object \<open>k\<close>, one of the two; the outer
  neighbours now point at \<open>k\<close>.
\<close>

definition relink :: "Block \<Rightarrow> Block \<Rightarrow> nat \<Rightarrow> nat \<Rightarrow> nat \<Rightarrow> Block \<Rightarrow> Block" where
  "relink x y kl kr b z = z\<lparr>b_next := (if b_prev x = Some b then Some kl else b_next z),
     b_prev := (if b_next y = Some b then Some kr else b_prev z)\<rparr>"

definition merged_heap :: "bheap \<Rightarrow> nat \<Rightarrow> nat \<Rightarrow> nat \<Rightarrow> bheap \<Rightarrow> bool" where
  "merged_heap h l r k h' \<longleftrightarrow> (\<exists>x y m. h l = Some x \<and> h r = Some y \<and> b_next x = Some r \<and> (k = l \<or> k = r)
     \<and> h' k = Some m \<and> skel m = (b_prev x, b_next y, b_ptr x, b_size x + b_size y, b_pool x, b_stream x,
         expandable_segment x)
     \<and> h' (if k = l then r else l) = None
     \<and> (\<forall>b. b \<noteq> l \<longrightarrow> b \<noteq> r \<longrightarrow> map_option skel (h' b) = map_option (\<lambda>z. skel (relink x y k k b z)) (h b)))"

lemma map_option_skel:
  assumes "map_option skel a = map_option (\<lambda>z. skel (g z)) b" and "a = Some x"
  obtains z where "b = Some z" and "skel x = skel (g z)"
  using assms by (cases b) auto

lemma map_option_skel':
  assumes "map_option skel a = map_option (\<lambda>z. skel (g z)) b" and "b = Some z"
  obtains x where "a = Some x" and "skel x = skel (g z)"
  using assms by (cases a) auto

lemma relink_fields [simp]:
  "b_ptr (relink x y kl kr b z) = b_ptr z" "b_size (relink x y kl kr b z) = b_size z"
  "b_pool (relink x y kl kr b z) = b_pool z" "b_stream (relink x y kl kr b z) = b_stream z"
  "expandable_segment (relink x y kl kr b z) = expandable_segment z"
  "b_next (relink x y kl kr b z) = (if b_prev x = Some b then Some kl else b_next z)"
  "b_prev (relink x y kl kr b z) = (if b_next y = Some b then Some kr else b_prev z)"
  by (simp_all add: relink_def)

lemma merge_links:
  assumes L: "links h" and P: "positive h" and M: "merged_heap h l r k h'"
  shows "links h'"
proof -
  obtain x y m where x: "h l = Some x" and y: "h r = Some y" and lr: "b_next x = Some r"
    and k: "k = l \<or> k = r" and m: "h' k = Some m" and sm: "skel m = (b_prev x, b_next y, b_ptr x,
      b_size x + b_size y, b_pool x, b_stream x, expandable_segment x)"
    and other: "h' (if k = l then r else l) = None"
    and rest: "\<And>b. b \<noteq> l \<Longrightarrow> b \<noteq> r \<Longrightarrow> map_option skel (h' b) = map_option (\<lambda>z. skel (relink x y k k b z)) (h b)"
    using M unfolding merged_heap_def by blast
  have mf: "b_prev m = b_prev x" "b_next m = b_next y" "b_ptr m = b_ptr x" "b_size m = b_size x + b_size y"
    "b_pool m = b_pool x" "b_stream m = b_stream x" "expandable_segment m = expandable_segment x"
    using sm by (simp_all add: skel_def)
  have ry: "b_prev y = Some l" and axy: "adj x y"
    using links_next [OF L x lr] y by (metis option.inject)+
  have out: "b \<noteq> l" "b \<noteq> r" if "h' b = Some z" "b \<noteq> k" for b z
    using that k other by (auto split: if_splits)
  show ?thesis
    unfolding links_def
  proof (intro conjI allI impI)
    fix b z n assume z: "h' b = Some z" and nz: "b_next z = Some n"
    show "\<exists>w. h' n = Some w \<and> b_prev w = Some b \<and> adj z w"
    proof (cases "b = k")
      case True
      then have zm: "z = m" and ny: "b_next y = Some n" using z m nz mf by auto
      obtain w where w: "h n = Some w" "b_prev w = Some r" "adj y w" using L y ny by (rule links_next)
      have "n \<noteq> r" using next_neq [OF L P y ny] .
      moreover have "n \<noteq> l" using prev_next_neq [OF L P y ry ny] by simp
      ultimately obtain w' where w': "h' n = Some w'" "skel w' = skel (relink x y k k n w)"
        using map_option_skel' [OF rest w(1)] by blast
      show ?thesis
        using ny w(3) axy True mf w'(1) skel_fields [OF w'(2), simplified] by (simp add: zm adj_def)
    next
      case False
      note o = out [OF z False]
      obtain u where u: "h b = Some u" "skel z = skel (relink x y k k b u)"
        using map_option_skel [OF rest [OF o] z] by blast
      note zu = skel_fields [OF u(2), simplified]
      show ?thesis
      proof (cases "b_prev x = Some b")
        case pre: True
        obtain u' where "h b = Some u'" "adj u' x" using links_prev [OF L x pre] by blast
        then show ?thesis
          using pre nz zu u(1) m mf by (auto simp: adj_def)
      next
        case npre: False
        then have nu: "b_next u = Some n" using nz zu by simp
        obtain w where w: "h n = Some w" "b_prev w = Some b" "adj u w" using L u(1) nu by (rule links_next)
        have "n \<noteq> l" using w x npre by auto
        moreover have "n \<noteq> r" using w y ry o by auto
        ultimately obtain w' where w': "h' n = Some w'" "skel w' = skel (relink x y k k n w)"
          using map_option_skel' [OF rest w(1)] by blast
        have "b_next y \<noteq> Some n" using links_next [OF L y, of n] w o by (metis option.inject)
        then show ?thesis
          using w(2,3) w' zu skel_fields [OF w'(2), simplified] by (simp add: adj_def)
      qed
    qed
  next
    fix b z p assume z: "h' b = Some z" and pz: "b_prev z = Some p"
    show "\<exists>w. h' p = Some w \<and> b_next w = Some b"
    proof (cases "b = k")
      case True
      then have px: "b_prev x = Some p" using z m pz mf by auto
      obtain w where w: "h p = Some w" "b_next w = Some l" using links_prev [OF L x px] by blast
      have "p \<noteq> l" using prev_neq [OF L P x px] .
      moreover have "p \<noteq> r" using prev_next_neq [OF L P x px lr] .
      ultimately obtain w' where w': "h' p = Some w'" "skel w' = skel (relink x y k k p w)"
        using map_option_skel' [OF rest w(1)] by blast
      show ?thesis using px True w'(1) skel_fields [OF w'(2), simplified] by simp
    next
      case False
      note o = out [OF z False]
      obtain u where u: "h b = Some u" "skel z = skel (relink x y k k b u)"
        using map_option_skel [OF rest [OF o] z] by blast
      note zu = skel_fields [OF u(2), simplified]
      show ?thesis
      proof (cases "b_next y = Some b")
        case True
        then show ?thesis using pz zu m mf by auto
      next
        case nn: False
        then have pu: "b_prev u = Some p" using pz zu by simp
        obtain w where w: "h p = Some w" "b_next w = Some b" using links_prev [OF L u(1) pu] by blast
        have "p \<noteq> r" using w y nn by auto
        moreover have "p \<noteq> l" using w x lr o by auto
        ultimately obtain w' where w': "h' p = Some w'" "skel w' = skel (relink x y k k p w)"
          using map_option_skel' [OF rest w(1)] by blast
        have "b_prev x \<noteq> Some p" using links_prev [OF L x, of p] w o by (metis option.inject)
        then show ?thesis using w(2) w' skel_fields(2) [OF w'(2)] by simp
      qed
    qed
  qed
qed

lemma merge_other:
  assumes "merged_heap h l r k h'" and "h' b = Some z" and "b \<noteq> k"
  obtains u where "h b = Some u" and "b \<noteq> l" and "b \<noteq> r" and "b_ptr z = b_ptr u" and "b_size z = b_size u"
    and "expandable_segment z = expandable_segment u"
    and "b_next z = b_next u \<or> (b_next z = Some k \<and> b_prev (the (h l)) = Some b)"
    and "b_prev z = b_prev u \<or> (b_prev z = Some k \<and> b_next (the (h r)) = Some b)"
proof -
  obtain x y where x: "h l = Some x" and y: "h r = Some y" and k: "k = l \<or> k = r"
    and other: "h' (if k = l then r else l) = None"
    and rest: "\<And>b. b \<noteq> l \<Longrightarrow> b \<noteq> r \<Longrightarrow> map_option skel (h' b) = map_option (\<lambda>z. skel (relink x y k k b z)) (h b)"
    using assms(1) unfolding merged_heap_def by blast
  have o: "b \<noteq> l" "b \<noteq> r" using assms(2,3) k other by (auto split: if_splits)
  obtain u where u: "h b = Some u" "skel z = skel (relink x y k k b u)"
    using map_option_skel [OF rest [OF o] assms(2)] by blast
  show ?thesis
    by (rule that [OF u(1) o]) (simp_all add: skel_fields [OF u(2)] x y)
qed

lemma merge_shape:
  assumes sh: "shape R sg n h" and M: "merged_heap h l r k h'"
  shows "shape R sg n h'"
proof -
  note sd = shapeD [OF sh]
  obtain x y m where x: "h l = Some x" and y: "h r = Some y" and lr: "b_next x = Some r"
    and k: "k = l \<or> k = r" and m: "h' k = Some m" and sm: "skel m = (b_prev x, b_next y, b_ptr x,
      b_size x + b_size y, b_pool x, b_stream x, expandable_segment x)"
    using M unfolding merged_heap_def by blast
  have mf: "b_prev m = b_prev x" "b_next m = b_next y" "b_ptr m = b_ptr x" "b_size m = b_size x + b_size y"
    "expandable_segment m = expandable_segment x"
    using sm by (simp_all add: skel_def)
  have axy: "adj x y" using links_next [OF sd(1) x lr] y by (metis option.inject)
  have sp: "span (b_ptr m) (b_size m) = span (b_ptr x) (b_size x) \<union> span (b_ptr y) (b_size y)"
    using axy by (simp add: mf adj_def span_join)
  have ap: "span (b_ptr u) (b_size u) \<inter> span (b_ptr v) (b_size v) = {}"
    if "h b = Some u" "h c = Some v" "b \<noteq> c" for b c u v
    using sd(2) that unfolding apart_def by blast
  have dis: "span (b_ptr m) (b_size m) \<inter> span (b_ptr z) (b_size z) = {}" if "h' b = Some z" "b \<noteq> k" for b z
    using merge_other [OF M that] ap [OF x] ap [OF y] by (metis Int_Un_distrib2 Un_empty sp)
  have "apart h'"
    unfolding apart_def
  proof (intro allI impI)
    fix b c u v assume bu: "h' b = Some u" and cv: "h' c = Some v" and ne: "b \<noteq> c"
    show "span (b_ptr u) (b_size u) \<inter> span (b_ptr v) (b_size v) = {}"
    proof (cases "b = k \<or> c = k")
      case True
      then show ?thesis using dis bu cv ne m by (metis inf_commute option.inject)
    next
      case False
      then obtain u0 v0 where "h b = Some u0" "b_ptr u = b_ptr u0" "b_size u = b_size u0"
          "h c = Some v0" "b_ptr v = b_ptr v0" "b_size v = b_size v0"
        using merge_other [OF M bu] merge_other [OF M cv] by metis
      then show ?thesis using ap ne by metis
    qed
  qed
  moreover have "positive h'"
    unfolding positive_def
  proof (intro allI impI)
    fix b z assume z: "h' b = Some z"
    show "0 < b_size z \<and> 0 < b_ptr z"
    proof (cases "b = k")
      case True
      then have "z = m" using z m by simp
      then show ?thesis using positiveD [OF sd(3) x] by (simp add: mf)
    next
      case False
      show ?thesis by (rule merge_other [OF M z False]) (metis positiveD [OF sd(3)])
    qed
  qed
  moreover have "bounded n h'"
    using sd(4) k x y merge_other [OF M] unfolding bounded_def by metis
  moreover have "covered R sg h'"
  proof -
    obtain f where f: "\<And>b x. h b = Some x \<Longrightarrow> f b \<in> R \<and> covers (f b) x
        \<and> segment_of sg (f b) (expandable_segment x) \<and> (\<forall>n. b_next x = Some n \<longrightarrow> f n = f b)"
      using sd(5) unfolding covered_def by blast
    have fr: "f r = f l" using f [OF x] lr by blast
    then have fk: "f k = f l" using k by auto
    have "f b \<in> R \<and> covers (f b) z \<and> segment_of sg (f b) (expandable_segment z)
        \<and> (\<forall>n. b_next z = Some n \<longrightarrow> f n = f b)" if z: "h' b = Some z" for b z
    proof (cases "b = k")
      case True
      then have zm: "z = m" using z m by simp
      show ?thesis
        using f [OF x] f [OF y] axy lr unfolding True zm fk fr
        by (auto simp: covers_def mf adj_def)
    next
      case False
      obtain u where u: "h b = Some u" "b \<noteq> l" "b \<noteq> r" "b_ptr z = b_ptr u" "b_size z = b_size u"
          "expandable_segment z = expandable_segment u"
          "b_next z = b_next u \<or> (b_next z = Some k \<and> b_prev x = Some b)"
          "b_prev z = b_prev u \<or> (b_prev z = Some k \<and> b_next y = Some b)"
        using merge_other [OF M z False] x y by (metis option.sel)
      have nx: "b_next u = Some l" if "b_prev x = Some b"
        using links_prev [OF sd(1) x that] u(1) by (metis option.inject)
      have pv: "b_prev u = Some r" if "b_next y = Some b"
        using links_next [OF sd(1) y that] u(1) by (metis option.inject)
      show ?thesis
        using f [OF u(1)] u(4-8) nx pv fk by (auto simp: covers_def)
    qed
    then show ?thesis unfolding covered_def by blast
  qed
  ultimately show ?thesis
    using merge_links [OF sd(1,3) M] by (simp add: shape_def)
qed

section \<open>Splitting a block\<close>

text \<open>\<open>h'\<close> is \<open>h\<close> with the front of the block \<open>k\<close>, \<open>sz\<close> bytes, cut off as a new block \<open>b\<close>.\<close>

definition front :: "nat \<Rightarrow> Block \<Rightarrow> nat \<Rightarrow> Block \<Rightarrow> Block" where
  "front b x c z = (if b_prev x = Some c then z\<lparr>b_next := Some b\<rparr> else z)"

definition split_heap :: "bheap \<Rightarrow> nat \<Rightarrow> nat \<Rightarrow> nat \<Rightarrow> bheap \<Rightarrow> bool" where
  "split_heap h k b sz h' \<longleftrightarrow> (\<exists>x l r. h k = Some x \<and> h b = None \<and> 0 < sz \<and> sz < b_size x
     \<and> h' b = Some l \<and> skel l = (b_prev x, Some k, b_ptr x, sz, b_pool x, b_stream x, expandable_segment x)
     \<and> h' k = Some r \<and> skel r = (Some b, b_next x, b_ptr x + sz, b_size x - sz, b_pool x, b_stream x,
         expandable_segment x)
     \<and> (\<forall>c. c \<noteq> b \<longrightarrow> c \<noteq> k \<longrightarrow> map_option skel (h' c) = map_option (\<lambda>z. skel (front b x c z)) (h c)))"

lemma front_fields [simp]:
  "b_ptr (front b x c z) = b_ptr z" "b_size (front b x c z) = b_size z" "b_pool (front b x c z) = b_pool z"
  "b_stream (front b x c z) = b_stream z" "expandable_segment (front b x c z) = expandable_segment z"
  "b_prev (front b x c z) = b_prev z"
  "b_next (front b x c z) = (if b_prev x = Some c then Some b else b_next z)"
  by (simp_all add: front_def)

lemma split_shape:
  assumes sh: "shape R sg b h" and S: "split_heap h k b sz h'"
  shows "shape R sg (Suc b) h'"
proof -
  note sd = shapeD [OF sh]
  obtain x l r where x: "h k = Some x" and hb: "h b = None" and sz: "0 < sz" "sz < b_size x"
    and l: "h' b = Some l" and sl: "skel l = (b_prev x, Some k, b_ptr x, sz, b_pool x, b_stream x, expandable_segment x)"
    and r: "h' k = Some r" and sr: "skel r = (Some b, b_next x, b_ptr x + sz, b_size x - sz, b_pool x, b_stream x,
         expandable_segment x)"
    and rest: "\<And>c. c \<noteq> b \<Longrightarrow> c \<noteq> k \<Longrightarrow> map_option skel (h' c) = map_option (\<lambda>z. skel (front b x c z)) (h c)"
    using S unfolding split_heap_def by blast
  have lf: "b_prev l = b_prev x" "b_next l = Some k" "b_ptr l = b_ptr x" "b_size l = sz" "b_pool l = b_pool x"
      "b_stream l = b_stream x" "expandable_segment l = expandable_segment x"
    using sl by (simp_all add: skel_def)
  have rf: "b_prev r = Some b" "b_next r = b_next x" "b_ptr r = b_ptr x + sz" "b_size r = b_size x - sz"
      "b_pool r = b_pool x" "b_stream r = b_stream x" "expandable_segment r = expandable_segment x"
    using sr by (simp_all add: skel_def)
  have kb: "k \<noteq> b" using x hb by auto
  have old: "\<exists>z0. h c = Some z0 \<and> skel z = skel (front b x c z0)" if "h' c = Some z" "c \<noteq> b" "c \<noteq> k" for c z
    using map_option_skel [OF rest [OF that(2,3)] that(1)] by blast
  have new: "\<exists>z. h' c = Some z \<and> skel z = skel (front b x c z0)" if "h c = Some z0" "c \<noteq> k" for c z0
    using map_option_skel' [OF rest that(1)] that hb by (metis option.distinct(1))
  have part: "\<exists>c0 z0. h c0 = Some z0 \<and> span (b_ptr z) (b_size z) \<subseteq> span (b_ptr z0) (b_size z0)
      \<and> (c = b \<or> c = k \<longrightarrow> c0 = k) \<and> (c \<noteq> b \<longrightarrow> c0 = c)" if z: "h' c = Some z" for c z
  proof (cases "c = b \<or> c = k")
    case True
    have "span (b_ptr z) (b_size z) \<subseteq> span (b_ptr x) (b_size x)"
      using True z l r lf rf sz by (auto simp: span_def)
    then show ?thesis using x True by blast
  next
    case False
    then obtain z0 where z0: "h c = Some z0" "skel z = skel (front b x c z0)" using old [OF z] by blast
    then show ?thesis using False by (auto simp: skel_fields [OF z0(2)])
  qed
  have "links h'"
    unfolding links_def
  proof (intro conjI allI impI)
    fix c z n assume z: "h' c = Some z" and nz: "b_next z = Some n"
    show "\<exists>y. h' n = Some y \<and> b_prev y = Some c \<and> adj z y"
    proof (cases "c = b")
      case True
      then show ?thesis using z l r nz lf rf by (auto simp: adj_def)
    next
      case nb: False
      show ?thesis
      proof (cases "c = k")
        case True
        then have nx: "b_next x = Some n" using z r nz rf by simp
        obtain y where y: "h n = Some y" "b_prev y = Some k" "adj x y" using links_next [OF sd(1) x nx] by blast
        obtain y' where y': "h' n = Some y'" "skel y' = skel (front b x n y)"
          using new [OF y(1)] next_neq [OF sd(1,3) x nx] by blast
        show ?thesis
          using y(2,3) y'(1) True z r rf sz skel_fields [OF y'(2), simplified] by (auto simp: adj_def)
      next
        case nk: False
        obtain z0 where z0: "h c = Some z0" "skel z = skel (front b x c z0)" using old [OF z nb nk] by blast
        note zf = skel_fields [OF z0(2), simplified]
        show ?thesis
        proof (cases "b_prev x = Some c")
          case True
          then obtain q where "h c = Some q" "adj q x" using links_prev [OF sd(1) x] by blast
          then show ?thesis using True nz zf z0(1) l lf by (auto simp: adj_def)
        next
          case npre: False
          then have nz0: "b_next z0 = Some n" using nz zf by simp
          obtain y where y: "h n = Some y" "b_prev y = Some c" "adj z0 y"
            using links_next [OF sd(1) z0(1) nz0] by blast
          have "n \<noteq> k" using y x npre by auto
          then obtain y' where y': "h' n = Some y'" "skel y' = skel (front b x n y)" using new [OF y(1)] by blast
          show ?thesis using y(2,3) y'(1) zf skel_fields [OF y'(2), simplified] by (simp add: adj_def)
        qed
      qed
    qed
  next
    fix c z q assume z: "h' c = Some z" and pz: "b_prev z = Some q"
    have pre: "\<exists>y. h' q = Some y \<and> b_next y = Some b" if px: "b_prev x = Some q"
    proof -
      obtain y where y: "h q = Some y" using links_prev [OF sd(1) x px] by blast
      then obtain y' where y': "h' q = Some y'" "skel y' = skel (front b x q y)"
        using new [OF y] prev_neq [OF sd(1,3) x px] by blast
      then show ?thesis using px skel_fields(2) [OF y'(2)] by simp
    qed
    show "\<exists>y. h' q = Some y \<and> b_next y = Some c"
    proof (cases "c = b")
      case True
      then show ?thesis using pre z l pz lf by simp
    next
      case nb: False
      show ?thesis
      proof (cases "c = k")
        case True
        then show ?thesis using z r pz rf l lf by simp
      next
        case nk: False
        obtain z0 where z0: "h c = Some z0" "skel z = skel (front b x c z0)" using old [OF z nb nk] by blast
        then have pz0: "b_prev z0 = Some q" using pz skel_fields(1) [OF z0(2)] by simp
        obtain y where y: "h q = Some y" "b_next y = Some c" using links_prev [OF sd(1) z0(1) pz0] by blast
        have nq: "b_prev x \<noteq> Some q" using links_prev [OF sd(1) x, of q] y nk by (metis option.inject)
        show ?thesis
        proof (cases "q = k")
          case True
          then show ?thesis using y x r rf by simp
        next
          case False
          then obtain y' where y': "h' q = Some y'" "skel y' = skel (front b x q y)" using new [OF y(1)] by blast
          then show ?thesis using y(2) nq skel_fields(2) [OF y'(2)] by simp
        qed
      qed
    qed
  qed
  moreover have "apart h'"
    unfolding apart_def
  proof (intro allI impI)
    fix c d u v assume cu: "h' c = Some u" and dv: "h' d = Some v" and ne: "c \<noteq> d"
    obtain c0 u0 where u0: "h c0 = Some u0" "span (b_ptr u) (b_size u) \<subseteq> span (b_ptr u0) (b_size u0)"
        "c = b \<or> c = k \<longrightarrow> c0 = k" "c \<noteq> b \<longrightarrow> c0 = c" using part [OF cu] by blast
    obtain d0 v0 where v0: "h d0 = Some v0" "span (b_ptr v) (b_size v) \<subseteq> span (b_ptr v0) (b_size v0)"
        "d = b \<or> d = k \<longrightarrow> d0 = k" "d \<noteq> b \<longrightarrow> d0 = d" using part [OF dv] by blast
    show "span (b_ptr u) (b_size u) \<inter> span (b_ptr v) (b_size v) = {}"
    proof (cases "c0 = d0")
      case True
      then have "(c = b \<and> d = k) \<or> (c = k \<and> d = b)" using u0 v0 ne by auto
      then show ?thesis using cu dv l r lf rf by (auto simp: span_def)
    next
      case False
      then have "span (b_ptr u0) (b_size u0) \<inter> span (b_ptr v0) (b_size v0) = {}"
        using sd(2) u0(1) v0(1) unfolding apart_def by blast
      then show ?thesis using u0(2) v0(2) by blast
    qed
  qed
  moreover have "positive h'"
    unfolding positive_def
  proof (intro allI impI)
    fix c z assume z: "h' c = Some z"
    show "0 < b_size z \<and> 0 < b_ptr z"
    proof (cases "c = b \<or> c = k")
      case True
      then show ?thesis using z l r lf rf sz positiveD [OF sd(3) x] by auto
    next
      case False
      then obtain z0 where z0: "h c = Some z0" "skel z = skel (front b x c z0)" using old [OF z] by blast
      then show ?thesis using positiveD [OF sd(3) z0(1)] by (simp add: skel_fields [OF z0(2)])
    qed
  qed
  moreover have "bounded (Suc b) h'"
    using sd(4) part unfolding bounded_def by (metis less_Suc_eq)
  moreover have "covered R sg h'"
  proof -
    obtain f where f: "\<And>b x. h b = Some x \<Longrightarrow> f b \<in> R \<and> covers (f b) x
        \<and> segment_of sg (f b) (expandable_segment x) \<and> (\<forall>n. b_next x = Some n \<longrightarrow> f n = f b)"
      using sd(5) unfolding covered_def by blast
    let ?f = "f(b := f k)"
    have "?f c \<in> R \<and> covers (?f c) z \<and> segment_of sg (?f c) (expandable_segment z)
        \<and> (\<forall>n. b_next z = Some n \<longrightarrow> ?f n = ?f c)" if z: "h' c = Some z" for c z
    proof (cases "c = b \<or> c = k")
      case True
      have "b_next x \<noteq> Some b" using links_next [OF sd(1) x, of b] hb by auto
      then show ?thesis
        using True z l r lf rf sz f [OF x] kb by (auto simp: covers_def)
    next
      case False
      then obtain z0 where z0: "h c = Some z0" "skel z = skel (front b x c z0)" using old [OF z] by blast
      note zf = skel_fields [OF z0(2), simplified]
      have "b_next z0 \<noteq> Some b" using links_next [OF sd(1) z0(1), of b] hb by auto
      moreover have "f k = f c" if px: "b_prev x = Some c"
        using links_prev [OF sd(1) x px] f z0(1) by (metis option.inject)
      ultimately show ?thesis
        using f [OF z0(1)] False zf by (auto simp: covers_def)
    qed
    then show ?thesis unfolding covered_def by blast
  qed
  ultimately show ?thesis by (simp add: shape_def)
qed

section \<open>Adding and removing segments\<close>

lemma covered_range:
  assumes "covered R sg h" and "h b = Some x"
  obtains p n where "(p, n) \<in> R" and "span (b_ptr x) (b_size x) \<subseteq> span p n"
proof -
  obtain f where "f b \<in> R \<and> covers (f b) x" using assms unfolding covered_def by blast
  then show ?thesis
    by (intro that [of "fst (f b)" "snd (f b)"]) (auto simp: covers_def span_def)
qed

lemma unsplit_range:
  assumes "covered R sg h" and "h b = Some x" and "\<not> is_split x"
  shows "(b_ptr x, b_size x) \<in> R"
proof -
  obtain f where "f b \<in> R" "covers (f b) x" using assms unfolding covered_def by blast
  moreover have "f b = (b_ptr x, b_size x)"
    using \<open>covers (f b) x\<close> assms(3) by (auto simp: covers_def is_split_def prod_eq_iff)
  ultimately show ?thesis by simp
qed

lemma add_shape:
  assumes sh: "shape R sg b h" and x: "b_prev x = None" "b_next x = None" "expandable_segment x = None"
    "0 < b_size x" and fr: "fresh_range R (b_ptr x) (b_size x)"
  shows "shape (insert (b_ptr x, b_size x) R) sg (Suc b) (h(b \<mapsto> x))"
proof -
  note sd = shapeD [OF sh]
  have hb: "h b = None" using sd(4) unfolding bounded_def by (cases "h b") auto
  have lp: "b_next z \<noteq> Some b" "b_prev z \<noteq> Some b" if "h c = Some z" for c z
    using links_next [OF sd(1) that] links_prev [OF sd(1) that] hb by (metis option.distinct(1))+
  have "\<exists>y. (h(b \<mapsto> x)) n = Some y \<and> b_prev y = Some c \<and> adj z y"
    if z: "(h(b \<mapsto> x)) c = Some z" and nz: "b_next z = Some n" for c z n
  proof -
    have hc: "h c = Some z" using z nz x by (auto split: if_splits)
    then show ?thesis using links_next [OF sd(1) hc nz] lp [OF hc] nz by (metis fun_upd_other)
  qed
  moreover have "\<exists>y. (h(b \<mapsto> x)) n = Some y \<and> b_next y = Some c"
    if z: "(h(b \<mapsto> x)) c = Some z" and nz: "b_prev z = Some n" for c z n
  proof -
    have hc: "h c = Some z" using z nz x by (auto split: if_splits)
    then show ?thesis using links_prev [OF sd(1) hc nz] lp [OF hc] nz by (metis fun_upd_other)
  qed
  ultimately have "links (h(b \<mapsto> x))" unfolding links_def by blast
  moreover have new: "span (b_ptr x) (b_size x) \<inter> span (b_ptr z) (b_size z) = {}" if hz: "h c = Some z" for c z
  proof -
    obtain p n where "(p, n) \<in> R" "span (b_ptr z) (b_size z) \<subseteq> span p n"
      using covered_range [OF sd(5) hz] by blast
    moreover have "span (b_ptr x) (b_size x) \<inter> span p n = {}"
      using fr \<open>(p, n) \<in> R\<close> unfolding fresh_range_def by blast
    ultimately show ?thesis by blast
  qed
  have "apart (h(b \<mapsto> x))"
    unfolding apart_def
  proof (intro allI impI)
    fix c d u v assume "(h(b \<mapsto> x)) c = Some u" "(h(b \<mapsto> x)) d = Some v" "c \<noteq> d"
    then show "span (b_ptr u) (b_size u) \<inter> span (b_ptr v) (b_size v) = {}"
      using sd(2) [unfolded apart_def] new by (metis Int_commute fun_upd_def option.inject)
  qed
  moreover have "positive (h(b \<mapsto> x))"
    using sd(3) x fr unfolding positive_def by (auto simp: fresh_range_def)
  moreover have "bounded (Suc b) (h(b \<mapsto> x))"
    using sd(4) unfolding bounded_def by (auto simp: less_Suc_eq)
  moreover have "covered (insert (b_ptr x, b_size x) R) sg (h(b \<mapsto> x))"
  proof -
    obtain f where f: "\<And>b x. h b = Some x \<Longrightarrow> f b \<in> R \<and> covers (f b) x
        \<and> segment_of sg (f b) (expandable_segment x) \<and> (\<forall>n. b_next x = Some n \<longrightarrow> f n = f b)"
      using sd(5) unfolding covered_def by blast
    show ?thesis
      unfolding covered_def
    proof (intro exI [of _ "f(b := (b_ptr x, b_size x))"] allI impI)
      fix c z assume z: "(h(b \<mapsto> x)) c = Some z"
      let ?f = "f(b := (b_ptr x, b_size x))"
      show "?f c \<in> insert (b_ptr x, b_size x) R \<and> covers (?f c) z
        \<and> segment_of sg (?f c) (expandable_segment z) \<and> (\<forall>n. b_next z = Some n \<longrightarrow> ?f n = ?f c)"
      proof (cases "c = b")
        case True
        then show ?thesis using z x by (auto simp: covers_def segment_of_def)
      next
        case False
        then show ?thesis using z f [of c z] lp [of c z] by auto
      qed
    qed
  qed
  ultimately show ?thesis by (simp add: shape_def)
qed

lemma remove_shape:
  assumes sh: "shape R sg n h" and x: "h b = Some x" "\<not> is_split x"
  shows "shape (R - {(b_ptr x, b_size x)}) sg n (h(b := None))"
proof -
  note sd = shapeD [OF sh]
  have lp: "b_next z \<noteq> Some b" "b_prev z \<noteq> Some b" if "h c = Some z" for c z
    using links_next [OF sd(1) that] links_prev [OF sd(1) that] x
    by (metis is_split_def option.distinct(1) option.inject)+
  have "links (h(b := None))"
    using sd(1) lp unfolding links_def by (metis fun_upd_apply option.distinct(1))
  moreover have "apart (h(b := None))" "positive (h(b := None))" "bounded n (h(b := None))"
    using sd(2-4) unfolding apart_def positive_def bounded_def by auto
  moreover have "covered (R - {(b_ptr x, b_size x)}) sg (h(b := None))"
  proof -
    obtain f where f: "\<And>b x. h b = Some x \<Longrightarrow> f b \<in> R \<and> covers (f b) x
        \<and> segment_of sg (f b) (expandable_segment x) \<and> (\<forall>n. b_next x = Some n \<longrightarrow> f n = f b)"
      using sd(5) unfolding covered_def by blast
    have "f c \<noteq> (b_ptr x, b_size x)" if z: "h c = Some z" and "c \<noteq> b" for c z
    proof
      assume "f c = (b_ptr x, b_size x)"
      then have "b_ptr z \<in> span (b_ptr x) (b_size x)"
        using f [OF z] positiveD(1) [OF sd(3) z] by (auto simp: covers_def span_def)
      moreover have "span (b_ptr z) (b_size z) \<inter> span (b_ptr x) (b_size x) = {}"
        using sd(2) z x(1) \<open>c \<noteq> b\<close> unfolding apart_def by blast
      ultimately show False using span_nonempty [OF positiveD(1) [OF sd(3) z], of "b_ptr z"] by blast
    qed
    then show ?thesis
      unfolding covered_def using f by (intro exI [of _ f]) (auto split: if_splits)
  qed
  ultimately show ?thesis by (simp add: shape_def)
qed

end
