(* ===== verification/Pool_Invariant.thy ===== *)
theory Pool_Invariant
  imports Block_Heap
begin

text \<open>
  The invariant that ties the block store to the data structures around it. An operation takes a
  block out of these structures, works on it and puts it back, so every part of the invariant has a
  set \<open>X\<close> of blocks that are exempt from it at the moment. The parts are: a pool holds exactly the
  free blocks that belong to it, in order; a block is active exactly when it is not free; no two free
  neighbours are left unmerged; the event counters agree with the pending events and deferred blocks;
  and a private pool counts its segments. Each part comes with lemmas for the ways in which the
  operations change the store.
\<close>

section \<open>Changes outside the exempt blocks\<close>

text \<open>What a block is besides its links to its neighbours, which others change.\<close>

definition body :: "Block \<Rightarrow> Block" where
  "body x = x\<lparr>b_prev := None, b_next := None\<rparr>"

lemma body_fields:
  assumes "body x = body y"
  shows "b_ptr x = b_ptr y" and "b_size x = b_size y" and "b_pool x = b_pool y" and "b_stream x = b_stream y"
    and "expandable_segment x = expandable_segment y" and "allocated x = allocated y"
    and "mapped x = mapped y" and "event_count x = event_count y" and "stream_uses x = stream_uses y"
    and "allocatable x = allocatable y" and "key_of x = key_of y" and "requested_size x = requested_size y"
proof -
  have "b_ptr (body x) = b_ptr (body y)" "b_size (body x) = b_size (body y)" "b_pool (body x) = b_pool (body y)"
    "b_stream (body x) = b_stream (body y)" "expandable_segment (body x) = expandable_segment (body y)"
    "allocated (body x) = allocated (body y)" "mapped (body x) = mapped (body y)"
    "event_count (body x) = event_count (body y)" "stream_uses (body x) = stream_uses (body y)"
    "requested_size (body x) = requested_size (body y)"
    using assms by simp_all
  then show "b_ptr x = b_ptr y" and "b_size x = b_size y" and "b_pool x = b_pool y" and "b_stream x = b_stream y"
    and "expandable_segment x = expandable_segment y" and "allocated x = allocated y"
    and "mapped x = mapped y" and "event_count x = event_count y" and "stream_uses x = stream_uses y"
    and "allocatable x = allocatable y" and "key_of x = key_of y" and "requested_size x = requested_size y"
    by (simp_all add: body_def allocatable_def key_of_def)
qed

lemma body_links [simp]: "body (x\<lparr>b_prev := p\<rparr>) = body x" "body (x\<lparr>b_next := n\<rparr>) = body x"
  by (simp_all add: body_def)

lemma body_relink [simp]: "body (relink x y kl kr b z) = body z" "body (front b x c z) = body z"
  by (simp_all add: body_def relink_def front_def)

definition agree :: "nat set \<Rightarrow> bheap \<Rightarrow> bheap \<Rightarrow> bool" where
  "agree X h h' \<longleftrightarrow> (\<forall>b. b \<notin> X \<longrightarrow> map_option body (h b) = map_option body (h' b))"

text \<open>
  What a map of blocks says of the blocks that are not free, and of those that the client holds. The
  links are left out: they change when a neighbour is split or merged.
\<close>

definition used :: "bheap \<Rightarrow> nat \<Rightarrow> Block option" where
  "used h c = (case h c of None \<Rightarrow> None | Some z \<Rightarrow> if allocatable z then None else Some (body z))"

definition in_use :: "bheap \<Rightarrow> nat \<Rightarrow> Block option" where
  "in_use h c = (case h c of None \<Rightarrow> None | Some z \<Rightarrow> if allocated z then Some (body z) else None)"

lemma body_allocated [simp]: "allocated (body z) = allocated z" "allocatable (body z) = allocatable z"
  by (simp_all add: body_def allocatable_def)

lemma used_cong: "map_option body (h c) = map_option body (h' c) \<Longrightarrow> used h c = used h' c"
  unfolding used_def by (cases "h c"; cases "h' c") (auto dest: body_fields(10))

lemma usedE:
  assumes "used h' c = used h c" and "h c = Some z" and "\<not> allocatable z"
  obtains z' where "h' c = Some z'" and "body z' = body z"
  using assms by (auto simp: used_def split: option.splits if_splits)

lemma in_use_used: "in_use h c = (case used h c of None \<Rightarrow> None | Some z \<Rightarrow> if allocated z then Some z else None)"
  by (auto simp: in_use_def used_def allocatable_def split: option.splits)

lemma in_use_upd: "in_use (h(b := y)) = (in_use h)(b := (case y of None \<Rightarrow> None | Some z \<Rightarrow> if allocated z then Some (body z) else None))"
  by (auto simp: in_use_def)

lemma in_use_None: "in_use h c = None \<longleftrightarrow> \<not> (\<exists>z. h c = Some z \<and> allocated z)"
  by (auto simp: in_use_def split: option.splits)

lemma agree_sym: "agree X h h' \<Longrightarrow> agree X h' h"
  by (simp add: agree_def)

lemma agreeD:
  assumes "agree X h h'" and "b \<notin> X" and "h' b = Some x'"
  obtains x where "h b = Some x" and "body x = body x'"
  using assms unfolding agree_def by (metis map_option_eq_Some)

lemma agree_upd: "b \<in> X \<Longrightarrow> agree X h (h(b := y))"
  by (simp add: agree_def)

section \<open>Pools\<close>

definition free_in :: "nat set \<Rightarrow> bheap \<Rightarrow> pool_ref \<Rightarrow> nat set" where
  "free_in X h p = {b. b \<notin> X \<and> (\<exists>x. h b = Some x \<and> b_pool x = p \<and> allocatable x)}"

definition pool_ok :: "nat set \<Rightarrow> bheap \<Rightarrow> pool_ref \<Rightarrow> BlockPool \<Rightarrow> bool" where
  "pool_ok X h p bp \<longleftrightarrow> ordered BlockComparatorSize (bkey h) (blocks bp)
     \<and> set (blocks bp) = free_in X h p \<and> unmapped bp = []"

definition pools_ok :: "nat set \<Rightarrow> bheap \<Rightarrow> (pool_ref \<Rightarrow> BlockPool) \<Rightarrow> bool" where
  "pools_ok X h P \<longleftrightarrow> (\<forall>p. pool_ok X h p (P p))"

lemma pool_ok_cong:
  assumes "pool_ok X h p bp" and "free_in X' h' p = free_in X h p"
    and "\<And>b. b \<in> free_in X h p \<Longrightarrow> bkey h' b = bkey h b"
  shows "pool_ok X' h' p bp"
  using assms set_ops_cong(4) [of "blocks bp" "bkey h'" "bkey h" BlockComparatorSize]
  by (simp add: pool_ok_def)

lemma free_in_agree: "agree X h h' \<Longrightarrow> free_in X h' p \<subseteq> free_in X h p"
  unfolding free_in_def by (auto elim!: agreeD dest: body_fields)

lemma bkey_agree:
  assumes "agree X h h'" and "b \<notin> X"
  shows "bkey h' b = bkey h b"
proof (cases "h' b")
  case None
  then show ?thesis using assms by (auto simp: agree_def bkey_def)
next
  case (Some x')
  obtain x where x: "h b = Some x" "body x = body x'" using agreeD [OF assms Some] .
  then show ?thesis using body_fields(11) [OF x(2)] by (simp add: bkey_def Some)
qed

lemma pools_agree:
  assumes "pools_ok X h P" and "agree X h h'"
  shows "pools_ok X h' P"
  unfolding pools_ok_def
proof
  fix p
  have "pool_ok X h p (P p)" using assms(1) by (simp add: pools_ok_def)
  moreover have "free_in X h' p = free_in X h p"
    using free_in_agree [OF assms(2)] free_in_agree [OF agree_sym [OF assms(2)]] by blast
  moreover have "bkey h' b = bkey h b" if "b \<in> free_in X h p" for b
    using that by (intro bkey_agree [OF assms(2)]) (simp add: free_in_def)
  ultimately show "pool_ok X h' p (P p)" by (rule pool_ok_cong)
qed

lemma free_in_insert: "free_in (insert b X) h p = free_in X h p - {b}"
  by (auto simp: free_in_def)

lemma pools_drop:
  assumes "h b = None" and "pools_ok (insert b X) h P"
  shows "pools_ok X h P"
proof -
  have "free_in (insert b X) h p = free_in X h p" for p using assms(1) by (auto simp: free_in_def)
  then show ?thesis using assms(2) by (simp add: pools_ok_def pool_ok_def)
qed

lemma pools_exempt:
  assumes "\<not> (\<exists>x. h b = Some x \<and> allocatable x)"
  shows "pools_ok (insert b X) h P \<longleftrightarrow> pools_ok X h P"
proof -
  have "free_in (insert b X) h p = free_in X h p" for p using assms by (auto simp: free_in_def)
  then show ?thesis by (simp add: pools_ok_def pool_ok_def)
qed

lemma keys_differ:
  assumes "apart h" and "positive h" and "h b = Some x" and "h c = Some y" and "b \<noteq> c"
  shows "BlockComparatorSize (bkey h b) (bkey h c) \<or> BlockComparatorSize (bkey h c) (bkey h b)"
  using apart_ptr [OF assms] assms(3,4) by (auto simp: BlockComparatorSize_def bkey_def key_of_def)

lemma ordered_remove1: "ordered lt f xs \<Longrightarrow> ordered lt f (remove1 b xs)"
  unfolding ordered_def by (induction xs) (use notin_set_remove1 in auto)

text \<open>A block taken out of its pool, in the two ways the code does it.\<close>

lemma pools_take:
  assumes ok: "pools_ok X h P" and b: "b \<in> free_in X h p"
    and q: "q = set_erase BlockComparatorSize (bkey h) b (blocks (P p)) \<or> q = remove1 b (blocks (P p))"
  shows "pools_ok (insert b X) h (P(p := (P p)\<lparr>blocks := q\<rparr>))"
  unfolding pools_ok_def
proof
  fix p'
  have o: "ordered BlockComparatorSize (bkey h) (blocks (P p))" and s: "set (blocks (P p)) = free_in X h p"
    and u: "unmapped (P p) = []" using ok by (simp_all add: pools_ok_def pool_ok_def)
  show "pool_ok (insert b X) h p' ((P(p := (P p)\<lparr>blocks := q\<rparr>)) p')"
  proof (cases "p' = p")
    case True
    have "set q = free_in X h p - {b}"
      using q by_size.erase_member(1) [OF o] b s by_size.ordered_distinct [OF o] by auto
    moreover have "ordered BlockComparatorSize (bkey h) q"
      using q by_size.erase_member(2) [OF o, of b] b s ordered_remove1 [OF o] by auto
    ultimately show ?thesis using True u by (simp add: pool_ok_def free_in_insert)
  next
    case False
    then have "b \<notin> free_in X h p'" using b by (auto simp: free_in_def)
    then show ?thesis using ok False by (simp add: pools_ok_def pool_ok_def free_in_insert)
  qed
qed

lemma pools_put:
  assumes ok: "pools_ok X h P" and h: "apart h" "positive h" and x: "h b = Some x" "allocatable x"
    and b: "b \<in> X" and p: "b_pool x = p"
  shows "pools_ok (X - {b}) h (P(p := (P p)\<lparr>blocks := set_insert BlockComparatorSize (bkey h) b (blocks (P p))\<rparr>))"
    and "\<not> set_has BlockComparatorSize (bkey h) (bkey h b) (blocks (P p))"
proof -
  have o: "ordered BlockComparatorSize (bkey h) (blocks (P p))" and s: "set (blocks (P p)) = free_in X h p"
    and u: "unmapped (P p) = []" using ok by (simp_all add: pools_ok_def pool_ok_def)
  have d: "\<forall>y \<in> set (blocks (P p)). BlockComparatorSize (bkey h b) (bkey h y) \<or> BlockComparatorSize (bkey h y) (bkey h b)"
    unfolding s using keys_differ [OF h x(1)] b by (auto simp: free_in_def)
  show "\<not> set_has BlockComparatorSize (bkey h) (bkey h b) (blocks (P p))"
    by (rule by_size.insert_set(2) [OF o d])
  have new: "free_in (X - {b}) h p = insert b (free_in X h p)"
    using x p b by (auto simp: free_in_def)
  have other: "free_in (X - {b}) h p' = free_in X h p'" if "p' \<noteq> p" for p'
    using x p that by (auto simp: free_in_def)
  show "pools_ok (X - {b}) h (P(p := (P p)\<lparr>blocks := set_insert BlockComparatorSize (bkey h) b (blocks (P p))\<rparr>))"
    using by_size.insert_ordered [OF o, of b] by_size.insert_set(1) [OF o d] s u ok new other
    by (auto simp: pools_ok_def pool_ok_def)
qed

section \<open>Active blocks\<close>

definition active_ok :: "nat set \<Rightarrow> bheap \<Rightarrow> nat list \<Rightarrow> bool" where
  "active_ok X h A \<longleftrightarrow> distinct A
     \<and> (\<forall>b. b \<notin> X \<longrightarrow> (b \<in> set A \<longleftrightarrow> (\<exists>x. h b = Some x \<and> \<not> allocatable x)))"

lemma agree_iff:
  assumes "agree X h h'" and "b \<notin> X" and "\<And>x y. body x = body y \<Longrightarrow> P x = P y"
  shows "(\<exists>x. h' b = Some x \<and> P x) \<longleftrightarrow> (\<exists>x. h b = Some x \<and> P x)"
  using agreeD [OF assms(1,2)] agreeD [OF agree_sym [OF assms(1)] assms(2)] assms(3) by metis

lemma active_agree:
  assumes "active_ok X h A" and "agree X h h'"
  shows "active_ok X h' A"
proof -
  have "(\<exists>x. h' b = Some x \<and> \<not> allocatable x) \<longleftrightarrow> (\<exists>x. h b = Some x \<and> \<not> allocatable x)" if "b \<notin> X" for b
    by (rule agree_iff [OF assms(2) that]) (metis body_fields(10))
  then show ?thesis using assms(1) by (simp add: active_ok_def)
qed

lemma active_drop: "active_ok (insert b X) h A \<Longrightarrow> h b = None \<Longrightarrow> b \<notin> set A \<Longrightarrow> active_ok X h A"
  unfolding active_ok_def by (metis insert_iff option.distinct(1))

lemma active_widen: "active_ok X h A \<Longrightarrow> X \<subseteq> Y \<Longrightarrow> active_ok Y h A"
  by (auto simp: active_ok_def)

lemma active_close:
  assumes "active_ok X h A" and "distinct A'" and "set A' - {b} = set A - {b}"
    and "b \<in> set A' \<longleftrightarrow> (\<exists>x. h b = Some x \<and> \<not> allocatable x)"
  shows "active_ok (X - {b}) h A'"
  unfolding active_ok_def
proof (intro conjI allI impI)
  fix c assume "c \<notin> X - {b}"
  show "c \<in> set A' \<longleftrightarrow> (\<exists>x. h c = Some x \<and> \<not> allocatable x)"
  proof (cases "c = b")
    case False
    then have "c \<in> set A' \<longleftrightarrow> c \<in> set A" using assms(3) by blast
    then show ?thesis using assms(1) False \<open>c \<notin> X - {b}\<close> by (simp add: active_ok_def)
  qed (use assms(4) in simp)
qed (rule assms(2))

section \<open>No free neighbours\<close>

definition merged :: "nat set \<Rightarrow> bheap \<Rightarrow> bool" where
  "merged X h \<longleftrightarrow> (\<forall>b x n y. h b = Some x \<longrightarrow> b_next x = Some n \<longrightarrow> h n = Some y \<longrightarrow>
     b \<notin> X \<longrightarrow> n \<notin> X \<longrightarrow> \<not> (allocatable x \<and> allocatable y))"

lemma mergedD:
  "merged X h \<Longrightarrow> h b = Some x \<Longrightarrow> b_next x = Some n \<Longrightarrow> h n = Some y \<Longrightarrow> b \<notin> X \<Longrightarrow> n \<notin> X \<Longrightarrow>
     \<not> (allocatable x \<and> allocatable y)"
  unfolding merged_def by blast

lemma merged_widen: "merged X h \<Longrightarrow> X \<subseteq> Y \<Longrightarrow> merged Y h"
  unfolding merged_def by blast

text \<open>The links of the blocks outside \<open>X\<close> to blocks outside \<open>X\<close> are the old ones.\<close>

lemma merged_agree:
  assumes "merged X h" and "agree X h h'"
    and "\<And>b x n x'. h' b = Some x' \<Longrightarrow> h b = Some x \<Longrightarrow> b_next x' = Some n \<Longrightarrow> b \<notin> X \<Longrightarrow> n \<notin> X \<Longrightarrow> b_next x = Some n"
  shows "merged X h'"
  unfolding merged_def
proof (intro allI impI)
  fix b x' n y'
  assume hb: "h' b = Some x'" and n: "b_next x' = Some n" and hn: "h' n = Some y'" and X: "b \<notin> X" "n \<notin> X"
  obtain x where x: "h b = Some x" "body x = body x'" using agreeD [OF assms(2) X(1) hb] .
  obtain y where y: "h n = Some y" "body y = body y'" using agreeD [OF assms(2) X(2) hn] .
  show "\<not> (allocatable x' \<and> allocatable y')"
    using mergedD [OF assms(1) x(1) assms(3) [OF hb x(1) n X] y(1) X]
      body_fields(10) [OF x(2)] body_fields(10) [OF y(2)] by simp
qed

lemma merged_close:
  assumes m: "merged X h" and L: "links h" and x: "h b = Some x"
    and nb: "\<And>n y. allocatable x \<Longrightarrow> b_next x = Some n \<Longrightarrow> h n = Some y \<Longrightarrow> n \<notin> X - {b} \<Longrightarrow> \<not> allocatable y"
    and pb: "\<And>n y. allocatable x \<Longrightarrow> b_prev x = Some n \<Longrightarrow> h n = Some y \<Longrightarrow> n \<notin> X - {b} \<Longrightarrow> \<not> allocatable y"
  shows "merged (X - {b}) h"
  unfolding merged_def
proof (intro allI impI)
  fix c u n v assume cu: "h c = Some u" and n: "b_next u = Some n" and nv: "h n = Some v"
    and X: "c \<notin> X - {b}" "n \<notin> X - {b}"
  show "\<not> (allocatable u \<and> allocatable v)"
  proof (cases "c = b")
    case True
    then show ?thesis using nb n nv cu x X by auto
  next
    case cb: False
    show ?thesis
    proof (cases "n = b")
      case True
      then have "b_prev x = Some c" using links_next [OF L cu n] x by auto
      then show ?thesis using pb cu nv x True X by auto
    next
      case False
      then show ?thesis using mergedD [OF m cu n nv] X cb by blast
    qed
  qed
qed

section \<open>Events\<close>

text \<open>
  \<open>Ev b\<close> is the number of pending events of block \<open>b\<close>, \<open>Dl\<close> the blocks whose events are deferred until
  no capture is under way.
\<close>

definition ev_counts :: "(nat \<Rightarrow> nat) \<Rightarrow> bheap \<Rightarrow> bool" where
  "ev_counts Ev h \<longleftrightarrow> (\<forall>b x. h b = Some x \<longrightarrow> event_count x = int (Ev b)) \<and> (\<forall>b. h b = None \<longrightarrow> Ev b = 0)"

definition waiting :: "Block \<Rightarrow> bool" where
  "waiting x \<longleftrightarrow> \<not> allocated x \<and> stream_uses x \<noteq> []"

definition ev_status :: "nat set \<Rightarrow> (nat \<Rightarrow> nat) \<Rightarrow> nat list \<Rightarrow> bheap \<Rightarrow> bool" where
  "ev_status X Ev Dl h \<longleftrightarrow> distinct Dl \<and> set Dl \<inter> X = {}
     \<and> (\<forall>b x. b \<notin> X \<longrightarrow> h b = Some x \<longrightarrow> 0 < Ev b \<longrightarrow> \<not> allocated x \<and> stream_uses x = [])
     \<and> (\<forall>b. b \<notin> X \<longrightarrow> (b \<in> set Dl \<longleftrightarrow> (\<exists>x. h b = Some x \<and> waiting x)))"

lemma ev_status_agree:
  assumes "ev_status X Ev Dl h" and "agree X h h'"
  shows "ev_status X Ev Dl h'"
proof -
  have "(\<exists>x. h' b = Some x \<and> waiting x) \<longleftrightarrow> (\<exists>x. h b = Some x \<and> waiting x)" if "b \<notin> X" for b
    by (rule agree_iff [OF assms(2) that]) (metis waiting_def body_fields(6,9))
  moreover have "\<not> allocated x \<and> stream_uses x = []" if q: "b \<notin> X" "h' b = Some x" "0 < Ev b" for b x
  proof -
    obtain y where y: "h b = Some y" "body y = body x" using agreeD [OF assms(2) q(1,2)] .
    then have "\<not> allocated y \<and> stream_uses y = []" using assms(1) q(1,3) unfolding ev_status_def by blast
    then show ?thesis using body_fields(6,9) [OF y(2)] by simp
  qed
  ultimately show ?thesis using assms(1) unfolding ev_status_def by blast
qed

lemma ev_status_widen:
  "ev_status X Ev Dl h \<Longrightarrow> b \<notin> set Dl \<Longrightarrow> ev_status (insert b X) Ev Dl h"
  unfolding ev_status_def by blast

lemma ev_status_close:
  assumes "ev_status X Ev Dl h"
    and "\<And>x. h b = Some x \<Longrightarrow> (0 < Ev b \<longrightarrow> \<not> allocated x \<and> stream_uses x = []) \<and> \<not> waiting x"
    and "b \<in> X"
  shows "ev_status (X - {b}) Ev Dl h"
  unfolding ev_status_def
proof (intro conjI allI impI)
  fix c
  have "b \<notin> set Dl" using assms(1,3) by (auto simp: ev_status_def)
  moreover assume "c \<notin> X - {b}"
  ultimately show "c \<in> set Dl \<longleftrightarrow> (\<exists>x. h c = Some x \<and> waiting x)"
    using assms(1) assms(2) unfolding ev_status_def by (cases "c = b") blast+
next
  fix c x assume "c \<notin> X - {b}" "h c = Some x" "0 < Ev c"
  then show "\<not> allocated x" and "stream_uses x = []"
    using assms(1,2) unfolding ev_status_def by (cases "c = b"; blast)+
qed (use assms in \<open>auto simp: ev_status_def\<close>)

section \<open>Private pools\<close>

definition heads :: "bheap \<Rightarrow> mempool_id \<Rightarrow> nat set" where
  "heads h i = {b. \<exists>x. h b = Some x \<and> b_prev x = None \<and> owner_PrivatePool (b_pool x) = Some i}"

definition gp_ok :: "bheap \<Rightarrow> (mempool_id \<times> PrivatePool) list \<Rightarrow> bool" where
  "gp_ok h gps \<longleftrightarrow> distinct (map fst gps) \<and> (\<forall>b x. h b = Some x \<longrightarrow> pool_live gps (b_pool x))
     \<and> (\<forall>i pp. (i, pp) \<in> set gps \<longrightarrow> supaMalloc_count pp = int (card (heads h i)))"

lemma bounded_finite:
  assumes "bounded n h"
  shows "finite (heads h i)" and "finite (dom h)"
proof -
  have "dom h \<subseteq> {..< n}" using assms by (auto simp: bounded_def)
  then show "finite (dom h)" by (rule finite_subset) simp
  then show "finite (heads h i)" by (rule finite_subset [rotated]) (auto simp: heads_def)
qed

lemma gp_cong:
  assumes "gp_ok h gps" and "\<And>b x'. h' b = Some x' \<Longrightarrow> pool_live gps (b_pool x')"
    and "\<And>i. card (heads h' i) = card (heads h i)"
  shows "gp_ok h' gps"
  using assms by (simp add: gp_ok_def)

end
