(* ===== verification/Device_Invariant.thy ===== *)
theory Device_Invariant
  imports Pool_Invariant
begin

text \<open>
  The invariant of a device allocator as a predicate on the part of its state that matters for
  memory safety (the record \<open>mview\<close>: everything but statistics, trace and limits), and its behaviour
  under the changes the operations are made of: rewriting an exempt block, merging, splitting, adding
  and removing segments, and moving blocks between the pools and the active set.
\<close>

section \<open>The view and the invariant\<close>

record mview =
  v_heap :: bheap
  v_next :: nat
  v_pools :: "pool_ref \<Rightarrow> BlockPool"
  v_active :: "nat list"
  v_gpools :: "(mempool_id \<times> PrivatePool) list"
  v_live :: "(nat \<times> nat) set"
  v_deferred :: "nat list"
  v_events :: "(stream_ref \<times> (nat \<times> nat) list) list"
  v_freeable :: "mempool_id list"
  v_captures :: "(mempool_id \<times> (nat \<Rightarrow> bool)) list"
  v_uses :: "nat \<Rightarrow> stream_ref list option"

definition view :: "('d \<Rightarrow> (nat \<times> nat) set) \<Rightarrow> 'd dca \<Rightarrow> mview" where
  "view live s = \<lparr>v_heap = heap s, v_next = next_block s, v_pools = pools s, v_active = active_blocks s,
     v_gpools = graph_pools s, v_live = live (drv (world s)), v_deferred = needs_events_deferred s,
     v_events = supa_events s, v_freeable = graph_pools_freeable s, v_captures = captures_underway s,
     v_uses = block_to_supagraph_stream_uses s\<rparr>"

definition plain :: "Block \<Rightarrow> bool" where
  "plain x \<longleftrightarrow> mapped x \<and> expandable_segment x = None"

definition plain_heap :: "bheap \<Rightarrow> bool" where
  "plain_heap h \<longleftrightarrow> (\<forall>b x. h b = Some x \<longrightarrow> plain x)"

definition inv :: "nat set \<Rightarrow> (nat \<Rightarrow> nat) \<Rightarrow> nat list \<Rightarrow> mview \<Rightarrow> bool" where
  "inv X Ev Dl v \<longleftrightarrow> shape (v_live v) (\<lambda>_. None) (v_next v) (v_heap v) \<and> ranges_ok (v_live v)
     \<and> plain_heap (v_heap v) \<and> pools_ok X (v_heap v) (v_pools v) \<and> active_ok X (v_heap v) (v_active v)
     \<and> merged X (v_heap v) \<and> ev_counts Ev (v_heap v) \<and> ev_status X Ev Dl (v_heap v)
     \<and> gp_ok (v_heap v) (v_gpools v)"

lemma invD:
  assumes "inv X Ev Dl v"
  shows "shape (v_live v) (\<lambda>_. None) (v_next v) (v_heap v)" and "ranges_ok (v_live v)"
    and "plain_heap (v_heap v)" and "pools_ok X (v_heap v) (v_pools v)" and "active_ok X (v_heap v) (v_active v)"
    and "merged X (v_heap v)" and "ev_counts Ev (v_heap v)" and "ev_status X Ev Dl (v_heap v)"
    and "gp_ok (v_heap v) (v_gpools v)"
  using assms by (simp_all add: inv_def)

lemmas inv_shape = invD(1) [THEN shapeD(1)] invD(1) [THEN shapeD(2)] invD(1) [THEN shapeD(3)]
  invD(1) [THEN shapeD(4)] invD(1) [THEN shapeD(5)]

text \<open>The invariant looks at the first six fields only.\<close>

lemma inv_frame [simp]:
  "inv X Ev Dl (v\<lparr>v_deferred := d\<rparr>) = inv X Ev Dl v"
  "inv X Ev Dl (v\<lparr>v_events := e\<rparr>) = inv X Ev Dl v"
  "inv X Ev Dl (v\<lparr>v_freeable := f\<rparr>) = inv X Ev Dl v"
  "inv X Ev Dl (v\<lparr>v_captures := c\<rparr>) = inv X Ev Dl v"
  "inv X Ev Dl (v\<lparr>v_uses := u\<rparr>) = inv X Ev Dl v"
  by (simp_all add: inv_def)

lemma ev_allocatable:
  assumes "inv X Ev Dl v" and "v_heap v b = Some x"
  shows "allocatable x \<longleftrightarrow> \<not> allocated x \<and> Ev b = 0 \<and> stream_uses x = []"
  using invD(7) [OF assms(1)] assms(2) by (simp add: ev_counts_def allocatable_def)

section \<open>Rewriting an exempt block\<close>

lemma inv_set:
  assumes I: "inv X Ev Dl v" and x: "v_heap v b = Some x" and b: "b \<in> X" and sk: "skel x' = skel x"
    and pl: "mapped x'" and ev: "event_count x' = int (Ev' b)" and E: "\<And>c. c \<noteq> b \<Longrightarrow> Ev' c = Ev c"
  shows "inv X Ev' Dl (v\<lparr>v_heap := (v_heap v)(b \<mapsto> x')\<rparr>)"
proof -
  let ?h = "v_heap v" and ?h' = "(v_heap v)(b \<mapsto> x')"
  note d = invD [OF I]
  have ag: "agree X ?h ?h'" using b by (rule agree_upd)
  have ss: "same_shape ?h ?h'" using x sk by (simp add: same_shape_def)
  have "plain x'" using pl d(3) x skel_fields(7) [OF sk] by (auto simp: plain_heap_def plain_def)
  then have "plain_heap ?h'" using d(3) by (simp add: plain_heap_def)
  moreover have "merged X ?h'" using d(6) ag b by (rule_tac merged_agree) (auto split: if_splits)
  moreover have "ev_counts Ev' ?h'" using d(7) ev E x by (auto simp: ev_counts_def)
  moreover have "ev_status X Ev' Dl ?h'"
  proof -
    have "ev_status X Ev Dl ?h'" by (rule ev_status_agree [OF d(8) ag])
    moreover have "Ev' c = Ev c" if "c \<notin> X" for c using b that by (intro E) auto
    ultimately show ?thesis unfolding ev_status_def by metis
  qed
  moreover have "gp_ok ?h' (v_gpools v)"
  proof (rule gp_cong [OF d(9)])
    have "heads ?h' i = heads ?h i" for i
      using x skel_fields(1,5) [OF sk] by (auto simp: heads_def)
    then show "card (heads ?h' i) = card (heads ?h i)" for i by simp
    show "pool_live (v_gpools v) (b_pool y)" if "?h' c = Some y" for c y
      using that d(9) x skel_fields(5) [OF sk] unfolding gp_ok_def by (metis fun_upd_apply option.inject)
  qed
  ultimately show ?thesis
    using d shape_same [OF ss d(1)] pools_agree [OF d(4) ag] active_agree [OF d(5) ag]
    by (simp add: inv_def)
qed

section \<open>Merging\<close>

definition merge_into :: "bheap \<Rightarrow> nat \<Rightarrow> nat \<Rightarrow> nat \<Rightarrow> Block \<Rightarrow> bheap" where
  "merge_into h l r k m = (\<lambda>c. if c = k then Some m else if c = l \<or> c = r then None
     else map_option (relink (the (h l)) (the (h r)) k k c) (h c))"

lemma merge_into_merged:
  assumes "h l = Some x" and "h r = Some y" and "b_next x = Some r" and "k = l \<or> k = r" and "l \<noteq> r"
    and "skel m = (b_prev x, b_next y, b_ptr x, b_size x + b_size y, b_pool x, b_stream x, expandable_segment x)"
  shows "merged_heap h l r k (merge_into h l r k m)"
  using assms by (auto simp: merged_heap_def merge_into_def option.map_comp comp_def)

lemma card_swap:
  assumes "a \<in> S" and "b \<notin> S"
  shows "card (insert b (S - {a})) = card S"
proof (cases "finite S")
  case True
  have "card (insert b (S - {a})) = Suc (card (S - {a}))"
    using True assms by (intro card_insert_disjoint) auto
  then show ?thesis using card_Suc_Diff1 [OF True assms(1)] by (rule trans)
next
  case False
  then show ?thesis using assms by simp
qed

lemma merge_into_heads:
  assumes L: "links h" and x: "h l = Some x" and y: "h r = Some y" and lr: "b_next x = Some r"
    and k: "k = l \<or> k = r" and ne: "l \<noteq> r" and m: "b_prev m = b_prev x" "b_pool m = b_pool x"
  shows "card (heads (merge_into h l r k m) i) = card (heads h i)"
proof -
  have py: "b_prev y = Some l" using links_next [OF L x lr] y by auto
  have rn: "r \<notin> heads h i" using y py by (simp add: heads_def)
  have nx: "b_prev z = Some r" if "b_next y = Some c" "h c = Some z" for c z
    using links_next [OF L y that(1)] that(2) by auto
  have same: "c \<in> heads (merge_into h l r k m) i \<longleftrightarrow> c \<in> heads h i" if "c \<noteq> l" "c \<noteq> r" for c
    using that k nx by (auto simp: heads_def merge_into_def x y split: if_splits)
  have "k \<in> heads (merge_into h l r k m) i \<longleftrightarrow> l \<in> heads h i"
    using m x by (simp add: heads_def merge_into_def)
  moreover have "c \<notin> heads (merge_into h l r k m) i" if "c = l \<or> c = r" "c \<noteq> k" for c
    using that by (auto simp: heads_def merge_into_def)
  ultimately have "heads (merge_into h l r k m) i = (if l \<in> heads h i then insert k (heads h i - {l}) else heads h i)"
    using same k rn ne by (intro set_eqI) (metis Diff_iff insert_iff singleton_iff)
  then show ?thesis
    using k rn card_swap [of l "heads h i" r] by (auto simp: insert_absorb)
qed

lemma merged_drop: "h g = None \<Longrightarrow> merged (insert g X) h \<Longrightarrow> merged X h"
  unfolding merged_def by (metis insert_iff option.distinct(1))

lemma ev_status_drop: "h g = None \<Longrightarrow> g \<notin> set Dl \<Longrightarrow> ev_status (insert g X) Ev Dl h \<Longrightarrow> ev_status X Ev Dl h"
  unfolding ev_status_def by (metis Int_insert_right_if0 insert_iff option.distinct(1))

lemma merge_into_other:
  assumes "merge_into h l r k m b = Some u" and "b \<noteq> k"
  obtains u0 where "h b = Some u0" and "b \<noteq> l" and "b \<noteq> r"
    and "u = relink (the (h l)) (the (h r)) k k b u0"
  using assms by (auto simp: merge_into_def split: if_splits)

lemma merge_into_agree:
  assumes "(k = l \<and> g = r) \<or> (k = r \<and> g = l)" and "k \<in> X"
  shows "agree (insert g X) h (merge_into h l r k m)"
  unfolding agree_def
proof (intro allI impI)
  fix b assume "b \<notin> insert g X"
  then have "b \<noteq> l" "b \<noteq> r" "b \<noteq> k" using assms by auto
  then show "map_option body (h b) = map_option body (merge_into h l r k m b)"
    by (simp add: merge_into_def option.map_comp comp_def)
qed

lemma merge_into_counts:
  assumes c: "ev_counts Ev h" and hk: "h k = Some x" and e: "event_count m = event_count x" and g: "Ev g = 0"
    and kg: "(k = l \<and> g = r) \<or> (k = r \<and> g = l)"
  shows "ev_counts Ev (merge_into h l r k m)"
  unfolding ev_counts_def
proof (intro conjI allI impI)
  fix b u assume u: "merge_into h l r k m b = Some u"
  show "event_count u = int (Ev b)"
  proof (cases "b = k")
    case True
    then have "u = m" using u by (simp add: merge_into_def)
    then show ?thesis using e c hk True by (simp add: ev_counts_def)
  next
    case False
    obtain u0 where "h b = Some u0" "u = relink (the (h l)) (the (h r)) k k b u0"
      using merge_into_other [OF u False] by blast
    then show ?thesis using c by (simp add: ev_counts_def relink_def)
  qed
next
  fix b assume "merge_into h l r k m b = None"
  then have "b = g \<or> h b = None" using kg by (auto simp: merge_into_def split: if_splits)
  then show "Ev b = 0" using c g by (auto simp: ev_counts_def)
qed

lemma merge_into_plain:
  assumes "plain_heap h" and "plain m"
  shows "plain_heap (merge_into h l r k m)"
  unfolding plain_heap_def
proof (intro allI impI)
  fix b u assume u: "merge_into h l r k m b = Some u"
  show "plain u"
  proof (cases "b = k")
    case True
    then show ?thesis using u assms(2) by (simp add: merge_into_def)
  next
    case False
    obtain u0 where "h b = Some u0" "u = relink (the (h l)) (the (h r)) k k b u0"
      using merge_into_other [OF u False] by blast
    then show ?thesis using assms(1) by (simp add: plain_heap_def plain_def relink_def)
  qed
qed

lemma merge_into_unmerged:
  assumes d: "merged X h" and kg: "(k = l \<and> g = r) \<or> (k = r \<and> g = l)" and kX: "k \<in> X" and ne: "l \<noteq> r"
  shows "merged X (merge_into h l r k m)"
proof (rule merged_drop [of "merge_into h l r k m" g],
    goal_cases)
  case 2
  show ?case
  proof (rule merged_agree [OF merged_widen [OF d] merge_into_agree [OF kg kX]])
    fix b u n u' assume u: "merge_into h l r k m b = Some u'" "h b = Some u" "b_next u' = Some n"
      "b \<notin> insert g X" "n \<notin> insert g X"
    then have bk: "b \<noteq> k" and nk: "n \<noteq> k" using kX by auto
    obtain u0 where "h b = Some u0" "u' = relink (the (h l)) (the (h r)) k k b u0"
      using merge_into_other [OF u(1) bk] by blast
    then show "b_next u = Some n" using u(2,3) nk by (simp split: if_splits)
  qed auto
qed (use kg ne in \<open>auto simp: merge_into_def\<close>)

lemma inv_merge:
  assumes I: "inv X Ev Dl v" and h: "h = v_heap v" and x: "h l = Some x" and y: "h r = Some y"
    and lr: "b_next x = Some r" and kg: "(k = l \<and> g = r) \<or> (k = r \<and> g = l)" and kX: "k \<in> X" and gX: "g \<notin> X"
    and z: "h g = Some z" "allocatable z"
    and m: "skel m = (b_prev x, b_next y, b_ptr x, b_size x + b_size y, b_pool x, b_stream x, expandable_segment x)"
      "mapped m" "event_count m = event_count (the (h k))"
    and q: "q = set_erase BlockComparatorSize (bkey h) g (blocks (v_pools v (b_pool z)))"
  shows "inv X Ev Dl (v\<lparr>v_heap := merge_into h l r k m,
    v_pools := (v_pools v)(b_pool z := (v_pools v (b_pool z))\<lparr>blocks := q\<rparr>)\<rparr>)"
proof -
  note d = invD [OF I, folded h] and s = inv_shape [OF I, folded h]
  let ?h' = "merge_into h l r k m" and ?P = "(v_pools v)(b_pool z := (v_pools v (b_pool z))\<lparr>blocks := q\<rparr>)"
  have ne: "l \<noteq> r" using next_neq [OF s(1,3) x lr] by simp
  have k: "k = l \<or> k = r" using kg by blast
  have hg: "?h' g = None" using kg ne by (auto simp: merge_into_def)
  have ag: "agree (insert g X) h ?h'" by (rule merge_into_agree [OF kg kX])
  have "g \<in> free_in X h (b_pool z)" using gX z by (simp add: free_in_def)
  then have "pools_ok (insert g X) h ?P" using q by (intro pools_take [OF d(4)]) simp_all
  from pools_agree [OF this ag] have "pools_ok X ?h' ?P" by (rule pools_drop [of ?h' g, OF hg])
  moreover have "g \<notin> set (v_active v)" using d(5) gX z by (simp add: active_ok_def)
  then have "active_ok X ?h' (v_active v)"
    by (intro active_drop [of g, OF active_agree [OF active_widen [OF d(5)] ag] hg]) auto
  moreover have "merged X ?h'" by (rule merge_into_unmerged [OF d(6) kg kX ne])
  moreover obtain w where w: "h k = Some w" using k x y by blast
  have "Ev g = 0" using ev_allocatable [OF I, folded h, OF z(1)] z(2) by simp
  then have "ev_counts Ev ?h'" using m(3) w by (intro merge_into_counts [OF d(7) w _ _ kg]) simp_all
  moreover have gD: "g \<notin> set Dl" using d(8) gX z unfolding ev_status_def by (auto simp: waiting_def allocatable_def)
  have "ev_status X Ev Dl ?h'"
    by (rule ev_status_drop [of ?h' g, OF hg gD ev_status_agree [OF ev_status_widen [OF d(8) gD] ag]])
  moreover have mf: "b_prev m = b_prev x" "b_pool m = b_pool x" "expandable_segment m = expandable_segment x"
    using m(1) by (simp_all add: skel_def)
  have "pool_live (v_gpools v) (b_pool u)" if "?h' b = Some u" for b u
  proof (cases "b = k")
    case True
    then have "u = m" using that by (simp add: merge_into_def)
    then show ?thesis using d(9) x mf(2) by (simp add: gp_ok_def)
  next
    case False
    then show ?thesis using merge_into_other [OF that] d(9) unfolding gp_ok_def by (metis relink_fields(3))
  qed
  then have "gp_ok ?h' (v_gpools v)"
    by (intro gp_cong [OF d(9)] merge_into_heads [OF s(1) x y lr k ne mf(1,2)])
  moreover have "plain m" using d(3) x m(2) mf(3) by (simp add: plain_heap_def plain_def)
  then have "plain_heap ?h'" by (rule merge_into_plain [OF d(3)])
  ultimately show ?thesis
    using merge_shape [OF d(1) merge_into_merged [OF x y lr k ne m(1)]] d(2) by (simp add: inv_def)
qed

section \<open>Splitting\<close>

definition split_into :: "bheap \<Rightarrow> nat \<Rightarrow> nat \<Rightarrow> Block \<Rightarrow> Block \<Rightarrow> bheap" where
  "split_into h k b l r = (\<lambda>c. if c = b then Some l else if c = k then Some r
     else map_option (front b (the (h k)) c) (h c))"

lemma split_into_other:
  assumes "split_into h k b l r c = Some u" and "c \<noteq> b" and "c \<noteq> k"
  obtains u0 where "h c = Some u0" and "u = front b (the (h k)) c u0"
  using assms by (auto simp: split_into_def)

lemma split_into_agree: "b \<in> X \<Longrightarrow> k \<in> X \<Longrightarrow> agree X h (split_into h k b l r)"
  by (auto simp: agree_def split_into_def option.map_comp comp_def)

lemma split_into_heads:
  assumes x: "h k = Some x" and hb: "h b = None" and l: "b_prev l = b_prev x" "b_pool l = b_pool x"
    and r: "b_prev r = Some b"
  shows "card (heads (split_into h k b l r) i) = card (heads h i)"
proof -
  have kb: "k \<noteq> b" using x hb by auto
  have same: "c \<in> heads (split_into h k b l r) i \<longleftrightarrow> c \<in> heads h i" if "c \<noteq> b" "c \<noteq> k" for c
    using that by (auto simp: heads_def split_into_def)
  have bn: "b \<notin> heads h i" using hb by (simp add: heads_def)
  have "b \<in> heads (split_into h k b l r) i \<longleftrightarrow> k \<in> heads h i" "k \<notin> heads (split_into h k b l r) i"
    using l r x kb by (simp_all add: heads_def split_into_def)
  then have "heads (split_into h k b l r) i = (if k \<in> heads h i then insert b (heads h i - {k}) else heads h i)"
    using same bn kb by (intro set_eqI) (metis Diff_iff insert_iff singleton_iff)
  then show ?thesis using bn card_swap [of k "heads h i" b] by simp
qed

lemma split_into_unmerged:
  assumes "merged X h" and "b \<in> X" and "k \<in> X"
  shows "merged X (split_into h k b l r)"
proof (rule merged_agree [OF assms(1) split_into_agree [OF assms(2,3)]])
  fix c u n u' assume u: "split_into h k b l r c = Some u'" "h c = Some u" "b_next u' = Some n" "c \<notin> X" "n \<notin> X"
  then have cb: "c \<noteq> b" and ck: "c \<noteq> k" and nb: "n \<noteq> b" using assms(2,3) by auto
  obtain u0 where "h c = Some u0" "u' = front b (the (h k)) c u0"
    using split_into_other [OF u(1) cb ck] by blast
  then show "b_next u = Some n" using u(2,3) nb by (simp split: if_splits)
qed

lemma ev_status_fresh: "ev_status X Ev Dl h \<Longrightarrow> h b = None \<Longrightarrow> ev_status (insert b X) Ev Dl h"
  by (rule ev_status_widen) (auto simp: ev_status_def)

lemma inv_split:
  assumes I: "inv X Ev Dl v" and h: "h = v_heap v" and b: "b = v_next v" and k: "k \<in> X" and x: "h k = Some x"
    and sz: "0 < sz" "sz < b_size x"
    and l: "skel l = (b_prev x, Some k, b_ptr x, sz, b_pool x, b_stream x, expandable_segment x)"
      "mapped l" "event_count l = 0"
    and r: "skel r = (Some b, b_next x, b_ptr x + sz, b_size x - sz, b_pool x, b_stream x, expandable_segment x)"
      "mapped r" "event_count r = event_count x"
  shows "inv (insert b X) Ev Dl (v\<lparr>v_heap := split_into h k b l r, v_next := Suc b\<rparr>)"
proof -
  note d = invD [OF I, folded h b] and s = inv_shape [OF I, folded h b]
  let ?h' = "split_into h k b l r"
  have hb: "h b = None" using s(4) unfolding bounded_def by (cases "h b") auto
  have lf: "b_prev l = b_prev x" "b_pool l = b_pool x" "expandable_segment l = expandable_segment x"
    and rf: "b_prev r = Some b" "b_pool r = b_pool x" "expandable_segment r = expandable_segment x"
    using l(1) r(1) by (simp_all add: skel_def)
  have ag: "agree (insert b X) h ?h'" using k by (intro split_into_agree) auto
  have "\<not> (\<exists>x. h b = Some x \<and> allocatable x)" using hb by simp
  then have "pools_ok (insert b X) h (v_pools v)" using d(4) by (simp add: pools_exempt)
  then have "pools_ok (insert b X) ?h' (v_pools v)" using ag by (rule pools_agree)
  moreover have "active_ok (insert b X) ?h' (v_active v)"
    by (rule active_agree [OF active_widen [OF d(5)] ag]) auto
  moreover have "merged (insert b X) ?h'"
    using k by (intro split_into_unmerged merged_widen [OF d(6)]) auto
  moreover have cases: "P u" if u: "?h' c = Some u" and "P l" "P r"
    and "\<And>u0. h c = Some u0 \<Longrightarrow> c \<noteq> b \<Longrightarrow> c \<noteq> k \<Longrightarrow> P (front b x c u0)" for P c u
  proof (cases "c = b \<or> c = k")
    case True
    then show ?thesis using u \<open>P l\<close> \<open>P r\<close> by (simp add: split_into_def split: if_splits)
  next
    case False
    then obtain u0 where "h c = Some u0" "u = front b (the (h k)) c u0"
      using split_into_other [OF u] by blast
    then show ?thesis using that(4) False x by simp
  qed
  have "ev_counts Ev ?h'"
    unfolding ev_counts_def
  proof (intro conjI allI impI)
    fix c u assume u: "?h' c = Some u"
    show "event_count u = int (Ev c)"
    proof (cases "c = b \<or> c = k")
      case True
      then show ?thesis using u l(3) r(3) d(7) hb x by (auto simp: split_into_def ev_counts_def split: if_splits)
    next
      case False
      then obtain u0 where "h c = Some u0" "u = front b (the (h k)) c u0"
        using split_into_other [OF u] by blast
      then show ?thesis using d(7) by (simp add: ev_counts_def front_def)
    qed
  next
    fix c assume "?h' c = None"
    then show "Ev c = 0" using d(7) by (simp add: split_into_def ev_counts_def split: if_splits)
  qed
  moreover have "ev_status (insert b X) Ev Dl ?h'"
    by (rule ev_status_agree [OF ev_status_fresh [OF d(8) hb] ag])
  moreover have "gp_ok ?h' (v_gpools v)"
  proof (rule gp_cong [OF d(9)])
    show "card (heads ?h' i) = card (heads h i)" for i by (rule split_into_heads [OF x hb lf(1,2) rf(1)])
    have "pool_live (v_gpools v) (b_pool x)" using d(9) x by (simp add: gp_ok_def)
    then show "pool_live (v_gpools v) (b_pool u)" if "?h' c = Some u" for c u
      using d(9) lf rf by (intro cases [where P = "\<lambda>u. pool_live (v_gpools v) (b_pool u)", OF that])
        (simp_all add: gp_ok_def)
  qed
  moreover have "plain_heap ?h'"
    unfolding plain_heap_def
  proof (intro allI impI)
    fix c u assume u: "?h' c = Some u"
    have "expandable_segment x = None" using d(3) x by (simp add: plain_heap_def plain_def)
    then have "plain l" "plain r" using l(2) r(2) lf rf by (simp_all add: plain_def)
    moreover have "plain (front b x c u0)" if "h c = Some u0" for u0
      using d(3) that by (simp add: plain_heap_def plain_def front_def)
    ultimately show "plain u" by (rule cases [where P = plain, OF u])
  qed
  moreover have "split_heap h k b sz ?h'"
    using x hb sz l(1) r(1) by (auto simp: split_heap_def split_into_def option.map_comp comp_def)
  then have "shape (v_live v) (\<lambda>_. None) (Suc b) ?h'" by (rule split_shape [OF d(1)])
  ultimately show ?thesis using d(2) by (simp add: inv_def)
qed

section \<open>Segments\<close>

text \<open>The segment counter of the private pool that owns a block pool, if there is one.\<close>

definition bump :: "mempool_id \<Rightarrow> int \<Rightarrow> (mempool_id \<times> PrivatePool) list \<Rightarrow> (mempool_id \<times> PrivatePool) list" where
  "bump i d gps = map (\<lambda>(k, pp). if k = i then (k, pp\<lparr>supaMalloc_count := supaMalloc_count pp + d\<rparr>) else (k, pp)) gps"

definition bump_owner :: "pool_ref \<Rightarrow> int \<Rightarrow> (mempool_id \<times> PrivatePool) list \<Rightarrow> (mempool_id \<times> PrivatePool) list" where
  "bump_owner p d gps = (case owner_PrivatePool p of None \<Rightarrow> gps | Some i \<Rightarrow> bump i d gps)"

lemma bump_fst [simp]: "map fst (bump i d gps) = map fst gps"
  by (induction gps) (auto simp: bump_def)

lemma bump_owner_fst [simp]: "map fst (bump_owner p d gps) = map fst gps"
  by (simp add: bump_owner_def split: option.splits)

lemma pool_live_fst: "map fst gps = map fst gps' \<Longrightarrow> pool_live gps p = pool_live gps' p"
  unfolding pool_live_def by (metis list.set_map)

lemma bump_owner_in:
  assumes "(j, pp) \<in> set (bump_owner p d gps)"
  obtains pp0 where "(j, pp0) \<in> set gps"
    and "supaMalloc_count pp = supaMalloc_count pp0 + (if owner_PrivatePool p = Some j then d else 0)"
  using assms by (auto simp: bump_owner_def bump_def split: option.splits if_splits)

lemma gp_bump:
  assumes ok: "gp_ok h gps" and l: "\<And>b x. h' b = Some x \<Longrightarrow> pool_live gps (b_pool x)"
    and c: "\<And>j. int (card (heads h' j)) = int (card (heads h j)) + (if owner_PrivatePool p = Some j then d else 0)"
  shows "gp_ok h' (bump_owner p d gps)"
  unfolding gp_ok_def
proof (intro conjI allI impI)
  show "distinct (map fst (bump_owner p d gps))" using ok by (simp add: gp_ok_def)
  show "pool_live (bump_owner p d gps) (b_pool x)" if "h' b = Some x" for b x
    using l [OF that] pool_live_fst [of "bump_owner p d gps" gps] by simp
  fix j pp assume "(j, pp) \<in> set (bump_owner p d gps)"
  then obtain pp0 where "(j, pp0) \<in> set gps"
    "supaMalloc_count pp = supaMalloc_count pp0 + (if owner_PrivatePool p = Some j then d else 0)"
    by (rule bump_owner_in)
  moreover from this(1) ok have "supaMalloc_count pp0 = int (card (heads h j))" unfolding gp_ok_def by blast
  ultimately show "supaMalloc_count pp = int (card (heads h' j))" using c [of j] by simp
qed

lemma heads_add:
  assumes "h b = None" and "b_prev x = None" and "finite (heads h j)"
  shows "int (card (heads (h(b \<mapsto> x)) j)) = int (card (heads h j)) + (if owner_PrivatePool (b_pool x) = Some j then 1 else 0)"
proof -
  have "heads (h(b \<mapsto> x)) j = (if owner_PrivatePool (b_pool x) = Some j then insert b (heads h j) else heads h j)"
    using assms(1,2) by (auto simp: heads_def)
  moreover have "b \<notin> heads h j" using assms(1) by (simp add: heads_def)
  ultimately show ?thesis using assms(3) by simp
qed

lemma heads_remove:
  assumes "h b = Some x" and "b_prev x = None" and "finite (heads h j)"
  shows "int (card (heads (h(b := None)) j)) = int (card (heads h j)) + (if owner_PrivatePool (b_pool x) = Some j then -1 else 0)"
proof -
  have "c \<in> heads (h(b := None)) j \<longleftrightarrow> c \<in> heads h j - {b}" for c
    by (cases "c = b") (simp_all add: heads_def)
  then have e: "heads (h(b := None)) j = heads h j - {b}" by blast
  have o: "b \<in> heads h j \<longleftrightarrow> owner_PrivatePool (b_pool x) = Some j" using assms(1,2) by (simp add: heads_def)
  show ?thesis
  proof (cases "b \<in> heads h j")
    case True
    then have "owner_PrivatePool (b_pool x) = Some j" using o by blast
    moreover have "int (card (heads h j - {b})) = int (card (heads h j)) - 1"
      using card_Suc_Diff1 [OF assms(3) True] by linarith
    ultimately show ?thesis unfolding e by simp
  next
    case False
    then have "heads h j - {b} = heads h j" by blast
    then show ?thesis using False o unfolding e by simp
  qed
qed

lemma ranges_insert:
  assumes "ranges_ok R" and "fresh_range R p n" and "0 < n"
  shows "ranges_ok (insert (p, n) R)"
proof -
  have "span p n \<inter> span q m = {}" "span q m \<inter> span p n = {}" if "(q, m) \<in> R" for q m
    using assms(2) that unfolding fresh_range_def by blast+
  then show ?thesis using assms(1,3) unfolding ranges_ok_def by (metis insert_iff prod.inject)
qed

lemma inv_add:
  assumes I: "inv X Ev Dl v" and b: "b = v_next v"
    and x: "b_prev x = None" "b_next x = None" "plain x" "event_count x = 0" "0 < b_size x"
    and fr: "fresh_range (v_live v) (b_ptr x) (b_size x)" and pl: "pool_live (v_gpools v) (b_pool x)"
  shows "inv (insert b X) Ev Dl (v\<lparr>v_heap := (v_heap v)(b \<mapsto> x), v_next := Suc b,
    v_live := insert (b_ptr x, b_size x) (v_live v), v_gpools := bump_owner (b_pool x) 1 (v_gpools v)\<rparr>)"
proof -
  note d = invD [OF I, folded b] and s = inv_shape [OF I, folded b]
  let ?h = "v_heap v" and ?h' = "(v_heap v)(b \<mapsto> x)"
  have hb: "?h b = None" using s(4) unfolding bounded_def by (cases "?h b") auto
  have ag: "agree (insert b X) ?h ?h'" by (rule agree_upd) simp
  have "\<not> (\<exists>x. ?h b = Some x \<and> allocatable x)" using hb by simp
  then have "pools_ok (insert b X) ?h (v_pools v)" using d(4) by (simp add: pools_exempt)
  then have "pools_ok (insert b X) ?h' (v_pools v)" using ag by (rule pools_agree)
  moreover have "active_ok (insert b X) ?h' (v_active v)"
    by (rule active_agree [OF active_widen [OF d(5)] ag]) auto
  moreover have "merged (insert b X) ?h'"
    by (rule merged_agree [OF merged_widen [OF d(6)] ag]) (auto split: if_splits)
  moreover have "Ev b = 0" using d(7) hb by (simp add: ev_counts_def)
  then have "ev_counts Ev ?h'" using d(7) x(4) by (simp add: ev_counts_def)
  moreover have "ev_status (insert b X) Ev Dl ?h'"
    by (rule ev_status_agree [OF ev_status_fresh [OF d(8) hb] ag])
  moreover have "gp_ok ?h' (bump_owner (b_pool x) 1 (v_gpools v))"
  proof (rule gp_bump [OF d(9)])
    show "pool_live (v_gpools v) (b_pool y)" if "?h' c = Some y" for c y
      using that d(9) pl unfolding gp_ok_def by (metis fun_upd_apply option.inject)
  qed (rule heads_add [OF hb x(1) bounded_finite(1) [OF s(4)]])
  moreover have "plain_heap ?h'" using d(3) x(3) by (simp add: plain_heap_def)
  moreover have "shape (insert (b_ptr x, b_size x) (v_live v)) (\<lambda>_. None) (Suc b) ?h'"
    using x by (intro add_shape [OF d(1) x(1,2) _ x(5) fr]) (simp add: plain_def)
  ultimately show ?thesis using ranges_insert [OF d(2) fr x(5)] by (simp add: inv_def)
qed

lemma inv_remove:
  assumes I: "inv X Ev Dl v" and h: "h = v_heap v" and x: "h b = Some x" "allocatable x" "\<not> is_split x" and b: "b \<notin> X"
    and q: "q = set_erase BlockComparatorSize (bkey h) b (blocks (v_pools v (b_pool x)))"
  shows "inv X Ev Dl (v\<lparr>v_heap := h(b := None),
    v_pools := (v_pools v)(b_pool x := (v_pools v (b_pool x))\<lparr>blocks := q\<rparr>),
    v_live := v_live v - {(b_ptr x, b_size x)}, v_gpools := bump_owner (b_pool x) (-1) (v_gpools v)\<rparr>)"
proof -
  note d = invD [OF I, folded h] and s = inv_shape [OF I, folded h]
  let ?h' = "h(b := None)" and ?P = "(v_pools v)(b_pool x := (v_pools v (b_pool x))\<lparr>blocks := q\<rparr>)"
  have hb: "?h' b = None" by simp
  have ag: "agree (insert b X) h ?h'" by (rule agree_upd) simp
  have "b \<in> free_in X h (b_pool x)" using b x by (simp add: free_in_def)
  then have "pools_ok (insert b X) h ?P" using q by (intro pools_take [OF d(4)]) simp_all
  from pools_agree [OF this ag] have "pools_ok X ?h' ?P" by (rule pools_drop [of ?h' b, OF hb])
  moreover have "b \<notin> set (v_active v)" using d(5) b x by (simp add: active_ok_def)
  then have "active_ok X ?h' (v_active v)"
    by (intro active_drop [of b, OF active_agree [OF active_widen [OF d(5)] ag] hb]) auto
  moreover have "merged X ?h'"
    by (rule merged_drop [of ?h' b, OF hb], rule merged_agree [OF merged_widen [OF d(6)] ag]) (auto split: if_splits)
  moreover have "Ev b = 0" using ev_allocatable [OF I, folded h, OF x(1)] x(2) by simp
  then have "ev_counts Ev ?h'" using d(7) by (simp add: ev_counts_def)
  moreover have bD: "b \<notin> set Dl" using d(8) b x unfolding ev_status_def by (auto simp: waiting_def allocatable_def)
  have "ev_status X Ev Dl ?h'"
    by (rule ev_status_drop [of ?h' b, OF hb bD ev_status_agree [OF ev_status_widen [OF d(8) bD] ag]])
  moreover have "gp_ok ?h' (bump_owner (b_pool x) (-1) (v_gpools v))"
  proof (rule gp_bump [OF d(9)])
    show "pool_live (v_gpools v) (b_pool y)" if "?h' c = Some y" for c y
      using that d(9) unfolding gp_ok_def by (metis fun_upd_apply option.distinct(1))
    have "b_prev x = None" using x(3) by (simp add: is_split_def)
    then show "int (card (heads ?h' j)) = int (card (heads h j)) + (if owner_PrivatePool (b_pool x) = Some j then -1 else 0)" for j
      by (rule heads_remove [of h b x, OF x(1) _ bounded_finite(1) [OF s(4)]])
  qed
  moreover have "plain_heap ?h'" using d(3) by (simp add: plain_heap_def)
  moreover have "ranges_ok (v_live v - {(b_ptr x, b_size x)})" using d(2) unfolding ranges_ok_def by blast
  ultimately show ?thesis using remove_shape [OF d(1) x(1,3)] by (simp add: inv_def)
qed

text \<open>The range of an unsplit block is the only one that starts at its address.\<close>

lemma inv_sole:
  assumes I: "inv X Ev Dl v" and x: "v_heap v b = Some x" "\<not> is_split x"
  shows "sole_range (v_live v) (b_ptr x) (b_size x)"
proof -
  have R: "(b_ptr x, b_size x) \<in> v_live v" by (rule unsplit_range [OF inv_shape(5) [OF I] x])
  have "m = b_size x" if m: "(b_ptr x, m) \<in> v_live v" for m
  proof (rule ccontr)
    assume "m \<noteq> b_size x"
    then have "(b_ptr x, m) \<noteq> (b_ptr x, b_size x)" by simp
    then have "span (b_ptr x) m \<inter> span (b_ptr x) (b_size x) = {}"
      using invD(2) [OF I] R m unfolding ranges_ok_def by blast
    moreover have "0 < m" "0 < b_size x" using invD(2) [OF I] R m unfolding ranges_ok_def by blast+
    ultimately show False using span_nonempty [of m "b_ptr x"] span_nonempty [of "b_size x" "b_ptr x"] by blast
  qed
  then show ?thesis using R unfolding sole_range_def by blast
qed

section \<open>Moving blocks in and out\<close>

lemma inv_take:
  assumes I: "inv X Ev Dl v" and b: "b \<in> free_in X (v_heap v) p" and q: "q = remove1 b (blocks (v_pools v p))"
  shows "inv (insert b X) Ev Dl (v\<lparr>v_pools := (v_pools v)(p := (v_pools v p)\<lparr>blocks := q\<rparr>)\<rparr>)"
proof -
  note d = invD [OF I]
  have "b \<notin> set Dl" using d(8) b unfolding ev_status_def by (auto simp: free_in_def waiting_def allocatable_def)
  then show ?thesis
    using d pools_take [OF d(4) b, of q] q active_widen [OF d(5), of "insert b X"] merged_widen [OF d(6), of "insert b X"]
      ev_status_widen [OF d(8)] by (auto simp: inv_def)
qed

text \<open>A block that is in use leaves the scope of the invariant, and the deferred list if it is in it.\<close>

lemma inv_open:
  assumes I: "inv X Ev Dl v" and b: "v_heap v b = Some x" "\<not> allocatable x"
  shows "inv (insert b X) Ev (filter (\<lambda>c. c \<noteq> b) Dl) v"
proof -
  note d = invD [OF I]
  have "pools_ok (insert b X) (v_heap v) (v_pools v)" using d(4) b by (subst pools_exempt) auto
  moreover have "ev_status (insert b X) Ev (filter (\<lambda>c. c \<noteq> b) Dl) (v_heap v)"
    using d(8) unfolding ev_status_def by auto
  ultimately show ?thesis
    using d active_widen [OF d(5), of "insert b X"] merged_widen [OF d(6), of "insert b X"] by (auto simp: inv_def)
qed

lemma inv_put_active:
  assumes I: "inv X Ev Dl v" and b: "b \<in> X" "v_heap v b = Some x" "\<not> allocatable x" "\<not> waiting x"
    and e: "0 < Ev b \<Longrightarrow> \<not> allocated x \<and> stream_uses x = []"
    and A: "distinct A'" "set A' = insert b (set (v_active v))"
  shows "inv (X - {b}) Ev Dl (v\<lparr>v_active := A'\<rparr>)"
proof -
  note d = invD [OF I] and s = inv_shape [OF I]
  have "insert b (X - {b}) = X" using b(1) by blast
  then have "pools_ok (X - {b}) (v_heap v) (v_pools v)"
    using pools_exempt [of "v_heap v" b "X - {b}" "v_pools v"] d(4) b(2,3) by simp
  moreover have "active_ok (X - {b}) (v_heap v) A'"
    using A b(2,3) by (intro active_close [OF d(5)]) auto
  moreover have "merged (X - {b}) (v_heap v)" using b(3) by (intro merged_close [OF d(6) s(1) b(2)]) auto
  moreover have "ev_status (X - {b}) Ev Dl (v_heap v)" using b e by (intro ev_status_close [OF d(8)]) auto
  ultimately show ?thesis using d by (simp add: inv_def)
qed

lemma inv_defer:
  assumes I: "inv X Ev Dl v" and b: "b \<in> X" "v_heap v b = Some x" "waiting x" and e: "Ev b = 0"
    and A: "b \<in> set (v_active v)"
  shows "inv (X - {b}) Ev (Dl @ [b]) v"
proof -
  note d = invD [OF I] and s = inv_shape [OF I]
  have na: "\<not> allocatable x" using b(3) by (simp add: waiting_def allocatable_def)
  have "insert b (X - {b}) = X" using b(1) by blast
  then have "pools_ok (X - {b}) (v_heap v) (v_pools v)"
    using pools_exempt [of "v_heap v" b "X - {b}" "v_pools v"] d(4) b(2) na by simp
  moreover have "active_ok (X - {b}) (v_heap v) (v_active v)"
    using A b(2) na d(5) by (intro active_close [OF d(5)]) (auto simp: active_ok_def)
  moreover have "merged (X - {b}) (v_heap v)" using na by (intro merged_close [OF d(6) s(1) b(2)]) auto
  moreover have "ev_status (X - {b}) Ev (Dl @ [b]) (v_heap v)"
    unfolding ev_status_def
  proof (intro conjI allI impI)
    have "b \<notin> set Dl" using d(8) b(1) by (auto simp: ev_status_def)
    then show "distinct (Dl @ [b])" "set (Dl @ [b]) \<inter> (X - {b}) = {}" using d(8) by (auto simp: ev_status_def)
    fix c assume c: "c \<notin> X - {b}"
    show "c \<in> set (Dl @ [b]) \<longleftrightarrow> (\<exists>x. v_heap v c = Some x \<and> waiting x)"
      using d(8) b c unfolding ev_status_def by (cases "c = b") auto
    fix y assume "v_heap v c = Some y" "0 < Ev c"
    then show "\<not> allocated y" "stream_uses y = []"
      using d(8) e c unfolding ev_status_def by (cases "c = b"; force)+
  qed
  ultimately show ?thesis using d by (simp add: inv_def)
qed

lemma inv_put_free:
  assumes I: "inv X Ev Dl v" and b: "b \<in> X" "v_heap v b = Some x" "allocatable x" "b_pool x = p"
    and nb: "\<And>n y. b_next x = Some n \<or> b_prev x = Some n \<Longrightarrow> v_heap v n = Some y \<Longrightarrow> n \<notin> X - {b} \<Longrightarrow> \<not> allocatable y"
    and A: "A' = filter (\<lambda>c. c \<noteq> b) (v_active v)"
    and q: "q = set_insert BlockComparatorSize (bkey (v_heap v)) b (blocks (v_pools v p))"
  shows "inv (X - {b}) Ev Dl (v\<lparr>v_active := A', v_pools := (v_pools v)(p := (v_pools v p)\<lparr>blocks := q\<rparr>)\<rparr>)"
    and "\<not> set_has BlockComparatorSize (bkey (v_heap v)) (bkey (v_heap v) b) (blocks (v_pools v p))"
proof -
  note d = invD [OF I] and s = inv_shape [OF I]
  have "active_ok (X - {b}) (v_heap v) A'"
    using A b(2,3) d(5) by (intro active_close [OF d(5)]) (auto simp: active_ok_def)
  moreover have "merged (X - {b}) (v_heap v)" using nb by (intro merged_close [OF d(6) s(1) b(2)]) auto
  moreover have "Ev b = 0" using ev_allocatable [OF I b(2)] b(3) by simp
  then have "ev_status (X - {b}) Ev Dl (v_heap v)"
    using b by (intro ev_status_close [OF d(8)]) (auto simp: waiting_def allocatable_def)
  ultimately show "inv (X - {b}) Ev Dl (v\<lparr>v_active := A', v_pools := (v_pools v)(p := (v_pools v p)\<lparr>blocks := q\<rparr>)\<rparr>)"
    using d pools_put(1) [OF d(4) s(2,3) b(2,3,1,4)] q by (simp add: inv_def)
  show "\<not> set_has BlockComparatorSize (bkey (v_heap v)) (bkey (v_heap v) b) (blocks (v_pools v p))"
    by (rule pools_put(2) [OF d(4) s(2,3) b(2,3,1,4)])
qed

end
