(* ===== verification/Device_Wp.thy ===== *)
theory Device_Wp
  imports Device_Invariant Device_Api
begin

text \<open>
  Weakest preconditions for the device allocator: the rules of its primitive operations, the outcomes
  that would be faults of the program, and the computations that leave a given part of the state
  alone. The interface \<open>framing\<close> states what such a part has to satisfy; it is interpreted for the
  statistics, for the driver's memory and for the view of the allocator.
\<close>

section \<open>Faults\<close>

text \<open>
  A dereference of a deleted object, a loop beyond its bound, a block given to the allocator of another
  device, and the internal assertions about the
  allocator's own data structures. The other exceptions report driver errors, memory that ran out, a
  negative counter, or a wrong call.
\<close>

definition fault :: "exn \<Rightarrow> bool" where
  "fault e \<longleftrightarrow> e \<in> {UseAfterFree, LoopBound, ForeignBlock, InternalAssert ''inserted'',
     InternalAssert ''dst->is_split() && src->is_split()'',
     InternalAssert ''!block->allocated && block->event_count == 0 && block->stream_uses.empty()'',
     InternalAssert ''!block->stream_uses.empty()'', InternalAssert ''supaMalloc_count > 0'',
     InternalAssert ''!block->expandable_segment_'', InternalAssert ''params.block != nullptr'',
     InternalAssert ''params.err == supaSuccess && params.block->ptr != nullptr'',
     InternalAssert ''it->second->use_count == 0'', InternalAssert ''p.block->ptr != nullptr'',
     InternalAssert ''params.err == supaErrorMemoryAllocation''}"

definition benign_exn :: "exn \<Rightarrow> bool" where
  "benign_exn e \<longleftrightarrow> \<not> fault e \<and> e \<noteq> OutOfMemoryError"

lemma benign_exn_simps [simp]:
  "benign_exn (TorchCheck msg)" "benign_exn (SupaCheck err)" "benign_exn OutOfBounds" "benign_exn StdOutOfRange"
  "benign_exn StdInvalidArgument" "benign_exn BadOptionalAccess"
  "\<not> benign_exn UseAfterFree" "\<not> benign_exn LoopBound" "\<not> benign_exn ForeignBlock" "\<not> benign_exn OutOfMemoryError"
  by (simp_all add: benign_exn_def fault_def)

section \<open>Computations that keep a part of the state\<close>

named_theorems benign_intros \<open>computations that keep a part of the state\<close>

definition benign :: "('s \<Rightarrow> 's \<Rightarrow> bool) \<Rightarrow> ('s, exn, 'a) sx \<Rightarrow> bool" where
  "benign same m \<longleftrightarrow> (\<forall>s. wp m (\<lambda>_ t. same s t) (\<lambda>e _. benign_exn e) s)"

lemma benign_step:
  assumes "benign same m" and "\<And>r t. same s t \<Longrightarrow> Q r t" and "\<And>e t. benign_exn e \<Longrightarrow> E e t"
  shows "wp m Q E s"
proof (rule wp_conseq)
  show "wp m (\<lambda>_. same s) (\<lambda>e _. benign_exn e) s" using assms(1) by (simp add: benign_def)
qed (use assms in auto)

locale framing =
  fixes same :: "'s \<Rightarrow> 's \<Rightarrow> bool"
  assumes refl: "same s s"
    and trans: "same s t \<Longrightarrow> same t u \<Longrightarrow> same s u"
begin

lemma ret: "benign same (sx_ret x)"
  by (simp add: benign_def refl)

lemma throw: "benign_exn e \<Longrightarrow> benign same (sx_throw e)"
  by (simp add: benign_def)

lemma get: "benign same (sx_get f)"
  by (simp add: benign_def refl)

lemma bind:
  assumes "benign same m" and "\<And>x. benign same (f x)"
  shows "benign same (sx_bind m f)"
  unfolding benign_def
proof
  fix s
  have "wp m (\<lambda>x. wp (f x) (\<lambda>_ u. same s u) (\<lambda>e _. benign_exn e)) (\<lambda>e _. benign_exn e) s"
    by (rule benign_step [OF assms(1)], rule benign_step [OF assms(2)]) (auto intro: trans)
  then show "wp (sx_bind m f) (\<lambda>_ t. same s t) (\<lambda>e _. benign_exn e) s" by simp
qed

lemma seq: "benign same m \<Longrightarrow> benign same k \<Longrightarrow> benign same (sx_seq m k)"
  unfolding sx_seq_def by (rule bind)

lemma cond: "(b \<Longrightarrow> benign same m) \<Longrightarrow> (\<not> b \<Longrightarrow> benign same k) \<Longrightarrow> benign same (if b then m else k)"
  by simp

lemma check: "(\<not> b \<Longrightarrow> benign_exn e) \<Longrightarrow> benign same (sx_check b e)"
  by (simp add: sx_check_def ret throw)

lemma sometimes: "(b \<Longrightarrow> benign same m) \<Longrightarrow> benign same (sx_when b m)"
  by (simp add: sx_when_def ret)

lemma loop: "(\<And>x. x \<in> set xs \<Longrightarrow> benign same (f x)) \<Longrightarrow> benign same (sx_for xs f)"
  by (induction xs) (simp_all add: ret seq)

lemma update: "(\<And>s. same s (f s)) \<Longrightarrow> benign same (sx_mod f)"
  by (simp add: benign_def)

end

subsection \<open>Statistics\<close>

abbreviation anything :: "'s \<Rightarrow> 's \<Rightarrow> bool" where
  "anything s t \<equiv> True"

interpretation any: framing anything
  by unfold_locales simp_all

lemmas any_intros = any.ret any.throw any.bind any.seq any.cond any.check any.sometimes any.loop any.update any.get

lemma benign_field: "benign anything m \<Longrightarrow> benign anything (sx_field sel upd m)"
  by (simp add: benign_def)

lemma benign_at: "benign anything m \<Longrightarrow> benign anything (sx_at k m)"
  by (simp add: benign_def)

lemma benign_update_stat: "benign anything (update_stat amount)"
  unfolding update_stat_def by (intro any_intros) simp_all

lemma benign_upd_stat: "benign anything (upd_stat sel upd st amount)"
  unfolding upd_stat_def by (intro benign_field benign_at benign_update_stat)

lemma benign_update_stat_array: "benign anything (update_stat_array amount sts)"
  unfolding update_stat_array_def by (intro any_intros benign_at benign_update_stat)

lemma benign_for_each: "(\<And>st. benign anything (f st)) \<Longrightarrow> benign anything (for_each_selected_stat_type sts f)"
  unfolding for_each_selected_stat_type_def by (intro any_intros)

lemmas stats_intros = any_intros benign_for_each benign_upd_stat benign_update_stat_array benign_update_stat benign_field

subsection \<open>The driver's memory\<close>

definition same_live :: "('d \<Rightarrow> (nat \<times> nat) set) \<Rightarrow> 'd world \<Rightarrow> 'd world \<Rightarrow> bool" where
  "same_live live w w' \<longleftrightarrow> live (drv w') = live (drv w)"

interpretation memory: framing "same_live live" for live
  by unfold_locales (simp_all add: same_live_def)

lemmas memory_intros = memory.ret memory.throw memory.bind memory.seq memory.cond memory.check memory.sometimes
  memory.loop memory.get

lemma benign_drv_call: "keeps_live live f \<Longrightarrow> benign (same_live live) (drv_call f)"
  by (auto simp: benign_def same_live_def keeps_live_def split: prod.splits)

lemma benign_supa_check: "keeps_live live f \<Longrightarrow> benign (same_live live) (supa_check f)"
  unfolding supa_check_def check_err_def by (intro memory_intros benign_drv_call) simp_all

lemma benign_supa_check_out: "keeps_live live f \<Longrightarrow> benign (same_live live) (supa_check_out f)"
  by (auto simp: benign_def same_live_def keeps_live_def split: prod.splits)

lemma benign_driver_check_out: "keeps_live live f \<Longrightarrow> benign (same_live live) (driver_check_out f)"
  by (auto simp: benign_def same_live_def keeps_live_def split: prod.splits)

lemma benign_world_update: "(\<And>w. drv (f w) = drv w) \<Longrightarrow> benign (same_live live) (sx_mod f)"
  by (rule memory.update) (simp add: same_live_def)

lemmas drv_intros = memory_intros benign_drv_call benign_supa_check benign_supa_check_out benign_driver_check_out
  benign_world_update

lemma other_calls:
  assumes "other_calls_ok D live"
  shows "keeps_live live (supaGetLastError D)" and "keeps_live live (supaMemGetInfo D)"
    and "keeps_live live (supaEventCreateWithFlags D)" and "\<And>e s. keeps_live live (supaEventRecord D e s)"
    and "\<And>e. keeps_live live (supaEventQuery D e)" and "\<And>e. keeps_live live (supaEventSynchronize D e)"
    and "keeps_live live (supaGetDevice D)" and "\<And>i. keeps_live live (supaSetDevice D i)"
    and "\<And>i. keeps_live live (suDevicePrimaryCtxGetState D i)" and "keeps_live live (capturing D)"
    and "\<And>m. keeps_live live (exchangeCaptureMode D m)" and "\<And>k. keeps_live live (callback_execute D k)"
    and "\<And>p. keeps_live live (supaIpcGetMemHandle D p)"
  using assms by (simp_all add: other_calls_ok_def)

lemma benign_GetDevice: "other_calls_ok D live \<Longrightarrow> benign (same_live live) (GetDevice D)"
  unfolding GetDevice_def by (intro drv_intros other_calls) simp_all

lemma benign_SetDevice: "other_calls_ok D live \<Longrightarrow> benign (same_live live) (SetDevice D i f)"
  unfolding SetDevice_def by (intro drv_intros other_calls) simp_all

lemma benign_MaybeSetDevice: "other_calls_ok D live \<Longrightarrow> benign (same_live live) (MaybeSetDevice D i)"
  unfolding MaybeSetDevice_def hasPrimaryContext_def by (intro drv_intros other_calls benign_SetDevice) simp_all

lemma benign_EventPool_get: "other_calls_ok D live \<Longrightarrow> benign (same_live live) (EventPool_get D i)"
  unfolding EventPool_get_def
  by (intro drv_intros other_calls) (simp_all add: benign_exn_def fault_def)

lemma benign_Event_release: "benign (same_live live) (Event_release i e)"
  unfolding Event_release_def by (intro drv_intros) simp

lemma benign_run_callbacks: "other_calls_ok D live \<Longrightarrow> benign (same_live live) (run_callbacks D ks r)"
  by (induction ks arbitrary: r) (auto intro!: drv_intros other_calls)

subsection \<open>The view\<close>

definition same_view :: "('d \<Rightarrow> (nat \<times> nat) set) \<Rightarrow> 'd dca \<Rightarrow> 'd dca \<Rightarrow> bool" where
  "same_view live s t \<longleftrightarrow> view live t = view live s"

interpretation keep: framing "same_view live" for live
  by unfold_locales (simp_all add: same_view_def)

lemmas keep_intros = keep.ret keep.throw keep.bind keep.seq keep.cond keep.check keep.sometimes
  keep.loop keep.get

lemma benign_on_stats: "benign anything m \<Longrightarrow> benign (same_view live) (on_stats m)"
  by (simp add: benign_def same_view_def view_def)

lemma benign_on_drv: "benign (same_live live) m \<Longrightarrow> benign (same_view live) (on_drv m)"
  unfolding benign_def
proof
  fix s :: "'a dca" assume "\<forall>w. wp m (\<lambda>_ t. same_live live w t) (\<lambda>e _. benign_exn e) w"
  then have "wp m (\<lambda>_ t. same_live live (world s) t) (\<lambda>e _. benign_exn e) (world s)" by blast
  then show "wp (on_drv m) (\<lambda>_ t. same_view live s t) (\<lambda>e _. benign_exn e) s"
    unfolding wp_field by (rule wp_conseq) (simp_all add: same_view_def same_live_def view_def)
qed

lemma benign_record_trace: "benign (same_view live) (record_trace a addr sz st dev mp ctx)"
  unfolding benign_def record_trace_def Let_def
  by (auto simp: wp_if same_view_def view_def)

lemma benign_state_update: "(\<And>s. view live (f s) = view live s) \<Longrightarrow> benign (same_view live) (sx_mod f)"
  by (rule keep.update) (simp add: same_view_def)

lemmas view_intros = keep_intros benign_on_stats benign_on_drv benign_record_trace benign_state_update

section \<open>Primitive operations\<close>

lemma wp_deref [simp]:
  "wp (deref b) Q E = (\<lambda>s. case heap s b of None \<Rightarrow> E UseAfterFree s | Some x \<Rightarrow> Q x s)"
  by (intro ext) (simp add: wp_def deref_def split: option.splits)

lemma wp_setb [simp]:
  "wp (setb b f) Q E = (\<lambda>s. case heap s b of None \<Rightarrow> E UseAfterFree s
     | Some x \<Rightarrow> Q () (s\<lparr>heap := (heap s)(b \<mapsto> f x)\<rparr>))"
  by (intro ext) (simp add: wp_def setb_def split: option.splits)

lemma wp_new_block [simp]:
  "wp (new_block x) Q E = (\<lambda>s. Q (next_block s) (s\<lparr>heap := (heap s)(next_block s \<mapsto> x), next_block := Suc (next_block s)\<rparr>))"
  by (intro ext) (simp add: wp_def new_block_def)

lemma wp_delete_block [simp]:
  "wp (delete_block b) Q E = (\<lambda>s. case heap s b of None \<Rightarrow> E UseAfterFree s
     | Some x \<Rightarrow> Q () (s\<lparr>heap := (heap s)(b := None)\<rparr>))"
  by (intro ext) (simp add: wp_def delete_block_def split: option.splits)

lemma wp_get_BlockPool [simp]:
  "wp (get_BlockPool p) Q E = (\<lambda>s. if pool_live (graph_pools s) p then Q (pools s p) s else E UseAfterFree s)"
  by (intro ext) (simp add: wp_def get_BlockPool_def)

lemma wp_upd_BlockPool [simp]:
  "wp (upd_BlockPool p f) Q E = (\<lambda>s. if pool_live (graph_pools s) p
     then Q () (s\<lparr>pools := (pools s)(p := f (pools s p))\<rparr>) else E UseAfterFree s)"
  by (intro ext) (simp add: wp_def upd_BlockPool_def)

lemma view_fields [simp]:
  "v_heap (view live s) = heap s" "v_next (view live s) = next_block s" "v_pools (view live s) = pools s"
  "v_active (view live s) = active_blocks s" "v_gpools (view live s) = graph_pools s"
  "v_live (view live s) = live (drv (world s))" "v_deferred (view live s) = needs_events_deferred s"
  "v_events (view live s) = supa_events s" "v_freeable (view live s) = graph_pools_freeable s"
  "v_captures (view live s) = captures_underway s" "v_uses (view live s) = block_to_supagraph_stream_uses s"
  by (simp_all add: view_def)

lemma view_upd [simp]:
  "view live (s\<lparr>heap := h\<rparr>) = (view live s)\<lparr>v_heap := h\<rparr>"
  "view live (s\<lparr>next_block := n\<rparr>) = (view live s)\<lparr>v_next := n\<rparr>"
  "view live (s\<lparr>pools := P\<rparr>) = (view live s)\<lparr>v_pools := P\<rparr>"
  "view live (s\<lparr>active_blocks := A\<rparr>) = (view live s)\<lparr>v_active := A\<rparr>"
  "view live (s\<lparr>graph_pools := g\<rparr>) = (view live s)\<lparr>v_gpools := g\<rparr>"
  "view live (s\<lparr>needs_events_deferred := l\<rparr>) = (view live s)\<lparr>v_deferred := l\<rparr>"
  "view live (s\<lparr>supa_events := e\<rparr>) = (view live s)\<lparr>v_events := e\<rparr>"
  "view live (s\<lparr>graph_pools_freeable := f\<rparr>) = (view live s)\<lparr>v_freeable := f\<rparr>"
  "view live (s\<lparr>captures_underway := c\<rparr>) = (view live s)\<lparr>v_captures := c\<rparr>"
  "view live (s\<lparr>total_allocated_memory := m\<rparr>) = view live s"
  "view live (s\<lparr>stats := d\<rparr>) = view live s"
  by (simp_all add: view_def)

text \<open>What equal views have in common.\<close>

lemma same_viewD:
  assumes "same_view live s t"
  shows "heap t = heap s" and "next_block t = next_block s" and "pools t = pools s"
    and "active_blocks t = active_blocks s" and "graph_pools t = graph_pools s"
    and "live (drv (world t)) = live (drv (world s))" and "needs_events_deferred t = needs_events_deferred s"
    and "supa_events t = supa_events s" and "graph_pools_freeable t = graph_pools_freeable s"
    and "captures_underway t = captures_underway s"
    and "block_to_supagraph_stream_uses t = block_to_supagraph_stream_uses s" and "view live t = view live s"
  using assms by (simp_all add: same_view_def view_def)

section \<open>Rules for stepping through an operation\<close>

text \<open>One rule per kind of statement; each reduces the operation to its rest.\<close>

lemma step_deref: "heap s b = Some x \<Longrightarrow> wp (f x) Q E s \<Longrightarrow> wp (sx_bind (deref b) f) Q E s"
  by simp

lemma step_setb:
  "heap s b = Some x \<Longrightarrow> wp k Q E (s\<lparr>heap := (heap s)(b \<mapsto> f x)\<rparr>) \<Longrightarrow> wp (sx_seq (setb b f) k) Q E s"
  by simp

lemma step_check: "b \<Longrightarrow> wp k Q E s \<Longrightarrow> wp (sx_seq (sx_check b e) k) Q E s"
  by simp

lemma step_check_exn: "(\<not> b \<Longrightarrow> E e s) \<Longrightarrow> (b \<Longrightarrow> wp k Q E s) \<Longrightarrow> wp (sx_seq (sx_check b e) k) Q E s"
  by simp

lemma step_get: "wp (f (g s)) Q E s \<Longrightarrow> wp (sx_bind (sx_get g) f) Q E s"
  by simp

lemma step_mod: "wp k Q E (f s) \<Longrightarrow> wp (sx_seq (sx_mod f) k) Q E s"
  by simp

lemma step_new:
  "wp (f (next_block s)) Q E (s\<lparr>heap := (heap s)(next_block s \<mapsto> x), next_block := Suc (next_block s)\<rparr>) \<Longrightarrow>
   wp (sx_bind (new_block x) f) Q E s"
  by simp

lemma step_if: "(b \<Longrightarrow> wp m Q E s) \<Longrightarrow> (\<not> b \<Longrightarrow> wp k Q E s) \<Longrightarrow> wp (if b then m else k) Q E s"
  by simp

lemma step_seq: "wp m (\<lambda>_. R) E s \<Longrightarrow> (\<And>t. R t \<Longrightarrow> wp k Q E t) \<Longrightarrow> wp (sx_seq m k) Q E s"
  unfolding wp_seq by (rule wp_conseq)

lemma step_bind: "wp m R E s \<Longrightarrow> (\<And>x t. R x t \<Longrightarrow> wp (f x) Q E t) \<Longrightarrow> wp (sx_bind m f) Q E s"
  unfolding wp_bind by (rule wp_conseq)

lemma step_benign:
  assumes "benign same m" and "\<And>t. same s t \<Longrightarrow> wp k Q E t" and "\<And>e t. benign_exn e \<Longrightarrow> E e t"
  shows "wp (sx_seq m k) Q E s"
  unfolding wp_seq by (rule benign_step [OF assms(1)]) (use assms in auto)

lemma step_benign_bind:
  assumes "benign same m" and "\<And>x t. same s t \<Longrightarrow> wp (f x) Q E t" and "\<And>e t. benign_exn e \<Longrightarrow> E e t"
  shows "wp (sx_bind m f) Q E s"
  unfolding wp_bind by (rule benign_step [OF assms(1)]) (use assms in auto)

lemma step_when: "(b \<Longrightarrow> wp m Q E s) \<Longrightarrow> (\<not> b \<Longrightarrow> Q () s) \<Longrightarrow> wp (sx_when b m) Q E s"
  by simp

end
