(* ===== verification/Free_Safety.thy ===== *)
theory Free_Safety
  imports Device_Wp
begin

text \<open>
  Merging and freeing blocks keeps the invariant: a block that is no longer used is merged with its
  free neighbours and goes back to its pool, and the blocks in use stay as they are.
\<close>

section \<open>Merging with a neighbour\<close>

lemma neighbour:
  assumes I: "inv X Ev Dl v" and d: "v_heap v b = Some d" and src: "b_prev d = Some c \<or> b_next d = Some c"
  obtains z where "v_heap v c = Some z" and "b_pool z = b_pool d" and "c \<noteq> b"
    and "is_split d" and "is_split z"
proof -
  note s = inv_shape [OF I]
  show ?thesis
  proof (cases "b_prev d = Some c")
    case True
    then obtain z where "v_heap v c = Some z" "b_next z = Some b" "adj z d" using links_prev [OF s(1) d] by blast
    then show ?thesis using that True prev_neq [OF s(1,3) d True] by (simp add: adj_def is_split_def)
  next
    case False
    then have n: "b_next d = Some c" using src by simp
    then obtain z where "v_heap v c = Some z" "b_prev z = Some b" "adj d z" using links_next [OF s(1) d] by blast
    then show ?thesis using that n next_neq [OF s(1,3) d n] by (simp add: adj_def is_split_def)
  qed
qed

lemma relink_right:
  assumes "links h" and "h r = Some y" and "h c = Some z"
  shows "relink x y r r c z = (if b_prev x = Some c then z\<lparr>b_next := Some r\<rparr> else z)"
proof -
  have "b_prev z = Some r" if "b_next y = Some c" using links_next [OF assms(1,2) that] assms(3) by auto
  then show ?thesis by (auto simp: relink_def)
qed

lemma relink_left:
  assumes "links h" and "h l = Some x" and "h c = Some z"
  shows "relink x y l l c z = (if b_next y = Some c then z\<lparr>b_prev := Some l\<rparr> else z)"
proof -
  have "b_next z = Some l" if "b_prev x = Some c" using links_prev [OF assms(1,2) that] assms(3) by auto
  then show ?thesis by (auto simp: relink_def)
qed

lemma merge_right:
  assumes "links h" and "h l = Some x" and "h r = Some y" and "l \<noteq> r"
  shows "merge_into h l r r m = (\<lambda>c. if c = r then Some m else if c = l then None
    else map_option (\<lambda>z. if b_prev x = Some c then z\<lparr>b_next := Some r\<rparr> else z) (h c))"
  using relink_right [OF assms(1,3), of _ _ x] assms(2-4)
  by (intro ext) (auto simp: merge_into_def intro!: option.map_cong0 split: option.splits)

lemma merge_left:
  assumes "links h" and "h l = Some x" and "h r = Some y" and "l \<noteq> r"
  shows "merge_into h l r l m = (\<lambda>c. if c = l then Some m else if c = r then None
    else map_option (\<lambda>z. if b_next y = Some c then z\<lparr>b_prev := Some l\<rparr> else z) (h c))"
  using relink_left [OF assms(1,2), of _ _ y] assms(2-4)
  by (intro ext) (auto simp: merge_into_def intro!: option.map_cong0 split: option.splits)

text \<open>
  What a call of \<^verbatim>\<open>try_merge_blocks\<close> on a neighbour of an exempt block leaves behind: only the block, the
  neighbour and the pools change, and the new neighbour on that side is not free.
\<close>

definition merge_post :: "('d \<Rightarrow> (nat \<times> nat) set) \<Rightarrow> nat set \<Rightarrow> (nat \<Rightarrow> nat) \<Rightarrow> nat list \<Rightarrow> nat \<Rightarrow> Block \<Rightarrow> nat option \<Rightarrow>
    'd dca \<Rightarrow> 'd dca \<Rightarrow> bool" where
  "merge_post live X Ev Dl dst d src s t \<longleftrightarrow> inv X Ev Dl (view live t)
     \<and> view live t = (view live s)\<lparr>v_heap := heap t, v_pools := pools t\<rparr>
     \<and> agree (insert dst (set_option src)) (heap s) (heap t)
     \<and> (\<forall>c. c \<noteq> dst \<longrightarrow> used (heap t) c = used (heap s) c)
     \<and> (\<exists>d'. heap t dst = Some d' \<and> b_pool d' = b_pool d \<and> allocatable d' = allocatable d
         \<and> (src = b_prev d \<longrightarrow> b_next d' = b_next d
             \<and> (\<forall>q z. b_prev d' = Some q \<longrightarrow> heap t q = Some z \<longrightarrow> \<not> allocatable z))
         \<and> (src = b_next d \<longrightarrow> b_prev d' = b_prev d
             \<and> (\<forall>q z. b_next d' = Some q \<longrightarrow> heap t q = Some z \<longrightarrow> \<not> allocatable z)))"

lemma merge_post_same:
  assumes "inv X Ev Dl (view live s)" and "heap s dst = Some d"
    and "\<And>c z. src = Some c \<Longrightarrow> heap s c = Some z \<Longrightarrow> \<not> allocatable z"
  shows "merge_post live X Ev Dl dst d src s s"
  using assms by (auto simp: merge_post_def agree_def view_def)

lemma adjD:
  assumes "links h" and "h b = Some x" and "h n = Some y" and "b_next x = Some n"
  shows "b_ptr y = b_ptr x + b_size x" and "b_pool y = b_pool x" and "b_stream y = b_stream x"
    and "expandable_segment y = expandable_segment x"
  using links_next [OF assms(1,2,4)] assms(3) by (auto simp: adj_def)

lemma inv_swap: "inv X Ev Dl (v\<lparr>v_pools := P, v_heap := h\<rparr>) = inv X Ev Dl (v\<lparr>v_heap := h, v_pools := P\<rparr>)"
  by (simp add: inv_def)

lemma inv_home: "inv X Ev Dl v \<Longrightarrow> v_heap v b = Some x \<Longrightarrow> pool_live (v_gpools v) (b_pool x)"
  using invD(9) unfolding gp_ok_def by blast

text \<open>The two ways to merge differ only in the heap they compute.\<close>

lemma merge_post_merged:
  assumes I: "inv X Ev Dl (view live s)" and l: "heap s l = Some x" and r: "heap s r = Some y" and lr: "b_next x = Some r"
    and kg: "(k = l \<and> g = r) \<or> (k = r \<and> g = l)" and kX: "k \<in> X" and gX: "g \<notin> X" and nX: "\<And>c w. heap s c = Some w \<Longrightarrow> b_prev x = Some c \<or> b_next y = Some c \<Longrightarrow> c \<notin> X"
    and dk: "heap s k = Some d" and z: "heap s g = Some z" "allocatable z" and pool: "b_pool d = pool"
    and m: "skel m = (b_prev x, b_next y, b_ptr x, b_size x + b_size y, b_pool x, b_stream x, expandable_segment x)"
      "mapped m" "event_count m = event_count d" "allocatable m = allocatable d"
    and h': "h' = merge_into (heap s) l r k m"
    and P': "P' = (pools s)(pool := (pools s pool)\<lparr>blocks := set_erase BlockComparatorSize (bkey (heap s)) g (blocks (pools s pool))\<rparr>)"
  shows "merge_post live X Ev Dl k d (Some g) s (s\<lparr>pools := P', heap := h'\<rparr>)"
proof -
  note sd = inv_shape [OF I, simplified] and iv = invD [OF I, simplified]
  have ne: "l \<noteq> r" using next_neq [OF sd(1,3) l lr] by simp
  have axy: "adj x y" and pry: "b_prev y = Some l" using links_next [OF sd(1) l lr] r by auto
  have bz: "b_pool z = pool" and bx: "b_pool d = b_pool x"
    using axy kg dk z(1) l r pool by (auto simp: adj_def)
  have mf: "b_prev m = b_prev x" "b_next m = b_next y" "b_pool m = b_pool x" using m(1) by (simp_all add: skel_def)
  have inv': "inv X Ev Dl (view live (s\<lparr>pools := P', heap := h'\<rparr>))"
    using inv_merge [OF I, simplified, OF refl l r lr kg kX gX z m(1,2)] m(3) bz dk
    by (simp add: h' P' inv_swap)
  have ag: "agree (insert k (set_option (Some g))) (heap s) h'"
    unfolding h' using merge_into_agree [OF kg, of "{k}" "heap s" m] by (simp add: insert_commute)
  have hk: "h' k = Some m" by (simp add: h' merge_into_def)
  have stay: "used h' c = used (heap s) c" if c: "c \<noteq> k" for c
  proof (cases "c = g")
    case True
    then have "h' c = None" using kg ne by (auto simp: h' merge_into_def)
    then show ?thesis using True z by (simp add: used_def)
  next
    case False
    then show ?thesis using c ag by (intro used_cong) (simp add: agree_def)
  qed
  have out: "\<not> allocatable w'"
    if nb: "(k = r \<and> b_prev x = Some c) \<or> (k = l \<and> b_next y = Some c)" and w': "h' c = Some w'" for c w'
  proof -
    have cn: "c \<noteq> l" "c \<noteq> r"
      using nb prev_neq [OF sd(1,3) l] next_neq [OF sd(1,3) r] prev_next_neq [OF sd(1,3) l _ lr]
        prev_next_neq [OF sd(1,3) r pry] by auto
    then have "c \<notin> insert k (set_option (Some g))" using kg by auto
    then obtain w where w: "heap s c = Some w" "body w = body w'" using agreeD [OF ag _ w'] by blast
    have cX: "c \<notin> X" using nX [OF w(1)] nb by blast
    have "\<not> allocatable w"
    proof (cases "k = r")
      case True
      then have "g = l" and "b_prev x = Some c" using kg nb ne by auto
      then show ?thesis
        using links_prev [OF sd(1) l] mergedD [OF iv(6) w(1) _ z(1) cX gX] w(1) z(2) by (metis option.inject)
    next
      case False
      then have gr: "g = r" and "b_next y = Some c" using kg nb by auto
      then show ?thesis using mergedD [OF iv(6) z(1) _ w(1) gX cX] z r by (metis option.inject)
    qed
    then show ?thesis using body_fields(10) [OF w(2)] by simp
  qed
  have side: "(Some g = b_prev d \<longrightarrow> b_next m = b_next d \<and> (\<forall>q z. b_prev m = Some q \<longrightarrow> h' q = Some z \<longrightarrow> \<not> allocatable z))
      \<and> (Some g = b_next d \<longrightarrow> b_prev m = b_prev d \<and> (\<forall>q z. b_next m = Some q \<longrightarrow> h' q = Some z \<longrightarrow> \<not> allocatable z))"
  proof (cases "k = r")
    case True
    then have "d = y" "g = l" using dk r kg ne by auto
    moreover have "b_next y \<noteq> Some l" using prev_next_neq [OF sd(1,3) r pry] by blast
    ultimately show ?thesis using True out mf by auto
  next
    case False
    then have "d = x" "g = r" "k = l" using dk l kg by auto
    moreover have "b_prev x \<noteq> Some r" using prev_next_neq [OF sd(1,3) l _ lr] by blast
    ultimately show ?thesis using out mf by auto
  qed
  show ?thesis
    unfolding merge_post_def
  proof (intro conjI)
    show "\<forall>c. c \<noteq> k \<longrightarrow> used (heap (s\<lparr>pools := P', heap := h'\<rparr>)) c = used (heap s) c"
      using stay by simp
    show "\<exists>d'. heap (s\<lparr>pools := P', heap := h'\<rparr>) k = Some d' \<and> b_pool d' = b_pool d \<and> allocatable d' = allocatable d
         \<and> (Some g = b_prev d \<longrightarrow> b_next d' = b_next d
             \<and> (\<forall>q z. b_prev d' = Some q \<longrightarrow> heap (s\<lparr>pools := P', heap := h'\<rparr>) q = Some z \<longrightarrow> \<not> allocatable z))
         \<and> (Some g = b_next d \<longrightarrow> b_prev d' = b_prev d
             \<and> (\<forall>q z. b_next d' = Some q \<longrightarrow> heap (s\<lparr>pools := P', heap := h'\<rparr>) q = Some z \<longrightarrow> \<not> allocatable z))"
      using hk side m(4) mf(3) bx by (intro exI [of _ m]) simp
  qed (use inv' ag in simp_all)
qed

lemma bkey_other: "b \<noteq> c \<Longrightarrow> bkey (h(c := y)) b = bkey h b"
  by (simp add: bkey_def)

lemma set_erase_cong:
  assumes "\<And>c. c \<in> set xs \<Longrightarrow> f c = g c" and "f b = g b"
  shows "set_erase lt f b xs = set_erase lt g b xs"
  using set_ops_cong [of xs f g, OF assms(1)] assms(2) by (simp add: set_erase_def)

lemma set_insert_cong:
  assumes "\<And>c. c \<in> set xs \<Longrightarrow> f c = g c" and "f b = g b"
  shows "set_insert lt f b xs = set_insert lt g b xs"
  using set_ops_cong [of xs f g, OF assms(1)] assms(2) by (simp add: set_insert_def)

lemmas store_defs = deref_def setb_def delete_block_def upd_BlockPool_def get_BlockPool_def erase_from_blocks_def

lemma try_merge_skip:
  assumes "heap s sr = Some sb" and "heap s dst = Some d"
    and "allocated sb \<or> 0 < event_count sb \<or> stream_uses sb \<noteq> [] \<or> mapped d \<noteq> mapped sb"
  shows "try_merge_blocks dst (Some sr) pool s = (Inr 0, s)"
  using assms by (simp add: try_merge_blocks_def sx_bind_def store_defs sx_ret_def)

text \<open>The state the code reaches when it merges \<open>sr\<close> into \<open>dst\<close>.\<close>

lemma try_merge_prev:
  assumes h: "heap s sr = Some sb" "heap s dst = Some d" "sr \<noteq> dst" and sp: "is_split d" "is_split sb"
    and c: "\<not> allocated sb" "\<not> 0 < event_count sb" "stream_uses sb = []" "mapped d" "mapped sb"
    and prev: "b_prev d = Some sr" and lv: "pool_live (graph_pools s) pool"
    and p: "\<And>p. b_prev sb = Some p \<Longrightarrow> p \<noteq> sr \<and> p \<noteq> dst \<and> heap s p \<noteq> None"
    and m: "m = d\<lparr>b_ptr := b_ptr sb, b_prev := b_prev sb,
        context_when_segment_allocated := context_when_segment_allocated sb, b_size := b_size d + b_size sb\<rparr>"
  shows "\<exists>h1. bkey h1 sr = bkey (heap s) sr
    \<and> (\<forall>c. c \<noteq> dst \<longrightarrow> bkey h1 c = bkey (heap s) c)
    \<and> try_merge_blocks dst (Some sr) pool s = (Inr (b_size sb), s\<lparr>
      pools := (pools s)(pool := (pools s pool)\<lparr>blocks := set_erase BlockComparatorSize (bkey h1) sr (blocks (pools s pool))\<rparr>),
      heap := (\<lambda>c. if c = dst then Some m else if c = sr then None
        else map_option (\<lambda>z. if b_prev sb = Some c then z\<lparr>b_next := Some dst\<rparr> else z) (heap s c))\<rparr>)"
proof (cases "b_prev sb")
  case None
  let ?h1 = "(heap s)(dst \<mapsto> m)"
  have "try_merge_blocks dst (Some sr) pool s = (Inr (b_size sb), s\<lparr>
      pools := (pools s)(pool := (pools s pool)\<lparr>blocks := set_erase BlockComparatorSize (bkey ?h1) sr (blocks (pools s pool))\<rparr>),
      heap := ?h1(sr := None)\<rparr>)"
    using assms None by (simp add: try_merge_blocks_def sx_defs store_defs)
  moreover have "?h1(sr := None) = (\<lambda>c. if c = dst then Some m else if c = sr then None
        else map_option (\<lambda>z. if b_prev sb = Some c then z\<lparr>b_next := Some dst\<rparr> else z) (heap s c))"
    using h(3) None by (intro ext) (simp add: option.map_ident)
  ultimately show ?thesis using h(3) by (intro exI [of _ ?h1]) (simp add: bkey_other)
next
  case (Some p)
  then obtain pb where pb: "heap s p = Some pb" and pn: "p \<noteq> sr" "p \<noteq> dst" using p by blast
  let ?h1 = "(heap s)(dst \<mapsto> m, p \<mapsto> pb\<lparr>b_next := Some dst\<rparr>)"
  have "try_merge_blocks dst (Some sr) pool s = (Inr (b_size sb), s\<lparr>
      pools := (pools s)(pool := (pools s pool)\<lparr>blocks := set_erase BlockComparatorSize (bkey ?h1) sr (blocks (pools s pool))\<rparr>),
      heap := ?h1(sr := None)\<rparr>)"
    using assms Some pb pn by (simp add: try_merge_blocks_def sx_defs store_defs fun_upd_twist)
  moreover have "?h1(sr := None) = (\<lambda>c. if c = dst then Some m else if c = sr then None
        else map_option (\<lambda>z. if b_prev sb = Some c then z\<lparr>b_next := Some dst\<rparr> else z) (heap s c))"
    using h(3) Some pb pn by (intro ext) (auto simp: option.map_ident)
  moreover have "bkey ?h1 c = bkey (heap s) c" if "c \<noteq> dst" for c
    using that pb by (simp add: bkey_def key_of_def)
  ultimately show ?thesis using h(3) by (intro exI [of _ ?h1]) simp
qed

lemma try_merge_next:
  assumes h: "heap s sr = Some sb" "heap s dst = Some d" "sr \<noteq> dst" and sp: "is_split d" "is_split sb"
    and c: "\<not> allocated sb" "\<not> 0 < event_count sb" "stream_uses sb = []" "mapped d" "mapped sb"
    and prev: "b_prev d \<noteq> Some sr" and lv: "pool_live (graph_pools s) pool"
    and p: "\<And>p. b_next sb = Some p \<Longrightarrow> p \<noteq> sr \<and> p \<noteq> dst \<and> heap s p \<noteq> None"
    and m: "m = d\<lparr>b_next := b_next sb, b_size := b_size d + b_size sb\<rparr>"
  shows "\<exists>h1. bkey h1 sr = bkey (heap s) sr
    \<and> (\<forall>c. c \<noteq> dst \<longrightarrow> bkey h1 c = bkey (heap s) c)
    \<and> try_merge_blocks dst (Some sr) pool s = (Inr (b_size sb), s\<lparr>
      pools := (pools s)(pool := (pools s pool)\<lparr>blocks := set_erase BlockComparatorSize (bkey h1) sr (blocks (pools s pool))\<rparr>),
      heap := (\<lambda>c. if c = dst then Some m else if c = sr then None
        else map_option (\<lambda>z. if b_next sb = Some c then z\<lparr>b_prev := Some dst\<rparr> else z) (heap s c))\<rparr>)"
proof (cases "b_next sb")
  case None
  let ?h1 = "(heap s)(dst \<mapsto> m)"
  have "try_merge_blocks dst (Some sr) pool s = (Inr (b_size sb), s\<lparr>
      pools := (pools s)(pool := (pools s pool)\<lparr>blocks := set_erase BlockComparatorSize (bkey ?h1) sr (blocks (pools s pool))\<rparr>),
      heap := ?h1(sr := None)\<rparr>)"
    using assms None by (simp add: try_merge_blocks_def sx_defs store_defs)
  moreover have "?h1(sr := None) = (\<lambda>c. if c = dst then Some m else if c = sr then None
        else map_option (\<lambda>z. if b_next sb = Some c then z\<lparr>b_prev := Some dst\<rparr> else z) (heap s c))"
    using h(3) None by (intro ext) (simp add: option.map_ident)
  ultimately show ?thesis using h(3) by (intro exI [of _ ?h1]) (simp add: bkey_other)
next
  case (Some p)
  then obtain pb where pb: "heap s p = Some pb" and pn: "p \<noteq> sr" "p \<noteq> dst" using p by blast
  let ?h1 = "(heap s)(dst \<mapsto> m, p \<mapsto> pb\<lparr>b_prev := Some dst\<rparr>)"
  have "try_merge_blocks dst (Some sr) pool s = (Inr (b_size sb), s\<lparr>
      pools := (pools s)(pool := (pools s pool)\<lparr>blocks := set_erase BlockComparatorSize (bkey ?h1) sr (blocks (pools s pool))\<rparr>),
      heap := ?h1(sr := None)\<rparr>)"
    using assms Some pb pn by (simp add: try_merge_blocks_def sx_defs store_defs fun_upd_twist)
  moreover have "?h1(sr := None) = (\<lambda>c. if c = dst then Some m else if c = sr then None
        else map_option (\<lambda>z. if b_next sb = Some c then z\<lparr>b_prev := Some dst\<rparr> else z) (heap s c))"
    using h(3) Some pb pn by (intro ext) (auto simp: option.map_ident)
  moreover have "bkey ?h1 c = bkey (heap s) c" if "c \<noteq> dst" for c
    using that pb by (simp add: bkey_def key_of_def)
  ultimately show ?thesis using h(3) by (intro exI [of _ ?h1]) simp
qed

lemma wp_try_merge:
  assumes I: "inv X Ev Dl (view live s)" and dX: "dst \<in> X" and d: "heap s dst = Some d" and pool: "b_pool d = pool"
    and src: "src = b_prev d \<or> src = b_next d" and XX: "\<And>c w. heap s c = Some w \<Longrightarrow> c \<in> X \<Longrightarrow> c = dst"
  shows "wp (try_merge_blocks dst src pool) (\<lambda>_ t. merge_post live X Ev Dl dst d src s t) (\<lambda>e _. benign_exn e) s"
proof (cases src)
  case None
  then show ?thesis using merge_post_same [OF I d, of src] by (simp add: try_merge_blocks_def)
next
  case (Some sr)
  note sd = inv_shape [OF I, simplified] and iv = invD [OF I, simplified]
  obtain sb where sb: "heap s sr = Some sb" "b_pool sb = b_pool d" "sr \<noteq> dst" "is_split d" "is_split sb"
    using neighbour [OF I, simplified, OF d, of sr] src Some by metis
  have pl: "mapped d" "mapped sb" using iv(3) d sb(1) by (auto simp: plain_heap_def plain_def)
  have ev: "event_count sb = int (Ev sr)" using iv(7) sb(1) by (simp add: ev_counts_def)
  have srX: "sr \<notin> X" using XX sb by blast
  have lv: "pool_live (graph_pools s) pool" using inv_home [OF I, of dst d] d pool by simp
  have keys: "set_erase BlockComparatorSize (bkey h1) sr (blocks (pools s pool))
      = set_erase BlockComparatorSize (bkey (heap s)) sr (blocks (pools s pool))"
    if "bkey h1 sr = bkey (heap s) sr" "\<forall>c. c \<noteq> dst \<longrightarrow> bkey h1 c = bkey (heap s) c" for h1
  proof (rule set_erase_cong)
    fix c assume "c \<in> set (blocks (pools s pool))"
    then have "c \<noteq> dst" using iv(4) dX by (auto simp: pools_ok_def pool_ok_def free_in_def)
    then show "bkey h1 c = bkey (heap s) c" using that(2) by blast
  qed (rule that(1))
  show ?thesis
  proof (cases "allocatable sb")
    case False
    then have "allocated sb \<or> 0 < event_count sb \<or> stream_uses sb \<noteq> []" using ev by (auto simp: allocatable_def)
    then have "try_merge_blocks dst src pool s = (Inr 0, s)"
      unfolding Some using sb(1) d by (intro try_merge_skip) auto
    moreover have "merge_post live X Ev Dl dst d src s s"
      using False Some sb(1) by (intro merge_post_same [OF I d]) auto
    ultimately show ?thesis by (simp add: wp_def)
  next
    case free: True
    then have c: "\<not> allocated sb" "\<not> 0 < event_count sb" "stream_uses sb = []" by (simp_all add: allocatable_def)
    show ?thesis
    proof (cases "b_prev d = Some sr")
      case prev: True
      have nsb: "b_next sb = Some dst" using links_prev [OF sd(1) d prev] sb(1) by auto
      have p: "p \<noteq> sr \<and> p \<noteq> dst \<and> heap s p \<noteq> None" if "b_prev sb = Some p" for p
        using prev_neq [OF sd(1,3) sb(1) that] prev_next_neq [OF sd(1,3) sb(1) that nsb]
          links_prev [OF sd(1) sb(1) that] by blast
      obtain h1 where h1: "bkey h1 sr = bkey (heap s) sr" "\<forall>c. c \<noteq> dst \<longrightarrow> bkey h1 c = bkey (heap s) c"
        and run: "try_merge_blocks dst (Some sr) pool s = (Inr (b_size sb), s\<lparr>
          pools := (pools s)(pool := (pools s pool)\<lparr>blocks := set_erase BlockComparatorSize (bkey h1) sr (blocks (pools s pool))\<rparr>),
          heap := (\<lambda>c. if c = dst then Some (d\<lparr>b_ptr := b_ptr sb, b_prev := b_prev sb,
              context_when_segment_allocated := context_when_segment_allocated sb, b_size := b_size d + b_size sb\<rparr>)
            else if c = sr then None
            else map_option (\<lambda>z. if b_prev sb = Some c then z\<lparr>b_next := Some dst\<rparr> else z) (heap s c))\<rparr>)"
        using try_merge_prev [OF sb(1) d sb(3-5) c pl prev lv p refl] by blast
      have "merge_post live X Ev Dl dst d (Some sr) s (snd (try_merge_blocks dst (Some sr) pool s))"
        unfolding run snd_conv keys [OF h1] merge_right [OF sd(1) sb(1) d sb(3), symmetric]
      proof (rule merge_post_merged [OF I sb(1) d nsb _ dX srX _ d sb(1) free pool])
        show "c \<notin> X" if "heap s c = Some w" "b_prev sb = Some c \<or> b_next d = Some c" for c w
          using XX that p next_neq [OF sd(1,3) d] by blast
      qed (use adjD [OF sd(1) sb(1) d nsb] pl in \<open>simp_all add: skel_def allocatable_def\<close>)
      then show ?thesis unfolding Some by (simp add: wp_def run)
    next
      case False
      then have nx: "b_next d = Some sr" using src Some by simp
      then have psb: "b_prev sb = Some dst" using links_next [OF sd(1) d nx] sb(1) by auto
      have p: "p \<noteq> sr \<and> p \<noteq> dst \<and> heap s p \<noteq> None" if "b_next sb = Some p" for p
        using next_neq [OF sd(1,3) sb(1) that] prev_next_neq [OF sd(1,3) sb(1) psb that]
          links_next [OF sd(1) sb(1) that] by blast
      obtain h1 where h1: "bkey h1 sr = bkey (heap s) sr" "\<forall>c. c \<noteq> dst \<longrightarrow> bkey h1 c = bkey (heap s) c"
        and run: "try_merge_blocks dst (Some sr) pool s = (Inr (b_size sb), s\<lparr>
          pools := (pools s)(pool := (pools s pool)\<lparr>blocks := set_erase BlockComparatorSize (bkey h1) sr (blocks (pools s pool))\<rparr>),
          heap := (\<lambda>c. if c = dst then Some (d\<lparr>b_next := b_next sb, b_size := b_size d + b_size sb\<rparr>)
            else if c = sr then None
            else map_option (\<lambda>z. if b_next sb = Some c then z\<lparr>b_prev := Some dst\<rparr> else z) (heap s c))\<rparr>)"
        using try_merge_next [OF sb(1) d sb(3-5) c pl False lv p refl] by blast
      have "merge_post live X Ev Dl dst d (Some sr) s (snd (try_merge_blocks dst (Some sr) pool s))"
        unfolding run snd_conv keys [OF h1] merge_left [OF sd(1) d sb(1) sb(3) [symmetric], symmetric]
      proof (rule merge_post_merged [OF I d sb(1) nx _ dX srX _ d sb(1) free pool])
        show "c \<notin> X" if "heap s c = Some w" "b_prev d = Some c \<or> b_next sb = Some c" for c w
          using XX that p prev_neq [OF sd(1,3) d] by blast
      qed (use adjD [OF sd(1) d sb(1) nx] pl in \<open>simp_all add: skel_def allocatable_def\<close>)
      then show ?thesis unfolding Some by (simp add: wp_def run)
    qed
  qed
qed

section \<open>Freeing a block\<close>

lemma bkey_gc: "h b = Some x \<Longrightarrow> bkey (h(b \<mapsto> x\<lparr>gc_count_base := g\<rparr>)) = bkey h"
  by (intro ext) (simp add: bkey_def key_of_def)

lemma wp_insert_into_blocks:
  assumes "heap s b = Some x" and "pool_live (graph_pools s) p"
  shows "wp (insert_into_blocks p b) Q E s =
    Q (\<not> set_has BlockComparatorSize (bkey (heap s)) (bkey (heap s) b) (blocks (pools s p)))
      (s\<lparr>heap := (heap s)(b \<mapsto> x\<lparr>gc_count_base := get_free_blocks_call_count (pools s p)\<rparr>),
         pools := (pools s)(p := (pools s p)\<lparr>blocks := set_insert BlockComparatorSize (bkey (heap s)) b (blocks (pools s p))\<rparr>)\<rparr>)"
  using assms by (simp add: insert_into_blocks_def bkey_gc)

text \<open>The blocks that are not free stay what they are.\<close>

definition stays :: "nat set \<Rightarrow> 'd dca \<Rightarrow> 'd dca \<Rightarrow> bool" where
  "stays Y s t \<longleftrightarrow> (\<forall>c. c \<notin> Y \<longrightarrow> used (heap t) c = used (heap s) c)"

lemma stays_trans: "stays Y s t \<Longrightarrow> stays Y t u \<Longrightarrow> stays Y s u"
  by (simp add: stays_def)

lemma stays_refl [simp]: "stays Y s s"
  by (simp add: stays_def)

lemma stays_mono: "stays Y s t \<Longrightarrow> Y \<subseteq> Z \<Longrightarrow> stays Z s t"
  unfolding stays_def by blast

lemma stays_heap: "heap t = heap s \<Longrightarrow> stays Y s t"
  by (simp add: stays_def)

lemma stays_set: "heap t = (heap s)(b := y) \<Longrightarrow> b \<in> Y \<Longrightarrow> stays Y s t"
  by (auto simp: stays_def used_def)

lemma merge_post_stays: "merge_post live X Ev Dl dst d src s t \<Longrightarrow> stays {dst} s t"
  by (simp add: merge_post_def stays_def)

definition free_post :: "('d \<Rightarrow> (nat \<times> nat) set) \<Rightarrow> (nat \<Rightarrow> nat) \<Rightarrow> nat list \<Rightarrow> nat \<Rightarrow> 'd dca \<Rightarrow> 'd dca \<Rightarrow> bool" where
  "free_post live Ev Dl b s t \<longleftrightarrow> inv {} Ev Dl (view live t) \<and> stays {b} s t
     \<and> (\<exists>d. heap t b = Some d \<and> allocatable d)
     \<and> (\<exists>h P A. view live t = (view live s)\<lparr>v_heap := h, v_pools := P, v_active := A\<rparr>)"

lemma benign_free_block_stats: "benign (same_view live) (free_block_stats p pl nb ns o' r)"
  unfolding free_block_stats_def by (intro view_intros stats_intros)

text \<open>The two merges of \<^verbatim>\<open>free_block\<close>, one after the other.\<close>

lemma wp_two_merges:
  assumes I: "inv {b} Ev Dl (view live s)" and x: "heap s b = Some x" "allocatable x"
    and Q: "\<And>n1 n2 t d. inv {b} Ev Dl (view live t) \<Longrightarrow> view live t = (view live s)\<lparr>v_heap := heap t, v_pools := pools t\<rparr>
        \<Longrightarrow> stays {b} s t \<Longrightarrow> heap t b = Some d \<Longrightarrow> allocatable d \<Longrightarrow> b_pool d = b_pool x
        \<Longrightarrow> (\<And>n y. b_next d = Some n \<or> b_prev d = Some n \<Longrightarrow> heap t n = Some y \<Longrightarrow> \<not> allocatable y)
        \<Longrightarrow> wp (f n1 n2) Q E t"
    and E: "\<And>e t. benign_exn e \<Longrightarrow> E e t" and eq: "pv = b_prev x" "nv = b_next x" "p = b_pool x"
  shows "wp (sx_bind (try_merge_blocks b pv p) (\<lambda>n1. sx_bind (try_merge_blocks b nv p) (f n1))) Q E s"
proof -
  have step2: "wp (sx_bind (try_merge_blocks b (b_next x) (b_pool x)) (f n1)) Q E t"
    if mp: "merge_post live {b} Ev Dl b x (b_prev x) s t" for n1 t
  proof -
    obtain d where d: "heap t b = Some d" "b_pool d = b_pool x" "allocatable d" "b_next d = b_next x"
      and pv: "\<And>q z. b_prev d = Some q \<Longrightarrow> heap t q = Some z \<Longrightarrow> \<not> allocatable z"
      using mp x(2) by (auto simp: merge_post_def)
    have It: "inv {b} Ev Dl (view live t)" and vt: "view live t = (view live s)\<lparr>v_heap := heap t, v_pools := pools t\<rparr>"
      using mp unfolding merge_post_def by blast+
    have "wp (try_merge_blocks b (b_next x) (b_pool x)) (\<lambda>_ u. merge_post live {b} Ev Dl b d (b_next x) t u)
        (\<lambda>e _. benign_exn e) t"
      using d by (intro wp_try_merge [OF It]) auto
    then show ?thesis
      unfolding wp_bind
    proof (rule wp_conseq)
      fix n2 u assume mu: "merge_post live {b} Ev Dl b d (b_next x) t u"
      then obtain d' where d': "heap u b = Some d'" "b_pool d' = b_pool d" "allocatable d' = allocatable d"
          "b_prev d' = b_prev d" and nx: "\<And>q z. b_next d' = Some q \<Longrightarrow> heap u q = Some z \<Longrightarrow> \<not> allocatable z"
        using d(4) by (auto simp: merge_post_def)
      have pv': "\<not> allocatable z" if q: "b_prev d' = Some q" "heap u q = Some z" for q z
      proof -
        have pd: "b_prev d = Some q" using q d' by simp
        note sd = inv_shape [OF It, simplified]
        obtain w where w: "heap t q = Some w" using links_prev [OF sd(1) d(1) pd] by blast
        have "stays {b} t u" using mu by (rule merge_post_stays)
        then have "used (heap u) q = used (heap t) q"
          using prev_neq [OF sd(1,3) d(1) pd] by (simp add: stays_def)
        then obtain w' where "heap u q = Some w'" "body w' = body w" using usedE [of "heap u" q "heap t" w, OF _ w pv [OF pd w]] by blast
        then show ?thesis using pv [OF pd w] q(2) body_fields(10) by (metis option.inject)
      qed
      have "view live u = (view live t)\<lparr>v_heap := heap u, v_pools := pools u\<rparr>" using mu unfolding merge_post_def by blast
      then have vu: "view live u = (view live s)\<lparr>v_heap := heap u, v_pools := pools u\<rparr>" by (simp add: vt)
      then show "wp (f n1 n2) Q E u"
        using d d' nx pv' by (intro Q [OF _ vu stays_trans [OF merge_post_stays [OF mp] merge_post_stays [OF mu]] d'(1)])
          (use mu in \<open>auto simp: merge_post_def\<close>)
    qed (rule E)
  qed
  have "wp (try_merge_blocks b (b_prev x) (b_pool x)) (\<lambda>_ t. merge_post live {b} Ev Dl b x (b_prev x) s t)
      (\<lambda>e _. benign_exn e) s"
    using x by (intro wp_try_merge [OF I]) auto
  then show ?thesis
    unfolding eq wp_bind by (rule wp_conseq) (auto intro: step2 [unfolded wp_bind] E)
qed

lemma free_finish:
  assumes Iu: "inv {b} Ev Dl (view live u)" and vu: "view live u = (view live s)\<lparr>v_heap := heap u, v_pools := pools u\<rparr>"
    and st: "stays {b} s u" and d: "heap u b = Some d" "allocatable d" "b_pool d = p"
    and nb: "\<And>n y. b_next d = Some n \<or> b_prev d = Some n \<Longrightarrow> heap u n = Some y \<Longrightarrow> \<not> allocatable y"
    and k: "\<And>d. benign (same_view live) (k d)"
  shows "wp (sx_seq (sx_mod (\<lambda>s. s\<lparr>active_blocks := filter (\<lambda>x. x \<noteq> b) (active_blocks s)\<rparr>))
      (sx_bind (insert_into_blocks p b) (\<lambda>inserted. sx_seq (sx_check inserted (InternalAssert ''inserted''))
       (sx_bind (deref b) k)))) (\<lambda>_ t. free_post live Ev Dl b s t) (\<lambda>e _. benign_exn e) u"
proof -
  note sd = inv_shape [OF Iu, simplified]
  let ?g = "get_free_blocks_call_count (pools u p)" and ?A = "filter (\<lambda>x. x \<noteq> b) (active_blocks u)"
  let ?d = "d\<lparr>gc_count_base := ?g\<rparr>" and ?q = "set_insert BlockComparatorSize (bkey (heap u)) b (blocks (pools u p))"
  let ?u = "u\<lparr>active_blocks := ?A, heap := (heap u)(b \<mapsto> ?d), pools := (pools u)(p := (pools u p)\<lparr>blocks := ?q\<rparr>)\<rparr>"
  have lv: "pool_live (graph_pools u) p" using inv_home [OF Iu, of b d] d by simp
  have m: "mapped ?d" using invD(3) [OF Iu] d(1) by (simp add: plain_heap_def plain_def)
  have e: "event_count ?d = int (Ev b)" using invD(7) [OF Iu] d(1) by (simp add: ev_counts_def)
  have I1: "inv {b} Ev Dl ((view live u)\<lparr>v_heap := (heap u)(b \<mapsto> ?d)\<rparr>)"
    using inv_set [OF Iu, of b d ?d Ev] d(1) m e by (simp add: skel_def)
  have nb': "\<not> allocatable y" if "b_next ?d = Some n \<or> b_prev ?d = Some n" "((heap u)(b \<mapsto> ?d)) n = Some y" for n y
  proof -
    have "n \<noteq> b" using that(1) next_neq [OF sd(1,3) d(1)] prev_neq [OF sd(1,3) d(1)] by auto
    then show ?thesis using nb [of n y] that by simp
  qed
  have al: "allocatable ?d" using d(2) by (simp add: allocatable_def)
  have bk: "bkey ((heap u)(b \<mapsto> ?d)) = bkey (heap u)" by (rule bkey_gc [of "heap u" b d, OF d(1)])
  have "inv ({b} - {b}) Ev Dl ((view live u)\<lparr>v_heap := (heap u)(b \<mapsto> ?d), v_active := ?A,
        v_pools := (pools u)(p := (pools u p)\<lparr>blocks := ?q\<rparr>)\<rparr>)"
    using inv_put_free(1) [OF I1, of b ?d p ?A ?q] al d(3) nb' bk by simp
  then have I2: "inv {} Ev Dl (view live ?u)" by (simp add: inv_def)
  have ins: "\<not> set_has BlockComparatorSize (bkey (heap u)) (bkey (heap u) b) (blocks (pools u p))"
    using inv_put_free(2) [OF I1, of b ?d p ?A ?q] al d(3) nb' bk by simp
  have "wp (k ?d) (\<lambda>_ t. free_post live Ev Dl b s t) (\<lambda>e _. benign_exn e) ?u"
  proof (rule benign_step [OF k])
    fix t assume "same_view live ?u t"
    then have vt: "view live t = view live ?u" and ht: "heap t = heap ?u" by (rule same_viewD)+
    have "stays {b} u t" using ht by (intro stays_set [of t u b "Some ?d"]) simp_all
    then have "stays {b} s t" by (rule stays_trans [OF st])
    moreover have "view live t = (view live s)\<lparr>v_heap := heap t, v_pools := pools t, v_active := ?A\<rparr>"
      using vt unfolding view_upd vu by (simp add: ht view_def)
    moreover have "heap t b = Some ?d" using ht by simp
    ultimately show "free_post live Ev Dl b s t" using I2 al unfolding free_post_def vt [symmetric] by blast
  qed
  then show ?thesis
    using d(1) lv ins by (simp add: wp_insert_into_blocks [of _ b d])
qed

lemma wp_free_block:
  assumes I: "inv {b} Ev Dl (view live s)" and x: "heap s b = Some x" "allocatable x"
  shows "wp (free_block b ctx) (\<lambda>_ t. free_post live Ev Dl b s t) (\<lambda>e _. benign_exn e) s"
proof -
  let ?x = "x\<lparr>context_when_allocated := None\<rparr>"
  have chk: "\<not> allocated x \<and> event_count x = 0 \<and> stream_uses x = []" using x(2) by (simp add: allocatable_def)
  have main: "wp (sx_bind (try_merge_blocks b (b_prev x) (b_pool x)) (\<lambda>n1.
      sx_bind (try_merge_blocks b (b_next x) (b_pool x)) (\<lambda>n2.
      sx_seq (sx_mod (\<lambda>s. s\<lparr>active_blocks := filter (\<lambda>x. x \<noteq> b) (active_blocks s)\<rparr>))
      (sx_bind (insert_into_blocks (b_pool x) b) (\<lambda>inserted. sx_seq (sx_check inserted (InternalAssert ''inserted''))
       (sx_bind (deref b) (k n1 n2))))))) (\<lambda>_ t. free_post live Ev Dl b s t) (\<lambda>e _. benign_exn e)
      (t\<lparr>heap := (heap s)(b \<mapsto> ?x)\<rparr>)"
    if t: "same_view live s t" and k: "\<And>n1 n2 d. benign (same_view live) (k n1 n2 d)" for t k
  proof -
    let ?t = "t\<lparr>heap := (heap s)(b \<mapsto> ?x)\<rparr>"
    have vt: "view live ?t = (view live s)\<lparr>v_heap := (heap s)(b \<mapsto> ?x)\<rparr>" using same_viewD(12) [OF t] by simp
    have m: "mapped ?x" using invD(3) [OF I] x(1) by (simp add: plain_heap_def plain_def)
    have e: "event_count ?x = int (Ev b)" using invD(7) [OF I] x(1) by (simp add: ev_counts_def)
    have It: "inv {b} Ev Dl (view live ?t)"
      unfolding vt using inv_set [OF I, of b x ?x Ev] x(1) m e by (simp add: skel_def)
    have st: "stays {b} s ?t" by (rule stays_set [of _ _ b "Some ?x"]) simp_all
    have hx: "heap ?t b = Some ?x" "allocatable ?x" using x(2) by (simp_all add: allocatable_def)
    show ?thesis
    proof (rule wp_two_merges [OF It hx])
      fix n1 n2 u d
      assume u: "inv {b} Ev Dl (view live u)" and vu: "view live u = (view live ?t)\<lparr>v_heap := heap u, v_pools := pools u\<rparr>"
        and su: "stays {b} ?t u" and d: "heap u b = Some d" "allocatable d" "b_pool d = b_pool ?x"
        and nb: "\<And>n y. b_next d = Some n \<or> b_prev d = Some n \<Longrightarrow> heap u n = Some y \<Longrightarrow> \<not> allocatable y"
      have vs: "view live u = (view live s)\<lparr>v_heap := heap u, v_pools := pools u\<rparr>" unfolding vu vt by simp
      have bp: "b_pool d = b_pool x" using d(3) by simp
      show "wp (sx_seq (sx_mod (\<lambda>s. s\<lparr>active_blocks := filter (\<lambda>x. x \<noteq> b) (active_blocks s)\<rparr>))
        (sx_bind (insert_into_blocks (b_pool x) b) (\<lambda>inserted. sx_seq (sx_check inserted (InternalAssert ''inserted''))
        (sx_bind (deref b) (k n1 n2))))) (\<lambda>_ t. free_post live Ev Dl b s t) (\<lambda>e _. benign_exn e) u"
        by (rule free_finish [OF u vs stays_trans [OF st su] d(1,2) bp]) (use nb in blast, rule k)
    qed simp_all
  qed
  show ?thesis
    unfolding free_block_def
  proof (rule step_deref [OF x(1)], rule step_check [OF chk], rule step_benign [OF benign_record_trace [where live = live]], goal_cases)
    case (1 t)
    have ht: "heap t b = Some x" "heap t = heap s" using x(1) same_viewD(1) [OF 1] by simp_all
    show ?case
      by (rule step_setb [OF ht(1)], unfold ht(2), rule main [OF 1 benign_free_block_stats])
  qed
qed

end
