(* ===== verification/Event_Safety.thy ===== *)
theory Event_Safety
  imports Free_Safety
begin

text \<open>
  The life cycle of events keeps the invariant: a block that was used on other streams waits for an
  event on each of them, is freed when the last one is done, and is never handed out before. The
  theory covers \<^verbatim>\<open>insert_events\<close>, the deferred insertion after a capture, \<^verbatim>\<open>process_events\<close> and
  \<^verbatim>\<open>synchronize_and_free_events\<close>.
\<close>

section \<open>Pending events\<close>

definition evc :: "(stream_ref \<times> (nat \<times> nat) list) list \<Rightarrow> nat \<Rightarrow> nat" where
  "evc evs b = sum_list (map (\<lambda>(st, q). length (filter (\<lambda>(e, c). c = b) q)) evs)"

lemma evc_Nil [simp]: "evc [] b = 0"
  by (simp add: evc_def)

lemma evc_Cons [simp]: "evc ((st, q) # evs) b = length (filter (\<lambda>(e, c). c = b) q) + evc evs b"
  by (simp add: evc_def)

lemma evc_append: "evc (xs @ ys) b = evc xs b + evc ys b"
  by (simp add: evc_def)

text \<open>The queue of one stream replaced.\<close>

lemma evc_replace:
  assumes "distinct (map fst evs)" and "(st, q) \<in> set evs"
  shows "evc (map (\<lambda>(k, q0). if k = st then (k, f q0) else (k, q0)) evs) b + length (filter (\<lambda>(e, c). c = b) q)
    = evc evs b + length (filter (\<lambda>(e, c). c = b) (f q))"
  using assms
proof (induction evs)
  case (Cons a evs)
  obtain k q0 where a: "a = (k, q0)" by fastforce
  show ?case
  proof (cases "k = st")
    case True
    then have "q0 = q" using Cons.prems a by (auto simp: image_iff)
    moreover have "map (\<lambda>(k, q0). if k = st then (k, f q0) else (k, q0)) evs = evs"
      using Cons.prems(1) a True by (intro map_idI) (auto simp: image_iff)
    ultimately show ?thesis using True by (simp add: a)
  next
    case False
    then have "(st, q) \<in> set evs" using Cons.prems a by auto
    then show ?thesis using Cons.IH Cons.prems(1) False by (simp add: a)
  qed
qed simp

lemma evc_remove:
  assumes "distinct (map fst evs)" and "(st, q) \<in> set evs"
  shows "evc (filter (\<lambda>(k, q). k \<noteq> st) evs) b + length (filter (\<lambda>(e, c). c = b) q) = evc evs b"
  using assms
proof (induction evs)
  case (Cons a evs)
  obtain k q0 where a: "a = (k, q0)" by fastforce
  show ?case
  proof (cases "k = st")
    case True
    then have "q0 = q" using Cons.prems a by (auto simp: image_iff)
    moreover have "filter (\<lambda>(k, q). k \<noteq> st) evs = evs"
      using Cons.prems(1) a True by (intro filter_True) (auto simp: image_iff)
    ultimately show ?thesis using True by (simp add: a)
  next
    case False
    then have "(st, q) \<in> set evs" using Cons.prems a by auto
    then show ?thesis using Cons.IH Cons.prems(1) False by (simp add: a)
  qed
qed simp

lemma evc_member: "(st, q) \<in> set evs \<Longrightarrow> (e, b) \<in> set q \<Longrightarrow> 0 < evc evs b"
proof (induction evs)
  case (Cons a evs)
  then show ?case by (cases a) (auto simp: filter_empty_conv)
qed simp

lemma map_fst_replace: "map fst (map (\<lambda>(k, q0). if k = st then (k, f q0) else (k, q0)) evs) = map fst evs"
  by (induction evs) auto

lemma push_event_distinct: "distinct (map fst evs) \<Longrightarrow> distinct (map fst (push_event st e evs))"
  by (simp add: push_event_def map_fst_replace [of st "\<lambda>q. q @ [e]" evs] del: map_map)

lemma evc_push:
  assumes "distinct (map fst evs)"
  shows "evc (push_event st (e, b) evs) = (evc evs)(b := Suc (evc evs b))"
proof
  fix c
  show "evc (push_event st (e, b) evs) c = ((evc evs)(b := Suc (evc evs b))) c"
  proof (cases "st \<in> fst ` set evs")
    case True
    then obtain q where "(st, q) \<in> set evs" by auto
    from evc_replace [OF assms this, of "\<lambda>q. q @ [(e, b)]" c]
    show ?thesis using True by (simp add: push_event_def)
  next
    case False
    then show ?thesis by (simp add: push_event_def evc_append)
  qed
qed

section \<open>States between two statements\<close>

text \<open>The allocated blocks stay what they are, and the bookkeeping of pools and captures is untouched.\<close>

definition keeps :: "'d dca \<Rightarrow> 'd dca \<Rightarrow> bool" where
  "keeps s t \<longleftrightarrow> in_use (heap t) = in_use (heap s)"

lemma keeps_refl [simp]: "keeps s s"
  by (simp add: keeps_def)

lemma keeps_trans: "keeps s t \<Longrightarrow> keeps t u \<Longrightarrow> keeps s u"
  by (simp add: keeps_def)

lemma stays_keeps:
  assumes "stays {b} s t" and "in_use (heap s) b = None" and "in_use (heap t) b = None"
  shows "keeps s t"
  unfolding keeps_def
proof
  fix c
  show "in_use (heap t) c = in_use (heap s) c"
    using assms by (cases "c = b") (simp_all add: stays_def in_use_used)
qed

lemma keeps_set:
  assumes "heap s b = Some x" and "\<not> allocated x" and "heap t = (heap s)(b := y)" and "\<And>z. y = Some z \<Longrightarrow> \<not> allocated z"
  shows "keeps s t"
  using assms by (auto simp: keeps_def in_use_upd in_use_def split: option.splits)

definition steady :: "('d \<Rightarrow> (nat \<times> nat) set) \<Rightarrow> 'd dca \<Rightarrow> 'd dca \<Rightarrow> bool" where
  "steady live s t \<longleftrightarrow> keeps s t \<and> graph_pools t = graph_pools s \<and> graph_pools_freeable t = graph_pools_freeable s
     \<and> captures_underway t = captures_underway s
     \<and> block_to_supagraph_stream_uses t = block_to_supagraph_stream_uses s
     \<and> live (drv (world t)) = live (drv (world s)) \<and> next_block t = next_block s"

definition calm :: "('d \<Rightarrow> (nat \<times> nat) set) \<Rightarrow> 'd dca \<Rightarrow> 'd dca \<Rightarrow> bool" where
  "calm live s t \<longleftrightarrow> steady live s t \<and> needs_events_deferred t = needs_events_deferred s"

lemma steady_refl [simp]: "steady live s s"
  by (simp add: steady_def)

lemma steady_trans: "steady live s t \<Longrightarrow> steady live t u \<Longrightarrow> steady live s u"
  by (auto simp: steady_def intro: keeps_trans)

lemma calm_refl [simp]: "calm live s s"
  by (simp add: calm_def)

lemma calm_trans: "calm live s t \<Longrightarrow> calm live t u \<Longrightarrow> calm live s u"
  by (auto simp: calm_def intro: steady_trans)

lemma calm_steady: "calm live s t \<Longrightarrow> steady live s t"
  by (simp add: calm_def)

lemma same_view_calm:
  assumes "same_view live s t"
  shows "calm live s t"
  unfolding calm_def steady_def keeps_def same_viewD(1,2,5,6,7,9,10,11) [OF assms] by simp

text \<open>The invariant with the queues of the state and a list \<open>Dl\<close> of blocks still to be looked at.\<close>

definition mid :: "('d \<Rightarrow> (nat \<times> nat) set) \<Rightarrow> nat set \<Rightarrow> nat list \<Rightarrow> 'd dca \<Rightarrow> bool" where
  "mid live X Dl s \<longleftrightarrow> inv X (evc (supa_events s)) Dl (view live s) \<and> distinct (map fst (supa_events s))
     \<and> block_to_supagraph_stream_uses s = (\<lambda>_. None)"

lemma mid_view:
  assumes "same_view live s t" and "mid live X Dl s"
  shows "mid live X Dl t"
  using assms(2) unfolding mid_def same_viewD(8,11,12) [OF assms(1)] .

lemma free_post_calm:
  assumes "free_post live Ev Dl b s t" and "\<And>z. heap s b = Some z \<Longrightarrow> \<not> allocated z"
  shows "calm live s t" and "supa_events t = supa_events s" and "inv {} Ev Dl (view live t)"
proof -
  obtain h P A where v: "view live t = (view live s)\<lparr>v_heap := h, v_pools := P, v_active := A\<rparr>"
    using assms(1) by (auto simp: free_post_def)
  have f: "graph_pools t = graph_pools s" "graph_pools_freeable t = graph_pools_freeable s"
    "captures_underway t = captures_underway s" "needs_events_deferred t = needs_events_deferred s" "block_to_supagraph_stream_uses t = block_to_supagraph_stream_uses s"
    "live (drv (world t)) = live (drv (world s))" "next_block t = next_block s" "supa_events t = supa_events s"
    using v by (simp_all add: view_def)
  have "keeps s t"
    using assms by (intro stays_keeps [of b]) (auto simp: free_post_def in_use_def allocatable_def split: option.splits)
  then show "calm live s t" using f by (simp add: calm_def steady_def)
  show "inv {} Ev Dl (view live t)" using assms(1) by (simp add: free_post_def)
  show "supa_events t = supa_events s" using f by simp
qed

lemma wp_free_mid:
  assumes I: "inv {b} Ev Dl (view live s)" and x: "heap s b = Some x" "allocatable x"
  shows "wp (free_block b ctx) (\<lambda>_ t. calm live s t \<and> supa_events t = supa_events s \<and> inv {} Ev Dl (view live t))
    (\<lambda>e _. benign_exn e) s"
proof (rule wp_conseq [OF wp_free_block [OF I x]])
  fix t assume p: "free_post live Ev Dl b s t"
  have "\<And>z. heap s b = Some z \<Longrightarrow> \<not> allocated z" using x by (simp add: allocatable_def)
  from free_post_calm [OF p this]
  show "calm live s t \<and> supa_events t = supa_events s \<and> inv {} Ev Dl (view live t)" by blast
qed

section \<open>Inserting events\<close>

lemma wp_for_rest:
  assumes "J xs s" and "\<And>x xs t. J (x # xs) t \<Longrightarrow> wp (f x) (\<lambda>_. J xs) E t"
  shows "wp (sx_for xs f) (\<lambda>_. J []) E s"
  using assms(1)
proof (induction xs arbitrary: s)
  case (Cons x xs)
  show ?case using Cons by (auto intro!: wp_conseq [OF assms(2) [OF Cons.prems]])
qed simp

definition ins_inv :: "('d \<Rightarrow> (nat \<times> nat) set) \<Rightarrow> nat list \<Rightarrow> nat \<Rightarrow> 'd dca \<Rightarrow> 'd dca \<Rightarrow> bool" where
  "ins_inv live Dl b s t \<longleftrightarrow> mid live {b} Dl t \<and> calm live s t \<and> active_blocks t = active_blocks s
     \<and> (\<exists>y. heap t b = Some y \<and> \<not> allocated y \<and> stream_uses y = [])"

lemma ins_inv_view:
  assumes "same_view live t u" and "ins_inv live Dl b s t"
  shows "ins_inv live Dl b s u"
  using assms(2) mid_view [OF assms(1)] calm_trans [OF _ same_view_calm [OF assms(1)]]
  unfolding ins_inv_def same_viewD(1,4) [OF assms(1)] by blast

lemma ins_inv_event:
  assumes J: "ins_inv live Dl b s t" and y: "heap t b = Some y"
  shows "ins_inv live Dl b s (t\<lparr>heap := (heap t)(b \<mapsto> y\<lparr>event_count := event_count y + 1\<rparr>),
    supa_events := push_event st (e, b) (supa_events t)\<rparr>)"
proof -
  have I: "inv {b} (evc (supa_events t)) Dl (view live t)" and dk: "distinct (map fst (supa_events t))"
    using J by (simp_all add: ins_inv_def mid_def)
  let ?y = "y\<lparr>event_count := event_count y + 1\<rparr>"
  have y2: "\<not> allocated y" "stream_uses y = []" using J y by (auto simp: ins_inv_def)
  have "mapped ?y" using invD(3) [OF I] y by (simp add: plain_heap_def plain_def)
  moreover have "event_count y = int (evc (supa_events t) b)" using invD(7) [OF I] y by (simp add: ev_counts_def)
  ultimately have "inv {b} (evc (push_event st (e, b) (supa_events t))) Dl ((view live t)\<lparr>v_heap := (heap t)(b \<mapsto> ?y)\<rparr>)"
    using inv_set [OF I, of b y ?y "(evc (supa_events t))(b := Suc (evc (supa_events t) b))"] y
    by (simp add: skel_def evc_push [OF dk])
  moreover have "calm live t (t\<lparr>heap := (heap t)(b \<mapsto> ?y), supa_events := push_event st (e, b) (supa_events t)\<rparr>)"
    using y y2 keeps_set [of t b y "t\<lparr>heap := (heap t)(b \<mapsto> ?y), supa_events := push_event st (e, b) (supa_events t)\<rparr>" "Some ?y"]
    by (simp add: calm_def steady_def)
  then have "calm live s (t\<lparr>heap := (heap t)(b \<mapsto> ?y), supa_events := push_event st (e, b) (supa_events t)\<rparr>)"
    using J by (auto simp: ins_inv_def intro: calm_trans)
  ultimately show ?thesis
    using J y2 push_event_distinct [OF dk] by (simp add: ins_inv_def mid_def)
qed

lemma wp_insert_events:
  assumes oc: "other_calls_ok (Drv V) live" and M: "mid live {b} Dl s" and x: "heap s b = Some x" "\<not> allocated x"
  shows "wp (insert_events V b) (\<lambda>_ t. ins_inv live Dl b s t \<and> length (stream_uses x) \<le> evc (supa_events t) b)
    (\<lambda>e _. benign_exn e) s"
proof -
  define J where "J rest t \<longleftrightarrow> ins_inv live Dl b s t \<and> length (stream_uses x) \<le> evc (supa_events t) b + length rest" for rest :: "stream_ref list" and t
  have J_view: "J rest u" if "same_view live t u" "J rest t" for rest t u
    using that ins_inv_view [OF that(1)] same_viewD(8) [OF that(1)] by (simp add: J_def)
  let ?b = "benign (same_view live)"
  have GD: "?b (on_drv (GetDevice (Drv V)))" by (intro benign_on_drv benign_GetDevice oc)
  have CE: "?b (check_err e)" for e unfolding check_err_def by (intro keep_intros) simp
  have "?b (sx_bind (on_drv (SetDevice (Drv V) i False)) check_err)" for i
    by (intro keep_intros benign_on_drv benign_SetDevice oc CE)
  note SD = this
  have EG: "?b (on_drv (EventPool_get (Drv V) i))" for i by (intro benign_on_drv benign_EventPool_get oc)
  have ER: "?b (on_drv (supa_check (supaEventRecord (Drv V) e h)))" for e h
    by (intro benign_on_drv benign_supa_check other_calls [OF oc])
  have MS: "?b (sx_bind (on_drv (MaybeSetDevice (Drv V) i)) check_err)" for i
    by (intro keep_intros benign_on_drv benign_MaybeSetDevice oc CE)
  have body: "wp (sx_seq (sx_bind (on_drv (SetDevice (Drv V) (stream_device st) False)) check_err)
         (sx_bind (on_drv (EventPool_get (Drv V) (stream_device st))) (\<lambda>event.
          sx_seq (on_drv (supa_check (supaEventRecord (Drv V) event (stream_handle st))))
          (sx_seq (setb b (\<lambda>x. x\<lparr>event_count := event_count x + 1\<rparr>))
          (sx_mod (\<lambda>s. s\<lparr>supa_events := push_event st (event, b) (supa_events s)\<rparr>))))))
      (\<lambda>_. J rest) (\<lambda>e _. benign_exn e) t" if J: "J (st # rest) t" for st rest t
  proof (rule step_benign [OF SD], rule step_benign_bind [OF EG], rule step_benign [OF ER], goal_cases)
    case (1 t1 event t2 t3)
    have J3: "J (st # rest) t3" using 1 J by (blast intro: J_view)
    then have i3: "ins_inv live Dl b s t3" by (simp add: J_def)
    then obtain y where y: "heap t3 b = Some y" and dk: "distinct (map fst (supa_events t3))"
      by (auto simp: ins_inv_def mid_def)
    show ?case using ins_inv_event [OF i3 y] y J3 by (simp add: J_def evc_push [OF dk])
  qed simp_all
  have start: "ins_inv live Dl b s (t\<lparr>heap := (heap s)(b \<mapsto> x\<lparr>stream_uses := []\<rparr>)\<rparr>)" if t: "same_view live s t" for t
  proof -
    have I: "inv {b} (evc (supa_events s)) Dl (view live s)" using M by (simp add: mid_def)
    let ?x = "x\<lparr>stream_uses := []\<rparr>"
    have "mapped ?x" "event_count ?x = int (evc (supa_events s) b)"
      using invD(3,7) [OF I] x(1) by (simp_all add: plain_heap_def plain_def ev_counts_def)
    then have "inv {b} (evc (supa_events s)) Dl ((view live s)\<lparr>v_heap := (heap s)(b \<mapsto> ?x)\<rparr>)"
      using inv_set [OF I, of b x ?x "evc (supa_events s)"] x(1) by (simp add: skel_def)
    then have "inv {b} (evc (supa_events s)) Dl (view live (t\<lparr>heap := (heap s)(b \<mapsto> ?x)\<rparr>))"
      unfolding view_upd same_viewD(12) [OF t] .
    then show ?thesis
      using M x keeps_set [of s b x "t\<lparr>heap := (heap s)(b \<mapsto> ?x)\<rparr>" "Some ?x"]
      unfolding ins_inv_def mid_def calm_def steady_def by (simp add: same_viewD(1-11) [OF t])
  qed
  show ?thesis
    unfolding insert_events_def
  proof (rule step_benign_bind [OF GD], clarify, rule step_benign [OF CE], goal_cases)
    case (1 err prev_device t1 t2)
    have t: "same_view live s t2" using 1 keep.trans by blast
    have h: "heap t2 b = Some x" "heap t2 = heap s" using x(1) same_viewD(1) [OF t] by simp_all
    show ?case
    proof (rule step_deref [OF h(1)], rule step_setb [OF h(1)], unfold h(2), rule step_seq)
      show "wp (sx_for (stream_uses x) (\<lambda>st.
         sx_seq (sx_bind (on_drv (SetDevice (Drv V) (stream_device st) False)) check_err)
         (sx_bind (on_drv (EventPool_get (Drv V) (stream_device st))) (\<lambda>event.
          sx_seq (on_drv (supa_check (supaEventRecord (Drv V) event (stream_handle st))))
          (sx_seq (setb b (\<lambda>x. x\<lparr>event_count := event_count x + 1\<rparr>))
          (sx_mod (\<lambda>s. s\<lparr>supa_events := push_event st (event, b) (supa_events s)\<rparr>)))))))
          (\<lambda>_. J []) (\<lambda>e _. benign_exn e) (t2\<lparr>heap := (heap s)(b \<mapsto> x\<lparr>stream_uses := []\<rparr>)\<rparr>)"
        by (rule wp_for_rest [of J], simp add: J_def start [OF t]) (rule body)
    next
      fix u assume "J [] u"
      then show "wp (sx_bind (on_drv (MaybeSetDevice (Drv V) prev_device)) check_err)
          (\<lambda>_ t. ins_inv live Dl b s t \<and> length (stream_uses x) \<le> evc (supa_events t) b) (\<lambda>e _. benign_exn e) u"
        by (intro benign_step [OF MS]) (use J_view [of u _ "[]"] in \<open>auto simp: J_def\<close>)
    qed
  qed simp_all
qed

section \<open>Deferred events\<close>

lemma inv_stay:
  assumes "inv {b} Ev Dl v" and "v_heap v b = Some x" "event_count x \<noteq> 0" "\<not> allocated x" "stream_uses x = []"
    and "b \<in> set (v_active v)"
  shows "inv {} Ev Dl v"
proof -
  have "inv ({b} - {b}) Ev Dl (v\<lparr>v_active := v_active v\<rparr>)"
    using assms(2-) invD(5) [OF assms(1)]
    by (intro inv_put_active [OF assms(1), of b x]) (auto simp: allocatable_def waiting_def active_ok_def)
  then show ?thesis by simp
qed

text \<open>A block whose events are all done is free; one with pending events stays active.\<close>

lemma mid_event_free:
  assumes M: "mid live {b} Dl s" and x: "heap s b = Some x" "\<not> allocated x" "stream_uses x = []"
    and b: "b \<in> set (active_blocks s)"
  shows "wp (sx_bind (deref b) (\<lambda>blk. sx_when (event_count blk = 0) (free_block b ctx)))
    (\<lambda>_ t. mid live {} Dl t \<and> calm live s t \<and> supa_events t = supa_events s) (\<lambda>e _. benign_exn e) s"
proof (rule step_deref [OF x(1)], rule step_when)
  have I: "inv {b} (evc (supa_events s)) Dl (view live s)" using M by (simp add: mid_def)
  assume "event_count x = 0"
  then have "allocatable x" using x by (simp add: allocatable_def)
  from wp_free_mid [OF I x(1) this]
  show "wp (free_block b ctx) (\<lambda>_ t. mid live {} Dl t \<and> calm live s t \<and> supa_events t = supa_events s)
      (\<lambda>e _. benign_exn e) s"
    by (rule wp_conseq) (use M in \<open>simp_all add: mid_def calm_def steady_def\<close>)
next
  have I: "inv {b} (evc (supa_events s)) Dl (view live s)" using M by (simp add: mid_def)
  assume "event_count x \<noteq> 0"
  then have "inv {} (evc (supa_events s)) Dl (view live s)"
    using x b by (intro inv_stay [OF I, of x]) simp_all
  then show "mid live {} Dl s \<and> calm live s s \<and> supa_events s = supa_events s" using M by (simp add: mid_def)
qed

lemma mid_active:
  assumes "mid live X Dl s" and "heap s b = Some x" and "\<not> allocatable x" and "b \<notin> X"
  shows "b \<in> set (active_blocks s)"
  using assms invD(5) [of X "evc (supa_events s)" Dl "view live s"] by (auto simp: mid_def active_ok_def)

lemma wp_insert_deferred_step:
  assumes oc: "other_calls_ok (Drv V) live" and M: "mid live {} (b # bs) s"
  shows "wp (sx_bind (deref b) (\<lambda>blk.
       sx_seq (sx_check (stream_uses blk \<noteq> []) (InternalAssert ''!block->stream_uses.empty()''))
       (sx_seq (remove_supagraph_stream_uses b)
       (sx_seq (insert_events V b)
       (sx_bind (deref b) (\<lambda>blk'. sx_when (event_count blk' = 0) (free_block b ctx)))))))
    (\<lambda>_ t. mid live {} bs t \<and> calm live s t) (\<lambda>e _. benign_exn e) s"
proof -
  have I: "inv {} (evc (supa_events s)) (b # bs) (view live s)" and u: "block_to_supagraph_stream_uses s = (\<lambda>_. None)"
    using M by (simp_all add: mid_def)
  have "b \<in> set (b # bs) \<longleftrightarrow> (\<exists>x. heap s b = Some x \<and> waiting x)"
    using invD(8) [OF I] unfolding ev_status_def view_fields by blast
  then obtain x where x: "heap s b = Some x" "waiting x" by auto
  have na: "\<not> allocatable x" using x(2) by (simp add: waiting_def allocatable_def)
  have "filter (\<lambda>c. c \<noteq> b) (b # bs) = bs"
    using invD(8) [OF I] by (auto simp: ev_status_def filter_id_conv)
  then have M': "mid live {b} bs s"
    using inv_open [OF I, of b x] x(1) na M by (simp add: mid_def)
  have act: "b \<in> set (active_blocks s)" using mid_active [OF M x(1) na] by simp
  show ?thesis
  proof (rule step_deref [OF x(1)], rule step_check, goal_cases)
    case 1 then show ?case using x(2) by (simp add: waiting_def)
  next
    case 2
    have "wp (insert_events V b) (\<lambda>_ t. ins_inv live bs b s t) (\<lambda>e _. benign_exn e) s"
      using x by (intro wp_conseq [OF wp_insert_events [OF oc M' x(1)]]) (auto simp: waiting_def)
    then have "wp (sx_seq (insert_events V b)
       (sx_bind (deref b) (\<lambda>blk'. sx_when (event_count blk' = 0) (free_block b ctx))))
       (\<lambda>_ t. mid live {} bs t \<and> calm live s t) (\<lambda>e _. benign_exn e) s"
    proof (rule step_seq)
      fix t assume t: "ins_inv live bs b s t"
      then obtain y where y: "heap t b = Some y" "\<not> allocated y" "stream_uses y = []" by (auto simp: ins_inv_def)
      have mt: "mid live {b} bs t" and at: "b \<in> set (active_blocks t)" and st: "calm live s t"
        using t act by (simp_all add: ins_inv_def)
      show "wp (sx_bind (deref b) (\<lambda>blk'. sx_when (event_count blk' = 0) (free_block b ctx)))
         (\<lambda>_ t. mid live {} bs t \<and> calm live s t) (\<lambda>e _. benign_exn e) t"
        by (rule wp_conseq [OF mid_event_free [OF mt y at]]) (use st calm_trans in blast)+
    qed
    then show ?case by (simp add: remove_supagraph_stream_uses_def u)
  qed
qed

text \<open>The invariant between two operations.\<close>

abbreviation settled :: "('d \<Rightarrow> (nat \<times> nat) set) \<Rightarrow> 'd dca \<Rightarrow> bool" where
  "settled live s \<equiv> mid live {} (needs_events_deferred s) s"

lemma wp_insert_deferred:
  assumes oc: "other_calls_ok (Drv V) live" and M: "settled live s"
  shows "wp (insert_events_deferred_until_no_capture V ctx)
    (\<lambda>_ t. mid live {} [] t \<and> needs_events_deferred t = [] \<and> steady live s t) (\<lambda>e _. benign_exn e) s"
  unfolding insert_events_deferred_until_no_capture_def
proof (rule step_get, rule step_seq, rule wp_for_rest [of "\<lambda>bs t. mid live {} bs t \<and> calm live s t"], goal_cases)
  case (2 b bs t)
  show ?case
    by (rule wp_conseq [OF wp_insert_deferred_step [OF oc, of b bs t]]) (use 2 calm_trans in blast)+
next
  case (3 t)
  then have "mid live {} [] (t\<lparr>needs_events_deferred := []\<rparr>)" by (simp add: mid_def)
  moreover have "steady live s (t\<lparr>needs_events_deferred := []\<rparr>)" using 3 by (simp add: calm_def steady_def keeps_def)
  ultimately show ?case by simp
qed (use M in simp)

section \<open>Processing events\<close>

text \<open>An event at the head of a queue is done: the count of its block drops, the queue is still to change.\<close>

definition pending :: "('d \<Rightarrow> (nat \<times> nat) set) \<Rightarrow> nat \<Rightarrow> nat list \<Rightarrow> 'd dca \<Rightarrow> bool" where
  "pending live b Dl s \<longleftrightarrow> inv {} ((evc (supa_events s))(b := evc (supa_events s) b - 1)) Dl (view live s)
     \<and> distinct (map fst (supa_events s)) \<and> block_to_supagraph_stream_uses s = (\<lambda>_. None)"

lemma event_block:
  assumes M: "mid live {} Dl s" and q: "(st, q) \<in> set (supa_events s)" "(e, b) \<in> set q"
  obtains x where "heap s b = Some x" and "\<not> allocated x" and "stream_uses x = []" and "0 < event_count x"
    and "b \<notin> set Dl" and "0 < evc (supa_events s) b"
proof -
  have I: "inv {} (evc (supa_events s)) Dl (view live s)" using M by (simp add: mid_def)
  have pos: "0 < evc (supa_events s) b" by (rule evc_member [OF q])
  then obtain x where x: "heap s b = Some x" using invD(7) [OF I] unfolding ev_counts_def by fastforce
  then have "event_count x = int (evc (supa_events s) b)" using invD(7) [OF I] by (simp add: ev_counts_def)
  moreover have "\<not> allocated x" "stream_uses x = []" using invD(8) [OF I] x pos by (auto simp: ev_status_def)
  moreover have "b \<notin> set Dl"
    using invD(8) [OF I] x \<open>stream_uses x = []\<close> by (auto simp: ev_status_def waiting_def)
  ultimately show thesis using that x pos by simp
qed

lemma wp_event_done:
  assumes M: "mid live {} Dl s" and q: "(st, q) \<in> set (supa_events s)" "(e, b) \<in> set q"
  shows "wp (event_done b ctx) (\<lambda>_ t. pending live b Dl t \<and> calm live s t \<and> supa_events t = supa_events s)
    (\<lambda>e _. benign_exn e) s"
proof -
  obtain x where x: "heap s b = Some x" "\<not> allocated x" "stream_uses x = []" "0 < event_count x"
    and bD: "b \<notin> set Dl" and pos: "0 < evc (supa_events s) b" using event_block [OF M q] .
  let ?Ev = "(evc (supa_events s))(b := evc (supa_events s) b - 1)" and ?x = "x\<lparr>event_count := event_count x - 1\<rparr>"
  let ?s = "s\<lparr>heap := (heap s)(b \<mapsto> ?x)\<rparr>"
  have I: "inv {} (evc (supa_events s)) Dl (view live s)" using M by (simp add: mid_def)
  have na: "\<not> allocatable x" using x(4) by (simp add: allocatable_def)
  have "filter (\<lambda>c. c \<noteq> b) Dl = Dl" using bD by (auto simp: filter_id_conv)
  then have I1: "inv {b} (evc (supa_events s)) Dl (view live s)" using inv_open [OF I, of b x] x(1) na by simp
  have "mapped ?x" "event_count ?x = int (?Ev b)"
    using invD(3,7) [OF I] x(1) pos by (simp_all add: plain_heap_def plain_def ev_counts_def)
  then have I2: "inv {b} ?Ev Dl (view live ?s)"
    using inv_set [OF I1, of b x ?x ?Ev] x(1) by (simp add: skel_def)
  have act: "b \<in> set (active_blocks s)" using mid_active [OF M x(1) na] by simp
  have cs: "calm live s ?s" using x keeps_set [of s b x ?s "Some ?x"] by (simp add: calm_def steady_def)
  show ?thesis
    unfolding event_done_def
  proof (rule step_setb [OF x(1)], rule step_deref [of ?s b ?x], simp, rule step_when)
    assume "event_count ?x = 0"
    then have "allocatable ?x" using x by (simp add: allocatable_def)
    then have "wp (free_block b ctx) (\<lambda>_ t. calm live ?s t \<and> supa_events t = supa_events ?s \<and> inv {} ?Ev Dl (view live t))
        (\<lambda>e _. benign_exn e) ?s" by (intro wp_free_mid [OF I2]) simp
    then show "wp (free_block b ctx) (\<lambda>_ t. pending live b Dl t \<and> calm live s t \<and> supa_events t = supa_events s)
        (\<lambda>e _. benign_exn e) ?s"
    proof (rule wp_conseq, goal_cases)
      case (1 r t)
      then have "calm live s t" using cs calm_trans by blast
      then show ?case using 1 M by (simp add: pending_def mid_def calm_def steady_def)
    qed
  next
    assume "event_count ?x \<noteq> 0"
    then have "inv {} ?Ev Dl (view live ?s)"
      using x act by (intro inv_stay [OF I2, of ?x]) simp_all
    then show "pending live b Dl ?s \<and> calm live s ?s \<and> supa_events ?s = supa_events s"
      using M cs by (simp add: pending_def mid_def)
  qed
qed

text \<open>The queue of a stream and the queues of the others.\<close>

definition other_queues :: "stream_ref \<Rightarrow> 'd dca \<Rightarrow> 'd dca \<Rightarrow> bool" where
  "other_queues st s t \<longleftrightarrow> (\<forall>k q. k \<noteq> st \<longrightarrow> (k, q) \<in> set (supa_events t) \<longleftrightarrow> (k, q) \<in> set (supa_events s))"

definition queued :: "('d \<Rightarrow> (nat \<times> nat) set) \<Rightarrow> nat list \<Rightarrow> stream_ref \<Rightarrow> 'd dca \<Rightarrow> 'd dca \<Rightarrow> bool" where
  "queued live Dl st s t \<longleftrightarrow> mid live {} Dl t \<and> calm live s t \<and> other_queues st s t"

lemma queued_view:
  assumes "same_view live t u" and "queued live Dl st s t"
  shows "queued live Dl st s u"
  using assms(2) mid_view [OF assms(1)] calm_trans [OF _ same_view_calm [OF assms(1)]]
  unfolding queued_def other_queues_def same_viewD(8) [OF assms(1)] by blast

lemma queued_pop:
  assumes Q: "queued live Dl st s t" and p: "pending live b Dl u" and c: "calm live t u"
    and e: "supa_events u = supa_events t" and q: "(st, kept @ (ev, b) # q) \<in> set (supa_events t)"
  shows "queued live Dl st s (u\<lparr>supa_events := map (\<lambda>(k, q'). if k = st then (k, kept @ q) else (k, q')) (supa_events u)\<rparr>)"
    and "(st, kept @ q) \<in> set (map (\<lambda>(k, q'). if k = st then (k, kept @ q) else (k, q')) (supa_events u))"
proof -
  let ?evs = "map (\<lambda>(k, q'). if k = st then (k, kept @ q) else (k, q')) (supa_events u)"
  have dk: "distinct (map fst (supa_events u))" using p by (simp add: pending_def)
  have qu: "(st, kept @ (ev, b) # q) \<in> set (supa_events u)" using q e by simp
  have "evc ?evs = (evc (supa_events u))(b := evc (supa_events u) b - 1)"
  proof
    fix c
    show "evc ?evs c = ((evc (supa_events u))(b := evc (supa_events u) b - 1)) c"
      using evc_replace [OF dk qu, of "\<lambda>_. kept @ q" c] by auto
  qed
  moreover have "distinct (map fst ?evs)" using dk unfolding map_fst_replace .
  ultimately have "mid live {} Dl (u\<lparr>supa_events := ?evs\<rparr>)"
    using p unfolding mid_def pending_def by simp
  moreover have "calm live u (u\<lparr>supa_events := ?evs\<rparr>)" by (simp add: calm_def steady_def keeps_def)
  then have "calm live s (u\<lparr>supa_events := ?evs\<rparr>)" using Q c calm_trans unfolding queued_def by blast
  moreover have "other_queues st s (u\<lparr>supa_events := ?evs\<rparr>)"
    using Q e by (force simp: queued_def other_queues_def image_iff split: if_splits)
  ultimately show "queued live Dl st s (u\<lparr>supa_events := ?evs\<rparr>)" by (simp add: queued_def)
  show "(st, kept @ q) \<in> set ?evs" using qu by force
qed

lemma queued_erase:
  assumes Q: "queued live Dl st s t" and q: "(st, []) \<in> set (supa_events t)"
  shows "queued live Dl st s (t\<lparr>supa_events := filter (\<lambda>(k, q). k \<noteq> st) (supa_events t)\<rparr>)"
proof -
  let ?evs = "filter (\<lambda>(k, q). k \<noteq> st) (supa_events t)"
  have dk: "distinct (map fst (supa_events t))" using Q by (simp add: queued_def mid_def)
  have "evc ?evs = evc (supa_events t)" by (rule ext) (use evc_remove [OF dk q] in simp)
  then have "mid live {} Dl (t\<lparr>supa_events := ?evs\<rparr>)"
    using Q dk by (simp add: queued_def mid_def distinct_map_filter)
  moreover have "calm live t (t\<lparr>supa_events := ?evs\<rparr>)" by (simp add: calm_def steady_def keeps_def)
  then have "calm live s (t\<lparr>supa_events := ?evs\<rparr>)" using Q calm_trans unfolding queued_def by blast
  ultimately show ?thesis using Q by (auto simp: queued_def other_queues_def)
qed

lemma benign_event_calls:
  assumes oc: "other_calls_ok (Drv V) live"
  shows "benign (same_view live) (on_drv (drv_call (supaEventQuery (Drv V) e)))"
    and "benign (same_view live) (on_drv (drv_call (supaGetLastError (Drv V))))"
    and "benign (same_view live) (on_drv (supa_check (supaEventSynchronize (Drv V) e)))"
    and "benign (same_view live) (on_drv (Event_release i e))"
    and "benign (same_view live) (check_err err)"
proof -
  show "benign (same_view live) (check_err err)" unfolding check_err_def by (intro keep_intros) simp
qed (intro benign_on_drv benign_drv_call benign_supa_check benign_Event_release other_calls [OF oc])+

text \<open>The rest of an iteration: the event is taken off the queue and returned to its pool.\<close>

lemma wp_pop_event:
  assumes oc: "other_calls_ok (Drv V) live" and Q: "queued live Dl st s t"
    and q: "(st, kept @ (ev, b) # q) \<in> set (supa_events t)"
    and k: "\<And>u. queued live Dl st s u \<Longrightarrow> (st, kept @ q) \<in> set (supa_events u) \<Longrightarrow> wp k P (\<lambda>e _. benign_exn e) u"
  shows "wp (sx_seq (event_done b ctx) (sx_seq (set_queue st (kept @ q))
    (sx_seq (on_drv (Event_release (stream_device st) ev)) k))) P (\<lambda>e _. benign_exn e) t"
proof (rule step_seq [OF wp_event_done [of live Dl t st "kept @ (ev, b) # q" ev b ctx]], goal_cases)
  case 1 show ?case using Q by (simp add: queued_def)
next
  case (4 u)
  let ?u = "u\<lparr>supa_events := map (\<lambda>(k, q'). if k = st then (k, kept @ q) else (k, q')) (supa_events u)\<rparr>"
  have u: "pending live b Dl u" "calm live t u" "supa_events u = supa_events t" using 4 by simp_all
  note Q' = queued_pop [OF Q u q]
  show ?case
    unfolding set_queue_def
  proof (rule step_mod, rule step_benign [OF benign_event_calls(4) [OF oc]], goal_cases)
    case (1 w)
    then show ?case
      using queued_view [OF 1 Q'(1)] Q'(2) same_viewD(8) [OF 1] by (intro k) simp_all
  qed simp
qed (use q in simp_all)

lemma wp_process_queue:
  assumes oc: "other_calls_ok (Drv V) live" and Q: "queued live Dl st s t" and q: "(st, q) \<in> set (supa_events t)"
  shows "wp (process_queue V ctx st q) (\<lambda>_ u. queued live Dl st s u) (\<lambda>e _. benign_exn e) t"
  using Q q
proof (induction q arbitrary: t)
  case Nil
  then show ?case using queued_erase by (simp add: erase_queue_def)
next
  case (Cons a q)
  obtain ev b where a: "a = (ev, b)" by fastforce
  note B = benign_event_calls [OF oc]
  show ?case
    unfolding a process_queue.simps
  proof (rule step_benign_bind [OF B(1)], rule step_if, goal_cases)
    case (1 err t1)
    then have "queued live Dl st s t1" using queued_view Cons.prems(1) by blast
    then show ?case using queued_view by (intro step_benign_bind [OF B(2)]) (simp, blast, simp)
  next
    case (2 err t1)
    show ?case
    proof (rule step_benign [OF B(5)], goal_cases)
      case (1 t2)
      have v: "same_view live t t2" using 1 2 keep.trans by blast
      have Q2: "queued live Dl st s t2" using queued_view [OF v Cons.prems(1)] .
      have "(st, [] @ (ev, b) # q) \<in> set (supa_events t2)"
        using Cons.prems(2) same_viewD(8) [OF v] a by simp
      from wp_pop_event [OF oc Q2 this, of "process_queue V ctx st q" "\<lambda>_ u. queued live Dl st s u" ctx]
      show ?case using Cons.IH by simp
    qed simp
  qed simp
qed

text \<open>The loop over the queues, whose keys are distinct.\<close>

definition looping :: "('d \<Rightarrow> (nat \<times> nat) set) \<Rightarrow> nat list \<Rightarrow> 'd dca \<Rightarrow> (stream_ref \<times> (nat \<times> nat) list) list \<Rightarrow> 'd dca \<Rightarrow> bool" where
  "looping live Dl s evs t \<longleftrightarrow> mid live {} Dl t \<and> calm live s t \<and> set evs \<subseteq> set (supa_events t) \<and> distinct (map fst evs)"

lemma wp_each_queue:
  assumes M: "mid live {} Dl s"
    and f: "\<And>st q t. queued live Dl st t t \<Longrightarrow> (st, q) \<in> set (supa_events t) \<Longrightarrow>
      wp (f (st, q)) (\<lambda>_ u. queued live Dl st t u \<and> (fin \<longrightarrow> st \<notin> fst ` set (supa_events u))) (\<lambda>e _. benign_exn e) t"
  shows "wp (sx_for (supa_events s) f) (\<lambda>_ t. mid live {} Dl t \<and> calm live s t \<and> (fin \<longrightarrow> supa_events t = []))
    (\<lambda>e _. benign_exn e) s"
proof -
  let ?J = "\<lambda>evs t. looping live Dl s evs t \<and> (fin \<longrightarrow> fst ` set (supa_events t) \<subseteq> fst ` set evs)"
  have "wp (sx_for (supa_events s) f) (\<lambda>_ t. ?J [] t) (\<lambda>e _. benign_exn e) s"
  proof (rule wp_for_rest [of ?J])
    show "?J (supa_events s) s" using M by (simp add: looping_def mid_def)
    fix x evs t assume J: "?J (x # evs) t"
    then have L: "looping live Dl s (x # evs) t" by simp
    obtain st q where x: "x = (st, q)" by fastforce
    have "wp (f (st, q)) (\<lambda>_ u. queued live Dl st t u \<and> (fin \<longrightarrow> st \<notin> fst ` set (supa_events u))) (\<lambda>e _. benign_exn e) t"
      using L x by (intro f) (auto simp: looping_def queued_def other_queues_def)
    then show "wp (f x) (\<lambda>_. ?J evs) (\<lambda>e _. benign_exn e) t"
      unfolding x
    proof (rule wp_conseq, goal_cases)
      case (1 r u)
      have "set evs \<subseteq> set (supa_events u)"
      proof
        fix y assume y: "y \<in> set evs"
        then have "fst y \<noteq> st" using L x by (auto simp: looping_def)
        then show "y \<in> set (supa_events u)"
          using y L 1 unfolding looping_def queued_def other_queues_def by (cases y) auto
      qed
      moreover have "fst ` set (supa_events u) \<subseteq> fst ` set evs" if fin
      proof
        fix k assume "k \<in> fst ` set (supa_events u)"
        then obtain q' where q': "(k, q') \<in> set (supa_events u)" by auto
        then have "k \<noteq> st" using 1 that by force
        then have "(k, q') \<in> set (supa_events t)" using q' 1 by (simp add: queued_def other_queues_def)
        then have "k \<in> fst ` set (x # evs)" using J that by force
        then show "k \<in> fst ` set evs" using \<open>k \<noteq> st\<close> x by auto
      qed
      ultimately show ?case using L 1 calm_trans unfolding looping_def queued_def by auto
    qed simp
  qed
  then show ?thesis by (rule wp_conseq) (simp_all add: looping_def)
qed

lemma wp_process_events:
  assumes oc: "other_calls_ok (Drv V) live" and M: "settled live s"
  shows "wp (process_events V ctx) (\<lambda>_ t. settled live t \<and> needs_events_deferred t = [] \<and> steady live s t)
    (\<lambda>e _. benign_exn e) s"
  unfolding process_events_def
proof (rule step_seq [OF wp_insert_deferred [OF oc M]], rule step_get, goal_cases)
  case (1 t)
  have "wp (sx_for (supa_events t) (\<lambda>(st, q). process_queue V ctx st q)) (\<lambda>_ u. mid live {} [] u \<and> calm live t u \<and> (False \<longrightarrow> supa_events u = []))
      (\<lambda>e _. benign_exn e) t"
    using 1 by (intro wp_each_queue) (auto intro: wp_process_queue [OF oc])
  then show ?case
  proof (rule wp_conseq, goal_cases)
    case (1 r u)
    then show ?case using \<open>mid live {} [] t \<and> needs_events_deferred t = [] \<and> steady live s t\<close> steady_trans
      unfolding calm_def by auto
  qed simp
qed

lemma wp_sync_queue:
  assumes oc: "other_calls_ok (Drv V) live" and Q: "queued live Dl st s t" and q: "(st, kept @ q) \<in> set (supa_events t)"
  shows "wp (sync_queue V ctx pool st kept q) (\<lambda>_ u. queued live Dl st s u
      \<and> (pool = None \<and> kept = [] \<longrightarrow> st \<notin> fst ` set (supa_events u))) (\<lambda>e _. benign_exn e) t"
  using Q q
proof (induction q arbitrary: t kept)
  case Nil
  then show ?case using queued_erase by (auto simp: erase_queue_def wp_if)
next
  case (Cons a q)
  obtain ev b where a: "a = (ev, b)" by fastforce
  have M: "mid live {} Dl t" using Cons.prems(1) by (simp add: queued_def)
  obtain x where x: "heap t b = Some x" using event_block [OF M Cons.prems(2), of ev b] a by auto
  show ?case
    unfolding a sync_queue.simps
  proof (rule step_deref [OF x], rule step_if, goal_cases)
    case 1
    then show ?case
      using Cons.prems a by (intro wp_conseq [OF Cons.IH [of t "kept @ [(ev, b)]"]]) auto
  next
    case 2
    show ?case
    proof (rule step_benign [OF benign_event_calls(3) [OF oc]], goal_cases)
      case (1 t2)
      have Q2: "queued live Dl st s t2" using queued_view [OF 1 Cons.prems(1)] .
      have "(st, kept @ (ev, b) # q) \<in> set (supa_events t2)"
        using Cons.prems(2) same_viewD(8) [OF 1] a by simp
      from wp_pop_event [OF oc Q2 this, of "sync_queue V ctx pool st kept q" "\<lambda>_ u. queued live Dl st s u
        \<and> (pool = None \<and> kept = [] \<longrightarrow> st \<notin> fst ` set (supa_events u))" ctx]
      show ?case using Cons.IH by simp
    qed simp
  qed
qed

lemma wp_synchronize_and_free_events:
  assumes oc: "other_calls_ok (Drv V) live" and M: "settled live s"
  shows "wp (synchronize_and_free_events V ctx pool)
    (\<lambda>_ t. settled live t \<and> needs_events_deferred t = [] \<and> steady live s t \<and> (pool = None \<longrightarrow> supa_events t = []))
    (\<lambda>e _. benign_exn e) s"
proof -
  have S: "benign (same_view live) (on_stats (sx_mod f))" for f
    by (intro benign_on_stats) (simp add: benign_def)
  show ?thesis
    unfolding synchronize_and_free_events_def
  proof (rule step_benign [OF S], rule step_get, rule step_check_exn, goal_cases)
    case (1 t)
    then show ?case by (simp add: benign_exn_def fault_def)
  next
    case (2 t)
    then have v: "same_view live s t" by blast
    have Mt: "settled live t" using mid_view [OF v M] same_viewD(7) [OF v] by simp
    have st: "steady live s t" using same_view_calm [OF v] by (rule calm_steady)
    show ?case
    proof (rule step_seq [OF wp_insert_deferred [OF oc Mt]], rule step_get, goal_cases)
      case (1 u)
      have "wp (sx_for (supa_events u) (\<lambda>(st, q). sync_queue V ctx pool st [] q)) (\<lambda>_ w. mid live {} [] w \<and> calm live u w
          \<and> (pool = None \<longrightarrow> supa_events w = [])) (\<lambda>e _. benign_exn e) u"
        using 1 wp_sync_queue [OF oc, where kept = "[]"] by (intro wp_each_queue) auto
      then show ?case
      proof (rule wp_conseq, goal_cases)
        case (1 r w)
        then show ?case
          using \<open>mid live {} [] u \<and> needs_events_deferred u = [] \<and> steady live t u\<close> steady_trans [OF st]
            steady_trans [of live t u w] unfolding calm_def by auto
      qed simp
    qed
  qed simp
qed

end
