(* ===== verification/Cache_Safety.thy ===== *)
theory Cache_Safety
  imports Event_Safety
begin

text \<open>
  Giving cached memory back keeps the invariant: \<^verbatim>\<open>release_block\<close>, \<^verbatim>\<open>release_blocks\<close>, the garbage
  collection and \<^verbatim>\<open>release_cached_blocks\<close>. Only whole segments that no block in use touches go back
  to the driver, and every loop ends within its bound.
\<close>

section \<open>Views of states\<close>

lemma viewD:
  assumes "view live t = v"
  shows "heap t = v_heap v" and "next_block t = v_next v" and "pools t = v_pools v"
    and "active_blocks t = v_active v" and "graph_pools t = v_gpools v" and "live (drv (world t)) = v_live v"
    and "needs_events_deferred t = v_deferred v" and "supa_events t = v_events v"
    and "graph_pools_freeable t = v_freeable v" and "captures_underway t = v_captures v"
    and "block_to_supagraph_stream_uses t = v_uses v"
  using assms by auto

lemma inv_fields:
  assumes "v_heap w = v_heap v" and "v_next w = v_next v" and "v_pools w = v_pools v"
    and "v_active w = v_active v" and "v_gpools w = v_gpools v" and "v_live w = v_live v"
  shows "inv X Ev Dl w = inv X Ev Dl v"
  using assms by (simp add: inv_def)

section \<open>What stays of the private pools\<close>

definition use_counts :: "(mempool_id \<times> PrivatePool) list \<Rightarrow> (mempool_id \<times> int) list" where
  "use_counts gps = map (\<lambda>(i, pp). (i, use_count pp)) gps"

lemma use_counts_fst: "map fst (use_counts gps) = map fst gps"
  by (induction gps) (auto simp: use_counts_def)

lemma use_counts_live: "use_counts gps = use_counts gps' \<Longrightarrow> pool_live gps p = pool_live gps' p"
  using pool_live_fst use_counts_fst by metis

lemma use_counts_bump [simp]: "use_counts (bump_owner p d gps) = use_counts gps"
  by (auto simp: use_counts_def bump_owner_def bump_def comp_def split: option.splits)

lemma use_counts_map_of: "map_of (use_counts gps) i = map_option use_count (map_of gps i)"
  by (induction gps) (auto simp: use_counts_def)

definition moves :: "'d dca \<Rightarrow> 'd dca \<Rightarrow> bool" where
  "moves s t \<longleftrightarrow> keeps s t \<and> use_counts (graph_pools t) = use_counts (graph_pools s)
     \<and> graph_pools_freeable t = graph_pools_freeable s \<and> captures_underway t = captures_underway s"

lemma moves_refl [simp]: "moves s s"
  by (simp add: moves_def)

lemma moves_trans: "moves s t \<Longrightarrow> moves t u \<Longrightarrow> moves s u"
  by (auto simp: moves_def intro: keeps_trans)

lemma steady_moves: "steady live s t \<Longrightarrow> moves s t"
  by (simp add: steady_def moves_def)

lemma same_view_moves: "same_view live s t \<Longrightarrow> moves s t"
  using same_view_calm calm_steady steady_moves by blast

lemma moves_live: "moves s t \<Longrightarrow> pool_live (graph_pools t) p = pool_live (graph_pools s) p"
  unfolding moves_def by (metis use_counts_live)

section \<open>Releasing a segment\<close>

lemma benign_check_active_pool: "benign (same_view live) (check_active_pool V pool)"
  unfolding check_active_pool_def get_private_pool_def
  by (auto intro!: keep_intros simp: benign_exn_def fault_def split: option.splits)

lemma benign_release_block_stats: "benign (same_view live) (release_block_stats V pool n)"
  unfolding release_block_stats_def by (intro view_intros stats_intros)

lemma view_live: "view live (s\<lparr>world := w\<rparr>) = (view live s)\<lparr>v_live := live (drv w)\<rparr>"
  by (simp add: view_def)

lemma memory_calls:
  assumes "memory_calls_ok D live"
  shows "acquires live n (supaMalloc D n)"
    and "ranges_ok (live d) \<Longrightarrow> raw_alloc_hook D a n d = (p, d') \<Longrightarrow>
      if p \<noteq> 0 then fresh_range (live d) p n \<and> live d' = insert (p, n) (live d) else live d' = live d"
    and "ranges_ok (live d) \<Longrightarrow> sole_range (live d) p n \<Longrightarrow> supaFree D p d = (supaSuccess, d') \<Longrightarrow> live d' = live d - {(p, n)}"
    and "ranges_ok (live d) \<Longrightarrow> sole_range (live d) p n \<Longrightarrow> live (raw_delete_hook D a p d) = live d - {(p, n)}"
proof -
  have m: "acquires live n (supaMalloc D n)" "acquires_ptr live n (raw_alloc_hook D a n)"
    "gives_back live p n (supaFree D p)" "gives_back live p n (\<lambda>d. (supaSuccess, raw_delete_hook D a p d))"
    using assms unfolding memory_calls_ok_def by blast+
  show "acquires live n (supaMalloc D n)" by (rule m)
  show "ranges_ok (live d) \<Longrightarrow> raw_alloc_hook D a n d = (p, d') \<Longrightarrow>
      if p \<noteq> 0 then fresh_range (live d) p n \<and> live d' = insert (p, n) (live d) else live d' = live d"
    using m(2) unfolding acquires_ptr_def by blast
  show "ranges_ok (live d) \<Longrightarrow> sole_range (live d) p n \<Longrightarrow> supaFree D p d = (supaSuccess, d') \<Longrightarrow> live d' = live d - {(p, n)}"
    using m(3) unfolding gives_back_def by blast
  show "ranges_ok (live d) \<Longrightarrow> sole_range (live d) p n \<Longrightarrow> live (raw_delete_hook D a p d) = live d - {(p, n)}"
    using m(4) unfolding gives_back_def by blast
qed

lemma wp_release_memory:
  assumes mc: "memory_calls_ok (Drv V) live" and rk: "ranges_ok (live (drv (world s)))"
    and sr: "sole_range (live (drv (world s))) p n"
  shows "wp (release_memory V pool p) (\<lambda>_ t. view live t = (view live s)\<lparr>v_live := live (drv (world s)) - {(p, n)}\<rparr>)
    (\<lambda>e _. benign_exn e) s" (is "wp _ ?Q ?E s")
proof -
  have G: "wp (on_drv (supa_check (supaFree (Drv V) p))) ?Q ?E s"
  proof (cases "supaFree (Drv V) p (drv (world s))")
    case (Pair e d)
    then have "e = supaSuccess \<Longrightarrow> live d = live (drv (world s)) - {(p, n)}"
      using memory_calls(3) [OF mc rk sr] by simp
    then show ?thesis using Pair by (simp add: view_live)
  qed
  have H: "wp (sx_seq (check_active_pool V pool) (on_drv (drv_call (\<lambda>d. ((), raw_delete_hook (Drv V) a p d))))) ?Q ?E s" for a
  proof (rule step_benign [OF benign_check_active_pool [where live = live]])
    fix t assume t: "same_view live s t"
    have "live (raw_delete_hook (Drv V) a p (drv (world t))) = live (drv (world s)) - {(p, n)}"
      using memory_calls(4) [OF mc, of "drv (world t)" p n a] rk sr same_viewD(6) [OF t] by simp
    then show "wp (on_drv (drv_call (\<lambda>d. ((), raw_delete_hook (Drv V) a p d)))) ?Q ?E t"
      by (simp add: view_live same_viewD(12) [OF t])
  qed simp
  show ?thesis
    unfolding release_memory_def
    by (cases "ActiveMemPool V"; cases "owner_PrivatePool pool"; cases "snd (the (ActiveMemPool V))")
      (use G H in \<open>simp_all add: split_beta del: wp_seq wp_field\<close>)
qed

lemma wp_decrement_owner:
  assumes "distinct (map fst (graph_pools s))"
    and "\<And>i. owner_PrivatePool pool = Some i \<Longrightarrow> \<exists>pp. (i, pp) \<in> set (graph_pools s) \<and> 0 < supaMalloc_count pp"
  shows "wp (decrement_owner pool) (\<lambda>_ t. t = s\<lparr>graph_pools := bump_owner pool (-1) (graph_pools s)\<rparr>) (\<lambda>e _. benign_exn e) s"
proof (cases "owner_PrivatePool pool")
  case None
  then show ?thesis by (simp add: decrement_owner_def bump_owner_def)
next
  case (Some i)
  then obtain pp where pp: "(i, pp) \<in> set (graph_pools s)" "0 < supaMalloc_count pp" using assms(2) by blast
  then have "map_of (graph_pools s) i = Some pp" using assms(1) by simp
  moreover have "i \<in> fst ` set (graph_pools s)" using pp(1) by force
  moreover have "map (\<lambda>(k, pp). if k = i then (k, pp\<lparr>supaMalloc_count := supaMalloc_count pp - 1\<rparr>) else (k, pp)) (graph_pools s)
      = bump i (-1) (graph_pools s)" by (auto simp: bump_def)
  ultimately show ?thesis
    using Some pp(2)
    by (simp add: decrement_owner_def bump_owner_def deref_private_pool_def upd_private_pool_def)
qed

lemma head_counted:
  assumes I: "inv X Ev Dl v" and x: "v_heap v b = Some x" "b_prev x = None" and i: "owner_PrivatePool (b_pool x) = Some i"
  shows "\<exists>pp. (i, pp) \<in> set (v_gpools v) \<and> 0 < supaMalloc_count pp"
proof -
  have "pool_live (v_gpools v) (b_pool x)" by (rule inv_home [OF I x(1)])
  then obtain pp where pp: "(i, pp) \<in> set (v_gpools v)" using i by (auto simp: pool_live_def)
  have "b \<in> heads (v_heap v) i" using x i by (simp add: heads_def)
  then have "0 < card (heads (v_heap v) i)" using bounded_finite(1) [OF inv_shape(4) [OF I]] card_gt_0_iff by blast
  then show ?thesis using pp invD(9) [OF I] unfolding gp_ok_def by (metis of_nat_0_less_iff)
qed

text \<open>The last two statements of \<^verbatim>\<open>release_block\<close>.\<close>

lemma wp_release_end:
  assumes I: "inv {} Ev Dl (view live s)" and x: "heap s b = Some x" "allocatable x" "\<not> is_split x"
    and t: "view live t = (view live s)\<lparr>v_live := live (drv (world s)) - {(b_ptr x, b_size x)},
      v_gpools := bump_owner (b_pool x) (-1) (graph_pools s)\<rparr>"
  shows "wp (sx_seq (erase_from_blocks (b_pool x) b) (delete_block b))
    (\<lambda>_ u. inv {} Ev Dl (view live u) \<and> heap u = (heap s)(b := None) \<and> graph_pools u = graph_pools t
       \<and> (\<exists>h P. view live u = (view live t)\<lparr>v_pools := P, v_heap := h\<rparr>)) (\<lambda>e _. benign_exn e) t"
proof -
  let ?q = "set_erase BlockComparatorSize (bkey (heap s)) b (blocks (pools s (b_pool x)))"
  let ?P = "(pools s)(b_pool x := (pools s (b_pool x))\<lparr>blocks := ?q\<rparr>)"
  have ht: "heap t = heap s" "pools t = pools s" "graph_pools t = bump_owner (b_pool x) (-1) (graph_pools s)"
    using viewD(1,3,5) [OF t] by simp_all
  have "pool_live (graph_pools s) (b_pool x)" using inv_home [OF I, of b x] x(1) by simp
  then have lv: "pool_live (graph_pools t) (b_pool x)"
    using pool_live_fst [of "graph_pools t" "graph_pools s"] ht(3) by simp
  let ?u = "t\<lparr>pools := ?P, heap := (heap s)(b := None)\<rparr>"
  have "inv {} Ev Dl (view live ?u) \<longleftrightarrow> inv {} Ev Dl ((view live s)\<lparr>v_heap := (heap s)(b := None), v_pools := ?P,
      v_live := live (drv (world s)) - {(b_ptr x, b_size x)}, v_gpools := bump_owner (b_pool x) (-1) (graph_pools s)\<rparr>)"
    by (rule inv_fields) (simp_all add: viewD(2,4,6) [OF t] ht)
  moreover have "inv {} Ev Dl ((view live s)\<lparr>v_heap := (heap s)(b := None), v_pools := ?P,
      v_live := live (drv (world s)) - {(b_ptr x, b_size x)}, v_gpools := bump_owner (b_pool x) (-1) (graph_pools s)\<rparr>)"
    using inv_remove [OF I refl, of b x ?q] x by simp
  ultimately have "inv {} Ev Dl (view live ?u)" by blast
  then show ?thesis
    using x(1) lv by (auto simp: erase_from_blocks_def ht)
qed

text \<open>A release takes away one block; the others are not touched.\<close>

definition release_post :: "('d \<Rightarrow> (nat \<times> nat) set) \<Rightarrow> nat list \<Rightarrow> nat \<Rightarrow> 'd dca \<Rightarrow> 'd dca \<Rightarrow> bool" where
  "release_post live Dl b s t \<longleftrightarrow> mid live {} Dl t \<and> moves s t \<and> needs_events_deferred t = needs_events_deferred s
     \<and> supa_events t = supa_events s \<and> heap t = (heap s)(b := None)"

lemma wp_release_block:
  assumes mc: "memory_calls_ok (Drv V) live" and M: "mid live {} Dl s"
    and x: "heap s b = Some x" "allocatable x" "\<not> is_split x"
  shows "wp (release_block V b ctx) (\<lambda>_ t. release_post live Dl b s t) (\<lambda>e _. benign_exn e) s"
proof -
  have I: "inv {} (evc (supa_events s)) Dl (view live s)" using M by (simp add: mid_def)
  have S: "benign (same_view live) (on_stats (sx_mod f))" for f
    by (intro benign_on_stats) (simp add: benign_def)
  have sole: "sole_range (live (drv (world s))) (b_ptr x) (b_size x)"
    using inv_sole [OF I, of b x] x by simp
  have pv: "b_prev x = None" using x(3) by (simp add: is_split_def)
  let ?L = "live (drv (world s)) - {(b_ptr x, b_size x)}" and ?G = "bump_owner (b_pool x) (-1) (graph_pools s)"
  have last: "wp (sx_seq (release_block_stats V (b_pool x) (b_size x))
       (sx_seq (erase_from_blocks (b_pool x) b) (delete_block b)))
      (\<lambda>_ t. release_post live Dl b s t) (\<lambda>e _. benign_exn e) t"
    if t: "view live t = (view live s)\<lparr>v_live := ?L, v_gpools := ?G\<rparr>" for t
  proof (rule step_benign [OF benign_release_block_stats [where live = live]])
    fix u assume "same_view live t u"
    then have u: "view live u = (view live s)\<lparr>v_live := ?L, v_gpools := ?G\<rparr>" using t by (simp add: same_view_def)
    show "wp (sx_seq (erase_from_blocks (b_pool x) b) (delete_block b)) (\<lambda>_ t. release_post live Dl b s t)
        (\<lambda>e _. benign_exn e) u"
    proof (rule wp_conseq [OF wp_release_end [OF I x u]])
      fix r w assume w: "inv {} (evc (supa_events s)) Dl (view live w) \<and> heap w = (heap s)(b := None)
        \<and> graph_pools w = graph_pools u \<and> (\<exists>h P. view live w = (view live u)\<lparr>v_pools := P, v_heap := h\<rparr>)"
      then obtain h P where v: "view live w = (view live s)\<lparr>v_live := ?L, v_gpools := ?G, v_pools := P, v_heap := h\<rparr>"
        using u by auto
      have hw: "heap w = (heap s)(b := None)" using w by simp
      have "keeps s w" using x(2) by (intro keeps_set [OF x(1) _ hw]) (simp_all add: allocatable_def)
      moreover have "use_counts (graph_pools w) = use_counts (graph_pools s)" using viewD(5) [OF v] by simp
      ultimately show "release_post live Dl b s w"
        using w M hw viewD(7-11) [OF v] by (simp add: release_post_def mid_def moves_def)
    qed
  qed simp
  show ?thesis
    unfolding release_block_def
  proof (rule step_deref [OF x(1)], rule step_check, goal_cases)
    case 1
    then show ?case using invD(3) [OF I] x(1) by (simp add: plain_heap_def plain_def)
  next
    case 2
    show ?case
    proof (rule step_benign [OF S], rule step_benign [OF benign_record_trace [where live = live]], goal_cases)
      case (1 t1 t2)
      have t: "same_view live s t2" using 1 keep.trans by blast
      have "wp (release_memory V (b_pool x) (b_ptr x)) (\<lambda>_ t. view live t = (view live t2)\<lparr>v_live := live (drv (world t2)) - {(b_ptr x, b_size x)}\<rparr>)
        (\<lambda>e _. benign_exn e) t2"
        using sole invD(2) [OF I] same_viewD(6) [OF t] by (intro wp_release_memory [OF mc]) simp_all
      then show ?case
      proof (rule step_seq, rule_tac step_mod, rule_tac step_seq [OF wp_decrement_owner], goal_cases)
        case (1 t)
        then have v: "view live t = (view live s)\<lparr>v_live := ?L\<rparr>" using same_viewD(6,12) [OF t] by simp
        show ?case using invD(9) [OF I] viewD(5) [OF v] by (simp add: gp_ok_def)
      next
        case (2 t i)
        then have v: "view live t = (view live s)\<lparr>v_live := ?L\<rparr>" using same_viewD(6,12) [OF t] by simp
        show ?case using 2 head_counted [OF I, of b x i] x(1) pv viewD(5) [OF v] by simp
      next
        case (3 t u)
        then have v: "view live t = (view live s)\<lparr>v_live := ?L\<rparr>" using same_viewD(6,12) [OF t] by simp
        have "view live u = (view live s)\<lparr>v_live := ?L, v_gpools := ?G\<rparr>"
          using 3 viewD(5) [OF v] same_viewD(5,6,12) [OF t] by simp
        then show ?case by (rule last)
      qed
    qed simp_all
  qed
qed

section \<open>Releasing the unsplit blocks of a pool\<close>

definition whole :: "pool_ref \<Rightarrow> bheap \<Rightarrow> nat set" where
  "whole p h = {b. \<exists>x. h b = Some x \<and> b_pool x = p \<and> allocatable x \<and> \<not> is_split x}"

text \<open>Blocks only disappear, and those of the rest of the list are still there.\<close>

definition culled :: "('d \<Rightarrow> (nat \<times> nat) set) \<Rightarrow> nat list \<Rightarrow> 'd dca \<Rightarrow> 'd dca \<Rightarrow> bool" where
  "culled live Dl s t \<longleftrightarrow> mid live {} Dl t \<and> moves s t \<and> needs_events_deferred t = needs_events_deferred s
     \<and> supa_events t = supa_events s \<and> heap t \<subseteq>\<^sub>m heap s"

lemma culled_refl: "mid live {} Dl s \<Longrightarrow> culled live Dl s s"
  by (simp add: culled_def)

lemma culled_trans: "culled live Dl s t \<Longrightarrow> culled live Dl t u \<Longrightarrow> culled live Dl s u"
  by (auto simp: culled_def intro: moves_trans map_le_trans)

lemma release_culled: "release_post live Dl b s t \<Longrightarrow> culled live Dl s t"
  by (auto simp: release_post_def culled_def map_le_def)

lemma whole_sub: "h' \<subseteq>\<^sub>m h \<Longrightarrow> whole p h' \<subseteq> whole p h"
  unfolding whole_def map_le_def by (force simp: dom_def)

lemma wp_release_unsplit:
  assumes mc: "memory_calls_ok (Drv V) live" and C: "culled live Dl s t" and d: "distinct bs"
    and bs: "\<And>b. b \<in> set bs \<Longrightarrow> \<exists>x. heap t b = Some x \<and> allocatable x" and w: "whole p (heap t) \<subseteq> set bs"
  shows "wp (release_unsplit V ctx bs) (\<lambda>r u. r = [] \<and> culled live Dl s u \<and> whole p (heap u) = {}) (\<lambda>e _. benign_exn e) t"
  using C d bs w
proof (induction bs arbitrary: t)
  case (Cons b bs)
  obtain x where x: "heap t b = Some x" "allocatable x" using Cons.prems(3) [of b] by auto
  have M: "mid live {} Dl t" using Cons.prems(1) by (simp add: culled_def)
  have pl: "expandable_segment x = None"
    using M invD(3) [of "{}" "evc (supa_events t)" Dl "view live t"] x(1) by (simp add: mid_def plain_heap_def plain_def)
  have one: "wp (sx_when (\<not> is_split x) (release_block V b ctx))
      (\<lambda>_ u. if is_split x then u = t else release_post live Dl b t u) (\<lambda>e _. benign_exn e) t"
    using wp_release_block [OF mc M x] by simp
  show ?case
    unfolding release_unsplit.simps
  proof (rule step_deref [OF x(1)], simp only: pl simp_thms if_False, rule step_seq [OF one], goal_cases)
    case 2: (1 u)
    have cu: "culled live Dl s u"
      using 2 Cons.prems(1) release_culled [of live Dl b t u] culled_trans [of live Dl s t u] by (auto split: if_splits)
    have hu: "heap u c = heap t c" if "c \<noteq> b" for c using 2 that by (auto simp: release_post_def split: if_splits)
    have "b \<notin> whole p (heap u)" using 2 x by (auto simp: whole_def release_post_def split: if_splits)
    moreover have "heap u \<subseteq>\<^sub>m heap t" using 2 by (auto simp: release_post_def map_le_def split: if_splits)
    ultimately have "whole p (heap u) \<subseteq> set bs" using whole_sub [of "heap u" "heap t" p] Cons.prems(4) by auto
    moreover have "\<exists>x. heap u c = Some x \<and> allocatable x" if "c \<in> set bs" for c
      using Cons.prems(3) [of c] Cons.prems(2) that hu [of c] by (metis distinct.simps(2) list.set_intros(2))
    ultimately show ?case using Cons.prems(2) by (intro Cons.IH [OF cu]) auto
  qed
qed (simp add: whole_def)

lemma pool_members:
  assumes "mid live {} Dl s"
  shows "set (blocks (pools s p)) = free_in {} (heap s) p" and "distinct (blocks (pools s p))"
    and "ordered BlockComparatorSize (bkey (heap s)) (blocks (pools s p))"
  using invD(4) [of "{}" "evc (supa_events s)" Dl "view live s"] assms by_size.ordered_distinct
  by (auto simp: mid_def pools_ok_def pool_ok_def)

lemma wp_release_blocks:
  assumes mc: "memory_calls_ok (Drv V) live" and M: "mid live {} Dl s" and lv: "pool_live (graph_pools s) p"
  shows "wp (release_blocks V p ctx) (\<lambda>_ u. culled live Dl s u \<and> whole p (heap u) = {}) (\<lambda>e _. benign_exn e) s"
proof -
  note m = pool_members [OF M, of p]
  have "wp (release_unsplit V ctx (blocks (pools s p))) (\<lambda>r u. r = [] \<and> culled live Dl s u \<and> whole p (heap u) = {})
      (\<lambda>e _. benign_exn e) s"
    by (rule wp_release_unsplit [OF mc culled_refl [OF M] m(2)]) (auto simp: m(1) free_in_def whole_def)
  then show ?thesis
    unfolding release_blocks_def using lv by (simp, elim wp_conseq) auto
qed

section \<open>Garbage collection\<close>

lemma wp_age_of_blocks:
  assumes M: "mid live {} Dl s" and bs: "\<And>b. b \<in> set bs \<Longrightarrow> heap s b \<noteq> None"
  shows "wp (age_of_blocks bs a n) (\<lambda>_ t. t = s) (\<lambda>e _. benign_exn e) s"
  using bs
proof (induction bs arbitrary: a n)
  case (Cons b bs)
  then obtain x where x: "heap s b = Some x" by fastforce
  have "pool_live (graph_pools s) (b_pool x)"
    using inv_home [of "{}" "evc (supa_events s)" Dl "view live s" b x] M x by (simp add: mid_def)
  then show ?case using Cons x by (simp add: wp_if)
qed simp

text \<open>A pass either frees nothing or makes the pool smaller.\<close>

lemma wp_gc_pass:
  assumes mc: "memory_calls_ok (Drv V) live" and C: "culled live Dl s t" and d: "distinct bs"
    and bs: "\<And>b. b \<in> set bs \<Longrightarrow> \<exists>x. heap t b = Some x \<and> allocatable x \<and> b_pool x = p"
    and g: "block_freed g \<Longrightarrow> free_in {} (heap t) p \<noteq> free_in {} (heap s) p"
  shows "wp (gc_pass V ctx thr bs g) (\<lambda>g' u. culled live Dl s u
      \<and> (block_freed g' \<longrightarrow> free_in {} (heap u) p \<noteq> free_in {} (heap s) p)) (\<lambda>e _. benign_exn e) t"
  using C d bs g
proof (induction bs arbitrary: t g)
  case (Cons b bs)
  obtain x where x: "heap t b = Some x" "allocatable x" "b_pool x = p" using Cons.prems(3) [of b] by auto
  have M: "mid live {} Dl t" using Cons.prems(1) by (simp add: culled_def)
  have lv: "pool_live (graph_pools t) (b_pool x)"
    using inv_home [of "{}" "evc (supa_events t)" Dl "view live t" b x] M x by (simp add: mid_def)
  show ?case
    unfolding gc_pass.simps
  proof (rule step_deref [OF x(1)], rule step_bind [of _ "\<lambda>bp u. u = t"], goal_cases)
    case 1 then show ?case using lv by simp
  next
    case (2 bp u)
    show ?case
      unfolding 2
    proof (rule step_if, goal_cases)
      case 1
      show ?case
      proof (rule step_seq [OF wp_release_block [OF mc M x(1,2)]], goal_cases)
        case (2 u)
        have cu: "culled live Dl s u" using 2 release_culled culled_trans Cons.prems(1) by blast
        have hu: "heap u = (heap t)(b := None)" using 2 by (simp add: release_post_def)
        have "b \<in> free_in {} (heap s) p"
          using x Cons.prems(1) by (auto simp: free_in_def culled_def map_le_def dom_def)
        moreover have "b \<notin> free_in {} (heap u) p" by (simp add: hu free_in_def)
        ultimately have "free_in {} (heap u) p \<noteq> free_in {} (heap s) p" by blast
        moreover have "\<exists>x. heap u c = Some x \<and> allocatable x \<and> b_pool x = p" if "c \<in> set bs" for c
          using Cons.prems(2,3) that by (auto simp: hu)
        ultimately show ?case using Cons.prems(2) by (intro Cons.IH [OF cu]) auto
      qed (use 1 in simp)
    next
      case 2
      show ?case using Cons.prems by (intro Cons.IH) auto
    qed
  qed
qed simp

lemma free_in_shrinks:
  assumes "culled live Dl s t" and "mid live {} Dl s" and "free_in {} (heap t) p \<noteq> free_in {} (heap s) p"
  shows "length (blocks (pools t p)) < length (blocks (pools s p))"
proof -
  have "free_in {} (heap t) p \<subseteq> free_in {} (heap s) p"
    using assms(1) by (force simp: free_in_def culled_def map_le_def dom_def)
  then have "set (blocks (pools t p)) \<subset> set (blocks (pools s p))"
    using assms pool_members(1) [of live Dl] by (auto simp: culled_def)
  then have "card (set (blocks (pools t p))) < card (set (blocks (pools s p)))" by (intro psubset_card_mono) auto
  then show ?thesis
    using assms(1,2) pool_members(2) [of live Dl] by (simp add: distinct_card culled_def)
qed

lemma wp_gc_loop:
  assumes mc: "memory_calls_ok (Drv V) live"
  shows "culled live Dl s t \<Longrightarrow> (block_freed g \<Longrightarrow> length (blocks (pools t (Global False))) < fuel) \<Longrightarrow>
    wp (gc_loop V fuel ctx target g) (\<lambda>_ u. culled live Dl s u) (\<lambda>e _. benign_exn e) t"
proof (induction fuel arbitrary: t g)
  case 0
  then show ?case by (subst gc_loop.simps) auto
next
  case (Suc f)
  have M: "mid live {} Dl t" using Suc.prems(1) by (simp add: culled_def)
  show ?case
  proof (subst gc_loop.simps, rule step_if, goal_cases)
    case 1
    let ?g = "g\<lparr>block_freed := False\<rparr>" and ?p = "Global False"
    have "wp (gc_pass V ctx thr (blocks (pools t ?p)) ?g) (\<lambda>g' u. culled live Dl t u
      \<and> (block_freed g' \<longrightarrow> free_in {} (heap u) ?p \<noteq> free_in {} (heap t) ?p)) (\<lambda>e _. benign_exn e) t" for thr
      by (rule wp_gc_pass [OF mc culled_refl [OF M] pool_members(2) [OF M]]) (auto simp: pool_members(1) [OF M] free_in_def)
    then have "wp (sx_bind (gc_pass V ctx thr (blocks (pools t ?p)) ?g) (gc_loop V f ctx target))
        (\<lambda>_ u. culled live Dl s u) (\<lambda>e _. benign_exn e) t" for thr
    proof (rule step_bind, goal_cases)
      case (1 g' u)
      then have "culled live Dl s u" using culled_trans Suc.prems(1) by blast
      moreover have "block_freed g' \<Longrightarrow> length (blocks (pools u ?p)) < f"
        using 1 free_in_shrinks [OF _ M, of u ?p] Suc.prems(2) \<open>gc_reclaimed g < target \<and> block_freed g \<and> 0 < freeable_block_count g\<close>
        by fastforce
      ultimately show ?case by (rule Suc.IH)
    qed
    then show ?case by (simp add: Let_def pool_live_def)
  next
    case 2
    then show ?case using Suc.prems(1) by simp
  qed
qed

lemma wp_garbage_collect:
  assumes mc: "memory_calls_ok (Drv V) live" and M: "mid live {} Dl s"
  shows "wp (garbage_collect_cached_blocks V ctx) (\<lambda>_ t. culled live Dl s t) (\<lambda>e _. benign_exn e) s"
proof -
  have A: "wp (age_of_blocks (blocks (pools s (Global False))) 0 0) (\<lambda>_ t. t = s) (\<lambda>e _. benign_exn e) s"
    by (rule wp_age_of_blocks [OF M]) (auto simp: pool_members(1) [OF M] free_in_def)
  show ?thesis
    unfolding garbage_collect_cached_blocks_def Let_def
  proof (rule step_get, rule step_if, goal_cases)
    case 1 then show ?case using culled_refl [OF M] by simp
  next
    case 2
    have "wp (sx_bind (age_of_blocks (blocks (pools s (Global False))) 0 0) (\<lambda>(total_age, cnt).
       if cnt = 0 then sx_ret ()
       else gc_loop V (Suc (length (blocks (pools s (Global False))))) ctx n
         \<lparr>block_freed = True, gc_reclaimed = 0, gc_total_age = total_age, freeable_block_count = cnt\<rparr>))
       (\<lambda>_ t. culled live Dl s t) (\<lambda>e _. benign_exn e) s" for n
      by (rule step_bind [OF A]) (use culled_refl [OF M] wp_gc_loop [OF mc culled_refl [OF M]] in \<open>auto simp: wp_if\<close>)
    then show ?case by (simp add: pool_live_def)
  qed
qed

section \<open>Releasing private pools\<close>

text \<open>Every chain has a first block, in the same pool.\<close>

lemma chain_head:
  assumes L: "links h" and P: "positive h" and x: "h b = Some x"
  shows "\<exists>c y. h c = Some y \<and> b_prev y = None \<and> b_pool y = b_pool x"
  using x
proof (induction "b_ptr x" arbitrary: b x rule: less_induct)
  case less
  show ?case
  proof (cases "b_prev x")
    case (Some q)
    obtain y where y: "h q = Some y" "b_next y = Some b" using links_prev [OF L less.prems Some] by blast
    have "adj y x" using links_next [OF L y] less.prems by auto
    then have "b_ptr y < b_ptr x" "b_pool y = b_pool x"
      using P y(1) unfolding adj_def positive_def by (metis less_add_same_cancel1)+
    then show ?thesis using less.hyps y(1) by metis
  qed (use less.prems in blast)
qed

lemma inv_drop_pool:
  assumes I: "inv X Ev Dl v" and pp: "(i, pp) \<in> set (v_gpools v)" "supaMalloc_count pp = 0"
  shows "inv X Ev Dl (v\<lparr>v_gpools := filter (\<lambda>(k, pp). k \<noteq> i) (v_gpools v)\<rparr>)"
proof -
  note g = invD(9) [OF I] and sh = inv_shape [OF I]
  have "card (heads (v_heap v) i) = 0" using g pp unfolding gp_ok_def by fastforce
  then have nh: "heads (v_heap v) i = {}" using bounded_finite(1) [OF sh(4)] by simp
  have "owner_PrivatePool (b_pool x) \<noteq> Some i" if x: "v_heap v b = Some x" for b x
  proof -
    obtain c y where "v_heap v c = Some y" "b_prev y = None" "b_pool y = b_pool x"
      using chain_head [OF sh(1,3) x] by blast
    then show ?thesis using nh by (force simp: heads_def)
  qed
  then have "pool_live (filter (\<lambda>(k, pp). k \<noteq> i) (v_gpools v)) (b_pool x)" if "v_heap v b = Some x" for b x
    using that g unfolding gp_ok_def pool_live_def by (force split: option.splits simp: image_iff)
  then have "gp_ok (v_heap v) (filter (\<lambda>(k, pp). k \<noteq> i) (v_gpools v))"
    using g by (auto simp: gp_ok_def distinct_map_filter)
  then show ?thesis using invD [OF I] by (simp add: inv_def)
qed

definition freeable_ok :: "'d dca \<Rightarrow> bool" where
  "freeable_ok s \<longleftrightarrow> distinct (graph_pools_freeable s)
     \<and> (\<forall>i \<in> set (graph_pools_freeable s). map_of (use_counts (graph_pools s)) i = Some 0)"

definition wf :: "('d \<Rightarrow> (nat \<times> nat) set) \<Rightarrow> 'd dca \<Rightarrow> bool" where
  "wf live s \<longleftrightarrow> settled live s \<and> freeable_ok s"

definition sheds :: "'d dca \<Rightarrow> 'd dca \<Rightarrow> bool" where
  "sheds s t \<longleftrightarrow> keeps s t \<and> captures_underway t = captures_underway s"

lemma sheds_refl [simp]: "sheds s s"
  by (simp add: sheds_def)

lemma sheds_trans: "sheds s t \<Longrightarrow> sheds t u \<Longrightarrow> sheds s u"
  by (auto simp: sheds_def intro: keeps_trans)

lemma moves_sheds: "moves s t \<Longrightarrow> sheds s t"
  by (simp add: moves_def sheds_def)

lemma moves_freeable: "moves s t \<Longrightarrow> freeable_ok s \<Longrightarrow> freeable_ok t"
  by (simp add: moves_def freeable_ok_def)

lemma culled_settled: "culled live (needs_events_deferred s) s t \<Longrightarrow> settled live t"
  by (simp add: culled_def)

text \<open>The pools of a list are there and unused.\<close>

definition idle :: "mempool_id list \<Rightarrow> 'd dca \<Rightarrow> bool" where
  "idle is s \<longleftrightarrow> distinct is \<and> (\<forall>i \<in> set is. map_of (use_counts (graph_pools s)) i = Some 0)"

lemma idle_moves: "moves s t \<Longrightarrow> idle is s \<Longrightarrow> idle is t"
  by (simp add: moves_def idle_def)

lemma idle_pool:
  assumes "idle (i # is) s"
  obtains pp where "map_of (graph_pools s) i = Some pp" and "use_count pp = 0" and "pool_live (graph_pools s) (Private i b)"
    and "(i, pp) \<in> set (graph_pools s)"
proof -
  have "map_of (use_counts (graph_pools s)) i = Some 0" using assms by (simp add: idle_def)
  then obtain pp where pp: "map_of (graph_pools s) i = Some pp" "use_count pp = 0"
    unfolding use_counts_map_of by auto
  moreover have "(i, pp) \<in> set (graph_pools s)" using pp(1) by (rule map_of_SomeD)
  ultimately show thesis using that by (force simp: pool_live_def)
qed

lemma map_of_filter_key: "i \<noteq> j \<Longrightarrow> map_of (filter (\<lambda>(k, v). k \<noteq> j) xs) i = map_of xs i"
  by (induction xs) auto

lemma drop_pool:
  assumes M: "settled live s" and F: "freeable_ok s" and id: "idle (i # is) s"
    and pp: "map_of (graph_pools s) i = Some pp" "supaMalloc_count pp = 0"
    and t: "t = s\<lparr>graph_pools := filter (\<lambda>(k, pp). k \<noteq> i) (graph_pools s),
      graph_pools_freeable := filter (\<lambda>k. k \<noteq> i) (graph_pools_freeable s)\<rparr>"
  shows "settled live t" and "freeable_ok t" and "idle is t" and "sheds s t"
proof -
  have I: "inv {} (evc (supa_events s)) (needs_events_deferred s) (view live s)" using M by (simp add: mid_def)
  have "inv {} (evc (supa_events s)) (needs_events_deferred s) ((view live s)\<lparr>v_gpools := filter (\<lambda>(k, pp). k \<noteq> i) (graph_pools s)\<rparr>)"
    using inv_drop_pool [OF I, of i pp] map_of_SomeD [OF pp(1)] pp(2) by simp
  then show "settled live t" using M by (simp add: t mid_def)
  have u: "map_of (use_counts (graph_pools t)) j = map_of (use_counts (graph_pools s)) j" if "j \<noteq> i" for j
    using that by (simp add: t map_of_filter_key use_counts_map_of)
  show "freeable_ok t" using F u by (auto simp: freeable_ok_def t)
  have "j \<noteq> i" if "j \<in> set is" for j using that id by (auto simp: idle_def)
  then show "idle is t" using id u by (auto simp: idle_def)
  show "sheds s t" by (simp add: t sheds_def keeps_def)
qed

definition shrinks :: "'d dca \<Rightarrow> 'd dca \<Rightarrow> bool" where
  "shrinks s t \<longleftrightarrow> heap t \<subseteq>\<^sub>m heap s \<and> supa_events t = supa_events s \<and> needs_events_deferred t = needs_events_deferred s"

lemma shrinks_trans: "shrinks s t \<Longrightarrow> shrinks t u \<Longrightarrow> shrinks s u"
  by (auto simp: shrinks_def intro: map_le_trans)

lemma shrinks_refl [simp]: "shrinks s s"
  by (simp add: shrinks_def)

lemma culled_shrinks: "culled live Dl s t \<Longrightarrow> shrinks s t"
  by (simp add: culled_def shrinks_def)

definition shed_to :: "('d \<Rightarrow> (nat \<times> nat) set) \<Rightarrow> mempool_id \<Rightarrow> mempool_id list \<Rightarrow> 'd dca \<Rightarrow> 'd dca \<Rightarrow> bool" where
  "shed_to live m is s t \<longleftrightarrow> settled live t \<and> freeable_ok t \<and> idle is t \<and> sheds s t
     \<and> (m = (0, 0) \<longrightarrow> shrinks s t)"

lemma shed_to_moves:
  assumes "shed_to live m is s t" and "settled live u" and "moves t u" and "m = (0, 0) \<Longrightarrow> shrinks t u"
  shows "shed_to live m is s u"
  using assms moves_freeable [OF assms(3)] idle_moves [OF assms(3)] sheds_trans [OF _ moves_sheds [OF assms(3)]]
    shrinks_trans [of s t u]
  by (auto simp: shed_to_def)

lemma wp_release_freeable_pool:
  assumes mc: "memory_calls_ok (Drv V) live" and S: "shed_to live m (i # is) s t"
    and k: "\<And>u. shed_to live m is s u \<Longrightarrow> wp k P (\<lambda>e _. benign_exn e) u"
  shows "wp (sx_bind (deref_private_pool i) (\<lambda>pp.
         sx_seq (sx_check (use_count pp = 0) (InternalAssert ''it->second->use_count == 0''))
         (sx_seq (release_blocks V (Private i True) ctx)
         (sx_seq (release_blocks V (Private i False) ctx)
         (sx_bind (deref_private_pool i) (\<lambda>pp'.
          sx_seq (sx_when (supaMalloc_count pp' = 0)
            (sx_mod (\<lambda>s. s\<lparr>graph_pools := filter (\<lambda>(k, pp). k \<noteq> i) (graph_pools s),
               graph_pools_freeable := filter (\<lambda>k. k \<noteq> i) (graph_pools_freeable s)\<rparr>)))
          k)))))) P (\<lambda>e _. benign_exn e) t"
proof -
  have last: "wp (sx_bind (deref_private_pool i) (\<lambda>pp'.
          sx_seq (sx_when (supaMalloc_count pp' = 0)
            (sx_mod (\<lambda>s. s\<lparr>graph_pools := filter (\<lambda>(k, pp). k \<noteq> i) (graph_pools s),
               graph_pools_freeable := filter (\<lambda>k. k \<noteq> i) (graph_pools_freeable s)\<rparr>))) k)) P (\<lambda>e _. benign_exn e) u"
    if u: "shed_to live m (i # is) s u" for u
  proof -
    have iu: "idle (i # is) u" and su: "settled live u" and fu: "freeable_ok u" using u by (simp_all add: shed_to_def)
    obtain pp where pp: "map_of (graph_pools u) i = Some pp" using idle_pool [OF iu] by blast
    let ?u = "u\<lparr>graph_pools := filter (\<lambda>(k, pp). k \<noteq> i) (graph_pools u),
      graph_pools_freeable := filter (\<lambda>k. k \<noteq> i) (graph_pools_freeable u)\<rparr>"
    have "shed_to live m is s ?u" if "supaMalloc_count pp = 0"
      using drop_pool [OF su fu iu pp that refl] sheds_trans [of s u ?u] u by (simp add: shed_to_def shrinks_def)
    moreover have "shed_to live m is s u" using u by (simp add: shed_to_def idle_def)
    ultimately show ?thesis using pp k by (simp add: deref_private_pool_def)
  qed
  have it: "idle (i # is) t" and st: "settled live t" using S by (simp_all add: shed_to_def)
  obtain pp where pp: "map_of (graph_pools t) i = Some pp" "use_count pp = 0" using idle_pool [OF it] by blast
  have lv: "pool_live (graph_pools t) (Private i b)" for b using idle_pool [OF it, of b] by blast
  show ?thesis
  proof (rule step_bind [of _ "\<lambda>r u. r = pp \<and> u = t"], goal_cases)
    case 1 then show ?case using pp by (simp add: deref_private_pool_def)
  next
    case (2 r u)
    then have ru: "r = pp" "u = t" by simp_all
    show ?case
      unfolding ru
    proof (rule step_check [OF pp(2)], rule step_seq [OF wp_release_blocks [OF mc st lv]], rule step_seq [OF wp_release_blocks [OF mc, of "needs_events_deferred t"]], goal_cases)
      case (1 u)
      then show ?case by (simp add: culled_def)
    next
      case (2 u)
      then show ?case using lv moves_live by (auto simp: culled_def)
    next
      case (3 u w)
      have "culled live (needs_events_deferred t) t w" using 3 culled_trans by blast
      then have "shed_to live m (i # is) s w" by (intro shed_to_moves [OF S]) (simp_all add: culled_def shrinks_def)
      then show ?case by (rule last)
    qed
  qed
qed

lemma wp_release_freeable:
  assumes mc: "memory_calls_ok (Drv V) live" and oc: "other_calls_ok (Drv V) live" and S: "shed_to live mempool is s t"
  shows "wp (release_freeable V ctx mempool is) (\<lambda>_ u. wf live u \<and> sheds s u \<and> (mempool = (0, 0) \<longrightarrow> shrinks s u))
    (\<lambda>e _. benign_exn e) t"
  using S
proof (induction "is" arbitrary: t)
  case Nil
  then show ?case by (simp add: shed_to_def wf_def)
next
  case (Cons i "is")
  show ?case
    unfolding release_freeable.simps
  proof (rule step_if, goal_cases)
    case 1
    then show ?case using Cons.prems by (intro Cons.IH) (simp add: shed_to_def idle_def)
  next
    case 2
    have "wp (sx_when (mempool \<noteq> (0, 0)) (synchronize_and_free_events V ctx (Some i)))
        (\<lambda>_ u. shed_to live mempool (i # is) s u) (\<lambda>e _. benign_exn e) t"
    proof (rule step_when)
      assume m: "mempool \<noteq> (0, 0)"
      have "settled live t" using Cons.prems by (simp add: shed_to_def)
      from wp_synchronize_and_free_events [OF oc this]
      show "wp (synchronize_and_free_events V ctx (Some i)) (\<lambda>_ u. shed_to live mempool (i # is) s u) (\<lambda>e _. benign_exn e) t"
        by (rule wp_conseq) (use m Cons.prems shed_to_moves steady_moves in blast)+
    qed (rule Cons.prems)
    then show ?case
      by (rule step_seq) (rule wp_release_freeable_pool [OF mc _ Cons.IH])
  qed
qed

section \<open>Releasing the whole cache\<close>

text \<open>
  After the global pools are released no event is pending and no whole segment is cached: the memory
  that stays belongs to segments with a block in use.
\<close>

definition drained :: "'d dca \<Rightarrow> bool" where
  "drained s \<longleftrightarrow> whole (Global False) (heap s) = {} \<and> whole (Global True) (heap s) = {}
     \<and> supa_events s = [] \<and> needs_events_deferred s = []"

lemma drained_sub: "shrinks s t \<Longrightarrow> drained s \<Longrightarrow> drained t"
  using whole_sub [of "heap t" "heap s"] unfolding drained_def shrinks_def by auto

abbreviation chosen_pool :: "'d env \<Rightarrow> mempool_id \<Rightarrow> mempool_id" where
  "chosen_pool V mempool \<equiv> (case ActiveMemPool V of Some (i, a) \<Rightarrow> i | None \<Rightarrow> mempool)"

lemma wp_release_cached_blocks:
  assumes mc: "memory_calls_ok (Drv V) live" and oc: "other_calls_ok (Drv V) live" and W: "wf live s"
  shows "wp (release_cached_blocks V ctx mempool) (\<lambda>r t. r \<and> wf live t \<and> sheds s t
      \<and> (chosen_pool V mempool = (0, 0) \<longrightarrow> captures_underway s = [] \<longrightarrow> drained t)) (\<lambda>e _. benign_exn e) s"
proof -
  have st: "settled live s" and fr: "freeable_ok s" using W by (simp_all add: wf_def)
  let ?all = "sx_seq (synchronize_and_free_events V ctx None)
        (sx_seq (release_blocks V (Global False) ctx) (release_blocks V (Global True) ctx))"
  have all: "wp ?all (\<lambda>_ t. settled live t \<and> moves s t \<and> drained t) (\<lambda>e _. benign_exn e) s"
  proof (rule step_seq [OF wp_synchronize_and_free_events [OF oc st]],
      rule step_seq [OF wp_release_blocks [OF mc, of "[]"]], goal_cases)
    case (3 t u)
    have Mu: "mid live {} [] u" using 3 by (simp add: culled_def)
    show ?case
    proof (rule wp_conseq [OF wp_release_blocks [OF mc Mu]], goal_cases)
      case (2 r w)
      have "moves s t" "moves t u" "moves u w" using 2 3 steady_moves by (auto simp: culled_def)
      then have "moves s w" using moves_trans by blast
      moreover have "whole (Global False) (heap w) = {}"
        using 2 3 whole_sub [of "heap w" "heap u" "Global False"] by (simp add: culled_def)
      ultimately show ?case using 2 3 by (auto simp: culled_def drained_def)
    qed (simp_all add: pool_live_def)
  qed (auto simp: pool_live_def)
  have rest: "wp (sx_bind (sx_get graph_pools_freeable) (\<lambda>fs.
       sx_seq (release_freeable V ctx m fs) (sx_ret True)))
      (\<lambda>r u. r \<and> wf live u \<and> sheds s u \<and> (m = (0, 0) \<longrightarrow> drained t \<longrightarrow> drained u)) (\<lambda>e _. benign_exn e) t"
    if t: "settled live t" "moves s t" for m t
  proof (rule step_get, rule step_seq [OF wp_release_freeable [OF mc oc, of m "graph_pools_freeable t" t t]], goal_cases)
    case 1
    have "freeable_ok t" using moves_freeable [OF t(2) fr] .
    then show ?case using t by (auto simp: shed_to_def idle_def freeable_ok_def)
  next
    case (2 u)
    then show ?case using sheds_trans [OF moves_sheds [OF t(2)]] drained_sub [of t u] by auto
  qed
  show ?thesis
    unfolding release_cached_blocks_def Let_def
  proof (rule step_get, rule step_seq [where R = "\<lambda>t. settled live t \<and> moves s t \<and>
      (chosen_pool V mempool = (0, 0) \<longrightarrow> captures_underway s = [] \<longrightarrow> drained t)"], rule step_when, goal_cases)
    case 1 show ?case by (rule wp_conseq [OF all]) auto
  next
    case 2 then show ?case using st by auto
  next
    case (3 t)
    show ?case by (rule wp_conseq [OF rest]) (use 3 in auto)
  qed
qed

end
