(* ===== verification/Alloc_Safety.thy ===== *)
theory Alloc_Safety
  imports Cache_Safety
begin

text \<open>
  Allocation keeps the invariant: the search of the cache, the allocation from the driver and the
  split of the block that was found. A block that is handed out overlaps no other block, and the
  blocks in use are not touched.
\<close>

section \<open>The block an allocation has found\<close>

definition request :: "AllocParams \<Rightarrow> AllocParams \<Rightarrow> bool" where
  "request p p' \<longleftrightarrow> (\<exists>b e. p' = p\<lparr>p_block := b, p_err := e\<rparr>)"

lemma request_refl [simp]: "request p p"
proof -
  have "p = p\<lparr>p_block := p_block p, p_err := p_err p\<rparr>" by simp
  then show ?thesis unfolding request_def by blast
qed

lemma request_set [simp]: "request p (p\<lparr>p_block := b\<rparr>)" "request p (p\<lparr>p_err := e\<rparr>)" "request p (p\<lparr>p_block := b, p_err := e\<rparr>)"
proof -
  have "p\<lparr>p_block := b\<rparr> = p\<lparr>p_block := b, p_err := p_err p\<rparr>" by simp
  then show "request p (p\<lparr>p_block := b\<rparr>)" unfolding request_def by blast
  have "p\<lparr>p_err := e\<rparr> = p\<lparr>p_block := p_block p, p_err := e\<rparr>" by simp
  then show "request p (p\<lparr>p_err := e\<rparr>)" unfolding request_def by blast
  show "request p (p\<lparr>p_block := b, p_err := e\<rparr>)" unfolding request_def by blast
qed

lemma request_trans:
  assumes "request p q" and "request q r"
  shows "request p r"
proof -
  obtain b e b' e' where "q = p\<lparr>p_block := b, p_err := e\<rparr>" "r = q\<lparr>p_block := b', p_err := e'\<rparr>"
    using assms unfolding request_def by blast
  then have "r = p\<lparr>p_block := b', p_err := e'\<rparr>" by simp
  then show ?thesis unfolding request_def by blast
qed

lemma requestD:
  assumes "request p p'"
  shows "p_device p' = p_device p" and "p_stream p' = p_stream p" and "p_size p' = p_size p"
    and "p_pool p' = p_pool p" and "p_alloc_size p' = p_alloc_size p" and "p_stat_types p' = p_stat_types p"
  using assms by (auto simp: request_def)

definition lone :: "bheap \<Rightarrow> Block \<Rightarrow> bool" where
  "lone h x \<longleftrightarrow> (\<forall>n y. b_next x = Some n \<or> b_prev x = Some n \<longrightarrow> h n = Some y \<longrightarrow> \<not> allocatable y)"

definition fits :: "AllocParams \<Rightarrow> Block \<Rightarrow> bool" where
  "fits p x \<longleftrightarrow> allocatable x \<and> b_pool x = p_pool p \<and> b_stream x = p_stream p \<and> p_size p \<le> b_size x"

definition candidate :: "('d \<Rightarrow> (nat \<times> nat) set) \<Rightarrow> AllocParams \<Rightarrow> nat \<Rightarrow> 'd dca \<Rightarrow> bool" where
  "candidate live p b t \<longleftrightarrow> mid live {b} (needs_events_deferred t) t \<and> freeable_ok t
     \<and> b \<notin> set (active_blocks t) \<and> (\<exists>x. heap t b = Some x \<and> fits p x \<and> lone (heap t) x)"

definition search_post :: "('d \<Rightarrow> (nat \<times> nat) set) \<Rightarrow> ('d dca \<Rightarrow> 'd dca \<Rightarrow> bool) \<Rightarrow> AllocParams \<Rightarrow> 'd dca
    \<Rightarrow> bool \<times> AllocParams \<Rightarrow> 'd dca \<Rightarrow> bool" where
  "search_post live R p s r t \<longleftrightarrow> R s t \<and> request p (snd r)
     \<and> (if fst r then p_err (snd r) = supaSuccess \<and> (\<exists>b. p_block (snd r) = Some b \<and> candidate live p b t)
        else wf live t)"

section \<open>The search of the cache\<close>

lemma mid_pools:
  assumes "mid live X Dl s" and "\<And>q. blocks (P q) = blocks (pools s q) \<and> unmapped (P q) = unmapped (pools s q)"
  shows "mid live X Dl (s\<lparr>pools := P\<rparr>)"
  using assms by (simp add: mid_def inv_def pools_ok_def pool_ok_def)

lemma moves_pools [simp]: "moves s (s\<lparr>pools := P\<rparr>)"
  by (simp add: moves_def keeps_def)

lemma merged_lone:
  assumes M: "mid live {} Dl s" and x: "heap s b = Some x" "allocatable x"
  shows "lone (heap s) x"
  unfolding lone_def
proof (intro allI impI)
  fix n y assume n: "b_next x = Some n \<or> b_prev x = Some n" and y: "heap s n = Some y"
  have I: "inv {} (evc (supa_events s)) Dl (view live s)" using M by (simp add: mid_def)
  note sd = inv_shape [OF I, simplified] and m = invD(6) [OF I, simplified]
  show "\<not> allocatable y"
  proof (cases "b_next x = Some n")
    case True
    then show ?thesis using mergedD [OF m x(1) True y] x(2) by simp
  next
    case False
    then have p: "b_prev x = Some n" using n by simp
    have "b_next y = Some b" using links_prev [OF sd(1) x(1) p] y by auto
    then show ?thesis using mergedD [OF m y _ x(1)] x(2) by simp
  qed
qed

lemma mid_take:
  assumes M: "mid live {} Dl s" and b: "b \<in> set (blocks (pools s p))"
  shows "mid live {b} Dl (s\<lparr>pools := (pools s)(p := (pools s p)\<lparr>blocks := remove1 b (blocks (pools s p))\<rparr>)\<rparr>)"
  using inv_take [of "{}" "evc (supa_events s)" Dl "view live s" b p] M b pool_members(1) [OF M]
  by (simp add: mid_def)

lemma wp_take_free_block:
  assumes M: "settled live s" and F: "freeable_ok s" and lv: "pool_live (graph_pools s) (p_pool p)" and e: "p_err p = supaSuccess"
    and b: "b \<in> set (blocks (pools s (p_pool p)))" "heap s b = Some x" "b_stream x = p_stream p \<Longrightarrow> p_size p \<le> b_size x"
  shows "wp (take_free_block V p (b # bs)) (\<lambda>r t. search_post live moves p s r t \<and> p_err (snd r) = supaSuccess)
    (\<lambda>e _. benign_exn e) s"
proof -
  have no: "search_post live moves p s (False, p) s" using M F by (simp add: search_post_def wf_def)
  let ?s = "s\<lparr>pools := (pools s)(p_pool p := (pools s (p_pool p))\<lparr>blocks := remove1 b (blocks (pools s (p_pool p)))\<rparr>)\<rparr>"
  have x: "allocatable x" "b_pool x = p_pool p" using b(1,2) pool_members(1) [OF M] by (auto simp: free_in_def)
  have "b \<notin> set (active_blocks s)"
    using invD(5) [of "{}" "evc (supa_events s)" "needs_events_deferred s" "view live s"] M b(2) x(1)
    by (auto simp: mid_def active_ok_def)
  then have "search_post live moves p s (True, p\<lparr>p_block := Some b\<rparr>) ?s" if "b_stream x = p_stream p"
    using mid_take [OF M b(1)] merged_lone [OF M b(2) x(1)] F e x b that moves_freeable [OF moves_pools F]
    by (simp add: search_post_def candidate_def fits_def)
  then show ?thesis
    unfolding take_free_block_def using no b(2) lv e by (simp add: wp_if)
qed

lemma wp_get_free_block:
  assumes W: "wf live s" and lv: "pool_live (graph_pools s) (p_pool p)" and e: "p_err p = supaSuccess"
  shows "wp (get_free_block V p) (\<lambda>r t. search_post live moves p s r t \<and> p_err (snd r) = supaSuccess)
    (\<lambda>e _. benign_exn e) s"
proof -
  have main: "wp (sx_bind (get_BlockPool (p_pool p)) (\<lambda>bp. sx_bind (sx_get heap) (\<lambda>h.
      case set_lower_bound BlockComparatorSize (bkey h) (p_stream p, p_size p, 0) (blocks bp) of
        [] \<Rightarrow> sx_ret (False, p)
      | b # rest \<Rightarrow> sx_bind (deref b) (\<lambda>blk.
          if b_stream blk \<noteq> p_stream p then sx_ret (False, p)
          else if expandable_segment blk \<noteq> None then
            sx_bind (if m_expandable_segments (Cfg V) then best_expandable (p_stream p) (b # rest)
              else skip_expandable (p_stream p) (b # rest)) (take_free_block V p)
          else take_free_block V p (b # rest)))))
      (\<lambda>r u. search_post live moves p t r u \<and> p_err (snd r) = supaSuccess) (\<lambda>e _. benign_exn e) t"
    if M: "settled live t" and F: "freeable_ok t" and lv: "pool_live (graph_pools t) (p_pool p)" for t
  proof -
    have no: "search_post live moves p t (False, p) t" using M F by (simp add: search_post_def wf_def)
    show ?thesis
    proof (cases "set_lower_bound BlockComparatorSize (bkey (heap t)) (p_stream p, p_size p, 0) (blocks (pools t (p_pool p)))")
      case Nil
      then show ?thesis using no lv e by simp
    next
      case (Cons b rest)
      note lb = by_size.lower_bound_least [OF pool_members(3) [OF M] Cons]
      obtain x where x: "heap t b = Some x" using lb(1) pool_members(1) [OF M] by (auto simp: free_in_def)
      have pl: "expandable_segment x = None"
        using M invD(3) [of "{}" "evc (supa_events t)" "needs_events_deferred t" "view live t"] x
        by (simp add: mid_def plain_heap_def plain_def)
      have "p_size p \<le> b_size x" if "b_stream x = p_stream p"
        using lb(2) that x by (auto simp: BlockComparatorSize_def bkey_def key_of_def split: if_splits)
      from wp_take_free_block [OF M F lv e lb(1) x this]
      show ?thesis using no x pl Cons lv e by (simp add: wp_if)
    qed
  qed
  let ?g = "\<lambda>s. s\<lparr>pools := (pools s)(p_pool p := (pools s (p_pool p))
    \<lparr>get_free_blocks_call_count := get_free_blocks_call_count (pools s (p_pool p)) + 1\<rparr>)\<rparr>"
  have M: "settled live s" and F: "freeable_ok s" using W by (simp_all add: wf_def)
  show ?thesis
    unfolding get_free_block_def
  proof (rule step_get, rule step_seq [where R = "\<lambda>t. settled live t \<and> moves s t"], rule step_when, goal_cases)
    case 1
    have "settled live (?g s)" using mid_pools [OF M, of "pools (?g s)"] by simp
    then show ?case using lv by simp
  next
    case 2 then show ?case using M by simp
  next
    case (3 t)
    then show ?case
      using moves_live [of s t "p_pool p"] lv moves_freeable [of s t] F moves_trans [of s t]
      by (intro wp_conseq [OF main]) (auto simp: search_post_def)
  qed
qed

section \<open>Memory from the driver\<close>

definition got :: "('d \<Rightarrow> (nat \<times> nat) set) \<Rightarrow> nat \<Rightarrow> 'd dca \<Rightarrow> supaError \<times> nat \<Rightarrow> 'd dca \<Rightarrow> bool" where
  "got live n s r t \<longleftrightarrow> (if fst r = supaSuccess
     then fresh_range (live (drv (world s))) (snd r) n
       \<and> view live t = (view live s)\<lparr>v_live := insert (snd r, n) (live (drv (world s)))\<rparr>
     else view live t = view live s)"

lemma got_before:
  assumes "same_view live s s'" and "got live n s' r t"
  shows "got live n s r t"
  using assms(2) unfolding got_def same_viewD(6,12) [OF assms(1)] .

lemma got_after:
  assumes "got live n s r t" and "same_view live t t'"
  shows "got live n s r t'"
  using assms(1) unfolding got_def same_viewD(12) [OF assms(2)] .

lemma wp_got_malloc:
  assumes mc: "memory_calls_ok (Drv V) live" and rk: "ranges_ok (live (drv (world s)))"
  shows "wp (on_drv (drv_call (supaMalloc (Drv V) n))) (\<lambda>r t. got live n s r t) (\<lambda>e _. benign_exn e) s"
proof (cases "supaMalloc (Drv V) n (drv (world s))")
  case (Pair r d)
  obtain e p where r: "r = (e, p)" by fastforce
  have "if e = supaSuccess then fresh_range (live (drv (world s))) p n \<and> live d = insert (p, n) (live (drv (world s)))
      else live d = live (drv (world s))"
    using memory_calls(1) [OF mc, of n] rk Pair r unfolding acquires_def by blast
  then show ?thesis using Pair r by (simp add: got_def view_live split: if_splits)
qed

lemma wp_got_hook:
  assumes mc: "memory_calls_ok (Drv V) live" and rk: "ranges_ok (live (drv (world s)))"
  shows "wp (sx_bind (on_drv (drv_call (raw_alloc_hook (Drv V) a n))) (\<lambda>ptr.
      sx_ret (if ptr \<noteq> 0 then supaSuccess else supaErrorMemoryAllocation, ptr)))
    (\<lambda>r t. got live n s r t) (\<lambda>e _. benign_exn e) s"
proof (cases "raw_alloc_hook (Drv V) a n (drv (world s))")
  case (Pair p d)
  show ?thesis
    using memory_calls(2) [OF mc rk Pair] Pair by (simp add: got_def view_live split: if_splits)
qed

lemma wp_allocPrimitive:
  assumes mc: "memory_calls_ok (Drv V) live" and rk: "ranges_ok (live (drv (world s)))" and lv: "pool_live (graph_pools s) (p_pool p)"
  shows "wp (allocPrimitive V n p) (\<lambda>r t. got live n s r t) (\<lambda>e _. benign_exn e) s"
proof (cases "owner_PrivatePool (p_pool p)")
  case None
  then show ?thesis using wp_got_malloc [OF mc rk] by (simp add: allocPrimitive_def del: wp_field)
next
  case (Some i)
  then obtain pp where pp: "map_of (graph_pools s) i = Some pp"
    using lv by (auto simp: pool_live_def image_iff dest: weak_map_of_SomeI)
  show ?thesis
    unfolding allocPrimitive_def Some option.case
  proof (rule step_bind [of _ "\<lambda>r u. r = pp \<and> u = s"], goal_cases)
    case 1 then show ?case using pp by (simp add: deref_private_pool_def)
  next
    case (2 r u)
    then show ?case
      using wp_got_malloc [OF mc rk] wp_got_hook [OF mc rk] by (cases "pp_allocator pp") (simp_all del: wp_field wp_bind)
  qed
qed

lemma wp_supaMallocMaybeCapturing:
  assumes mc: "memory_calls_ok (Drv V) live" and rk: "ranges_ok (live (drv (world s)))" and oc: "other_calls_ok (Drv V) live" and lv: "pool_live (graph_pools s) (p_pool p)"
  shows "wp (supaMallocMaybeCapturing V n p) (\<lambda>r t. got live n s r t) (\<lambda>e _. benign_exn e) s"
proof -
  have C: "benign (same_view live) (on_drv (drv_call (capturing (Drv V))))"
    and X: "benign (same_view live) (on_drv (drv_call (exchangeCaptureMode (Drv V) m)))" for m
    by (intro benign_on_drv benign_drv_call other_calls [OF oc])+
  have P: "wp (allocPrimitive V n p) (\<lambda>r t. got live n s r t) (\<lambda>e _. benign_exn e) t" if t: "same_view live s t" for t
    using lv rk same_viewD(5,6) [OF t]
    by (intro wp_conseq [OF wp_allocPrimitive [OF mc, of t p n]]) (auto intro: got_before [OF t])
  show ?thesis
    unfolding supaMallocMaybeCapturing_def
  proof (rule step_benign_bind [OF C], rule step_if, goal_cases)
    case (1 cap t) show ?case by (rule P [OF 1(1)])
  next
    case (2 cap t)
    show ?case
    proof (rule step_benign_bind [OF X], rule step_bind, rule P, goal_cases)
      case (1 old t2) then show ?case using 2(1) keep.trans by blast
    next
      case (2 old t2 r u)
      then show ?case by (intro step_benign_bind [OF X]) (auto intro: got_after)
    qed simp
  qed simp
qed

section \<open>A new segment\<close>

lemma wp_upd_owner:
  assumes "pool_live (graph_pools s) pool"
  shows "wp (upd_owner pool (\<lambda>pp. pp\<lparr>supaMalloc_count := supaMalloc_count pp + 1\<rparr>))
    (\<lambda>_ t. t = s\<lparr>graph_pools := bump_owner pool 1 (graph_pools s)\<rparr>) (\<lambda>e _. benign_exn e) s"
  using assms
  by (cases "owner_PrivatePool pool") (simp_all add: upd_owner_def bump_owner_def pool_live_def upd_private_pool_def bump_def)

lemma new_segment:
  assumes W: "wf live s" and lv: "pool_live (graph_pools s) (p_pool p)"
    and n: "0 < p_alloc_size p" "p_size p \<le> p_alloc_size p" and fr: "fresh_range (live (drv (world s))) ptr (p_alloc_size p)"
    and x: "x = (Block_ctor (p_device p) (p_stream p) (p_alloc_size p) (p_pool p) ptr)\<lparr>context_when_segment_allocated := c\<rparr>"
    and b: "b = next_block s"
    and t: "view live t = (view live s)\<lparr>v_live := insert (ptr, p_alloc_size p) (live (drv (world s))),
      v_gpools := bump_owner (p_pool p) 1 (graph_pools s), v_heap := (heap s)(b \<mapsto> x), v_next := Suc b\<rparr>"
  shows "candidate live p b t" and "moves s t"
proof -
  have M: "mid live {} (needs_events_deferred s) s" and F: "freeable_ok s" using W by (simp_all add: wf_def)
  then have I: "inv {} (evc (supa_events s)) (needs_events_deferred s) (view live s)" by (simp add: mid_def)
  note v = viewD [OF t, simplified]
  have xf: "b_prev x = None" "b_next x = None" "plain x" "event_count x = 0" "b_size x = p_alloc_size p" "b_ptr x = ptr"
    "b_pool x = p_pool p" "b_stream x = p_stream p" "allocatable x"
    by (simp_all add: x Block_ctor_def plain_def allocatable_def)
  have "inv {b} (evc (supa_events s)) (needs_events_deferred s) ((view live s)\<lparr>v_heap := (heap s)(b \<mapsto> x), v_next := Suc b,
      v_live := insert (b_ptr x, b_size x) (live (drv (world s))), v_gpools := bump_owner (b_pool x) 1 (graph_pools s)\<rparr>)"
    using inv_add [OF I, of b x] xf fr lv n(1) b by simp
  then have "inv {b} (evc (supa_events s)) (needs_events_deferred s) (view live t)"
    using inv_fields [of "view live t" "(view live s)\<lparr>v_heap := (heap s)(b \<mapsto> x), v_next := Suc b,
      v_live := insert (b_ptr x, b_size x) (live (drv (world s))), v_gpools := bump_owner (b_pool x) 1 (graph_pools s)\<rparr>"] v xf
    by simp
  then have Mt: "mid live {b} (needs_events_deferred t) t" using M v by (simp add: mid_def)
  have hb: "heap s b = None" using inv_shape(4) [OF I] b by (cases "heap s b") (auto simp: bounded_def)
  then have "b \<notin> set (active_blocks t)" using invD(5) [OF I] v(4) by (auto simp: active_ok_def)
  moreover show "moves s t"
    using v hb xf(9) by (auto simp: moves_def keeps_def in_use_upd fun_eq_iff in_use_def allocatable_def)
  then have "freeable_ok t" using F by (rule moves_freeable)
  ultimately show "candidate live p b t" using Mt xf n(2) v(1) by (simp add: candidate_def fits_def lone_def)
qed

lemma wp_alloc_block:
  assumes mc: "memory_calls_ok (Drv V) live" and oc: "other_calls_ok (Drv V) live" and W: "wf live s"
    and lv: "pool_live (graph_pools s) (p_pool p)" and n: "0 < p_alloc_size p" "p_size p \<le> p_alloc_size p"
    and ex: "\<not> m_expandable_segments (Cfg V)"
  shows "wp (alloc_block V p retry ctx) (\<lambda>r t. search_post live moves p s r t
      \<and> (\<not> fst r \<longrightarrow> p_err (snd r) = supaErrorMemoryAllocation \<and> same_view live s t)) (\<lambda>e _. benign_exn e) s" (is "wp _ ?Q ?E s")
proof -
  have S: "benign (same_view live) (on_stats (sx_mod f))" for f
    by (intro benign_on_stats) (simp add: benign_def)
  have G: "benign (same_view live) (on_drv (drv_call (supaGetLastError (Drv V))))"
    "benign (same_view live) (on_drv (supa_check (supaGetLastError (Drv V))))"
    by (intro benign_on_drv benign_drv_call benign_supa_check other_calls [OF oc])+
  have A: "benign (same_view live) (alloc_block_stats V st sz)" for st sz
    unfolding alloc_block_stats_def by (intro view_intros stats_intros)
  let ?n = "p_alloc_size p" and ?b = "next_block s"
  have no: "?Q (False, p\<lparr>p_err := supaErrorMemoryAllocation\<rparr>) t" if "same_view live s t" for t
  proof -
    have m: "moves s t" using same_view_moves [OF that] .
    have "settled live t" using mid_view [OF that] W same_viewD(7) [OF that] by (simp add: wf_def)
    then show ?thesis using m moves_freeable [OF m] W that by (simp add: search_post_def wf_def)
  qed
  have new: "wp (sx_seq (upd_owner (p_pool p) (\<lambda>pp. pp\<lparr>supaMalloc_count := supaMalloc_count pp + 1\<rparr>))
            (sx_seq (sx_mod (\<lambda>s. s\<lparr>total_allocated_memory := size_add (total_allocated_memory s) ?n\<rparr>))
            (sx_bind (new_block (Block_ctor (p_device p) (p_stream p) ?n (p_pool p) ptr)) (\<lambda>b.
             sx_seq (alloc_block_stats V (p_stat_types p) ?n)
             (sx_seq (sx_check (ptr \<noteq> 0) (InternalAssert ''p.block->ptr != nullptr''))
             (sx_seq (on_stats (sx_mod (\<lambda>d. d\<lparr>num_device_alloc := num_device_alloc d + 1\<rparr>)))
             (sx_seq (record_trace SEGMENT_ALLOC (int ptr) ?n (p_stream p) (p_device p)
                (owner_MempoolId (p_pool p)) ctx)
             (sx_seq (setb b (\<lambda>x. x\<lparr>context_when_segment_allocated := ctx\<rparr>))
             (sx_ret (True, p\<lparr>p_block := Some b, p_err := supaSuccess\<rparr>)))))))))) ?Q ?E t"
    if fr: "fresh_range (live (drv (world s))) ptr ?n"
      and t: "view live t = (view live s)\<lparr>v_live := insert (ptr, ?n) (live (drv (world s)))\<rparr>" for ptr t
  proof -
    note v = viewD [OF t, simplified]
    have lvt: "pool_live (graph_pools t) (p_pool p)" using lv v(5) by simp
    have ptr: "ptr \<noteq> 0" using fr by (simp add: fresh_range_def)
    let ?x = "Block_ctor (p_device p) (p_stream p) ?n (p_pool p) ptr"
    let ?v = "\<lambda>x. (view live s)\<lparr>v_live := insert (ptr, ?n) (live (drv (world s))),
      v_gpools := bump_owner (p_pool p) 1 (graph_pools s), v_heap := (heap s)(?b \<mapsto> x), v_next := Suc ?b\<rparr>"
    show ?thesis
    proof (rule step_seq [OF wp_upd_owner [OF lvt]], rule step_mod, rule step_new, rule step_benign [OF A], rule step_check [OF ptr],
        rule step_benign [OF S], rule step_benign [OF benign_record_trace [where live = live]], goal_cases)
      case (1 t1 t2 t3 t4)
      have b: "next_block (t1\<lparr>total_allocated_memory := k\<rparr>) = ?b" for k using 1(1) v(2) by simp
      have "view live t2 = ?v ?x" using same_viewD(12) [OF 1(2)] 1(1) t v(1,2,5) by simp
      then have v4: "view live t4 = ?v ?x" using 1(3,4) by (simp add: same_view_def)
      let ?y = "?x\<lparr>context_when_segment_allocated := ctx\<rparr>"
      let ?u = "t4\<lparr>heap := (heap t4)(?b \<mapsto> ?y)\<rparr>"
      have h4: "heap t4 = (heap s)(?b \<mapsto> ?x)" using viewD(1) [OF v4] by simp
      have vu: "view live ?u = ?v ?y" using v4 h4 by simp
      have "?Q (True, p\<lparr>p_block := Some ?b, p_err := supaSuccess\<rparr>) ?u"
        using new_segment [OF W lv n fr refl refl vu] by (simp add: search_post_def)
      then show ?case unfolding b using h4 by simp
    qed simp_all
  qed
  show ?thesis
    unfolding alloc_block_def Let_def
  proof (rule step_benign [OF G(2)], rule step_benign [OF keep.sometimes [OF S]], rule step_get, rule step_if, goal_cases)
    case (1 t1 t2)
    then have "same_view live s t2" using keep.trans by blast
    then show ?case using no by simp
  next
    case (2 t1 t2)
    have t: "same_view live s t2" using 2(1,2) keep.trans by blast
    show ?case
    proof (rule step_if, goal_cases)
      case 1 then show ?case using ex by simp
    next
      case 2
      show ?case
      proof (rule step_benign [OF benign_check_active_pool [where live = live]], goal_cases)
        case (1 t3)
        have t3: "same_view live s t3" using 1 t keep.trans by blast
        have "inv {} (evc (supa_events s)) (needs_events_deferred s) (view live s)" using W by (simp add: wf_def mid_def)
        then have rk: "ranges_ok (live (drv (world t3)))" using invD(2) same_viewD(6) [OF t3] by force
        have lv3: "pool_live (graph_pools t3) (p_pool p)" using lv same_viewD(5) [OF t3] by simp
        have "wp (supaMallocMaybeCapturing V ?n p) (\<lambda>r u. got live ?n s r u) ?E t3"
          by (rule wp_conseq [OF wp_supaMallocMaybeCapturing [OF mc rk oc lv3]]) (auto intro: got_before [OF t3])
        then show ?case
        proof (rule step_bind, goal_cases)
          case (1 r u)
          obtain err ptr where r: "r = (err, ptr)" by fastforce
          show ?case
            unfolding r prod.case
          proof (rule step_if, goal_cases)
            case 1
            then have u: "same_view live s u" using \<open>got live ?n s r u\<close> r by (simp add: got_def same_view_def)
            show ?case
            proof (rule step_if, rule step_benign_bind [OF G(1)], goal_cases)
              case (1 x w)
              then have "same_view live s w" using u keep.trans by blast
              then show ?case using no 1 by simp
            qed simp_all
          next
            case 2
            then have err: "err = supaSuccess" by simp
            have g: "fresh_range (live (drv (world s))) ptr ?n"
              "view live u = (view live s)\<lparr>v_live := insert (ptr, ?n) (live (drv (world s)))\<rparr>"
              using \<open>got live ?n s r u\<close> r err by (simp_all add: got_def)
            show ?case unfolding err by (rule new [OF g])
          qed
        qed
      qed simp
    qed
  qed simp_all
qed

end
