(* ===== verification/Malloc_Safety.thy ===== *)
theory Malloc_Safety
  imports Alloc_Safety
begin

text \<open>
  The rest of the allocation, \<^verbatim>\<open>alloc_found_block\<close> and \<^verbatim>\<open>malloc\<close>, and the other operations of a device
  allocator: each takes a well-formed state to a well-formed state and leaves the blocks in use alone.
\<close>

section \<open>Splitting the block that was found\<close>

text \<open>The statements of the split up to the insertion of the remaining part.\<close>

lemma wp_split_links:
  assumes sd: "links (heap s)" "positive (heap s)" and k: "heap s k = Some x" and b: "b = next_block s" "heap s b = None"
    and l: "l = (Block_ctor (p_device p) (p_stream p) (p_size p) (p_pool p) (b_ptr x))
        \<lparr>expandable_segment := expandable_segment x, b_prev := b_prev x, b_next := Some k\<rparr>"
    and r: "r = x\<lparr>b_prev := Some b, b_ptr := b_ptr x + p_size p, b_size := b_size x - p_size p\<rparr>"
    and Q: "wp (sx_bind (insert_into_blocks (p_pool p) k) (\<lambda>_. sx_ret b)) Q E
        (s\<lparr>next_block := Suc b, heap := split_into (heap s) k b l r\<rparr>)"
  shows "wp (split_block p k) Q E s"
proof -
  have bk: "b \<noteq> k" using k b by auto
  show ?thesis
  proof (cases "b_prev x")
    case None
    have "(heap s)(b \<mapsto> l, k \<mapsto> r) = split_into (heap s) k b l r"
    proof
      fix c show "((heap s)(b \<mapsto> l, k \<mapsto> r)) c = split_into (heap s) k b l r c"
        using k bk None by (cases "heap s c") (simp_all add: split_into_def front_def)
    qed
    then show ?thesis
      using Q k b bk None by (simp add: split_block_def l r)
  next
    case (Some q)
    obtain y where y: "heap s q = Some y" using links_prev [OF sd(1) k Some] by blast
    have qk: "q \<noteq> k" "q \<noteq> b" using prev_neq [OF sd k Some] y b by auto
    have "(heap s)(b \<mapsto> l, k \<mapsto> r, q \<mapsto> y\<lparr>b_next := Some b\<rparr>) = split_into (heap s) k b l r"
    proof
      fix c show "((heap s)(b \<mapsto> l, k \<mapsto> r, q \<mapsto> y\<lparr>b_next := Some b\<rparr>)) c = split_into (heap s) k b l r c"
        using k bk Some y qk by (cases "heap s c") (auto simp: split_into_def front_def)
    qed
    then show ?thesis
      using Q k b bk Some y qk by (simp add: split_block_def l r fun_upd_twist)
  qed
qed


definition split_post :: "('d \<Rightarrow> (nat \<times> nat) set) \<Rightarrow> AllocParams \<Rightarrow> Block \<Rightarrow> 'd dca \<Rightarrow> nat \<Rightarrow> 'd dca \<Rightarrow> bool" where
  "split_post live p x s b t \<longleftrightarrow> mid live {b} (needs_events_deferred t) t \<and> moves s t \<and> heap s b = None
     \<and> (\<exists>l. heap t b = Some l \<and> fits p l \<and> b_ptr l = b_ptr x \<and> b_size l = p_size p)"

text \<open>The remaining part goes back to the pool; its neighbours are in use.\<close>

lemma split_insert:
  assumes M: "mid live {b, k} Dl t" and r: "heap t k = Some r" "allocatable r" "b_pool r = q" and bk: "b \<noteq> k"
    and nb: "\<And>n y. b_next r = Some n \<or> b_prev r = Some n \<Longrightarrow> heap t n = Some y \<Longrightarrow> n \<noteq> b \<Longrightarrow> \<not> allocatable y"
    and act: "k \<notin> set (active_blocks t)"
    and u: "u = t\<lparr>heap := (heap t)(k \<mapsto> r\<lparr>gc_count_base := get_free_blocks_call_count (pools t q)\<rparr>),
         pools := (pools t)(q := (pools t q)\<lparr>blocks := set_insert BlockComparatorSize (bkey (heap t)) k (blocks (pools t q))\<rparr>)\<rparr>"
  shows "mid live {b} Dl u"
proof -
  have I: "inv {b, k} (evc (supa_events t)) Dl (view live t)" using M by (simp add: mid_def)
  note sd = inv_shape [OF I, simplified]
  let ?r = "r\<lparr>gc_count_base := get_free_blocks_call_count (pools t q)\<rparr>"
  let ?q = "set_insert BlockComparatorSize (bkey (heap t)) k (blocks (pools t q))"
  have "mapped ?r" "event_count ?r = int (evc (supa_events t) k)"
    using invD(3,7) [OF I] r(1) by (simp_all add: plain_heap_def plain_def ev_counts_def)
  then have I1: "inv {b, k} (evc (supa_events t)) Dl ((view live t)\<lparr>v_heap := (heap t)(k \<mapsto> ?r)\<rparr>)"
    using inv_set [OF I, of k r ?r "evc (supa_events t)"] r(1) by (simp add: skel_def)
  have bkey: "bkey ((heap t)(k \<mapsto> ?r)) = bkey (heap t)" by (rule bkey_gc [of "heap t" k r, OF r(1)])
  have nb': "\<not> allocatable y" if n: "b_next ?r = Some n \<or> b_prev ?r = Some n" "((heap t)(k \<mapsto> ?r)) n = Some y"
    "n \<notin> {b, k} - {k}" for n y
  proof -
    have "n \<noteq> k" using n(1) next_neq [OF sd(1,3) r(1)] prev_neq [OF sd(1,3) r(1)] by auto
    then show ?thesis using nb [of n y] n by simp
  qed
  have "allocatable ?r" using r by (simp add: allocatable_def)
  then have "inv ({b, k} - {k}) (evc (supa_events t)) Dl ((view live t)\<lparr>v_heap := (heap t)(k \<mapsto> ?r),
      v_active := filter (\<lambda>c. c \<noteq> k) (active_blocks t), v_pools := (pools t)(q := (pools t q)\<lparr>blocks := ?q\<rparr>)\<rparr>)"
    using inv_put_free(1) [OF I1, of k ?r q _ ?q, OF _ _ _ _ nb'] r(3) bkey by simp
  moreover have "filter (\<lambda>c. c \<noteq> k) (active_blocks t) = active_blocks t" using act by (auto simp: filter_id_conv)
  moreover have "{b, k} - {k} = {b}" using bk by blast
  ultimately have "inv {b} (evc (supa_events t)) Dl (view live u)"
    by (simp add: u inv_def)
  then show ?thesis using M by (simp add: mid_def u)
qed

lemma split_body:
  assumes "split_into h k b l r c = Some u" and "c \<noteq> b" and "c \<noteq> k"
  obtains u0 where "h c = Some u0" and "body u = body u0"
proof -
  obtain u0 where "h c = Some u0" "u = front b (the (h k)) c u0" using split_into_other [OF assms] by blast
  then show thesis using that by (simp add: front_def body_def)
qed

lemma split_keeps:
  assumes "h k = Some x" "\<not> allocated x" "h b = None" "\<not> allocated l" "\<not> allocated r" "\<not> allocated r'"
  shows "in_use ((split_into h k b l r)(k \<mapsto> r')) = in_use h"
proof
  fix c
  show "in_use ((split_into h k b l r)(k \<mapsto> r')) c = in_use h c"
    using assms by (cases "h c") (auto simp: in_use_def split_into_def front_def body_def)
qed

lemma wp_split_block:
  assumes C: "candidate live p k s" and x: "heap s k = Some x" and sz: "0 < p_size p" "p_size p < b_size x"
  shows "wp (split_block p k) (\<lambda>b t. split_post live p x s b t) (\<lambda>e _. benign_exn e) s"
proof -
  have M: "mid live {k} (needs_events_deferred s) s" and act: "k \<notin> set (active_blocks s)" and fx: "fits p x" and lo: "lone (heap s) x"
    using C x by (auto simp: candidate_def)
  have I: "inv {k} (evc (supa_events s)) (needs_events_deferred s) (view live s)" using M by (simp add: mid_def)
  note sd = inv_shape [OF I, simplified] and fx' = fx [unfolded fits_def]
  let ?b = "next_block s"
  have hb: "heap s ?b = None" using sd(4) by (cases "heap s ?b") (auto simp: bounded_def)
  have bk: "?b \<noteq> k" using hb x by auto
  define l where "l = (Block_ctor (p_device p) (p_stream p) (p_size p) (p_pool p) (b_ptr x))
        \<lparr>expandable_segment := expandable_segment x, b_prev := b_prev x, b_next := Some k\<rparr>"
  define r where "r = x\<lparr>b_prev := Some ?b, b_ptr := b_ptr x + p_size p, b_size := b_size x - p_size p\<rparr>"
  let ?t = "s\<lparr>next_block := Suc ?b, heap := split_into (heap s) k ?b l r\<rparr>"
  have pl: "mapped x" using invD(3) [OF I] x by (simp add: plain_heap_def plain_def)
  have "inv {?b, k} (evc (supa_events s)) (needs_events_deferred s) ((view live s)\<lparr>v_heap := split_into (heap s) k ?b l r, v_next := Suc ?b\<rparr>)"
    using inv_split [OF I refl, of ?b k x "p_size p" l r] x sz fx' pl by (simp add: l_def r_def Block_ctor_def skel_def)
  then have Mt: "mid live {?b, k} (needs_events_deferred ?t) ?t" using M by (simp add: mid_def inv_def)
  have ht: "heap ?t k = Some r" "heap ?t ?b = Some l" using bk by (simp_all add: split_into_def)
  have ar: "allocatable r" "b_pool r = p_pool p" using fx' by (simp_all add: r_def allocatable_def)
  have lv: "pool_live (graph_pools ?t) (p_pool p)" using inv_home [OF I, of k x] x fx' by simp
  let ?u = "?t\<lparr>heap := (heap ?t)(k \<mapsto> r\<lparr>gc_count_base := get_free_blocks_call_count (pools ?t (p_pool p))\<rparr>),
         pools := (pools ?t)(p_pool p := (pools ?t (p_pool p))\<lparr>blocks := set_insert BlockComparatorSize (bkey (heap ?t)) k (blocks (pools ?t (p_pool p)))\<rparr>)\<rparr>"
  have nb: "\<not> allocatable y" if n: "b_next r = Some n \<or> b_prev r = Some n" "heap ?t n = Some y" "n \<noteq> ?b" for n y
  proof -
    have nx: "b_next x = Some n" using n(1,3) by (simp add: r_def)
    then have "n \<noteq> k" using next_neq [OF sd(1,3) x] by blast
    then obtain y0 where y0: "heap s n = Some y0" "body y = body y0" using split_body [of "heap s" k ?b l r n y] n(2,3) by auto
    have "\<not> allocatable y0" using lo nx y0(1) by (simp add: lone_def)
    then show ?thesis using body_fields(10) [OF y0(2)] by simp
  qed
  have "mid live {?b} (needs_events_deferred ?t) ?u"
    using act by (intro split_insert [OF Mt ht(1) ar bk nb _ refl]) simp_all
  moreover have "moves s ?u"
    using fx' ar(1) by (simp add: moves_def keeps_def, intro split_keeps [OF x _ hb])
      (simp_all add: allocatable_def l_def Block_ctor_def)
  moreover have "fits p l" "b_ptr l = b_ptr x" "b_size l = p_size p"
    by (simp_all add: fits_def l_def Block_ctor_def allocatable_def)
  ultimately have "split_post live p x s ?b ?u" using hb bk ht(2) by (simp add: split_post_def)
  then have "wp (sx_bind (insert_into_blocks (p_pool p) k) (\<lambda>_. sx_ret ?b)) (\<lambda>b t. split_post live p x s b t) (\<lambda>e _. benign_exn e) ?t"
    unfolding wp_bind wp_insert_into_blocks [OF ht(1) lv] by simp
  then show ?thesis by (rule wp_split_links [OF sd(1,3) x refl hb l_def r_def])
qed

section \<open>Handing out the block\<close>

definition alloc_post :: "('d \<Rightarrow> (nat \<times> nat) set) \<Rightarrow> AllocParams \<Rightarrow> nat \<Rightarrow> 'd dca \<Rightarrow> nat \<Rightarrow> 'd dca \<Rightarrow> bool" where
  "alloc_post live p n s b t \<longleftrightarrow> wf live t \<and> captures_underway t = captures_underway s \<and> in_use (heap s) b = None
     \<and> (\<exists>x. heap t b = Some x \<and> in_use (heap t) = (in_use (heap s))(b \<mapsto> body x) \<and> allocated x \<and> requested_size x = n \<and> b_pool x = p_pool p \<and> b_stream x = p_stream p
          \<and> stream_uses x = [] \<and> p_size p \<le> b_size x)"

text \<open>The block becomes active.\<close>

lemma mid_activate:
  assumes M: "mid live {b} (needs_events_deferred s) s" and F: "freeable_ok s" and x: "heap s b = Some x" "fits p x"
    and y: "y = x\<lparr>allocated := True, requested_size := n, context_when_allocated := c\<rparr>"
    and t: "view live t = (view live s)\<lparr>v_heap := (heap s)(b \<mapsto> y),
      v_active := if b \<in> set (active_blocks s) then active_blocks s else active_blocks s @ [b]\<rparr>"
  shows "alloc_post live p n s b t"
proof -
  have I: "inv {b} (evc (supa_events s)) (needs_events_deferred s) (view live s)" using M by (simp add: mid_def)
  note v = viewD [OF t, simplified]
  have "mapped y" "event_count y = int (evc (supa_events s) b)"
    using invD(3,7) [OF I] x(1) by (simp_all add: y plain_heap_def plain_def ev_counts_def)
  then have I1: "inv {b} (evc (supa_events s)) (needs_events_deferred s) ((view live s)\<lparr>v_heap := (heap s)(b \<mapsto> y)\<rparr>)"
    using inv_set [OF I, of b x y "evc (supa_events s)"] x(1) by (simp add: skel_def y)
  have ya: "\<not> allocatable y" "\<not> waiting y" "evc (supa_events s) b = 0"
    using x invD(7) [OF I] by (simp_all add: y allocatable_def waiting_def fits_def ev_counts_def)
  have "distinct (active_blocks s)" using invD(5) [OF I] by (simp add: active_ok_def)
  then have "inv ({b} - {b}) (evc (supa_events s)) (needs_events_deferred s) ((view live s)\<lparr>v_heap := (heap s)(b \<mapsto> y),
      v_active := if b \<in> set (active_blocks s) then active_blocks s else active_blocks s @ [b]\<rparr>)"
    using inv_put_active [OF I1, of b y "if b \<in> set (active_blocks s) then active_blocks s else active_blocks s @ [b]"] ya
    by (simp add: insert_absorb)
  then have "inv {} (evc (supa_events s)) (needs_events_deferred s) (view live t)" unfolding t by simp
  then have "settled live t" using M v(7,8,11) by (simp add: mid_def)
  moreover have "freeable_ok t" using F v(5,9) by (simp add: freeable_ok_def)
  moreover have "in_use (heap s) b = None" using x by (simp add: in_use_def fits_def allocatable_def)
  ultimately show ?thesis using x v(1,10) by (simp add: alloc_post_def wf_def y fits_def allocatable_def in_use_upd)
qed

definition taken :: "('d \<Rightarrow> (nat \<times> nat) set) \<Rightarrow> AllocParams \<Rightarrow> 'd dca \<Rightarrow> nat \<Rightarrow> 'd dca \<Rightarrow> bool" where
  "taken live p s b t \<longleftrightarrow> mid live {b} (needs_events_deferred t) t \<and> freeable_ok t \<and> moves s t
     \<and> (\<exists>l. heap t b = Some l \<and> fits p l)"

lemma taken_view:
  assumes "taken live p s b t" and "same_view live t u"
  shows "taken live p s b u"
  using assms(1) mid_view [OF assms(2)] moves_trans [OF _ same_view_moves [OF assms(2)]]
    moves_freeable [OF same_view_moves [OF assms(2)]]
  unfolding taken_def same_viewD(1,7) [OF assms(2)] by blast

lemma wp_take_or_split:
  assumes C: "candidate live p k s" and x: "heap s k = Some x" and sp: "sp \<Longrightarrow> 0 < p_size p \<and> p_size p < b_size x"
  shows "wp (if sp then
             sx_bind (split_block p k) (\<lambda>b.
             sx_seq (sx_when pl (split_stats (p_stat_types p) sb (p_size p) (b_size x - p_size p)))
             (sx_ret b))
           else sx_seq (sx_when ub (unsplit_stats (p_stat_types p) (b_size x)))
             (sx_ret k)) (\<lambda>b t. taken live p s b t) (\<lambda>e _. benign_exn e) s"
proof -
  have B: "benign (same_view live) (sx_when pl (split_stats st sb n m))" "benign (same_view live) (sx_when ub (unsplit_stats st n))"
    for st n m unfolding split_stats_def unsplit_stats_def by (intro view_intros stats_intros)+
  have F: "freeable_ok s" using C by (simp add: candidate_def)
  show ?thesis
  proof (rule step_if, goal_cases)
    case 1
    have "wp (split_block p k) (\<lambda>b t. split_post live p x s b t) (\<lambda>e _. benign_exn e) s"
      using sp 1 by (intro wp_split_block [OF C x]) simp_all
    then show ?case
    proof (rule step_bind, rule_tac step_benign [OF B(1)], goal_cases)
      case (1 b t u)
      then have "taken live p s b t" using moves_freeable [OF _ F] by (auto simp: split_post_def taken_def)
      then show ?case using taken_view [of live p s b t u] 1 by simp
    qed simp
  next
    case 2
    show ?case
    proof (rule step_benign [OF B(2)], goal_cases)
      case (1 u)
      have "taken live p s k s" using C x by (auto simp: candidate_def taken_def fits_def allocatable_def)
      then show ?case using taken_view [OF _ 1] by simp
    qed simp
  qed
qed

lemma wp_alloc_found_block:
  assumes C: "candidate live p k s" and e: "p_err p = supaSuccess" "p_block p = Some k" and x: "heap s k = Some x"
    and sp: "sp \<Longrightarrow> 0 < p_size p \<and> p_size p < b_size x"
  shows "wp (alloc_found_block V p n ctx sp) (\<lambda>b t. alloc_post live p n s b t) (\<lambda>e _. benign_exn e) s"
proof -
  have B: "benign (same_view live) (alloc_stats V st sz rq)" for st sz rq
    unfolding alloc_stats_def by (intro view_intros stats_intros)
  have I: "inv {k} (evc (supa_events s)) (needs_events_deferred s) (view live s)" using C by (simp add: candidate_def mid_def)
  have "0 < b_ptr x" using inv_shape(3) [OF I] x by (simp add: positive_def)
  then have chk: "p_err p = supaSuccess \<and> b_ptr x \<noteq> 0" using e by simp
  show ?thesis
    unfolding alloc_found_block_def e(2) option.case Let_def
  proof (rule step_deref [OF x], rule step_check [OF chk], rule step_bind [OF wp_take_or_split [OF C x sp]], goal_cases)
    case (2 b t)
    then obtain l where l: "heap t b = Some l" "fits p l" by (auto simp: taken_def)
    let ?y = "l\<lparr>allocated := True, requested_size := n, context_when_allocated := ctx\<rparr>"
    let ?t = "t\<lparr>heap := (heap t)(b \<mapsto> ?y)\<rparr>"
    show ?case
    proof (rule step_setb [OF l(1)], rule step_deref [of ?t b ?y], simp,
        rule step_benign [OF benign_record_trace [where live = live]], rule step_mod, rule step_benign [OF B], goal_cases)
      case (1 t1 t2)
      have v1: "view live t1 = (view live t)\<lparr>v_heap := (heap t)(b \<mapsto> ?y)\<rparr>" using same_viewD(12) [OF 1(1)] by simp
      have a1: "active_blocks t1 = active_blocks t" using viewD(4) [OF v1] by simp
      have "view live t2 = (view live t)\<lparr>v_heap := (heap t)(b \<mapsto> ?y),
          v_active := if b \<in> set (active_blocks t) then active_blocks t else active_blocks t @ [b]\<rparr>"
        using same_viewD(12) [OF 1(2)] v1 a1 by simp
      then have "alloc_post live p n t b t2"
        using 2 by (intro mid_activate [OF _ _ l refl]) (simp_all add: taken_def)
      then have "alloc_post live p n s b t2" using 2 by (simp add: alloc_post_def taken_def moves_def keeps_def)
      then show ?case by simp
    qed simp_all
  qed simp
qed

section \<open>Allocation\<close>

text \<open>
  The settings under which the allocator is verified: segments of the driver, and no limit on splits.
  These are the settings of the constructor.
\<close>

definition supported :: "'d env \<Rightarrow> ('d \<Rightarrow> (nat \<times> nat) set) \<Rightarrow> bool" where
  "supported V live \<longleftrightarrow> memory_calls_ok (Drv V) live \<and> other_calls_ok (Drv V) live \<and> cxx_lib_ok (Lib V)
     \<and> config_ok (Cfg V) \<and> \<not> m_expandable_segments (Cfg V) \<and> m_max_split_size (Cfg V) = size_max"

lemma supportedD:
  assumes "supported V live"
  shows "memory_calls_ok (Drv V) live" and "other_calls_ok (Drv V) live" and "cxx_lib_ok (Lib V)"
    and "config_ok (Cfg V)" and "\<not> m_expandable_segments (Cfg V)" and "m_max_split_size (Cfg V) = size_max"
  using assms by (simp_all add: supported_def)

definition usable :: "AllocParams \<Rightarrow> 'd dca \<Rightarrow> bool" where
  "usable p s \<longleftrightarrow> pool_live (graph_pools s) (p_pool p) \<and> (captures_underway s = [] \<longrightarrow> owner_PrivatePool (p_pool p) = None)
     \<and> 0 < p_size p \<and> 0 < p_alloc_size p \<and> p_size p \<le> p_alloc_size p"

lemma usable_moves: "moves s t \<Longrightarrow> usable p s \<Longrightarrow> usable p t"
  using moves_live [of s t "p_pool p"] by (simp add: usable_def moves_def)

lemma usable_request: "request p q \<Longrightarrow> usable q s = usable p s"
  by (simp add: usable_def requestD)

lemma candidate_request: "request p q \<Longrightarrow> candidate live q b s = candidate live p b s"
  by (simp add: candidate_def fits_def requestD)

lemma search_trans:
  assumes q: "request p q" and "R'' s u" and r: "search_post live R' q t r u"
  shows "search_post live R'' p s r u"
  using assms(2) r request_trans [OF q] by (auto simp: search_post_def candidate_request [OF q] split: if_splits)

lemma search_not:
  assumes "search_post live R p s (False, q) t"
  shows "R s t" and "request p q" and "wf live t"
  using assms by (simp_all add: search_post_def)

lemma search_mono: "search_post live R p s r t \<Longrightarrow> (R s t \<Longrightarrow> R' s t) \<Longrightarrow> search_post live R' p s r t"
  by (simp add: search_post_def)

definition exhausted :: "'d env \<Rightarrow> 'd dca \<Rightarrow> 'd dca \<Rightarrow> bool" where
  "exhausted V s t \<longleftrightarrow> (chosen_pool V (0, 0) = (0, 0) \<longrightarrow> captures_underway s = [] \<longrightarrow> drained t)"

lemma drained_view:
  assumes "same_view live s t" and "drained s"
  shows "drained t"
  using assms(2) unfolding drained_def same_viewD(1,7,8) [OF assms(1)] .

lemma usable_live: "usable p s \<Longrightarrow> pool_live (graph_pools s) (p_pool p)"
  by (simp add: usable_def)

lemma wf_moves_view:
  assumes "wf live s" and "same_view live s t"
  shows "wf live t" and "moves s t"
proof -
  show "moves s t" by (rule same_view_moves [OF assms(2)])
  then show "wf live t"
    using assms(1) mid_view [OF assms(2)] same_viewD(7) [OF assms(2)] moves_freeable by (auto simp: wf_def)
qed

lemma wp_search_cache:
  assumes V: "supported V live" and W: "wf live s" and U: "usable p s" and e: "p_err p = supaSuccess"
  shows "wp (search_cache V p) (\<lambda>r t. search_post live moves p s r t) (\<lambda>e _. benign_exn e) s"
proof -
  have C: "benign (same_view live) (trigger_free_memory_callbacks V)"
    unfolding trigger_free_memory_callbacks_def by (intro benign_on_drv benign_run_callbacks supportedD [OF V])
  show ?thesis
    unfolding search_cache_def
  proof (rule step_bind [OF wp_get_free_block [OF W usable_live [OF U] e]], clarify, rule step_if, goal_cases)
    case (1 found q t)
    then show ?case by simp
  next
    case (2 found q t)
    then have n: "moves s t" "request p q" "wf live t" "p_err q = supaSuccess" using search_not [of live moves p s q t] by simp_all
    show ?case
    proof (rule step_benign_bind [OF C], rule step_if, goal_cases)
      case (1 freed u)
      note u = wf_moves_view [OF n(3) 1(1)]
      have su: "moves s u" using moves_trans [OF n(1) u(2)] .
      have "usable q u" using usable_moves [OF su U] usable_request [OF n(2)] by blast
      from wp_get_free_block [OF u(1) usable_live [OF this] n(4)]
      show ?case
      proof (rule wp_conseq, goal_cases)
        case (1 r w)
        then have "moves s w" using su moves_trans by (auto simp: search_post_def)
        then show ?case using search_trans [OF n(2), of moves s w live moves u r] 1 by blast
      qed simp
    next
      case (2 freed u)
      note u = wf_moves_view [OF n(3) 2(1)]
      show ?case using moves_trans [OF n(1) u(2)] n(2) u(1) by (simp add: search_post_def)
    qed simp
  qed
qed

lemma wp_obtain_block:
  assumes V: "supported V live" and W: "wf live s" and U: "usable p s"
  shows "wp (obtain_block V p ctx) (\<lambda>r t. search_post live sheds p s r t
      \<and> (\<not> fst r \<longrightarrow> p_err (snd r) = supaErrorMemoryAllocation \<and> exhausted V s t)) (\<lambda>e _. benign_exn e) s"
proof -
  note sv = supportedD [OF V]
  have A: "wp (alloc_block V q retry ctx) (\<lambda>r t. search_post live moves q t0 r t
      \<and> (\<not> fst r \<longrightarrow> p_err (snd r) = supaErrorMemoryAllocation \<and> same_view live t0 t)) (\<lambda>e _. benign_exn e) t0"
    if "wf live t0" "usable q t0" for q retry t0
    using that sv by (intro wp_alloc_block) (auto simp: usable_def)
  show ?thesis
    unfolding obtain_block_def
  proof (rule step_bind [OF A [OF W U]], clarify, rule step_if, goal_cases)
    case (1 found q t)
    then show ?case using search_mono [of live moves p s "(True, q)" t sheds] moves_sheds by auto
  next
    case (2 found q t)
    then have n: "moves s t" "request p q" "wf live t" "p_err q = supaErrorMemoryAllocation"
      using search_not [of live moves p s q t] by simp_all
    have no: "search_post live sheds p s (False, q) t" using n moves_sheds by (auto simp: search_post_def)
    have cs: "captures_underway t = captures_underway s" using n(1) by (simp add: moves_def)
    have rel: "wp (sx_bind (release_cached_blocks V ctx (0, 0)) (\<lambda>released.
           if released then alloc_block V q True ctx else sx_ret (False, q)))
        (\<lambda>r t. search_post live sheds p s r t \<and> (\<not> fst r \<longrightarrow> p_err (snd r) = supaErrorMemoryAllocation \<and> exhausted V s t))
        (\<lambda>e _. benign_exn e) t"
      if c: "captures_underway s = []"
    proof (rule step_bind [OF wp_release_cached_blocks [OF sv(1,2) n(3)]], goal_cases)
      case (1 r u)
      then have u: "r" "wf live u" "sheds t u" and dr: "chosen_pool V (0, 0) = (0, 0) \<longrightarrow> drained u" using c cs by simp_all
      have su: "sheds s u" using sheds_trans [OF moves_sheds [OF n(1)] u(3)] .
      have "usable p u" using U c su by (simp add: usable_def sheds_def pool_live_def)
      then have "usable q u" using usable_request [OF n(2)] by blast
      from A [OF u(2) this, of True]
      have "wp (alloc_block V q True ctx) (\<lambda>r t. search_post live sheds p s r t
          \<and> (\<not> fst r \<longrightarrow> p_err (snd r) = supaErrorMemoryAllocation \<and> exhausted V s t)) (\<lambda>e _. benign_exn e) u"
      proof (rule wp_conseq, goal_cases)
        case (1 r w)
        then have "sheds s w" using sheds_trans [OF su moves_sheds, of w] by (simp add: search_post_def)
        then show ?case
          using search_trans [OF n(2), of sheds s w live moves u r] 1 dr drained_view [of live u w] unfolding exhausted_def by blast
      qed simp
      then show ?case using u(1) by simp
    qed
    show ?case
      using no n(4) cs rel sv(6) exhausted_def [of V s t] by (simp add: release_available_cached_blocks_def wp_if)
  qed
qed

text \<open>Requests whose rounded size is a size.\<close>

definition request_ok :: "nat \<Rightarrow> bool" where
  "request_ok n \<longleftrightarrow> n + 2 ^ 22 \<le> 2 ^ 64"

lemma round_request:
  assumes V: "supported V live" and n: "request_ok n"
  obtains sz where "round_size (Lib V) (Cfg V) n = Inr sz" and "n \<le> sz" and "0 < sz"
    and "sz \<le> get_allocation_size sz" and "0 < get_allocation_size sz"
proof -
  let ?sz = "if n < 512 then 512 else 512 * ((n + 511) div 512)"
  have "n + 512 \<le> 2 ^ 64" using n by (simp add: request_ok_def)
  then have r: "round_size (Lib V) (Cfg V) n = Inr ?sz" by (rule round_size_value [OF supportedD(3,4) [OF V]])
  have b: "n \<le> ?sz" "?sz < n + 1024" "0 < ?sz" using round_up_bounds [of 512 n] by (auto split: if_splits)
  then have "?sz + kRoundLarge \<le> 2 ^ 64" using n by (simp add: request_ok_def kRoundLarge_def)
  from get_allocation_size_props(1,4) [OF this] show thesis using that [OF r b(1,3)] by blast
qed

lemma wp_get_pool:
  "wp (get_pool sz st) (\<lambda>pool t. t = s \<and> pool_live (graph_pools s) pool
      \<and> (captures_underway s = [] \<longrightarrow> owner_PrivatePool pool = None)) (\<lambda>e _. benign_exn e) s"
proof (cases "find (\<lambda>(i, flt). flt st) (captures_underway s)")
  case None
  then show ?thesis by (simp add: get_pool_def pool_live_def)
next
  case (Some c)
  obtain i flt where "c = (i, flt)" by fastforce
  then show ?thesis using Some by (auto simp: get_pool_def pool_live_def benign_exn_def fault_def)
qed

definition malloc_post :: "('d \<Rightarrow> (nat \<times> nat) set) \<Rightarrow> nat \<Rightarrow> nat \<Rightarrow> 'd dca \<Rightarrow> nat \<Rightarrow> 'd dca \<Rightarrow> bool" where
  "malloc_post live n st s b t \<longleftrightarrow> wf live t \<and> captures_underway t = captures_underway s \<and> in_use (heap s) b = None
     \<and> (\<exists>x. heap t b = Some x \<and> in_use (heap t) = (in_use (heap s))(b \<mapsto> body x) \<and> allocated x \<and> requested_size x = n \<and> b_stream x = st \<and> stream_uses x = [] \<and> n \<le> b_size x)"

definition malloc_exn :: "('d \<Rightarrow> (nat \<times> nat) set) \<Rightarrow> 'd env \<Rightarrow> 'd dca \<Rightarrow> exn \<Rightarrow> 'd dca \<Rightarrow> bool" where
  "malloc_exn live V s e t \<longleftrightarrow> benign_exn e \<or> (e = OutOfMemoryError \<and> wf live t \<and> sheds s t \<and> exhausted V s t)"

lemma malloc_exn_benign [simp]: "benign_exn e \<Longrightarrow> malloc_exn live V s e t"
  by (simp add: malloc_exn_def)

lemma wp_out_of_memory:
  assumes oc: "other_calls_ok (Drv V) live" and W: "wf live t" "sheds s t" "exhausted V s t" and e: "p_err p = supaErrorMemoryAllocation"
  shows "wp (out_of_memory V p ctx) Q (malloc_exn live V s) t"
proof -
  have B: "benign (same_view live) (on_drv (supa_check_out (supaMemGetInfo (Drv V))))"
    by (intro benign_on_drv benign_supa_check_out other_calls [OF oc])
  have S: "benign (same_view live) (on_stats (sx_mod f))" for f
    by (intro benign_on_stats) (simp add: benign_def)
  show ?thesis
    unfolding out_of_memory_def
  proof (rule step_check [OF e], rule step_benign_bind [OF B], clarify, rule step_benign [OF benign_record_trace [where live = live]],
      rule step_benign [OF S], goal_cases)
    case (1 df dt t1 t2 t3)
    then have v: "same_view live t t3" using keep.trans by blast
    note u = wf_moves_view [OF W(1) v]
    show ?case
      using u(1) sheds_trans [OF W(2) moves_sheds [OF u(2)]] W(3) drained_view [OF v] by (simp add: malloc_exn_def exhausted_def)
  qed simp_all
qed

lemma should_split_less:
  assumes "should_split V x n" and "0 < n"
  shows "n < b_size x"
  using assms by (auto simp: should_split_def Let_def kMinBlockSize_def kSmallSize_def split: if_splits)

text \<open>The end of an allocation: the block that was found is handed out, or memory has run out.\<close>

lemma wp_malloc_end:
  assumes V: "supported V live" and P: "search_post live sheds p s (found, q) t" and sz: "0 < p_size p" "n \<le> p_size p"
    and e: "\<not> found \<Longrightarrow> p_err q = supaErrorMemoryAllocation \<and> exhausted V s t"
  shows "wp (if \<not> found then out_of_memory V q ctx
      else (case p_block q of None \<Rightarrow> sx_throw UseAfterFree | Some b \<Rightarrow>
        sx_bind (deref b) (\<lambda>blk. alloc_found_block V q n ctx (should_split V blk (p_size q)))))
    (\<lambda>b u. malloc_post live n (p_stream p) s b u) (malloc_exn live V s) t"
proof (cases found)
  case False
  then have "wf live t" "sheds s t" using P by (simp_all add: search_post_def)
  then show ?thesis using False e by (simp add: wp_out_of_memory [OF supportedD(2) [OF V]])
next
  case True
  then have r: "request p q" and st: "sheds s t" and qe: "p_err q = supaSuccess" using P by (simp_all add: search_post_def)
  obtain b where b: "p_block q = Some b" "candidate live p b t" using True P by (auto simp: search_post_def)
  then have C: "candidate live q b t" using candidate_request [OF r] by blast
  obtain x where x: "heap t b = Some x" using C by (auto simp: candidate_def)
  note rd = requestD [OF r]
  have "wp (alloc_found_block V q n ctx (should_split V x (p_size q))) (\<lambda>b u. alloc_post live q n t b u) (\<lambda>e _. benign_exn e) t"
    using should_split_less sz rd by (intro wp_alloc_found_block [OF C qe b(1) x]) auto
  then have "wp (alloc_found_block V q n ctx (should_split V x (p_size q)))
      (\<lambda>b u. malloc_post live n (p_stream p) s b u) (malloc_exn live V s) t"
  proof (rule wp_conseq, goal_cases)
    case (1 c u)
    then show ?case using st rd sz(2) by (auto simp: alloc_post_def malloc_post_def sheds_def keeps_def)
  qed simp
  then show ?thesis using True b(1) x by simp
qed

lemma wp_malloc_search:
  assumes V: "supported V live" and W: "wf live s" and U: "usable p s" and e: "p_err p = supaSuccess" and n: "n \<le> p_size p"
  shows "wp (sx_bind (search_cache V p) (\<lambda>(found, p).
      sx_bind (if found then sx_ret (True, p)
        else sx_bind (sx_get (gc_enabled V)) (\<lambda>gc.
          sx_seq (sx_when gc (garbage_collect_cached_blocks V ctx)) (obtain_block V p ctx))) (\<lambda>(found, p).
      if \<not> found then out_of_memory V p ctx
      else (case p_block p of None \<Rightarrow> sx_throw UseAfterFree | Some b \<Rightarrow>
        sx_bind (deref b) (\<lambda>blk. alloc_found_block V p n ctx (should_split V blk (p_size p)))))))
    (\<lambda>b u. malloc_post live n (p_stream p) s b u) (malloc_exn live V s) s"
proof -
  note sv = supportedD [OF V]
  have sz: "0 < p_size p" using U by (simp add: usable_def)
  have "wp (search_cache V p) (\<lambda>r t. search_post live moves p s r t) (malloc_exn live V s) s"
    by (rule wp_conseq [OF wp_search_cache [OF V W U e]]) simp_all
  then show ?thesis
  proof (rule step_bind, clarify, rule_tac step_bind [where R = "\<lambda>r t. search_post live sheds p s r t
      \<and> (\<not> fst r \<longrightarrow> p_err (snd r) = supaErrorMemoryAllocation \<and> exhausted V s t)"], goal_cases)
    case (1 found q t)
    show ?case
    proof (rule step_if, goal_cases)
      case 1
      then have "search_post live sheds p s (True, q) t"
        using \<open>search_post live moves p s (found, q) t\<close> by (intro search_mono [of live moves p s "(True, q)" t sheds] moves_sheds) simp_all
      then show ?case by simp
    next
      case 2
      then have n: "moves s t" "request p q" "wf live t"
        using search_not [of live moves p s q t] \<open>search_post live moves p s (found, q) t\<close> by simp_all
      show ?case
      proof (rule step_get, rule step_seq [where R = "\<lambda>u. wf live u \<and> moves t u"], rule step_when, goal_cases)
        case 1
        have "settled live t" "freeable_ok t" using n(3) by (simp_all add: wf_def)
        from wp_garbage_collect [OF sv(1) this(1)] show ?case
          by (rule wp_conseq) (use moves_freeable [OF _ \<open>freeable_ok t\<close>] in \<open>auto simp: culled_def wf_def\<close>)
      next
        case 2 then show ?case using n(3) by simp
      next
        case (3 u)
        then have u: "wf live u" "moves t u" by simp_all
        have su: "moves s u" using moves_trans [OF n(1) u(2)] .
        have "usable q u" using usable_moves [OF su U] usable_request [OF n(2)] by blast
        from wp_obtain_block [OF V u(1) this]
        show ?case
        proof (rule wp_conseq, goal_cases)
          case (1 r w)
          then have "sheds s w" using sheds_trans [OF moves_sheds [OF su], of w] by (simp add: search_post_def)
          moreover have "captures_underway u = captures_underway s" using su by (simp add: moves_def)
          ultimately show ?case
            using search_trans [OF n(2), of sheds s w live sheds u r] 1 unfolding exhausted_def by metis
        qed simp
      qed
    qed
  next
    case (2 found q t r u)
    obtain f q' where r: "r = (f, q')" by fastforce
    have rq: "request p q'" using 2 r by (simp add: search_post_def)
    show ?case
      unfolding r prod.case
      by (rule wp_malloc_end [OF V _ sz n]) (use 2 r in auto)
  qed
qed

lemma wp_device_malloc:
  assumes V: "supported V live" and W: "wf live s" and n: "request_ok n"
  shows "wp (device_malloc V dev n st) (\<lambda>b t. malloc_post live n st s b t) (malloc_exn live V s) s"
proof -
  note sv = supportedD [OF V]
  obtain sz where r: "round_size (Lib V) (Cfg V) n = Inr sz" and b: "n \<le> sz" "0 < sz" "sz \<le> get_allocation_size sz"
    "0 < get_allocation_size sz" using round_request [OF V n] .
  have S: "settled live s" and F: "freeable_ok s" using W by (simp_all add: wf_def)
  have "wf live t \<and> moves s t" if "settled live t" "steady live s t" for t
    using that steady_moves [OF that(2)] moves_freeable [OF steady_moves [OF that(2)] F] by (simp add: wf_def)
  then have PE: "wp (process_events V ctx) (\<lambda>_ t. wf live t \<and> moves s t) (malloc_exn live V s) s" for ctx
    by (intro wp_conseq [OF wp_process_events [OF sv(2) S]]) (blast, simp)
  show ?thesis
    unfolding device_malloc_def maybeGatherContext_def Let_def r
  proof (rule step_get, rule step_get, rule step_seq [where R = "\<lambda>t. wf live t \<and> moves s t"], rule step_when, goal_cases)
    case 1 show ?case by (rule PE)
  next
    case 2 then show ?case using W by simp
  next
    case (3 t)
    then have t: "wf live t" "moves s t" by simp_all
    have GP: "wp (get_pool sz st) (\<lambda>pool u. u = t \<and> pool_live (graph_pools t) pool
        \<and> (captures_underway t = [] \<longrightarrow> owner_PrivatePool pool = None)) (malloc_exn live V s) t"
      by (rule wp_conseq [OF wp_get_pool]) simp_all
    show ?case
    proof (rule step_bind [where R = "\<lambda>r u. r = sz \<and> u = t"], goal_cases)
      case 1 then show ?case by (simp add: sx_lift_def)
    next
      case (2 r u)
      then have ru: "r = sz" "u = t" by simp_all
      show ?case
        unfolding ru
      proof (rule step_bind [OF GP], goal_cases)
        case (1 pool u)
        then have pl: "pool_live (graph_pools t) pool" "captures_underway t = [] \<longrightarrow> owner_PrivatePool pool = None" and u: "u = t"
          by simp_all
        let ?p = "AllocParams_ctor dev sz st pool (get_allocation_size sz)\<lparr>p_stat_types := get_stat_types_for_pool pool\<rparr>"
        have p: "usable ?p t" "p_err ?p = supaSuccess" "n \<le> p_size ?p" "p_stream ?p = st"
          using pl b by (simp_all add: AllocParams_ctor_def usable_def)
        show ?case
          unfolding u
        proof (rule wp_conseq [OF wp_malloc_search [OF V t(1) p(1,2,3)]], goal_cases)
          case (1 b u)
          then show ?case using p(4) t(2) by (auto simp: malloc_post_def moves_def keeps_def)
        next
          case (2 e u)
          then show ?case
            using sheds_trans [OF moves_sheds [OF t(2)]] t(2) by (auto simp: malloc_exn_def exhausted_def moves_def)
        qed
      qed
    qed
  qed
qed

end
