(* ===== verification/Device_Safety.thy ===== *)
theory Device_Safety
  imports Malloc_Safety
begin

text \<open>
  The remaining operations of a device allocator, the histories of operations a client can run, and
  the invariant over all reachable states: no history dereferences a deleted block, exceeds a loop
  bound or violates an assertion of the allocator about its own data structures.
\<close>

section \<open>Free\<close>

text \<open>The client gives up a block; its memory is free at once, or waits for events or a capture.\<close>

definition free_done :: "('d \<Rightarrow> (nat \<times> nat) set) \<Rightarrow> nat \<Rightarrow> 'd dca \<Rightarrow> 'd dca \<Rightarrow> bool" where
  "free_done live b s t \<longleftrightarrow> wf live t \<and> captures_underway t = captures_underway s
     \<and> in_use (heap t) = (in_use (heap s))(b := None)"

lemma wf_open:
  assumes W: "wf live s" and x: "heap s b = Some x" "allocated x"
    and t: "view live t = (view live s)\<lparr>v_heap := (heap s)(b \<mapsto> x\<lparr>allocated := False\<rparr>)\<rparr>"
  shows "mid live {b} (needs_events_deferred t) t" and "freeable_ok t" and "b \<in> set (active_blocks t)"
    and "in_use (heap t) = (in_use (heap s))(b := None)" and "evc (supa_events t) b = 0" and "event_count x = 0"
    and "captures_underway t = captures_underway s"
proof -
  have M: "settled live s" and F: "freeable_ok s" using W by (simp_all add: wf_def)
  have I: "inv {} (evc (supa_events s)) (needs_events_deferred s) (view live s)" using M by (simp add: mid_def)
  note v = viewD [OF t, simplified]
  have na: "\<not> allocatable x" using x(2) by (simp add: allocatable_def)
  have bD: "b \<notin> set (needs_events_deferred s)" using invD(8) [OF I] x by (auto simp: ev_status_def waiting_def)
  have "filter (\<lambda>c. c \<noteq> b) (needs_events_deferred s) = needs_events_deferred s" using bD by (auto simp: filter_id_conv)
  then have I1: "inv {b} (evc (supa_events s)) (needs_events_deferred s) (view live s)"
    using inv_open [OF I, of b x] x(1) na by simp
  let ?x = "x\<lparr>allocated := False\<rparr>"
  have ev: "evc (supa_events s) b = 0" using invD(8) [OF I] x by (auto simp: ev_status_def)
  have ec: "event_count x = 0" using invD(7) [OF I] x(1) ev by (simp add: ev_counts_def)
  have "mapped ?x" "event_count ?x = int (evc (supa_events s) b)"
    using invD(3) [OF I] x(1) ev ec by (simp_all add: plain_heap_def plain_def)
  then have "inv {b} (evc (supa_events s)) (needs_events_deferred s) (view live t)"
    unfolding t using inv_set [OF I1, of b x ?x "evc (supa_events s)"] x(1) by (simp add: skel_def)
  then show "mid live {b} (needs_events_deferred t) t" using M v by (simp add: mid_def)
  show "freeable_ok t" using F v by (simp add: freeable_ok_def)
  show "b \<in> set (active_blocks t)" using mid_active [OF M x(1) na] v by simp
  show "in_use (heap t) = (in_use (heap s))(b := None)" using v by (simp add: in_use_upd)
  show "evc (supa_events t) b = 0" "captures_underway t = captures_underway s" using ev v by simp_all
  show "event_count x = 0" by (rule ec)
qed

lemma wp_device_free:
  assumes V: "supported V live" and W: "wf live s" and x: "heap s b = Some x" "allocated x"
  shows "wp (device_free V b) (\<lambda>_ t. free_done live b s t) (\<lambda>e _. benign_exn e) s"
proof -
  note sv = supportedD [OF V]
  let ?x = "x\<lparr>allocated := False\<rparr>"
  have B: "benign (same_view live) (free_stats V pool sz)" for pool sz
    unfolding free_stats_def by (intro view_intros stats_intros)
  have O: "benign (same_view live) (sx_when c (on_stats (sx_field oversize_allocations oversize_allocations_update (update_stat (-1)))))" for c
    by (intro view_intros stats_intros)
  show ?thesis
    unfolding device_free_def maybeGatherContext_def
  proof (rule step_get, rule step_setb [OF x(1)], rule step_deref [of _ b ?x], simp, rule step_benign [OF B],
      rule step_benign [OF benign_record_trace [where live = live]], rule step_benign [OF O], goal_cases)
    case (1 t1 t2 t)
    then have "same_view live (s\<lparr>heap := (heap s)(b \<mapsto> ?x)\<rparr>) t" using keep.trans by blast
    from same_viewD(12) [OF this] have vt: "view live t = (view live s)\<lparr>v_heap := (heap s)(b \<mapsto> ?x)\<rparr>" by simp
    note o = wf_open [OF W x vt]
    have ht: "heap t b = Some ?x" using viewD(1) [OF vt] by simp
    show ?case
    proof (rule step_if, rule step_get, rule step_if, goal_cases)
      case 1
      then have "waiting ?x" by (simp add: waiting_def)
      then have "inv ({b} - {b}) (evc (supa_events t)) (needs_events_deferred t @ [b]) (view live t)"
        using o ht by (intro inv_defer) (auto simp: mid_def)
      then have "settled live (t\<lparr>needs_events_deferred := needs_events_deferred t @ [b]\<rparr>)" using o(1) by (simp add: mid_def)
      then show ?case using o by (simp add: free_done_def wf_def freeable_ok_def)
    next
      case 2
      have "\<not> allocated ?x" by simp
      from wp_insert_events [OF sv(2) o(1) ht this]
      show ?case
      proof (rule wp_conseq, goal_cases)
        case (1 r u)
        then obtain y where y: "heap u b = Some y" "\<not> allocated y" "stream_uses y = []" by (auto simp: ins_inv_def)
        have c: "calm live t u" and M: "mid live {b} (needs_events_deferred u) u" and a: "b \<in> set (active_blocks u)"
          using 1 o(3) by (auto simp: ins_inv_def calm_def)
        have I: "inv {b} (evc (supa_events u)) (needs_events_deferred u) (view live u)" using M by (simp add: mid_def)
        have "event_count y = int (evc (supa_events u) b)" using invD(7) [OF I] y(1) by (simp add: ev_counts_def)
        moreover have "0 < evc (supa_events u) b" using 1 2 by (cases "stream_uses x") auto
        ultimately have "inv {} (evc (supa_events u)) (needs_events_deferred u) (view live u)"
          using y a by (intro inv_stay [OF I, of y]) auto
        then have "settled live u" using M by (simp add: mid_def)
        moreover have "freeable_ok u" using moves_freeable [OF steady_moves [OF calm_steady [OF c]] o(2)] .
        ultimately show ?case using c o(4,7) by (simp add: free_done_def wf_def calm_def steady_def keeps_def)
      qed simp
    next
      case 3
      then have "allocatable ?x" using o(6) by (simp add: allocatable_def)
      moreover have "inv {b} (evc (supa_events t)) (needs_events_deferred t) (view live t)" using o(1) by (simp add: mid_def)
      ultimately have "wp (free_block b ctx) (\<lambda>_ u. calm live t u \<and> supa_events u = supa_events t
          \<and> inv {} (evc (supa_events t)) (needs_events_deferred t) (view live u)) (\<lambda>e _. benign_exn e) t" for ctx
        using ht by (intro wp_free_mid)
      then show ?case
      proof (rule wp_conseq, goal_cases)
        case (1 r u)
        then have "settled live u" using o(1) by (simp add: mid_def calm_def steady_def)
        moreover have "freeable_ok u" using 1 moves_freeable [OF steady_moves [OF calm_steady] o(2)] by blast
        ultimately show ?case using 1 o(4,7) by (simp add: free_done_def wf_def calm_def steady_def keeps_def)
      qed simp
    qed
  qed simp_all
qed

section \<open>Use on other streams\<close>

lemma wp_recordStream:
  assumes W: "wf live s" and x: "heap s b = Some x" "allocated x"
  shows "wp (recordStream b st) (\<lambda>_ t. wf live t \<and> captures_underway t = captures_underway s
      \<and> (\<exists>u. in_use (heap t) = (in_use (heap s))(b \<mapsto> body (x\<lparr>stream_uses := u\<rparr>)))) (\<lambda>e _. False) s"
proof -
  let ?u = "if st \<in> set (stream_uses x) then stream_uses x else stream_uses x @ [st]"
  let ?x = "x\<lparr>stream_uses := ?u\<rparr>"
  let ?t = "s\<lparr>heap := (heap s)(b \<mapsto> ?x)\<rparr>"
  have M: "settled live s" and F: "freeable_ok s" using W by (simp_all add: wf_def)
  have I: "inv {} (evc (supa_events s)) (needs_events_deferred s) (view live s)" using M by (simp add: mid_def)
  have na: "\<not> allocatable x" using x(2) by (simp add: allocatable_def)
  have bD: "b \<notin> set (needs_events_deferred s)" using invD(8) [OF I] x by (auto simp: ev_status_def waiting_def)
  have "filter (\<lambda>c. c \<noteq> b) (needs_events_deferred s) = needs_events_deferred s" using bD by (auto simp: filter_id_conv)
  then have I1: "inv {b} (evc (supa_events s)) (needs_events_deferred s) (view live s)"
    using inv_open [OF I, of b x] x(1) na by simp
  have ev: "evc (supa_events s) b = 0" using invD(8) [OF I] x by (auto simp: ev_status_def)
  have "mapped ?x" "event_count ?x = int (evc (supa_events s) b)"
    using invD(3,7) [OF I] x(1) by (simp_all add: plain_heap_def plain_def ev_counts_def)
  then have I2: "inv {b} (evc (supa_events s)) (needs_events_deferred s) (view live ?t)"
    using inv_set [OF I1, of b x ?x "evc (supa_events s)"] x(1) by (simp add: skel_def)
  have "inv ({b} - {b}) (evc (supa_events s)) (needs_events_deferred s) ((view live ?t)\<lparr>v_active := active_blocks s\<rparr>)"
    using x ev invD(5) [OF I] mid_active [OF M x(1) na]
    by (intro inv_put_active [OF I2, of b ?x]) (auto simp: allocatable_def waiting_def active_ok_def)
  then have "settled live ?t" using M by (simp add: mid_def inv_def)
  moreover have "freeable_ok ?t" using F by (simp add: freeable_ok_def)
  ultimately have W': "wf live ?t" by (simp add: wf_def)
  have "in_use (heap s) = (in_use (heap s))(b \<mapsto> body (x\<lparr>stream_uses := stream_uses x\<rparr>))"
    using x by (auto simp: in_use_def fun_eq_iff)
  then have "\<exists>u. in_use (heap s) = (in_use (heap s))(b \<mapsto> body (x\<lparr>stream_uses := u\<rparr>))" by blast
  moreover have "\<exists>u. in_use (heap ?t) = (in_use (heap s))(b \<mapsto> body (x\<lparr>stream_uses := u\<rparr>))"
    using x by (intro exI [of _ ?u]) (simp add: in_use_upd)
  ultimately show ?thesis using W W' x(1) by (simp add: recordStream_def wp_if)
qed

section \<open>Private pools and captures\<close>

lemma inv_gpools:
  assumes I: "inv X Ev Dl v" and g: "gp_ok (v_heap v) g"
  shows "inv X Ev Dl (v\<lparr>v_gpools := g\<rparr>)"
  using invD [OF I] g by (simp add: inv_def)

lemma map_of_upd:
  "map_of (map (\<lambda>(k, v). if k = i then (k, g v) else (k, v)) kvs) j = (if j = i then map_option g (map_of kvs j) else map_of kvs j)"
  by (induction kvs) auto

lemma upd_fst: "map fst (map (\<lambda>(k, v). if k = i then (k, g v) else (k, v)) kvs) = map fst kvs"
  by (induction kvs) auto

lemma gp_use_count:
  assumes "gp_ok h gps" and g: "\<And>pp. supaMalloc_count (g pp) = supaMalloc_count pp"
  shows "gp_ok h (map (\<lambda>(k, pp). if k = i then (k, g pp) else (k, pp)) gps)" (is "gp_ok h ?g")
  unfolding gp_ok_def
proof (intro conjI allI impI)
  show "distinct (map fst ?g)" using assms(1) unfolding upd_fst by (simp add: gp_ok_def)
  show "pool_live ?g (b_pool x)" if "h b = Some x" for b x
    using that assms(1) pool_live_fst [OF upd_fst, of i g gps] by (simp add: gp_ok_def)
  fix j pp assume "(j, pp) \<in> set ?g"
  then obtain pp0 where "(j, pp0) \<in> set gps" "supaMalloc_count pp = supaMalloc_count pp0"
    using g by (auto split: if_splits)
  then show "supaMalloc_count pp = int (card (heads h j))" using assms(1) unfolding gp_ok_def by metis
qed

lemma use_counts_set:
  "map_of (use_counts (map (\<lambda>(k, pp). if k = i then (k, pp\<lparr>use_count := f pp\<rparr>) else (k, pp)) gps)) j
     = (if j = i then map_option f (map_of gps i) else map_of (use_counts gps) j)"
  unfolding use_counts_map_of map_of_upd by (simp add: option.map_comp comp_def)

lemma wf_use_count:
  assumes W: "wf live s" and t: "t = s\<lparr>graph_pools := map (\<lambda>(k, pp). if k = i then (k, pp\<lparr>use_count := f pp\<rparr>) else (k, pp)) (graph_pools s)\<rparr>"
  shows "settled live t" and "i \<notin> set (graph_pools_freeable s) \<Longrightarrow> freeable_ok t"
proof -
  have M: "settled live s" and F: "freeable_ok s" using W by (simp_all add: wf_def)
  have I: "inv {} (evc (supa_events s)) (needs_events_deferred s) (view live s)" using M by (simp add: mid_def)
  have "gp_ok (heap s) (graph_pools t)"
    unfolding t using gp_use_count [of "heap s" "graph_pools s" "\<lambda>pp. pp\<lparr>use_count := f pp\<rparr>" i] invD(9) [OF I] by simp
  from inv_gpools [OF I, simplified, OF this]
  show "settled live t" using M by (simp add: mid_def t)
  assume "i \<notin> set (graph_pools_freeable s)"
  then show "freeable_ok t" using F unfolding t by (auto simp: freeable_ok_def use_counts_set)
qed

lemma no_blocks:
  assumes I: "inv X Ev Dl v" and i: "i \<notin> fst ` set (v_gpools v)" and x: "v_heap v b = Some x"
  shows "owner_PrivatePool (b_pool x) \<noteq> Some i"
  using inv_home [OF I x] i by (auto simp: pool_live_def)

lemma wf_new_pool:
  assumes W: "wf live s" and i: "i \<notin> fst ` set (graph_pools s)"
    and t: "t = s\<lparr>graph_pools := graph_pools s @ [(i, PrivatePool_ctor a)],
         pools := (pools s)(Private i True := BlockPool_ctor, Private i False := BlockPool_ctor)\<rparr>"
  shows "wf live t"
proof -
  have M: "settled live s" and F: "freeable_ok s" using W by (simp_all add: wf_def)
  have I: "inv {} (evc (supa_events s)) (needs_events_deferred s) (view live s)" using M by (simp add: mid_def)
  note no = no_blocks [OF I, simplified, OF i]
  have own: "owner_PrivatePool (Private i b) = Some i" for b by simp
  have "free_in {} (heap s) (Private i b) = {}" for b using no own by (force simp: free_in_def)
  then have P: "pools_ok {} (heap s) (pools t)"
    using invD(4) [OF I] by (auto simp: pools_ok_def pool_ok_def t BlockPool_ctor_def ordered_def)
  have h: "heads (heap s) i = {}" using no by (auto simp: heads_def)
  have "pool_live (graph_pools s @ g) p" if "pool_live (graph_pools s) p" for g p
    using that by (auto simp: pool_live_def split: option.splits)
  then have G: "gp_ok (heap s) (graph_pools t)"
    using invD(9) [OF I] i h by (auto simp: gp_ok_def t PrivatePool_ctor_def)
  have "inv {} (evc (supa_events s)) (needs_events_deferred s) (view live t)"
    using invD [OF I] P G by (simp add: inv_def t)
  then have "settled live t" using M by (simp add: mid_def t)
  moreover have "freeable_ok t" using F by (auto simp: freeable_ok_def t use_counts_def map_add_def)
  ultimately show ?thesis by (simp add: wf_def)
qed

text \<open>Operations on pools touch no block.\<close>

definition same_use :: "('d \<Rightarrow> (nat \<times> nat) set) \<Rightarrow> 'd dca \<Rightarrow> 'd dca \<Rightarrow> bool" where
  "same_use live s t \<longleftrightarrow> wf live t \<and> in_use (heap t) = in_use (heap s)"

lemma wp_create_or_incref_pool:
  assumes W: "wf live s"
  shows "wp (create_or_incref_pool i a) (\<lambda>_ t. same_use live s t) (\<lambda>e _. benign_exn e) s"
proof (cases "map_of (graph_pools s) i")
  case None
  then have "i \<notin> fst ` set (graph_pools s)" by (simp add: map_of_eq_None_iff)
  from wf_new_pool [OF W this refl, of a]
  show ?thesis using None by (simp add: create_or_incref_pool_def same_use_def)
next
  case (Some pp)
  have i: "i \<in> fst ` set (graph_pools s)" using map_of_SomeD [OF Some] by force
  let ?t = "s\<lparr>graph_pools := map (\<lambda>(k, pp). if k = i then (k, pp\<lparr>use_count := use_count pp + 1\<rparr>) else (k, pp)) (graph_pools s)\<rparr>"
  have "i \<notin> set (graph_pools_freeable s)" if "0 < use_count pp"
    using W that Some by (auto simp: wf_def freeable_ok_def use_counts_map_of)
  then have "same_use live s ?t" if "0 < use_count pp"
    using wf_use_count [OF W, of ?t i "\<lambda>pp. use_count pp + 1"] that by (simp add: same_use_def wf_def)
  then show ?thesis
    using Some i by (simp add: create_or_incref_pool_def upd_private_pool_def benign_exn_def fault_def)
qed

lemma wf_captures [simp]: "wf live (s\<lparr>captures_underway := cs\<rparr>) = wf live s"
  by (simp add: wf_def mid_def freeable_ok_def)

lemma wp_beginAllocateToPool:
  assumes W: "wf live s"
  shows "wp (beginAllocateToPool i flt) (\<lambda>_ t. same_use live s t) (\<lambda>e _. benign_exn e) s"
  unfolding beginAllocateToPool_def
  by (rule step_seq [OF wp_create_or_incref_pool [OF W]]) (simp add: same_use_def)

lemma wp_endAllocateToPool:
  assumes W: "wf live s"
  shows "wp (endAllocateToPool i) (\<lambda>_ t. same_use live s t) (\<lambda>e _. benign_exn e) s"
  using W by (simp add: endAllocateToPool_def same_use_def split: option.splits)

lemma wp_releasePool:
  assumes W: "wf live s"
  shows "wp (releasePool i) (\<lambda>_ t. same_use live s t) (\<lambda>e _. benign_exn e) s"
proof (cases "map_of (graph_pools s) i")
  case None
  then show ?thesis by (simp add: releasePool_def get_private_pool_def benign_exn_def fault_def)
next
  case (Some pp)
  have i: "i \<in> fst ` set (graph_pools s)" using map_of_SomeD [OF Some] by force
  let ?t = "s\<lparr>graph_pools := map (\<lambda>(k, pp). if k = i then (k, pp\<lparr>use_count := use_count pp - 1\<rparr>) else (k, pp)) (graph_pools s)\<rparr>"
  note w = wf_use_count [OF W, of ?t i "\<lambda>pp. use_count pp - 1", OF refl]
  have nf: "i \<notin> set (graph_pools_freeable s)" if "1 \<le> use_count pp"
    using W that Some by (auto simp: wf_def freeable_ok_def use_counts_map_of)
  have "freeable_ok (?t\<lparr>graph_pools_freeable := graph_pools_freeable s @ [i]\<rparr>)" if "use_count pp = 1"
    using W nf that Some by (auto simp: wf_def freeable_ok_def use_counts_set)
  then have "same_use live s (?t\<lparr>graph_pools_freeable := graph_pools_freeable s @ [i]\<rparr>)" if "use_count pp = 1"
    using w(1) that by (simp add: same_use_def wf_def mid_def)
  moreover have "same_use live s ?t" if "1 \<le> use_count pp" using w nf that by (simp add: same_use_def wf_def)
  ultimately show ?thesis
    using Some i nf
    by (simp add: releasePool_def get_private_pool_def upd_private_pool_def wp_if Let_def)
      (simp add: benign_exn_def fault_def)
qed

section \<open>Limits and the cache\<close>

lemma wf_view: "wf live s \<Longrightarrow> same_view live s t \<Longrightarrow> same_use live s t"
  using wf_moves_view(1) [of live s t] same_viewD(1) [of live s t] by (simp add: same_use_def)

lemma wp_setMemoryFraction:
  assumes V: "supported V live" and W: "wf live s"
  shows "wp (setMemoryFraction V r) (\<lambda>_ t. same_use live s t) (\<lambda>e _. benign_exn e) s"
proof -
  have "benign (same_view live) (setMemoryFraction V r)"
    unfolding setMemoryFraction_def
    by (auto intro!: keep_intros benign_on_drv benign_supa_check_out other_calls [OF supportedD(2) [OF V]] benign_state_update
        simp: view_def)
  then show ?thesis by (rule benign_step) (use wf_view [OF W] in auto)
qed

lemma wp_emptyCache:
  assumes V: "supported V live" and W: "wf live s"
  shows "wp (emptyCache V i) (\<lambda>_ t. same_use live s t
      \<and> (chosen_pool V i = (0, 0) \<longrightarrow> captures_underway s = [] \<longrightarrow> drained t)) (\<lambda>e _. benign_exn e) s"
  unfolding emptyCache_def maybeGatherContext_def
proof (rule step_get, rule step_bind [OF wp_release_cached_blocks [OF supportedD(1,2) [OF V] W]], goal_cases)
  case (1 r t)
  then show ?case by (auto simp: same_use_def sheds_def keeps_def)
qed

section \<open>Histories\<close>

text \<open>The operations a client can call, and what it owes: it frees and uses only blocks it holds.\<close>

datatype op =
    Malloc int nat nat
  | Free nat
  | RecordStream nat stream_ref
  | EmptyCache mempool_id
  | SetMemoryFraction rat
  | CreatePool mempool_id "nat option"
  | BeginAllocate mempool_id "nat \<Rightarrow> bool"
  | EndAllocate mempool_id
  | ReleasePool mempool_id

primrec run_op :: "'d env \<Rightarrow> op \<Rightarrow> ('d, nat) dx" where
  "run_op V (Malloc dev n st) = device_malloc V dev n st"
| "run_op V (Free b) = sx_seq (device_free V b) (sx_ret 0)"
| "run_op V (RecordStream b st) = sx_seq (recordStream b st) (sx_ret 0)"
| "run_op V (EmptyCache i) = sx_seq (emptyCache V i) (sx_ret 0)"
| "run_op V (SetMemoryFraction r) = sx_seq (setMemoryFraction V r) (sx_ret 0)"
| "run_op V (CreatePool i a) = sx_seq (createOrIncrefPool i a) (sx_ret 0)"
| "run_op V (BeginAllocate i flt) = sx_seq (beginAllocateToPool i flt) (sx_ret 0)"
| "run_op V (EndAllocate i) = sx_seq (endAllocateToPool i) (sx_ret 0)"
| "run_op V (ReleasePool i) = sx_seq (releasePool i) (sx_ret 0)"

fun op_ok :: "op \<Rightarrow> 'd dca \<Rightarrow> bool" where
  "op_ok (Malloc dev n st) s = request_ok n"
| "op_ok (Free b) s = (in_use (heap s) b \<noteq> None)"
| "op_ok (RecordStream b st) s = (in_use (heap s) b \<noteq> None)"
| "op_ok _ s = True"

text \<open>
  The abstract allocator: a map from the blocks the client holds to their address ranges and streams.
  An allocation adds a range that is large enough and overlaps no other, a free removes one, and
  nothing else changes the map.
\<close>

type_synonym holdings = "nat \<Rightarrow> (nat \<times> nat \<times> nat) option"

inductive spec :: "op \<Rightarrow> nat \<Rightarrow> holdings \<Rightarrow> holdings \<Rightarrow> bool" where
  spec_malloc: "A b = None \<Longrightarrow> n \<le> z \<Longrightarrow> 0 < z \<Longrightarrow> 0 < p \<Longrightarrow>
    (\<And>c q w k. A c = Some (q, w, k) \<Longrightarrow> span p z \<inter> span q w = {}) \<Longrightarrow>
    spec (Malloc dev n st) b A (A(b \<mapsto> (p, z, st)))"
| spec_free: "A b \<noteq> None \<Longrightarrow> spec (Free b) 0 A (A(b := None))"
| spec_keep: "\<forall>dev n st. o1 \<noteq> Malloc dev n st \<Longrightarrow> \<forall>b. o1 \<noteq> Free b \<Longrightarrow> spec o1 0 A A"

definition holds :: "'d dca \<Rightarrow> holdings" where
  "holds s b = map_option (\<lambda>x. (b_ptr x, b_size x, b_stream x)) (in_use (heap s) b)"

lemma holds_upd: "in_use (heap t) = (in_use (heap s))(b \<mapsto> body x) \<Longrightarrow> holds t = (holds s)(b \<mapsto> (b_ptr x, b_size x, b_stream x))"
  by (auto simp: holds_def body_def)

lemma holds_drop: "in_use (heap t) = (in_use (heap s))(b := None) \<Longrightarrow> holds t = (holds s)(b := None)"
  by (auto simp: holds_def)

lemma holds_same: "in_use (heap t) = in_use (heap s) \<Longrightarrow> holds t = holds s"
  by (auto simp: holds_def)

lemma wf_inv: "wf live s \<Longrightarrow> inv {} (evc (supa_events s)) (needs_events_deferred s) (view live s)"
  by (simp add: wf_def mid_def)

lemma in_useD:
  assumes "in_use h b = Some y"
  obtains x where "h b = Some x" and "allocated x" and "y = body x"
  using assms by (auto simp: in_use_def split: option.splits if_splits)

lemma holds_apart:
  assumes W: "wf live s" and b: "holds s b = Some (p, z, k)" and c: "holds s c = Some (q, w, l)" and bc: "b \<noteq> c"
  shows "span p z \<inter> span q w = {}"
proof -
  obtain x y where "heap s b = Some x" "heap s c = Some y" "b_ptr x = p" "b_size x = z" "b_ptr y = q" "b_size y = w"
    using b c by (auto simp: holds_def body_def elim!: in_useD)
  moreover have "apart (heap s)" using inv_shape(2) [OF wf_inv [OF W]] by simp
  ultimately show ?thesis using bc unfolding apart_def by metis
qed

lemma malloc_spec:
  assumes "malloc_post live n st s b t"
  shows "spec (Malloc dev n st) b (holds s) (holds t)"
proof -
  obtain x where x: "heap t b = Some x" "in_use (heap t) = (in_use (heap s))(b \<mapsto> body x)" "n \<le> b_size x" "b_stream x = st"
    and W: "wf live t" and b: "in_use (heap s) b = None" using assms by (auto simp: malloc_post_def)
  have ht: "holds t = (holds s)(b \<mapsto> (b_ptr x, b_size x, st))" using holds_upd [OF x(2)] x(4) by simp
  have pos: "0 < b_size x" "0 < b_ptr x" using inv_shape(3) [OF wf_inv [OF W]] x(1) by (auto simp: positive_def)
  have "span (b_ptr x) (b_size x) \<inter> span q w = {}" if c: "holds s c = Some (q, w, k)" for c q w k
  proof (rule holds_apart [OF W])
    show "holds t b = Some (b_ptr x, b_size x, st)" using ht by simp
    have "c \<noteq> b" using c b by (auto simp: holds_def)
    then show "holds t c = Some (q, w, k)" "b \<noteq> c" using c ht by auto
  qed
  moreover have "holds s b = None" using b by (simp add: holds_def)
  ultimately show ?thesis unfolding ht using x(3) pos by (intro spec_malloc)
qed

text \<open>Every operation keeps the invariant, is a step of the abstract allocator, and does not fault.\<close>

definition op_post :: "('d \<Rightarrow> (nat \<times> nat) set) \<Rightarrow> op \<Rightarrow> 'd dca \<Rightarrow> nat \<Rightarrow> 'd dca \<Rightarrow> bool" where
  "op_post live q s r t \<longleftrightarrow> wf live t \<and> spec q r (holds s) (holds t)"

text \<open>Only an allocation can report that memory has run out.\<close>

definition op_exn :: "('d \<Rightarrow> (nat \<times> nat) set) \<Rightarrow> 'd env \<Rightarrow> op \<Rightarrow> 'd dca \<Rightarrow> exn \<Rightarrow> 'd dca \<Rightarrow> bool" where
  "op_exn live V q s e t \<longleftrightarrow> malloc_exn live V s e t \<and> (e = OutOfMemoryError \<longrightarrow> (\<exists>dev n st. q = Malloc dev n st))"

lemma op_exn_benign [simp]: "benign_exn e \<Longrightarrow> op_exn live V q s e t"
  by (auto simp: op_exn_def)

lemma same_use_post:
  assumes "same_use live s t" and "\<forall>dev n st. q \<noteq> Malloc dev n st" and "\<forall>b. q \<noteq> Free b"
  shows "op_post live q s 0 t"
  using assms holds_same [of t s] by (auto simp: op_post_def same_use_def intro: spec_keep)

lemma wp_unit_op:
  assumes "wp m (\<lambda>_ t. same_use live s t) (\<lambda>e _. benign_exn e) s" and "\<forall>dev n st. q \<noteq> Malloc dev n st" and "\<forall>b. q \<noteq> Free b"
  shows "wp (sx_seq m (sx_ret 0)) (\<lambda>r t. op_post live q s r t) (op_exn live V q s) s"
  unfolding wp_seq wp_ret by (rule wp_conseq [OF assms(1)]) (use same_use_post assms(2,3) in auto)

lemma wp_run_op:
  assumes V: "supported V live" and W: "wf live s" and q: "op_ok q s"
  shows "wp (run_op V q) (\<lambda>r t. op_post live q s r t) (op_exn live V q s) s"
proof (cases q)
  case (Malloc dev n st)
  have "request_ok n" using q Malloc by simp
  from wp_device_malloc [OF V W this]
  show ?thesis
    unfolding Malloc run_op.simps by (rule wp_conseq) (auto simp: op_post_def op_exn_def malloc_spec malloc_post_def)
next
  case (Free b)
  then obtain x where x: "heap s b = Some x" "allocated x" using q by (auto elim: in_useD)
  have h: "holds s b \<noteq> None" using Free q by (auto simp: holds_def)
  show ?thesis
    unfolding Free run_op.simps wp_seq wp_ret
  proof (rule wp_conseq [OF wp_device_free [OF V W x]], goal_cases)
    case (1 r t)
    then have "holds t = (holds s)(b := None)" by (intro holds_drop) (simp add: free_done_def)
    then show ?case using 1 spec_free [of "holds s" b, OF h] by (simp add: op_post_def free_done_def)
  qed simp
next
  case (RecordStream b st)
  then obtain x where x: "heap s b = Some x" "allocated x" using q by (auto elim: in_useD)
  have h: "holds s b = Some (b_ptr x, b_size x, b_stream x)" using x by (simp add: holds_def in_use_def body_def)
  show ?thesis
    unfolding RecordStream run_op.simps wp_seq wp_ret
  proof (rule wp_conseq [OF wp_recordStream [OF W x]], goal_cases)
    case (1 r t)
    then obtain u where "in_use (heap t) = (in_use (heap s))(b \<mapsto> body (x\<lparr>stream_uses := u\<rparr>))" by blast
    from holds_upd [OF this] have "holds t = holds s" using h by (auto simp: fun_eq_iff)
    then show ?case using 1 by (auto simp: op_post_def intro: spec_keep)
  qed simp
next
  case (EmptyCache i)
  have "wp (emptyCache V i) (\<lambda>_ t. same_use live s t) (\<lambda>e _. benign_exn e) s"
    by (rule wp_conseq [OF wp_emptyCache [OF V W]]) auto
  then show ?thesis unfolding EmptyCache run_op.simps by (rule wp_unit_op) simp_all
next
  case (SetMemoryFraction r)
  show ?thesis unfolding SetMemoryFraction run_op.simps by (rule wp_unit_op [OF wp_setMemoryFraction [OF V W]]) simp_all
next
  case (CreatePool i a)
  show ?thesis
    unfolding CreatePool run_op.simps createOrIncrefPool_def by (rule wp_unit_op [OF wp_create_or_incref_pool [OF W]]) simp_all
next
  case (BeginAllocate i flt)
  show ?thesis unfolding BeginAllocate run_op.simps by (rule wp_unit_op [OF wp_beginAllocateToPool [OF W]]) simp_all
next
  case (EndAllocate i)
  show ?thesis unfolding EndAllocate run_op.simps by (rule wp_unit_op [OF wp_endAllocateToPool [OF W]]) simp_all
next
  case (ReleasePool i)
  show ?thesis unfolding ReleasePool run_op.simps by (rule wp_unit_op [OF wp_releasePool [OF W]]) simp_all
qed

section \<open>Reachable states\<close>

text \<open>
  A history starts with the constructor on an unused device and goes on with calls that return or
  report that memory has run out.
\<close>

inductive reachable :: "'d env \<Rightarrow> 'd world \<Rightarrow> 'd dca \<Rightarrow> bool" for V w where
  reach_start: "reachable V w (DeviceCachingAllocator_ctor V w)"
| reach_return: "reachable V w s \<Longrightarrow> op_ok q s \<Longrightarrow> run_op V q s = (Inr r, t) \<Longrightarrow> reachable V w t"
| reach_oom: "reachable V w s \<Longrightarrow> op_ok q s \<Longrightarrow> run_op V q s = (Inl OutOfMemoryError, t) \<Longrightarrow> reachable V w t"

inductive_cases spec_mallocE: "spec (Malloc dev n st) b A B"
inductive_cases spec_freeE: "spec (Free b) r A B"

lemma wf_start:
  assumes "live (drv w) = {}"
  shows "wf live (DeviceCachingAllocator_ctor V w)"
  using assms
  by (simp add: wf_def mid_def inv_def view_def DeviceCachingAllocator_ctor_def freeable_ok_def shape_def links_def apart_def
      positive_def bounded_def covered_def ranges_ok_def plain_heap_def pools_ok_def pool_ok_def BlockPool_ctor_def ordered_def
      free_in_def active_ok_def merged_def ev_counts_def ev_status_def gp_ok_def)

lemma wp_result:
  assumes "wp m Q E s"
  shows "m s = (Inr r, t) \<Longrightarrow> Q r t" and "m s = (Inl e, t) \<Longrightarrow> E e t"
  using assms by (simp_all add: wp_def)

lemma reachable_wf:
  assumes V: "supported V live" and w: "live (drv w) = {}" and "reachable V w s"
  shows "wf live s"
  using assms(3)
proof (induction rule: reachable.induct)
  case reach_start
  show ?case using w by (rule wf_start)
next
  case (reach_return s q r t)
  then show ?case using wp_result(1) [OF wp_run_op [OF V]] by (simp add: op_post_def)
next
  case (reach_oom s q t)
  show ?case
    using wp_result(2) [OF wp_run_op [OF V reach_oom.IH reach_oom.hyps(2)] reach_oom.hyps(3)] by (simp add: op_exn_def malloc_exn_def)
qed

end
