(* ===== verification/Segment_Walk.thy ===== *)
theory Segment_Walk
  imports Device_Safety
begin

text \<open>
  The walks along the neighbours of a block in \<^verbatim>\<open>getBaseAllocation\<close> and \<^verbatim>\<open>shareIpcHandle\<close> end, and
  what they find is the driver's allocation that holds the block.
\<close>

section \<open>The chain of a block\<close>

text \<open>The range of the driver that each block lies in; it is the same for neighbours.\<close>

definition home :: "(nat \<times> nat) set \<Rightarrow> bheap \<Rightarrow> (nat \<Rightarrow> nat \<times> nat) \<Rightarrow> bool" where
  "home R h f \<longleftrightarrow> (\<forall>b x. h b = Some x \<longrightarrow> f b \<in> R \<and> covers (f b) x \<and> (\<forall>n. b_next x = Some n \<longrightarrow> f n = f b))"

lemma home_exists:
  assumes "covered R sg h"
  obtains f where "home R h f"
  using assms unfolding covered_def home_def by blast

definition below :: "bheap \<Rightarrow> nat \<Rightarrow> nat set" where
  "below h p = {c. \<exists>y. h c = Some y \<and> b_ptr y < p}"

definition above :: "bheap \<Rightarrow> nat \<Rightarrow> nat set" where
  "above h p = {c. \<exists>y. h c = Some y \<and> p \<le> b_ptr y}"

lemma finite_sides: "finite (dom h) \<Longrightarrow> finite (below h p)" "finite (dom h) \<Longrightarrow> finite (above h p)"
  by (auto simp: below_def above_def elim!: rev_finite_subset)

lemma below_less:
  assumes "finite (dom h)" and "h q = Some y" and "b_ptr y < p"
  shows "card (below h (b_ptr y)) < card (below h p)"
proof (rule psubset_card_mono [OF finite_sides(1) [OF assms(1)]])
  have "q \<in> below h p" "q \<notin> below h (b_ptr y)" using assms(2,3) by (auto simp: below_def)
  moreover have "below h (b_ptr y) \<subseteq> below h p" using assms(3) by (force simp: below_def)
  ultimately show "below h (b_ptr y) \<subset> below h p" by blast
qed

lemma above_less:
  assumes "finite (dom h)" and "h b = Some x" and "b_ptr x < p"
  shows "card (above h p) < card (above h (b_ptr x))"
proof (rule psubset_card_mono [OF finite_sides(2) [OF assms(1)]])
  have "b \<in> above h (b_ptr x)" "b \<notin> above h p" using assms(2,3) by (auto simp: above_def)
  moreover have "above h p \<subseteq> above h (b_ptr x)" using assms(3) by (force simp: above_def)
  ultimately show "above h p \<subset> above h (b_ptr x)" by blast
qed

lemma run_walk_prev:
  assumes L: "links (heap s)" and P: "positive (heap s)" and f: "home R (heap s) f" and fin: "finite (dom (heap s))"
  shows "heap s b = Some x \<Longrightarrow> card (below (heap s) (b_ptr x)) \<le> fuel \<Longrightarrow>
    \<exists>c y. walk_prev fuel b s = (Inr c, s) \<and> heap s c = Some y \<and> b_prev y = None \<and> f c = f b \<and> b_ptr y \<le> b_ptr x"
proof (induction fuel arbitrary: b x)
  case (0 b x)
  show ?case
  proof (cases "b_prev x")
    case None
    then show ?thesis using 0 by (subst walk_prev.simps) (simp add: sx_defs deref_def)
  next
    case (Some q)
    obtain y where y: "heap s q = Some y" "adj y x" using links_prev [OF L 0(1) Some] by blast
    then have "b_ptr y < b_ptr x" using P by (auto simp: adj_def positive_def)
    then have "q \<in> below (heap s) (b_ptr x)" using y(1) by (simp add: below_def)
    then show ?thesis using 0(2) finite_sides(1) [OF fin, of "b_ptr x"] by (metis card_eq_0_iff empty_iff le_0_eq)
  qed
next
  case (Suc fuel b x)
  show ?case
  proof (cases "b_prev x")
    case None
    then show ?thesis using Suc.prems by (subst walk_prev.simps) (simp add: sx_defs deref_def)
  next
    case (Some q)
    obtain y where y: "heap s q = Some y" "b_next y = Some b" "adj y x" using links_prev [OF L Suc.prems(1) Some] by blast
    then have lt: "b_ptr y < b_ptr x" using P by (auto simp: adj_def positive_def)
    have "card (below (heap s) (b_ptr y)) \<le> fuel" using below_less [OF fin y(1) lt] Suc.prems(2) by linarith
    from Suc.IH [OF y(1) this] obtain c z where c: "walk_prev fuel q s = (Inr c, s)" "heap s c = Some z" "b_prev z = None"
      "f c = f q" "b_ptr z \<le> b_ptr y" by blast
    moreover have "f b = f q" using f y by (simp add: home_def)
    moreover have "walk_prev (Suc fuel) b s = (Inr c, s)"
      using Suc.prems(1) Some c(1) by (subst walk_prev.simps) (simp add: sx_defs deref_def)
    ultimately show ?thesis using lt by force
  qed
qed

lemma run_walk_size:
  assumes L: "links (heap s)" and P: "positive (heap s)" and f: "home R (heap s) f" and fin: "finite (dom (heap s))"
  shows "heap s b = Some x \<Longrightarrow> card (above (heap s) (b_ptr x)) \<le> fuel \<Longrightarrow>
    walk_size fuel (Some b) n s = (Inr (n + (fst (f b) + snd (f b) - b_ptr x)), s)"
proof (induction fuel arbitrary: b x n)
  case (0 b x n)
  have "b \<in> above (heap s) (b_ptr x)" using 0(1) by (simp add: above_def)
  then show ?case using 0(2) finite_sides(2) [OF fin, of "b_ptr x"] by (metis card_eq_0_iff empty_iff le_0_eq)
next
  case (Suc fuel b x n)
  have cov: "covers (f b) x" using f Suc.prems(1) by (simp add: home_def)
  show ?case
  proof (cases "b_next x")
    case None
    then have "b_ptr x + b_size x = fst (f b) + snd (f b)" using cov by (simp add: covers_def)
    then have "b_size x = fst (f b) + snd (f b) - b_ptr x" by linarith
    then show ?thesis
      using Suc.prems(1) None by (simp add: walk_size.simps [of "Suc fuel"] walk_size.simps [of fuel None] sx_defs deref_def)
  next
    case (Some m)
    obtain y where y: "heap s m = Some y" "adj x y" using links_next [OF L Suc.prems(1) Some] by blast
    have p: "b_ptr y = b_ptr x + b_size x" "0 < b_size x" using y(2) P Suc.prems(1) by (auto simp: adj_def positive_def)
    then have "card (above (heap s) (b_ptr y)) \<le> fuel" using above_less [OF fin Suc.prems(1), of "b_ptr y"] Suc.prems(2) by linarith
    from Suc.IH [OF y(1) this] have "walk_size fuel (Some m) (n + b_size x) s
        = (Inr (n + b_size x + (fst (f m) + snd (f m) - b_ptr y)), s)" .
    moreover have "f m = f b" using f Suc.prems(1) Some by (simp add: home_def)
    moreover have "covers (f m) y" using f y(1) by (simp add: home_def)
    then have "b_ptr y + b_size y \<le> fst (f b) + snd (f b)" using \<open>f m = f b\<close> by (simp add: covers_def)
    ultimately show ?thesis
      using Suc.prems(1) Some p by (simp add: walk_size.simps [of "Suc fuel"] sx_defs deref_def)
  qed
qed

lemma run_getBaseAllocation:
  assumes W: "wf live s" and x: "heap s b = Some x"
  obtains p n where "getBaseAllocation b s = (Inr (p, n), s)" and "(p, n) \<in> live (drv (world s))"
    and "p \<le> b_ptr x" and "b_ptr x + b_size x \<le> p + n"
proof -
  note sd = inv_shape [OF wf_inv [OF W], simplified]
  obtain f where f: "home (live (drv (world s))) (heap s) f" using home_exists [OF sd(5)] .
  have dom: "dom (heap s) \<subseteq> {..< next_block s}" using sd(4) by (auto simp: bounded_def)
  then have fin: "finite (dom (heap s))" by (rule finite_subset) simp
  have bound: "card S \<le> next_block s" if "S \<subseteq> dom (heap s)" for S
    using card_mono [of "{..< next_block s}" S] that dom by auto
  have "below (heap s) p \<subseteq> dom (heap s)" "above (heap s) p \<subseteq> dom (heap s)" for p by (auto simp: below_def above_def)
  note fuel = this [THEN bound]
  obtain c y where c: "walk_prev (next_block s) b s = (Inr c, s)" "heap s c = Some y" "b_prev y = None" "f c = f b"
    using run_walk_prev [OF sd(1,3) f fin x fuel(1)] by blast
  have "covers (f c) y" "covers (f b) x" "f b \<in> live (drv (world s))" using f c(2) x by (auto simp: home_def)
  then have y: "b_ptr y = fst (f b)" and xb: "fst (f b) \<le> b_ptr x" "b_ptr x + b_size x \<le> fst (f b) + snd (f b)"
    and R: "f b \<in> live (drv (world s))" using c(3,4) by (simp_all add: covers_def)
  have pl: "expandable_segment x = None" using invD(3) [OF wf_inv [OF W]] x by (simp add: plain_heap_def plain_def)
  have "getBaseAllocation b s = (Inr (fst (f b), snd (f b)), s)"
    using x pl c y run_walk_size [OF sd(1,3) f fin c(2) fuel(2), of 0] by (simp add: getBaseAllocation_def sx_defs deref_def)
  moreover have "(fst (f b), snd (f b)) \<in> live (drv (world s))" using R by simp
  ultimately show thesis using that xb by blast
qed

end
