(* ===== verification/Best_Fit.thy ===== *)
theory Best_Fit
  imports Segment_Walk
begin

text \<open>
  What the invariant says of the cache: the search of a pool finds the best fit, and what a drained cache
  keeps lies next to blocks in use.
\<close>

section \<open>What a drained cache keeps\<close>

lemma settled_block:
  assumes W: "wf live t" and D: "drained t" and x: "heap t b = Some x"
  shows "allocatable x \<longleftrightarrow> \<not> allocated x"
proof -
  note I = wf_inv [OF W]
  have "event_count x = 0" using invD(7) [OF I] x D by (simp add: ev_counts_def drained_def)
  moreover have "\<not> waiting x" using invD(8) [OF I] x D by (auto simp: ev_status_def drained_def)
  ultimately show ?thesis by (auto simp: allocatable_def waiting_def)
qed

lemma drained_neighbour:
  assumes W: "wf live t" and D: "drained t" and x: "heap t b = Some x" "\<not> allocated x" "owner_PrivatePool (b_pool x) = None"
  obtains n y where "b_next x = Some n \<or> b_prev x = Some n" and "heap t n = Some y" and "allocated y"
proof -
  note I = wf_inv [OF W]
  note sd = inv_shape [OF I, simplified]
  have M: "mid live {} (needs_events_deferred t) t" using W by (simp add: wf_def)
  have a: "allocatable x" using settled_block [OF W D x(1)] x(2) by simp
  obtain sm where "b_pool x = Global sm" using x(3) by (cases "b_pool x") auto
  then have "is_split x" using D x(1) a by (cases sm) (auto simp: drained_def whole_def)
  then obtain n where n: "b_next x = Some n \<or> b_prev x = Some n" by (auto simp: is_split_def)
  then obtain y where y: "heap t n = Some y"
    using links_next [OF sd(1) x(1)] links_prev [OF sd(1) x(1)] by blast
  have "\<not> allocatable y" using merged_lone [OF M x(1) a] n y unfolding lone_def by blast
  then have "allocated y" using settled_block [OF W D y] by simp
  then show thesis using that n y by blast
qed

section \<open>Best fit\<close>

definition fitting :: "AllocParams \<Rightarrow> 'd dca \<Rightarrow> nat set" where
  "fitting p s = {b. \<exists>x. heap s b = Some x \<and> fits p x}"

definition best_fit :: "AllocParams \<Rightarrow> 'd dca \<Rightarrow> bool \<times> AllocParams \<Rightarrow> bool" where
  "best_fit p s r \<longleftrightarrow> (if fst r
     then (\<exists>b x. p_block (snd r) = Some b \<and> heap s b = Some x \<and> fits p x
       \<and> (\<forall>c y. heap s c = Some y \<longrightarrow> fits p y \<longrightarrow> b_size x < b_size y \<or> b_size x = b_size y \<and> b_ptr x \<le> b_ptr y))
     else (\<forall>c y. heap s c = Some y \<longrightarrow> fits p y \<longrightarrow> size_max \<le> b_size y))"

lemma fits_in_pool:
  assumes W: "wf live s"
  shows "heap s c = Some y \<and> fits p y \<longleftrightarrow> c \<in> set (blocks (pools s (p_pool p))) \<and> heap s c = Some y
    \<and> \<not> BlockComparatorSize (bkey (heap s) c) (p_stream p, p_size p, 0) \<and> b_stream y = p_stream p"
proof -
  have M: "mid live {} (needs_events_deferred s) s" using W by (simp add: wf_def)
  have "\<not> BlockComparatorSize (bkey (heap s) c) (p_stream p, p_size p, 0) \<longleftrightarrow> p_size p \<le> b_size y"
    if "heap s c = Some y" "b_stream y = p_stream p"
    using that by (auto simp: BlockComparatorSize_def bkey_def key_of_def)
  then show ?thesis by (auto simp: pool_members(1) [OF M] free_in_def fits_def)
qed

lemma pool_next_stream:
  assumes "ordered BlockComparatorSize f xs" and "set_lower_bound BlockComparatorSize f (st, n, 0) xs = b # bs" and "fst (f b) \<noteq> st"
    and "c \<in> set xs" and "fst (f c) = st"
  shows "BlockComparatorSize (f c) (st, n, 0)"
proof (rule ccontr)
  assume c: "\<not> BlockComparatorSize (f c) (st, n, 0)"
  note lb = by_size.lower_bound_least [OF assms(1,2)]
  have "\<not> BlockComparatorSize (f c) (f b)" using lb(3) [OF assms(4) c] .
  moreover obtain sb zb pb where "f b = (sb, zb, pb)" by (cases "f b")
  moreover obtain sc zc pc where "f c = (sc, zc, pc)" by (cases "f c")
  ultimately show False using lb(2) assms(3,5) by (auto simp: BlockComparatorSize_def split: if_splits)
qed

lemma wp_best_fit:
  assumes W: "wf live s" and lv: "pool_live (graph_pools s) (p_pool p)" and m: "m_max_split_size (Cfg V) = size_max"
    and sz: "p_size p < size_max"
  shows "wp (get_free_block V p) (\<lambda>r t. best_fit p s r \<and> heap t = heap s) (\<lambda>_ _. False) s"
proof -
  have M: "mid live {} (needs_events_deferred s) s" using W by (simp add: wf_def)
  note fp = fits_in_pool [OF W] and pm = pool_members [OF M, of "p_pool p"]
  let ?lb = "set_lower_bound BlockComparatorSize (bkey (heap s)) (p_stream p, p_size p, 0) (blocks (pools s (p_pool p)))"
  have key: "fst (bkey (heap s) c) = b_stream y" if "heap s c = Some y" for c y using that by (simp add: bkey_def key_of_def)
  have none: "best_fit p s (False, p)" if "?lb = [] \<or> (\<exists>b bs x. ?lb = b # bs \<and> heap s b = Some x \<and> b_stream x \<noteq> p_stream p)"
  proof -
    have "\<not> (heap s c = Some y \<and> fits p y)" for c y
      using that fp [of c y p] by_size.lower_bound_split(2) [OF pm(3), of c "(p_stream p, p_size p, 0)"]
        pool_next_stream [OF pm(3), of "p_stream p" "p_size p" _ _ c] key by auto
    then show ?thesis by (simp add: best_fit_def)
  qed
  have some: "best_fit p s (True, p\<lparr>p_block := Some b\<rparr>) \<and> (size_max \<le> b_size x \<longrightarrow> best_fit p s (False, p))"
    if lb: "?lb = b # bs" and x: "heap s b = Some x" "b_stream x = p_stream p" for b bs x
  proof -
    note least = by_size.lower_bound_least [OF pm(3) lb]
    have b: "fits p x" using fp [of b x p] least(1,2) x by blast
    have "b_size x < b_size y \<or> b_size x = b_size y \<and> b_ptr x \<le> b_ptr y" if "heap s c = Some y" "fits p y" for c y
      using least(3) [of c] fp [of c y p] that x by (auto simp: BlockComparatorSize_def bkey_def key_of_def split: if_splits)
    then show ?thesis using b x unfolding best_fit_def by force
  qed
  have core: "wp (sx_bind (get_BlockPool (p_pool p)) (\<lambda>bp. sx_bind (sx_get heap) (\<lambda>h.
      case set_lower_bound BlockComparatorSize (bkey h) (p_stream p, p_size p, 0) (blocks bp) of
        [] \<Rightarrow> sx_ret (False, p)
      | b # rest \<Rightarrow> sx_bind (deref b) (\<lambda>blk.
          if b_stream blk \<noteq> p_stream p then sx_ret (False, p)
          else if expandable_segment blk \<noteq> None then
            sx_bind (if m_expandable_segments (Cfg V) then best_expandable (p_stream p) (b # rest)
              else skip_expandable (p_stream p) (b # rest)) (take_free_block V p)
          else take_free_block V p (b # rest)))))
      (\<lambda>r t. best_fit p s r \<and> heap t = heap s) (\<lambda>_ _. False) t"
    if t: "heap t = heap s" "graph_pools t = graph_pools s" "blocks (pools t (p_pool p)) = blocks (pools s (p_pool p))" for t
  proof (cases ?lb)
    case Nil
    then show ?thesis using none t lv by simp
  next
    case (Cons b bs)
    obtain x where x: "heap s b = Some x"
      using by_size.lower_bound_least(1) [OF pm(3) Cons] pm(1) by (auto simp: free_in_def)
    have pl: "expandable_segment x = None" using invD(3) [OF wf_inv [OF W]] x by (simp add: plain_heap_def plain_def)
    show ?thesis
    proof (cases "b_stream x = p_stream p")
      case True
      then show ?thesis using some [OF Cons x True] Cons x pl t lv m sz by (simp add: take_free_block_def wp_if)
    next
      case False
      then have "best_fit p s (False, p)" using none Cons x by blast
      then show ?thesis using False Cons x t lv by simp
    qed
  qed
  show ?thesis
    unfolding get_free_block_def
    by (rule step_get, rule step_seq [where R = "\<lambda>t. heap t = heap s \<and> graph_pools t = graph_pools s
      \<and> blocks (pools t (p_pool p)) = blocks (pools s (p_pool p))"], use lv in simp, rule core) auto
qed

end
