(* ===== verification/Device_Examples.thy ===== *)
theory Device_Examples
  imports Best_Fit
begin

text \<open>
  A device allocator on the reference driver: the states of a short history, computed by rewriting.
  The theorems about reachable states are applied to them.
\<close>

definition ref_env :: "ref_state env" where
  "ref_env = \<lparr>Drv = ref_driver, Cfg = SUPAAllocatorConfig_ctor, Lib = ref_lib, ActiveMemPool = None\<rparr>"

definition ref_world :: "nat \<Rightarrow> ref_state world" where
  "ref_world cap = \<lparr>drv = ref_start cap, k_device = -1, event_pools = \<lambda>_. []\<rparr>"

definition ref_dca :: "nat \<Rightarrow> ref_state dca" where
  "ref_dca cap = DeviceCachingAllocator_ctor ref_env (ref_world cap)"

lemma ref_supported: "supported ref_env ref_live"
  using ref_memory_calls_ok ref_other_calls_ok ref_lib_ok ctor_config_ok
  by (simp add: supported_def ref_env_def SUPAAllocatorConfig_ctor_def)

lemma ref_unused: "ref_live (drv (ref_world cap)) = {}"
  by (simp add: ref_live_def ref_world_def ref_start_def)

lemma ref_reach_start: "reachable ref_env (ref_world cap) (ref_dca cap)"
  unfolding ref_dca_def by (rule reach_start)

text \<open>The definitions a run unfolds.\<close>

lemmas run_defs = sx_defs sx_field_def sx_at_def sx_lift_def Let_def
  device_malloc_def maybeGatherContext_def process_events_def insert_events_deferred_until_no_capture_def
  get_pool_def search_cache_def get_free_block_def take_free_block_def gc_enabled_def obtain_block_def alloc_block_def
  alloc_found_block_def trigger_free_memory_callbacks_def supaMallocMaybeCapturing_def allocPrimitive_def check_active_pool_def
  upd_owner_def alloc_block_stats_def record_trace_def split_block_def split_stats_def unsplit_stats_def alloc_stats_def
  should_split_def AllocParams_ctor_def get_stat_types_for_pool_def pool_live_def store_defs new_block_def
  insert_into_blocks_def Block_ctor_def is_split_def BlockPool_ctor_def DeviceCachingAllocator_ctor_def
  out_of_memory_def release_available_cached_blocks_def release_cached_blocks_def synchronize_and_free_events_def release_blocks_def
  for_each_selected_stat_type_def all_stat_types_def upd_stat_def update_stat_def update_stat_array_def DeviceStats_init_def
  zero_stat_def supa_check_def supa_check_out_def drv_call_def check_err_def
  round_size_def get_allocation_size_def size_consts size_max_def size_add_def SUPAAllocatorConfig_ctor_def
  less_RecordContext_def less_eq_RecordContext_def key_of_def bkey_def BlockComparatorSize_def set_ops allocatable_def
  ref_env_def ref_world_def ref_dca_def ref_driver_def ref_ok_def ref_acquire_def ref_start_def ref_top_def

definition ref_one :: "ref_state dca" where
  "ref_one = snd (run_op ref_env (Malloc 0 100 0) (ref_dca 4194304))"

lemma ref_malloc_one: "run_op ref_env (Malloc 0 100 0) (ref_dca 4194304) = (Inr 1, ref_one)"
proof -
  have "fst (run_op ref_env (Malloc 0 100 0) (ref_dca 4194304)) = Inr 1" by (simp add: run_defs)
  then show ?thesis by (simp add: ref_one_def prod_eq_iff)
qed

lemma ref_oom: "fst (run_op ref_env (Malloc 0 100 0) (ref_dca 0)) = Inl OutOfMemoryError"
  by (simp add: run_defs)

lemma ref_reach_one: "reachable ref_env (ref_world 4194304) ref_one"
  by (rule reach_return [OF ref_reach_start _ ref_malloc_one]) (simp add: request_ok_def)

text \<open>A second block comes from the rest of the first segment.\<close>

definition ref_two :: "ref_state dca" where
  "ref_two = snd (run_op ref_env (Malloc 0 200 0) ref_one)"

lemma ref_malloc_two: "run_op ref_env (Malloc 0 200 0) ref_one = (Inr 2, ref_two)"
proof -
  have "fst (run_op ref_env (Malloc 0 200 0) ref_one) = Inr 2" by (simp add: ref_one_def run_defs)
  then show ?thesis by (simp add: ref_two_def prod_eq_iff)
qed

lemma ref_reach_two: "reachable ref_env (ref_world 4194304) ref_two"
  by (rule reach_return [OF ref_reach_one _ ref_malloc_two]) (simp add: request_ok_def)

lemma ref_two_holds: "holds ref_two 1 = Some (4096, 512, 0)" "holds ref_two 2 = Some (4608, 512, 0)"
  by (simp_all add: ref_two_def ref_one_def holds_def in_use_def body_def run_defs)

text \<open>The first block was used on another stream and is freed: it waits for an event.\<close>

definition ref_stream :: stream_ref where
  "ref_stream = \<lparr>stream_device = 0, stream_handle = 9\<rparr>"

definition ref_three :: "ref_state dca" where
  "ref_three = snd (run_op ref_env (RecordStream 1 ref_stream) ref_two)"

lemma ref_record: "run_op ref_env (RecordStream 1 ref_stream) ref_two = (Inr 0, ref_three)"
proof -
  have "fst (run_op ref_env (RecordStream 1 ref_stream) ref_two) = Inr 0"
    by (simp add: ref_two_def ref_one_def recordStream_def ref_stream_def run_defs)
  then show ?thesis by (simp add: ref_three_def prod_eq_iff)
qed

lemmas free_defs = recordStream_def ref_stream_def device_free_def free_stats_def insert_events_def GetDevice_def SetDevice_def
  MaybeSetDevice_def hasPrimaryContext_def EventPool_get_def driver_check_out_def driver_err_def ref_current_def ref_fresh_def push_event_def
  free_block_def try_merge_blocks_def free_block_stats_def

definition ref_four :: "ref_state dca" where
  "ref_four = snd (run_op ref_env (Free 1) ref_three)"

lemma ref_free: "run_op ref_env (Free 1) ref_three = (Inr 0, ref_four)"
proof -
  have "fst (run_op ref_env (Free 1) ref_three) = Inr 0"
    by (simp add: ref_three_def ref_two_def ref_one_def free_defs run_defs)
  then show ?thesis by (simp add: ref_four_def prod_eq_iff)
qed

lemma ref_reach_three: "reachable ref_env (ref_world 4194304) ref_three"
  using ref_two_holds(1) by (intro reach_return [OF ref_reach_two _ ref_record]) (auto simp: holds_def)

lemma ref_three_holds: "holds ref_three 1 = Some (4096, 512, 0)" "holds ref_three 2 = Some (4608, 512, 0)"
  by (simp_all add: ref_three_def ref_two_def ref_one_def holds_def in_use_def body_def free_defs run_defs)

lemma ref_reach_four: "reachable ref_env (ref_world 4194304) ref_four"
  using ref_three_holds(1) by (intro reach_return [OF ref_reach_three _ ref_free]) (auto simp: holds_def)

lemma ref_four_pending: "supa_events ref_four = [(ref_stream, [(1, 1)])]"
  by (simp add: ref_four_def ref_three_def ref_two_def ref_one_def free_defs run_defs)

text \<open>Emptying the cache waits for the event and frees the block.\<close>

lemmas empty_defs = emptyCache_def event_done_def set_queue_def erase_queue_def Event_release_def

lemma ref_four_captures: "captures_underway ref_four = []"
  by (simp add: ref_four_def ref_three_def ref_two_def ref_one_def free_defs run_defs)

lemma ref_empty: "fst (emptyCache ref_env (0, 0) ref_four) = Inr ()"
  by (simp add: ref_four_def ref_three_def ref_two_def ref_one_def empty_defs free_defs run_defs)

end
