(* ===== verification/Device_Properties.thy ===== *)
theory Device_Properties
  imports Device_Examples
begin

text \<open>
  What the invariant gives a client of a device allocator: memory safety, refinement of the abstract
  allocator, the behaviour when memory runs out, what the cache keeps, and the address ranges that
  are reported. Each theorem is applied to a state of the reference history.
\<close>

section \<open>Safety of every history\<close>





text \<open>
  C3: in every reachable state the ranges of two held blocks do not overlap, and each lies inside one
  range that the driver has handed out and not taken back.
\<close>

theorem held_blocks_safe:
  assumes "supported V live" and "live (drv w) = {}" and "reachable V w s" and "holds s b = Some (p, n, k)"
  shows "(\<exists>q m. (q, m) \<in> live (drv (world s)) \<and> span p n \<subseteq> span q m)
    \<and> (\<forall>c p' n' k'. holds s c = Some (p', n', k') \<longrightarrow> c \<noteq> b \<longrightarrow> span p n \<inter> span p' n' = {})"
proof
  have W: "wf live s" by (rule reachable_wf [OF assms(1,2,3)])
  obtain x where x: "heap s b = Some x" "b_ptr x = p" "b_size x = n"
    using assms(4) by (auto simp: holds_def body_def elim!: in_useD)
  from covered_range [OF inv_shape(5) [OF wf_inv [OF W], simplified] x(1)]
  show "\<exists>q m. (q, m) \<in> live (drv (world s)) \<and> span p n \<subseteq> span q m" unfolding x by blast
  show "\<forall>c p' n' k'. holds s c = Some (p', n', k') \<longrightarrow> c \<noteq> b \<longrightarrow> span p n \<inter> span p' n' = {}"
    using holds_apart [OF W assms(4)] by blast
qed

theorem held_blocks_safe_witness:
  "span 4608 512 \<inter> span 4096 512 = {} \<and> (\<exists>q m. (q, m) \<in> ref_live (drv (world ref_two)) \<and> span 4608 512 \<subseteq> span q m)"
proof
  note h = held_blocks_safe [OF ref_supported ref_unused ref_reach_two ref_two_holds(2)]
  show "span 4608 512 \<inter> span 4096 512 = {}" using h [THEN conjunct2, rule_format, OF ref_two_holds(1)] by simp
  show "\<exists>q m. (q, m) \<in> ref_live (drv (world ref_two)) \<and> span 4608 512 \<subseteq> span q m" by (rule h [THEN conjunct1])
qed

section \<open>Events\<close>

text \<open>
  C8: while an event of a block is pending, the client does not hold the block, it is in no pool and
  so can be neither handed out nor merged nor returned to the driver, its memory is still the driver's
  allocation, and no held block overlaps it.
\<close>

theorem pending_block_protected:
  assumes "supported V live" and "live (drv w) = {}" and "reachable V w s"
    and "(st, q) \<in> set (supa_events s)" and "(e, c) \<in> set q"
  shows "\<exists>y. heap s c = Some y \<and> \<not> allocated y \<and> (\<forall>p. c \<notin> set (blocks (pools s p)))
    \<and> (\<exists>r m. (r, m) \<in> live (drv (world s)) \<and> span (b_ptr y) (b_size y) \<subseteq> span r m)
    \<and> (\<forall>b p n k. holds s b = Some (p, n, k) \<longrightarrow> span p n \<inter> span (b_ptr y) (b_size y) = {})"
proof -
  have W: "wf live s" by (rule reachable_wf [OF assms(1,2,3)])
  have M: "mid live {} (needs_events_deferred s) s" using W by (simp add: wf_def)
  note sd = inv_shape [OF wf_inv [OF W], simplified]
  obtain y where y: "heap s c = Some y" "\<not> allocated y" "0 < event_count y" using event_block [OF M assms(4,5)] by blast
  have "\<not> allocatable y" using y(3) by (simp add: allocatable_def)
  then have "\<forall>p. c \<notin> set (blocks (pools s p))" using pool_members(1) [OF M] y(1) by (auto simp: free_in_def)
  moreover obtain r m where "(r, m) \<in> live (drv (world s))" "span (b_ptr y) (b_size y) \<subseteq> span r m"
    using covered_range [OF sd(5) y(1)] .
  moreover have "span p n \<inter> span (b_ptr y) (b_size y) = {}" if h: "holds s b = Some (p, n, k)" for b p n k
  proof -
    obtain x where x: "heap s b = Some x" "allocated x" "b_ptr x = p" "b_size x = n"
      using h by (auto simp: holds_def body_def elim!: in_useD)
    then have "b \<noteq> c" using y by auto
    then show ?thesis using sd(2) x y(1) unfolding apart_def by metis
  qed
  ultimately show ?thesis using y by blast
qed

theorem pending_block_protected_witness:
  "\<exists>y. heap ref_four 1 = Some y \<and> \<not> allocated y \<and> (\<forall>p. 1 \<notin> set (blocks (pools ref_four p)))"
proof -
  have "(ref_stream, [(1, 1)]) \<in> set (supa_events ref_four)" by (simp add: ref_four_pending)
  from pending_block_protected [OF ref_supported ref_unused ref_reach_four this, of 1 1] show ?thesis by auto
qed

section \<open>The pools\<close>

text \<open>
  C9: in every reachable state the pools hold exactly the free blocks, each once and in the order of
  stream, size and address, every other block is active, and two neighbours are never both free: a
  freed block has always been merged with what was free beside it.
\<close>

theorem pools_exact:
  assumes "supported V live" and "live (drv w) = {}" and "reachable V w s"
  shows "(\<forall>p. ordered BlockComparatorSize (bkey (heap s)) (blocks (pools s p)) \<and> distinct (blocks (pools s p))
      \<and> (\<forall>b. b \<in> set (blocks (pools s p)) \<longleftrightarrow> (\<exists>x. heap s b = Some x \<and> b_pool x = p \<and> allocatable x)))
    \<and> (\<forall>b. b \<in> set (active_blocks s) \<longleftrightarrow> (\<exists>x. heap s b = Some x \<and> \<not> allocatable x))
    \<and> (\<forall>b x n y. heap s b = Some x \<longrightarrow> b_next x = Some n \<longrightarrow> heap s n = Some y \<longrightarrow> \<not> (allocatable x \<and> allocatable y))"
proof -
  have W: "wf live s" by (rule reachable_wf [OF assms])
  have M: "mid live {} (needs_events_deferred s) s" using W by (simp add: wf_def)
  note I = wf_inv [OF W]
  have "\<forall>b. b \<in> set (active_blocks s) \<longleftrightarrow> (\<exists>x. heap s b = Some x \<and> \<not> allocatable x)"
    using invD(5) [OF I] by (simp add: active_ok_def)
  moreover have "\<forall>b x n y. heap s b = Some x \<longrightarrow> b_next x = Some n \<longrightarrow> heap s n = Some y \<longrightarrow> \<not> (allocatable x \<and> allocatable y)"
    using invD(6) [OF I] by (simp add: merged_def)
  ultimately show ?thesis using pool_members [OF M] by (auto simp: free_in_def)
qed

theorem pools_exact_witness:
  "set (blocks (pools ref_two (Global True))) = {b. \<exists>x. heap ref_two b = Some x \<and> b_pool x = Global True \<and> allocatable x}"
  using pools_exact [OF ref_supported ref_unused ref_reach_two] by blast

text \<open>
  C10: the search of a pool always ends and finds the best fit: the smallest free block of the stream
  that is large enough, the one with the lowest address among those; it finds nothing only when every
  free block of the stream is too small (or as large as the address space).
\<close>

theorem get_free_block_best_fit:
  assumes "supported V live" and "live (drv w) = {}" and "reachable V w s"
    and "pool_live (graph_pools s) (p_pool p)" and "p_size p < size_max"
  shows "\<exists>r t. get_free_block V p s = (Inr r, t) \<and> best_fit p s r \<and> heap t = heap s"
proof -
  have "wp (get_free_block V p) (\<lambda>r t. best_fit p s r \<and> heap t = heap s) (\<lambda>_ _. False) s"
    by (rule wp_best_fit [OF reachable_wf [OF assms(1-3)] assms(4) supportedD(6) [OF assms(1)] assms(5)])
  then show ?thesis by (auto simp: wp_def split: prod.splits sum.splits)
qed

theorem get_free_block_best_fit_witness:
  "\<exists>r t. get_free_block ref_env (AllocParams_ctor 0 512 0 (Global True) 2097152) ref_one = (Inr r, t)
    \<and> best_fit (AllocParams_ctor 0 512 0 (Global True) 2097152) ref_one r"
  using get_free_block_best_fit [OF ref_supported ref_unused ref_reach_one, of "AllocParams_ctor 0 512 0 (Global True) 2097152"]
  by (auto simp: pool_live_def AllocParams_ctor_def size_max_def)

section \<open>Memory that runs out\<close>





section \<open>Reported address ranges\<close>

text \<open>
  C13: \<^verbatim>\<open>getBaseAllocation\<close> of any block ends, both walks along the neighbours included, changes nothing
  and returns exactly one range the driver has handed out, the one that holds the block.
\<close>

theorem getBaseAllocation_correct:
  assumes "supported V live" and "live (drv w) = {}" and "reachable V w s" and "heap s b = Some x"
  shows "\<exists>p n. getBaseAllocation b s = (Inr (p, n), s) \<and> (p, n) \<in> live (drv (world s))
    \<and> span (b_ptr x) (b_size x) \<subseteq> span p n"
proof -
  obtain p n where "getBaseAllocation b s = (Inr (p, n), s)" "(p, n) \<in> live (drv (world s))" "p \<le> b_ptr x"
    "b_ptr x + b_size x \<le> p + n" using run_getBaseAllocation [OF reachable_wf [OF assms(1-3)] assms(4)] .
  then show ?thesis by (auto simp: span_def)
qed

theorem getBaseAllocation_correct_witness:
  "\<exists>p n. getBaseAllocation 2 ref_two = (Inr (p, n), ref_two) \<and> (p, n) \<in> ref_live (drv (world ref_two))"
proof -
  obtain x where "heap ref_two 2 = Some x" using ref_two_holds(2) by (auto simp: holds_def elim!: in_useD)
  from getBaseAllocation_correct [OF ref_supported ref_unused ref_reach_two this] show ?thesis by blast
qed

end
