(* ===== verification/Alloc_Trace.thy ===== *)
theory Alloc_Trace
  imports Device_Api
begin

text \<open>
  The trace of a device allocator, \<^verbatim>\<open>record_trace\<close>, \<^verbatim>\<open>trace\<close> and \<^verbatim>\<open>recordHistory\<close>: the vector with a
  write position is a ring that keeps the newest entries in the order they were recorded, as long as
  its limit is not lowered while it is full.
\<close>

section \<open>The ring\<close>

definition ring_ok :: "'d dca \<Rightarrow> bool" where
  "ring_ok s \<longleftrightarrow> alloc_trace_next s < alloc_trace_max_entries s \<and> length (alloc_trace s) \<le> alloc_trace_max_entries s
     \<and> (length (alloc_trace s) < alloc_trace_max_entries s \<longrightarrow> alloc_trace_next s = 0)"

definition recorded :: "'d dca \<Rightarrow> TraceEntry list" where
  "recorded s = drop (alloc_trace_next s) (alloc_trace s) @ take (alloc_trace_next s) (alloc_trace s)"

definition newest :: "nat \<Rightarrow> 'a list \<Rightarrow> 'a list" where
  "newest n xs = drop (length xs - n) xs"

lemma run_trace: "trace s = (Inr (recorded s), s)"
  by (simp add: trace_def recorded_def sx_defs)

lemma length_recorded [simp]: "length (recorded s) = length (alloc_trace s)"
  by (simp add: recorded_def)

lemma newest_append: "newest n (newest n xs @ ys) = newest n (xs @ ys)"
  by (cases "length xs \<le> n") (simp_all add: newest_def add.commute)

type_synonym trace_args = "Action \<times> int \<times> nat \<times> nat \<times> int \<times> mempool_id \<times> nat option"

definition entry_of :: "'d dca \<Rightarrow> trace_args \<Rightarrow> TraceEntry" where
  "entry_of s a = (case a of (action, addr, sz, st, dev, mempool, ctx) \<Rightarrow>
     \<lparr>te_action = action, te_device = dev, te_addr = addr, te_context = (if RC_ALLOC \<le> record_context s then ctx else None),
      te_stream = st, te_size = sz, te_mempool = mempool\<rparr>)"

definition record_args :: "trace_args \<Rightarrow> ('d, unit) dx" where
  "record_args a = (case a of (action, addr, sz, st, dev, mempool, ctx) \<Rightarrow> record_trace action addr sz st dev mempool ctx)"

lemma rotate_set:
  assumes "n < length xs"
  shows "drop (Suc n) (xs[n := e]) @ take (Suc n) (xs[n := e]) = tl (drop n xs @ take n xs) @ [e]"
proof -
  have "tl (drop n xs @ take n xs) = drop (Suc n) xs @ take n xs"
    using assms by (simp flip: Cons_nth_drop_Suc)
  moreover have "take (Suc n) (xs[n := e]) = take n xs @ [e]" using assms by (simp add: take_Suc_conv_app_nth)
  ultimately show ?thesis by simp
qed

lemma record_one:
  assumes R: "ring_ok s" and h: "record_history s"
  obtains t where "record_args a s = (Inr (), t)" and "ring_ok t" and "record_history t"
    and "record_context t = record_context s" and "alloc_trace_max_entries t = alloc_trace_max_entries s"
    and "recorded t = newest (alloc_trace_max_entries s) (recorded s @ [entry_of s a])"
proof -
  obtain action addr sz st dev mempool ctx where a: "a = (action, addr, sz, st, dev, mempool, ctx)" by (cases a) auto
  let ?n = "alloc_trace_next s" and ?N = "alloc_trace_max_entries s" and ?xs = "alloc_trace s" and ?e = "entry_of s a"
  show thesis
  proof (cases "length ?xs < ?N")
    case True
    let ?t = "s\<lparr>alloc_trace := ?xs @ [?e]\<rparr>"
    have n: "?n = 0" using R True by (simp add: ring_ok_def)
    show thesis
    proof (rule that [of ?t])
      show "record_args a s = (Inr (), ?t)" using h True by (simp add: record_args_def a record_trace_def sx_defs entry_of_def Let_def)
      show "recorded ?t = newest ?N (recorded s @ [?e])" using True n by (simp add: recorded_def newest_def)
    qed (use R True n h in \<open>simp_all add: ring_ok_def\<close>)
  next
    case False
    then have len: "length ?xs = ?N" "?n < length ?xs" using R by (simp_all add: ring_ok_def)
    let ?t = "s\<lparr>alloc_trace := ?xs[?n := ?e], alloc_trace_next := (if Suc ?n = ?N then 0 else Suc ?n)\<rparr>"
    show thesis
    proof (rule that [of ?t])
      show "record_args a s = (Inr (), ?t)"
        using h False len by (simp add: record_args_def a record_trace_def sx_defs entry_of_def Let_def)
      have "recorded ?t = tl (recorded s) @ [?e]"
      proof (cases "Suc ?n = ?N")
        case True
        then have "recorded ?t = drop (Suc ?n) (?xs[?n := ?e]) @ take (Suc ?n) (?xs[?n := ?e])" using len by (simp add: recorded_def)
        then show ?thesis using rotate_set [OF len(2)] by (simp add: recorded_def)
      next
        case False
        then show ?thesis using rotate_set [OF len(2)] by (simp add: recorded_def)
      qed
      moreover have "recorded s \<noteq> []" using len by (metis length_recorded length_0_conv less_nat_zero_code)
      ultimately show "recorded ?t = newest ?N (recorded s @ [?e])"
        using len by (simp add: newest_def drop_Suc)
      show "ring_ok ?t" using len by (auto simp: ring_ok_def)
    qed (use h in simp_all)
  qed
qed

lemma record_many:
  assumes "ring_ok s" and "record_history s"
  shows "\<exists>t. sx_for as record_args s = (Inr (), t) \<and> ring_ok t \<and> record_history t \<and> record_context t = record_context s
    \<and> alloc_trace_max_entries t = alloc_trace_max_entries s
    \<and> recorded t = newest (alloc_trace_max_entries s) (recorded s @ map (entry_of s) as)"
  using assms
proof (induction as arbitrary: s)
  case Nil
  then show ?case by (auto simp: sx_ret_def newest_def ring_ok_def)
next
  case (Cons a as)
  obtain t where t: "record_args a s = (Inr (), t)" "ring_ok t" "record_history t" "record_context t = record_context s"
    "alloc_trace_max_entries t = alloc_trace_max_entries s"
    "recorded t = newest (alloc_trace_max_entries s) (recorded s @ [entry_of s a])"
    using record_one [OF Cons.prems] by blast
  obtain u where u: "sx_for as record_args t = (Inr (), u)" "ring_ok u" "record_history u" "record_context u = record_context t"
    "alloc_trace_max_entries u = alloc_trace_max_entries t"
    "recorded u = newest (alloc_trace_max_entries t) (recorded t @ map (entry_of t) as)"
    using Cons.IH [OF t(2,3)] by blast
  have "entry_of t = entry_of s" using t(4) by (auto simp: entry_of_def fun_eq_iff)
  then have "recorded u = newest (alloc_trace_max_entries s) (recorded s @ map (entry_of s) (a # as))"
    using u(6) t(5,6) newest_append [of "alloc_trace_max_entries s" "recorded s @ [entry_of s a]"] by simp
  moreover have "sx_for (a # as) record_args s = (Inr (), u)" using t(1) u(1) by (simp add: sx_seq_def sx_bind_def)
  ultimately show ?case using u t by auto
qed

section \<open>Lowering the limit\<close>

text \<open>The write position is beyond the new limit, so it is never set back.\<close>

definition stranded :: "'d dca \<Rightarrow> bool" where
  "stranded s \<longleftrightarrow> record_history s \<and> alloc_trace_max_entries s \<le> alloc_trace_next s
     \<and> alloc_trace_next s \<le> length (alloc_trace s)"

lemma stranded_fails:
  assumes "stranded s" and "length as = Suc (length (alloc_trace s) - alloc_trace_next s)"
  shows "fst (sx_for as record_args s) = Inl OutOfBounds"
  using assms
proof (induction as arbitrary: s)
  case (Cons a as)
  obtain action addr sz st dev mempool ctx where a: "a = (action, addr, sz, st, dev, mempool, ctx)" by (cases a) auto
  have full: "\<not> length (alloc_trace s) < alloc_trace_max_entries s" using Cons.prems(1) by (simp add: stranded_def)
  show ?case
  proof (cases "alloc_trace_next s = length (alloc_trace s)")
    case True
    then show ?thesis
      using Cons.prems full by (simp add: stranded_def record_args_def a record_trace_def sx_defs Let_def)
  next
    case False
    then have lt: "alloc_trace_next s < length (alloc_trace s)" using Cons.prems(1) by (simp add: stranded_def)
    let ?t = "s\<lparr>alloc_trace := (alloc_trace s)[alloc_trace_next s := entry_of s a], alloc_trace_next := Suc (alloc_trace_next s)\<rparr>"
    have "record_args a s = (Inr (), ?t)"
      using Cons.prems(1) full lt by (simp add: stranded_def record_args_def a record_trace_def sx_defs entry_of_def Let_def)
    moreover have "fst (sx_for as record_args ?t) = Inl OutOfBounds"
      using Cons.prems lt by (intro Cons.IH) (simp_all add: stranded_def)
    ultimately show ?thesis by (simp add: sx_seq_def sx_bind_def)
  qed
qed simp

section \<open>Properties\<close>


text \<open>
  C15: \<^verbatim>\<open>recordHistory\<close> keeps the entries and the write position when it lowers the limit of a full
  trace to a value the position has passed. The position then runs off the end: the entries after it
  are overwritten, and the next record writes beyond the vector.
\<close>

theorem lowered_limit_out_of_bounds:
  assumes "ring_ok s" and "length (alloc_trace s) = alloc_trace_max_entries s" and "max 1 m \<le> alloc_trace_next s"
    and "length as = Suc (length (alloc_trace s) - alloc_trace_next s)"
  shows "fst (sx_seq (recordHistory True (Some rec) m RC_ALL) (sx_for as record_args) s) = Inl OutOfBounds"
proof -
  let ?t = "s\<lparr>record_history := True, context_recorder := Some rec, alloc_trace_max_entries := max 1 m, record_context := RC_ALL\<rparr>"
  have "recordHistory True (Some rec) m RC_ALL s = (Inr (), ?t)" by (simp add: recordHistory_def sx_defs)
  moreover have "fst (sx_for as record_args ?t) = Inl OutOfBounds"
    using assms by (intro stranded_fails) (simp_all add: stranded_def ring_ok_def)
  ultimately show ?thesis by (simp add: sx_seq_def sx_bind_def)
qed

section \<open>Witnesses\<close>

definition ref_entry :: TraceEntry where
  "ref_entry = \<lparr>te_action = ALLOC, te_device = 0, te_addr = 4096, te_context = None, te_stream = 0, te_size = 512, te_mempool = (0, 0)\<rparr>"

definition ref_args :: "nat \<Rightarrow> trace_args" where
  "ref_args n = (ALLOC, 4096, n, 0, 0, (0, 0), None)"

definition ref_ring :: "nat \<Rightarrow> nat \<Rightarrow> ref_state dca" where
  "ref_ring n k = (DeviceCachingAllocator_ctor \<lparr>Drv = ref_driver, Cfg = SUPAAllocatorConfig_ctor, Lib = ref_lib, ActiveMemPool = None\<rparr>
      \<lparr>drv = ref_start 0, k_device = -1, event_pools = \<lambda>_. []\<rparr>)
     \<lparr>record_history := True, alloc_trace_max_entries := n, alloc_trace := replicate n ref_entry, alloc_trace_next := k\<rparr>"

lemma ref_ring_ok: "k < n \<Longrightarrow> ring_ok (ref_ring n k) \<and> record_history (ref_ring n k)"
  by (simp add: ring_ok_def ref_ring_def)


theorem lowered_limit_out_of_bounds_witness:
  "fst (sx_seq (recordHistory True (Some 7) 2 RC_ALL) (sx_for [ref_args 1, ref_args 2] record_args) (ref_ring 5 4)) = Inl OutOfBounds"
  using ref_ring_ok [of 4 5] by (intro lowered_limit_out_of_bounds) (simp_all add: ref_ring_def)

end
