(* ===== verification/Supa_Guard.thy ===== *)
theory Supa_Guard
  imports Supa_Runtime
begin

text \<open>
  The device guard: the device functions of \<^verbatim>\<open>core/supa/impl/SUPAGuardImpl.cpp\<close>, what the guard objects
  of the framework do with them, and the device queries of \<^verbatim>\<open>core/supa/SUPAFunctions.cpp\<close>. The record
  \<open>rt\<close> holds the runtime functions that the allocator does not use.
\<close>

section \<open>The rest of the runtime\<close>

record 'd rt =
  supaGetDeviceCount :: "('d, int) drv_out"
  supaDriverGetVersion :: "('d, int) drv_out"
  supaDeviceGetStreamPriorityRange :: "('d, int \<times> int) drv_out"
  supaStreamCreateWithPriority :: "int \<Rightarrow> ('d, nat) drv_out"
  supaStreamQuery :: "nat \<Rightarrow> 'd drv_call"
  supaStreamGetPriority :: "nat \<Rightarrow> ('d, int) drv_out"
  supaStreamWaitEvent :: "nat \<Rightarrow> nat \<Rightarrow> 'd drv_call"
  supaEventCreateFlags :: "nat \<Rightarrow> ('d, nat) drv_out"
  supaEventDestroy :: "nat \<Rightarrow> 'd drv_call"
  supaEventElapsedTime :: "nat \<Rightarrow> nat \<Rightarrow> ('d, rat) drv_out"
  supaIpcOpenEventHandle :: "string \<Rightarrow> ('d, nat) drv_out"
  supaIpcGetEventHandle :: "nat \<Rightarrow> ('d, string) drv_out"
  supaDeviceSynchronize :: "'d drv_call"
  supaDeviceCanAccessPeer :: "int \<Rightarrow> int \<Rightarrow> ('d, int) drv_out"
  supaDeviceEnablePeerAccess :: "int \<Rightarrow> 'd drv_call"
  supaMemcpy :: "nat \<Rightarrow> nat \<Rightarrow> nat \<Rightarrow> 'd drv_call"
  supaMemcpyAsync :: "nat \<Rightarrow> nat \<Rightarrow> nat \<Rightarrow> nat \<Rightarrow> 'd drv_call"
  supaMemcpyPeerAsync :: "nat \<Rightarrow> int \<Rightarrow> nat \<Rightarrow> int \<Rightarrow> nat \<Rightarrow> nat \<Rightarrow> 'd drv_call"
  supaIpcOpenMemHandle :: "string \<Rightarrow> ('d, nat) drv_out"
  supaIpcCloseMemHandle :: "nat \<Rightarrow> 'd drv_call"
  gpu_trace :: bool

text \<open>\<^verbatim>\<open>C10_SUPA_CHECK_WARN(call)\<close> clears the error and goes on.\<close>

definition check_warn :: "'d driver \<Rightarrow> supaError \<Rightarrow> ('d, unit) wx" where
  "check_warn D err = sx_when (err \<noteq> supaSuccess) (sx_bind (drv_call (supaGetLastError D)) (\<lambda>_. sx_ret ()))"

section \<open>Counting devices\<close>

definition driver_version :: "'d driver \<Rightarrow> 'd rt \<Rightarrow> ('d, int) wx" where
  "driver_version D R =
     sx_bind (drv_call (supaDriverGetVersion R)) (\<lambda>(err, version).
     if err \<noteq> supaSuccess then sx_bind (drv_call (supaGetLastError D)) (\<lambda>_. sx_ret (-1)) else sx_ret version)"

definition device_count_impl :: "'d driver \<Rightarrow> 'd rt \<Rightarrow> bool \<Rightarrow> ('d, int) wx" where
  "device_count_impl D R fail_if_no_driver =
     sx_bind (drv_call (supaGetDeviceCount R)) (\<lambda>(err, count).
     if err = supaSuccess then sx_ret count
     else sx_bind (drv_call (supaGetLastError D)) (\<lambda>_.
       if err = supaErrorNoDevice then sx_ret 0
       else if err = supaErrorInsufficientDriver then
         sx_bind (driver_version D R) (\<lambda>version.
         if version \<le> 0 then
           if \<not> fail_if_no_driver then sx_ret 0 else sx_throw (TorchCheck ''Found no SUPA driver on your system'')
         else sx_throw (TorchCheck ''The SUPA driver on your system is too old''))
       else if err = supaErrorUnknown then sx_throw (TorchCheck ''SUPA unknown error'')
       else if err = supaErrorMemoryAllocation then sx_throw (TorchCheck ''Got out of memory error while trying to initialize SUPA'')
       else sx_throw (TorchCheck ''Unexpected error from supaGetDeviceCount()'')))"

definition device_count_ensure_non_zero :: "'d driver \<Rightarrow> 'd rt \<Rightarrow> ('d, int) wx" where
  "device_count_ensure_non_zero D R =
     sx_bind (device_count_impl D R True) (\<lambda>count.
     sx_seq (sx_check (count \<noteq> 0) (TorchCheck ''No BIREN GPUs are available'')) (sx_ret count))"

definition current_device :: "'d driver \<Rightarrow> ('d, int) wx" where
  "current_device D = sx_bind (GetDevice D) (\<lambda>(err, device). sx_seq (check_err err) (sx_ret device))"

definition set_device :: "'d driver \<Rightarrow> int \<Rightarrow> bool \<Rightarrow> ('d, unit) wx" where
  "set_device D device force = sx_bind (SetDevice D device force) check_err"

definition device_synchronize :: "'d rt \<Rightarrow> ('d, unit) wx" where
  "device_synchronize R = supa_check (supaDeviceSynchronize R)"

text \<open>The first device of the list that has a context.\<close>

fun first_with_context :: "'d driver \<Rightarrow> int \<Rightarrow> int list \<Rightarrow> ('d, int option) wx" where
  "first_with_context D cur [] = sx_ret None"
| "first_with_context D cur (i # is) =
     (if i = cur then first_with_context D cur is
      else sx_bind (hasPrimaryContext D i) (\<lambda>has. if has then sx_ret (Some i) else first_with_context D cur is))"

definition getDeviceIndexWithPrimaryContext :: "'d driver \<Rightarrow> ('d, int option) wx" where
  "getDeviceIndexWithPrimaryContext D =
     sx_bind (current_device D) (\<lambda>cur.
     sx_bind (if 0 \<le> cur then hasPrimaryContext D cur else sx_ret False) (\<lambda>has.
     if has then sx_ret (Some cur) else first_with_context D cur [0 .. device_count D - 1]))"

definition canDeviceAccessPeer :: "'d driver \<Rightarrow> 'd rt \<Rightarrow> int \<Rightarrow> int \<Rightarrow> ('d, bool) wx" where
  "canDeviceAccessPeer D R device peer_device =
     sx_bind (if device = -1 then current_device D else sx_ret device) (\<lambda>device.
     sx_seq (sx_check (0 \<le> device \<and> device < device_count D) (TorchCheck ''device''))
     (sx_seq (sx_check (0 \<le> peer_device \<and> peer_device < device_count D) (TorchCheck ''peer_device''))
     (sx_bind (supa_check_out (supaDeviceCanAccessPeer R device peer_device)) (\<lambda>can_access. sx_ret (can_access \<noteq> 0)))))"

section \<open>The guard implementation\<close>

definition exchangeDevice :: "'d driver \<Rightarrow> int \<Rightarrow> ('d, int) wx" where
  "exchangeDevice D i = ExchangeDevice D i"

definition getDevice :: "'d driver \<Rightarrow> ('d, int) wx" where
  "getDevice D = sx_bind (GetDevice D) (\<lambda>(err, device). sx_seq (check_err err) (sx_ret device))"

definition uncheckedGetDevice :: "'d driver \<Rightarrow> ('d, int option) wx" where
  "uncheckedGetDevice D = sx_noexcept
     (sx_bind (GetDevice D) (\<lambda>(err, device).
      sx_seq (check_warn D err) (sx_ret (if err \<noteq> supaSuccess then None else Some device))))"

definition setDevice :: "'d driver \<Rightarrow> int \<Rightarrow> ('d, unit) wx" where
  "setDevice D i = sx_bind (SetDevice D i False) check_err"

definition uncheckedSetDevice :: "'d driver \<Rightarrow> int \<Rightarrow> ('d, unit) wx" where
  "uncheckedSetDevice D i = sx_noexcept (sx_bind (SetDevice D i False) (check_warn D))"

text \<open>
  A \<^verbatim>\<open>SUPAGuard\<close> object around a block of code that works on a state with a world in it: the
  framework's guard exchanges the device when it is made (the index \<open>-1\<close> leaves it alone) and sets it
  back when it is destroyed.
\<close>

definition guarded ::
  "('s \<Rightarrow> 'd world) \<Rightarrow> (('d world \<Rightarrow> 'd world) \<Rightarrow> 's \<Rightarrow> 's) \<Rightarrow> 'd driver \<Rightarrow> int \<Rightarrow> ('s, exn, 'a) sx \<Rightarrow> ('s, exn, 'a) sx" where
  "guarded sel upd D device m =
     sx_bind (sx_field sel upd (if device = -1 then getDevice D else exchangeDevice D device)) (\<lambda>original.
     sx_finally m (sx_field sel upd (uncheckedSetDevice D original)))"

abbreviation guard_world :: "'d driver \<Rightarrow> int \<Rightarrow> ('d, 'a) wx \<Rightarrow> ('d, 'a) wx" where
  "guard_world \<equiv> guarded (\<lambda>w. w) (\<lambda>f. f)"

section \<open>Lemmas on the guard\<close>

text \<open>A part of the driver's state that switching devices does not touch.\<close>

definition device_neutral :: "'d driver \<Rightarrow> ('d \<Rightarrow> 'g) \<Rightarrow> bool" where
  "device_neutral D g \<longleftrightarrow> (\<forall>i d. g (snd (supaSetDevice D i d)) = g d)"

lemma wp_getDevice:
  assumes "device_calls_ok D cur"
  shows "wp (getDevice D) Q E w = Q (thread_device cur w) w"
  by (simp add: getDevice_def wp_GetDevice [OF assms])

lemma wp_current_device:
  assumes "device_calls_ok D cur"
  shows "wp (current_device D) Q E w = Q (thread_device cur w) w"
  by (simp add: current_device_def wp_GetDevice [OF assms])

lemma thread_device_bounds:
  assumes "device_calls_ok D cur" and "0 \<le> k_device w \<Longrightarrow> k_device w < device_count D"
  shows "0 \<le> thread_device cur w" and "thread_device cur w < device_count D"
  using assms by (auto simp: thread_device_def device_calls_ok_def)

text \<open>
  A runtime that accepts every device it counts; with it, the guard's destructor selects the device
  it saved.
\<close>

definition accepts_devices :: "'d driver \<Rightarrow> bool" where
  "accepts_devices D \<longleftrightarrow> (\<forall>i d. 0 \<le> i \<longrightarrow> i < device_count D \<longrightarrow> fst (supaSetDevice D i d) = supaSuccess)"

lemma set_device_call:
  assumes "device_calls_ok D cur" and "accepts_devices D" and "device_neutral D g" and "0 \<le> i" and "i < device_count D"
  obtains d' where "supaSetDevice D i d = (supaSuccess, d')" and "cur d' = i" and "g d' = g d"
proof -
  obtain d' where s: "supaSetDevice D i d = (supaSuccess, d')"
    using assms(2,4,5) unfolding accepts_devices_def by (metis prod.collapse)
  moreover have "cur d' = i" using assms(1) s unfolding device_calls_ok_def by blast
  moreover have "g d' = g d" using assms(3) s unfolding device_neutral_def by (metis snd_conv)
  ultimately show thesis using that by blast
qed

text \<open>The world after a switch to a device.\<close>

definition switched :: "('d \<Rightarrow> int) \<Rightarrow> ('d \<Rightarrow> 'g) \<Rightarrow> int \<Rightarrow> 'd world \<Rightarrow> 'd world \<Rightarrow> bool" where
  "switched cur g i w w' \<longleftrightarrow> k_device w' = -1 \<and> cur (drv w') = i \<and> g (drv w') = g (drv w) \<and> event_pools w' = event_pools w"

lemma switched_device [simp]: "switched cur g i w w' \<Longrightarrow> thread_device cur w' = i"
  by (simp add: switched_def thread_device_def)

lemma wp_uncheckedSetDevice:
  assumes "device_calls_ok D cur" and "accepts_devices D" and "device_neutral D g" and "0 \<le> i" and "i < device_count D"
  shows "wp (uncheckedSetDevice D i) (\<lambda>_. switched cur g i w) (\<lambda>_ _. False) w"
proof -
  obtain d' where "supaSetDevice D i (drv w) = (supaSuccess, d')" "cur d' = i" "g d' = g (drv w)"
    using set_device_call [OF assms] .
  then show ?thesis
    using assms(1,4) by (auto simp: uncheckedSetDevice_def SetDevice_def check_warn_def wp_if switched_def device_calls_ok_def)
qed

lemma wp_exchangeDevice:
  assumes "device_calls_ok D cur" and "accepts_devices D" and "device_neutral D g" and "0 \<le> i" and "i < device_count D"
  shows "wp (exchangeDevice D i) (\<lambda>old w'. old = thread_device cur w \<and> switched cur g i w w') (\<lambda>_ _. False) w"
proof -
  obtain d' where "supaSetDevice D i (drv w) = (supaSuccess, d')" "cur d' = i" "g d' = g (drv w)"
    using set_device_call [OF assms] .
  then show ?thesis
    using assms(1) by (auto simp: exchangeDevice_def ExchangeDevice_def thread_device_def wp_if switched_def device_calls_ok_def)
qed

text \<open>The rule of the guard: the body runs on the device, and the thread is back on its device after it.\<close>

lemma wp_guarded:
  assumes dc: "device_calls_ok D cur" and ad: "accepts_devices D" and dn: "device_neutral D g" and i: "0 \<le> i" "i < device_count D"
    and k: "0 \<le> k_device (sel s) \<Longrightarrow> k_device (sel s) < device_count D"
    and m: "\<And>w. switched cur g i (sel s) w \<Longrightarrow>
      wp m (\<lambda>x t. \<forall>w'. switched cur g (thread_device cur (sel s)) (sel t) w' \<longrightarrow> Q x (upd (\<lambda>_. w') t))
        (\<lambda>e t. \<forall>w'. switched cur g (thread_device cur (sel s)) (sel t) w' \<longrightarrow> E e (upd (\<lambda>_. w') t)) (upd (\<lambda>_. w) s)"
  shows "wp (guarded sel upd D i m) Q E s"
proof -
  let ?old = "thread_device cur (sel s)"
  have ob: "0 \<le> ?old" "?old < device_count D" using thread_device_bounds [OF dc k] by auto
  have restore: "wp (sx_field sel upd (uncheckedSetDevice D ?old)) (\<lambda>_. P) X t"
    if "\<forall>w'. switched cur g ?old (sel t) w' \<longrightarrow> P (upd (\<lambda>_. w') t)" for P X t
    unfolding wp_field by (rule wp_conseq [OF wp_uncheckedSetDevice [OF dc ad dn ob]]) (use that in auto)
  have "wp (exchangeDevice D i) (\<lambda>original w. wp (sx_finally m (sx_field sel upd (uncheckedSetDevice D original))) Q E (upd (\<lambda>_. w) s))
      (\<lambda>e w. E e (upd (\<lambda>_. w) s)) (sel s)"
  proof (rule wp_conseq [OF wp_exchangeDevice [OF dc ad dn i]], elim conjE, goal_cases)
    case (1 original w)
    show ?case
      unfolding wp_finally 1(1) by (rule wp_conseq [OF m [OF 1(2)]]; rule restore; assumption)
  qed simp
  moreover have "i \<noteq> -1" using i(1) by simp
  ultimately show ?thesis unfolding guarded_def wp_bind wp_field by simp
qed

lemma ref_accepts_devices: "accepts_devices ref_driver"
  by (simp add: accepts_devices_def ref_driver_def)

lemma ref_device_neutral: "device_neutral ref_driver ref_live"
  by (simp add: device_neutral_def ref_driver_def ref_live_def)

text \<open>The rest of the reference runtime: streams and events get handles above all others.\<close>

definition ref_rt :: "ref_state rt" where
  "ref_rt =
     \<lparr>supaGetDeviceCount = \<lambda>d. ((supaSuccess, 2), d), supaDriverGetVersion = \<lambda>d. ((supaSuccess, 1), d),
      supaDeviceGetStreamPriorityRange = \<lambda>d. ((supaSuccess, 0, -1), d),
      supaStreamCreateWithPriority = \<lambda>pri d. let h = Suc (sum_list (map fst (ref_made d))) in
        ((supaSuccess, h), d\<lparr>ref_made := (h, ref_current d, pri) # ref_made d\<rparr>),
      supaStreamQuery = \<lambda>_. ref_ok, supaStreamGetPriority = \<lambda>_ d. ((supaSuccess, 0), d), supaStreamWaitEvent = \<lambda>_ _. ref_ok,
      supaEventCreateFlags = \<lambda>_ d. let h = Suc (sum_list (ref_open d)) in ((supaSuccess, h), d\<lparr>ref_open := h # ref_open d\<rparr>),
      supaEventDestroy = \<lambda>e d. (supaSuccess, d\<lparr>ref_open := filter (\<lambda>h. h \<noteq> e) (ref_open d)\<rparr>),
      supaEventElapsedTime = \<lambda>_ _ d. ((supaSuccess, 0), d),
      supaIpcOpenEventHandle = \<lambda>_ d. let h = Suc (sum_list (ref_open d)) in ((supaSuccess, h), d\<lparr>ref_open := h # ref_open d\<rparr>),
      supaIpcGetEventHandle = \<lambda>_ d. ((supaSuccess, ''e''), d), supaDeviceSynchronize = ref_ok,
      supaDeviceCanAccessPeer = \<lambda>_ _ d. ((supaSuccess, 1), d), supaDeviceEnablePeerAccess = \<lambda>_. ref_ok,
      supaMemcpy = \<lambda>_ _ _. ref_ok, supaMemcpyAsync = \<lambda>_ _ _ _. ref_ok, supaMemcpyPeerAsync = \<lambda>_ _ _ _ _ _. ref_ok,
      supaIpcOpenMemHandle = \<lambda>h d. let p = Suc (sum_list (map snd (ref_ipc d))) in ((supaSuccess, p), d\<lparr>ref_ipc := (h, p) # ref_ipc d\<rparr>),
      supaIpcCloseMemHandle = \<lambda>p d. (supaSuccess, d\<lparr>ref_ipc := filter (\<lambda>x. snd x \<noteq> p) (ref_ipc d)\<rparr>), gpu_trace = False\<rparr>"

end
