(* ===== verification/Supa_Stream.thy ===== *)
theory Supa_Stream
  imports Supa_Guard
begin

text \<open>
  The streams of \<^verbatim>\<open>core/supa/SUPAStream.cpp\<close>: stream identifiers, the pools of streams of every device
  and priority, the current stream of a thread, and the stream functions of
  \<^verbatim>\<open>core/supa/impl/SUPAGuardImpl.cpp\<close>.
\<close>

unbundle bit_operations_syntax

section \<open>Stream identifiers\<close>

definition kStreamsPerPoolBits :: nat where
  "kStreamsPerPoolBits = 5"

definition kStreamsPerPool :: nat where
  "kStreamsPerPool = 2 ^ kStreamsPerPoolBits"

definition kStreamTypeBits :: nat where
  "kStreamTypeBits = 4"

definition max_compile_time_stream_priorities :: int where
  "max_compile_time_stream_priorities = 4"

definition C10_COMPILE_TIME_MAX_SUPA_GPUS :: int where
  "C10_COMPILE_TIME_MAX_SUPA_GPUS = 16"

type_synonym StreamId = "64 word"
type_synonym StreamIdType = "8 word"

definition DEFAULT :: StreamIdType where
  "DEFAULT = 0"

definition EXT :: StreamIdType where
  "EXT = 15"

definition streamIdType :: "StreamId \<Rightarrow> ('s, exn, StreamIdType) sx" where
  "streamIdType s =
     (if s AND 1 = 0 \<and> s \<noteq> 0 then sx_ret EXT
      else let val = signed_drop_bit 1 s AND mask kStreamTypeBits in
        sx_seq (sx_check (val \<noteq> 0 \<or> s AND 1 = 0) (InternalAssert ''invalid StreamId'')) (sx_ret (ucast val)))"

definition streamIdIndex :: "StreamId \<Rightarrow> nat" where
  "streamIdIndex s = unat (signed_drop_bit (kStreamTypeBits + 1) s AND mask kStreamsPerPoolBits)"

definition makeStreamId :: "StreamIdType \<Rightarrow> nat \<Rightarrow> StreamId" where
  "makeStreamId st si =
     (if st = DEFAULT then 0
      else push_bit (kStreamTypeBits + 1) (of_nat si) OR ucast (push_bit 1 (ucast st :: 32 word)) OR 1)"

record SUPAStream =
  s_device :: int
  s_id :: StreamId

definition SUPAStreamForId :: "int \<Rightarrow> StreamId \<Rightarrow> SUPAStream" where
  "SUPAStreamForId device_index stream_id = \<lparr>s_device = device_index, s_id = stream_id\<rparr>"

section \<open>The state\<close>

text \<open>
  The global arrays are indexed by priority and device; \<^verbatim>\<open>at\<close> checks both indices. The current streams
  belong to the thread: a null array is \<open>None\<close>, the array has one entry per device and is accessed
  without a check, and an access outside of it is the outcome \<open>OutOfBounds\<close>.
\<close>

datatype SyncDebugMode = L_DISABLED | L_WARN | L_ERROR

record 'd strm =
  st_world :: "'d world"
  init_flag :: bool
  num_gpus :: int
  max_stream_priorities :: int
  device_flags :: "int \<Rightarrow> bool"
  priority_counters :: "int \<Rightarrow> int \<Rightarrow> 32 word"
  streams :: "int \<Rightarrow> int \<Rightarrow> nat \<Rightarrow> nat"
  current_streams :: "(int \<Rightarrow> StreamId) option"
  sync_debug_mode :: SyncDebugMode

type_synonym ('d, 'a) stx = "('d strm, exn, 'a) sx"

abbreviation on_stw :: "('d, 'a) wx \<Rightarrow> ('d, 'a) stx" where
  "on_stw \<equiv> sx_field st_world st_world_update"

abbreviation st_guard :: "'d driver \<Rightarrow> int \<Rightarrow> ('d, 'a) stx \<Rightarrow> ('d, 'a) stx" where
  "st_guard \<equiv> guarded st_world st_world_update"

definition initial_streams :: "'d world \<Rightarrow> 'd strm" where
  "initial_streams w = \<lparr>st_world = w, init_flag = False, num_gpus = -1, max_stream_priorities = 0, device_flags = \<lambda>_. False,
     priority_counters = \<lambda>_ _. 0, streams = \<lambda>_ _ _. 0, current_streams = None, sync_debug_mode = L_DISABLED\<rparr>"

text \<open>The bounds check of \<^verbatim>\<open>at(p).at(device_index)\<close>.\<close>

definition check_at :: "int \<Rightarrow> int \<Rightarrow> ('d, unit) stx" where
  "check_at p device_index = sx_check (0 \<le> p \<and> p < max_compile_time_stream_priorities
     \<and> 0 \<le> device_index \<and> device_index < C10_COMPILE_TIME_MAX_SUPA_GPUS) StdOutOfRange"

section \<open>Initialisation\<close>

definition initGlobalStreamState :: "'d driver \<Rightarrow> 'd rt \<Rightarrow> ('d, unit) stx" where
  "initGlobalStreamState D R =
     sx_seq (sx_mod (\<lambda>s. s\<lparr>num_gpus := device_count D\<rparr>))
     (sx_seq (sx_check (device_count D \<le> C10_COMPILE_TIME_MAX_SUPA_GPUS)
        (TorchCheck ''Number of SUPA devices on the machine is larger than the compiled max number of gpus''))
     (sx_bind (on_stw (supa_check_out (supaDeviceGetStreamPriorityRange R))) (\<lambda>(leastPriority, greatestPriority).
      let range = leastPriority - greatestPriority + 1 in
      sx_mod (\<lambda>s. s\<lparr>max_stream_priorities :=
        (if max_compile_time_stream_priorities \<le> range then max_compile_time_stream_priorities else range)\<rparr>))))"

definition initSingleStream :: "'d driver \<Rightarrow> 'd rt \<Rightarrow> int \<Rightarrow> int \<Rightarrow> nat \<Rightarrow> ('d, unit) stx" where
  "initSingleStream D R p device_index i =
     st_guard D device_index
       (sx_seq (check_at p device_index)
       (sx_seq (sx_check (i < kStreamsPerPool) StdOutOfRange)
       (sx_bind (on_stw (supa_check_out (supaStreamCreateWithPriority R (- p)))) (\<lambda>h.
        sx_seq (sx_mod (\<lambda>s. s\<lparr>streams := (streams s)(p := (streams s p)(device_index := (streams s p device_index)(i := h)))\<rparr>))
        (sx_when (gpu_trace R) (sx_mod (\<lambda>s. s\<lparr>priority_counters :=
           (priority_counters s)(p := (priority_counters s p)(device_index := 0))\<rparr>)))))))"

definition initDeviceStreamState :: "'d driver \<Rightarrow> 'd rt \<Rightarrow> int \<Rightarrow> ('d, unit) stx" where
  "initDeviceStreamState D R device_index =
     st_guard D device_index
       (sx_bind (sx_get max_stream_priorities) (\<lambda>m.
        sx_for [0 ..< kStreamsPerPool] (\<lambda>i.
          sx_for [0 .. m - 1] (\<lambda>p. initSingleStream D R p device_index i))))"

definition initSUPAStreamsOnce :: "'d driver \<Rightarrow> 'd rt \<Rightarrow> ('d, unit) stx" where
  "initSUPAStreamsOnce D R =
     sx_seq (sx_once init_flag (\<lambda>s. s\<lparr>init_flag := True\<rparr>) (initGlobalStreamState D R))
     (sx_mod (\<lambda>s. case current_streams s of Some _ \<Rightarrow> s
        | None \<Rightarrow> s\<lparr>current_streams := Some (\<lambda>_. makeStreamId DEFAULT 0)\<rparr>))"

definition check_gpu :: "int \<Rightarrow> ('d, unit) stx" where
  "check_gpu device_index = sx_bind (sx_get num_gpus) (\<lambda>n.
     sx_check (0 \<le> device_index \<and> device_index < n) (TorchCheck ''Device index value is out of index range''))"

text \<open>The counter is a 32-bit number that wraps around.\<close>

definition get_idx :: "int \<Rightarrow> int \<Rightarrow> ('d, nat) stx" where
  "get_idx p device_index =
     sx_bind (sx_get (\<lambda>s. priority_counters s p device_index)) (\<lambda>raw_idx.
     sx_seq (sx_mod (\<lambda>s. s\<lparr>priority_counters :=
       (priority_counters s)(p := (priority_counters s p)(device_index := raw_idx + 1))\<rparr>))
     (sx_ret (unat (raw_idx mod of_nat kStreamsPerPool))))"

section \<open>Operations\<close>

definition stream_of :: "SUPAStream \<Rightarrow> ('d, nat) stx" where
  "stream_of x =
     sx_bind (streamIdType (s_id x)) (\<lambda>st.
     let si = streamIdIndex (s_id x) in
     if st = DEFAULT then sx_seq (sx_check (si = 0) (InternalAssert ''Unrecognized stream'')) (sx_ret 0)
     else if st = EXT then sx_ret (unat (s_id x))
     else sx_bind (sx_get (\<lambda>s. s)) (\<lambda>s.
       sx_seq (sx_check (1 \<le> uint st \<and> uint st \<le> max_stream_priorities s) (InternalAssert ''I did not recognize the stream type''))
       (sx_seq (check_at (uint st - 1) (s_device x))
       (sx_seq (sx_check (si < kStreamsPerPool) StdOutOfRange)
       (sx_ret (streams s (uint st - 1) (s_device x) si))))))"

definition priority_range :: "'d rt \<Rightarrow> ('d, int \<times> int) stx" where
  "priority_range R =
     sx_bind (on_stw (supa_check_out (supaDeviceGetStreamPriorityRange R))) (\<lambda>(least_priority, greatest_priority).
     sx_seq (sx_check (least_priority = 0) (InternalAssert ''Unexpected SUPA stream priority range''))
     (sx_seq (sx_check (greatest_priority \<le> -1) (InternalAssert ''Unexpected SUPA stream priority range''))
     (sx_ret (least_priority, max (- max_compile_time_stream_priorities + 1) greatest_priority))))"

text \<open>The device argument: \<open>-1\<close> stands for the device of the thread, which is made current.\<close>

definition resolve_device :: "'d driver \<Rightarrow> int \<Rightarrow> ('d, int) stx" where
  "resolve_device D device_index =
     (if device_index = -1
      then sx_bind (on_stw (current_device D)) (\<lambda>i. sx_seq (on_stw (SetTargetDevice D)) (sx_ret i))
      else sx_ret device_index)"

definition clamp :: "int \<Rightarrow> int \<Rightarrow> int \<Rightarrow> int" where
  "clamp v lo hi = (if v < lo then lo else if hi < v then hi else v)"

definition take_from_pool :: "'d driver \<Rightarrow> 'd rt \<Rightarrow> int \<Rightarrow> int \<Rightarrow> ('d, SUPAStream) stx" where
  "take_from_pool D R priority i =
     sx_seq (check_gpu i)
     (sx_seq (sx_check (0 \<le> i \<and> i < C10_COMPILE_TIME_MAX_SUPA_GPUS) StdOutOfRange)
     (sx_seq (sx_once (\<lambda>s. device_flags s i) (\<lambda>s. s\<lparr>device_flags := (device_flags s)(i := True)\<rparr>) (initDeviceStreamState D R i))
     (sx_bind (sx_get max_stream_priorities) (\<lambda>m.
      let pri_idx = clamp (- priority) 0 (m - 1) in
      sx_seq (check_at pri_idx i)
      (sx_bind (get_idx pri_idx i) (\<lambda>idx.
       sx_ret (SUPAStreamForId i (makeStreamId (of_int (pri_idx + 1)) idx))))))))"

definition getStreamFromPool :: "'d driver \<Rightarrow> 'd rt \<Rightarrow> int \<Rightarrow> int \<Rightarrow> ('d, SUPAStream) stx" where
  "getStreamFromPool D R priority device_index =
     sx_seq (initSUPAStreamsOnce D R)
     (sx_bind (resolve_device D device_index) (take_from_pool D R priority))"

definition getStreamFromPool_high :: "'d driver \<Rightarrow> 'd rt \<Rightarrow> bool \<Rightarrow> int \<Rightarrow> ('d, SUPAStream) stx" where
  "getStreamFromPool_high D R isHighPriority device =
     sx_seq (initSUPAStreamsOnce D R)
     (sx_bind (sx_get max_stream_priorities) (\<lambda>m.
      getStreamFromPool D R (if isHighPriority then - m + 1 else 0) device))"

definition getStreamFromExternal :: "nat \<Rightarrow> int \<Rightarrow> SUPAStream" where
  "getStreamFromExternal ext_stream device_index = SUPAStreamForId device_index (of_nat ext_stream)"

definition getDefaultSUPAStream :: "'d driver \<Rightarrow> 'd rt \<Rightarrow> int \<Rightarrow> ('d, SUPAStream) stx" where
  "getDefaultSUPAStream D R device_index =
     sx_seq (initSUPAStreamsOnce D R)
     (sx_bind (resolve_device D device_index) (\<lambda>i.
      sx_seq (check_gpu i) (sx_ret (SUPAStreamForId i (makeStreamId DEFAULT 0)))))"

text \<open>An access to the array of current streams.\<close>

definition current_at :: "int \<Rightarrow> ('d, int \<Rightarrow> StreamId) stx" where
  "current_at i = sx_bind (sx_get (\<lambda>s. s)) (\<lambda>s. case current_streams s of None \<Rightarrow> sx_throw UseAfterFree
     | Some cs \<Rightarrow> if 0 \<le> i \<and> i < num_gpus s then sx_ret cs else sx_throw OutOfBounds)"

definition getCurrentSUPAStream :: "'d driver \<Rightarrow> 'd rt \<Rightarrow> int \<Rightarrow> ('d, SUPAStream) stx" where
  "getCurrentSUPAStream D R device_index =
     sx_seq (initSUPAStreamsOnce D R)
     (sx_bind (resolve_device D device_index) (\<lambda>i.
      sx_seq (check_gpu i) (sx_bind (current_at i) (\<lambda>cs. sx_ret (SUPAStreamForId i (cs i))))))"

definition setCurrentSUPAStream :: "'d driver \<Rightarrow> 'd rt \<Rightarrow> SUPAStream \<Rightarrow> ('d, unit) stx" where
  "setCurrentSUPAStream D R x =
     sx_seq (initSUPAStreamsOnce D R)
     (sx_bind (current_at (s_device x)) (\<lambda>cs.
      sx_mod (\<lambda>s. s\<lparr>current_streams := Some (cs(s_device x := s_id x))\<rparr>)))"

definition stream_query :: "'d driver \<Rightarrow> 'd rt \<Rightarrow> SUPAStream \<Rightarrow> ('d, bool) stx" where
  "stream_query D R x =
     sx_bind (stream_of x) (\<lambda>h.
     sx_bind (on_stw (drv_call (supaStreamQuery R h))) (\<lambda>err.
     if err = supaSuccess then sx_ret True
     else sx_seq (sx_when (err \<noteq> supaErrorNotReady) (check_err err))
       (sx_bind (on_stw (drv_call (supaGetLastError D))) (\<lambda>_. sx_ret False))))"

definition stream_priority :: "'d driver \<Rightarrow> 'd rt \<Rightarrow> SUPAStream \<Rightarrow> ('d, int) stx" where
  "stream_priority D R x =
     st_guard D (s_device x) (sx_bind (stream_of x) (\<lambda>h. on_stw (supa_check_out (supaStreamGetPriority R h))))"

definition warn_or_error_on_sync :: "('d, unit) stx" where
  "warn_or_error_on_sync = sx_bind (sx_get sync_debug_mode) (\<lambda>m.
     sx_check (m \<noteq> L_ERROR) (TorchCheck ''called a synchronizing SUPA operation''))"

definition stream_synchronize :: "'d driver \<Rightarrow> nat \<Rightarrow> ('d, unit) stx" where
  "stream_synchronize D h =
     sx_bind (sx_get sync_debug_mode) (\<lambda>m.
     sx_seq (sx_when (m \<noteq> L_DISABLED) warn_or_error_on_sync)
     (on_stw (supa_check (supaStreamSynchronize D h))))"

definition memcpy_and_sync :: "'d driver \<Rightarrow> 'd rt \<Rightarrow> nat \<Rightarrow> nat \<Rightarrow> nat \<Rightarrow> nat \<Rightarrow> ('d, unit) stx" where
  "memcpy_and_sync D R dst src nbytes h =
     sx_bind (sx_get sync_debug_mode) (\<lambda>m.
     sx_seq (sx_when (m \<noteq> L_DISABLED) warn_or_error_on_sync)
     (sx_seq (on_stw (supa_check (supaMemcpyAsync R dst src nbytes h)))
     (on_stw (supa_check (supaStreamSynchronize D h)))))"

definition synchronize :: "'d driver \<Rightarrow> SUPAStream \<Rightarrow> ('d, unit) stx" where
  "synchronize D x = st_guard D (s_device x) (sx_bind (stream_of x) (stream_synchronize D))"

section \<open>The stream functions of the guard\<close>

definition guard_getStream :: "'d driver \<Rightarrow> 'd rt \<Rightarrow> int \<Rightarrow> ('d, SUPAStream) stx" where
  "guard_getStream D R i = sx_noexcept (getCurrentSUPAStream D R i)"

definition guard_getDefaultStream :: "'d driver \<Rightarrow> 'd rt \<Rightarrow> int \<Rightarrow> ('d, SUPAStream) stx" where
  "guard_getDefaultStream D R i = getCurrentSUPAStream D R i"

definition getStreamFromGlobalPool :: "'d driver \<Rightarrow> 'd rt \<Rightarrow> int \<Rightarrow> bool \<Rightarrow> ('d, SUPAStream) stx" where
  "getStreamFromGlobalPool D R i isHighPriority = getStreamFromPool_high D R isHighPriority i"

definition getNewStream :: "'d driver \<Rightarrow> 'd rt \<Rightarrow> int \<Rightarrow> int \<Rightarrow> ('d, SUPAStream) stx" where
  "getNewStream D R i priority = getStreamFromPool D R priority i"

definition exchangeStream :: "'d driver \<Rightarrow> 'd rt \<Rightarrow> SUPAStream \<Rightarrow> ('d, SUPAStream) stx" where
  "exchangeStream D R x = sx_noexcept
     (sx_bind (getCurrentSUPAStream D R (s_device x)) (\<lambda>old_stream.
      sx_seq (setCurrentSUPAStream D R x) (sx_ret old_stream)))"

section \<open>Lemmas on identifiers\<close>

lemmas stream_constants = kStreamsPerPoolBits_def kStreamsPerPool_def kStreamTypeBits_def DEFAULT_def EXT_def
  max_compile_time_stream_priorities_def C10_COMPILE_TIME_MAX_SUPA_GPUS_def

text \<open>The three fields of an identifier occupy different bits.\<close>

lemma small_bits:
  assumes "si < 2 ^ k" and "bit (of_nat si :: 'a::len word) n"
  shows "n < k"
proof -
  have "of_nat si = take_bit k (of_nat si :: 'a word)"
    using assms(1) by (metis take_bit_nat_eq_self take_bit_of_nat)
  then show ?thesis using assms(2) by (metis bit_take_bit_iff)
qed

lemma type_bits:
  fixes st :: "8 word"
  assumes "unat st < 16" and "bit st n"
  shows "n < 4"
  using small_bits [of "unat st" 4 n, where ?'a = 8] assms by simp

definition type_field :: "8 word \<Rightarrow> 64 word" where
  "type_field st = ucast (push_bit 1 (ucast st :: 32 word))"

lemma bit_type_field: "unat st < 16 \<Longrightarrow> bit (type_field st) n \<longleftrightarrow> 0 < n \<and> bit st (n - 1)"
  using type_bits [of st "n - 1"] unfolding type_field_def bit_ucast_iff bit_push_bit_iff by auto

lemma id_index:
  assumes "unat st < 16" and "si < 32"
  shows "signed_drop_bit 5 (push_bit 5 (of_nat si) OR type_field st OR 1) AND mask 5 = (of_nat si :: 64 word)"
proof (rule bit_word_eqI)
  fix n assume "n < LENGTH(64)"
  then show "bit (signed_drop_bit 5 (push_bit 5 (of_nat si) OR type_field st OR 1) AND mask 5 :: 64 word) n
      = bit (of_nat si :: 64 word) n"
    using type_bits [OF assms(1), of "n + 4"] small_bits [of si 5 n, where ?'a = 64] assms(2)
    by (auto simp: bit_simps bit_signed_drop_bit_iff bit_type_field [OF assms(1)] not_le add.commute)
qed

lemma id_type:
  assumes "unat st < 16"
  shows "signed_drop_bit 1 (push_bit 5 a OR type_field st OR 1) AND mask 4 = (ucast st :: 64 word)"
proof (rule bit_word_eqI)
  fix n assume "n < LENGTH(64)"
  then show "bit (signed_drop_bit 1 (push_bit 5 a OR type_field st OR 1) AND mask 4) n = bit (ucast st :: 64 word) n"
    using type_bits [OF assms(1), of n] by (auto simp: bit_simps bit_signed_drop_bit_iff bit_type_field [OF assms(1)] not_le)
qed

lemma id_odd:
  assumes "unat st < 16"
  shows "(push_bit 5 a OR type_field st OR 1) AND 1 = 1"
  by (rule bit_word_eqI) (auto simp: bit_simps bit_type_field [OF assms])

lemma id_sign:
  assumes "unat st < 16" and "si < 32"
  shows "\<not> bit (push_bit 5 (of_nat si) OR type_field st OR 1) 63"
  using type_bits [OF assms(1), of 62] small_bits [of si 5 58, where ?'a = 64] assms(2)
  by (auto simp: bit_simps bit_type_field [OF assms(1)])

lemma makeStreamId_fields: "st \<noteq> 0 \<Longrightarrow> makeStreamId st si = push_bit 5 (of_nat si) OR type_field st OR 1"
  by (simp add: makeStreamId_def stream_constants type_field_def)

lemma native_id:
  assumes "st \<noteq> 0" and "unat st < 16" and "si < 32"
  shows "streamIdType (makeStreamId st si) = sx_ret st" and "streamIdIndex (makeStreamId st si) = si"
    and "makeStreamId st si AND 1 = 1" and "makeStreamId st si \<noteq> 0" and "0 \<le> sint (makeStreamId st si)"
proof -
  note f = makeStreamId_fields [OF assms(1), of si]
  show odd: "makeStreamId st si AND 1 = 1" unfolding f by (rule id_odd [OF assms(2)])
  then show "makeStreamId st si \<noteq> 0" by auto
  have t: "signed_drop_bit 1 (makeStreamId st si) AND mask 4 = ucast st" unfolding f by (rule id_type [OF assms(2)])
  moreover have u: "unat (ucast st :: 64 word) = unat st" by (simp add: unat_ucast_up)
  moreover have "(ucast st :: 64 word) \<noteq> 0" using assms(1) u by (metis unsigned_0 unsigned_word_eqI)
  moreover have "(ucast (ucast st :: 64 word) :: 8 word) = st" by (rule bit_word_eqI) (simp add: bit_simps)
  ultimately show "streamIdType (makeStreamId st si) = sx_ret st"
    using odd by (simp add: streamIdType_def stream_constants Let_def sx_check_def sx_seq_def sx_bind_def sx_ret_def)
  have "signed_drop_bit 5 (makeStreamId st si) AND mask 5 = of_nat si" unfolding f by (rule id_index [OF assms(2,3)])
  then show "streamIdIndex (makeStreamId st si) = si"
    using assms(3) by (simp add: streamIdIndex_def stream_constants unat_of_nat)
  show "0 \<le> sint (makeStreamId st si)" using id_sign [OF assms(2,3)] bit_last_iff [of "makeStreamId st si"] unfolding f by (simp add: not_less)
qed

end
