(* ===== verification/Stream_Pools.thy ===== *)
theory Stream_Pools
  imports Supa_Stream
begin

text \<open>
  What the stream pools guarantee: every slot of an initialised pool holds a stream of its own, made
  on its device with its priority, whatever calls came before; pools are served round-robin; and the
  current stream of a thread behaves as a variable that can be exchanged and restored.
\<close>

unbundle bit_operations_syntax

section \<open>What the pools hold\<close>

text \<open>
  What the runtime documents of streams, in terms of the streams it has made (handle, device and
  priority of each): creating one gives a new handle on the current device.
\<close>

definition creates_streams :: "('d \<Rightarrow> int) \<Rightarrow> ('d \<Rightarrow> (nat \<times> int \<times> int) set) \<Rightarrow> int \<Rightarrow> ('d, nat) drv_out \<Rightarrow> bool" where
  "creates_streams cur made pri f \<longleftrightarrow> (\<forall>d e h d'. f d = ((e, h), d') \<longrightarrow> cur d' = cur d
     \<and> (if e = supaSuccess then h \<notin> fst ` made d \<and> made d' = insert (h, cur d, pri) (made d) else made d' = made d))"

definition reads_range :: "('d \<Rightarrow> int) \<Rightarrow> ('d \<Rightarrow> (nat \<times> int \<times> int) set) \<Rightarrow> ('d, int \<times> int) drv_out \<Rightarrow> bool" where
  "reads_range cur made f \<longleftrightarrow> (\<forall>d e l g d'. f d = ((e, l, g), d') \<longrightarrow>
     cur d' = cur d \<and> made d' = made d \<and> (e = supaSuccess \<longrightarrow> g \<le> l))"

definition stream_calls_ok :: "'d driver \<Rightarrow> 'd rt \<Rightarrow> ('d \<Rightarrow> int) \<Rightarrow> ('d \<Rightarrow> (nat \<times> int \<times> int) set) \<Rightarrow> bool" where
  "stream_calls_ok D R cur made \<longleftrightarrow> device_calls_ok D cur \<and> accepts_devices D \<and> device_neutral D made
     \<and> (\<forall>pri. creates_streams cur made pri (supaStreamCreateWithPriority R pri))
     \<and> reads_range cur made (supaDeviceGetStreamPriorityRange R)"

lemma stream_calls:
  assumes "stream_calls_ok D R cur made"
  shows "device_calls_ok D cur" and "accepts_devices D" and "device_neutral D made"
    and "creates_streams cur made pri (supaStreamCreateWithPriority R pri)"
    and "reads_range cur made (supaDeviceGetStreamPriorityRange R)"
  using assms by (simp_all add: stream_calls_ok_def)

text \<open>The slots \<open>(priority, device, index)\<close> of a set hold different streams of their device and priority.\<close>

definition owned_slots :: "('d \<Rightarrow> (nat \<times> int \<times> int) set) \<Rightarrow> (int \<times> int \<times> nat) set \<Rightarrow> 'd strm \<Rightarrow> bool" where
  "owned_slots made S s \<longleftrightarrow> (\<forall>(p, i, k) \<in> S. (streams s p i k, i, - p) \<in> made (drv (st_world s)))
     \<and> inj_on (\<lambda>(p, i, k). streams s p i k) S"

definition slots :: "'d strm \<Rightarrow> (int \<times> int \<times> nat) set" where
  "slots s = {(p, i, k). device_flags s i \<and> 0 \<le> p \<and> p < max_stream_priorities s \<and> k < kStreamsPerPool}"

definition thread_ok :: "'d driver \<Rightarrow> 'd strm \<Rightarrow> bool" where
  "thread_ok D s \<longleftrightarrow> (0 \<le> k_device (st_world s) \<longrightarrow> k_device (st_world s) < device_count D)"

text \<open>The invariant of the stream state, and what an initialisation of one pool leaves alone.\<close>

definition streams_ok :: "'d driver \<Rightarrow> ('d \<Rightarrow> (nat \<times> int \<times> int) set) \<Rightarrow> 'd strm \<Rightarrow> bool" where
  "streams_ok D made s \<longleftrightarrow> thread_ok D s \<and> owned_slots made (slots s) s
     \<and> (init_flag s \<longrightarrow> num_gpus s = device_count D \<and> device_count D \<le> C10_COMPILE_TIME_MAX_SUPA_GPUS
          \<and> 1 \<le> max_stream_priorities s \<and> max_stream_priorities s \<le> max_compile_time_stream_priorities)
     \<and> (\<not> init_flag s \<longrightarrow> (\<forall>i. \<not> device_flags s i))"

definition untouched :: "('d \<Rightarrow> int) \<Rightarrow> 'd driver \<Rightarrow> 'd strm \<Rightarrow> 'd strm \<Rightarrow> bool" where
  "untouched cur D s t \<longleftrightarrow> init_flag t = init_flag s \<and> num_gpus t = num_gpus s \<and> max_stream_priorities t = max_stream_priorities s
     \<and> device_flags t = device_flags s \<and> current_streams t = current_streams s
     \<and> thread_device cur (st_world t) = thread_device cur (st_world s) \<and> (thread_ok D s \<longrightarrow> thread_ok D t)"

lemma untouched_refl [simp]: "untouched cur D s s"
  by (simp add: untouched_def)

lemma untouched_trans: "untouched cur D s t \<Longrightarrow> untouched cur D t u \<Longrightarrow> untouched cur D s u"
  by (auto simp: untouched_def)

abbreviation driver_exn :: "exn \<Rightarrow> 's \<Rightarrow> bool" where
  "driver_exn e t \<equiv> \<exists>err. e = SupaCheck err"

lemma owned_slots_cong:
  assumes "owned_slots made S s" and "streams t = streams s" and "made (drv (st_world t)) = made (drv (st_world s))"
  shows "owned_slots made S t"
  using assms by (simp add: owned_slots_def)

lemma owned_slots_insert:
  assumes S: "owned_slots made S s" and new: "(p, i, k) \<notin> S" and h: "h \<notin> fst ` made (drv (st_world s))"
    and t: "streams t = (streams s)(p := (streams s p)(i := (streams s p i)(k := h)))"
    and m: "made (drv (st_world t)) = insert (h, i, - p) (made (drv (st_world s)))"
  shows "owned_slots made (insert (p, i, k) S) t"
proof -
  have old: "streams t q j l = streams s q j l" if "(q, j, l) \<in> S" for q j l using that new t by auto
  have "streams s q j l \<noteq> h" if "(q, j, l) \<in> S" for q j l
  proof -
    have "(streams s q j l, j, - q) \<in> made (drv (st_world s))" using S that by (auto simp: owned_slots_def)
    then show ?thesis using h by (metis fst_conv image_eqI)
  qed
  then have "h \<notin> (\<lambda>(p, i, k). streams t p i k) ` S" using old by fastforce
  moreover have "inj_on (\<lambda>(p, i, k). streams t p i k) S"
    using S old unfolding owned_slots_def inj_on_def by fastforce
  ultimately have "inj_on (\<lambda>(p, i, k). streams t p i k) (insert (p, i, k) S)"
    using new t by (auto simp: inj_on_insert)
  moreover have "\<forall>(q, j, l) \<in> S. (streams t q j l, j, - q) \<in> made (drv (st_world t))"
    using S old m by (fastforce simp: owned_slots_def)
  ultimately show ?thesis using t m by (simp add: owned_slots_def)
qed

lemma wp_initSingleStream:
  assumes C: "stream_calls_ok D R cur made" and S: "owned_slots made S s" and new: "(p, i, k) \<notin> S"
    and p: "0 \<le> p" "p < max_compile_time_stream_priorities" and i: "0 \<le> i" "i < device_count D" "device_count D \<le> C10_COMPILE_TIME_MAX_SUPA_GPUS"
    and k: "k < kStreamsPerPool" and K: "thread_ok D s"
  shows "wp (initSingleStream D R p i k) (\<lambda>_ t. owned_slots made (insert (p, i, k) S) t \<and> untouched cur D s t) driver_exn s"
  unfolding initSingleStream_def
proof (rule wp_guarded [OF stream_calls(1-3) [OF C] i(1,2)], goal_cases)
  case 1 then show ?case using K by (simp add: thread_ok_def)
next
  case (2 w)
  have w: "k_device w = -1" "cur (drv w) = i" "made (drv w) = made (drv (st_world s))" using 2 by (simp_all add: switched_def)
  obtain e h d where c: "supaStreamCreateWithPriority R (- p) (drv w) = ((e, h), d)" by (metis surj_pair)
  have own: "owned_slots made (insert (p, i, k) S) t"
    if "e = supaSuccess" "streams t = (streams s)(p := (streams s p)(i := (streams s p i)(k := h)))" "made (drv (st_world t)) = made d" for t
    using stream_calls(4) [OF C, of "- p", unfolded creates_streams_def, rule_format, OF c] w that
    by (intro owned_slots_insert [OF S new]) auto
  have dev: "untouched cur D s t"
    if "k_device (st_world t) = -1" "cur (drv (st_world t)) = thread_device cur (st_world s)" "init_flag t = init_flag s" "num_gpus t = num_gpus s"
      "max_stream_priorities t = max_stream_priorities s" "device_flags t = device_flags s" "current_streams t = current_streams s" for t
    using that by (auto simp: untouched_def thread_ok_def thread_device_def)
  show ?case using c p i k own dev by (auto simp: check_at_def wp_if switched_def)
qed

text \<open>The slots of one device with an index of a list, and one row of them.\<close>

definition column :: "int \<Rightarrow> int \<Rightarrow> nat list \<Rightarrow> (int \<times> int \<times> nat) set" where
  "column i m ks = {0 ..< m} \<times> {i} \<times> set ks"

lemma column_simps [simp]: "column i m [] = {}" "column i m (ks @ [k]) = column i m ks \<union> {0 ..< m} \<times> {i} \<times> {k}"
  by (auto simp: column_def)

lemma wp_init_row:
  assumes C: "stream_calls_ok D R cur made" and A: "owned_slots made A s" and K: "thread_ok D s"
    and m: "m \<le> max_compile_time_stream_priorities" and i: "0 \<le> i" "i < device_count D" "device_count D \<le> C10_COMPILE_TIME_MAX_SUPA_GPUS"
    and k: "k < kStreamsPerPool" and new: "A \<inter> {0 ..< m} \<times> {i} \<times> {k} = {}"
  shows "wp (sx_for [0 .. m - 1] (\<lambda>p. initSingleStream D R p i k))
    (\<lambda>_ t. owned_slots made (A \<union> {0 ..< m} \<times> {i} \<times> {k}) t \<and> untouched cur D s t) driver_exn s"
proof -
  have "wp (sx_for [0 .. m - 1] (\<lambda>p. initSingleStream D R p i k))
      (\<lambda>_ t. owned_slots made (A \<union> set [0 .. m - 1] \<times> {i} \<times> {k}) t \<and> untouched cur D s t) driver_exn s"
  proof (rule wp_for_visited [where I = "\<lambda>ps t. owned_slots made (A \<union> set ps \<times> {i} \<times> {k}) t \<and> untouched cur D s t"], goal_cases)
    case 1 show ?case using A by simp
  next
    case (2 ps p qs u)
    let ?B = "A \<union> set ps \<times> {i} \<times> {k}"
    have p: "p \<in> set [0 .. m - 1]" "p \<notin> set ps" using 2(1) distinct_upto [of 0 "m - 1"] by auto
    then have "(p, i, k) \<notin> ?B" using new by auto
    moreover have "thread_ok D u" using 2(2) K by (simp add: untouched_def)
    ultimately have "wp (initSingleStream D R p i k) (\<lambda>_ v. owned_slots made (insert (p, i, k) ?B) v \<and> untouched cur D u v) driver_exn u"
      using 2(2) p(1) m i k by (intro wp_initSingleStream [OF C]) auto
    moreover have "insert (p, i, k) ?B = A \<union> set (ps @ [p]) \<times> {i} \<times> {k}" by auto
    ultimately show ?case using 2(2) by (elim wp_conseq) (auto intro: untouched_trans)
  qed
  moreover have "set [0 .. m - 1] = {0 ..< m}" by auto
  ultimately show ?thesis by simp
qed

lemma wp_initDeviceStreamState:
  assumes C: "stream_calls_ok D R cur made" and S: "streams_ok D made s" and f: "init_flag s"
    and i: "0 \<le> i" "i < device_count D" "\<not> device_flags s i"
  shows "wp (initDeviceStreamState D R i)
    (\<lambda>_ t. owned_slots made (slots s \<union> column i (max_stream_priorities s) [0 ..< kStreamsPerPool]) t \<and> untouched cur D s t) driver_exn s"
  unfolding initDeviceStreamState_def
proof (rule wp_guarded [OF stream_calls(1-3) [OF C] i(1,2)], goal_cases)
  case 1 then show ?case using S by (simp add: streams_ok_def thread_ok_def)
next
  case (2 w)
  let ?s = "s\<lparr>st_world := w\<rparr>" and ?m = "max_stream_priorities s"
  have ok: "owned_slots made (slots s) s" "?m \<le> max_compile_time_stream_priorities" "device_count D \<le> C10_COMPILE_TIME_MAX_SUPA_GPUS"
    using S f by (simp_all add: streams_ok_def)
  have K: "thread_ok D ?s" using 2 by (simp add: thread_ok_def switched_def)
  have "wp (sx_for [0 ..< kStreamsPerPool] (\<lambda>k. sx_for [0 .. ?m - 1] (\<lambda>p. initSingleStream D R p i k)))
      (\<lambda>_ t. owned_slots made (slots s \<union> column i ?m [0 ..< kStreamsPerPool]) t \<and> untouched cur D ?s t) driver_exn ?s"
  proof (rule wp_for_visited [where I = "\<lambda>ks t. owned_slots made (slots s \<union> column i ?m ks) t \<and> untouched cur D ?s t"], goal_cases)
    case 1 show ?case using owned_slots_cong [OF ok(1), of ?s] 2 by (simp add: switched_def)
  next
    case (2 ks k ls t)
    have k: "k < kStreamsPerPool" "k \<notin> set ks"
      using 2(1) distinct_upt [of 0 kStreamsPerPool] by (metis atLeastLessThan_iff in_set_conv_decomp set_upt, auto)
    then have "(slots s \<union> column i ?m ks) \<inter> {0 ..< ?m} \<times> {i} \<times> {k} = {}" using i(3) by (auto simp: slots_def column_def)
    moreover have "thread_ok D t" using 2(2) K by (simp add: untouched_def)
    ultimately have "wp (sx_for [0 .. ?m - 1] (\<lambda>p. initSingleStream D R p i k))
        (\<lambda>_ u. owned_slots made ((slots s \<union> column i ?m ks) \<union> {0 ..< ?m} \<times> {i} \<times> {k}) u \<and> untouched cur D t u) driver_exn t"
      using 2(2) ok(2,3) i k(1) by (intro wp_init_row [OF C]) auto
    then show ?case using 2(2) by (elim wp_conseq) (auto simp: Un_assoc intro: untouched_trans)
  qed
  then show ?case
    by (simp, elim wp_conseq) (auto simp: switched_def untouched_def thread_ok_def thread_device_def intro: owned_slots_cong)
qed

section \<open>The operations keep the invariant\<close>

text \<open>The state once the first call has initialised it.\<close>

definition ready :: "'d driver \<Rightarrow> ('d \<Rightarrow> (nat \<times> int \<times> int) set) \<Rightarrow> 'd strm \<Rightarrow> bool" where
  "ready D made s \<longleftrightarrow> streams_ok D made s \<and> init_flag s \<and> current_streams s \<noteq> None"

definition pool_exn :: "exn \<Rightarrow> bool" where
  "pool_exn e \<longleftrightarrow> (\<exists>err. e = SupaCheck err) \<or> (\<exists>msg. e = TorchCheck msg)"

lemma pool_exn_simps [simp]: "pool_exn (SupaCheck err)" "pool_exn (TorchCheck msg)"
  by (simp_all add: pool_exn_def)

lemma init_once_ready: "ready D made s \<Longrightarrow> wp (initSUPAStreamsOnce D R) Q E s = Q () s"
  by (auto simp: ready_def initSUPAStreamsOnce_def)

lemma streams_ok_world:
  assumes "streams_ok D made s" and "made (drv w) = made (drv (st_world s))" and "0 \<le> k_device w \<Longrightarrow> k_device w < device_count D"
  shows "streams_ok D made (s\<lparr>st_world := w\<rparr>)"
  using assms owned_slots_cong [of made "slots s" s "s\<lparr>st_world := w\<rparr>"] by (simp add: streams_ok_def thread_ok_def slots_def)

lemma wp_initSUPAStreamsOnce:
  assumes C: "stream_calls_ok D R cur made" and S: "streams_ok D made s"
  shows "wp (initSUPAStreamsOnce D R) (\<lambda>_ t. ready D made t \<and> thread_device cur (st_world t) = thread_device cur (st_world s))
    (\<lambda>e _. pool_exn e) s"
proof (cases "init_flag s")
  case True
  then show ?thesis
    using S by (cases "current_streams s")
      (auto simp: initSUPAStreamsOnce_def ready_def streams_ok_def thread_ok_def slots_def owned_slots_def)
next
  case False
  obtain e l g d where r: "supaDeviceGetStreamPriorityRange R (drv (st_world s)) = ((e, l, g), d)" by (metis surj_pair)
  have l: "cur d = cur (drv (st_world s))" "made d = made (drv (st_world s))" "e = supaSuccess \<longrightarrow> g \<le> l"
    using stream_calls(5) [OF C] r unfolding reads_range_def by blast+
  have "\<not> device_flags s i" for i using S False by (simp add: streams_ok_def)
  then have "ready D made t"
    if "t = (let u = s\<lparr>num_gpus := device_count D, st_world := (st_world s)\<lparr>drv := d\<rparr>, max_stream_priorities := m, init_flag := True\<rparr> in
        case current_streams u of Some _ \<Rightarrow> u | None \<Rightarrow> u\<lparr>current_streams := Some (\<lambda>_. makeStreamId DEFAULT 0)\<rparr>)"
      and "device_count D \<le> C10_COMPILE_TIME_MAX_SUPA_GPUS" and "1 \<le> m" "m \<le> max_compile_time_stream_priorities" for t m
    using that S by (auto simp: ready_def streams_ok_def thread_ok_def owned_slots_def slots_def Let_def split: option.splits)
  then show ?thesis
    using r l False by (auto simp: initSUPAStreamsOnce_def initGlobalStreamState_def wp_if Let_def thread_device_def stream_constants
        split: option.splits)
qed

lemma wp_resolve_device:
  assumes C: "stream_calls_ok D R cur made" and S: "ready D made s"
  shows "wp (resolve_device D j) (\<lambda>i t. ready D made t \<and> i = (if j = -1 then thread_device cur (st_world s) else j)
      \<and> (\<exists>w. t = s\<lparr>st_world := w\<rparr>) \<and> thread_device cur (st_world t) = thread_device cur (st_world s)) (\<lambda>e _. pool_exn e) s"
proof (cases "j = -1 \<and> 0 \<le> k_device (st_world s)")
  case True
  let ?k = "k_device (st_world s)"
  note dc = stream_calls(1-3) [OF C]
  have k: "0 \<le> ?k" "?k < device_count D" using S True by (auto simp: ready_def streams_ok_def thread_ok_def)
  obtain d' where d: "supaSetDevice D ?k (drv (st_world s)) = (supaSuccess, d')" "cur d' = ?k" "made d' = made (drv (st_world s))"
    using set_device_call [OF dc k] .
  then show ?thesis
    using True k dc(1) streams_ok_world [of D made s] S
    by (auto simp: resolve_device_def wp_current_device [OF dc(1)] SetTargetDevice_def SetDevice_def device_calls_ok_def wp_if
        thread_device_def ready_def)
next
  case False
  then show ?thesis
    using S stream_calls(1) [OF C]
    by (auto simp: resolve_device_def wp_current_device SetTargetDevice_def thread_device_def intro!: exI [of _ "st_world s"])
qed

text \<open>The pool that serves a priority, and the stream it hands out next.\<close>

definition pool_of :: "'d strm \<Rightarrow> int \<Rightarrow> int" where
  "pool_of s priority = clamp (- priority) 0 (max_stream_priorities s - 1)"

definition pool_stream :: "int \<Rightarrow> int \<Rightarrow> nat \<Rightarrow> SUPAStream" where
  "pool_stream p i k = SUPAStreamForId i (makeStreamId (of_int (p + 1)) k)"

definition advance :: "int \<Rightarrow> int \<Rightarrow> 'd strm \<Rightarrow> 'd strm" where
  "advance p i s = s\<lparr>priority_counters := (priority_counters s)(p := (priority_counters s p)(i := priority_counters s p i + 1))\<rparr>"

lemma pool_of_bounds: "ready D made s \<Longrightarrow> 0 \<le> pool_of s priority \<and> pool_of s priority < max_stream_priorities s
    \<and> pool_of s priority < max_compile_time_stream_priorities"
  by (auto simp: ready_def streams_ok_def pool_of_def clamp_def)

lemma unat_mod_32: "unat ((c :: 32 word) mod of_nat kStreamsPerPool) = unat c mod kStreamsPerPool"
  by (simp add: unat_mod_distrib stream_constants)

text \<open>The part of \<^verbatim>\<open>getStreamFromPool\<close> after the initialisations.\<close>

lemma run_pool_next:
  assumes R: "ready D made s" and i: "0 \<le> i" "i < device_count D" "device_flags s i"
  shows "getStreamFromPool D R priority i s
    = (Inr (pool_stream (pool_of s priority) i (unat (priority_counters s (pool_of s priority) i) mod kStreamsPerPool)),
       advance (pool_of s priority) i s)"
proof -
  let ?p = "pool_of s priority"
  have p: "0 \<le> ?p" "?p < max_compile_time_stream_priorities" using pool_of_bounds [OF R] by auto
  have n: "num_gpus s = device_count D" "device_count D \<le> C10_COMPILE_TIME_MAX_SUPA_GPUS" using R by (simp_all add: ready_def streams_ok_def)
  have "initSUPAStreamsOnce D R s = (Inr (), s)"
    using R by (auto simp: initSUPAStreamsOnce_def sx_once_def sx_defs ready_def)
  then show ?thesis
    using i n p unfolding getStreamFromPool_def take_from_pool_def
    by (simp add: sx_defs sx_once_def resolve_device_def check_gpu_def check_at_def Let_def get_idx_def unat_mod_32 flip: pool_of_def)
    (simp add: pool_stream_def advance_def)
qed

lemma ready_advance: "ready D made s \<Longrightarrow> ready D made (advance p i s)"
  by (simp add: ready_def streams_ok_def thread_ok_def slots_def owned_slots_def advance_def)

lemma pool_type:
  assumes "0 \<le> p" and "p < 4"
  shows "uint (of_int (p + 1) :: 8 word) = p + 1" and "(of_int (p + 1) :: 8 word) \<noteq> 0" and "unat (of_int (p + 1) :: 8 word) < 16"
    and "(of_int (p + 1) :: 8 word) \<noteq> 15"
proof -
  define st :: "8 word" where "st = of_int (p + 1)"
  have u: "uint st = p + 1" using assms uint_word_of_int [of "p + 1", where ?'a = 8] unfolding st_def by (simp del: of_int_add)
  then have "st \<noteq> 0" "unat st < 16" "st \<noteq> 15" using assms by (auto simp: unat_eq_nat_uint)
  then show "uint (of_int (p + 1) :: 8 word) = p + 1" "(of_int (p + 1) :: 8 word) \<noteq> 0" "unat (of_int (p + 1) :: 8 word) < 16"
    "(of_int (p + 1) :: 8 word) \<noteq> 15" using u unfolding st_def by blast+
qed

lemma pool_stream_resolves:
  assumes R: "ready D made s" and k: "(p, i, k) \<in> slots s" and i: "0 \<le> i" "i < device_count D"
  shows "stream_of (pool_stream p i k) s = (Inr (streams s p i k), s)" and "(streams s p i k, i, - p) \<in> made (drv (st_world s))"
proof -
  have p: "0 \<le> p" "p < max_stream_priorities s" "p < 4" "k < 32" "device_count D \<le> 16"
    using k R by (auto simp: slots_def ready_def streams_ok_def stream_constants)
  define st :: "8 word" where "st = of_int (p + 1)"
  note u = pool_type(1) [OF p(1,3), folded st_def] and st = pool_type(2-4) [OF p(1,3), folded st_def]
  show "stream_of (pool_stream p i k) s = (Inr (streams s p i k), s)"
    using p i st u unfolding pool_stream_def st_def [symmetric]
    by (simp add: native_id [OF st(1,2) p(4)] stream_of_def SUPAStreamForId_def stream_constants sx_defs check_at_def Let_def)
  show "(streams s p i k, i, - p) \<in> made (drv (st_world s))" using k R by (auto simp: owned_slots_def ready_def streams_ok_def)
qed

lemma ready_flagged:
  assumes R: "ready D made s" and i: "0 \<le> i" "i < device_count D"
    and t: "owned_slots made (slots s \<union> column i (max_stream_priorities s) [0 ..< kStreamsPerPool]) t" "untouched cur D s t"
  shows "ready D made (t\<lparr>device_flags := (device_flags t)(i := True)\<rparr>)"
proof -
  have "slots (t\<lparr>device_flags := (device_flags t)(i := True)\<rparr>) = slots s \<union> column i (max_stream_priorities s) [0 ..< kStreamsPerPool]"
    using t(2) by (auto simp: slots_def column_def untouched_def split: if_splits)
  then show ?thesis using R t by (simp add: ready_def streams_ok_def untouched_def thread_ok_def owned_slots_def)
qed

definition handed_out :: "'d driver \<Rightarrow> ('d \<Rightarrow> (nat \<times> int \<times> int) set) \<Rightarrow> int \<Rightarrow> int \<Rightarrow> SUPAStream \<Rightarrow> 'd strm \<Rightarrow> bool" where
  "handed_out D made priority i x t \<longleftrightarrow> ready D made t \<and> 0 \<le> i \<and> i < device_count D
     \<and> (\<exists>k. x = pool_stream (pool_of t priority) i k \<and> (pool_of t priority, i, k) \<in> slots t)"

lemma handed_out_next:
  assumes R: "ready D made s" and i: "0 \<le> i" "i < device_count D" "device_flags s i"
  shows "wp (getStreamFromPool D R priority i) (handed_out D made priority i) E s"
proof -
  let ?p = "pool_of s priority" and ?k = "unat (priority_counters s (pool_of s priority) i) mod kStreamsPerPool"
  have "(?p, i, ?k) \<in> slots s" using pool_of_bounds [OF R, of priority] i(3) by (auto simp: slots_def stream_constants)
  then have "handed_out D made priority i (pool_stream ?p i ?k) (advance ?p i s)"
    using ready_advance [OF R] i by (auto simp: handed_out_def advance_def pool_of_def slots_def)
  then show ?thesis using run_pool_next [OF R i] by (simp add: wp_def)
qed

lemma wp_take_from_pool:
  assumes C: "stream_calls_ok D R cur made" and t: "ready D made t"
  shows "wp (take_from_pool D R priority i) (handed_out D made priority i) (\<lambda>e _. pool_exn e) t"
proof -
  have flagged: "wp (take_from_pool D R priority i) (handed_out D made priority i) (\<lambda>e _. pool_exn e) u"
    if u: "ready D made u" "0 \<le> i" "i < device_count D" "device_flags u i" for u
  proof -
    have "wp (getStreamFromPool D R priority i) Q E u = wp (take_from_pool D R priority i) Q E u"
      for Q :: "SUPAStream \<Rightarrow> 'a strm \<Rightarrow> bool" and E
      using u(2) unfolding getStreamFromPool_def wp_seq init_once_ready [OF u(1)] wp_bind resolve_device_def by simp
    then show ?thesis using handed_out_next [OF u, of R priority] by simp
  qed
  have n: "num_gpus t = device_count D" "device_count D \<le> C10_COMPILE_TIME_MAX_SUPA_GPUS" "streams_ok D made t" "init_flag t"
    using t by (simp_all add: ready_def streams_ok_def)
  consider "\<not> (0 \<le> i \<and> i < device_count D)" | "0 \<le> i" "i < device_count D" "device_flags t i"
    | "0 \<le> i" "i < device_count D" "\<not> device_flags t i" by blast
  then show ?thesis
  proof cases
    case 1 then show ?thesis using n(1) by (auto simp: take_from_pool_def check_gpu_def)
  next
    case 2 then show ?thesis by (rule flagged [OF t])
  next
    case 3
    let ?f = "\<lambda>u. u\<lparr>device_flags := (device_flags u)(i := True)\<rparr>"
    have "wp (initDeviceStreamState D R i) (\<lambda>_ u. wp (take_from_pool D R priority i) (handed_out D made priority i) (\<lambda>e _. pool_exn e) (?f u)
        \<and> num_gpus u = device_count D) (\<lambda>e _. pool_exn e) t"
    proof (rule wp_conseq [OF wp_initDeviceStreamState [OF C n(3,4) 3]], elim conjE, goal_cases)
      case (1 x u)
      have "num_gpus u = device_count D" using 1(2) n(1) by (simp add: untouched_def)
      then show ?case using flagged [OF ready_flagged [OF t 3(1,2) 1] 3(1,2)] by simp
    qed auto
    then show ?thesis using 3 n by (simp add: take_from_pool_def check_gpu_def) (elim wp_conseq, auto)
  qed
qed

lemma wp_getStreamFromPool:
  assumes C: "stream_calls_ok D R cur made" and S: "streams_ok D made s"
  shows "wp (getStreamFromPool D R priority j)
    (handed_out D made priority (if j = -1 then thread_device cur (st_world s) else j)) (\<lambda>e _. pool_exn e) s"
  unfolding getStreamFromPool_def wp_seq wp_bind
proof (rule wp_conseq [OF wp_initSUPAStreamsOnce [OF C S]], elim conjE, goal_cases)
  case (1 x t)
  show ?case by (rule wp_conseq [OF wp_resolve_device [OF C 1(1)]]) (use wp_take_from_pool [OF C] 1(2) in auto)
qed

section \<open>Histories\<close>

datatype stream_op =
    FromPool int int
  | FromPoolHigh bool int
  | DefaultStream int
  | CurrentStream int
  | SetCurrent SUPAStream

primrec run_stream :: "'d driver \<Rightarrow> 'd rt \<Rightarrow> stream_op \<Rightarrow> ('d, SUPAStream) stx" where
  "run_stream D R (FromPool priority i) = getStreamFromPool D R priority i"
| "run_stream D R (FromPoolHigh high i) = getStreamFromPool_high D R high i"
| "run_stream D R (DefaultStream i) = getDefaultSUPAStream D R i"
| "run_stream D R (CurrentStream i) = getCurrentSUPAStream D R i"
| "run_stream D R (SetCurrent x) = sx_seq (setCurrentSUPAStream D R x) (sx_ret x)"

inductive streams_reach :: "'d driver \<Rightarrow> 'd rt \<Rightarrow> 'd world \<Rightarrow> 'd strm \<Rightarrow> bool" for D R w where
  streams_start: "streams_reach D R w (initial_streams w)"
| streams_step: "streams_reach D R w s \<Longrightarrow> run_stream D R q s = (Inr x, t) \<Longrightarrow> streams_reach D R w t"

lemma streams_ok_start: "(0 \<le> k_device w \<Longrightarrow> k_device w < device_count D) \<Longrightarrow> streams_ok D made (initial_streams w)"
  by (auto simp: streams_ok_def thread_ok_def initial_streams_def slots_def owned_slots_def inj_on_def)

lemma ready_current: "ready D made s \<Longrightarrow> ready D made (s\<lparr>current_streams := Some cs\<rparr>)"
  by (simp add: ready_def streams_ok_def thread_ok_def slots_def owned_slots_def)

lemma wp_run_stream:
  assumes C: "stream_calls_ok D R cur made" and S: "streams_ok D made s"
  shows "wp (run_stream D R q) (\<lambda>_. ready D made) (\<lambda>_ _. True) s"
proof -
  have once: "wp (sx_seq (initSUPAStreamsOnce D R) m) (\<lambda>_. ready D made) (\<lambda>_ _. True) s"
    if "\<And>t. ready D made t \<Longrightarrow> wp m (\<lambda>_. ready D made) (\<lambda>_ _. True) t" for m :: "('a, SUPAStream) stx"
    unfolding wp_seq by (rule wp_conseq [OF wp_initSUPAStreamsOnce [OF C S]]) (use that in auto)
  have dev: "wp (sx_bind (resolve_device D j) f) (\<lambda>_. ready D made) (\<lambda>_ _. True) t"
    if "ready D made t" "\<And>i u. ready D made u \<Longrightarrow> wp (f i) (\<lambda>_. ready D made) (\<lambda>_ _. True) u" for t j and f :: "int \<Rightarrow> ('a, SUPAStream) stx"
    unfolding wp_bind by (rule wp_conseq [OF wp_resolve_device [OF C that(1)]]) (use that(2) in auto)
  have pool: "wp (getStreamFromPool D R p j) (\<lambda>_. ready D made) (\<lambda>_ _. True) t" if "streams_ok D made t" for p j t
    by (rule wp_conseq [OF wp_getStreamFromPool [OF C that]]) (auto simp: handed_out_def)
  show ?thesis
  proof (cases q)
    case (FromPool p j) then show ?thesis using pool [OF S] by simp
  next
    case (FromPoolHigh b j)
    show ?thesis
      unfolding FromPoolHigh run_stream.simps getStreamFromPool_high_def
      by (rule once) (simp add: pool ready_def [THEN iffD1, THEN conjunct1])
  next
    case (DefaultStream j)
    show ?thesis
      unfolding DefaultStream run_stream.simps getDefaultSUPAStream_def by (rule once, rule dev) (simp_all add: check_gpu_def)
  next
    case (CurrentStream j)
    show ?thesis
      unfolding CurrentStream run_stream.simps getCurrentSUPAStream_def
      by (rule once, rule dev) (simp_all add: check_gpu_def current_at_def wp_if split: option.splits)
  next
    case (SetCurrent x)
    have "wp (initSUPAStreamsOnce D R) (\<lambda>_. ready D made) (\<lambda>_ _. True) s"
      by (rule wp_conseq [OF wp_initSUPAStreamsOnce [OF C S]]) auto
    then show ?thesis
      unfolding SetCurrent run_stream.simps setCurrentSUPAStream_def wp_seq
      by (rule wp_conseq) (auto simp: current_at_def wp_if ready_current split: option.splits)
  qed
qed

lemma streams_reach_ok:
  assumes C: "stream_calls_ok D R cur made" and w: "0 \<le> k_device w \<Longrightarrow> k_device w < device_count D" and "streams_reach D R w s"
  shows "streams_ok D made s"
  using assms(3)
proof (induction rule: streams_reach.induct)
  case streams_start
  show ?case by (rule streams_ok_start [OF w])
next
  case (streams_step s q x t)
  then show ?case using wp_run_stream [OF C, of s q] by (auto simp: wp_def ready_def)
qed

fun pool_calls :: "'d driver \<Rightarrow> 'd rt \<Rightarrow> int \<Rightarrow> int \<Rightarrow> nat \<Rightarrow> ('d, SUPAStream list) stx" where
  "pool_calls D R priority i 0 = sx_ret []"
| "pool_calls D R priority i (Suc n) =
     sx_bind (getStreamFromPool D R priority i) (\<lambda>x. sx_bind (pool_calls D R priority i n) (\<lambda>xs. sx_ret (x # xs)))"

text \<open>The counter may wrap around between two calls: the number of streams of a pool divides its range.\<close>

lemma counter_step: "unat (c + 1 :: 32 word) mod 32 = (unat c + 1) mod 32"
proof -
  have "unat (c + 1) = (unat c + 1) mod 2 ^ 32" by (simp add: unat_word_ariths)
  then show ?thesis by (simp add: mod_mod_cancel)
qed

lemma run_pool_calls:
  assumes "ready D made s" and i: "0 \<le> i" "i < device_count D" "device_flags s i" and "p = pool_of s priority"
  shows "fst (pool_calls D R priority i n s)
    = Inr (map (\<lambda>k. pool_stream p i ((unat (priority_counters s p i) + k) mod kStreamsPerPool)) [0 ..< n])"
  using assms(1,4,5)
proof (induction n arbitrary: s)
  case (Suc n)
  let ?s = "advance p i s" and ?c = "priority_counters s p i"
  have "priority_counters ?s p i = ?c + 1" "pool_of ?s priority = p" "device_flags ?s i" "ready D made ?s"
    using Suc.prems ready_advance by (simp_all add: advance_def pool_of_def)
  then have "fst (pool_calls D R priority i n ?s) = Inr (map (\<lambda>k. pool_stream p i ((unat (?c + 1) + k) mod kStreamsPerPool)) [0 ..< n])"
    using Suc.IH [of ?s] by simp
  moreover have "(unat (?c + 1) + k) mod kStreamsPerPool = (unat ?c + Suc k) mod kStreamsPerPool" for k
    using counter_step [of ?c] by (simp add: stream_constants) (metis add.commute add_Suc_right mod_add_left_eq plus_1_eq_Suc)
  ultimately have "fst (pool_calls D R priority i n ?s) = Inr (map (\<lambda>k. pool_stream p i ((unat ?c + k) mod kStreamsPerPool)) [1 ..< Suc n])"
    unfolding One_nat_def map_Suc_upt [symmetric] map_map by (simp add: comp_def)
  moreover have "getStreamFromPool D R priority i s = (Inr (pool_stream p i (unat ?c mod kStreamsPerPool)), ?s)"
    using run_pool_next [OF Suc.prems(1) i(1,2) Suc.prems(2), of R priority] Suc.prems(3) by simp
  ultimately show ?case
    by (cases "pool_calls D R priority i n ?s") (simp add: sx_bind_def sx_ret_def upt_conv_Cons del: upt_Suc)
qed (simp add: sx_ret_def)

lemma pool_stream_inj:
  assumes "0 \<le> p" and "p < 4" and "j < 32" and "k < 32"
  shows "pool_stream p i j = pool_stream p i k \<longleftrightarrow> j = k"
proof
  assume "pool_stream p i j = pool_stream p i k"
  then have "makeStreamId (of_int (p + 1)) j = makeStreamId (of_int (p + 1)) k" by (simp only: pool_stream_def SUPAStreamForId_def SUPAStream.ext_inject)
  then show "j = k" using native_id(2) [OF pool_type(2,3) [OF assms(1,2)]] assms(3,4) by metis
qed simp

lemma shift_mod: "(c + a) mod m = (c + b) mod m \<longleftrightarrow> a mod m = b mod m" for a b c m :: nat
proof -
  have "(int c + int a) mod int m = (int c + int b) mod int m \<longleftrightarrow> int a mod int m = int b mod int m"
    by (simp add: mod_eq_dvd_iff)
  then show ?thesis unfolding of_nat_add [symmetric] zmod_int [symmetric] of_nat_eq_iff .
qed

section \<open>Properties\<close>

text \<open>
  C30: an identifier of a native stream gives back its type and its index, is positive, and is never
  taken for an external stream: those are the even non-zero identifiers, whose type is always
  \<^verbatim>\<open>EXT\<close>.
\<close>

theorem stream_id_roundtrip:
  assumes "0 < st" and "st < EXT" and "si < kStreamsPerPool"
  shows "streamIdType (makeStreamId st si) s = (Inr st, s) \<and> streamIdIndex (makeStreamId st si) = si
    \<and> 0 < sint (makeStreamId st si)
    \<and> (\<forall>e. e AND 1 = 0 \<longrightarrow> e \<noteq> 0 \<longrightarrow> streamIdType e s = (Inr EXT, s) \<and> e \<noteq> makeStreamId st si)"
proof -
  have a: "st \<noteq> 0" "unat st < 16" "si < 32" using assms by (auto simp: word_less_nat_alt stream_constants)
  note n = native_id(1) [OF a, where ?'a = 'a] native_id(2-5) [OF a]
  have "0 < sint (makeStreamId st si)" using n(4,5) by (simp add: less_le) (metis signed_0 signed_word_eqI)
  then show ?thesis using n by (auto simp: streamIdType_def sx_ret_def)
qed

theorem stream_id_roundtrip_witness:
  "streamIdIndex (makeStreamId 3 17) = 17 \<and> streamIdType (makeStreamId 3 17) () = (Inr 3, ())"
  using stream_id_roundtrip [of 3 17 "()"] by (simp add: stream_constants)


text \<open>
  C32: the calls for one device and one priority go round the 32 streams of the pool in order,
  also when the 32-bit counter wraps around: two calls get the same stream exactly when their numbers
  differ by a multiple of 32.
\<close>

theorem pool_round_robin:
  assumes "stream_calls_ok D R cur made" and "k_device w < device_count D" and "streams_reach D R w s"
    and "init_flag s" and "current_streams s \<noteq> None" and "0 \<le> i" and "i < device_count D" and "device_flags s i"
  shows "\<exists>xs. fst (pool_calls D R priority i n s) = Inr xs \<and> length xs = n
    \<and> (\<forall>a < n. \<forall>b < n. xs ! a = xs ! b \<longleftrightarrow> a mod kStreamsPerPool = b mod kStreamsPerPool)"
proof -
  have R: "ready D made s" using streams_reach_ok [OF assms(1) _ assms(3)] assms(2,4,5) by (simp add: ready_def)
  let ?p = "pool_of s priority" and ?c = "unat (priority_counters s (pool_of s priority) i)"
  have p: "0 \<le> ?p" "?p < 4" using pool_of_bounds [OF R, of priority] by (simp_all add: stream_constants)
  let ?xs = "map (\<lambda>k. pool_stream ?p i ((?c + k) mod kStreamsPerPool)) [0 ..< n]"
  have "?xs ! a = ?xs ! b \<longleftrightarrow> a mod kStreamsPerPool = b mod kStreamsPerPool" if "a < n" "b < n" for a b
    using that pool_stream_inj [OF p, of "(?c + a) mod 32" "(?c + b) mod 32" i] by (simp add: stream_constants shift_mod)
  then show ?thesis using run_pool_calls [OF R assms(6-8) refl, of R priority n] by (intro exI [of _ ?xs]) simp
qed

lemma run_getCurrent:
  assumes "ready D made s" and "0 \<le> i" and "i < device_count D" and "current_streams s = Some cs"
  shows "getCurrentSUPAStream D R i s = (Inr (SUPAStreamForId i (cs i)), s)"
  using assms by (simp add: getCurrentSUPAStream_def initSUPAStreamsOnce_def sx_once_def sx_defs resolve_device_def check_gpu_def
      current_at_def ready_def streams_ok_def)

lemma run_setCurrent:
  assumes "ready D made s" and "0 \<le> s_device x" and "s_device x < device_count D" and "current_streams s = Some cs"
  shows "setCurrentSUPAStream D R x s = (Inr (), s\<lparr>current_streams := Some (cs(s_device x := s_id x))\<rparr>)"
  using assms by (simp add: setCurrentSUPAStream_def initSUPAStreamsOnce_def sx_once_def sx_defs current_at_def ready_def streams_ok_def)

lemma run_exchangeStream:
  assumes "ready D made s" and "0 \<le> s_device x" and "s_device x < device_count D" and "current_streams s = Some cs"
  shows "exchangeStream D R x s
    = (Inr (SUPAStreamForId (s_device x) (cs (s_device x))), s\<lparr>current_streams := Some (cs(s_device x := s_id x))\<rparr>)"
  using run_getCurrent [OF assms] run_setCurrent [OF assms] by (simp add: exchangeStream_def sx_noexcept_def sx_defs)

text \<open>
  C33: exchanging the current stream of a device and exchanging it back restores the state; in
  between, the current stream of the device is the new one, and the streams of the other devices are
  as they were.
\<close>

theorem exchangeStream_restores:
  assumes "stream_calls_ok D R cur made" and "k_device w < device_count D" and "streams_reach D R w s"
    and "init_flag s" and "current_streams s \<noteq> None" and "0 \<le> s_device x" and "s_device x < device_count D"
  shows "\<exists>old t. exchangeStream D R x s = (Inr old, t) \<and> exchangeStream D R old t = (Inr x, s)
    \<and> (\<forall>i. 0 \<le> i \<longrightarrow> i < device_count D \<longrightarrow>
         fst (getCurrentSUPAStream D R i t) = (if i = s_device x then Inr x else fst (getCurrentSUPAStream D R i s)))"
proof -
  have R: "ready D made s" using streams_reach_ok [OF assms(1) _ assms(3)] assms(2,4,5) by (simp add: ready_def)
  obtain cs where cs: "current_streams s = Some cs" using assms(5) by blast
  let ?old = "SUPAStreamForId (s_device x) (cs (s_device x))" and ?t = "s\<lparr>current_streams := Some (cs(s_device x := s_id x))\<rparr>"
  have T: "ready D made ?t" by (rule ready_current [OF R])
  have "exchangeStream D R ?old ?t = (Inr x, s)"
    using run_exchangeStream [OF T, of ?old] assms(6,7) cs by (simp add: SUPAStreamForId_def)
  moreover have "fst (getCurrentSUPAStream D R i ?t) = (if i = s_device x then Inr x else fst (getCurrentSUPAStream D R i s))"
    if "0 \<le> i" "i < device_count D" for i
    using run_getCurrent [OF T that, of _ R] run_getCurrent [OF R that cs, of R] by (simp add: SUPAStreamForId_def)
  ultimately show ?thesis using run_exchangeStream [OF R assms(6,7) cs, of R] by blast
qed

text \<open>
  C34: the default stream that the guard implementation reports for a device is the current stream of
  the thread, which is not the default stream once another stream was made current.
\<close>

theorem default_stream_is_current:
  assumes "stream_calls_ok D R cur made" and "k_device w < device_count D" and "streams_reach D R w s"
    and "init_flag s" and "current_streams s \<noteq> None" and "0 \<le> s_device x" and "s_device x < device_count D" and "s_id x \<noteq> 0"
  shows "\<exists>t d. setCurrentSUPAStream D R x s = (Inr (), t) \<and> fst (guard_getDefaultStream D R (s_device x) t) = Inr x
    \<and> fst (getDefaultSUPAStream D R (s_device x) t) = Inr d \<and> d \<noteq> x"
proof -
  have R: "ready D made s" using streams_reach_ok [OF assms(1) _ assms(3)] assms(2,4,5) by (simp add: ready_def)
  obtain cs where cs: "current_streams s = Some cs" using assms(5) by blast
  let ?t = "s\<lparr>current_streams := Some (cs(s_device x := s_id x))\<rparr>"
  have T: "ready D made ?t" by (rule ready_current [OF R])
  have "fst (getDefaultSUPAStream D R (s_device x) ?t) = Inr (SUPAStreamForId (s_device x) 0)"
    using T assms(6,7) by (simp add: getDefaultSUPAStream_def initSUPAStreamsOnce_def sx_once_def sx_defs resolve_device_def
        check_gpu_def ready_def streams_ok_def makeStreamId_def DEFAULT_def)
  moreover have "SUPAStreamForId (s_device x) 0 \<noteq> x" using assms(8) by (metis SUPAStreamForId_def SUPAStream.select_convs(2))
  ultimately show ?thesis
    using run_setCurrent [OF R assms(6,7) cs, of R] run_getCurrent [OF T assms(6,7), of _ R]
    by (simp add: guard_getDefaultStream_def SUPAStreamForId_def)
qed

section \<open>Witnesses\<close>

definition ref_made_set :: "ref_state \<Rightarrow> (nat \<times> int \<times> int) set" where
  "ref_made_set d = set (ref_made d)"

lemma ref_stream_calls_ok: "stream_calls_ok ref_driver ref_rt ref_current ref_made_set"
proof -
  have "Suc (sum_list (map fst ms)) \<notin> fst ` set ms" for ms :: "(nat \<times> int \<times> int) list"
  proof
    assume "Suc (sum_list (map fst ms)) \<in> fst ` set ms"
    then have "Suc (sum_list (map fst ms)) \<le> sum_list (map fst ms)" by (intro member_le_sum_list) auto
    then show False by simp
  qed
  then have "creates_streams ref_current ref_made_set pri (supaStreamCreateWithPriority ref_rt pri)" for pri
    by (auto simp: creates_streams_def ref_rt_def ref_made_set_def ref_current_def Let_def)
  moreover have "reads_range ref_current ref_made_set (supaDeviceGetStreamPriorityRange ref_rt)"
    by (auto simp: reads_range_def ref_rt_def)
  moreover have "device_neutral ref_driver ref_made_set"
    by (simp add: device_neutral_def ref_driver_def ref_made_set_def)
  ultimately show ?thesis using ref_device_calls_ok ref_accepts_devices by (simp add: stream_calls_ok_def)
qed

definition ref_stream_world :: "ref_state world" where
  "ref_stream_world = \<lparr>drv = ref_start 0, k_device = -1, event_pools = \<lambda>_. []\<rparr>"

definition ref_pools :: "ref_state strm" where
  "ref_pools = snd (getStreamFromPool ref_driver ref_rt 0 1 (initial_streams ref_stream_world))"

lemmas guard_run = guarded_def exchangeDevice_def ExchangeDevice_def uncheckedSetDevice_def SetDevice_def check_warn_def ref_driver_def

text \<open>The reference runtime never fails, so the first call returns.\<close>

definition ref_initialised :: "ref_state strm \<Rightarrow> bool" where
  "ref_initialised s \<longleftrightarrow> k_device (st_world s) = -1 \<and> init_flag s \<and> num_gpus s = 2 \<and> max_stream_priorities s = 2 \<and> current_streams s \<noteq> None"

lemma ref_single:
  assumes "ref_initialised s" and "0 \<le> p" and "p < 2" and "k < 32"
  shows "wp (initSingleStream ref_driver ref_rt p 1 k) (\<lambda>_. ref_initialised) (\<lambda>_ _. False) s"
  using assms by (simp add: initSingleStream_def guard_run ref_initialised_def check_at_def stream_constants ref_rt_def ref_current_def
      wp_if Let_def)

lemma ref_device_init:
  assumes "ref_initialised s"
  shows "wp (initDeviceStreamState ref_driver ref_rt 1) (\<lambda>_. ref_initialised) (\<lambda>_ _. False) s"
  unfolding initDeviceStreamState_def
proof (rule wp_guarded [OF ref_device_calls_ok ref_accepts_devices ref_device_neutral], goal_cases)
  case (4 w)
  let ?t = "s\<lparr>st_world := w\<rparr>"
  have t: "ref_initialised ?t" "max_stream_priorities ?t = 2" using 4 assms by (simp_all add: ref_initialised_def switched_def)
  have "wp (sx_for [0 ..< kStreamsPerPool] (\<lambda>k. sx_for [0 .. 1] (\<lambda>p. initSingleStream ref_driver ref_rt p 1 k))) (\<lambda>_. ref_initialised) (\<lambda>_ _. False) ?t"
    by (intro wp_for [where I = ref_initialised] t(1) ref_single) (auto simp: stream_constants)
  then have "wp (sx_for [0 ..< kStreamsPerPool] (\<lambda>k. sx_for [0 .. max_stream_priorities ?t - 1] (\<lambda>p. initSingleStream ref_driver ref_rt p 1 k)))
      (\<lambda>_. ref_initialised) (\<lambda>_ _. False) ?t" unfolding t(2) by simp
  then show ?case unfolding wp_bind wp_get by (rule wp_conseq) (auto simp: ref_initialised_def switched_def)
qed (use assms in \<open>simp_all add: ref_initialised_def ref_driver_def\<close>)

lemma ref_first_call:
  "\<exists>x. getStreamFromPool ref_driver ref_rt 0 1 (initial_streams ref_stream_world) = (Inr x, ref_pools)
    \<and> init_flag ref_pools \<and> current_streams ref_pools \<noteq> None \<and> device_flags ref_pools 1"
proof -
  let ?Q = "\<lambda>_ t. init_flag t \<and> current_streams t \<noteq> None \<and> device_flags t 1"
  have "wp (take_from_pool ref_driver ref_rt 0 1) ?Q (\<lambda>_ _. False) s" if s: "ref_initialised s" for s
    using s
    by (simp add: take_from_pool_def check_gpu_def stream_constants ref_initialised_def clamp_def check_at_def get_idx_def Let_def)
      (intro impI wp_conseq [OF ref_device_init [OF s]], auto simp: ref_initialised_def)
  then have "wp (getStreamFromPool ref_driver ref_rt 0 1) ?Q (\<lambda>_ _. False) (initial_streams ref_stream_world)"
    by (simp add: getStreamFromPool_def initSUPAStreamsOnce_def initial_streams_def initGlobalStreamState_def stream_constants
        resolve_device_def ref_initialised_def ref_stream_world_def ref_rt_def ref_driver_def [THEN arg_cong, of device_count] Let_def)
  then show ?thesis by (auto simp: wp_def ref_pools_def split: prod.splits sum.splits)
qed

lemma ref_reach: "streams_reach ref_driver ref_rt ref_stream_world ref_pools"
proof -
  obtain x where "getStreamFromPool ref_driver ref_rt 0 1 (initial_streams ref_stream_world) = (Inr x, ref_pools)"
    using ref_first_call by blast
  then show ?thesis
    by (intro streams_step [OF streams_start, where q = "FromPool 0 1" and x = x]) simp
qed

lemma ref_world_ok: "k_device ref_stream_world < device_count ref_driver"
  by (simp add: ref_stream_world_def ref_driver_def)

lemma ref_pools_init: "init_flag ref_pools" "current_streams ref_pools \<noteq> None" "device_flags ref_pools 1"
  using ref_first_call by blast+


theorem pool_round_robin_witness:
  "\<exists>xs. fst (pool_calls ref_driver ref_rt 0 1 40 ref_pools) = Inr xs \<and> xs ! 3 \<noteq> xs ! 34 \<and> xs ! 3 = xs ! 35"
proof -
  obtain xs where "fst (pool_calls ref_driver ref_rt 0 1 40 ref_pools) = Inr xs"
    and x: "\<forall>a < 40. \<forall>b < 40. xs ! a = xs ! b \<longleftrightarrow> a mod kStreamsPerPool = b mod kStreamsPerPool"
    using pool_round_robin [OF ref_stream_calls_ok ref_world_ok ref_reach ref_pools_init(1,2) _ _ ref_pools_init(3), of 0 40]
    by (auto simp: ref_driver_def)
  moreover have "xs ! 3 \<noteq> xs ! 34" "xs ! 3 = xs ! 35"
    using x [rule_format, of 3 34] x [rule_format, of 3 35] by (simp_all add: stream_constants)
  ultimately show ?thesis by blast
qed

theorem exchangeStream_restores_witness:
  "\<exists>old t. exchangeStream ref_driver ref_rt (getStreamFromExternal 64 1) ref_pools = (Inr old, t)
    \<and> exchangeStream ref_driver ref_rt old t = (Inr (getStreamFromExternal 64 1), ref_pools)"
proof -
  let ?x = "getStreamFromExternal 64 1"
  have x: "0 \<le> s_device ?x" "s_device ?x < device_count ref_driver"
    by (simp_all add: getStreamFromExternal_def SUPAStreamForId_def ref_driver_def)
  from exchangeStream_restores [OF ref_stream_calls_ok ref_world_ok ref_reach ref_pools_init(1,2) x] show ?thesis by blast
qed

theorem default_stream_is_current_witness:
  "\<exists>t d. setCurrentSUPAStream ref_driver ref_rt (getStreamFromExternal 64 1) ref_pools = (Inr (), t)
    \<and> fst (guard_getDefaultStream ref_driver ref_rt 1 t) = Inr (getStreamFromExternal 64 1)
    \<and> fst (getDefaultSUPAStream ref_driver ref_rt 1 t) = Inr d \<and> d \<noteq> getStreamFromExternal 64 1"
proof -
  let ?x = "getStreamFromExternal 64 1"
  have x: "0 \<le> s_device ?x" "s_device ?x < device_count ref_driver" "s_id ?x \<noteq> 0" and d: "s_device ?x = 1"
    by (simp_all add: getStreamFromExternal_def SUPAStreamForId_def ref_driver_def)
  from default_stream_is_current [OF ref_stream_calls_ok ref_world_ok ref_reach ref_pools_init(1,2) x]
  show ?thesis unfolding d by blast
qed

end
