(* ===== verification/Supa_Event.thy ===== *)
theory Supa_Event
  imports Stream_Pools
begin

text \<open>
  Events: the \<^verbatim>\<open>SUPAEvent\<close> objects of \<^verbatim>\<open>core/supa/SUPAEvent.cpp\<close>, which create their event when they are
  first recorded and can be moved, and the event functions of \<^verbatim>\<open>core/supa/impl/SUPAGuardImpl.cpp\<close>. An
  operation of an object runs on the object and the state of the streams.
\<close>

section \<open>Event objects\<close>

record SUPAEvent =
  flags :: nat
  is_created :: bool
  was_recorded :: bool
  device_index :: int
  event :: nat

definition supaEventDisableTiming :: nat where
  "supaEventDisableTiming = 2"

definition SUPAEvent_ctor :: "nat \<Rightarrow> SUPAEvent" where
  "SUPAEvent_ctor f = \<lparr>flags = f, is_created = False, was_recorded = False, device_index = -1, event = 0\<rparr>"

type_synonym ('d, 'a) evx = "(SUPAEvent \<times> 'd strm, exn, 'a) sx"

abbreviation on_streams :: "('d, 'a) stx \<Rightarrow> ('d, 'a) evx" where
  "on_streams \<equiv> sx_field snd apsnd"

abbreviation on_evw :: "('d, 'a) wx \<Rightarrow> ('d, 'a) evx" where
  "on_evw m \<equiv> on_streams (on_stw m)"

abbreviation this_event :: "('d, SUPAEvent) evx" where
  "this_event \<equiv> sx_get fst"

abbreviation set_event :: "(SUPAEvent \<Rightarrow> SUPAEvent) \<Rightarrow> ('d, unit) evx" where
  "set_event f \<equiv> sx_mod (apfst f)"

abbreviation ev_guard :: "'d driver \<Rightarrow> int \<Rightarrow> ('d, 'a) evx \<Rightarrow> ('d, 'a) evx" where
  "ev_guard \<equiv> guarded (\<lambda>s. st_world (snd s)) (\<lambda>f. apsnd (st_world_update f))"

text \<open>\<^verbatim>\<open>try { ... } catch (...) { }\<close>; the end of the process cannot be caught.\<close>

definition sx_catch :: "('s, exn, unit) sx \<Rightarrow> ('s, exn, unit) sx" where
  "sx_catch m = (\<lambda>s. case m s of (Inl e, t) \<Rightarrow> (if e = Terminated then Inl e else Inr (), t) | (Inr x, t) \<Rightarrow> (Inr x, t))"

lemma wp_catch [simp, wp_simps]: "wp (sx_catch m) Q E = wp m Q (\<lambda>e. if e = Terminated then E e else Q ())"
  by (intro ext) (simp add: sx_catch_def wp_def split: prod.splits sum.splits)

definition SUPAEvent_ipc_ctor :: "'d driver \<Rightarrow> 'd rt \<Rightarrow> int \<Rightarrow> string \<Rightarrow> ('d, unit) evx" where
  "SUPAEvent_ipc_ctor D R i h =
     sx_seq (set_event (\<lambda>_. (SUPAEvent_ctor supaEventDisableTiming)\<lparr>device_index := i\<rparr>))
     (ev_guard D i
       (sx_bind (on_evw (supa_check_out (supaIpcOpenEventHandle R h))) (\<lambda>e.
        set_event (\<lambda>x. x\<lparr>event := e, is_created := True\<rparr>))))"

definition SUPAEvent_dtor :: "'d driver \<Rightarrow> 'd rt \<Rightarrow> ('d, unit) evx" where
  "SUPAEvent_dtor D R = sx_catch
     (sx_bind this_event (\<lambda>x.
      sx_when (is_created x) (ev_guard D (device_index x) (on_evw (supa_check (supaEventDestroy R (event x)))))))"

text \<open>Moving swaps all fields of the two objects.\<close>

definition moveHelper :: "SUPAEvent \<times> SUPAEvent \<Rightarrow> SUPAEvent \<times> SUPAEvent" where
  "moveHelper = (\<lambda>(this, other).
     (\<lparr>flags = flags other, is_created = is_created other, was_recorded = was_recorded other, device_index = device_index other,
       event = event other\<rparr>,
      \<lparr>flags = flags this, is_created = is_created this, was_recorded = was_recorded this, device_index = device_index this,
       event = event this\<rparr>))"

definition query :: "'d driver \<Rightarrow> ('d, bool) evx" where
  "query D = sx_bind this_event (\<lambda>x.
     if \<not> is_created x then sx_ret True
     else sx_bind (on_evw (drv_call (supaEventQuery D (event x)))) (\<lambda>err.
       if err = supaSuccess then sx_ret True
       else sx_seq (sx_when (err \<noteq> supaErrorNotReady) (check_err err))
         (sx_bind (on_evw (drv_call (supaGetLastError D))) (\<lambda>_. sx_ret False))))"

definition createEvent :: "'d driver \<Rightarrow> 'd rt \<Rightarrow> int \<Rightarrow> ('d, unit) evx" where
  "createEvent D R i =
     sx_seq (set_event (\<lambda>x. x\<lparr>device_index := i\<rparr>))
     (ev_guard D i
       (sx_bind this_event (\<lambda>x.
        sx_bind (on_evw (supa_check_out (supaEventCreateFlags R (flags x)))) (\<lambda>e.
        set_event (\<lambda>x. x\<lparr>event := e, is_created := True\<rparr>)))))"

text \<open>The part of \<^verbatim>\<open>record\<close> after the event exists.\<close>

definition record_created :: "'d driver \<Rightarrow> SUPAStream \<Rightarrow> ('d, unit) evx" where
  "record_created D s =
     sx_bind this_event (\<lambda>x.
     sx_seq (sx_check (device_index x = s_device s) (TorchCheck ''Event device does not match recording stream's device''))
     (ev_guard D (device_index x)
       (sx_bind (on_streams (stream_of s)) (\<lambda>h.
        sx_seq (on_evw (supa_check (supaEventRecord D (event x) h)))
        (set_event (\<lambda>x. x\<lparr>was_recorded := True\<rparr>))))))"

definition record_on :: "'d driver \<Rightarrow> 'd rt \<Rightarrow> SUPAStream \<Rightarrow> ('d, unit) evx" where
  "record_on D R s =
     sx_bind this_event (\<lambda>x.
     sx_seq (sx_when (\<not> is_created x) (createEvent D R (s_device s))) (record_created D s))"

definition record_current :: "'d driver \<Rightarrow> 'd rt \<Rightarrow> ('d, unit) evx" where
  "record_current D R = sx_bind (on_streams (getCurrentSUPAStream D R (-1))) (record_on D R)"

definition recordOnce :: "'d driver \<Rightarrow> 'd rt \<Rightarrow> SUPAStream \<Rightarrow> ('d, unit) evx" where
  "recordOnce D R s = sx_bind this_event (\<lambda>x. sx_when (\<not> was_recorded x) (record_on D R s))"

definition block_on :: "'d driver \<Rightarrow> 'd rt \<Rightarrow> SUPAStream \<Rightarrow> ('d, unit) evx" where
  "block_on D R s = sx_bind this_event (\<lambda>x.
     sx_when (is_created x) (ev_guard D (s_device s)
       (sx_bind (on_streams (stream_of s)) (\<lambda>h. on_evw (supa_check (supaStreamWaitEvent R h (event x)))))))"

definition elapsed_time :: "'d rt \<Rightarrow> SUPAEvent \<Rightarrow> ('d, rat) evx" where
  "elapsed_time R other = sx_bind this_event (\<lambda>x.
     sx_seq (sx_check (is_created x \<and> is_created other) (TorchCheck ''Both events must be recorded before calculating elapsed time''))
     (on_evw (supa_check_out (supaEventElapsedTime R (event x) (event other)))))"

definition event_synchronize :: "'d driver \<Rightarrow> ('d, unit) evx" where
  "event_synchronize D = sx_bind this_event (\<lambda>x.
     sx_when (is_created x) (on_evw (supa_check (supaEventSynchronize D (event x)))))"

definition ipc_handle :: "'d driver \<Rightarrow> 'd rt \<Rightarrow> ('d, string) evx" where
  "ipc_handle D R =
     sx_bind this_event (\<lambda>x.
     sx_seq (sx_when (\<not> is_created x)
        (sx_bind (on_streams (getCurrentSUPAStream D R (-1))) (\<lambda>s. createEvent D R (s_device s))))
     (sx_bind this_event (\<lambda>x.
      ev_guard D (device_index x) (on_evw (supa_check_out (supaIpcGetEventHandle R (event x)))))))"

section \<open>The event functions of the guard\<close>

text \<open>The guard is handed raw events; a null event is 0.\<close>

definition guard_createEvent :: "'d rt \<Rightarrow> ('d, nat) wx" where
  "guard_createEvent R = supa_check_out (supaEventCreateFlags R 0)"

definition guard_destroyEvent :: "'d driver \<Rightarrow> 'd rt \<Rightarrow> nat \<Rightarrow> int \<Rightarrow> ('d, unit) wx" where
  "guard_destroyEvent D R e i = sx_noexcept
     (sx_when (e \<noteq> 0)
       (sx_bind (GetDevice D) (\<lambda>(err, orig).
        sx_seq (check_warn D err)
        (sx_seq (sx_bind (SetDevice D i False) (check_warn D))
        (sx_seq (sx_bind (drv_call (supaEventDestroy R e)) (check_warn D))
        (sx_bind (SetDevice D (if err = supaSuccess then orig else -1) False) (check_warn D)))))))"

definition guard_record :: "'d driver \<Rightarrow> 'd rt \<Rightarrow> nat \<Rightarrow> SUPAStream \<Rightarrow> int \<Rightarrow> ('d, nat) stx" where
  "guard_record D R e s i =
     sx_seq (sx_check (i = -1 \<or> i = s_device s) (TorchCheck ''Event device index does not match recording stream's device index''))
     (sx_bind (on_stw (getDevice D)) (\<lambda>orig_device.
      sx_seq (on_stw (setDevice D (s_device s)))
      (sx_bind (if e = 0 then on_stw (guard_createEvent R) else sx_ret e) (\<lambda>e.
       sx_bind (stream_of s) (\<lambda>h.
       sx_seq (on_stw (supa_check (supaEventRecord D e h)))
       (sx_seq (on_stw (setDevice D orig_device)) (sx_ret e)))))))"

definition guard_block :: "'d driver \<Rightarrow> 'd rt \<Rightarrow> nat \<Rightarrow> SUPAStream \<Rightarrow> ('d, unit) stx" where
  "guard_block D R e s =
     sx_when (e \<noteq> 0)
       (sx_bind (on_stw (getDevice D)) (\<lambda>orig_device.
        sx_seq (on_stw (setDevice D (s_device s)))
        (sx_bind (stream_of s) (\<lambda>h.
         sx_seq (on_stw (supa_check (supaStreamWaitEvent R h e)))
         (on_stw (setDevice D orig_device))))))"

definition queryEvent :: "'d driver \<Rightarrow> nat \<Rightarrow> ('d, bool) wx" where
  "queryEvent D e =
     (if e = 0 then sx_ret True
      else sx_bind (drv_call (supaEventQuery D e)) (\<lambda>err.
        sx_seq (if err \<noteq> supaErrorNotReady then check_err err else sx_bind (drv_call (supaGetLastError D)) (\<lambda>_. sx_ret ()))
        (sx_ret (err = supaSuccess))))"

definition synchronizeEvent :: "'d driver \<Rightarrow> nat \<Rightarrow> ('d, unit) wx" where
  "synchronizeEvent D e = sx_when (e \<noteq> 0) (supa_check (supaEventSynchronize D e))"

text \<open>Work on another device, with the device set back only when it succeeds.\<close>

definition elapsedTime :: "'d driver \<Rightarrow> 'd rt \<Rightarrow> nat \<Rightarrow> nat \<Rightarrow> int \<Rightarrow> ('d, rat) wx" where
  "elapsedTime D R e1 e2 i =
     sx_seq (sx_check (e1 \<noteq> 0 \<and> e2 \<noteq> 0) (TorchCheck ''Both events must be recorded before calculating elapsed time''))
     (sx_bind (getDevice D) (\<lambda>orig_device.
      sx_seq (setDevice D i)
      (sx_bind (supa_check_out (supaEventElapsedTime R e1 e2)) (\<lambda>t.
       sx_seq (setDevice D orig_device) (sx_ret t)))))"

definition synchronizeDevice :: "'d driver \<Rightarrow> 'd rt \<Rightarrow> int \<Rightarrow> ('d, unit) wx" where
  "synchronizeDevice D R i =
     sx_bind (getDevice D) (\<lambda>orig_device.
     sx_seq (setDevice D i)
     (sx_seq (supa_check (supaDeviceSynchronize R)) (setDevice D orig_device)))"

definition guard_queryStream :: "'d driver \<Rightarrow> 'd rt \<Rightarrow> SUPAStream \<Rightarrow> ('d, bool) stx" where
  "guard_queryStream D R s = stream_query D R s"

definition guard_synchronizeStream :: "'d driver \<Rightarrow> SUPAStream \<Rightarrow> ('d, unit) stx" where
  "guard_synchronizeStream D s = synchronize D s"

end
