(* ===== verification/Event_Ownership.thy ===== *)
theory Event_Ownership
  imports Supa_Event
begin

text \<open>
  Who owns the runtime's events: in every history of constructing, recording, moving and destroying
  \<^verbatim>\<open>SUPAEvent\<close> objects, the events that exist are exactly those of the created objects, one each, whatever
  driver errors occur on the way.
\<close>

unbundle bit_operations_syntax

section \<open>The laws of the runtime\<close>

text \<open>
  What the runtime documents of events, in terms of the events that exist: creating one gives a new
  handle, destroying an existing one removes it, and nothing else changes them or the device.
\<close>

definition creates_event :: "('d \<Rightarrow> int) \<Rightarrow> ('d \<Rightarrow> nat set) \<Rightarrow> ('d, nat) drv_out \<Rightarrow> bool" where
  "creates_event cur alive f \<longleftrightarrow> (\<forall>d e h d'. f d = ((e, h), d') \<longrightarrow> cur d' = cur d
     \<and> (if e = supaSuccess then h \<notin> alive d \<and> alive d' = insert h (alive d) else alive d' = alive d))"

definition destroys_event :: "('d \<Rightarrow> int) \<Rightarrow> ('d \<Rightarrow> nat set) \<Rightarrow> nat \<Rightarrow> 'd drv_call \<Rightarrow> bool" where
  "destroys_event cur alive h f \<longleftrightarrow> (\<forall>d. h \<in> alive d \<longrightarrow>
     fst (f d) = supaSuccess \<and> cur (snd (f d)) = cur d \<and> alive (snd (f d)) = alive d - {h})"

definition keeps_events :: "('d \<Rightarrow> int) \<Rightarrow> ('d \<Rightarrow> nat set) \<Rightarrow> ('d \<Rightarrow> 'a \<times> 'd) \<Rightarrow> bool" where
  "keeps_events cur alive f \<longleftrightarrow> (\<forall>d. cur (snd (f d)) = cur d \<and> alive (snd (f d)) = alive d)"

definition event_calls_ok :: "'d driver \<Rightarrow> 'd rt \<Rightarrow> ('d \<Rightarrow> int) \<Rightarrow> ('d \<Rightarrow> nat set) \<Rightarrow> bool" where
  "event_calls_ok D R cur alive \<longleftrightarrow> device_calls_ok D cur \<and> accepts_devices D \<and> device_neutral D alive
     \<and> (\<forall>f. creates_event cur alive (supaEventCreateFlags R f)) \<and> (\<forall>h. destroys_event cur alive h (supaEventDestroy R h))
     \<and> (\<forall>e h. keeps_events cur alive (supaEventRecord D e h)) \<and> (\<forall>h e. keeps_events cur alive (supaStreamWaitEvent R h e))"

lemma event_calls:
  assumes "event_calls_ok D R cur alive"
  shows "device_calls_ok D cur" and "accepts_devices D" and "device_neutral D alive"
    and "creates_event cur alive (supaEventCreateFlags R f)" and "destroys_event cur alive h (supaEventDestroy R h)"
    and "keeps_events cur alive (supaEventRecord D e h)" and "keeps_events cur alive (supaStreamWaitEvent R h e)"
  using assms by (simp_all add: event_calls_ok_def)

section \<open>One object\<close>

text \<open>The events that exist are those of the other objects and the one of this object, if it has one.\<close>

definition holds_one :: "'d driver \<Rightarrow> ('d \<Rightarrow> nat set) \<Rightarrow> nat set \<Rightarrow> SUPAEvent \<times> 'd strm \<Rightarrow> bool" where
  "holds_one D alive B s \<longleftrightarrow> thread_ok D (snd s)
     \<and> alive (drv (st_world (snd s))) = B \<union> (if is_created (fst s) then {event (fst s)} else {})
     \<and> (is_created (fst s) \<longrightarrow> event (fst s) \<notin> B \<and> 0 \<le> device_index (fst s) \<and> device_index (fst s) < device_count D)"

text \<open>Computing the handle of a stream changes nothing.\<close>

lemma wp_stream_of:
  assumes "\<And>h. Q h s" and "\<And>e. E e s"
  shows "wp (stream_of x) Q E s"
  by (simp add: assms stream_of_def streamIdType_def check_at_def wp_if Let_def)

lemma wp_ev_guard:
  assumes C: "event_calls_ok D R cur alive" and i: "0 \<le> i" "i < device_count D" and K: "thread_ok D st"
    and P: "\<And>x st st'. P (x, st) \<Longrightarrow> thread_ok D st' \<Longrightarrow> alive (drv (st_world st')) = alive (drv (st_world st)) \<Longrightarrow> P (x, st')"
    and m: "\<And>w. thread_ok D (st\<lparr>st_world := w\<rparr>) \<Longrightarrow> alive (drv w) = alive (drv (st_world st)) \<Longrightarrow>
      wp m (\<lambda>_. P) (\<lambda>_. P) (x, st\<lparr>st_world := w\<rparr>)"
  shows "wp (ev_guard D i m) (\<lambda>_. P) (\<lambda>_. P) (x, st)"
proof (rule wp_guarded [OF event_calls(1-3) [OF C] i], goal_cases)
  case 1 then show ?case using K by (simp add: thread_ok_def)
next
  case (2 w)
  have b: "wp m (\<lambda>_. P) (\<lambda>_. P) (x, st\<lparr>st_world := w\<rparr>)"
    using 2 by (intro m) (simp_all add: thread_ok_def switched_def)
  have f: "P (apsnd (st_world_update (\<lambda>_. w')) t)" if "P t" "switched cur alive i (st_world (snd t)) w'" for t w' i
    using P [of "fst t" "snd t" "(snd t)\<lparr>st_world := w'\<rparr>"] that by (simp add: switched_def thread_ok_def apsnd_def map_prod_def split_beta)
  have "wp m (\<lambda>_ t. \<forall>w'. switched cur alive (thread_device cur (st_world st)) (st_world (snd t)) w' \<longrightarrow> P (apsnd (st_world_update (\<lambda>_. w')) t))
      (\<lambda>_ t. \<forall>w'. switched cur alive (thread_device cur (st_world st)) (st_world (snd t)) w' \<longrightarrow> P (apsnd (st_world_update (\<lambda>_. w')) t))
      (x, st\<lparr>st_world := w\<rparr>)"
    by (rule wp_conseq [OF b]) (use f in blast)+
  then show ?case by simp
qed

lemma holds_one_frame:
  "holds_one D alive B (x, st) \<Longrightarrow> thread_ok D st' \<Longrightarrow> alive (drv (st_world st')) = alive (drv (st_world st)) \<Longrightarrow> holds_one D alive B (x, st')"
  by (simp add: holds_one_def)

lemma wp_createEvent:
  assumes C: "event_calls_ok D R cur alive" and H: "holds_one D alive B (x, st)" and n: "\<not> is_created x"
    and i: "0 \<le> i" "i < device_count D"
  shows "wp (createEvent D R i) (\<lambda>_. holds_one D alive B) (\<lambda>_. holds_one D alive B) (x, st)"
proof -
  let ?x = "x\<lparr>device_index := i\<rparr>"
  have "wp (ev_guard D i
       (sx_bind this_event (\<lambda>x.
        sx_bind (on_evw (supa_check_out (supaEventCreateFlags R (flags x)))) (\<lambda>e.
        set_event (\<lambda>x. x\<lparr>event := e, is_created := True\<rparr>)))))
      (\<lambda>_. holds_one D alive B) (\<lambda>_. holds_one D alive B) (?x, st)"
  proof (rule wp_ev_guard [OF C i], goal_cases)
    case 1 then show ?case using H by (simp add: holds_one_def)
  next
    case (2 x st st') then show ?case by (rule holds_one_frame)
  next
    case (3 w)
    obtain e h d where c: "supaEventCreateFlags R (flags x) (drv w) = ((e, h), d)" by (metis surj_pair)
    then have "if e = supaSuccess then h \<notin> alive (drv w) \<and> alive d = insert h (alive (drv w)) else alive d = alive (drv w)"
      using event_calls(4) [OF C] unfolding creates_event_def by blast
    then show ?case using c H n i 3 by (auto simp: holds_one_def thread_ok_def wp_if split: if_splits)
  qed
  then show ?thesis by (simp add: createEvent_def)
qed

lemma wp_record_created:
  assumes C: "event_calls_ok D R cur alive" and H: "holds_one D alive B (x, st)" and i: "0 \<le> s_device s" "s_device s < device_count D"
  shows "wp (record_created D s) (\<lambda>_. holds_one D alive B) (\<lambda>_. holds_one D alive B) (x, st)"
proof (cases "device_index x = s_device s")
  case True
  have "wp (ev_guard D (device_index x) (sx_bind (on_streams (stream_of s)) (\<lambda>h.
         sx_seq (on_evw (supa_check (supaEventRecord D (event x) h))) (set_event (\<lambda>x. x\<lparr>was_recorded := True\<rparr>)))))
      (\<lambda>_. holds_one D alive B) (\<lambda>_. holds_one D alive B) (x, st)"
  proof (rule wp_ev_guard [OF C], goal_cases)
    case (5 w)
    then have w: "holds_one D alive B (x, st\<lparr>st_world := w\<rparr>)" using H by (simp add: holds_one_def)
    have "holds_one D alive B (z, st\<lparr>st_world := w\<lparr>drv := d\<rparr>\<rparr>)"
      if "supaEventRecord D (event x) h (drv w) = (e, d)" "z = x \<or> z = x\<lparr>was_recorded := True\<rparr>" for h e d z
    proof -
      have "alive d = alive (drv w)" using event_calls(6) [OF C, of "event x" h] that(1) unfolding keeps_events_def by (metis snd_conv)
      then show ?thesis using w that(2) by (auto simp: holds_one_def thread_ok_def)
    qed
    then show ?case using w by (auto intro!: wp_stream_of split: prod.splits)
  qed (use True H i in \<open>auto simp: holds_one_def intro: holds_one_frame\<close>)
  then show ?thesis using True by (simp add: record_created_def)
next
  case False
  then show ?thesis using H by (simp add: record_created_def)
qed

lemma wp_record_on:
  assumes C: "event_calls_ok D R cur alive" and H: "holds_one D alive B (x, st)" and i: "0 \<le> s_device s" "s_device s < device_count D"
  shows "wp (record_on D R s) (\<lambda>_. holds_one D alive B) (\<lambda>_. holds_one D alive B) (x, st)"
proof (cases "is_created x")
  case True
  then show ?thesis using wp_record_created [OF C H i] by (simp add: record_on_def)
next
  case False
  then show ?thesis
    using wp_record_created [OF C _ i] by (simp add: record_on_def) (rule wp_conseq [OF wp_createEvent [OF C H False i]], auto)
qed

lemma wp_block_on:
  assumes C: "event_calls_ok D R cur alive" and H: "holds_one D alive B (x, st)" and i: "0 \<le> s_device s" "s_device s < device_count D"
  shows "wp (block_on D R s) (\<lambda>_. holds_one D alive B) (\<lambda>_. holds_one D alive B) (x, st)"
proof -
  have "wp (ev_guard D (s_device s) (sx_bind (on_streams (stream_of s)) (\<lambda>h. on_evw (supa_check (supaStreamWaitEvent R h (event x))))))
      (\<lambda>_. holds_one D alive B) (\<lambda>_. holds_one D alive B) (x, st)"
  proof (rule wp_ev_guard [OF C i], goal_cases)
    case (3 w)
    then have w: "holds_one D alive B (x, st\<lparr>st_world := w\<rparr>)" using H by (simp add: holds_one_def)
    have "holds_one D alive B (x, st\<lparr>st_world := w\<lparr>drv := d\<rparr>\<rparr>)" if "supaStreamWaitEvent R h (event x) (drv w) = (e, d)" for h e d
    proof -
      have "alive d = alive (drv w)" using event_calls(7) [OF C, of h "event x"] that unfolding keeps_events_def by (metis snd_conv)
      then show ?thesis using w by (auto simp: holds_one_def thread_ok_def)
    qed
    then show ?case using w by (auto intro!: wp_stream_of split: prod.splits)
  qed (use H in \<open>auto simp: holds_one_def intro: holds_one_frame\<close>)
  then show ?thesis using H by (simp add: block_on_def)
qed

lemma wp_dtor:
  assumes C: "event_calls_ok D R cur alive" and H: "holds_one D alive B (x, st)"
  shows "wp (SUPAEvent_dtor D R) (\<lambda>_ t. thread_ok D (snd t) \<and> alive (drv (st_world (snd t))) = B) (\<lambda>_ _. False) (x, st)"
proof (cases "is_created x")
  case False then show ?thesis using H by (simp add: SUPAEvent_dtor_def holds_one_def)
next
  case True
  let ?P = "\<lambda>t. thread_ok D (snd t) \<and> alive (drv (st_world (snd t))) = B"
  have "wp (ev_guard D (device_index x) (on_evw (supa_check (supaEventDestroy R (event x))))) (\<lambda>_. ?P) (\<lambda>_ _. False) (x, st)"
  proof (rule wp_guarded [OF event_calls(1-3) [OF C]], goal_cases)
    case (4 w)
    have "event x \<in> alive (drv w)" using H True 4 by (simp add: holds_one_def switched_def)
    then have "fst (supaEventDestroy R (event x) (drv w)) = supaSuccess" "alive (snd (supaEventDestroy R (event x) (drv w))) = B"
      using event_calls(5) [OF C, of "event x"] H True 4 by (auto simp: destroys_event_def holds_one_def switched_def)
    then show ?case by (cases "supaEventDestroy R (event x) (drv w)") (auto simp: switched_def thread_ok_def)
  qed (use H True in \<open>auto simp: holds_one_def thread_ok_def\<close>)
  then have "wp (ev_guard D (device_index x) (on_evw (supa_check (supaEventDestroy R (event x))))) (\<lambda>_. ?P)
      (\<lambda>e. if e = Terminated then \<lambda>_. False else ?P) (x, st)" by (rule wp_conseq) auto
  then show ?thesis using True by (simp add: SUPAEvent_dtor_def)
qed

section \<open>All objects\<close>

record 'd evsys =
  objs :: "nat \<Rightarrow> SUPAEvent option"
  ev_streams :: "'d strm"

datatype event_op =
    NewEvent nat nat
  | RecordEvent nat SUPAStream
  | BlockEvent nat SUPAStream
  | MoveNew nat nat
  | MoveAssign nat nat
  | DestroyEvent nat

text \<open>An operation on an object of the store.\<close>

definition on_object :: "nat \<Rightarrow> ('d, 'a) evx \<Rightarrow> ('d evsys, exn, 'a) sx" where
  "on_object a m = (\<lambda>s. case objs s a of None \<Rightarrow> (Inl UseAfterFree, s)
     | Some x \<Rightarrow> (case m (x, ev_streams s) of (r, y, st) \<Rightarrow> (r, s\<lparr>objs := (objs s)(a \<mapsto> y), ev_streams := st\<rparr>)))"

text \<open>
  The move constructor makes an object with the default fields and swaps them with the other's; the
  move assignment of an object to itself does nothing.
\<close>

fun run_event :: "'d driver \<Rightarrow> 'd rt \<Rightarrow> event_op \<Rightarrow> ('d evsys, exn, unit) sx" where
  "run_event D R (NewEvent a f) = sx_mod (\<lambda>s. s\<lparr>objs := (objs s)(a \<mapsto> SUPAEvent_ctor f)\<rparr>)"
| "run_event D R (RecordEvent a x) = on_object a (record_on D R x)"
| "run_event D R (BlockEvent a x) = on_object a (block_on D R x)"
| "run_event D R (MoveNew a b) = sx_mod (\<lambda>s. case objs s b of None \<Rightarrow> s
     | Some y \<Rightarrow> (case moveHelper (SUPAEvent_ctor supaEventDisableTiming, y) of (x', y') \<Rightarrow> s\<lparr>objs := (objs s)(a \<mapsto> x', b \<mapsto> y')\<rparr>))"
| "run_event D R (MoveAssign a b) = sx_mod (\<lambda>s. case (objs s a, objs s b) of
       (Some x, Some y) \<Rightarrow> (if a = b then s else case moveHelper (x, y) of (x', y') \<Rightarrow> s\<lparr>objs := (objs s)(a \<mapsto> x', b \<mapsto> y')\<rparr>)
     | _ \<Rightarrow> s)"
| "run_event D R (DestroyEvent a) = sx_seq (on_object a (SUPAEvent_dtor D R)) (sx_mod (\<lambda>s. s\<lparr>objs := (objs s)(a := None)\<rparr>))"

text \<open>What the client owes: new objects are new, operations are on objects that exist and streams of a device.\<close>

fun event_op_ok :: "'d driver \<Rightarrow> event_op \<Rightarrow> 'd evsys \<Rightarrow> bool" where
  "event_op_ok D (NewEvent a f) s = (objs s a = None)"
| "event_op_ok D (RecordEvent a x) s = (objs s a \<noteq> None \<and> 0 \<le> s_device x \<and> s_device x < device_count D)"
| "event_op_ok D (BlockEvent a x) s = (objs s a \<noteq> None \<and> 0 \<le> s_device x \<and> s_device x < device_count D)"
| "event_op_ok D (MoveNew a b) s = (objs s a = None \<and> objs s b \<noteq> None)"
| "event_op_ok D (MoveAssign a b) s = (objs s a \<noteq> None \<and> objs s b \<noteq> None)"
| "event_op_ok D (DestroyEvent a) s = (objs s a \<noteq> None)"

inductive events_reach :: "'d driver \<Rightarrow> 'd rt \<Rightarrow> 'd strm \<Rightarrow> 'd evsys \<Rightarrow> bool" for D R st where
  events_start: "events_reach D R st \<lparr>objs = \<lambda>_. None, ev_streams = st\<rparr>"
| events_step: "events_reach D R st s \<Longrightarrow> event_op_ok D q s \<Longrightarrow> run_event D R q s = (r, t) \<Longrightarrow> events_reach D R st t"

text \<open>The events of an object, and of all objects but one.\<close>

definition its_event :: "SUPAEvent option \<Rightarrow> nat set" where
  "its_event x = (case x of Some y \<Rightarrow> if is_created y then {event y} else {} | None \<Rightarrow> {})"

definition others :: "(nat \<Rightarrow> SUPAEvent option) \<Rightarrow> nat \<Rightarrow> nat set" where
  "others h a = (\<Union>b \<in> - {a}. its_event (h b))"

definition placed :: "'d driver \<Rightarrow> SUPAEvent option \<Rightarrow> bool" where
  "placed D x \<longleftrightarrow> (\<forall>y. x = Some y \<longrightarrow> is_created y \<longrightarrow> 0 \<le> device_index y \<and> device_index y < device_count D)"

definition exact :: "'d driver \<Rightarrow> ('d \<Rightarrow> nat set) \<Rightarrow> 'd evsys \<Rightarrow> bool" where
  "exact D alive s \<longleftrightarrow> thread_ok D (ev_streams s) \<and> alive (drv (st_world (ev_streams s))) = (\<Union>a. its_event (objs s a))
     \<and> (\<forall>a b. a \<noteq> b \<longrightarrow> its_event (objs s a) \<inter> its_event (objs s b) = {}) \<and> (\<forall>a. placed D (objs s a))"

lemma others_all: "(\<Union>b. its_event (h b)) = others h a \<union> its_event (h a)"
  by (auto simp: others_def)

lemma its_event_None [simp]: "its_event None = {}"
  by (simp add: its_event_def)

lemma holds_one_iff:
  "holds_one D alive B (y, st) \<longleftrightarrow> thread_ok D st \<and> alive (drv (st_world st)) = B \<union> its_event (Some y)
     \<and> its_event (Some y) \<inter> B = {} \<and> placed D (Some y)"
  by (auto simp: holds_one_def its_event_def placed_def)

lemma exact_one:
  assumes "exact D alive s" and "objs s a = Some x"
  shows "holds_one D alive (others (objs s) a) (x, ev_streams s)"
proof -
  have "its_event (Some x) \<inter> others (objs s) a = {}" using assms unfolding exact_def others_def by fastforce
  then show ?thesis using assms others_all [of "objs s" a] unfolding exact_def holds_one_iff by metis
qed

text \<open>A store in which one object was replaced.\<close>

lemma one_exact:
  assumes E: "exact D alive s" and t: "thread_ok D st" "alive (drv (st_world st)) = others (objs s) a \<union> its_event y"
    and y: "its_event y \<inter> others (objs s) a = {}" "placed D y"
  shows "exact D alive (s\<lparr>objs := (objs s)(a := y), ev_streams := st\<rparr>)"
proof -
  let ?h = "(objs s)(a := y)"
  have "its_event (?h b) \<inter> its_event (?h c) = {}" if "b \<noteq> c" for b c
  proof -
    have "its_event y \<inter> its_event (objs s d) = {}" if "d \<noteq> a" for d using y(1) that by (auto simp: others_def)
    then show ?thesis using that E by (cases "b = a"; cases "c = a") (auto simp: exact_def)
  qed
  moreover have "(\<Union>b. its_event (?h b)) = others (objs s) a \<union> its_event y"
    unfolding others_all [of ?h a] by (simp add: others_def)
  ultimately show ?thesis using E t y(2) by (simp add: exact_def)
qed

lemma exact_object:
  assumes E: "exact D alive s" and a: "objs s a \<noteq> None"
    and m: "\<And>x. objs s a = Some x \<Longrightarrow>
      wp m (\<lambda>_. holds_one D alive (others (objs s) a)) (\<lambda>_. holds_one D alive (others (objs s) a)) (x, ev_streams s)"
    and r: "on_object a m s = (r, t)"
  shows "exact D alive t"
proof -
  obtain x where x: "objs s a = Some x" using a by blast
  obtain r' y st where run: "m (x, ev_streams s) = (r', y, st)" by (metis surj_pair)
  then have "holds_one D alive (others (objs s) a) (y, st)" using m [OF x] by (cases r') (simp_all add: wp_def)
  then have "exact D alive (s\<lparr>objs := (objs s)(a \<mapsto> y), ev_streams := st\<rparr>)" by (intro one_exact [OF E]) (simp_all add: holds_one_iff)
  then show ?thesis using r x run by (simp add: on_object_def)
qed

lemma exact_swap:
  assumes "exact D alive s" and "a \<noteq> b" and "its_event x = its_event (objs s b)" and "its_event y = its_event (objs s a)"
    and "placed D x" and "placed D y"
  shows "exact D alive (s\<lparr>objs := (objs s)(a := x, b := y)\<rparr>)"
proof -
  let ?h = "(objs s)(a := x, b := y)" and ?p = "\<lambda>c. if c = a then b else if c = b then a else c"
  have p: "its_event (?h c) = its_event (objs s (?p c))" for c using assms by simp
  have "(\<Union>c. its_event (?h c)) = (\<Union>c. its_event (objs s c))"
  proof (intro equalityI UN_least)
    show "its_event (?h c) \<subseteq> (\<Union>c. its_event (objs s c))" for c unfolding p by blast
    have "?p (?p c) = c" for c by simp
    then have "its_event (objs s c) = its_event (?h (?p c))" for c unfolding p by simp
    then show "its_event (objs s c) \<subseteq> (\<Union>c. its_event (?h c))" for c by blast
  qed
  moreover have "its_event (?h c) \<inter> its_event (?h d) = {}" if "c \<noteq> d" for c d
    unfolding p using assms(1) that by (auto simp: exact_def)
  ultimately show ?thesis using assms unfolding exact_def by simp
qed

lemma exact_new: "exact D alive s \<Longrightarrow> objs s a = None \<Longrightarrow> exact D alive (s\<lparr>objs := (objs s)(a \<mapsto> SUPAEvent_ctor f)\<rparr>)"
  using one_exact [of D alive s "ev_streams s" a "Some (SUPAEvent_ctor f)"] others_all [of "objs s" a]
  by (simp add: exact_def its_event_def placed_def SUPAEvent_ctor_def)

lemma exact_step:
  assumes C: "event_calls_ok D R cur alive" and E: "exact D alive s" and q: "event_op_ok D q s" and r: "run_event D R q s = (r, t)"
  shows "exact D alive t"
proof (cases q)
  case (NewEvent a f) then show ?thesis using r q exact_new [OF E] by (auto simp: sx_mod_def)
next
  case (RecordEvent a x)
  then show ?thesis
    using q r by (intro exact_object [OF E _ wp_record_on [OF C exact_one [OF E]]]) auto
next
  case (BlockEvent a x)
  then show ?thesis
    using q r by (intro exact_object [OF E _ wp_block_on [OF C exact_one [OF E]]]) auto
next
  case (MoveNew a b)
  then obtain y where y: "objs s a = None" "objs s b = Some y" using q by auto
  have n: "exact D alive (s\<lparr>objs := (objs s)(a \<mapsto> SUPAEvent_ctor supaEventDisableTiming)\<rparr>)" by (rule exact_new [OF E y(1)])
  have pl: "placed D (Some y)" using E y(2) unfolding exact_def by metis
  obtain x' y' where m: "moveHelper (SUPAEvent_ctor supaEventDisableTiming, y) = (x', y')" by fastforce
  have ab: "a \<noteq> b" using y by auto
  have "exact D alive (s\<lparr>objs := (objs s)(a \<mapsto> x', b \<mapsto> y')\<rparr>)"
    using exact_swap [OF n ab, of "Some x'" "Some y'"] m y pl ab by (auto simp: moveHelper_def its_event_def placed_def SUPAEvent_ctor_def)
  then show ?thesis using r y MoveNew m by (auto simp: sx_mod_def)
next
  case (MoveAssign a b)
  then obtain x y where x: "objs s a = Some x" "objs s b = Some y" using q by auto
  have pl: "placed D (Some x)" "placed D (Some y)" using E x unfolding exact_def by metis+
  obtain x' y' where m: "moveHelper (x, y) = (x', y')" by fastforce
  have "a \<noteq> b \<Longrightarrow> exact D alive (s\<lparr>objs := (objs s)(a \<mapsto> x', b \<mapsto> y')\<rparr>)"
    using exact_swap [OF E, of a b "Some x'" "Some y'"] m x pl by (auto simp: moveHelper_def its_event_def placed_def)
  then show ?thesis using r x MoveAssign E m by (auto simp: sx_mod_def split: if_splits)
next
  case (DestroyEvent a)
  then obtain x where x: "objs s a = Some x" using q by auto
  obtain r' y st where run: "SUPAEvent_dtor D R (x, ev_streams s) = (r', y, st)" by (metis surj_pair)
  from wp_dtor [OF C exact_one [OF E x]] run
  have d: "\<exists>u. r' = Inr u" "thread_ok D st" "alive (drv (st_world st)) = others (objs s) a" by (cases r'; simp add: wp_def)+
  have "exact D alive (s\<lparr>objs := (objs s)(a := None), ev_streams := st\<rparr>)" using d(2,3) by (intro one_exact [OF E]) (simp_all add: placed_def)
  moreover have "t = s\<lparr>objs := (objs s)(a := None), ev_streams := st\<rparr>"
    using r DestroyEvent x run d(1) by (auto simp: on_object_def sx_seq_def sx_bind_def sx_mod_def)
  ultimately show ?thesis by simp
qed

section \<open>Property\<close>


definition ref_alive :: "ref_state \<Rightarrow> nat set" where
  "ref_alive d = set (ref_open d)"

lemma ref_event_calls_ok: "event_calls_ok ref_driver ref_rt ref_current ref_alive"
proof -
  have "Suc (sum_list hs) \<notin> set hs" for hs :: "nat list" using member_le_sum_list [of "Suc (sum_list hs)" hs] by auto
  then have "creates_event ref_current ref_alive (supaEventCreateFlags ref_rt f)" for f
    by (auto simp: creates_event_def ref_rt_def ref_alive_def ref_current_def Let_def)
  moreover have "destroys_event ref_current ref_alive h (supaEventDestroy ref_rt h)" for h
    by (auto simp: destroys_event_def ref_rt_def ref_alive_def ref_current_def)
  moreover have "keeps_events ref_current ref_alive (supaEventRecord ref_driver e h)"
    "keeps_events ref_current ref_alive (supaStreamWaitEvent ref_rt h e)" for e h
    by (simp_all add: keeps_events_def ref_driver_def ref_rt_def ref_ok_def)
  moreover have "device_neutral ref_driver ref_alive" by (simp add: device_neutral_def ref_driver_def ref_alive_def)
  ultimately show ?thesis using ref_device_calls_ok ref_accepts_devices by (simp add: event_calls_ok_def)
qed

definition ref_events :: "ref_state evsys" where
  "ref_events = snd (sx_seq (run_event ref_driver ref_rt (NewEvent 0 2))
     (run_event ref_driver ref_rt (RecordEvent 0 (SUPAStreamForId 1 0))) \<lparr>objs = \<lambda>_. None, ev_streams = initial_streams ref_stream_world\<rparr>)"


end
