(* ===== verification/Native_Allocator.thy ===== *)
theory Native_Allocator
  imports Device_Checkpoint Supa_Stream
begin

text \<open>
  The process-wide allocator, the class \<^verbatim>\<open>NativeCachingAllocator\<close> of
  \<^verbatim>\<open>core/supa/SUPACachingAllocator.cpp\<close>: it owns one device allocator per device, finds the block of an
  address, and keeps the cache of memory that other processes share. A block is referred to by the
  number of the device allocator whose store holds it and its number there; the calling thread's
  world is the one in the state of the streams, and every device allocator works on it.
\<close>

section \<open>The state\<close>

text \<open>A handle received from another process: a bare one of an old version, or a version byte and a body.\<close>

datatype ipc_body = MallocBody string | SegmentBody share_buf | OtherBody
datatype ipc_string = BareHandle string | FramedHandle int ipc_body

text \<open>
  An entry of the cache of shared memory; \<open>ce_uses\<close> counts the owners of the shared pointer that was
  handed out, and the weak pointer to it is valid as long as there is one.
\<close>

record MemHandleCacheEntry =
  ce_device :: int
  ce_segment :: "ExpandableSegment option"
  ce_ptr :: nat
  ce_uses :: nat

record 'd nca =
  allocator_enabled :: bool
  allocated_blocks :: "nat \<Rightarrow> (nat \<times> nat) option"
  device_allocator :: "'d dca list"
  ipcMemHandle_to_devptr :: "ipc_string \<Rightarrow> MemHandleCacheEntry option"
  p_streams :: "'d strm"

type_synonym ('d, 'a) nx = "('d nca, exn, 'a) sx"

text \<open>What the process-wide operations see: the environment of a device allocator and the rest of the runtime.\<close>

record 'd penv =
  Env :: "'d env"
  Rt :: "'d rt"
  force_uncached :: bool

definition NativeCachingAllocator_ctor :: "'d strm \<Rightarrow> 'd nca" where
  "NativeCachingAllocator_ctor st = \<lparr>allocator_enabled = True, allocated_blocks = \<lambda>_. None, device_allocator = [],
     ipcMemHandle_to_devptr = \<lambda>_. None, p_streams = st\<rparr>"

abbreviation on_str :: "('d, 'a) stx \<Rightarrow> ('d, 'a) nx" where
  "on_str \<equiv> sx_field p_streams p_streams_update"

abbreviation on_pw :: "('d, 'a) wx \<Rightarrow> ('d, 'a) nx" where
  "on_pw m \<equiv> on_str (on_stw m)"

abbreviation n_guard :: "'d driver \<Rightarrow> int \<Rightarrow> ('d, 'a) nx \<Rightarrow> ('d, 'a) nx" where
  "n_guard \<equiv> guarded (\<lambda>s. st_world (p_streams s)) (\<lambda>f. p_streams_update (st_world_update f))"

text \<open>
  A call on \<^verbatim>\<open>device_allocator[i]\<close>, whose index is not checked; the device allocator works on the world
  of the calling thread.
\<close>

definition run_dev :: "nat \<Rightarrow> ('d, 'a) dx \<Rightarrow> ('d, 'a) nx" where
  "run_dev i m = (\<lambda>s. case m ((device_allocator s ! i)\<lparr>world := st_world (p_streams s)\<rparr>) of
     (r, d) \<Rightarrow> (r, s\<lparr>device_allocator := (device_allocator s)[i := d], p_streams := (p_streams s)\<lparr>st_world := world d\<rparr>\<rparr>))"

definition on_dev :: "int \<Rightarrow> ('d, 'a) dx \<Rightarrow> ('d, 'a) nx" where
  "on_dev i m = sx_bind (sx_get (\<lambda>s. length (device_allocator s))) (\<lambda>n.
     if 0 \<le> i \<and> nat i < n then run_dev (nat i) m else sx_throw OutOfBounds)"

text \<open>
  Reading a block through its reference, and a call on \<^verbatim>\<open>device_allocator[block->device]\<close> with a block:
  a block of another allocator is not in its store.
\<close>

definition read_block :: "nat \<times> nat \<Rightarrow> ('d, Block) nx" where
  "read_block r = (\<lambda>s. case heap (device_allocator s ! fst r) (snd r) of None \<Rightarrow> (Inl UseAfterFree, s) | Some x \<Rightarrow> (Inr x, s))"

definition on_block :: "nat \<times> nat \<Rightarrow> (nat \<Rightarrow> ('d, 'a) dx) \<Rightarrow> ('d, 'a) nx" where
  "on_block r m = sx_bind (read_block r) (\<lambda>x. on_dev (b_device x)
     (if b_device x = int (fst r) then m (snd r) else sx_throw ForeignBlock))"

section \<open>Addresses and blocks\<close>

definition add_allocated_block :: "nat \<times> nat \<Rightarrow> ('d, unit) nx" where
  "add_allocated_block r = sx_bind (read_block r) (\<lambda>x.
     sx_mod (\<lambda>s. s\<lparr>allocated_blocks := (allocated_blocks s)(b_ptr x \<mapsto> r)\<rparr>))"

definition get_allocated_block :: "nat \<Rightarrow> bool \<Rightarrow> ('d, (nat \<times> nat) option) nx" where
  "get_allocated_block ptr remove = sx_bind (sx_get (\<lambda>s. allocated_blocks s ptr)) (\<lambda>it. case it of
     None \<Rightarrow> sx_ret None
   | Some r \<Rightarrow> sx_seq (sx_when remove (sx_mod (\<lambda>s. s\<lparr>allocated_blocks := (allocated_blocks s)(ptr := None)\<rparr>))) (sx_ret (Some r)))"

definition native_init :: "'d penv \<Rightarrow> int \<Rightarrow> ('d, unit) nx" where
  "native_init P count = sx_mod (\<lambda>s. s\<lparr>device_allocator := device_allocator s
     @ replicate (nat count - length (device_allocator s)) (DeviceCachingAllocator_ctor (Env P) (st_world (p_streams s)))\<rparr>)"

definition native_initialized :: "('d, bool) nx" where
  "native_initialized = sx_get (\<lambda>s. device_allocator s \<noteq> [])"

definition check_device :: "int \<Rightarrow> ('d, unit) nx" where
  "check_device device = sx_bind (sx_get (\<lambda>s. length (device_allocator s))) (\<lambda>n.
     sx_check (0 \<le> device \<and> nat device < n) (InternalAssert ''Allocator not initialized for device''))"

definition assertValidDevice :: "int \<Rightarrow> ('d, unit) nx" where
  "assertValidDevice device = sx_bind (sx_get (\<lambda>s. length (device_allocator s))) (\<lambda>n.
     sx_check (0 \<le> device \<and> device < int n) (TorchCheck ''Invalid device argument''))"

section \<open>Allocating and freeing\<close>

definition native_malloc :: "'d penv \<Rightarrow> int \<Rightarrow> nat \<Rightarrow> nat \<Rightarrow> ('d, nat) nx" where
  "native_malloc P device sz stream =
     sx_seq (check_device device)
     (sx_bind (on_dev device (device_malloc (Env P) device sz stream)) (\<lambda>b.
      sx_seq (add_allocated_block (nat device, b))
      (sx_bind (read_block (nat device, b)) (\<lambda>x. sx_ret (b_ptr x)))))"

definition native_free :: "'d penv \<Rightarrow> nat \<Rightarrow> ('d, unit) nx" where
  "native_free P ptr =
     (if ptr = 0 then sx_ret ()
      else sx_bind (get_allocated_block ptr True) (\<lambda>block. case block of
        None \<Rightarrow> sx_throw (TorchCheck ''invalid device pointer'')
      | Some r \<Rightarrow> on_block r (device_free (Env P))))"

definition set_thread_device :: "'d penv \<Rightarrow> int \<Rightarrow> ('d, unit) nx" where
  "set_thread_device P device = on_pw (sx_bind (SetDevice (Drv (Env P)) device False) check_err)"

definition get_thread_device :: "'d penv \<Rightarrow> ('d, int) nx" where
  "get_thread_device P = on_pw (sx_bind (GetDevice (Drv (Env P))) (\<lambda>(err, device). sx_seq (check_err err) (sx_ret device)))"

definition native_getMemoryFraction :: "'d penv \<Rightarrow> int \<Rightarrow> ('d, rat) nx" where
  "native_getMemoryFraction P device =
     sx_seq (check_device device)
     (sx_seq (set_thread_device P device) (on_dev device (getMemoryFraction (Env P))))"

definition native_setMemoryFraction :: "'d penv \<Rightarrow> rat \<Rightarrow> int \<Rightarrow> ('d, unit) nx" where
  "native_setMemoryFraction P fraction device =
     sx_seq (check_device device)
     (sx_seq (sx_check (0 \<le> fraction \<and> fraction \<le> 1) (InternalAssert ''invalid fraction''))
     (sx_seq (set_thread_device P device) (on_dev device (setMemoryFraction (Env P) fraction))))"

definition native_isHistoryEnabled :: "'d penv \<Rightarrow> ('d, bool) nx" where
  "native_isHistoryEnabled P = sx_bind (get_thread_device P) (\<lambda>device. on_dev device isHistoryEnabled)"

definition native_checkPoolLiveAllocations :: "int \<Rightarrow> mempool_id \<Rightarrow> nat list \<Rightarrow> ('d, bool) nx" where
  "native_checkPoolLiveAllocations device i expected = on_dev device (checkPoolLiveAllocations i expected)"

text \<open>The loop over all device allocators.\<close>

definition for_all_devices :: "(nat \<Rightarrow> ('d, unit) dx) \<Rightarrow> ('d, unit) nx" where
  "for_all_devices f = sx_bind (sx_get (\<lambda>s. length (device_allocator s))) (\<lambda>n. sx_for [0 ..< n] (\<lambda>i. run_dev i (f i)))"

text \<open>The observer is moved into the first allocator; the others get what a moved-from function is.\<close>

definition native_attachOutOfMemoryObserver :: "nat \<Rightarrow> nat \<Rightarrow> ('d, unit) nx" where
  "native_attachOutOfMemoryObserver observer moved_from =
     for_all_devices (\<lambda>i. attachOutOfMemoryObserver (if i = 0 then observer else moved_from))"

definition native_attachAllocatorTraceTracker :: "nat \<Rightarrow> ('d, unit) nx" where
  "native_attachAllocatorTraceTracker tracker = for_all_devices (\<lambda>_. attachAllocatorTraceTracker tracker)"

definition native_emptyCache :: "'d penv \<Rightarrow> mempool_id \<Rightarrow> ('d, unit) nx" where
  "native_emptyCache P mempool = for_all_devices (\<lambda>_. emptyCache (Env P) mempool)"

definition native_enable :: "bool \<Rightarrow> ('d, unit) nx" where
  "native_enable value = sx_mod (\<lambda>s. s\<lparr>allocator_enabled := value\<rparr>)"

definition native_isEnabled :: "('d, bool) nx" where
  "native_isEnabled = sx_get allocator_enabled"

text \<open>An operation on the block of an address, which must be known.\<close>

definition on_address :: "nat \<Rightarrow> exn \<Rightarrow> (nat \<Rightarrow> ('d, 'a) dx) \<Rightarrow> ('d, 'a) nx" where
  "on_address ptr e m = sx_bind (get_allocated_block ptr False) (\<lambda>block. case block of
     None \<Rightarrow> sx_throw e | Some r \<Rightarrow> on_block r m)"

definition native_getBaseAllocation :: "nat \<Rightarrow> ('d, nat \<times> nat) nx" where
  "native_getBaseAllocation ptr = on_address ptr (TorchCheck ''invalid device pointer'') getBaseAllocation"

definition native_shareIpcHandle :: "'d penv \<Rightarrow> nat \<Rightarrow> ('d, nat \<times> ShareableHandle) nx" where
  "native_shareIpcHandle P ptr = on_address ptr (TorchCheck ''invalid device pointer'') (shareIpcHandle (Env P))"

text \<open>A data pointer of the framework: the address and the function that will free it.\<close>

datatype deleter = local_raw_delete | uncached_delete_fn | other_deleter

record DataPtr =
  dp_ptr :: nat
  dp_deleter :: deleter
  dp_device :: int

definition native_recordStream :: "DataPtr \<Rightarrow> SUPAStream \<Rightarrow> ('d, unit) nx" where
  "native_recordStream ptr stream =
     (if dp_ptr ptr = 0 then sx_ret ()
      else if dp_deleter ptr \<noteq> local_raw_delete then sx_ret ()
      else sx_bind (get_allocated_block (dp_ptr ptr) False) (\<lambda>block. case block of
        None \<Rightarrow> sx_throw (InternalAssert ''No allocated block can be found'')
      | Some r \<Rightarrow> sx_bind (on_str (stream_of stream)) (\<lambda>h.
          on_block r (\<lambda>b. recordStream b \<lparr>stream_device = s_device stream, stream_handle = h\<rparr>))))"

record AllocatorConfigInfo =
  md_garbage_collection_threshold :: rat
  md_max_split_size :: nat
  md_pinned_num_register_threads :: nat
  md_expandable_segments :: bool
  md_release_lock_on_malloc :: bool
  md_pinned_use_host_register :: bool

record SnapshotInfo =
  device_traces :: "TraceEntry list list"
  segments :: "SegmentInfo list"
  config_metadata :: AllocatorConfigInfo

fun snapshot_devices :: "'d penv \<Rightarrow> mempool_id \<Rightarrow> nat list \<Rightarrow> ('d, TraceEntry list list \<times> SegmentInfo list) nx" where
  "snapshot_devices P mempool [] = sx_ret ([], [])"
| "snapshot_devices P mempool (i # is) =
     sx_bind (run_dev i trace) (\<lambda>t. sx_bind (run_dev i (device_snapshot (Env P) mempool)) (\<lambda>snap.
     sx_bind (snapshot_devices P mempool is) (\<lambda>(ts, ss). sx_ret (t # ts, snap @ ss))))"

definition native_snapshot :: "'d penv \<Rightarrow> mempool_id \<Rightarrow> ('d, SnapshotInfo) nx" where
  "native_snapshot P mempool =
     sx_bind (sx_get (\<lambda>s. length (device_allocator s))) (\<lambda>n.
     sx_bind (snapshot_devices P mempool [0 ..< n]) (\<lambda>(ts, ss).
     let c = Cfg (Env P) in
     sx_ret \<lparr>device_traces = ts, segments = ss, config_metadata =
       \<lparr>md_garbage_collection_threshold = m_garbage_collection_threshold c, md_max_split_size = m_max_split_size c,
        md_pinned_num_register_threads = m_pinned_num_register_threads c, md_expandable_segments = m_expandable_segments c,
        md_release_lock_on_malloc = m_release_lock_on_supamalloc c, md_pinned_use_host_register = m_pinned_use_supa_host_register c\<rparr>\<rparr>))"

definition native_getCheckpointState :: "'d penv \<Rightarrow> int \<Rightarrow> mempool_id \<Rightarrow> ('d, PrivatePoolState) nx" where
  "native_getCheckpointState P device i = on_dev device (getCheckpointState (Env P) i)"

record CheckpointDelta =
  ptrs_freed :: "nat list"
  dataptrs_allocd :: "DataPtr list"

fun add_created :: "int \<Rightarrow> nat list \<Rightarrow> ('d, DataPtr list) nx" where
  "add_created device [] = sx_ret []"
| "add_created device (b # bs) =
     sx_seq (add_allocated_block (nat device, b))
     (sx_bind (read_block (nat device, b)) (\<lambda>x.
      sx_bind (add_created device bs) (\<lambda>ds.
      sx_ret (\<lparr>dp_ptr = b_ptr x, dp_deleter = local_raw_delete, dp_device = device\<rparr> # ds))))"

definition native_setCheckpointPoolState :: "'d penv \<Rightarrow> int \<Rightarrow> PrivatePoolState option \<Rightarrow> ('d, CheckpointDelta) nx" where
  "native_setCheckpointPoolState P device as = (case as of
     None \<Rightarrow> sx_throw (TorchCheck ''Expected PrivatePoolState'')
   | Some pps \<Rightarrow>
       sx_bind (on_dev device (setCheckpointPoolState (Env P) pps)) (\<lambda>rr.
       sx_seq (sx_for (allocations_freed rr) (\<lambda>ptr. sx_bind (get_allocated_block ptr True) (\<lambda>_. sx_ret ())))
       (sx_bind (add_created device (allocations_created rr)) (\<lambda>ds.
        sx_ret \<lparr>ptrs_freed = allocations_freed rr, dataptrs_allocd = ds\<rparr>))))"

definition one_exa_bytes :: nat where
  "one_exa_bytes = 1152921504606846976"

definition native_allocate :: "'d penv \<Rightarrow> nat \<Rightarrow> ('d, DataPtr) nx" where
  "native_allocate P sz =
     sx_seq (sx_check (sz < one_exa_bytes) OutOfMemoryError)
     (sx_bind (get_thread_device P) (\<lambda>device.
      sx_bind (on_str (getCurrentSUPAStream (Drv (Env P)) (Rt P) device)) (\<lambda>stream.
      if force_uncached P then
        sx_bind (on_pw (supa_check_out (supaMalloc (Drv (Env P)) sz))) (\<lambda>devPtr.
        sx_ret \<lparr>dp_ptr = devPtr, dp_deleter = uncached_delete_fn, dp_device = device\<rparr>)
      else
        sx_bind (if sz \<noteq> 0 then sx_bind (on_str (stream_of stream)) (native_malloc P device sz) else sx_ret 0) (\<lambda>devPtr.
        sx_ret \<lparr>dp_ptr = devPtr, dp_deleter = local_raw_delete, dp_device = device\<rparr>))))"

definition uncached_delete :: "'d penv \<Rightarrow> nat \<Rightarrow> ('d, unit) nx" where
  "uncached_delete P ptr = on_pw (supa_check (supaFree (Drv (Env P)) ptr))"

definition raw_deleter :: "'d penv \<Rightarrow> deleter" where
  "raw_deleter P = (if force_uncached P then uncached_delete_fn else local_raw_delete)"

section \<open>Operations that pass the call on\<close>

definition native_cacheInfo :: "'d penv \<Rightarrow> int \<Rightarrow> nat \<Rightarrow> ('d, nat) nx" where
  "native_cacheInfo P device largest = on_dev device (cacheInfo (Env P) largest)"

definition on_valid :: "int \<Rightarrow> ('d, 'a) dx \<Rightarrow> ('d, 'a) nx" where
  "on_valid device m = sx_seq (assertValidDevice device) (on_dev device m)"

definition native_getDeviceStats :: "int \<Rightarrow> ('d, DeviceStats) nx" where
  "native_getDeviceStats device = on_valid device getStats"

definition native_resetAccumulatedStats :: "int \<Rightarrow> ('d, unit) nx" where
  "native_resetAccumulatedStats device = on_valid device (on_stats (sx_mod resetAccumulatedStats))"

definition native_resetPeakStats :: "int \<Rightarrow> ('d, unit) nx" where
  "native_resetPeakStats device = on_valid device (on_stats (sx_mod resetPeakStats))"

definition native_createOrIncrefPool :: "int \<Rightarrow> mempool_id \<Rightarrow> nat option \<Rightarrow> ('d, unit) nx" where
  "native_createOrIncrefPool device i a = on_valid device (createOrIncrefPool i a)"

definition native_setUseOnOOM :: "int \<Rightarrow> mempool_id \<Rightarrow> ('d, unit) nx" where
  "native_setUseOnOOM device i = on_valid device (setUseOnOOM i)"

definition native_setNoSplit :: "int \<Rightarrow> mempool_id \<Rightarrow> ('d, unit) nx" where
  "native_setNoSplit device i = on_valid device (setNoSplit i)"

definition native_recordHistory :: "bool \<Rightarrow> nat option \<Rightarrow> nat \<Rightarrow> RecordContext \<Rightarrow> ('d, unit) nx" where
  "native_recordHistory enabled recorder max_entries when_level =
     for_all_devices (\<lambda>_. recordHistory enabled recorder max_entries when_level)"

definition native_ensureExistsAndIncrefPool :: "int \<Rightarrow> mempool_id \<Rightarrow> ('d, unit) nx" where
  "native_ensureExistsAndIncrefPool device i = on_valid device (ensureExistsAndIncrefPool i)"

definition native_beginAllocateToPool :: "int \<Rightarrow> mempool_id \<Rightarrow> (nat \<Rightarrow> bool) \<Rightarrow> ('d, unit) nx" where
  "native_beginAllocateToPool device i flt = on_valid device (beginAllocateToPool i flt)"

definition native_endAllocateToPool :: "int \<Rightarrow> mempool_id \<Rightarrow> ('d, unit) nx" where
  "native_endAllocateToPool device i = on_valid device (endAllocateToPool i)"

definition native_releasePool :: "int \<Rightarrow> mempool_id \<Rightarrow> ('d, unit) nx" where
  "native_releasePool device i = on_valid device (releasePool i)"

definition native_getPoolUseCount :: "int \<Rightarrow> mempool_id \<Rightarrow> ('d, int) nx" where
  "native_getPoolUseCount device i = on_valid device (getPoolUseCount i)"

definition raw_alloc :: "'d penv \<Rightarrow> nat \<Rightarrow> ('d, nat) nx" where
  "raw_alloc P nbytes =
     (if nbytes = 0 then sx_ret 0
      else sx_bind (get_thread_device P) (\<lambda>device.
        sx_bind (on_str (getCurrentSUPAStream (Drv (Env P)) (Rt P) device)) (\<lambda>stream.
        sx_bind (on_str (stream_of stream)) (native_malloc P device nbytes))))"

definition raw_alloc_with_stream :: "'d penv \<Rightarrow> nat \<Rightarrow> nat \<Rightarrow> ('d, nat) nx" where
  "raw_alloc_with_stream P nbytes stream =
     (if nbytes = 0 then sx_ret 0
      else sx_bind (get_thread_device P) (\<lambda>device. native_malloc P device nbytes stream))"

definition raw_delete :: "'d penv \<Rightarrow> nat \<Rightarrow> ('d, unit) nx" where
  "raw_delete P ptr = native_free P ptr"

definition native_enablePeerAccess :: "'d penv \<Rightarrow> int \<Rightarrow> int \<Rightarrow> ('d, unit) nx" where
  "native_enablePeerAccess P dev dev_to_access =
     n_guard (Drv (Env P)) dev
       (sx_bind (on_pw (drv_call (supaDeviceEnablePeerAccess (Rt P) dev_to_access))) (\<lambda>err.
        sx_seq (if err = supaErrorPeerAccessAlreadyEnabled
          then sx_bind (on_pw (drv_call (supaGetLastError (Drv (Env P))))) (\<lambda>_. sx_ret ()) else check_err err)
        (on_dev dev_to_access (addPeerAccess (Env P) dev))))"

definition memcpyAsync :: "'d penv \<Rightarrow> nat \<Rightarrow> int \<Rightarrow> nat \<Rightarrow> int \<Rightarrow> nat \<Rightarrow> nat \<Rightarrow> bool \<Rightarrow> ('d, supaError) nx" where
  "memcpyAsync P dst dstDevice src srcDevice count stream p2p_enabled =
     sx_bind (if p2p_enabled \<or> srcDevice = dstDevice then sx_ret True
       else sx_bind (on_dev dstDevice hasAllocatedExpandableSegments) (\<lambda>d.
         if d then sx_ret False else sx_bind (on_dev srcDevice hasAllocatedExpandableSegments) (\<lambda>e. sx_ret (\<not> e)))) (\<lambda>direct.
     if direct then on_pw (drv_call (supaMemcpyAsync (Rt P) dst src count stream))
     else on_pw (drv_call (supaMemcpyPeerAsync (Rt P) dst dstDevice src srcDevice count stream)))"

definition copy_data :: "'d penv \<Rightarrow> nat \<Rightarrow> nat \<Rightarrow> nat \<Rightarrow> ('d, unit) nx" where
  "copy_data P dest src count = on_pw (supa_check (supaMemcpy (Rt P) dest src count))"

section \<open>Memory shared by other processes\<close>

definition SHAREABLE_HANDLE_VERSION :: int where
  "SHAREABLE_HANDLE_VERSION = 1"

definition open_body :: "'d penv \<Rightarrow> int \<Rightarrow> int list \<Rightarrow> ipc_body \<Rightarrow> ('d, MemHandleCacheEntry) nx" where
  "open_body P device peers body = (case body of
     MallocBody h \<Rightarrow> sx_bind (on_pw (supa_check_out (supaIpcOpenMemHandle (Rt P) h))) (\<lambda>p.
       sx_ret \<lparr>ce_device = device, ce_segment = None, ce_ptr = p, ce_uses = 0\<rparr>)
   | SegmentBody buf \<Rightarrow> sx_bind (on_str (getCurrentSUPAStream (Drv (Env P)) (Rt P) (-1))) (\<lambda>stream.
       sx_bind (on_str (stream_of stream)) (\<lambda>h.
       sx_bind (on_pw (fromShared (Drv (Env P)) device h peers buf)) (\<lambda>es.
       sx_ret \<lparr>ce_device = device, ce_segment = Some es, ce_ptr = 0, ce_uses = 0\<rparr>)))
   | OtherBody \<Rightarrow> sx_throw (InternalAssert ''unexpected or illformed shareable hdl type''))"

definition MemHandleCacheEntry_ctor :: "'d penv \<Rightarrow> int \<Rightarrow> int list \<Rightarrow> ipc_string \<Rightarrow> ('d, MemHandleCacheEntry) nx" where
  "MemHandleCacheEntry_ctor P device peers hdl = (case hdl of
     BareHandle h \<Rightarrow> open_body P device peers (MallocBody h)
   | FramedHandle version body \<Rightarrow>
       sx_seq (sx_check (version \<le> SHAREABLE_HANDLE_VERSION) (TorchCheck ''received sharable handle from a future version of torch''))
       (open_body P device peers body))"

definition cache_entry_ptr :: "MemHandleCacheEntry \<Rightarrow> nat" where
  "cache_entry_ptr e = (if ce_ptr e \<noteq> 0 then ce_ptr e else case ce_segment e of Some es \<Rightarrow> es_ptr es | None \<Rightarrow> 0)"

definition cache_entry_clear :: "'d penv \<Rightarrow> MemHandleCacheEntry \<Rightarrow> ('d, unit) nx" where
  "cache_entry_clear P e =
     sx_seq (sx_when (ce_ptr e \<noteq> 0)
        (n_guard (Drv (Env P)) (ce_device e) (on_pw (supa_check (supaIpcCloseMemHandle (Rt P) (ce_ptr e))))))
     (case ce_segment e of None \<Rightarrow> sx_ret ()
      | Some es \<Rightarrow> on_pw (\<lambda>w. case ExpandableSegment_dtor (Drv (Env P)) (es, w) of (r, _, w') \<Rightarrow> (r, w')))"

definition set_entry :: "ipc_string \<Rightarrow> MemHandleCacheEntry option \<Rightarrow> ('d, unit) nx" where
  "set_entry hdl e = sx_mod (\<lambda>s. s\<lparr>ipcMemHandle_to_devptr := (ipcMemHandle_to_devptr s)(hdl := e)\<rparr>)"

text \<open>
  \<^verbatim>\<open>getIpcDevPtr\<close> hands out one more owner of the shared pointer. An owner that goes away only counts
  down; the deleter of the last one is a step of its own, since it first has to get the lock.
\<close>

definition getIpcDevPtr :: "'d penv \<Rightarrow> ipc_string \<Rightarrow> ('d, nat) nx" where
  "getIpcDevPtr P hdl =
     sx_bind (sx_get (\<lambda>s. ipcMemHandle_to_devptr s hdl)) (\<lambda>it. case it of
       Some e \<Rightarrow>
         sx_seq (sx_check (0 < ce_uses e) (InternalAssert ''entry in cache has missing shared_ptr''))
         (sx_seq (set_entry hdl (Some (e\<lparr>ce_uses := ce_uses e + 1\<rparr>))) (sx_ret (cache_entry_ptr e)))
     | None \<Rightarrow>
         sx_bind (get_thread_device P) (\<lambda>curr_device.
         sx_bind (on_dev curr_device (sx_get devices_with_peer_access)) (\<lambda>peers.
         sx_bind (MemHandleCacheEntry_ctor P curr_device peers hdl) (\<lambda>e.
         sx_seq (set_entry hdl (Some (e\<lparr>ce_uses := 1\<rparr>))) (sx_ret (cache_entry_ptr e))))))"

definition drop_owner :: "ipc_string \<Rightarrow> ('d, unit) nx" where
  "drop_owner hdl = sx_bind (sx_get (\<lambda>s. ipcMemHandle_to_devptr s hdl)) (\<lambda>it. case it of
     None \<Rightarrow> sx_ret () | Some e \<Rightarrow> set_entry hdl (Some (e\<lparr>ce_uses := ce_uses e - 1\<rparr>)))"

definition ipc_deleter :: "'d penv \<Rightarrow> ipc_string \<Rightarrow> ('d, unit) nx" where
  "ipc_deleter P hdl = sx_bind (sx_get (\<lambda>s. ipcMemHandle_to_devptr s hdl)) (\<lambda>it. case it of
     None \<Rightarrow> sx_throw (InternalAssert ''it != ipcMemHandle_to_devptr.end()'')
   | Some e \<Rightarrow> sx_seq (cache_entry_clear P e) (set_entry hdl None))"

end
