(* ===== verification/Device_Tags.thy ===== *)
theory Device_Tags
  imports Device_Api
begin

text \<open>
  The blocks of a device allocator belong to its device: an operation that is called for the device of
  the allocator leaves only blocks of this device in the store, however it ends. The process-wide
  allocator relies on it when it looks up \<^verbatim>\<open>device_allocator[block->device]\<close>.
\<close>

section \<open>Computations that keep an invariant\<close>

definition upholds :: "('s \<Rightarrow> bool) \<Rightarrow> ('a \<Rightarrow> bool) \<Rightarrow> ('s, 'e, 'a) sx \<Rightarrow> bool" where
  "upholds I R m \<longleftrightarrow> (\<forall>s. I s \<longrightarrow> wp m (\<lambda>r t. I t \<and> R r) (\<lambda>_ t. I t) s)"

abbreviation yes :: "'a \<Rightarrow> bool" where
  "yes x \<equiv> True"

lemma upholds_result:
  assumes "upholds I R m" and "I s"
  shows "m s = (Inr r, t) \<Longrightarrow> I t \<and> R r" and "m s = (Inl e, t) \<Longrightarrow> I t"
  using assms by (auto simp: upholds_def wp_def)

lemma upholds_bind:
  assumes "upholds I R m" and "\<And>x. R x \<Longrightarrow> upholds I S (f x)"
  shows "upholds I S (sx_bind m f)"
  unfolding upholds_def wp_bind
proof (intro allI impI)
  fix s assume "I s"
  then have "wp m (\<lambda>r t. I t \<and> R r) (\<lambda>_. I) s" using assms(1) by (simp add: upholds_def)
  then show "wp m (\<lambda>x. wp (f x) (\<lambda>r t. I t \<and> S r) (\<lambda>_. I)) (\<lambda>_. I) s"
    by (rule wp_conseq) (use assms(2) in \<open>auto simp: upholds_def\<close>)
qed

lemma upholds_then: "upholds I yes m \<Longrightarrow> (\<And>x. upholds I S (f x)) \<Longrightarrow> upholds I S (sx_bind m f)"
  by (rule upholds_bind)

lemma upholds_seq: "upholds I yes m \<Longrightarrow> upholds I S k \<Longrightarrow> upholds I S (sx_seq m k)"
  unfolding sx_seq_def by (rule upholds_bind)

lemma upholds_basic:
  shows "R x \<Longrightarrow> upholds I R (sx_ret x)" and "upholds I R (sx_throw e)" and "upholds I yes (sx_get f)"
    and "upholds I yes (sx_check b e)" and "(\<And>s. I s \<Longrightarrow> I (g s)) \<Longrightarrow> upholds I yes (sx_mod g)"
    and "upholds I yes k \<Longrightarrow> upholds I yes (sx_when b k)"
    and "upholds I S m \<Longrightarrow> upholds I S n \<Longrightarrow> upholds I S (if b then m else n)"
  by (auto simp: upholds_def)

lemma upholds_case:
  shows "upholds I R m \<Longrightarrow> (\<And>x. upholds I R (f x)) \<Longrightarrow> upholds I R (case v of None \<Rightarrow> m | Some x \<Rightarrow> f x)"
    and "upholds I R m \<Longrightarrow> (\<And>x xs. upholds I R (g x xs)) \<Longrightarrow> upholds I R (case l of [] \<Rightarrow> m | x # xs \<Rightarrow> g x xs)"
    and "(\<And>x y. q = (x, y) \<Longrightarrow> upholds I R (h x y)) \<Longrightarrow> upholds I R (case q of (x, y) \<Rightarrow> h x y)"
    and "upholds I R m \<Longrightarrow> (\<And>k. upholds I R (j k)) \<Longrightarrow> upholds I R (case n of 0 \<Rightarrow> m | Suc k \<Rightarrow> j k)"
  by (simp_all split: option.splits list.splits prod.splits nat.splits)

lemma upholds_for: "(\<And>x. upholds I yes (f x)) \<Longrightarrow> upholds I yes (sx_for xs f)"
  by (induction xs) (simp_all add: upholds_basic upholds_seq)

lemma upholds_mono: "upholds I R m \<Longrightarrow> (\<And>x. R x \<Longrightarrow> S x) \<Longrightarrow> upholds I S m"
  by (auto simp: upholds_def elim!: wp_conseq)

lemma upholds_let: "(\<And>x. x = v \<Longrightarrow> upholds I R (f x)) \<Longrightarrow> upholds I R (let x = v in f x)"
  by simp

section \<open>The primitive operations\<close>

definition of_device :: "int \<Rightarrow> 'd dca \<Rightarrow> bool" where
  "of_device dev s \<longleftrightarrow> (\<forall>b x. heap s b = Some x \<longrightarrow> b_device x = dev)"

lemma of_device_heap: "heap t = heap s \<Longrightarrow> of_device dev s \<Longrightarrow> of_device dev t"
  by (simp add: of_device_def)

lemma tag_mod: "(\<And>s. heap (g s) = heap s) \<Longrightarrow> upholds (of_device dev) yes (sx_mod g)"
  by (intro upholds_basic) (rule of_device_heap)

lemma tag_deref:
  assumes "\<And>x. b_device x = dev \<Longrightarrow> upholds (of_device dev) S (f x)"
  shows "upholds (of_device dev) S (sx_bind (deref b) f)"
proof (rule upholds_bind)
  show "upholds (of_device dev) (\<lambda>x. b_device x = dev) (deref b)"
    by (auto simp: upholds_def of_device_def deref_def wp_def split: option.splits)
qed (rule assms)

lemma tag_setb: "(\<And>x. b_device (f x) = b_device x) \<Longrightarrow> upholds (of_device dev) yes (setb b f)"
  by (auto simp: upholds_def of_device_def setb_def wp_def split: option.splits)

lemma tag_new_block: "b_device x = dev \<Longrightarrow> upholds (of_device dev) yes (new_block x)"
  by (auto simp: upholds_def of_device_def new_block_def wp_def)

lemma tag_delete_block: "upholds (of_device dev) yes (delete_block b)"
  by (auto simp: upholds_def of_device_def delete_block_def wp_def split: option.splits)

lemma tag_get_BlockPool: "upholds (of_device dev) yes (get_BlockPool p)"
  by (auto simp: upholds_def get_BlockPool_def wp_def split: option.splits)

lemma tag_upd_BlockPool: "upholds (of_device dev) yes (upd_BlockPool p f)"
  by (auto simp: upholds_def of_device_def upd_BlockPool_def wp_def)

lemma tag_field:
  "(\<And>f s. heap (upd f s) = heap s) \<Longrightarrow> upholds (of_device dev) yes (sx_field sel upd m)"
  by (auto simp: upholds_def of_device_def wp_def sx_field_def split: prod.splits sum.splits)

lemma tag_on_segment: "upholds (of_device dev) yes (on_segment sg m)"
  by (auto simp: upholds_def of_device_def wp_def on_segment_def split: option.splits prod.splits sum.splits)

lemma Block_ctor_device [simp]: "b_device (Block_ctor dev st sz p ptr) = dev"
  by (simp add: Block_ctor_def)

lemma tag_ret: "upholds I yes (sx_ret x)"
  by (simp add: upholds_basic)

lemmas tag_base = tag_mod tag_deref tag_setb tag_new_block tag_delete_block tag_get_BlockPool tag_upd_BlockPool tag_field
  tag_on_segment upholds_then upholds_seq tag_ret upholds_basic(1-4,6,7) upholds_case upholds_for upholds_let

lemma tag_insert_into_blocks: "upholds (of_device dev) yes (insert_into_blocks p b)"
  unfolding insert_into_blocks_def by (intro tag_base) simp_all

lemma tag_erase_from_blocks: "upholds (of_device dev) yes (erase_from_blocks p b)"
  unfolding erase_from_blocks_def by (intro tag_base)

lemma tag_insert_into_unmapped: "upholds (of_device dev) yes (insert_into_unmapped p b)"
  unfolding insert_into_unmapped_def by (intro tag_base)

lemma tag_erase_from_unmapped: "upholds (of_device dev) yes (erase_from_unmapped p b)"
  unfolding erase_from_unmapped_def by (intro tag_base)

lemma tag_splice: "upholds (of_device dev) yes (splice this before after)"
  unfolding splice_def by (intro tag_base) simp_all

lemma tag_private_pools:
  shows "upholds (of_device dev) yes (get_private_pool i)" and "upholds (of_device dev) yes (upd_private_pool i f)"
    and "upholds (of_device dev) yes (deref_private_pool i)" and "upholds (of_device dev) yes (create_or_incref_pool i a)"
    and "upholds (of_device dev) yes (upd_owner p f)" and "upholds (of_device dev) yes (decrement_owner p)"
    and "upholds (of_device dev) yes (check_active_pool V p)"
proof -
  show g: "upholds (of_device dev) yes (get_private_pool i)" for i
    unfolding get_private_pool_def by (intro tag_base)
  show u: "upholds (of_device dev) yes (upd_private_pool i f)" for i f
    unfolding upd_private_pool_def by (intro tag_base) simp_all
  show d: "upholds (of_device dev) yes (deref_private_pool i)" for i
    unfolding deref_private_pool_def by (intro tag_base)
  show "upholds (of_device dev) yes (create_or_incref_pool i a)"
    unfolding create_or_incref_pool_def by (intro tag_base u) simp_all
  show "upholds (of_device dev) yes (upd_owner p f)" unfolding upd_owner_def by (intro tag_base u)
  show "upholds (of_device dev) yes (decrement_owner p)" unfolding decrement_owner_def by (intro tag_base u d)
  show "upholds (of_device dev) yes (check_active_pool V p)" unfolding check_active_pool_def by (intro tag_base g)
qed

lemma tag_record_trace: "upholds (of_device dev) yes (record_trace a p n st d i ctx)"
  unfolding record_trace_def by (intro tag_base) simp_all

lemma tag_maybeGatherContext: "upholds (of_device dev) yes (maybeGatherContext level)"
  unfolding maybeGatherContext_def by (intro tag_base)

lemmas tag_store = tag_base tag_insert_into_blocks tag_erase_from_blocks tag_insert_into_unmapped tag_erase_from_unmapped
  tag_splice tag_private_pools tag_record_trace tag_maybeGatherContext

section \<open>Blocks that are freed and merged\<close>

lemma tag_try_merge_blocks: "upholds (of_device dev) yes (try_merge_blocks dst src pool)"
  unfolding try_merge_blocks_def by (intro tag_store) simp_all

lemma tag_free_block: "upholds (of_device dev) yes (free_block b ctx)"
  unfolding free_block_def free_block_stats_def by (intro tag_store tag_try_merge_blocks) simp_all

section \<open>Expandable segments\<close>

lemma tag_map_block: "upholds (of_device dev) yes (map_block V b sz ctx)"
  unfolding map_block_def map_block_stats_def by (intro tag_store tag_try_merge_blocks) simp_all

lemma tag_address_space_loop: "upholds (of_device dev) yes (address_space_loop fuel sz b bytes)"
proof (induction fuel arbitrary: b bytes)
  case 0
  show ?case unfolding address_space_loop.simps [of 0] nat.case by (intro tag_store)
next
  case (Suc fuel)
  show ?case unfolding address_space_loop.simps [of "Suc fuel"] nat.case by (intro tag_store Suc)
qed

lemma tag_find_unmapped: "upholds (of_device dev) yes (find_unmapped st sz cs)"
proof (induction cs)
  case (Cons c cs)
  show ?case
    unfolding find_unmapped.simps has_available_address_space_def by (intro tag_store tag_address_space_loop Cons)
qed (simp add: tag_ret)

lemma tag_find_expandable_block: "upholds (of_device dev) yes (find_expandable_block V dev st pool sz)"
  unfolding find_expandable_block_def by (intro tag_store tag_find_unmapped) simp_all

lemma tag_grow_candidate: "upholds (of_device dev) yes (grow_candidate V fuel sz ctx c)"
proof (induction fuel arbitrary: c)
  case 0
  show ?case unfolding grow_candidate.simps [of _ 0] nat.case by (intro tag_store tag_map_block)
next
  case (Suc fuel)
  show ?case unfolding grow_candidate.simps [of _ "Suc fuel"] nat.case by (intro tag_store tag_map_block Suc)
qed

lemma tag_try_allocate_expandable_block:
  "upholds (of_device dev) yes (try_allocate_expandable_block V dev st pool sz ctx)"
  unfolding try_allocate_expandable_block_def
  by (intro tag_store tag_find_expandable_block tag_map_block tag_grow_candidate)

lemma tag_unmap_block: "upholds (of_device dev) yes (unmap_block V b ctx)"
  unfolding unmap_block_def unmap_block_stats_def by (intro tag_store tag_try_merge_blocks) simp_all

lemma tag_release_expandable_segment: "upholds (of_device dev) yes (release_expandable_segment V b)"
  unfolding release_expandable_segment_def by (intro tag_store) simp_all

section \<open>Searching and allocating\<close>

lemma tag_iterators:
  shows "upholds (of_device dev) yes (best_expandable st it)" and "upholds (of_device dev) yes (skip_expandable st it)"
proof -
  have z: "upholds (of_device dev) yes (expandable_size b)" for b
    unfolding expandable_size_def by (intro tag_store)
  show "upholds (of_device dev) yes (best_expandable st it)"
  proof (induction it)
    case IH: (Cons b it)
    show ?case
    proof (cases it)
      case (Cons n rest)
      show ?thesis unfolding Cons best_expandable.simps by (intro tag_store z IH.IH [unfolded Cons])
    qed (simp add: tag_ret)
  qed (simp add: tag_ret)
  show "upholds (of_device dev) yes (skip_expandable st it)"
  proof (induction it)
    case IH: (Cons b it)
    show ?case
    proof (cases it)
      case (Cons n rest)
      show ?thesis unfolding Cons skip_expandable.simps by (intro tag_store IH.IH [unfolded Cons])
    qed (simp add: tag_ret)
  qed (simp add: tag_ret)
qed

abbreviation for_device :: "int \<Rightarrow> bool \<times> AllocParams \<Rightarrow> bool" where
  "for_device dev r \<equiv> p_device (snd r) = dev"

lemma tag_get_free_block:
  assumes "p_device p = dev"
  shows "upholds (of_device dev) (for_device dev) (get_free_block V p)"
proof -
  have t: "upholds (of_device dev) (for_device dev) (take_free_block V p it)" for it
    unfolding take_free_block_def by (intro tag_store) (simp_all add: assms)
  show ?thesis unfolding get_free_block_def by (intro tag_store t tag_iterators) (simp_all add: assms)
qed

lemma tag_driver_allocation:
  shows "upholds (of_device dev) yes (supaMallocMaybeCapturing V sz p)"
    and "upholds (of_device dev) yes (trigger_free_memory_callbacks V)"
proof -
  have "upholds (of_device dev) yes (allocPrimitive V sz p)"
    unfolding allocPrimitive_def by (intro tag_store) simp_all
  then show "upholds (of_device dev) yes (supaMallocMaybeCapturing V sz p)"
    unfolding supaMallocMaybeCapturing_def by (intro tag_store) simp_all
  show "upholds (of_device dev) yes (trigger_free_memory_callbacks V)"
    unfolding trigger_free_memory_callbacks_def by (intro tag_store) simp
qed

lemma tag_alloc_block:
  assumes "p_device p = dev"
  shows "upholds (of_device dev) (for_device dev) (alloc_block V p isRetry ctx)"
proof -
  have e: "upholds (of_device dev) yes (try_allocate_expandable_block V (p_device p) st pool sz ctx)" for st pool sz
    unfolding assms by (rule tag_try_allocate_expandable_block)
  show ?thesis
    unfolding alloc_block_def alloc_block_stats_def
    by (intro tag_store tag_driver_allocation e) (simp_all add: assms)
qed

section \<open>Releasing\<close>

lemma tag_release_block: "upholds (of_device dev) yes (release_block V b ctx)"
  unfolding release_block_def release_memory_def release_block_stats_def by (intro tag_store) simp_all

lemma tag_release_unsplit: "upholds (of_device dev) yes (release_unsplit V ctx bs)"
  by (induction bs) (auto intro!: tag_store tag_release_block)

lemma tag_release_blocks: "upholds (of_device dev) yes (release_blocks V pool ctx)"
  unfolding release_blocks_def
  by (intro tag_store tag_release_unsplit tag_unmap_block tag_release_expandable_segment)

lemma tag_garbage_collect: "upholds (of_device dev) yes (garbage_collect_cached_blocks V ctx)"
proof -
  have a: "upholds (of_device dev) yes (age_of_blocks bs age n)" for bs age n
    by (induction bs arbitrary: age n) (auto intro!: tag_store)
  have p: "upholds (of_device dev) yes (gc_pass V ctx t bs g)" for t bs g
    by (induction bs arbitrary: g) (auto intro!: tag_store tag_release_block)
  have l: "upholds (of_device dev) yes (gc_loop V fuel ctx target g)" for fuel target g
  proof (induction fuel arbitrary: g)
    case 0
    show ?case unfolding gc_loop.simps [of _ 0] nat.case by (intro tag_store)
  next
    case (Suc fuel)
    show ?case unfolding gc_loop.simps [of _ "Suc fuel"] nat.case by (intro tag_store p Suc)
  qed
  show ?thesis unfolding garbage_collect_cached_blocks_def by (intro tag_store a l)
qed

lemma tag_release_available: "upholds (of_device dev) yes (release_available_cached_blocks V p ctx)"
proof -
  have "upholds (of_device dev) yes (release_oversize V ctx st k n bs)" for st k n bs
    by (induction bs arbitrary: n) (auto intro!: tag_store tag_release_block)
  then show ?thesis unfolding release_available_cached_blocks_def by (intro tag_store tag_release_block)
qed

section \<open>Events\<close>

lemma tag_insert_events: "upholds (of_device dev) yes (insert_events V b)"
  unfolding insert_events_def check_err_def by (intro tag_store) simp_all

lemma tag_deferred: "upholds (of_device dev) yes (insert_events_deferred_until_no_capture V ctx)"
  unfolding insert_events_deferred_until_no_capture_def remove_supagraph_stream_uses_def
  by (intro tag_store tag_insert_events tag_free_block) simp_all

lemma tag_event_done: "upholds (of_device dev) yes (event_done b ctx)"
  unfolding event_done_def by (intro tag_store tag_free_block) simp_all

lemma tag_queues:
  shows "upholds (of_device dev) yes (process_queue V ctx st q)" and "upholds (of_device dev) yes (sync_queue V ctx pool st kept q)"
proof -
  have e: "upholds (of_device i) yes (erase_queue st)" "upholds (of_device i) yes (set_queue st r)" for i r
    unfolding erase_queue_def set_queue_def by (intro tag_store; simp)+
  show "upholds (of_device dev) yes (process_queue V ctx st q)"
    by (induction q) (auto simp: check_err_def intro!: tag_store e tag_event_done)
  show "upholds (of_device dev) yes (sync_queue V ctx pool st kept q)"
    by (induction q arbitrary: kept) (auto intro!: tag_store e tag_event_done)
qed

lemma tag_process_events: "upholds (of_device dev) yes (process_events V ctx)"
  unfolding process_events_def by (intro tag_store tag_deferred tag_queues)

lemma tag_synchronize: "upholds (of_device dev) yes (synchronize_and_free_events V ctx pool)"
  unfolding synchronize_and_free_events_def by (intro tag_store tag_deferred tag_queues) simp_all

lemma tag_release_cached: "upholds (of_device dev) yes (release_cached_blocks V ctx mempool)"
proof -
  have "upholds (of_device dev) yes (release_freeable V ctx j is)" for j "is"
  proof (induction "is")
    case (Cons i "is")
    show ?case
      unfolding release_freeable.simps by (intro tag_store tag_synchronize tag_release_blocks Cons) simp_all
  qed (simp add: tag_ret)
  then show ?thesis
    unfolding release_cached_blocks_def by (intro tag_store tag_synchronize tag_release_blocks)
qed

section \<open>The public operations\<close>

lemma tag_search:
  assumes "p_device p = dev"
  shows "upholds (of_device dev) (for_device dev) (search_cache V p)"
    and "upholds (of_device dev) (for_device dev) (obtain_block V p ctx)"
proof -
  show "upholds (of_device dev) (for_device dev) (search_cache V p)"
    unfolding search_cache_def
    by (intro upholds_bind [OF tag_get_free_block [OF assms]] tag_store tag_driver_allocation tag_get_free_block) simp_all
  have b: "upholds (of_device dev) (for_device dev) (alloc_block V q r ctx)" if "p_device q = dev" for q r
    by (rule tag_alloc_block [OF that])
  show "upholds (of_device dev) (for_device dev) (obtain_block V p ctx)"
    unfolding obtain_block_def
    by (intro upholds_bind [OF b [OF assms]] upholds_bind [where R = "for_device dev" and m = "if _ then _ else _"]
        tag_store tag_release_available tag_release_cached b) simp_all
qed

lemma tag_split_block: "p_device p = dev \<Longrightarrow> upholds (of_device dev) yes (split_block p r)"
  unfolding split_block_def by (intro tag_store) simp_all

lemma tag_alloc_found_block:
  assumes "p_device p = dev"
  shows "upholds (of_device dev) yes (alloc_found_block V p n ctx split)"
  unfolding alloc_found_block_def split_stats_def unsplit_stats_def alloc_stats_def
  by (intro tag_store tag_split_block [OF assms]) simp_all

lemma tag_device_malloc: "upholds (of_device dev) yes (device_malloc V dev n st)"
proof -
  have g: "upholds (of_device dev) yes (get_pool sz st)" for sz
    unfolding get_pool_def by (intro tag_store)
  have l: "upholds (of_device dev) yes (sx_lift r)" for r :: "exn + nat"
    by (cases r) (simp_all add: sx_lift_def tag_ret upholds_basic)
  have o: "upholds (of_device dev) yes (out_of_memory V p ctx)" for p ctx
    unfolding out_of_memory_def by (intro tag_store) simp_all
  show ?thesis
    unfolding device_malloc_def
    by (intro upholds_bind [OF tag_search(1)] upholds_bind [where R = "for_device dev" and m = "if _ then _ else _"]
        tag_store tag_process_events l g tag_garbage_collect tag_search(2) o tag_alloc_found_block)
      (simp_all add: AllocParams_ctor_def)
qed

lemma tag_device_free: "upholds (of_device dev) yes (device_free V b)"
  unfolding device_free_def free_stats_def by (intro tag_store tag_insert_events tag_free_block) simp_all

lemma tag_recordStream: "upholds (of_device dev) yes (recordStream b st)"
  unfolding recordStream_def by (intro tag_store) simp_all

lemma tag_other_operations:
  shows "upholds (of_device dev) yes (emptyCache V i)" and "upholds (of_device dev) yes (setMemoryFraction V r)"
    and "upholds (of_device dev) yes (createOrIncrefPool i a)" and "upholds (of_device dev) yes (beginAllocateToPool i flt)"
    and "upholds (of_device dev) yes (endAllocateToPool i)" and "upholds (of_device dev) yes (releasePool i)"
proof -
  show "upholds (of_device dev) yes (emptyCache V i)"
    unfolding emptyCache_def by (intro tag_store tag_release_cached)
  show "upholds (of_device dev) yes (setMemoryFraction V r)"
    unfolding setMemoryFraction_def by (intro tag_store) simp_all
  show "upholds (of_device dev) yes (createOrIncrefPool i a)"
    unfolding createOrIncrefPool_def by (intro tag_store)
  show "upholds (of_device dev) yes (beginAllocateToPool i flt)"
    unfolding beginAllocateToPool_def by (intro tag_store) simp_all
  show "upholds (of_device dev) yes (endAllocateToPool i)"
    unfolding endAllocateToPool_def by (intro tag_store) simp_all
  show "upholds (of_device dev) yes (releasePool i)"
    unfolding releasePool_def by (intro tag_store) simp_all
qed

end
