(* ===== verification/Native_Safety.thy ===== *)
theory Native_Safety
  imports Native_Allocator Device_Safety Device_Tags
begin

text \<open>
  The device allocators of a process share one driver. Each of them owns a part of the address ranges
  the driver has handed out; seen from one allocator, the ranges of the others are memory that never
  changes, so the theorems about a single device allocator apply to every one of them, whatever calls
  on the others come in between. The table of allocated blocks then lists exactly the blocks that are
  in use on some device.
\<close>

section \<open>The driver without a part of its memory\<close>

definition split_off :: "(nat \<times> nat) set \<Rightarrow> (nat \<times> nat) set \<Rightarrow> bool" where
  "split_off R L \<longleftrightarrow> R \<subseteq> L \<and> ranges_ok R \<and> (\<forall>p n q m. (p, n) \<in> R \<longrightarrow> (q, m) \<in> L - R \<longrightarrow> span p n \<inter> span q m = {})"

text \<open>Where the part is not a part at all, the value is a set of ranges that no law speaks about.\<close>

definition without :: "(nat \<times> nat) set \<Rightarrow> ('d \<Rightarrow> (nat \<times> nat) set) \<Rightarrow> 'd \<Rightarrow> (nat \<times> nat) set" where
  "without R live d = (if split_off R (live d) then live d - R else {(0, 0)})"

lemma bad_ranges: "\<not> ranges_ok {(0, 0)}"
  by (simp add: ranges_ok_def)

lemma without_ok:
  assumes "ranges_ok (without R live d)"
  shows "split_off R (live d)" and "without R live d = live d - R" and "ranges_ok (live d)"
proof -
  show S: "split_off R (live d)" using assms bad_ranges by (auto simp: without_def split: if_splits)
  then show E: "without R live d = live d - R" by (simp add: without_def)
  have A: "ranges_ok (live d - R)" using assms E by simp
  show "ranges_ok (live d)"
    unfolding ranges_ok_def
  proof (intro conjI allI impI)
    show "0 < n" if "(p, n) \<in> live d" for p n
      using A S that by (cases "(p, n) \<in> R") (auto simp: ranges_ok_def split_off_def)
    show "span p n \<inter> span q m = {}" if "(p, n) \<in> live d" "(q, m) \<in> live d" "(p, n) \<noteq> (q, m)" for p n q m
      using A S that unfolding ranges_ok_def split_off_def by (metis DiffI inf_commute)
  qed
qed

lemma ranges_part: "ranges_ok L \<Longrightarrow> M \<subseteq> L \<Longrightarrow> ranges_ok M"
  unfolding ranges_ok_def by blast

lemma split_off_part:
  assumes "ranges_ok L" and "R \<subseteq> L"
  shows "split_off R L"
  unfolding split_off_def
proof (intro conjI allI impI)
  show "ranges_ok R" by (rule ranges_part [OF assms])
  show "span p n \<inter> span q m = {}" if "(p, n) \<in> R" "(q, m) \<in> L - R" for p n q m
    using assms that unfolding ranges_ok_def by (metis DiffE subsetD)
qed (rule assms)

lemma without_insert:
  assumes "split_off R (live d)" and "fresh_range (live d) p n" and "live d' = insert (p, n) (live d)"
  shows "without R live d' = insert (p, n) (live d - R)"
proof -
  have R: "\<And>q m. (q, m) \<in> R \<Longrightarrow> 0 < m \<and> (q, m) \<in> live d" using assms(1) by (auto simp: split_off_def ranges_ok_def)
  have F: "span p n \<inter> span q m = {}" if "(q, m) \<in> R" for q m using assms(2) R [OF that] by (auto simp: fresh_range_def)
  have "(p, n) \<notin> R" using F [of p n] R [of p n] span_nonempty [of n p] by blast
  moreover have "split_off R (live d')"
    unfolding split_off_def assms(3)
  proof (intro conjI allI impI)
    show "R \<subseteq> insert (p, n) (live d)" "ranges_ok R" using assms(1) by (auto simp: split_off_def)
    show "span q m \<inter> span q' m' = {}" if "(q, m) \<in> R" "(q', m') \<in> insert (p, n) (live d) - R" for q m q' m'
    proof (cases "(q', m') = (p, n)")
      case False
      then show ?thesis using that assms(1) unfolding split_off_def by blast
    qed (use F [OF that(1)] in \<open>simp add: Int_commute\<close>)
  qed
  ultimately show ?thesis by (auto simp: without_def assms(3))
qed

lemma without_acquires:
  assumes "acquires live n f"
  shows "acquires (without R live) n f"
  unfolding acquires_def
proof (intro allI impI)
  fix d e p d' assume r: "ranges_ok (without R live d)" and f: "f d = ((e, p), d')"
  note w = without_ok [OF r]
  have l: "if e = supaSuccess then fresh_range (live d) p n \<and> live d' = insert (p, n) (live d) else live d' = live d"
    using assms w(3) f unfolding acquires_def by blast
  show "if e = supaSuccess then fresh_range (without R live d) p n \<and> without R live d' = insert (p, n) (without R live d)
    else without R live d' = without R live d"
  proof (cases "e = supaSuccess")
    case True
    then have k: "fresh_range (live d) p n" "live d' = insert (p, n) (live d)" using l by auto
    have "fresh_range (live d - R) p n" using k(1) by (auto simp: fresh_range_def)
    then show ?thesis using True without_insert [where live = live, OF w(1) k] by (simp add: w(2))
  qed (use l in \<open>simp add: without_def\<close>)
qed

lemma acquires_ptr_iff:
  "acquires_ptr live n f \<longleftrightarrow> acquires live n (\<lambda>d. ((if fst (f d) \<noteq> 0 then supaSuccess else supaErrorMemoryAllocation, fst (f d)), snd (f d)))"
  by (auto simp: acquires_def acquires_ptr_def prod_eq_iff)

lemma without_acquires_ptr: "acquires_ptr live n f \<Longrightarrow> acquires_ptr (without R live) n f"
  unfolding acquires_ptr_iff by (rule without_acquires)

lemma without_gives_back:
  assumes "gives_back live p n f"
  shows "gives_back (without R live) p n f"
  unfolding gives_back_def
proof (intro allI impI)
  fix d d' assume r: "ranges_ok (without R live d)" and s: "sole_range (without R live d) p n" and f: "f d = (supaSuccess, d')"
  note w = without_ok [OF r]
  have pn: "(p, n) \<in> live d - R" using s by (simp add: w(2) sole_range_def)
  have "m = n" if "(p, m) \<in> live d" for m
    using w(3) that pn span_nonempty [of n p] span_nonempty [of m p] unfolding ranges_ok_def by (metis DiffD1 IntI Pair_inject empty_iff)
  then have "sole_range (live d) p n" using pn by (auto simp: sole_range_def)
  then have l: "live d' = live d - {(p, n)}" using assms w(3) f unfolding gives_back_def by blast
  have "split_off R (live d')" using w(1) pn by (auto simp: split_off_def l)
  then show "without R live d' = without R live d - {(p, n)}" by (auto simp: without_def w(1) l)
qed

lemma without_supported:
  assumes "supported V live"
  shows "supported V (without R live)"
proof -
  have k: "keeps_live (without R live) f" if "keeps_live live f" for f :: "'a \<Rightarrow> 'b \<times> 'a"
    using that by (auto simp: keeps_live_def without_def)
  have "memory_calls_ok (Drv V) (without R live)"
    using supportedD(1) [OF assms] by (simp add: memory_calls_ok_def without_acquires without_acquires_ptr without_gives_back)
  moreover have "other_calls_ok (Drv V) (without R live)"
    using supportedD(2) [OF assms] by (auto simp: other_calls_ok_def keeps_live_def without_def)
  ultimately show ?thesis using assms by (simp add: supported_def)
qed

section \<open>The invariant of the process\<close>

abbreviation p_live :: "('d \<Rightarrow> (nat \<times> nat) set) \<Rightarrow> 'd nca \<Rightarrow> (nat \<times> nat) set" where
  "p_live live s \<equiv> live (drv (st_world (p_streams s)))"

abbreviation p_dev :: "'d nca \<Rightarrow> nat \<Rightarrow> 'd dca" where
  "p_dev s i \<equiv> device_allocator s ! i"

abbreviation n_dev :: "'d nca \<Rightarrow> nat" where
  "n_dev s \<equiv> length (device_allocator s)"

text \<open>The device allocators own disjoint parts of the memory, and each is well-formed on its own part.\<close>

definition owned :: "('d \<Rightarrow> (nat \<times> nat) set) \<Rightarrow> (nat \<Rightarrow> (nat \<times> nat) set) \<Rightarrow> 'd nca \<Rightarrow> bool" where
  "owned live P s \<longleftrightarrow> ranges_ok (p_live live s)
     \<and> (\<forall>i < n_dev s. P i \<subseteq> p_live live s \<and> wf (\<lambda>_. P i) (p_dev s i) \<and> of_device (int i) (p_dev s i))
     \<and> (\<forall>i < n_dev s. \<forall>j < n_dev s. i \<noteq> j \<longrightarrow> P i \<inter> P j = {})"

text \<open>The table lists the blocks in use on some device under their addresses.\<close>

definition listed :: "'d nca \<Rightarrow> bool" where
  "listed s \<longleftrightarrow> (\<forall>p i b. allocated_blocks s p = Some (i, b) \<longleftrightarrow>
     i < n_dev s \<and> (\<exists>z k. holds (p_dev s i) b = Some (p, z, k)))"

lemma ownedD:
  assumes "owned live P s" and "i < n_dev s"
  shows "ranges_ok (p_live live s)" and "P i \<subseteq> p_live live s" and "wf (\<lambda>_. P i) (p_dev s i)"
    and "of_device (int i) (p_dev s i)" and "j < n_dev s \<Longrightarrow> i \<noteq> j \<Longrightarrow> P i \<inter> P j = {}"
  using assms by (auto simp: owned_def)

lemma wf_const: "wf (\<lambda>_. live (drv (world s))) s = wf live s"
  by (simp add: wf_def mid_def view_def)

lemma wf_world [simp]: "wf (\<lambda>_. L) (s\<lparr>world := w\<rparr>) = wf (\<lambda>_. L) s"
  by (simp add: wf_def mid_def view_def freeable_ok_def)

lemma holds_world [simp]: "holds (s\<lparr>world := w\<rparr>) = holds s"
  by (intro ext) (simp add: holds_def)

lemma of_device_world [simp]: "of_device i (s\<lparr>world := w\<rparr>) = of_device i s"
  by (simp add: of_device_def)

lemma wf_ranges: "wf live s \<Longrightarrow> ranges_ok (live (drv (world s)))"
  using invD(2) [OF wf_inv] by (simp add: view_def)

lemma wp_run_dev:
  "wp (run_dev i m) Q E s = (let put = (\<lambda>d. s\<lparr>device_allocator := (device_allocator s)[i := d], p_streams := (p_streams s)\<lparr>st_world := world d\<rparr>\<rparr>)
     in wp m (\<lambda>r d. Q r (put d)) (\<lambda>e d. E e (put d)) ((p_dev s i)\<lparr>world := st_world (p_streams s)\<rparr>))"
  by (simp add: wp_def run_dev_def Let_def split: prod.splits sum.splits)

definition moved :: "nat \<Rightarrow> 'd nca \<Rightarrow> 'd nca \<Rightarrow> bool" where
  "moved i s t \<longleftrightarrow> (\<exists>d st. t = s\<lparr>device_allocator := (device_allocator s)[i := d], p_streams := st\<rparr>)"

lemma movedD:
  assumes "moved i s t"
  shows "n_dev t = n_dev s" and "allocated_blocks t = allocated_blocks s" and "j \<noteq> i \<Longrightarrow> p_dev t j = p_dev s j"
  using assms by (auto simp: moved_def)

fun op_for :: "nat \<Rightarrow> op \<Rightarrow> bool" where
  "op_for i (Malloc dev n st) = (dev = int i)"
| "op_for i _ = True"

lemma op_ok_world [simp]: "op_ok q (s\<lparr>world := w\<rparr>) = op_ok q s"
  by (cases q) simp_all

lemma tag_run_op:
  assumes "op_for i q"
  shows "upholds (of_device (int i)) yes (run_op V q)"
  using assms
  by (cases q) (simp_all add: tag_device_malloc tag_device_free tag_recordStream tag_other_operations tag_ret upholds_seq)

text \<open>A call on one device allocator takes the process to a state of the same kind.\<close>

lemma owned_moved:
  assumes O: "owned live P s" and i: "i < n_dev s" and W: "wf (without (p_live live s - P i) live) t" and T: "of_device (int i) t"
  shows "\<exists>P'. owned live P' (s\<lparr>device_allocator := (device_allocator s)[i := t], p_streams := (p_streams s)\<lparr>st_world := world t\<rparr>\<rparr>)"
proof -
  define R where "R = p_live live s - P i"
  define L where "L = live (drv (world t))"
  note w = without_ok [OF wf_ranges [OF W], folded R_def]
  have RL: "R \<subseteq> L" using w(1) by (simp add: split_off_def L_def)
  have PR: "P j \<subseteq> R" if "j < n_dev s" "j \<noteq> i" for j
    using ownedD(2) [OF O that(1)] ownedD(5) [OF O i that(1)] that(2) by (auto simp: R_def)
  have wft: "wf (\<lambda>_. L - R) t" using W wf_const [of "without R live" t] w(2) by (simp add: R_def L_def)
  define Q where "Q = P(i := L - R)"
  have "owned live Q (s\<lparr>device_allocator := (device_allocator s)[i := t], p_streams := (p_streams s)\<lparr>st_world := world t\<rparr>\<rparr>)"
    unfolding owned_def
  proof (intro conjI allI impI, goal_cases)
    case 1
    show ?case using w(3) by simp
  next
    case (2 j)
    then show ?case using RL PR [of j] by (cases "j = i") (auto simp: Q_def L_def)
  next
    case (3 j)
    then show ?case using wft ownedD(3) [OF O, of j] by (cases "j = i") (auto simp: Q_def)
  next
    case (4 j)
    then show ?case using T ownedD(4) [OF O, of j] by (cases "j = i") auto
  next
    case (5 j k)
    then show ?case using PR [of j] PR [of k] ownedD(5) [OF O, of j k] by (cases "j = i"; cases "k = i") (auto simp: Q_def)
  qed
  then show ?thesis by blast
qed

definition ran :: "('d \<Rightarrow> (nat \<times> nat) set) \<Rightarrow> nat \<Rightarrow> 'd nca \<Rightarrow> 'd nca \<Rightarrow> bool" where
  "ran live i s t \<longleftrightarrow> (\<exists>P. owned live P t) \<and> moved i s t"

lemma wp_run_dev_op:
  assumes V: "supported V live" and O: "owned live P s" and i: "i < n_dev s" and q: "op_ok q (p_dev s i)" "op_for i q"
  shows "wp (run_dev i (run_op V q))
    (\<lambda>r t. ran live i s t \<and> spec q r (holds (p_dev s i)) (holds (p_dev t i)))
    (\<lambda>e t. \<not> fault e \<and> (e = OutOfMemoryError \<longrightarrow> (\<exists>dev n st. q = Malloc dev n st)
        \<and> ran live i s t \<and> holds (p_dev t i) = holds (p_dev s i))) s"
proof -
  define d where "d = (p_dev s i)\<lparr>world := st_world (p_streams s)\<rparr>"
  define R where "R = p_live live s - P i"
  have "split_off R (p_live live s)" using ownedD(1) [OF O i] by (rule split_off_part) (simp add: R_def)
  then have "without R live (drv (world d)) = P i" using ownedD(2) [OF O i] by (auto simp: without_def R_def d_def)
  then have "wf (without R live) d" using wf_const [of "without R live" d] ownedD(3) [OF O i] by (simp add: d_def)
  then have run: "wp (run_op V q) (op_post (without R live) q d) (op_exn (without R live) V q d) d"
    by (rule wp_run_op [OF without_supported [OF V]]) (simp add: d_def q)
  have tag: "wp (run_op V q) (\<lambda>r t. of_device (int i) t \<and> yes r) (\<lambda>_ t. of_device (int i) t) d"
    using tag_run_op [OF q(2), of V] ownedD(4) [OF O i] by (simp add: upholds_def d_def)
  have m: "moved i s (s\<lparr>device_allocator := (device_allocator s)[i := t], p_streams := st\<rparr>)" for t st
    by (auto simp: moved_def)
  show ?thesis
    unfolding wp_run_dev Let_def d_def [symmetric]
  proof (rule wp_conseq [OF wp_conj [OF run tag]], goal_cases)
    case (1 r t)
    then show ?case using owned_moved [OF O i, folded R_def] i by (auto simp: op_post_def ran_def d_def m)
  next
    case (2 e t)
    then show ?case using owned_moved [OF O i, folded R_def] i holds_same [of t d]
      by (auto simp: op_exn_def malloc_exn_def benign_exn_def ran_def m sheds_def keeps_def d_def fault_def)
  qed
qed

end
