(* ===== verification/Native_Process.thy ===== *)
theory Native_Process
  imports Native_Safety
begin

text \<open>
  The calls of a process on its allocator, for any number of devices: every one keeps the invariant of
  \<^verbatim>\<open>Native_Safety\<close> and is a step of an abstract allocator on the map of the addresses the process holds.
  A process owes nothing: an address that is not allocated is rejected.
\<close>

section \<open>States of the process\<close>

definition good :: "('d \<Rightarrow> (nat \<times> nat) set) \<Rightarrow> 'd nca \<Rightarrow> bool" where
  "good live s \<longleftrightarrow> (\<exists>P. owned live P s) \<and> listed s"

text \<open>The addresses the process holds, with their sizes, streams and devices.\<close>

type_synonym p_holdings = "nat \<Rightarrow> (nat \<times> nat \<times> nat) option"

definition pholds :: "'d nca \<Rightarrow> p_holdings" where
  "pholds s p = (case allocated_blocks s p of None \<Rightarrow> None
     | Some (i, b) \<Rightarrow> map_option (\<lambda>(q, z, k). (z, k, i)) (holds (p_dev s i) b))"

lemma pholds_cong:
  assumes "allocated_blocks t = allocated_blocks s" and "\<And>i. holds (p_dev t i) = holds (p_dev s i)"
  shows "pholds t = pholds s"
  by (rule ext) (simp only: pholds_def assms)

lemma listed_holds:
  assumes "listed s" and "allocated_blocks s p = Some (i, b)"
  obtains z k where "i < n_dev s" and "holds (p_dev s i) b = Some (p, z, k)" and "pholds s p = Some (z, k, i)"
proof -
  obtain z k where h: "i < n_dev s" "holds (p_dev s i) b = Some (p, z, k)" using assms unfolding listed_def by blast
  then have "pholds s p = Some (z, k, i)" using assms(2) by (simp add: pholds_def)
  then show thesis using h that by blast
qed

lemma pholds_dest:
  assumes "listed s" and "pholds s p = Some (z, k, i)"
  obtains b where "allocated_blocks s p = Some (i, b)" and "i < n_dev s" and "holds (p_dev s i) b = Some (p, z, k)"
proof -
  obtain j b where a: "allocated_blocks s p = Some (j, b)" using assms(2) by (auto simp: pholds_def split: option.splits)
  obtain w l where "j < n_dev s" "holds (p_dev s j) b = Some (p, w, l)" "pholds s p = Some (w, l, j)"
    by (rule listed_holds [OF assms(1) a])
  then show thesis using a assms(2) that by auto
qed

lemma pholds_none: "listed s \<Longrightarrow> pholds s p = None \<longleftrightarrow> allocated_blocks s p = None"
  by (auto simp: pholds_def split: option.splits elim!: listed_holds)

text \<open>Held blocks of one or of two devices do not overlap.\<close>

lemma held_positive:
  assumes "wf live s" and "holds s b = Some (p, z, k)"
  shows "0 < z" and "0 < p"
proof -
  obtain x where "heap s b = Some x" "b_ptr x = p" "b_size x = z" using assms(2) by (auto simp: holds_def body_def elim!: in_useD)
  then show "0 < z" "0 < p" using inv_shape(3) [OF wf_inv [OF assms(1)]] by (auto simp: positive_def)
qed

lemma held_inside:
  assumes "wf live s" and "holds s b = Some (p, z, k)"
  obtains q m where "(q, m) \<in> live (drv (world s))" and "span p z \<subseteq> span q m"
proof -
  obtain x where "heap s b = Some x" "b_ptr x = p" "b_size x = z" using assms(2) by (auto simp: holds_def body_def elim!: in_useD)
  then show thesis using covered_range [OF inv_shape(5) [OF wf_inv [OF assms(1)], simplified]] that by metis
qed

lemma held_apart:
  assumes O: "owned live P s" and i: "i < n_dev s" "j < n_dev s"
    and h: "holds (p_dev s i) b = Some (p, z, k)" "holds (p_dev s j) c = Some (q, w, l)" and ne: "(i, b) \<noteq> (j, c)"
  shows "span p z \<inter> span q w = {}"
proof (cases "i = j")
  case True
  then show ?thesis using holds_apart [OF ownedD(3) [OF O i(1)] h(1)] h(2) ne by auto
next
  case False
  obtain p1 n1 where 1: "(p1, n1) \<in> P i" "span p z \<subseteq> span p1 n1" using held_inside [OF ownedD(3) [OF O i(1)] h(1)] by auto
  obtain p2 n2 where 2: "(p2, n2) \<in> P j" "span q w \<subseteq> span p2 n2" using held_inside [OF ownedD(3) [OF O i(2)] h(2)] by auto
  have "(p1, n1) \<noteq> (p2, n2)" using ownedD(5) [OF O i False] 1(1) 2(1) by blast
  then have "span p1 n1 \<inter> span p2 n2 = {}"
    using ownedD(1) [OF O i(1)] ownedD(2) [OF O i(1)] ownedD(2) [OF O i(2)] 1(1) 2(1) unfolding ranges_ok_def by blast
  then show ?thesis using 1(2) 2(2) by blast
qed

lemma held_address:
  assumes "owned live P s" and "i < n_dev s" and "j < n_dev s"
    and "holds (p_dev s i) b = Some (p, z, k)" and "holds (p_dev s j) c = Some (p, w, l)"
  shows "i = j \<and> b = c"
proof (rule ccontr)
  assume "\<not> (i = j \<and> b = c)"
  then have "span p z \<inter> span p w = {}" using held_apart [OF assms] by simp
  moreover have "0 < z" "0 < w"
    using held_positive(1) [OF ownedD(3) [OF assms(1,2)] assms(4)] held_positive(1) [OF ownedD(3) [OF assms(1,3)] assms(5)] .
  ultimately show False using span_nonempty [of z p] span_nonempty [of w p] by blast
qed

section \<open>Calls that keep the addresses\<close>

definition kept :: "('d \<Rightarrow> (nat \<times> nat) set) \<Rightarrow> 'd nca \<Rightarrow> 'd nca \<Rightarrow> bool" where
  "kept live s t \<longleftrightarrow> good live t \<and> pholds t = pholds s \<and> n_dev t = n_dev s"

text \<open>An exception that is no fault and no report of exhausted memory.\<close>

definition calm_exn :: "exn \<Rightarrow> 'd nca \<Rightarrow> bool" where
  "calm_exn e t \<longleftrightarrow> \<not> fault e \<and> e \<noteq> OutOfMemoryError"

lemma kept_trans: "kept live s t \<Longrightarrow> kept live t u \<Longrightarrow> kept live s u"
  by (simp add: kept_def)

lemma kept_refl: "good live s \<Longrightarrow> kept live s s"
  by (simp add: kept_def)

lemma ran_kept:
  assumes r: "ran live i s t" and l: "listed s" and h: "holds (p_dev t i) = holds (p_dev s i)"
  shows "kept live s t"
proof -
  have m: "moved i s t" using r by (simp add: ran_def)
  have "holds (p_dev t j) = holds (p_dev s j)" for j using movedD(3) [OF m, of j] h by (cases "j = i") auto
  then have "listed t" using l by (simp add: listed_def movedD(1,2) [OF m])
  moreover have "pholds t = pholds s" by (rule pholds_cong) (simp_all add: movedD(2) [OF m] \<open>\<And>j. holds (p_dev t j) = holds (p_dev s j)\<close>)
  ultimately show ?thesis using r movedD(1) [OF m] by (simp add: kept_def good_def ran_def)
qed

lemma wp_keep_dev:
  assumes V: "supported V live" and G: "good live s" and i: "i < n_dev s" and q: "op_ok q (p_dev s i)" "op_for i q"
    and k: "\<forall>dev n st. q \<noteq> Malloc dev n st" "\<forall>b. q \<noteq> Free b"
  shows "wp (run_dev i (run_op V q)) (\<lambda>_ t. kept live s t) calm_exn s"
proof -
  obtain P where O: "owned live P s" and l: "listed s" using G by (auto simp: good_def)
  have s: "B = A" if "spec q r A B" for r A B using that k by (cases rule: spec.cases) auto
  show ?thesis
    by (rule wp_conseq [OF wp_run_dev_op [OF V O i q]]) (use k in \<open>auto simp: calm_exn_def intro: ran_kept [OF _ l] dest: s\<close>)
qed

lemma run_dev_seq: "wp (run_dev i (sx_seq m (sx_ret x))) Q E s = wp (run_dev i m) (\<lambda>_. Q x) E s"
  by (simp add: wp_run_dev Let_def)

text \<open>A computation on the streams or the world of the thread that keeps the driver's memory.\<close>

lemma good_streams:
  assumes "good live s" and "live (drv (st_world st)) = p_live live s"
  shows "kept live s (s\<lparr>p_streams := st\<rparr>)"
proof -
  have "owned live P (s\<lparr>p_streams := st\<rparr>) = owned live P s" for P using assms(2) by (simp add: owned_def)
  moreover have "pholds (s\<lparr>p_streams := st\<rparr>) = pholds s" by (rule pholds_cong) simp_all
  ultimately show ?thesis using assms(1) by (simp add: kept_def good_def listed_def)
qed

lemma wp_on_pw:
  assumes "benign (same_live live) m" and "good live s"
  shows "wp (on_pw m) (\<lambda>_ t. kept live s t) calm_exn s"
  unfolding wp_field
proof (rule benign_step [OF assms(1)])
  fix w assume "same_live live (st_world (p_streams s)) w"
  then show "kept live s (p_streams_update (\<lambda>_. st_world_update (\<lambda>_. w) (p_streams s)) s)"
    using good_streams [OF assms(2), of "st_world_update (\<lambda>_. w) (p_streams s)"] by (simp add: same_live_def)
qed (auto simp: calm_exn_def benign_exn_def)

lemma wp_check_device: "wp (check_device dev) Q E s =
  (if 0 \<le> dev \<and> nat dev < n_dev s then Q () s else E (InternalAssert ''Allocator not initialized for device'') s)"
  by (simp add: check_device_def)

lemma wp_on_dev: "wp (on_dev dev m) Q E s =
  (if 0 \<le> dev \<and> nat dev < n_dev s then wp (run_dev (nat dev) m) Q E s else E OutOfBounds s)"
  by (simp add: on_dev_def)

lemma wp_on_valid: "wp (on_valid dev m) Q E s =
  (if 0 \<le> dev \<and> nat dev < n_dev s then wp (run_dev (nat dev) m) Q E s else E (TorchCheck ''Invalid device argument'') s)"
  by (auto simp: on_valid_def assertValidDevice_def wp_on_dev nat_less_iff)

section \<open>Allocating\<close>

lemma holds_block:
  assumes "holds s b = Some (p, z, k)"
  obtains x where "heap s b = Some x" and "b_ptr x = p" and "allocated x"
  using assms by (auto simp: holds_def body_def elim!: in_useD)

lemma wp_read_block:
  assumes "heap (p_dev s (fst r)) (snd r) = Some x"
  shows "wp (read_block r) Q E s = Q x s"
  using assms by (simp add: wp_def read_block_def)

inductive_cases spec_allocE: "spec (Malloc dev n st) b A B"
inductive_cases spec_releaseE: "spec (Free b) r A B"

text \<open>A new block is entered into the table under its address.\<close>

lemma listed_insert:
  assumes l: "listed s" and m: "moved i s t" and O: "owned live P t" and i: "i < n_dev s"
    and new: "holds (p_dev s i) b = None" and h: "holds (p_dev t i) = (holds (p_dev s i))(b \<mapsto> (p, z, k))"
  defines "u \<equiv> t\<lparr>allocated_blocks := (allocated_blocks s)(p \<mapsto> (i, b))\<rparr>"
  shows "listed u" and "allocated_blocks s p = None" and "pholds u = (pholds s)(p \<mapsto> (z, k, i))"
proof -
  note md = movedD [OF m]
  have hb: "holds (p_dev t i) b = Some (p, z, k)" using h by simp
  have same: "holds (p_dev t j) c = holds (p_dev s j) c" if "(j, c) \<noteq> (i, b)" for j c
    using h md(3) [of j] that by (cases "j = i") auto
  have only: "(j, c) = (i, b)" if "j < n_dev s" "holds (p_dev t j) c = Some (p, w, l)" for j c w l
    using held_address [OF O, of j i c p w l b z k] that i hb md(1) by auto
  show L: "listed u"
    unfolding listed_def
  proof (intro allI)
    fix q j c
    show "allocated_blocks u q = Some (j, c) \<longleftrightarrow> j < n_dev u \<and> (\<exists>z k. holds (p_dev u j) c = Some (q, z, k))"
    proof (cases "q = p")
      case True
      then show ?thesis using hb i only [of j c] md(1) by (auto simp: u_def)
    next
      case False
      have "(\<exists>z k. holds (p_dev t j) c = Some (q, z, k)) \<longleftrightarrow> (\<exists>z k. holds (p_dev s j) c = Some (q, z, k))"
        using same [of j c] hb new False by (cases "(j, c) = (i, b)") auto
      then show ?thesis using l False md(1) by (auto simp: u_def listed_def)
    qed
  qed
  show none: "allocated_blocks s p = None"
  proof (rule ccontr)
    assume "allocated_blocks s p \<noteq> None"
    then obtain j c where a: "allocated_blocks s p = Some (j, c)" by auto
    obtain w l where jc: "j < n_dev s" "holds (p_dev s j) c = Some (p, w, l)" by (rule listed_holds [OF l a])
    then have "(j, c) \<noteq> (i, b)" using new by auto
    then show False using only [of j c w l] jc same [of j c] by auto
  qed
  show "pholds u = (pholds s)(p \<mapsto> (z, k, i))"
  proof
    fix q
    show "pholds u q = ((pholds s)(p \<mapsto> (z, k, i))) q"
    proof (cases "q = p")
      case False
      then show ?thesis
        using same new by (auto simp: pholds_def u_def split: option.splits)
          (metis False l listed_holds new option.distinct(1) same)
    qed (simp add: pholds_def u_def hb)
  qed
qed

lemma owned_table [simp]: "owned live P (s\<lparr>allocated_blocks := m\<rparr>) = owned live P s"
  by (simp add: owned_def)

lemma wp_native_malloc:
  assumes V: "supported (Env P) live" and G: "good live s" and n: "request_ok n"
  shows "wp (native_malloc P dev n st)
    (\<lambda>p t. \<exists>z. good live t \<and> n_dev t = n_dev s \<and> 0 \<le> dev \<and> pholds s p = None \<and> n \<le> z \<and> 0 < z \<and> 0 < p
      \<and> pholds t = (pholds s)(p \<mapsto> (z, st, nat dev)))
    (\<lambda>e t. \<not> fault e \<and> (e = OutOfMemoryError \<longrightarrow> kept live s t)) s"
proof -
  obtain Q where O: "owned live Q s" and l: "listed s" using G by (auto simp: good_def)
  show ?thesis
  proof (cases "0 \<le> dev \<and> nat dev < n_dev s")
    case True
    define i where "i = nat dev"
    have i: "i < n_dev s" "op_for i (Malloc dev n st)" using True by (auto simp: i_def)
    have step: "wp (run_dev i (device_malloc (Env P) dev n st))
      (\<lambda>r t. ran live i s t \<and> spec (Malloc dev n st) r (holds (p_dev s i)) (holds (p_dev t i)))
      (\<lambda>e t. \<not> fault e \<and> (e = OutOfMemoryError \<longrightarrow> kept live s t)) s"
      using wp_run_dev_op [OF V O i(1), of "Malloc dev n st"] i n
      by (intro wp_conseq [OF wp_run_dev_op [OF V O i(1), of "Malloc dev n st", unfolded run_op.simps]])
        (auto simp: fault_def intro: ran_kept [OF _ l])
    show ?thesis
      unfolding native_malloc_def wp_seq wp_check_device wp_bind wp_on_dev add_allocated_block_def
      using True
    proof (simp add: i_def [symmetric], intro wp_conseq [OF step], goal_cases)
      case (1 b t)
      then have r: "moved i s t" and spec: "spec (Malloc dev n st) b (holds (p_dev s i)) (holds (p_dev t i))"
        by (auto simp: ran_def)
      obtain R where R: "owned live R t" using 1 by (auto simp: ran_def)
      obtain p z where pz: "holds (p_dev s i) b = None" "n \<le> z" "0 < z" "0 < p" "holds (p_dev t i) = (holds (p_dev s i))(b \<mapsto> (p, z, st))"
        using spec by (rule spec_allocE) auto
      then have "holds (p_dev t i) b = Some (p, z, st)" by simp
      then obtain x where x: "heap (p_dev t i) b = Some x" "b_ptr x = p" by (rule holds_block)
      note ins = listed_insert [OF l r R i(1) pz(1,5)]
      note md = movedD [OF r]
      have rd: "wp (read_block (i, b)) Q' E' t = Q' x t" for Q' E' by (rule wp_read_block) (simp add: x)
      have rd2: "wp (read_block (i, b)) Q' E' (t\<lparr>allocated_blocks := m\<rparr>) = Q' x (t\<lparr>allocated_blocks := m\<rparr>)" for Q' E' m
        by (rule wp_read_block) (simp add: x)
      show ?case
        using ins R pz md by (auto simp: rd rd2 x good_def pholds_none [OF l])
    qed (simp_all add: fault_def)
  next
    case False
    then show ?thesis by (auto simp: native_malloc_def wp_check_device fault_def)
  qed
qed

section \<open>Freeing and using a block\<close>

text \<open>A block of the table is found, belongs to its allocator and is in use there.\<close>

lemma wp_on_block:
  assumes O: "owned live P s" and i: "i < n_dev s" and h: "holds (p_dev s i) b = Some v"
  shows "wp (on_block (i, b) m) Q E s = wp (run_dev i (m b)) Q E s"
proof -
  obtain x where x: "heap (p_dev s i) b = Some x" using h by (auto simp: holds_def elim!: in_useD)
  then have d: "b_device x = int i" using ownedD(4) [OF O i] by (simp add: of_device_def)
  have "wp (read_block (i, b)) Q' E' s = Q' x s" for Q' E' by (rule wp_read_block) (simp add: x)
  then show ?thesis by (simp add: on_block_def wp_on_dev d i)
qed

lemma wp_get_allocated_block:
  "wp (get_allocated_block p remove) Q E s = Q (allocated_blocks s p)
     (if remove then s\<lparr>allocated_blocks := (allocated_blocks s)(p := None)\<rparr> else s)"
  by (cases "allocated_blocks s p") (auto simp: get_allocated_block_def fun_upd_idem)

lemma listed_remove:
  assumes l: "listed s" and O: "owned live P s" and a: "allocated_blocks s p = Some (i, b)"
    and m: "moved i (s\<lparr>allocated_blocks := (allocated_blocks s)(p := None)\<rparr>) t"
    and h: "holds (p_dev t i) = (holds (p_dev s i))(b := None)"
  shows "listed t" and "pholds t = (pholds s)(p := None)"
proof -
  note md = movedD [OF m, simplified]
  obtain z k where i: "i < n_dev s" and b: "holds (p_dev s i) b = Some (p, z, k)" by (rule listed_holds [OF l a])
  have same: "holds (p_dev t j) c = holds (p_dev s j) c" if "(j, c) \<noteq> (i, b)" for j c
    using h md(3) [of j] that by (cases "j = i") auto
  have tb: "holds (p_dev t i) b = None" using h by simp
  show "listed t"
    unfolding listed_def
  proof (intro allI)
    fix q j c
    show "allocated_blocks t q = Some (j, c) \<longleftrightarrow> j < n_dev t \<and> (\<exists>z k. holds (p_dev t j) c = Some (q, z, k))"
    proof (cases "q = p")
      case True
      have "(j, c) = (i, b)" if "j < n_dev s" "holds (p_dev s j) c = Some (p, w, l)" for w l
        using held_address [OF O, of j i c p w l b z k] that i b by auto
      then have "\<not> (j < n_dev s \<and> (\<exists>w l. holds (p_dev t j) c = Some (p, w, l)))"
        using tb same [of j c] by (cases "(j, c) = (i, b)") auto
      then show ?thesis unfolding True md(1,2) by simp
    next
      case False
      have "(\<exists>z k. holds (p_dev t j) c = Some (q, z, k)) \<longleftrightarrow> (\<exists>z k. holds (p_dev s j) c = Some (q, z, k))"
        using same [of j c] tb b False by (cases "(j, c) = (i, b)") auto
      moreover have "allocated_blocks t q = allocated_blocks s q" unfolding md(2) using False by simp
      ultimately show ?thesis using l [unfolded listed_def, rule_format, of q j c] unfolding md(1) by simp
    qed
  qed
  show "pholds t = (pholds s)(p := None)"
  proof
    fix q
    show "pholds t q = ((pholds s)(p := None)) q"
    proof (cases "q = p")
      case False
      have "holds (p_dev t j) c = holds (p_dev s j) c" if aq: "allocated_blocks s q = Some (j, c)" for j c
      proof -
        obtain w y where "holds (p_dev s j) c = Some (q, w, y)" by (rule listed_holds [OF l aq])
        then have "(j, c) \<noteq> (i, b)" using b False by auto
        then show ?thesis by (rule same)
      qed
      moreover have "allocated_blocks t q = allocated_blocks s q" unfolding md(2) using False by simp
      ultimately show ?thesis using False by (simp add: pholds_def split: option.splits)
    qed (simp add: pholds_def md(2))
  qed
qed

lemma wp_native_free:
  assumes V: "supported (Env P) live" and G: "good live s"
  shows "wp (native_free P p)
    (\<lambda>_ t. good live t \<and> n_dev t = n_dev s \<and> pholds t = (pholds s)(p := None) \<and> (p = 0 \<or> pholds s p \<noteq> None))
    calm_exn s"
proof -
  obtain R where O: "owned live R s" and l: "listed s" using G by (auto simp: good_def)
  show ?thesis
  proof (cases "p = 0")
    case True
    have "pholds s 0 = None"
    proof (rule ccontr)
      assume "pholds s 0 \<noteq> None"
      then obtain z k i where "pholds s 0 = Some (z, k, i)" by auto
      then obtain b where "i < n_dev s" "holds (p_dev s i) b = Some (0, z, k)" by (rule pholds_dest [OF l])
      then show False using held_positive(2) [OF ownedD(3) [OF O]] by blast
    qed
    then show ?thesis using True G by (simp add: native_free_def fun_upd_idem)
  next
    case False
    show ?thesis
    proof (cases "allocated_blocks s p")
      case None
      then show ?thesis using False by (simp add: native_free_def wp_get_allocated_block calm_exn_def fault_def)
    next
      case (Some r)
      obtain i b where r: "r = (i, b)" by fastforce
      define u where "u = s\<lparr>allocated_blocks := (allocated_blocks s)(p := None)\<rparr>"
      obtain z k where i: "i < n_dev s" and b: "holds (p_dev s i) b = Some (p, z, k)" and ph: "pholds s p = Some (z, k, i)"
        by (rule listed_holds [OF l Some [unfolded r]])
      have Ou: "owned live R u" and iu: "i < n_dev u" using O i by (simp_all add: u_def)
      have hu: "holds (p_dev u i) b = Some (p, z, k)" using b by (simp add: u_def)
      then have ok: "op_ok (Free b) (p_dev u i)" by (auto simp: holds_def)
      have "wp (run_dev i (device_free (Env P) b))
        (\<lambda>_ t. ran live i u t \<and> spec (Free b) 0 (holds (p_dev u i)) (holds (p_dev t i))) calm_exn u"
        using wp_run_dev_op [OF V Ou iu ok] unfolding run_op.simps run_dev_seq op_for.simps
        by (simp, elim wp_conseq) (auto simp: calm_exn_def)
      then have "wp (run_dev i (device_free (Env P) b))
        (\<lambda>_ t. good live t \<and> n_dev t = n_dev s \<and> pholds t = (pholds s)(p := None)) calm_exn u"
      proof (rule wp_conseq, goal_cases)
        case (1 x t)
        then have m: "moved i u t" and "spec (Free b) 0 (holds (p_dev u i)) (holds (p_dev t i))" by (auto simp: ran_def)
        then have "holds (p_dev t i) = (holds (p_dev s i))(b := None)" by (auto simp: u_def elim: spec_releaseE)
        from listed_remove [OF l O Some [unfolded r] m [unfolded u_def] this]
        show ?case using 1 movedD(1) [OF m] by (auto simp: good_def ran_def u_def)
      qed
      then show ?thesis
        using False Some ph
        by (simp add: native_free_def wp_get_allocated_block r u_def [symmetric] wp_on_block [OF Ou iu hu])
    qed
  qed
qed

text \<open>Converting a stream to its handle changes nothing.\<close>

interpretation reading: framing "\<lambda>s t. t = s"
  by unfold_locales simp_all

lemma benign_stream_of: "benign (\<lambda>s t. t = s) (stream_of x)"
  unfolding stream_of_def streamIdType_def check_at_def Let_def
  by (intro reading.bind reading.seq reading.cond reading.check reading.get reading.ret) (simp_all add: benign_exn_def fault_def)

lemma wp_native_recordStream:
  assumes V: "supported V live" and G: "good live s"
  shows "wp (native_recordStream dp st) (\<lambda>_ t. kept live s t) calm_exn s"
proof -
  obtain R where O: "owned live R s" and l: "listed s" using G by (auto simp: good_def)
  show ?thesis
  proof (cases "dp_ptr dp = 0 \<or> dp_deleter dp \<noteq> local_raw_delete \<or> allocated_blocks s (dp_ptr dp) = None")
    case True
    then show ?thesis using kept_refl [OF G] by (auto simp: native_recordStream_def wp_get_allocated_block calm_exn_def fault_def)
  next
    case False
    then obtain i b where r: "allocated_blocks s (dp_ptr dp) = Some (i, b)" by auto
    obtain z k where i: "i < n_dev s" and b: "holds (p_dev s i) b = Some (dp_ptr dp, z, k)" by (rule listed_holds [OF l r])
    then have ok: "op_ok (RecordStream b x) (p_dev s i)" for x by (auto simp: holds_def)
    have rec: "wp (run_dev i (recordStream b x)) (\<lambda>_ t. kept live s t) calm_exn s" for x
      using wp_keep_dev [OF V G i ok] unfolding run_op.simps run_dev_seq op_for.simps by simp
    have "wp (on_str (stream_of st)) (\<lambda>h t. t = s) calm_exn s"
      unfolding wp_field by (rule benign_step [OF benign_stream_of]) (simp_all add: calm_exn_def benign_exn_def)
    then have "wp (on_str (stream_of st)) (\<lambda>h. wp (on_block (i, b) (\<lambda>b. recordStream b (f h))) (\<lambda>_ t. kept live s t) calm_exn) calm_exn s" for f
      by (rule wp_conseq) (simp_all add: wp_on_block [OF O i b] rec)
    then show ?thesis
      using False r by (simp add: native_recordStream_def wp_get_allocated_block del: wp_field)
  qed
qed

section \<open>Calls on every device or on the pools of one\<close>

lemma wp_for_all_devices:
  assumes "\<And>i t. i < n_dev s \<Longrightarrow> kept live s t \<Longrightarrow> wp (run_dev i (f i)) (\<lambda>_ u. kept live t u) calm_exn t" and G: "good live s"
  shows "wp (for_all_devices f) (\<lambda>_ t. kept live s t) calm_exn s"
  unfolding for_all_devices_def wp_bind wp_get
proof (rule wp_for)
  fix i t assume i: "i \<in> set [0 ..< n_dev s]" and k: "kept live s t"
  then show "wp (run_dev i (f i)) (\<lambda>_ u. kept live s u) calm_exn t"
    by (intro wp_conseq [OF assms(1)]) (auto intro: kept_trans [OF k])
qed (rule kept_refl [OF G])

lemma wp_native_emptyCache:
  assumes V: "supported (Env P) live" and G: "good live s"
  shows "wp (native_emptyCache P mempool) (\<lambda>_ t. kept live s t) calm_exn s"
  unfolding native_emptyCache_def
proof (rule wp_for_all_devices [OF _ G])
  fix i t assume "i < n_dev s" and k: "kept live s t"
  then have "good live t" "i < n_dev t" by (simp_all add: kept_def)
  from wp_keep_dev [OF V this, of "EmptyCache mempool"]
  show "wp (run_dev i (emptyCache (Env P) mempool)) (\<lambda>_ u. kept live t u) calm_exn t"
    unfolding run_op.simps run_dev_seq by simp
qed

text \<open>The operations on the private pools of a device check the device first.\<close>

lemma wp_valid_op:
  assumes V: "supported V live" and G: "good live s" and q: "run_op V q = sx_seq m (sx_ret 0)"
    and k: "\<And>d. op_ok q (p_dev s d)" "\<And>d. op_for d q" "\<forall>dev n st. q \<noteq> Malloc dev n st" "\<forall>b. q \<noteq> Free b"
  shows "wp (on_valid dev m) (\<lambda>_ t. kept live s t) calm_exn s"
proof -
  have "wp (run_dev i m) (\<lambda>_ t. kept live s t) calm_exn s" if "i < n_dev s" for i
    using wp_keep_dev [OF V G that k] unfolding q run_dev_seq .
  moreover have "calm_exn (TorchCheck ''Invalid device argument'') s" by (simp add: calm_exn_def fault_def)
  ultimately show ?thesis by (simp add: wp_on_valid)
qed

lemma wp_native_setMemoryFraction:
  assumes V: "supported (Env P) live" and G: "good live s"
  shows "wp (native_setMemoryFraction P r dev) (\<lambda>_ t. kept live s t) calm_exn s"
proof -
  have B: "benign (same_live live) (sx_bind (SetDevice (Drv (Env P)) dev False) check_err)"
    unfolding check_err_def by (intro memory_intros benign_SetDevice supportedD(2) [OF V]) simp
  have dev: "wp (on_dev dev (setMemoryFraction (Env P) r)) (\<lambda>_ t. kept live s t) calm_exn u" if k: "kept live s u" for u
  proof -
    have g: "good live u" using k by (simp add: kept_def)
    have "wp (run_dev i (setMemoryFraction (Env P) r)) (\<lambda>_ t. kept live u t) calm_exn u" if "i < n_dev u" for i
      using wp_keep_dev [OF V g that, of "SetMemoryFraction r"] unfolding run_op.simps run_dev_seq by simp
    then show ?thesis
      unfolding wp_on_dev by (auto simp: calm_exn_def fault_def intro: wp_conseq kept_trans [OF k])
  qed
  have "wp (on_pw (sx_bind (SetDevice (Drv (Env P)) dev False) check_err))
    (\<lambda>_. wp (on_dev dev (setMemoryFraction (Env P) r)) (\<lambda>_ t. kept live s t) calm_exn) calm_exn s"
    by (rule wp_conseq [OF wp_on_pw [OF B G]]) (auto intro: dev)
  then show ?thesis
    by (simp add: native_setMemoryFraction_def set_thread_device_def wp_check_device calm_exn_def fault_def del: wp_field wp_bind)
qed

lemma wp_native_init:
  assumes G: "good live s"
  shows "wp (native_init P count) (\<lambda>_ t. good live t \<and> pholds t = pholds s \<and> n_dev t = max (n_dev s) (nat count)) calm_exn s"
proof -
  obtain R where O: "owned live R s" and l: "listed s" using G by (auto simp: good_def)
  define c where "c = DeviceCachingAllocator_ctor (Env P) (st_world (p_streams s))"
  define t where "t = s\<lparr>device_allocator := device_allocator s @ replicate (nat count - n_dev s) c\<rparr>"
  have old: "p_dev t i = p_dev s i" if "i < n_dev s" for i using that by (simp add: t_def nth_append)
  have new: "p_dev t i = c" if "i < n_dev t" "\<not> i < n_dev s" for i using that by (simp add: t_def nth_append)
  have hc: "holds c b = None" for b by (simp add: c_def DeviceCachingAllocator_ctor_def holds_def in_use_def)
  have c: "wf (\<lambda>_. {}) c" "of_device i c" for i
    using wf_start [of "\<lambda>_. {}"] by (simp_all add: c_def of_device_def DeviceCachingAllocator_ctor_def)
  have "owned live (\<lambda>i. if i < n_dev s then R i else {}) t"
    using O c new old unfolding owned_def by (auto simp: t_def)
  moreover have hold: "i < n_dev t \<and> holds (p_dev t i) b = Some v \<longleftrightarrow> i < n_dev s \<and> holds (p_dev s i) b = Some v" for i b v
    using old [of i] new [of i] hc by (cases "i < n_dev s") (auto simp: t_def)
  have a: "allocated_blocks t = allocated_blocks s" by (simp add: t_def)
  have L: "listed t"
    using l hold unfolding listed_def a by (metis (no_types, lifting))
  moreover have "pholds t = pholds s"
  proof
    fix p
    show "pholds t p = pholds s p"
    proof (cases "allocated_blocks s p")
      case (Some r)
      then obtain i b where r: "allocated_blocks s p = Some (i, b)" by (cases r) auto
      obtain z k where "i < n_dev s" by (rule listed_holds [OF l r])
      then show ?thesis by (simp add: pholds_def a r old)
    qed (simp add: pholds_def a)
  qed
  ultimately have "good live t \<and> pholds t = pholds s \<and> n_dev t = max (n_dev s) (nat count)" by (auto simp: good_def t_def)
  then show ?thesis by (simp add: native_init_def t_def c_def)
qed

end
