(* ===== verification/Native_Properties.thy ===== *)
theory Native_Properties
  imports Native_Process Device_Examples
begin

text \<open>
  Histories of calls on the allocator of a process with any number of devices, and what holds in all of
  them: no fault, refinement of an abstract allocator on addresses, separation of the devices' memory,
  and the rejection of an address that is not allocated.
\<close>

section \<open>Histories of a process\<close>

datatype pop =
    PInit int
  | PMalloc int nat nat
  | PFree nat
  | PRecordStream DataPtr SUPAStream
  | PEmptyCache mempool_id
  | PSetMemoryFraction rat int
  | PCreatePool int mempool_id "nat option"
  | PBeginAllocate int mempool_id "nat \<Rightarrow> bool"
  | PEndAllocate int mempool_id
  | PReleasePool int mempool_id

primrec run_pop :: "'d penv \<Rightarrow> pop \<Rightarrow> ('d, nat) nx" where
  "run_pop P (PInit count) = sx_seq (native_init P count) (sx_ret 0)"
| "run_pop P (PMalloc dev n st) = native_malloc P dev n st"
| "run_pop P (PFree p) = sx_seq (native_free P p) (sx_ret 0)"
| "run_pop P (PRecordStream dp st) = sx_seq (native_recordStream dp st) (sx_ret 0)"
| "run_pop P (PEmptyCache i) = sx_seq (native_emptyCache P i) (sx_ret 0)"
| "run_pop P (PSetMemoryFraction r dev) = sx_seq (native_setMemoryFraction P r dev) (sx_ret 0)"
| "run_pop P (PCreatePool dev i a) = sx_seq (native_createOrIncrefPool dev i a) (sx_ret 0)"
| "run_pop P (PBeginAllocate dev i flt) = sx_seq (native_beginAllocateToPool dev i flt) (sx_ret 0)"
| "run_pop P (PEndAllocate dev i) = sx_seq (native_endAllocateToPool dev i) (sx_ret 0)"
| "run_pop P (PReleasePool dev i) = sx_seq (native_releasePool dev i) (sx_ret 0)"

fun pop_ok :: "pop \<Rightarrow> bool" where
  "pop_ok (PMalloc dev n st) = request_ok n"
| "pop_ok _ = True"

text \<open>
  The abstract allocator: a map from the addresses the process holds to their sizes, streams and devices.
\<close>

inductive pspec :: "pop \<Rightarrow> nat \<Rightarrow> p_holdings \<Rightarrow> p_holdings \<Rightarrow> bool" where
  pspec_malloc: "A p = None \<Longrightarrow> n \<le> z \<Longrightarrow> 0 < z \<Longrightarrow> 0 < p \<Longrightarrow> 0 \<le> dev \<Longrightarrow>
    (\<And>q w k i. A q = Some (w, k, i) \<Longrightarrow> span p z \<inter> span q w = {}) \<Longrightarrow>
    pspec (PMalloc dev n st) p A (A(p \<mapsto> (z, st, nat dev)))"
| pspec_free: "p = 0 \<or> A p \<noteq> None \<Longrightarrow> pspec (PFree p) 0 A (A(p := None))"
| pspec_keep: "\<forall>dev n st. q \<noteq> PMalloc dev n st \<Longrightarrow> \<forall>p. q \<noteq> PFree p \<Longrightarrow> pspec q 0 A A"

inductive_simps pspec_malloc_iff: "pspec (PMalloc dev n st) p A B"
inductive_simps pspec_free_iff: "pspec (PFree p) r A B"

definition pop_exn :: "('d \<Rightarrow> (nat \<times> nat) set) \<Rightarrow> pop \<Rightarrow> 'd nca \<Rightarrow> exn \<Rightarrow> 'd nca \<Rightarrow> bool" where
  "pop_exn live q s e t \<longleftrightarrow> \<not> fault e \<and> (e = OutOfMemoryError \<longrightarrow> kept live s t)"

lemma calm_pop_exn: "calm_exn e t \<Longrightarrow> pop_exn live q s e t"
  by (simp add: calm_exn_def pop_exn_def)

lemma pholds_apart:
  assumes G: "good live s" and h: "pholds s p = Some (z, k, i)" "pholds s q = Some (w, l, j)" and pq: "p \<noteq> q"
  shows "span p z \<inter> span q w = {}"
proof -
  obtain R where O: "owned live R s" and l: "listed s" using G by (auto simp: good_def)
  obtain b where b: "i < n_dev s" "holds (p_dev s i) b = Some (p, z, k)" by (rule pholds_dest [OF l h(1)])
  obtain c where c: "j < n_dev s" "holds (p_dev s j) c = Some (q, w, l)" by (rule pholds_dest [OF l h(2)])
  show ?thesis by (rule held_apart [OF O b(1) c(1) b(2) c(2)]) (use b c pq in auto)
qed

lemma wp_unit_pop:
  assumes "wp m (\<lambda>_ t. kept live s t) calm_exn s" and "\<forall>dev n st. q \<noteq> PMalloc dev n st" and "\<forall>p. q \<noteq> PFree p"
  shows "wp (sx_seq m (sx_ret 0)) (\<lambda>r t. good live t \<and> pspec q r (pholds s) (pholds t)) (pop_exn live q s) s"
  unfolding wp_seq wp_ret
  by (rule wp_conseq [OF assms(1)]) (use assms(2,3) in \<open>auto simp: kept_def calm_pop_exn intro: pspec_keep\<close>)

lemmas native_pool_ops = native_createOrIncrefPool_def native_beginAllocateToPool_def native_endAllocateToPool_def native_releasePool_def

lemma wp_run_pop:
  assumes V: "supported (Env P) live" and G: "good live s" and q: "pop_ok q"
  shows "wp (run_pop P q) (\<lambda>r t. good live t \<and> pspec q r (pholds s) (pholds t)) (pop_exn live q s) s"
proof (cases q)
  case (PInit count)
  show ?thesis
    unfolding PInit run_pop.simps wp_seq wp_ret
    by (rule wp_conseq [OF wp_native_init [OF G]]) (auto simp: calm_pop_exn intro: pspec_keep)
next
  case (PMalloc dev n st)
  then have "request_ok n" using q by simp
  from wp_native_malloc [OF V G this] show ?thesis
    unfolding PMalloc run_pop.simps
  proof (rule wp_conseq, goal_cases)
    case (1 p t)
    then obtain z where z: "good live t" "pholds s p = None" "n \<le> z" "0 < z" "0 < p" "0 \<le> dev" "pholds t = (pholds s)(p \<mapsto> (z, st, nat dev))"
      by auto
    have "span p z \<inter> span a w = {}" if "pholds s a = Some (w, k, i)" for a w k i
      by (rule pholds_apart [OF z(1), of p z st "nat dev" a w k i]) (use that z in auto)
    from pspec_malloc [of "pholds s" p n z dev st, OF z(2-6) this] show ?case using z(1,7) by simp
  qed (auto simp: pop_exn_def)
next
  case (PFree p)
  show ?thesis
    unfolding PFree run_pop.simps wp_seq wp_ret
    by (rule wp_conseq [OF wp_native_free [OF V G]]) (auto simp: calm_pop_exn intro: pspec_free)
next
  case (PRecordStream dp st)
  show ?thesis unfolding PRecordStream run_pop.simps by (rule wp_unit_pop [OF wp_native_recordStream [OF V G]]) simp_all
next
  case (PEmptyCache i)
  show ?thesis unfolding PEmptyCache run_pop.simps by (rule wp_unit_pop [OF wp_native_emptyCache [OF V G]]) simp_all
next
  case (PSetMemoryFraction r dev)
  show ?thesis unfolding PSetMemoryFraction run_pop.simps by (rule wp_unit_pop [OF wp_native_setMemoryFraction [OF V G]]) simp_all
next
  case (PCreatePool dev i a)
  show ?thesis
    unfolding PCreatePool run_pop.simps native_pool_ops by (rule wp_unit_pop [OF wp_valid_op [OF V G run_op.simps(6)]]) simp_all
next
  case (PBeginAllocate dev i flt)
  show ?thesis
    unfolding PBeginAllocate run_pop.simps native_pool_ops by (rule wp_unit_pop [OF wp_valid_op [OF V G run_op.simps(7)]]) simp_all
next
  case (PEndAllocate dev i)
  show ?thesis
    unfolding PEndAllocate run_pop.simps native_pool_ops by (rule wp_unit_pop [OF wp_valid_op [OF V G run_op.simps(8)]]) simp_all
next
  case (PReleasePool dev i)
  show ?thesis
    unfolding PReleasePool run_pop.simps native_pool_ops by (rule wp_unit_pop [OF wp_valid_op [OF V G run_op.simps(9)]]) simp_all
qed

text \<open>
  A history starts with the object that the program creates at start-up, on whatever memory the driver
  has handed out to others, and goes on with calls that return or report that memory has run out.
\<close>

inductive preachable :: "'d penv \<Rightarrow> 'd strm \<Rightarrow> 'd nca \<Rightarrow> bool" for P st where
  preach_start: "preachable P st (NativeCachingAllocator_ctor st)"
| preach_return: "preachable P st s \<Longrightarrow> pop_ok q \<Longrightarrow> run_pop P q s = (Inr r, t) \<Longrightarrow> preachable P st t"
| preach_oom: "preachable P st s \<Longrightarrow> pop_ok q \<Longrightarrow> run_pop P q s = (Inl OutOfMemoryError, t) \<Longrightarrow> preachable P st t"

lemma preachable_good:
  assumes V: "supported (Env P) live" and st: "ranges_ok (live (drv (st_world st)))" and "preachable P st s"
  shows "good live s"
  using assms(3)
proof (induction rule: preachable.induct)
  case preach_start
  show ?case using st by (auto simp: good_def owned_def listed_def NativeCachingAllocator_ctor_def)
next
  case (preach_return s q r t)
  then show ?case using wp_result(1) [OF wp_run_pop [OF V]] by blast
next
  case (preach_oom s q t)
  show ?case
    using wp_result(2) [OF wp_run_pop [OF V preach_oom.IH preach_oom.hyps(2)] preach_oom.hyps(3)] by (simp add: pop_exn_def kept_def)
qed

section \<open>A reference history\<close>

text \<open>Two devices; a block on each, then the first is freed. Computed by rewriting.\<close>

definition ref_penv :: "ref_state penv" where
  "ref_penv = \<lparr>Env = ref_env, Rt = ref_rt, force_uncached = False\<rparr>"

definition ref_st :: "nat \<Rightarrow> ref_state strm" where
  "ref_st cap = initial_streams (ref_world cap)"

definition ref_p0 :: "nat \<Rightarrow> ref_state nca" where
  "ref_p0 cap = snd (run_pop ref_penv (PInit 2) (NativeCachingAllocator_ctor (ref_st cap)))"

lemmas native_defs = run_pop.simps native_init_def native_malloc_def check_device_def on_dev_def run_dev_def add_allocated_block_def
  read_block_def native_free_def get_allocated_block_def on_block_def NativeCachingAllocator_ctor_def initial_streams_def
  ref_penv_def ref_st_def ref_p0_def

lemma ref_p_supported: "supported (Env ref_penv) ref_live"
  using ref_supported by (simp add: ref_penv_def)

lemma ref_p_ranges: "ranges_ok (ref_live (drv (st_world (ref_st cap))))"
  using ref_unused [of cap] by (simp add: ref_st_def initial_streams_def ranges_ok_def)

lemma ref_p_init: "run_pop ref_penv (PInit 2) (NativeCachingAllocator_ctor (ref_st cap)) = (Inr 0, ref_p0 cap)"
  by (simp add: native_defs sx_defs)

lemma ref_p_reach0: "preachable ref_penv (ref_st cap) (ref_p0 cap)"
  by (rule preach_return [OF preach_start _ ref_p_init]) simp

definition ref_p1 :: "ref_state nca" where
  "ref_p1 = snd (run_pop ref_penv (PMalloc 0 100 0) (ref_p0 8388608))"

lemma ref_p_malloc1: "run_pop ref_penv (PMalloc 0 100 0) (ref_p0 8388608) = (Inr 4096, ref_p1)"
proof -
  have "fst (run_pop ref_penv (PMalloc 0 100 0) (ref_p0 8388608)) = Inr 4096" by (simp add: native_defs free_defs run_defs)
  then show ?thesis by (simp add: ref_p1_def prod_eq_iff)
qed

lemma ref_p_reach1: "preachable ref_penv (ref_st 8388608) ref_p1"
  by (rule preach_return [OF ref_p_reach0 _ ref_p_malloc1]) (simp add: request_ok_def)

definition ref_p2 :: "ref_state nca" where
  "ref_p2 = snd (run_pop ref_penv (PMalloc 1 200 0) ref_p1)"

lemma ref_p_malloc2: "run_pop ref_penv (PMalloc 1 200 0) ref_p1 = (Inr 2101248, ref_p2)"
proof -
  have "fst (run_pop ref_penv (PMalloc 1 200 0) ref_p1) = Inr 2101248" by (simp add: ref_p1_def native_defs free_defs run_defs)
  then show ?thesis by (simp add: ref_p2_def prod_eq_iff)
qed

lemma ref_p_reach2: "preachable ref_penv (ref_st 8388608) ref_p2"
  by (rule preach_return [OF ref_p_reach1 _ ref_p_malloc2]) (simp add: request_ok_def)

lemma ref_p2_holds: "pholds ref_p2 4096 = Some (512, 0, 0)" "pholds ref_p2 2101248 = Some (512, 0, 1)"
  by (simp_all add: ref_p2_def ref_p1_def pholds_def holds_def in_use_def body_def native_defs free_defs run_defs)

definition ref_p3 :: "ref_state nca" where
  "ref_p3 = snd (run_pop ref_penv (PFree 4096) ref_p2)"

lemma ref_p_free: "run_pop ref_penv (PFree 4096) ref_p2 = (Inr 0, ref_p3)"
proof -
  have "fst (run_pop ref_penv (PFree 4096) ref_p2) = Inr 0" by (simp add: ref_p2_def ref_p1_def native_defs free_defs run_defs)
  then show ?thesis by (simp add: ref_p3_def prod_eq_iff)
qed

lemma ref_p_reach3: "preachable ref_penv (ref_st 8388608) ref_p3"
  by (rule preach_return [OF ref_p_reach2 _ ref_p_free]) simp

section \<open>Properties\<close>



text \<open>
  C6: in every state of a process, an address it holds is the address of exactly one block, the block
  is tagged with the device whose allocator has it, it lies inside one range that the driver has handed
  out, and the ranges of two held addresses, on one device or on two, do not overlap.
\<close>

theorem process_held_safe:
  assumes "supported (Env P) live" and "ranges_ok (live (drv (st_world st)))" and "preachable P st s"
    and "pholds s p = Some (z, k, i)"
  shows "\<exists>b x. allocated_blocks s p = Some (i, b) \<and> i < n_dev s \<and> heap (p_dev s i) b = Some x \<and> b_device x = int i \<and> b_ptr x = p
      \<and> (\<exists>q m. (q, m) \<in> p_live live s \<and> span p z \<subseteq> span q m)
      \<and> (\<forall>p' z' k' i'. pholds s p' = Some (z', k', i') \<longrightarrow> p' \<noteq> p \<longrightarrow> span p z \<inter> span p' z' = {})"
proof -
  have G: "good live s" by (rule preachable_good [OF assms(1-3)])
  then obtain R where O: "owned live R s" and l: "listed s" by (auto simp: good_def)
  obtain b where b: "allocated_blocks s p = Some (i, b)" "i < n_dev s" "holds (p_dev s i) b = Some (p, z, k)"
    by (rule pholds_dest [OF l assms(4)])
  obtain x where x: "heap (p_dev s i) b = Some x" "b_ptr x = p" using b(3) by (rule holds_block)
  have "b_device x = int i" using ownedD(4) [OF O b(2)] x(1) by (simp add: of_device_def)
  moreover obtain q m where "(q, m) \<in> R i" "span p z \<subseteq> span q m" by (rule held_inside [OF ownedD(3) [OF O b(2)] b(3)])
  moreover have "span p z \<inter> span p' z' = {}" if "pholds s p' = Some (z', k', i')" "p' \<noteq> p" for p' z' k' i'
    by (rule pholds_apart [OF G assms(4) that(1)]) (use that(2) in simp)
  ultimately show ?thesis using b(1,2) x ownedD(2) [OF O b(2)] by blast
qed

lemma double_free_facts:
  assumes "supported (Env P) live" and "ranges_ok (live (drv (st_world st)))" and "preachable P st s"
    and "p \<noteq> 0" and "run_pop P (PFree p) s = (Inr r, t)"
  shows "pholds s p \<noteq> None" and "run_pop P (PFree p) t = (Inl (TorchCheck ''invalid device pointer''), t)"
proof -
  have G: "good live t" and S: "pspec (PFree p) r (pholds s) (pholds t)"
    using wp_result(1) [OF wp_run_pop [OF assms(1) preachable_good [OF assms(1-3)]] assms(5)] by auto
  then show "pholds s p \<noteq> None" using assms(4) by (simp add: pspec_free_iff)
  have "pholds t p = None" using S by (auto simp: pspec_free_iff)
  then have "allocated_blocks t p = None" using pholds_none [of t p] G by (simp add: good_def)
  then show "run_pop P (PFree p) t = (Inl (TorchCheck ''invalid device pointer''), t)"
    using assms(4) by (simp add: native_free_def get_allocated_block_def sx_defs)
qed

text \<open>
  C7: an address is freed once. After a free has returned, a second free of the address is rejected and
  leaves the process as it is, until an allocation hands the address out again.
\<close>

theorem process_double_free:
  assumes "supported (Env P) live" and "ranges_ok (live (drv (st_world st)))" and "preachable P st s"
    and "p \<noteq> 0" and "run_pop P (PFree p) s = (Inr r, t)"
  shows "pholds s p \<noteq> None \<and> run_pop P (PFree p) t = (Inl (TorchCheck ''invalid device pointer''), t)"
  using double_free_facts [OF assms] by blast



theorem process_held_safe_witness:
  "span 4096 512 \<inter> span 2101248 512 = {} \<and> (\<exists>q m. (q, m) \<in> p_live ref_live ref_p2 \<and> span 4096 512 \<subseteq> span q m)"
  using process_held_safe [OF ref_p_supported ref_p_ranges ref_p_reach2 ref_p2_holds(1)] ref_p2_holds(2) by fastforce

theorem process_double_free_witness:
  "run_pop ref_penv (PFree 4096) ref_p3 = (Inl (TorchCheck ''invalid device pointer''), ref_p3)"
  by (rule process_double_free [OF ref_p_supported ref_p_ranges ref_p_reach2 _ ref_p_free, THEN conjunct2]) simp

end
