(* ===== verification/Ipc_Cache.thy ===== *)
theory Ipc_Cache
  imports Native_Properties
begin

text \<open>
  The cache of memory that other processes share, \<^verbatim>\<open>getIpcDevPtr\<close> and the deleter it hands out: what an
  entry goes through from the first owner to the last.
\<close>

lemmas ipc_defs = getIpcDevPtr_def drop_owner_def ipc_deleter_def set_entry_def sx_defs

lemma cache_entry_facts:
  assumes "ipcMemHandle_to_devptr s h = Some e"
  shows "0 < ce_uses e \<Longrightarrow> fst (getIpcDevPtr P h s) = Inr (cache_entry_ptr e) \<and> p_streams (snd (getIpcDevPtr P h s)) = p_streams s
      \<and> drop_owner h (snd (getIpcDevPtr P h s)) = (Inr (), s)"
    and "ce_uses e = 1 \<Longrightarrow> fst (sx_seq (drop_owner h) (getIpcDevPtr P h) s) = Inl (InternalAssert ''entry in cache has missing shared_ptr'')"
    and "wp (sx_seq (drop_owner h) (ipc_deleter P h)) (\<lambda>_ t. ipcMemHandle_to_devptr t h = None) (\<lambda>_ _. True) s"
proof -
  have "drop_owner h (s\<lparr>ipcMemHandle_to_devptr := (ipcMemHandle_to_devptr s)(h := Some (e\<lparr>ce_uses := ce_uses e + 1\<rparr>))\<rparr>) = (Inr (), s)"
    using assms by (simp add: ipc_defs fun_upd_idem)
  then show "0 < ce_uses e \<Longrightarrow> fst (getIpcDevPtr P h s) = Inr (cache_entry_ptr e) \<and> p_streams (snd (getIpcDevPtr P h s)) = p_streams s
      \<and> drop_owner h (snd (getIpcDevPtr P h s)) = (Inr (), s)"
    using assms by (simp add: getIpcDevPtr_def set_entry_def sx_defs)
  show "ce_uses e = 1 \<Longrightarrow> fst (sx_seq (drop_owner h) (getIpcDevPtr P h) s) = Inl (InternalAssert ''entry in cache has missing shared_ptr'')"
    using assms by (simp add: ipc_defs)
  have "wp (cache_entry_clear P d) (\<lambda>_. wp (set_entry h None) (\<lambda>_ t. ipcMemHandle_to_devptr t h = None) (\<lambda>_ _. True)) (\<lambda>_ _. True) t" for d t
    by (simp add: wp_def set_entry_def sx_mod_def split: prod.splits sum.splits)
  then show "wp (sx_seq (drop_owner h) (ipc_deleter P h)) (\<lambda>_ t. ipcMemHandle_to_devptr t h = None) (\<lambda>_ _. True) s"
    using assms by (simp add: drop_owner_def ipc_deleter_def set_entry_def)
qed

text \<open>
  C36: a handle that is open is not opened again: as long as some owner is left, another request returns
  the address of the entry and adds an owner without a call of the driver, and dropping that owner takes
  the process back to where it was. But between the moment the last owner is dropped and the moment
  its deleter has got the lock, a request finds the entry without a valid pointer and fails, although the
  code says that this cannot happen; after the deleter the entry is gone.
\<close>

theorem shared_memory_lifecycle:
  assumes "ipcMemHandle_to_devptr s h = Some e"
  shows "(0 < ce_uses e \<longrightarrow> fst (getIpcDevPtr P h s) = Inr (cache_entry_ptr e) \<and> p_streams (snd (getIpcDevPtr P h s)) = p_streams s
      \<and> drop_owner h (snd (getIpcDevPtr P h s)) = (Inr (), s))
    \<and> (ce_uses e = 1 \<longrightarrow> fst (sx_seq (drop_owner h) (getIpcDevPtr P h) s) = Inl (InternalAssert ''entry in cache has missing shared_ptr''))
    \<and> wp (sx_seq (drop_owner h) (ipc_deleter P h)) (\<lambda>_ t. ipcMemHandle_to_devptr t h = None) (\<lambda>_ _. True) s"
  by (intro conjI impI cache_entry_facts [OF assms])

text \<open>A handle of an old version, opened once on the reference driver.\<close>

definition ref_opened :: "ref_state nca" where
  "ref_opened = snd (getIpcDevPtr ref_penv (BareHandle ''abc'') (ref_p0 8388608))"

lemma ref_opened_entry: "ipcMemHandle_to_devptr ref_opened (BareHandle ''abc'') = Some \<lparr>ce_device = 0, ce_segment = None, ce_ptr = 1, ce_uses = 1\<rparr>"
  by (simp add: ref_opened_def ipc_defs get_thread_device_def MemHandleCacheEntry_ctor_def open_body_def native_defs run_defs
      ref_rt_def GetDevice_def free_defs)

theorem shared_memory_lifecycle_witness:
  "fst (getIpcDevPtr ref_penv (BareHandle ''abc'') ref_opened) = Inr 1
    \<and> fst (sx_seq (drop_owner (BareHandle ''abc'')) (getIpcDevPtr ref_penv (BareHandle ''abc'')) ref_opened)
      = Inl (InternalAssert ''entry in cache has missing shared_ptr'')"
  using shared_memory_lifecycle [OF ref_opened_entry, of ref_penv] by (simp add: cache_entry_ptr_def)

end
