(* ===== verification/Handle_Pool.thy ===== *)
theory Handle_Pool
  imports Supa_Prelude
begin

text \<open>
  The pools of library handles of \<^verbatim>\<open>core/supa/DeviceThreadHandles.h\<close>: a thread that asks for a handle of a
  device gets one that no other thread has, reused from the pool if possible and created otherwise, and
  gives its handles back when it ends. The library behind the handles is a parameter: a function that
  creates a handle or throws. Threads are numbers, their windows a map.
\<close>

section \<open>The pool and the windows of the threads\<close>

record 'l hpool =
  hp_lib :: 'l
  created_handles :: "int \<Rightarrow> nat list"
  available_handles :: "int \<Rightarrow> nat list"
  parent_alive :: bool
  my_handles :: "nat \<Rightarrow> (int \<Rightarrow> nat option) option"

type_synonym 'l handle_ctor = "'l \<Rightarrow> (exn + nat) \<times> 'l"
type_synonym ('l, 'a) hx = "('l hpool, exn, 'a) sx"

definition DeviceThreadHandlePool_ctor :: "'l \<Rightarrow> 'l hpool" where
  "DeviceThreadHandlePool_ctor l = \<lparr>hp_lib = l, created_handles = \<lambda>_. [], available_handles = \<lambda>_. [], parent_alive = True,
     my_handles = \<lambda>_. None\<rparr>"

definition newPoolWindow :: "nat \<Rightarrow> ('l, unit) hx" where
  "newPoolWindow t = sx_mod (\<lambda>s. s\<lparr>my_handles := (my_handles s)(t \<mapsto> \<lambda>_. None)\<rparr>)"

text \<open>The window of the calling thread.\<close>

definition my_window :: "nat \<Rightarrow> ('l, int \<Rightarrow> nat option) hx" where
  "my_window t = sx_bind (sx_get (\<lambda>s. my_handles s t)) (\<lambda>w. case w of None \<Rightarrow> sx_throw UseAfterFree | Some w \<Rightarrow> sx_ret w)"

definition create_handle :: "'l handle_ctor \<Rightarrow> int \<Rightarrow> ('l, nat) hx" where
  "create_handle create device =
     sx_bind (sx_field hp_lib hp_lib_update create) (\<lambda>h.
     sx_seq (sx_mod (\<lambda>s. s\<lparr>created_handles := (created_handles s)(device := created_handles s device @ [h])\<rparr>)) (sx_ret h))"

definition take_available :: "int \<Rightarrow> ('l, nat) hx" where
  "take_available device =
     sx_bind (sx_get (\<lambda>s. available_handles s device)) (\<lambda>hs.
     sx_seq (sx_mod (\<lambda>s. s\<lparr>available_handles := (available_handles s)(device := butlast hs)\<rparr>)) (sx_ret (last hs)))"

definition reserve :: "'l handle_ctor \<Rightarrow> nat \<Rightarrow> int \<Rightarrow> ('l, nat) hx" where
  "reserve create t device =
     sx_bind (my_window t) (\<lambda>w. case w device of
       Some h \<Rightarrow> sx_ret h
     | None \<Rightarrow>
         sx_bind (sx_get (\<lambda>s. s)) (\<lambda>s.
         sx_seq (sx_check (parent_alive s) (TorchCheck ''Cannot create handle during program termination''))
         (sx_bind (if available_handles s device \<noteq> [] then take_available device else create_handle create device) (\<lambda>h.
          sx_seq (sx_mod (\<lambda>s. s\<lparr>my_handles := (my_handles s)(t \<mapsto> w(device \<mapsto> h))\<rparr>)) (sx_ret h)))))"

text \<open>The destructor of a window, at the end of its thread.\<close>

definition release :: "nat \<Rightarrow> ('l, unit) hx" where
  "release t =
     sx_bind (my_window t) (\<lambda>w.
     sx_seq (sx_mod (\<lambda>s. if parent_alive s
         then s\<lparr>available_handles := \<lambda>d. available_handles s d @ (case w d of None \<Rightarrow> [] | Some h \<Rightarrow> [h])\<rparr> else s))
     (sx_mod (\<lambda>s. s\<lparr>my_handles := (my_handles s)(t := None)\<rparr>)))"

section \<open>Histories\<close>

datatype hop = NewThread nat | Reserve nat int | EndThread nat | EndProcess

primrec run_hop :: "'l handle_ctor \<Rightarrow> hop \<Rightarrow> ('l, unit) hx" where
  "run_hop create (NewThread t) = newPoolWindow t"
| "run_hop create (Reserve t d) = sx_bind (reserve create t d) (\<lambda>_. sx_ret ())"
| "run_hop create (EndThread t) = release t"
| "run_hop create EndProcess = sx_mod (\<lambda>s. s\<lparr>parent_alive := False\<rparr>)"

fun hop_ok :: "hop \<Rightarrow> 'l hpool \<Rightarrow> bool" where
  "hop_ok (NewThread t) s = (my_handles s t = None)"
| "hop_ok (Reserve t d) s = (my_handles s t \<noteq> None)"
| "hop_ok (EndThread t) s = (my_handles s t \<noteq> None)"
| "hop_ok EndProcess s = True"

text \<open>The threads that have a handle of a device; a history keeps the largest number there has been.\<close>

definition active :: "'l hpool \<Rightarrow> int \<Rightarrow> nat set" where
  "active s d = {t. \<exists>w. my_handles s t = Some w \<and> w d \<noteq> None}"

inductive handles_reach :: "'l handle_ctor \<Rightarrow> 'l \<Rightarrow> 'l hpool \<Rightarrow> (int \<Rightarrow> nat) \<Rightarrow> bool" for create l where
  handles_start: "handles_reach create l (DeviceThreadHandlePool_ctor l) (\<lambda>_. 0)"
| handles_step: "handles_reach create l s hw \<Longrightarrow> hop_ok q s \<Longrightarrow> run_hop create q s = (r, t) \<Longrightarrow>
    handles_reach create l t (\<lambda>d. max (hw d) (card (active t d)))"

text \<open>What the libraries document: a handle that is created is none of the existing ones.\<close>

definition creates_fresh :: "'l handle_ctor \<Rightarrow> ('l \<Rightarrow> nat set) \<Rightarrow> bool" where
  "creates_fresh create ex \<longleftrightarrow> (\<forall>l r l'. create l = (r, l') \<longrightarrow>
     (case r of Inl e \<Rightarrow> ex l' = ex l | Inr h \<Rightarrow> h \<notin> ex l \<and> ex l' = insert h (ex l)))"

text \<open>The invariant, for one device.\<close>

definition dev_ok :: "bool \<Rightarrow> nat set \<Rightarrow> (nat \<Rightarrow> nat option) \<Rightarrow> nat list \<Rightarrow> nat list \<Rightarrow> nat \<Rightarrow> bool" where
  "dev_ok alive ex W cr av hw \<longleftrightarrow> finite (dom W) \<and> inj_on W (dom W) \<and> distinct cr \<and> distinct av \<and> set av \<inter> ran W = {}
     \<and> set av \<union> ran W \<subseteq> set cr \<and> (alive \<longrightarrow> set cr = set av \<union> ran W) \<and> set cr \<subseteq> ex \<and> length cr = hw"

definition handle_row :: "'l hpool \<Rightarrow> int \<Rightarrow> nat \<Rightarrow> nat option" where
  "handle_row s d t = (case my_handles s t of None \<Rightarrow> None | Some w \<Rightarrow> w d)"

lemma handle_row_cong: "my_handles u = my_handles s \<Longrightarrow> handle_row u = handle_row s"
  by (auto simp: handle_row_def fun_eq_iff)

lemma active_row: "active s d = dom (handle_row s d)"
  by (auto simp: active_def handle_row_def split: option.splits)

lemma dev_ok_card:
  assumes "dev_ok alive ex W cr av hw"
  shows "card (dom W) = card (ran W)" and "card (dom W) \<le> hw" and "alive \<Longrightarrow> hw = length av + card (dom W)"
proof -
  note d = assms [unfolded dev_ok_def]
  have "ran W = the ` W ` dom W" by (auto simp: ran_def image_iff dom_def) (metis option.sel)
  moreover have "inj_on (the \<circ> W) (dom W)"
    using d unfolding inj_on_def by (metis comp_apply domIff option.expand)
  ultimately show c: "card (dom W) = card (ran W)" by (metis card_image image_comp)
  have l: "hw = card (set cr)" using d by (simp add: distinct_card)
  show "card (dom W) \<le> hw" unfolding c l using d by (intro card_mono) auto
  show "hw = length av + card (dom W)" if alive
  proof -
    have "finite (ran W)" using d finite_subset [of "ran W" "set cr"] by auto
    then show ?thesis using d that l c by (simp add: card_Un_disjoint distinct_card)
  qed
qed

lemma inj_insert:
  assumes "inj_on W (dom W)" and "t \<notin> dom W" and "h \<notin> ran W"
  shows "inj_on (W(t \<mapsto> h)) (dom (W(t \<mapsto> h)))"
  using assms unfolding inj_on_def by (auto simp: ran_def split: if_splits)

lemma dev_ok_take:
  assumes d: "dev_ok True ex W cr (av @ [h]) hw" and t: "t \<notin> dom W"
  shows "dev_ok True ex (W(t \<mapsto> h)) cr av hw" and "card (dom (W(t \<mapsto> h))) \<le> hw"
proof -
  have r: "ran (W(t \<mapsto> h)) = insert h (ran W)" using t by (simp add: domIff)
  show k: "dev_ok True ex (W(t \<mapsto> h)) cr av hw"
    using d inj_insert [of W t h] t unfolding dev_ok_def r by auto
  show "card (dom (W(t \<mapsto> h))) \<le> hw" by (rule dev_ok_card(2) [OF k])
qed

lemma dev_ok_create:
  assumes d: "dev_ok True ex W cr [] hw" and t: "t \<notin> dom W" and h: "h \<notin> ex"
  shows "dev_ok True (insert h ex) (W(t \<mapsto> h)) (cr @ [h]) [] (Suc hw)" and "card (dom (W(t \<mapsto> h))) = Suc hw"
proof -
  have r: "ran (W(t \<mapsto> h)) = insert h (ran W)" using t by (simp add: domIff)
  show "dev_ok True (insert h ex) (W(t \<mapsto> h)) (cr @ [h]) [] (Suc hw)"
    using d inj_insert [of W t h] t h unfolding dev_ok_def r by auto
  have "finite (dom W)" using d by (simp add: dev_ok_def)
  then show "card (dom (W(t \<mapsto> h))) = Suc hw" using dev_ok_card(3) [OF d] t by simp
qed

lemma dev_ok_drop:
  assumes d: "dev_ok alive ex W cr av hw"
  shows "dev_ok alive ex (W(t := None)) cr (if alive then av @ (case W t of None \<Rightarrow> [] | Some h \<Rightarrow> [h]) else av) hw"
proof (cases "W t")
  case None
  then show ?thesis using d by (cases alive) (simp_all add: fun_upd_idem)
next
  case (Some h)
  have "h \<notin> ran (W(t := None))" using d Some by (auto simp: dev_ok_def ran_def inj_on_def dom_def split: if_splits)
  moreover have "ran W = insert h (ran (W(t := None)))" using Some by (auto simp: ran_def split: if_splits) (metis option.inject)
  moreover have "inj_on (W(t := None)) (dom (W(t := None)))" using d by (auto simp: dev_ok_def inj_on_def dom_def)
  ultimately show ?thesis using d Some by (auto simp: dev_ok_def)
qed

section \<open>All devices\<close>

definition handles_ok :: "('l \<Rightarrow> nat set) \<Rightarrow> (int \<Rightarrow> nat) \<Rightarrow> 'l hpool \<Rightarrow> bool" where
  "handles_ok ex hw s \<longleftrightarrow> (\<forall>d. dev_ok (parent_alive s) (ex (hp_lib s)) (handle_row s d) (created_handles s d) (available_handles s d) (hw d))"

abbreviation raised :: "(int \<Rightarrow> nat) \<Rightarrow> 'l hpool \<Rightarrow> int \<Rightarrow> nat" where
  "raised hw t \<equiv> \<lambda>d. max (hw d) (card (active t d))"

lemma handles_ok_same:
  assumes "handles_ok ex hw t"
  shows "handles_ok ex (raised hw t) t"
proof -
  have "card (active t d) \<le> hw d" for d using assms dev_ok_card(2) unfolding handles_ok_def active_row by blast
  then have "raised hw t = hw" by (simp add: fun_eq_iff max_absorb1)
  then show ?thesis using assms by simp
qed

lemma handle_row_upd: "handle_row (s\<lparr>my_handles := (my_handles s)(t \<mapsto> w)\<rparr>) d = (handle_row s d)(t := w d)"
  by (auto simp: handle_row_def fun_eq_iff)

lemma dev_ok_mono: "dev_ok alive ex W cr av hw \<Longrightarrow> ex \<subseteq> ex' \<Longrightarrow> dev_ok alive ex' W cr av hw"
  by (auto simp: dev_ok_def)

lemma reserve_ok:
  assumes F: "creates_fresh create ex" and I: "handles_ok ex hw s" and w: "my_handles s t = Some w"
    and r: "reserve create t d s = (r, u)"
  shows "handles_ok ex (raised hw u) u" and "r = Inr h \<Longrightarrow> \<exists>w'. my_handles u t = Some w' \<and> w' d = Some h"
proof -
  have "handles_ok ex (raised hw u) u \<and> (\<forall>h. r = Inr h \<longrightarrow> (\<exists>w'. my_handles u t = Some w' \<and> w' d = Some h))"
  proof (cases "w d = None \<and> parent_alive s")
    case False
    then have "u = s \<and> (\<forall>h. r = Inr h \<longrightarrow> w d = Some h)"
      using r w by (auto simp: reserve_def my_window_def sx_defs split: option.splits if_splits)
    then show ?thesis using handles_ok_same [OF I] w by auto
  next
    case True
    then have wd: "w d = None" and al: "parent_alive s" by auto
    have D: "dev_ok True (ex (hp_lib s)) (handle_row s e) (created_handles s e) (available_handles s e) (hw e)" for e
      using I al by (simp add: handles_ok_def)
    have td: "t \<notin> dom (handle_row s d)" using w wd by (simp add: handle_row_def domIff)
    have col: "handle_row (s\<lparr>hp_lib := l, created_handles := cr, available_handles := av, my_handles := (my_handles s)(t \<mapsto> w(d \<mapsto> h))\<rparr>) e
        = (if e = d then (handle_row s d)(t \<mapsto> h) else handle_row s e)" for l cr av h e
      using w by (auto simp: handle_row_def fun_eq_iff)
    show ?thesis
    proof (cases "available_handles s d = []")
      case False
      define h where "h = last (available_handles s d)"
      define v where "v = butlast (available_handles s d)"
      have a: "available_handles s d = v @ [h]" using False by (simp add: h_def v_def)
      have u: "r = Inr h" "u = s\<lparr>available_handles := (available_handles s)(d := v), my_handles := (my_handles s)(t \<mapsto> w(d \<mapsto> h))\<rparr>"
        using r w wd al False by (auto simp: reserve_def my_window_def take_available_def sx_defs h_def v_def)
      have c: "handle_row u e = (if e = d then (handle_row s d)(t \<mapsto> h) else handle_row s e)" for e
        using col [where l = "hp_lib s" and cr = "created_handles s" and av = "(available_handles s)(d := v)" and h = h and e = e] by (simp add: u(2))
      have "handles_ok ex hw u"
        using D dev_ok_take(1) [OF D [of d, unfolded a] td] al unfolding handles_ok_def c by (simp add: u(2))
      then show ?thesis using handles_ok_same u by auto
    next
      case True
      obtain q l where cr: "create (hp_lib s) = (q, l)" by fastforce
      show ?thesis
      proof (cases q)
        case (Inl e)
        have u: "r = Inl e" "u = s\<lparr>hp_lib := l\<rparr>"
          using r w wd al True cr Inl by (auto simp: reserve_def my_window_def create_handle_def sx_field_def sx_defs)
        have "ex l = ex (hp_lib s)" using F cr Inl unfolding creates_fresh_def by fastforce
        then have "handles_ok ex hw u" using I handle_row_cong [of u s] by (simp add: handles_ok_def u(2))
        then show ?thesis using handles_ok_same u by auto
      next
        case (Inr h)
        have u: "r = Inr h" "u = s\<lparr>hp_lib := l, created_handles := (created_handles s)(d := created_handles s d @ [h]),
            my_handles := (my_handles s)(t \<mapsto> w(d \<mapsto> h))\<rparr>"
          using r w wd al True cr Inr by (auto simp: reserve_def my_window_def create_handle_def sx_field_def sx_defs)
        have fr: "h \<notin> ex (hp_lib s)" "ex l = insert h (ex (hp_lib s))" using F cr Inr unfolding creates_fresh_def by fastforce+
        have c: "handle_row u e = (if e = d then (handle_row s d)(t \<mapsto> h) else handle_row s e)" for e
          using col [where l = l and cr = "(created_handles s)(d := created_handles s d @ [h])" and av = "available_handles s" and h = h and e = e] by (simp add: u(2))
        note new = dev_ok_create [OF D [of d, unfolded True] td fr(1)]
        have hw: "raised hw u e = (if e = d then Suc (hw d) else hw e)" for e
          using new(2) dev_ok_card(2) [OF D [of e]] unfolding active_row c by (auto simp: max_def)
        have "handles_ok ex (raised hw u) u"
          unfolding handles_ok_def hw c
          using new(1) dev_ok_mono [OF D, of "ex l"] al True fr(2) by (simp add: u(2)) blast
        then show ?thesis using u by simp
      qed
    qed
  qed
  then show "handles_ok ex (raised hw u) u" and "r = Inr h \<Longrightarrow> \<exists>w'. my_handles u t = Some w' \<and> w' d = Some h" by auto
qed

lemma release_ok:
  assumes I: "handles_ok ex hw s" and w: "my_handles s t = Some w" and r: "release t s = (r, u)"
  shows "handles_ok ex (raised hw u) u"
proof (rule handles_ok_same)
  let ?av = "\<lambda>d. if parent_alive s then available_handles s d @ (case w d of None \<Rightarrow> [] | Some h \<Rightarrow> [h]) else available_handles s d"
  have u: "u = s\<lparr>available_handles := ?av, my_handles := (my_handles s)(t := None)\<rparr>"
    using r w by (auto simp: release_def my_window_def sx_defs)
  have wd: "handle_row s d t = w d" for d using w by (simp add: handle_row_def)
  have c: "handle_row u d = (handle_row s d)(t := None)" for d
    by (auto simp: u handle_row_def fun_eq_iff)
  show "handles_ok ex hw u"
    unfolding handles_ok_def c
  proof
    fix d
    have "dev_ok (parent_alive s) (ex (hp_lib s)) (handle_row s d) (created_handles s d) (available_handles s d) (hw d)"
      using I by (simp add: handles_ok_def)
    from dev_ok_drop [OF this, of t, unfolded wd]
    show "dev_ok (parent_alive u) (ex (hp_lib u)) ((handle_row s d)(t := None)) (created_handles u d) (available_handles u d) (hw d)"
      by (simp add: u)
  qed
qed

lemma run_hop_ok:
  assumes F: "creates_fresh create ex" and I: "handles_ok ex hw s" and q: "hop_ok q s" and r: "run_hop create q s = (r, u)"
  shows "handles_ok ex (raised hw u) u"
proof (cases q)
  case NT: (NewThread t)
  then have u: "u = s\<lparr>my_handles := (my_handles s)(t \<mapsto> \<lambda>_. None)\<rparr>" and "my_handles s t = None"
    using r q by (auto simp: newPoolWindow_def sx_defs)
  have "handle_row u d x = handle_row s d x" for d x using \<open>my_handles s t = None\<close> by (cases "x = t") (simp_all add: u handle_row_def)
  then have "handle_row u = handle_row s" by (simp add: fun_eq_iff)
  then have "handles_ok ex hw u" using I by (simp add: handles_ok_def u)
  then show ?thesis by (rule handles_ok_same)
next
  case (Reserve t d)
  then obtain w where w: "my_handles s t = Some w" using q by auto
  obtain r' u' where u': "reserve create t d s = (r', u')" by fastforce
  then have "u' = u" using r by (cases r') (simp_all add: Reserve sx_bind_def sx_ret_def)
  then show ?thesis using reserve_ok(1) [OF F I w u'] by simp
next
  case (EndThread t)
  then obtain w where w: "my_handles s t = Some w" using q by auto
  have "release t s = (r, u)" using r EndThread by simp
  from release_ok [OF I w this] show ?thesis .
next
  case EndProcess
  then have u: "u = s\<lparr>parent_alive := False\<rparr>" using r by (auto simp: sx_defs)
  have "handle_row u = handle_row s" by (rule handle_row_cong) (simp add: u)
  then have "handles_ok ex hw u" using I by (simp add: handles_ok_def dev_ok_def u)
  then show ?thesis by (rule handles_ok_same)
qed

lemma handles_reach_ok:
  assumes F: "creates_fresh create ex" and "handles_reach create l s hw"
  shows "handles_ok ex hw s"
  using assms(2)
proof (induction rule: handles_reach.induct)
  case handles_start
  have "handle_row (DeviceThreadHandlePool_ctor l) d = (\<lambda>_. None)" for d by (auto simp: DeviceThreadHandlePool_ctor_def handle_row_def)
  then show ?case by (simp add: handles_ok_def dev_ok_def DeviceThreadHandlePool_ctor_def)
next
  case (handles_step s hw q r t)
  show ?case by (rule run_hop_ok [OF F handles_step.IH handles_step.hyps(2,3)])
qed

section \<open>Property\<close>

lemma handle_facts:
  assumes "creates_fresh create ex" and "handles_reach create l s hw"
  shows "length (created_handles s d) = hw d"
    and "\<And>t t' w w' h. my_handles s t = Some w \<Longrightarrow> my_handles s t' = Some w' \<Longrightarrow> w d = Some h \<Longrightarrow> w' d = Some h \<Longrightarrow> t = t'"
    and "\<And>t w h u. my_handles s t = Some w \<Longrightarrow> reserve create t d s = (Inr h, u) \<Longrightarrow> \<exists>w'. my_handles u t = Some w' \<and> w' d = Some h"
proof -
  have P: "handles_ok ex hw s" by (rule handles_reach_ok [OF assms])
  then have D: "dev_ok (parent_alive s) (ex (hp_lib s)) (handle_row s d) (created_handles s d) (available_handles s d) (hw d)"
    by (simp add: handles_ok_def)
  then show "length (created_handles s d) = hw d" by (simp add: dev_ok_def)
  show "t = t'" if "my_handles s t = Some w" "my_handles s t' = Some w'" "w d = Some h" "w' d = Some h" for t t' w w' h
  proof -
    have "handle_row s d t = Some h" "handle_row s d t' = Some h" using that by (simp_all add: handle_row_def)
    then show ?thesis using D unfolding dev_ok_def inj_on_def by (metis domI)
  qed
  show "\<exists>w'. my_handles u t = Some w' \<and> w' d = Some h" if "my_handles s t = Some w" "reserve create t d s = (Inr h, u)" for t w h u
    using reserve_ok(2) [OF assms(1) P that] by blast
qed

text \<open>
  C37: for every device, the pool has created exactly as many handles as there were threads with a
  handle of the device at the busiest moment of the history; no handle belongs to two threads, and a
  thread that asks for a handle gets the one its window keeps.
\<close>

theorem handles_high_water:
  assumes "creates_fresh create ex" and "handles_reach create l s hw"
  shows "length (created_handles s d) = hw d
    \<and> (\<forall>t t' w w' h. my_handles s t = Some w \<longrightarrow> my_handles s t' = Some w' \<longrightarrow> w d = Some h \<longrightarrow> w' d = Some h \<longrightarrow> t = t')
    \<and> (\<forall>t w h u. my_handles s t = Some w \<longrightarrow> reserve create t d s = (Inr h, u) \<longrightarrow> (\<exists>w'. my_handles u t = Some w' \<and> w' d = Some h))"
  using handle_facts [OF assms] by blast

text \<open>Two threads one after the other: the second reuses the handle of the first.\<close>

definition count_handles :: "nat handle_ctor" where
  "count_handles n = (Inr n, Suc n)"

lemma count_fresh: "creates_fresh count_handles (\<lambda>n. {..< n})"
  by (auto simp: creates_fresh_def count_handles_def)

definition ref_pool :: "nat hpool" where
  "ref_pool = snd (sx_seq (run_hop count_handles (NewThread 1)) (sx_seq (run_hop count_handles (Reserve 1 0))
     (sx_seq (run_hop count_handles (EndThread 1)) (sx_seq (run_hop count_handles (NewThread 2)) (run_hop count_handles (Reserve 2 0)))))
     (DeviceThreadHandlePool_ctor 5))"

lemma ref_pool_run: "ref_pool = \<lparr>hp_lib = 6, created_handles = (\<lambda>_. [])(0 := [5]), available_handles = \<lambda>_. [], parent_alive = True,
    my_handles = (\<lambda>_. None)(2 \<mapsto> [0 \<mapsto> 5])\<rparr>"
  by (auto simp: ref_pool_def sx_defs newPoolWindow_def reserve_def release_def my_window_def take_available_def create_handle_def
      sx_field_def count_handles_def DeviceThreadHandlePool_ctor_def fun_eq_iff)

lemma ref_pool_reach: "\<exists>hw. handles_reach count_handles 5 ref_pool hw"
proof -
  have step: "\<exists>hw'. handles_reach count_handles 5 (snd (run_hop count_handles q s)) hw'"
    if "\<exists>hw. handles_reach count_handles 5 s hw" "hop_ok q s" for q s
    using that handles_step [of count_handles 5 s _ q] by (metis prod.collapse)
  note defs = newPoolWindow_def reserve_def release_def my_window_def take_available_def create_handle_def sx_field_def
    count_handles_def DeviceThreadHandlePool_ctor_def
  define s0 where "s0 = (DeviceThreadHandlePool_ctor 5 :: nat hpool)"
  define s1 where "s1 = snd (run_hop count_handles (NewThread 1) s0)"
  define s2 where "s2 = snd (run_hop count_handles (Reserve 1 0) s1)"
  define s3 where "s3 = snd (run_hop count_handles (EndThread 1) s2)"
  define s4 where "s4 = snd (run_hop count_handles (NewThread 2) s3)"
  have "\<exists>hw. handles_reach count_handles 5 s0 hw" unfolding s0_def by (rule exI, rule handles_start)
  then have "\<exists>hw. handles_reach count_handles 5 s1 hw" unfolding s1_def by (rule step) (simp add: s0_def defs)
  then have "\<exists>hw. handles_reach count_handles 5 s2 hw" unfolding s2_def by (rule step) (simp add: s1_def s0_def defs sx_defs)
  then have "\<exists>hw. handles_reach count_handles 5 s3 hw" unfolding s3_def by (rule step) (simp add: s2_def s1_def s0_def defs sx_defs)
  then have "\<exists>hw. handles_reach count_handles 5 s4 hw" unfolding s4_def by (rule step) (simp add: s3_def s2_def s1_def s0_def defs sx_defs)
  then have "\<exists>hw. handles_reach count_handles 5 (snd (run_hop count_handles (Reserve 2 0) s4)) hw"
    by (rule step) (simp add: s4_def s3_def s2_def s1_def s0_def defs sx_defs)
  moreover have "snd (run_hop count_handles (Reserve 2 0) s4) = ref_pool"
    by (simp add: ref_pool_def s4_def s3_def s2_def s1_def s0_def defs sx_defs)
  ultimately show ?thesis by simp
qed

theorem handles_high_water_witness:
  "\<exists>hw. handles_reach count_handles 5 ref_pool hw \<and> hw 0 = 1 \<and> created_handles ref_pool 0 = [5]"
proof -
  obtain hw where hw: "handles_reach count_handles 5 ref_pool hw" using ref_pool_reach by blast
  have "length (created_handles ref_pool 0) = hw 0" by (rule handles_high_water [OF count_fresh hw, THEN conjunct1])
  then show ?thesis using hw by (auto simp: ref_pool_run)
qed

end
