(* ===== verification/Host_Allocator.thy ===== *)
theory Host_Allocator
  imports Supa_Event Alloc_Config Ordered_Set
begin

text \<open>
  The allocator of pinned host memory, \<^verbatim>\<open>core/supa/CachingHostAllocator.cpp\<close>: a list of free blocks
  ordered by size, a queue of pending events that hold blocks back until the streams that used them are
  done, and two ways of pinning memory, by the driver and by registering memory of \<^verbatim>\<open>malloc\<close>. Block
  objects live in a store, so that a use of a deleted block is the outcome \<open>UseAfterFree\<close>. The locks are
  not modelled: every operation runs to its end on one state. Hash sets are lists in insertion order.
\<close>

unbundle bit_operations_syntax

section \<open>The libraries\<close>

text \<open>
  The functions for host memory. \<open>new_address\<close> is what \<^verbatim>\<open>new\<close> returns when the given objects exist, and
  \<open>task_order\<close> the order in which the thread pool runs the tasks of a job.
\<close>

record 'd hrt =
  supaHostAlloc :: "nat \<Rightarrow> ('d, nat) drv_out"
  supaFreeHost :: "nat \<Rightarrow> 'd drv_call"
  supaHostRegister :: "nat \<Rightarrow> nat \<Rightarrow> 'd drv_call"
  supaHostUnregister :: "nat \<Rightarrow> 'd drv_call"
  supaHostGetDevicePointer :: "nat \<Rightarrow> ('d, nat) drv_out"
  supaPointerIsHost :: "nat \<Rightarrow> ('d, bool) drv_out"
  std_malloc :: "nat \<Rightarrow> 'd \<Rightarrow> nat \<times> 'd"
  std_free :: "nat \<Rightarrow> 'd \<Rightarrow> 'd"
  PowerOf2Ceil :: "nat \<Rightarrow> nat"
  new_address :: "nat set \<Rightarrow> nat"
  task_order :: "nat \<Rightarrow> nat list"

section \<open>The state\<close>

record HBlock =
  hb_size :: nat
  hb_ptr :: nat
  hb_allocated :: bool
  hb_event_count :: int
  hb_streams :: "SUPAStream list"

text \<open>An event of the pool with the device of its pool.\<close>

type_synonym pooled_event = "int \<times> SUPAEvent"

text \<open>
  The events come from a pool in a static variable; the allocator has a second pool as a member. The
  field \<open>written\<close> lists the addresses that were written in order to map their pages. The deque of
  pending events has its front first.
\<close>

record 'd hosts =
  ho_streams :: "'d strm"
  ho_heap :: "nat \<Rightarrow> HBlock option"
  ho_blocks :: "nat set"
  ptr_to_block :: "nat \<Rightarrow> nat option"
  free_list :: "nat list"
  supa_events :: "(pooled_event \<times> nat) list"
  static_event_pool :: "int \<Rightarrow> SUPAEvent list"
  event_pool :: "int \<Rightarrow> SUPAEvent list"
  written :: "nat list"

type_synonym ('d, 'a) hox = "('d hosts, exn, 'a) sx"

definition SUPAHostAllocator_ctor :: "'d strm \<Rightarrow> 'd hosts" where
  "SUPAHostAllocator_ctor st = \<lparr>ho_streams = st, ho_heap = \<lambda>_. None, ho_blocks = {}, ptr_to_block = \<lambda>_. None, free_list = [],
     supa_events = [], static_event_pool = \<lambda>_. [], event_pool = \<lambda>_. [], written = []\<rparr>"

abbreviation on_how :: "('d, 'a) wx \<Rightarrow> ('d, 'a) hox" where
  "on_how m \<equiv> sx_field ho_streams ho_streams_update (on_stw m)"

abbreviation ho_guard :: "'d driver \<Rightarrow> int \<Rightarrow> ('d, 'a) hox \<Rightarrow> ('d, 'a) hox" where
  "ho_guard \<equiv> guarded (\<lambda>s. st_world (ho_streams s)) (\<lambda>f. ho_streams_update (st_world_update f))"

definition hderef :: "nat \<Rightarrow> ('d, HBlock) hox" where
  "hderef b = sx_bind (sx_get ho_heap) (\<lambda>h. case h b of None \<Rightarrow> sx_throw UseAfterFree | Some x \<Rightarrow> sx_ret x)"

definition set_hblock :: "nat \<Rightarrow> (HBlock \<Rightarrow> HBlock) \<Rightarrow> ('d, unit) hox" where
  "set_hblock b f = sx_bind (hderef b) (\<lambda>x. sx_mod (\<lambda>s. s\<lparr>ho_heap := (ho_heap s)(b \<mapsto> f x)\<rparr>))"

text \<open>A clean-up that runs when the computation throws.\<close>

definition sx_onthrow :: "('s, 'e, 'a) sx \<Rightarrow> ('s, 'e, unit) sx \<Rightarrow> ('s, 'e, 'a) sx" where
  "sx_onthrow m c = (\<lambda>s. case m s of (Inr x, t) \<Rightarrow> (Inr x, t)
     | (Inl e, t) \<Rightarrow> (case c t of (Inl e', u) \<Rightarrow> (Inl e', u) | (Inr _, u) \<Rightarrow> (Inl e, u)))"

lemma wp_onthrow [simp, wp_simps]: "wp (sx_onthrow m c) Q E = wp m Q (\<lambda>e. wp c (\<lambda>_. E e) E)"
  by (intro ext) (simp add: sx_onthrow_def wp_def split: prod.splits sum.splits)

section \<open>The event pool\<close>

text \<open>An operation on an event object that somebody owns: it returns the object, also when it throws.\<close>

definition on_event :: "SUPAEvent \<Rightarrow> ('d, 'a) evx \<Rightarrow> ('d, (exn + 'a) \<times> SUPAEvent) hox" where
  "on_event x m = (\<lambda>s. case m (x, ho_streams s) of (r, y, st) \<Rightarrow> (Inr (r, y), s\<lparr>ho_streams := st\<rparr>))"

definition hEventPool_get :: "'d driver \<Rightarrow> int \<Rightarrow> ('d, SUPAEvent) hox" where
  "hEventPool_get D device =
     sx_seq (sx_check (0 \<le> device) (InternalAssert ''0 <= device''))
     (sx_seq (sx_check (device < device_count D) (InternalAssert ''device < pools_.size()''))
     (sx_bind (sx_get (\<lambda>s. static_event_pool s device)) (\<lambda>es.
      if es \<noteq> []
      then sx_seq (sx_mod (\<lambda>s. s\<lparr>static_event_pool := (static_event_pool s)(device := butlast es)\<rparr>)) (sx_ret (last es))
      else sx_ret (SUPAEvent_ctor supaEventDisableTiming))))"

text \<open>The deleter of a pooled event.\<close>

definition hEvent_release :: "pooled_event \<Rightarrow> ('d, unit) hox" where
  "hEvent_release e = sx_mod (\<lambda>s. s\<lparr>static_event_pool :=
     (static_event_pool s)(fst e := static_event_pool s (fst e) @ [snd e])\<rparr>)"

text \<open>\<^verbatim>\<open>empty_cache\<close> of the member pool; the static pool is never emptied.\<close>

definition hEventPool_empty_cache :: "'d driver \<Rightarrow> 'd rt \<Rightarrow> ('d, unit) hox" where
  "hEventPool_empty_cache D R = sx_for [0 .. device_count D - 1] (\<lambda>i.
     sx_bind (sx_get (\<lambda>s. event_pool s i)) (\<lambda>es.
     sx_seq (sx_for es (\<lambda>x. sx_bind (on_event x (SUPAEvent_dtor D R)) (\<lambda>_. sx_ret ())))
     (sx_mod (\<lambda>s. s\<lparr>event_pool := (event_pool s)(i := [])\<rparr>))))"

section \<open>The list of free blocks\<close>

definition BlockComparator :: "nat \<times> nat \<Rightarrow> nat \<times> nat \<Rightarrow> bool" where
  "BlockComparator a b = (if fst a \<noteq> fst b then fst a < fst b else snd a < snd b)"

interpretation by_host_size: weak_order BlockComparator
  by unfold_locales (auto simp: BlockComparator_def split: if_splits)

definition hkey :: "(nat \<Rightarrow> HBlock option) \<Rightarrow> nat \<Rightarrow> nat \<times> nat" where
  "hkey h b = (case h b of None \<Rightarrow> (0, 0) | Some x \<Rightarrow> (hb_size x, hb_ptr x))"

definition free_list_insert :: "nat \<Rightarrow> ('d, unit) hox" where
  "free_list_insert b = sx_bind (hderef b) (\<lambda>_.
     sx_mod (\<lambda>s. s\<lparr>free_list := set_insert BlockComparator (hkey (ho_heap s)) b (free_list s)\<rparr>))"

section \<open>Processing events\<close>

definition query_event :: "'d driver \<Rightarrow> SUPAEvent \<Rightarrow> ('d, bool) hox" where
  "query_event D x =
     sx_bind (on_how (drv_call (supaEventQuery D (event x)))) (\<lambda>err.
     if err = supaErrorNotReady then sx_bind (on_how (drv_call (supaGetLastError D))) (\<lambda>_. sx_ret False)
     else sx_seq (sx_when (err \<noteq> supaSuccess) (check_err err)) (sx_ret True))"

text \<open>A processed event: its block gets free when it was the last one.\<close>

definition finish_event :: "nat \<Rightarrow> ('d, unit) hox" where
  "finish_event b =
     sx_bind (hderef b) (\<lambda>x.
     sx_seq (sx_check (\<not> hb_allocated x) (InternalAssert ''!block->allocated_''))
     (sx_seq (set_hblock b (\<lambda>x. x\<lparr>hb_event_count := hb_event_count x - 1\<rparr>))
     (sx_when (hb_event_count x - 1 = 0) (free_list_insert b))))"

text \<open>
  The loop of \<^verbatim>\<open>process_events_for_specific_size\<close>. A size of \<open>-1\<close> processes the events from the oldest
  one on and stops at the first that is not ready; another size looks at the blocks of that size only.
\<close>

primrec events_loop :: "'d driver \<Rightarrow> int \<Rightarrow> nat \<Rightarrow> nat \<Rightarrow> nat \<Rightarrow> ('d, unit) hox" where
  "events_loop D sz max_events 0 event_count = sx_throw LoopBound"
| "events_loop D sz max_events (Suc fuel) event_count =
     sx_bind (sx_get supa_events) (\<lambda>q.
     if q = [] then sx_ret ()
     else case last q of (e, b) \<Rightarrow>
       sx_seq (sx_mod (\<lambda>s. s\<lparr>supa_events := butlast q\<rparr>))
       (let push_front = sx_mod (\<lambda>s. s\<lparr>supa_events := (e, b) # supa_events s\<rparr>);
            next_count = (if sz \<noteq> -1 then Suc event_count else event_count);
            continue = events_loop D sz max_events fuel next_count in
        if sz \<noteq> -1 \<and> event_count > max_events then push_front
        else sx_bind (if sz \<noteq> -1 then sx_bind (hderef b) (\<lambda>x. sx_ret (sz \<noteq> int (hb_size x))) else sx_ret False) (\<lambda>other_size.
          if other_size then sx_seq push_front continue
          else sx_bind (sx_onthrow (query_event D (snd e)) (hEvent_release e)) (\<lambda>ready.
            if \<not> ready then
              if sz = -1 then sx_mod (\<lambda>s. s\<lparr>supa_events := supa_events s @ [(e, b)]\<rparr>)
              else sx_seq push_front continue
            else sx_seq (sx_finally (finish_event b) (hEvent_release e)) continue))))"

definition process_events_for_specific_size :: "'d driver \<Rightarrow> int \<Rightarrow> ('d, unit) hox" where
  "process_events_for_specific_size D sz =
     sx_bind (sx_get (\<lambda>s. length (supa_events s))) (\<lambda>max_events. events_loop D sz max_events (max_events + 3) 0)"

definition host_process_events :: "'d driver \<Rightarrow> ('d, unit) hox" where
  "host_process_events D = process_events_for_specific_size D (-1)"

section \<open>Registered memory\<close>

text \<open>A write of one byte; writing to the null page ends the process.\<close>

definition touch :: "nat \<Rightarrow> ('d, unit) hox" where
  "touch p = sx_seq (sx_check (p \<noteq> 0) UseAfterFree) (sx_mod (\<lambda>s. s\<lparr>written := written s @ [p]\<rparr>))"

text \<open>The loop over the pages of an interval, with 64-bit addresses.\<close>

primrec page_loop :: "nat \<Rightarrow> nat \<Rightarrow> nat \<Rightarrow> nat \<Rightarrow> ('d, unit) hox" where
  "page_loop 0 p stop pageSize = sx_throw LoopBound"
| "page_loop (Suc fuel) p stop pageSize =
     (if p < stop then sx_seq (touch p) (page_loop fuel ((p + pageSize) mod 2 ^ 64) stop pageSize) else sx_ret ())"

definition align_up :: "nat \<Rightarrow> nat \<Rightarrow> nat" where
  "align_up start pageSize = unat ((of_nat (start + pageSize - 1) :: 64 word) AND NOT (of_nat (pageSize - 1)))"

definition map_bounds :: "nat \<Rightarrow> nat \<Rightarrow> nat \<Rightarrow> nat \<Rightarrow> nat \<times> nat" where
  "map_bounds ptr sz i numThreads =
     (let start = (ptr + sz * i mod 2 ^ 64 div numThreads) mod 2 ^ 64;
          stop = (start + sz div numThreads) mod 2 ^ 64 in
      (start, if i = numThreads - 1 then (ptr + sz) mod 2 ^ 64 else stop))"

definition mapPagesForRegister :: "nat \<Rightarrow> nat \<Rightarrow> nat \<Rightarrow> nat \<Rightarrow> nat \<Rightarrow> ('d, unit) hox" where
  "mapPagesForRegister ptr sz i numThreads pageSize =
     (case map_bounds ptr sz i numThreads of (start, stop) \<Rightarrow>
        page_loop (sz div pageSize + 2) (align_up start pageSize) stop pageSize)"

definition registerPages :: "'d hrt \<Rightarrow> nat \<Rightarrow> nat \<Rightarrow> ('d, unit) hox" where
  "registerPages H ptr sz =
     sx_seq (on_how (supa_check (supaHostRegister H ptr sz)))
     (sx_bind (on_how (supa_check_out (supaHostGetDevicePointer H ptr))) (\<lambda>devptr.
      sx_check (devptr = ptr) (TorchCheck ''Host and device pointer dont match with supaHostRegister'')))"

definition kPageSize :: nat where
  "kPageSize = 4096"

definition map_pages :: "'d hrt \<Rightarrow> nat \<Rightarrow> nat \<Rightarrow> nat \<Rightarrow> ('d, unit) hox" where
  "map_pages H numMapThreads ptr roundSize =
     (if 1 < numMapThreads \<and> kPageSize * numMapThreads \<le> roundSize
      then sx_for (task_order H numMapThreads) (\<lambda>i. mapPagesForRegister ptr roundSize i numMapThreads kPageSize)
      else mapPagesForRegister ptr roundSize 0 1 kPageSize)"

definition allocWithSupaHostRegister :: "SUPAAllocatorConfig \<Rightarrow> 'd hrt \<Rightarrow> nat \<Rightarrow> ('d, nat) hox" where
  "allocWithSupaHostRegister c H roundSize =
     sx_bind (on_how (drv_call (std_malloc H roundSize))) (\<lambda>ptr.
     sx_seq (map_pages H (m_pinned_num_register_threads c) ptr roundSize)
     (sx_seq (registerPages H ptr roundSize) (sx_ret ptr)))"

section \<open>Operations\<close>

text \<open>A new block; the hash map keeps an older entry of the same address.\<close>

definition new_hblock :: "SUPAAllocatorConfig \<Rightarrow> 'd hrt \<Rightarrow> nat \<Rightarrow> ('d, nat \<times> nat) hox" where
  "new_hblock c H sz =
     (let roundSize = PowerOf2Ceil H sz in
      sx_bind (if m_pinned_use_supa_host_register c then allocWithSupaHostRegister c H roundSize
               else on_how (supa_check_out (supaHostAlloc H roundSize))) (\<lambda>ptr.
      sx_bind (sx_get (\<lambda>s. new_address H (dom (ho_heap s)))) (\<lambda>b.
      sx_seq (sx_mod (\<lambda>s. s\<lparr>
        ho_heap := (ho_heap s)(b \<mapsto> \<lparr>hb_size = roundSize, hb_ptr = ptr, hb_allocated = True, hb_event_count = 0, hb_streams = []\<rparr>),
        ho_blocks := insert b (ho_blocks s),
        ptr_to_block := (case ptr_to_block s ptr of None \<Rightarrow> (ptr_to_block s)(ptr \<mapsto> b) | Some _ \<Rightarrow> ptr_to_block s)\<rparr>))
      (sx_ret (ptr, b)))))"

definition take_free_hblock :: "nat \<Rightarrow> ('d, nat \<times> nat) hox" where
  "take_free_hblock b =
     sx_seq (set_hblock b (\<lambda>x. x\<lparr>hb_allocated := True\<rparr>))
     (sx_seq (sx_mod (\<lambda>s. s\<lparr>free_list := remove1 b (free_list s)\<rparr>))
     (sx_bind (hderef b) (\<lambda>x. sx_ret (hb_ptr x, b))))"

definition host_allocate :: "'d driver \<Rightarrow> SUPAAllocatorConfig \<Rightarrow> 'd hrt \<Rightarrow> nat \<Rightarrow> ('d, nat \<times> nat) hox" where
  "host_allocate D c H sz =
     (if sz = 0 then sx_ret (0, 0)
      else sx_seq (host_process_events D)
        (sx_bind (sx_get (\<lambda>s. set_lower_bound BlockComparator (hkey (ho_heap s)) (sz, 0) (free_list s))) (\<lambda>found.
         case found of b # _ \<Rightarrow> take_free_hblock b
         | [] \<Rightarrow>
           sx_bind (on_how (getDeviceIndexWithPrimaryContext D)) (\<lambda>i.
           case i of None \<Rightarrow> new_hblock c H sz | Some i \<Rightarrow> ho_guard D i (new_hblock c H sz)))))"

definition record_stream :: "'d driver \<Rightarrow> 'd rt \<Rightarrow> SUPAStream \<Rightarrow> ('d, pooled_event) hox" where
  "record_stream D R x =
     sx_bind (hEventPool_get D (s_device x)) (\<lambda>ev.
     sx_bind (on_event ev (record_on D R x)) (\<lambda>(r, ev'). case r of
       Inl e \<Rightarrow> sx_seq (hEvent_release (s_device x, ev')) (sx_throw e)
     | Inr _ \<Rightarrow> sx_ret (s_device x, ev')))"

primrec record_streams :: "'d driver \<Rightarrow> 'd rt \<Rightarrow> pooled_event list \<Rightarrow> SUPAStream list \<Rightarrow> ('d, pooled_event list) hox" where
  "record_streams D R es [] = sx_ret es"
| "record_streams D R es (x # xs) =
     sx_bind (sx_onthrow (record_stream D R x) (sx_for es hEvent_release)) (\<lambda>e. record_streams D R (es @ [e]) xs)"

definition host_free :: "'d driver \<Rightarrow> 'd rt \<Rightarrow> nat \<Rightarrow> ('d, unit) hox" where
  "host_free D R ctx =
     (if ctx = 0 then sx_ret ()
      else sx_seq (set_hblock ctx (\<lambda>x. x\<lparr>hb_allocated := False\<rparr>))
        (sx_bind (hderef ctx) (\<lambda>x.
         if hb_streams x = []
         then sx_seq (sx_check (hb_event_count x = 0) (InternalAssert ''block->event_count_ == 0'')) (free_list_insert ctx)
         else sx_seq (set_hblock ctx (\<lambda>x. x\<lparr>hb_event_count := hb_event_count x + int (length (hb_streams x)), hb_streams := []\<rparr>))
           (sx_bind (record_streams D R [] (hb_streams x)) (\<lambda>es.
            sx_for es (\<lambda>e. sx_mod (\<lambda>s. s\<lparr>supa_events := (e, ctx) # supa_events s\<rparr>)))))))"

definition use_on_stream :: "nat \<Rightarrow> SUPAStream \<Rightarrow> ('d, bool) hox" where
  "use_on_stream b x =
     sx_bind (hderef b) (\<lambda>k.
     sx_seq (sx_check (hb_allocated k) (InternalAssert ''block->allocated_''))
     (sx_seq (set_hblock b (\<lambda>k. k\<lparr>hb_streams := List.insert x (hb_streams k)\<rparr>)) (sx_ret True)))"

definition record_event :: "nat \<Rightarrow> nat \<Rightarrow> SUPAStream \<Rightarrow> ('d, bool) hox" where
  "record_event ptr ctx x =
     sx_bind (sx_get (\<lambda>s. s)) (\<lambda>s.
     if ctx \<in> ho_blocks s then use_on_stream ctx x
     else case ptr_to_block s ptr of None \<Rightarrow> sx_ret False | Some b \<Rightarrow> use_on_stream b x)"

definition remove_hblock :: "SUPAAllocatorConfig \<Rightarrow> 'd hrt \<Rightarrow> nat \<Rightarrow> ('d, unit) hox" where
  "remove_hblock c H b =
     sx_seq (sx_mod (\<lambda>s. s\<lparr>ho_blocks := ho_blocks s - {b}\<rparr>))
     (sx_bind (hderef b) (\<lambda>x.
      sx_seq (sx_mod (\<lambda>s. s\<lparr>ptr_to_block := (ptr_to_block s)(hb_ptr x := None)\<rparr>))
      (sx_seq (if m_pinned_use_supa_host_register c
        then sx_seq (on_how (supa_check (supaHostUnregister H (hb_ptr x))))
          (on_how (drv_call (\<lambda>d. ((), std_free H (hb_ptr x) d))))
        else on_how (supa_check (supaFreeHost H (hb_ptr x))))
      (sx_mod (\<lambda>s. s\<lparr>ho_heap := (ho_heap s)(b := None)\<rparr>)))))"

definition host_empty_cache :: "'d driver \<Rightarrow> 'd rt \<Rightarrow> SUPAAllocatorConfig \<Rightarrow> 'd hrt \<Rightarrow> ('d, unit) hox" where
  "host_empty_cache D R c H =
     sx_seq (host_process_events D)
     (sx_seq (hEventPool_empty_cache D R)
     (sx_bind (sx_get free_list) (\<lambda>blocks_to_remove.
      sx_seq (sx_mod (\<lambda>s. s\<lparr>free_list := []\<rparr>)) (sx_for blocks_to_remove (remove_hblock c H)))))"

definition isPinnedPtr :: "'d driver \<Rightarrow> 'd hrt \<Rightarrow> nat \<Rightarrow> ('d, bool) hox" where
  "isPinnedPtr D H p =
     (if device_count D \<le> 0 then sx_ret False
      else sx_bind (on_how (getDeviceIndexWithPrimaryContext D)) (\<lambda>i.
        let ask = sx_bind (on_how (drv_call (supaPointerIsHost H p))) (\<lambda>(err, is_host).
          if err \<noteq> supaSuccess then sx_bind (on_how (drv_call (supaGetLastError D))) (\<lambda>_. sx_ret False) else sx_ret is_host) in
        case i of None \<Rightarrow> ask | Some i \<Rightarrow> ho_guard D i ask))"

definition host_copy_data :: "('d, unit) hox" where
  "host_copy_data = sx_throw (TorchCheck ''Not implemented for SUPAHostAllocator'')"

end
