(* ===== verification/Host_Pages.thy ===== *)
theory Host_Pages
  imports Host_Allocator Alloc_Sizes "HOL-Library.Multiset"
begin

text \<open>
  Mapping the pages of registered memory: for every number of threads the settings can hold, the tasks
  of the thread pool touch the same pages as one thread does, each page in exactly one task.
\<close>

unbundle bit_operations_syntax

section \<open>The number of threads\<close>

definition pow_threads :: "cxx_lib \<Rightarrow> SUPAAllocatorConfig \<Rightarrow> bool" where
  "pow_threads L c \<longleftrightarrow> (m_pinned_num_register_threads c = 1 \<or> isPowerOf2_64 L (m_pinned_num_register_threads c))
     \<and> m_pinned_num_register_threads c \<le> pinned_max_register_threads"

lemma parse_item_threads:
  assumes "pow_threads L s"
  shows "wp (parse_item L config i) (\<lambda>_. pow_threads L) (\<lambda>_. pow_threads L) s"
proof -
  have "wp (parseMaxSplitSize config i) (\<lambda>_. pow_threads L) (\<lambda>_. pow_threads L) s"
    "wp (parseMaxNonSplitRoundingSize config i) (\<lambda>_. pow_threads L) (\<lambda>_. pow_threads L) s"
    "wp (parseGarbageCollectionThreshold L config i) (\<lambda>_. pow_threads L) (\<lambda>_. pow_threads L) s"
    "wp (parseExpandableSegments config i) (\<lambda>_. pow_threads L) (\<lambda>_. pow_threads L) s"
    "wp (parseReleaseLock config i) (\<lambda>_. pow_threads L) (\<lambda>_. pow_threads L) s"
    "wp (parsePinnedUseSupaHostRegister config i) (\<lambda>_. pow_threads L) (\<lambda>_. pow_threads L) s"
    "wp (parsePinnedNumRegisterThreads L config i) (\<lambda>_. pow_threads L) (\<lambda>_. pow_threads L) s"
    using assms by (simp_all add: parse_defs Let_def pow_threads_def split: sum.splits)
  then show ?thesis using assms by (simp add: parse_item_def Let_def)
qed

lemma parse_loop_threads: "pow_threads L s \<Longrightarrow> wp (parse_loop L fuel config i) (\<lambda>_. pow_threads L) (\<lambda>_. pow_threads L) s"
proof (induction fuel arbitrary: i s)
  case (Suc fuel)
  have "wp (parse_item L config i) (\<lambda>j. wp (if j + 1 < length config
      then sx_seq (consumeToken config (j + 1) CHR '','') (parse_loop L fuel config (j + 2))
      else parse_loop L fuel config (j + 1)) (\<lambda>_. pow_threads L) (\<lambda>_. pow_threads L)) (\<lambda>_. pow_threads L) s"
    by (rule wp_conseq [OF parse_item_threads [OF Suc.prems]]) (auto simp: consumeToken_def intro: Suc.IH)
  then show ?case using Suc.prems by simp
qed simp

lemma parseArgs_threads: "pow_threads L s \<Longrightarrow> pow_threads L (snd (parseArgs L env s))"
proof -
  assume "pow_threads L s"
  then have "wp (parseArgs L env) (\<lambda>_. pow_threads L) (\<lambda>_. pow_threads L) s"
    by (auto simp: parseArgs_def Let_def pow_threads_def [of L "s\<lparr>m_max_split_size := _, m_roundup_power2_divisions := _,
        m_garbage_collection_threshold := _\<rparr>"] pow_threads_def [of L s] split: option.splits intro!: parse_loop_threads)
  then show ?thesis by (auto simp: wp_def split: prod.splits sum.splits)
qed

text \<open>The settings after a process start and any number of changes.\<close>

definition settings_after :: "cxx_lib \<Rightarrow> string option \<Rightarrow> string list \<Rightarrow> SUPAAllocatorConfig" where
  "settings_after L conf envs =
     fold (\<lambda>env c. snd (setAllocatorSettings L env c)) envs (snd (parseArgs L conf SUPAAllocatorConfig_ctor))"

lemma settings_threads:
  assumes "cxx_lib_ok L"
  shows "\<exists>j \<le> 7. m_pinned_num_register_threads (settings_after L conf envs) = 2 ^ j"
proof -
  have "pow_threads L (settings_after L conf envs)"
    unfolding settings_after_def
  proof (induction envs rule: rev_induct)
    case Nil
    have "pow_threads L SUPAAllocatorConfig_ctor"
      by (simp add: pow_threads_def SUPAAllocatorConfig_ctor_def pinned_max_register_threads_def)
    then show ?case by (simp add: parseArgs_threads)
  qed (simp add: setAllocatorSettings_def parseArgs_threads)
  then obtain j where j: "m_pinned_num_register_threads (settings_after L conf envs) = 2 ^ j" "2 ^ j \<le> (128 :: nat)"
    using assms unfolding pow_threads_def cxx_lib_ok_def pinned_max_register_threads_def by (metis power_0)
  have "j \<le> 7"
  proof (rule ccontr)
    assume "\<not> j \<le> 7"
    then have "(2 :: nat) ^ 8 \<le> 2 ^ j" by (intro power_increasing) auto
    then show False using j(2) by simp
  qed
  then show ?thesis using j by blast
qed

section \<open>The pages of an interval\<close>

definition page_up :: "nat \<Rightarrow> nat" where
  "page_up a = (a + (kPageSize - 1)) div kPageSize"

definition pages_of :: "nat \<Rightarrow> nat \<Rightarrow> nat list" where
  "pages_of a e = map (\<lambda>q. kPageSize * q) [page_up a ..< page_up e]"

lemma page_up_less: "kPageSize * q < e \<longleftrightarrow> q < page_up e"
  by (simp add: page_up_def kPageSize_def) linarith

lemma page_up_le: "a \<le> kPageSize * q \<longleftrightarrow> page_up a \<le> q"
  by (simp add: page_up_def kPageSize_def) linarith

lemma page_up_mono: "a \<le> e \<Longrightarrow> page_up a \<le> page_up e"
  unfolding page_up_def by (rule div_le_mono) simp

lemma set_pages_of: "set (pages_of a e) = {p. a \<le> p \<and> p < e \<and> kPageSize dvd p}"
  by (auto simp: pages_of_def image_iff page_up_less page_up_le elim!: dvdE)

lemma distinct_pages_of: "distinct (pages_of a e)"
  by (simp add: pages_of_def distinct_map inj_on_def kPageSize_def)

lemma pages_of_append: "a \<le> b \<Longrightarrow> b \<le> e \<Longrightarrow> pages_of a b @ pages_of b e = pages_of a e"
  unfolding pages_of_def by (metis map_append page_up_mono le_add_diff_inverse upt_add_eq_append)

lemma align_up_page:
  assumes "start + kPageSize \<le> 2 ^ 64"
  shows "align_up start kPageSize = kPageSize * page_up start"
proof -
  define x where "x = start + (kPageSize - 1)"
  have x: "x < 2 ^ 64" using assms by (simp add: x_def kPageSize_def)
  have "(of_nat x :: 64 word) AND NOT (mask 12) = push_bit 12 (drop_bit 12 (of_nat x))"
    by (rule bit_word_eqI) (auto simp: bit_simps)
  moreover have "unat (push_bit 12 (drop_bit 12 (of_nat x :: 64 word))) = x div 2 ^ 12 * 2 ^ 12"
  proof -
    have "unat (drop_bit 12 (of_nat x :: 64 word)) = x div 2 ^ 12"
      using x unfolding unat_drop_bit_eq by (simp add: drop_bit_eq_div unat_of_nat)
    moreover have "x div 2 ^ 12 * 2 ^ 12 < 2 ^ 64" using x by (metis div_times_less_eq_dividend order_le_less_trans)
    ultimately show ?thesis by (simp add: push_bit_eq_mult unat_mult_small)
  qed
  moreover have "(of_nat (kPageSize - 1) :: 64 word) = mask 12" by (simp add: kPageSize_def mask_eq_exp_minus_1)
  moreover have "start + kPageSize - 1 = x" by (simp add: x_def kPageSize_def)
  ultimately show ?thesis unfolding align_up_def by (simp add: page_up_def x_def [symmetric] kPageSize_def mult.commute)
qed

lemma page_loop_run:
  assumes "stop + kPageSize \<le> 2 ^ 64" and "0 < q" and "page_up stop - q < fuel"
  shows "page_loop fuel (kPageSize * q) stop kPageSize s
    = (Inr (), s\<lparr>written := written s @ map (\<lambda>q. kPageSize * q) [q ..< page_up stop]\<rparr>)"
  using assms(2,3)
proof (induction fuel arbitrary: q s)
  case 0
  then show ?case by simp
next
  case (Suc fuel)
  show ?case
  proof (cases "q < page_up stop")
    case True
    then have l: "kPageSize * q < stop" by (simp add: page_up_less)
    then have "(kPageSize * q + kPageSize) mod 2 ^ 64 = kPageSize * Suc q" using assms(1) by (simp add: kPageSize_def)
    then show ?thesis
      using Suc.IH [of "Suc q" "s\<lparr>written := written s @ [kPageSize * q]\<rparr>"] Suc.prems True l
      by (simp add: touch_def sx_defs upt_conv_Cons kPageSize_def)
  next
    case False
    then show ?thesis by (simp add: page_up_less sx_ret_def)
  qed
qed

section \<open>One task\<close>

text \<open>The part of a memory of \<open>2 ^ k\<close> bytes that a task of \<open>2 ^ j\<close> tasks maps.\<close>

lemma task_bounds:
  assumes "ptr + 2 ^ k \<le> 2 ^ 56" and "j \<le> 7" and "j \<le> k" and "i < 2 ^ j"
  shows "map_bounds ptr (2 ^ k) i (2 ^ j) = (ptr + 2 ^ (k - j) * i, ptr + 2 ^ (k - j) * Suc i)"
    and "2 ^ (k - j) * Suc i \<le> (2 :: nat) ^ k"
proof -
  have split: "(2 :: nat) ^ k = 2 ^ (k - j) * 2 ^ j" using assms(3) by (simp flip: power_add)
  have b: "2 ^ (k - j) * Suc i \<le> (2 :: nat) ^ k" unfolding split using assms(4) by (intro mult_left_mono) auto
  have "(2 :: nat) ^ k * i \<le> 2 ^ 56 * 2 ^ 7"
  proof (rule mult_mono)
    show "i \<le> 2 ^ 7" using assms(2,4) power_increasing [of j 7 "2 :: nat"] by simp
  qed (use assms(1) in auto)
  then have m: "2 ^ k * i mod 2 ^ 64 = (2 :: nat) ^ k * i" by simp
  have d: "2 ^ k * i div 2 ^ j = (2 :: nat) ^ (k - j) * i" "(2 :: nat) ^ k div 2 ^ j = 2 ^ (k - j)"
    unfolding split by simp_all
  define e where "e = 2 ^ (k - j) * Suc i"
  have "e = (2 :: nat) ^ k" if "i = 2 ^ j - 1"
  proof -
    have "Suc i = 2 ^ j" using that by simp
    then show ?thesis unfolding split e_def by simp
  qed
  moreover have "e = 2 ^ (k - j) * i + 2 ^ (k - j)" "e \<le> 2 ^ k" using b by (simp_all add: e_def)
  ultimately show "map_bounds ptr (2 ^ k) i (2 ^ j) = (ptr + 2 ^ (k - j) * i, ptr + 2 ^ (k - j) * Suc i)"
    using assms(1) unfolding map_bounds_def Let_def m d e_def [symmetric] by auto
  show "2 ^ (k - j) * Suc i \<le> (2 :: nat) ^ k" by (rule b)
qed

text \<open>The pages of a task.\<close>

definition task_pages :: "nat \<Rightarrow> nat \<Rightarrow> nat \<Rightarrow> nat list" where
  "task_pages ptr c i = pages_of (ptr + c * i) (ptr + c * Suc i)"

lemma task_run:
  assumes "0 < ptr + 2 ^ (k - j) * i" and "ptr + 2 ^ k \<le> 2 ^ 56" and "j \<le> 7" and "j \<le> k" and "i < 2 ^ j"
  shows "mapPagesForRegister ptr (2 ^ k) i (2 ^ j) kPageSize s
    = (Inr (), s\<lparr>written := written s @ task_pages ptr (2 ^ (k - j)) i\<rparr>)"
proof -
  let ?a = "ptr + 2 ^ (k - j) * i" and ?e = "ptr + 2 ^ (k - j) * Suc i"
  note b = task_bounds [OF assms(2-5)]
  have e: "?e + kPageSize \<le> 2 ^ 64" "?a \<le> ?e" using assms(2) b(2) by (simp_all add: kPageSize_def)
  have a: "align_up ?a kPageSize = kPageSize * page_up ?a" by (rule align_up_page) (use e in linarith)
  have "page_up ?a \<noteq> 0" using assms(1) page_up_le [of ?a 0] by auto
  then have p: "0 < page_up ?a" by blast
  have "?e \<le> ?a + 2 ^ k" using b(2) by simp
  then have f: "page_up ?e - page_up ?a < 2 ^ k div kPageSize + 2" unfolding page_up_def kPageSize_def by linarith
  show ?thesis
    unfolding mapPagesForRegister_def b(1) prod.case a page_loop_run [OF e(1) p f] by (simp add: task_pages_def pages_of_def)
qed

section \<open>All tasks\<close>

lemma tasks_run:
  assumes "\<And>i s. i \<in> set is \<Longrightarrow> f i s = (Inr (), s\<lparr>written := written s @ g i\<rparr>)"
  shows "sx_for is f s = (Inr (), s\<lparr>written := written s @ concat (map g is)\<rparr>)"
  using assms by (induction "is" arbitrary: s) (simp_all add: sx_defs)

lemma tasks_pages: "concat (map (task_pages ptr c) [0 ..< n]) = pages_of ptr (ptr + c * n)"
proof (induction n)
  case 0 show ?case by (simp add: pages_of_def)
next
  case (Suc n) then show ?case by (simp add: task_pages_def pages_of_append)
qed

lemma first_task_null:
  assumes "j \<le> 7" and "j \<le> k" and "k \<le> 56"
  shows "fst (mapPagesForRegister 0 (2 ^ k) 0 (2 ^ j) kPageSize s) = Inl UseAfterFree"
proof -
  have "map_bounds 0 (2 ^ k) 0 (2 ^ j) = (0, 2 ^ (k - j))"
    using task_bounds(1) [of 0 k j 0] assms power_increasing [of k 56 "2 :: nat"] by simp
  moreover have "align_up 0 kPageSize = 0" using align_up_page [of 0] by (simp add: page_up_def kPageSize_def)
  ultimately show ?thesis by (simp add: mapPagesForRegister_def touch_def sx_defs)
qed

lemma for_first_throws:
  assumes "i \<in> set is" and "\<And>i s. i \<in> set is \<Longrightarrow> fst (f i s) = Inr () \<or> fst (f i s) = Inl e"
    and "\<And>s. fst (f i s) = Inl e"
  shows "fst (sx_for is f s) = Inl e"
  using assms
proof (induction "is" arbitrary: s)
  case (Cons k ks)
  show ?case
  proof (cases "fst (f k s) = Inl e")
    case True then show ?thesis by (cases "f k s") (simp add: sx_defs)
  next
    case False
    then have k: "fst (f k s) = Inr ()" "k \<noteq> i" using Cons.prems by auto
    have "fst (sx_for ks f (snd (f k s))) = Inl e"
      by (rule Cons.IH) (use Cons.prems k in auto)
    then show ?thesis using k by (cases "f k s") (simp add: sx_defs)
  qed
qed simp

lemma jobs_split: "kPageSize * 2 ^ j \<le> 2 ^ k \<Longrightarrow> j \<le> k"
proof -
  assume "kPageSize * 2 ^ j \<le> (2 :: nat) ^ k"
  then have "(2 :: nat) ^ j \<le> 2 ^ k" unfolding kPageSize_def by linarith
  then show ?thesis by (rule power_le_imp_le_exp [rotated]) simp
qed

lemma map_pages_run:
  assumes "j \<le> 7" and "mset (task_order H (2 ^ j)) = mset [0 ..< 2 ^ j]" and "0 < ptr" and "ptr + 2 ^ k \<le> 2 ^ 56"
  shows "\<exists>ps. map_pages H (2 ^ j) ptr (2 ^ k) s = (Inr (), s\<lparr>written := written s @ ps\<rparr>) \<and> mset ps = mset (pages_of ptr (ptr + 2 ^ k))"
proof (cases "1 < (2 :: nat) ^ j \<and> kPageSize * 2 ^ j \<le> 2 ^ k")
  case True
  then have jk: "j \<le> k" using jobs_split by blast
  let ?g = "task_pages ptr (2 ^ (k - j))"
  have "set (task_order H (2 ^ j)) = {0 ..< 2 ^ j}" using arg_cong [OF assms(2), of set_mset] by simp
  then have run: "map_pages H (2 ^ j) ptr (2 ^ k) s = (Inr (), s\<lparr>written := written s @ concat (map ?g (task_order H (2 ^ j)))\<rparr>)"
    unfolding map_pages_def using True jk assms by (auto intro!: tasks_run task_run)
  have "mset (concat (map ?g (task_order H (2 ^ j)))) = mset (concat (map ?g [0 ..< 2 ^ j]))"
    unfolding mset_concat map_map sum_mset_sum_list [symmetric] mset_map assms(2) ..
  moreover have "(2 :: nat) ^ (k - j) * 2 ^ j = 2 ^ k" using jk by (simp flip: power_add)
  ultimately have "mset (concat (map ?g (task_order H (2 ^ j)))) = mset (pages_of ptr (ptr + 2 ^ k))" by (simp add: tasks_pages)
  with run show ?thesis by (intro exI conjI)
next
  case False
  then show ?thesis using task_run [of ptr k 0 0 s] assms(3,4) by (auto simp: map_pages_def task_pages_def)
qed

text \<open>Memory that could not be allocated.\<close>

lemma map_pages_null:
  assumes "j \<le> 7" and "mset (task_order H (2 ^ j)) = mset [0 ..< 2 ^ j]" and "k \<le> 56"
  shows "fst (map_pages H (2 ^ j) 0 (2 ^ k) s) = Inl UseAfterFree"
proof (cases "1 < (2 :: nat) ^ j \<and> kPageSize * 2 ^ j \<le> 2 ^ k")
  case True
  then have jk: "j \<le> k" using jobs_split by blast
  have small: "(2 :: nat) ^ k \<le> 2 ^ 56" using assms(3) by (intro power_increasing) auto
  have order: "set (task_order H (2 ^ j)) = {0 ..< 2 ^ j}" using arg_cong [OF assms(2), of set_mset] by simp
  let ?f = "\<lambda>i. mapPagesForRegister 0 (2 ^ k) i (2 ^ j) kPageSize"
  have "fst (?f i u) = Inr () \<or> fst (?f i u) = Inl UseAfterFree" if "i \<in> set (task_order H (2 ^ j))" for i u
    using that order small task_run [of 0 k j i u] first_task_null [OF assms(1) jk assms(3), of u] assms(1) jk by (cases "i = 0") auto
  then have "fst (sx_for (task_order H (2 ^ j)) ?f s) = Inl UseAfterFree"
    using first_task_null [OF assms(1) jk assms(3)] order by (intro for_first_throws [where i = 0]) auto
  then show ?thesis using True by (simp add: map_pages_def)
next
  case False
  then show ?thesis using first_task_null [of 0 k s] assms(3) by (auto simp: map_pages_def)
qed

section \<open>Property\<close>

text \<open>
  C39: whatever the settings of the process were, mapping the pages of a registered memory with the
  configured number of threads touches the same pages as one thread does, in whatever order the tasks
  run: every page that starts inside the memory, once, and nothing outside. Memory that \<^verbatim>\<open>malloc\<close> could
  not allocate is not noticed and ends the process.
\<close>

theorem prefault_parallel:
  assumes "cxx_lib_ok L" and "n = m_pinned_num_register_threads (settings_after L conf envs)"
    and "mset (task_order H n) = mset [0 ..< n]" and "0 < ptr" and "ptr + 2 ^ k \<le> 2 ^ 56"
  shows "(\<exists>ps qs. map_pages H n ptr (2 ^ k) s = (Inr (), s\<lparr>written := written s @ ps\<rparr>)
      \<and> mapPagesForRegister ptr (2 ^ k) 0 1 kPageSize s = (Inr (), s\<lparr>written := written s @ qs\<rparr>)
      \<and> mset ps = mset qs \<and> distinct ps \<and> set ps = {p. ptr \<le> p \<and> p < ptr + 2 ^ k \<and> kPageSize dvd p})
    \<and> fst (map_pages H n 0 (2 ^ k) s) = Inl UseAfterFree"
proof (intro conjI)
  obtain j where n: "n = 2 ^ j" "j \<le> 7" using settings_threads [OF assms(1)] assms(2) by metis
  note order = assms(3) [unfolded n(1)]
  let ?qs = "pages_of ptr (ptr + 2 ^ k)"
  obtain ps where ps: "map_pages H n ptr (2 ^ k) s = (Inr (), s\<lparr>written := written s @ ps\<rparr>)" "mset ps = mset ?qs"
    using map_pages_run [OF n(2) order assms(4,5)] unfolding n(1) by blast
  have "mapPagesForRegister ptr (2 ^ k) 0 1 kPageSize s = (Inr (), s\<lparr>written := written s @ ?qs\<rparr>)"
    using task_run [of ptr k 0 0 s] assms(4,5) by (simp add: task_pages_def)
  then show "\<exists>ps qs. map_pages H n ptr (2 ^ k) s = (Inr (), s\<lparr>written := written s @ ps\<rparr>)
      \<and> mapPagesForRegister ptr (2 ^ k) 0 1 kPageSize s = (Inr (), s\<lparr>written := written s @ qs\<rparr>)
      \<and> mset ps = mset qs \<and> distinct ps \<and> set ps = {p. ptr \<le> p \<and> p < ptr + 2 ^ k \<and> kPageSize dvd p}"
    using ps mset_eq_setD [OF ps(2)] mset_eq_imp_distinct_iff [OF ps(2)] distinct_pages_of
    by (intro exI [of _ ps] exI [of _ ?qs]) (simp add: set_pages_of)
  have "(2 :: nat) ^ k \<le> 2 ^ 56" using assms(5) by simp
  then have "k \<le> 56" by (rule power_le_imp_le_exp [rotated]) simp
  then show "fst (map_pages H n 0 (2 ^ k) s) = Inl UseAfterFree" using map_pages_null [OF n(2) order] unfolding n(1) by simp
qed

text \<open>Two tasks on a memory of four pages that does not start at a page, the second task first.\<close>

definition ref_malloc :: "nat \<Rightarrow> ref_state \<Rightarrow> nat \<times> ref_state" where
  "ref_malloc n d = (case ref_acquire n d of ((e, p), d') \<Rightarrow> if p + n \<le> 2 ^ 56 then (p, d') else (0, d))"

definition ref_hrt :: "ref_state hrt" where
  "ref_hrt = \<lparr>supaHostAlloc = supaMalloc ref_driver, supaFreeHost = supaFree ref_driver, supaHostRegister = \<lambda>_ _. ref_ok,
     supaHostUnregister = \<lambda>_. ref_ok, supaHostGetDevicePointer = \<lambda>p d. ((supaSuccess, p), d),
     supaPointerIsHost = \<lambda>_ d. ((supaSuccess, True), d), std_malloc = ref_malloc,
     std_free = ref_drop, PowerOf2Ceil = \<lambda>n. if n \<le> 1 then n else 2 * 2 ^ log2_nat (n - 1),
     new_address = \<lambda>A. Suc (Max (insert 0 A)), task_order = \<lambda>n. rev [0 ..< n]\<rparr>"

lemma ref_threads: "m_pinned_num_register_threads (settings_after ref_lib None [''pinned_num_register_threads:2'']) = 2"
proof -
  let ?ws = "[''pinned_num_register_threads'', '':'', ''2'']"
  have lex: "lexArgs ''pinned_num_register_threads:2'' = ?ws" by (simp add: lexArgs_def is_separator_def)
  have stoi: "stoi ''2'' = Inr 2" by (simp add: stoi_def is_space_def is_digit_def digits_value_def)
  have "\<exists>k < 64. (2 :: nat) = 2 ^ k" by (rule exI [of _ 1]) simp
  then have two: "isPowerOf2_64 ref_lib 2" using ref_lib_ok unfolding cxx_lib_ok_def by blast
  have item: "parse_item ref_lib ?ws 0 d = (Inr 2, d\<lparr>m_pinned_num_register_threads := 2\<rparr>)" for d
    by (simp add: parse_item_def parsePinnedNumRegisterThreads_def consumeToken_def sx_defs sx_lift_def stoi int_to_size_def two
        pinned_max_register_threads_def)
  have loop: "parse_loop L (Suc (Suc (Suc 0))) ws 0 d = (Inr (), e)"
    if "length ws = 3" and "parse_item L ws 0 d = (Inr 2, e)" for L ws d e
    using that by (simp add: sx_bind_def sx_ret_def)
  show ?thesis
    unfolding settings_after_def setAllocatorSettings_def parseArgs_def
    by (simp add: lex Let_def sx_seq_def sx_bind_def sx_mod_def sx_ret_def loop [OF _ item] del: parse_loop.simps)
qed

theorem prefault_parallel_witness:
  "\<forall>w. \<exists>ps. map_pages ref_hrt 2 100 16384 (SUPAHostAllocator_ctor (initial_streams w)) = (Inr (), (SUPAHostAllocator_ctor (initial_streams w))\<lparr>written := ps\<rparr>)
    \<and> mset ps = {#4096, 8192, 12288, 16384#}"
proof
  fix w :: "ref_state world"
  let ?s = "SUPAHostAllocator_ctor (initial_streams w)"
  have w: "written ?s = []" by (simp add: SUPAHostAllocator_ctor_def)
  have order: "mset (task_order ref_hrt 2) = mset [0 ..< 2]" by (simp add: ref_hrt_def numeral_2_eq_2)
  from prefault_parallel [OF ref_lib_ok ref_threads [symmetric] order, where ptr = 100 and k = 14 and s = ?s]
  obtain ps qs where ps: "map_pages ref_hrt 2 100 (2 ^ 14) ?s = (Inr (), ?s\<lparr>written := written ?s @ ps\<rparr>)"
      "mapPagesForRegister 100 (2 ^ 14) 0 1 kPageSize ?s = (Inr (), ?s\<lparr>written := written ?s @ qs\<rparr>)" "mset ps = mset qs"
    by force
  have "[1 ..< 5] = [1, 2, 3, 4 :: nat]" by (simp add: upt_rec)
  then have pages: "pages_of 100 (100 + 2 ^ 14) = [4096, 8192, 12288, 16384]" by (simp add: pages_of_def page_up_def kPageSize_def)
  have "mapPagesForRegister 100 (2 ^ 14) 0 1 kPageSize ?s = (Inr (), ?s\<lparr>written := written ?s @ pages_of 100 (100 + 2 ^ 14)\<rparr>)"
    using task_run [of 100 14 0 0 ?s] by (simp add: task_pages_def)
  then have "?s\<lparr>written := qs\<rparr> = ?s\<lparr>written := pages_of 100 (100 + 2 ^ 14)\<rparr>" using ps(2) w by simp
  then have "qs = pages_of 100 (100 + 2 ^ 14)" using arg_cong [where f = written] by fastforce
  then have "mset ps = {#4096, 8192, 12288, 16384#}" using ps(3) unfolding pages by simp
  then show "\<exists>ps. map_pages ref_hrt 2 100 16384 ?s = (Inr (), ?s\<lparr>written := ps\<rparr>) \<and> mset ps = {#4096, 8192, 12288, 16384#}"
    using ps(1) w by auto
qed

end
