(* ===== verification/Host_Safety.thy ===== *)
theory Host_Safety
  imports Host_Pages Event_Ownership
begin

text \<open>
  The safety of the allocator of pinned memory: the invariant of its blocks, its list of free blocks and
  its queue of events, kept by every operation however it ends, and the histories of a client.
\<close>

section \<open>The laws of the libraries\<close>

text \<open>
  What the libraries document, in terms of the ranges of host memory they have handed out: freeing takes
  the range away, or fails and may leave it; \<^verbatim>\<open>malloc\<close> returns addresses of the user address space; the
  other calls change no range.
\<close>

definition releases :: "('d \<Rightarrow> (nat \<times> nat) set) \<Rightarrow> nat \<Rightarrow> nat \<Rightarrow> 'd drv_call \<Rightarrow> bool" where
  "releases live p n f \<longleftrightarrow> (\<forall>d e d'. ranges_ok (live d) \<longrightarrow> sole_range (live d) p n \<longrightarrow> f d = (e, d') \<longrightarrow>
     live d' = live d - {(p, n)} \<or> e \<noteq> supaSuccess \<and> live d' = live d)"

definition host_calls_ok :: "'d driver \<Rightarrow> 'd rt \<Rightarrow> 'd hrt \<Rightarrow> ('d \<Rightarrow> int) \<Rightarrow> ('d \<Rightarrow> (nat \<times> nat) set) \<Rightarrow> bool" where
  "host_calls_ok D R H cur live \<longleftrightarrow> device_calls_ok D cur \<and> accepts_devices D \<and> device_neutral D live
     \<and> keeps_live live (supaGetLastError D) \<and> (\<forall>e. keeps_live live (supaEventQuery D e))
     \<and> (\<forall>e s. keeps_live live (supaEventRecord D e s)) \<and> (\<forall>f. keeps_live live (supaEventCreateFlags R f))
     \<and> (\<forall>i. keeps_live live (suDevicePrimaryCtxGetState D i))
     \<and> (\<forall>p n. keeps_live live (supaHostRegister H p n)) \<and> (\<forall>p. keeps_live live (supaHostUnregister H p))
     \<and> (\<forall>p. keeps_live live (supaHostGetDevicePointer H p)) \<and> (\<forall>p. keeps_live live (supaPointerIsHost H p))
     \<and> (\<forall>n. acquires live n (supaHostAlloc H n)) \<and> (\<forall>n. acquires_ptr live n (std_malloc H n))
     \<and> (\<forall>n d. fst (std_malloc H n d) = 0 \<or> fst (std_malloc H n d) + n \<le> 2 ^ 56)
     \<and> (\<forall>p n. releases live p n (supaFreeHost H p))
     \<and> (\<forall>p n. releases live p n (\<lambda>d. (supaSuccess, std_free H p d)))
     \<and> (\<forall>n. 0 < n \<longrightarrow> n \<le> 2 ^ 63 \<longrightarrow> (\<exists>k. PowerOf2Ceil H n = 2 ^ k \<and> n \<le> 2 ^ k \<and> 2 ^ k < 2 * n))
     \<and> (\<forall>A. finite A \<longrightarrow> new_address H A \<notin> A \<and> new_address H A \<noteq> 0)
     \<and> (\<forall>n. mset (task_order H n) = mset [0 ..< n])"

lemma host_calls:
  assumes "host_calls_ok D R H cur live"
  shows "device_calls_ok D cur" and "accepts_devices D" and "device_neutral D live"
    and "keeps_live live (supaGetLastError D)" and "keeps_live live (supaEventQuery D e)"
    and "keeps_live live (supaEventRecord D e h)" and "keeps_live live (supaEventCreateFlags R f)"
    and "keeps_live live (suDevicePrimaryCtxGetState D i)"
    and "keeps_live live (supaHostRegister H p n)" and "keeps_live live (supaHostUnregister H p)"
    and "keeps_live live (supaHostGetDevicePointer H p)" and "keeps_live live (supaPointerIsHost H p)"
    and "acquires live n (supaHostAlloc H n)" and "acquires_ptr live n (std_malloc H n)"
    and "fst (std_malloc H n d) = 0 \<or> fst (std_malloc H n d) + n \<le> 2 ^ 56"
    and "releases live p n (supaFreeHost H p)" and "releases live p n (\<lambda>d. (supaSuccess, std_free H p d))"
    and "0 < n \<Longrightarrow> n \<le> 2 ^ 63 \<Longrightarrow> \<exists>k. PowerOf2Ceil H n = 2 ^ k \<and> n \<le> 2 ^ k \<and> 2 ^ k < 2 * n"
    and "finite A \<Longrightarrow> new_address H A \<notin> A \<and> new_address H A \<noteq> 0" and "mset (task_order H n) = mset [0 ..< n]"
  using assms unfolding host_calls_ok_def by auto

text \<open>The outcomes that would be errors of this code.\<close>

definition host_fault :: "exn \<Rightarrow> bool" where
  "host_fault e \<longleftrightarrow> e \<in> {UseAfterFree, OutOfBounds, LoopBound, Terminated, InternalAssert ''!block->allocated_'',
     InternalAssert ''block->event_count_ == 0''}"

lemma host_fault_simps [simp]:
  "host_fault UseAfterFree" "host_fault LoopBound" "host_fault Terminated" "\<not> host_fault (SupaCheck x)" "\<not> host_fault (TorchCheck m)"
  "\<not> host_fault StdOutOfRange" "\<not> host_fault (InternalAssert ''0 <= device'')"
  "\<not> host_fault (InternalAssert ''device < pools_.size()'')" "\<not> host_fault (InternalAssert ''block->allocated_'')"
  "\<not> host_fault (InternalAssert ''invalid StreamId'')" "\<not> host_fault (InternalAssert ''Unrecognized stream'')"
  "\<not> host_fault (InternalAssert ''I did not recognize the stream type'')"
  by (simp_all add: host_fault_def)

section \<open>Recording an event\<close>

text \<open>The thread and the ranges while an event object is used.\<close>

definition evk :: "'d driver \<Rightarrow> ('d \<Rightarrow> (nat \<times> nat) set) \<Rightarrow> (nat \<times> nat) set \<Rightarrow> SUPAEvent \<times> 'd strm \<Rightarrow> bool" where
  "evk D live A t \<longleftrightarrow> thread_ok D (snd t) \<and> live (drv (st_world (snd t))) = A"

lemma keeps_drv: "keeps_live live f \<Longrightarrow> f d = (x, d') \<Longrightarrow> live d' = live d"
  unfolding keeps_live_def by blast

lemma evk_drv: "evk D live A (x, st\<lparr>st_world := w\<rparr>) \<Longrightarrow> keeps_live live f \<Longrightarrow> f (drv w) = (r, d) \<Longrightarrow>
    evk D live A (y, st\<lparr>st_world := w\<lparr>drv := d\<rparr>\<rparr>)"
  using keeps_drv by (fastforce simp: evk_def thread_ok_def)

lemma evk_guard:
  assumes C: "host_calls_ok D R H cur live" and i: "0 \<le> i" "i < device_count D" and K: "evk D live A (x, st)"
    and m: "\<And>w. evk D live A (x, st\<lparr>st_world := w\<rparr>) \<Longrightarrow>
      wp m (\<lambda>_. evk D live A) (\<lambda>e t. evk D live A t \<and> \<not> host_fault e) (x, st\<lparr>st_world := w\<rparr>)"
  shows "wp (ev_guard D i m) (\<lambda>_. evk D live A) (\<lambda>e t. evk D live A t \<and> \<not> host_fault e) (x, st)"
proof (rule wp_guarded [OF host_calls(1-3) [OF C] i], goal_cases)
  case 1 then show ?case using K by (simp add: evk_def thread_ok_def)
next
  case (2 w)
  have b: "wp m (\<lambda>_. evk D live A) (\<lambda>e t. evk D live A t \<and> \<not> host_fault e) (x, st\<lparr>st_world := w\<rparr>)"
    using 2 K by (intro m) (simp_all add: thread_ok_def switched_def evk_def)
  have f: "evk D live A (apsnd (st_world_update (\<lambda>_. w')) t)" if "evk D live A t" "switched cur live i (st_world (snd t)) w'" for t w' i
    using that by (simp add: switched_def thread_ok_def evk_def)
  have "wp m (\<lambda>_ t. \<forall>w'. switched cur live (thread_device cur (st_world st)) (st_world (snd t)) w' \<longrightarrow> evk D live A (apsnd (st_world_update (\<lambda>_. w')) t))
      (\<lambda>e t. \<forall>w'. switched cur live (thread_device cur (st_world st)) (st_world (snd t)) w' \<longrightarrow> evk D live A (apsnd (st_world_update (\<lambda>_. w')) t) \<and> \<not> host_fault e)
      (x, st\<lparr>st_world := w\<rparr>)"
    by (rule wp_conseq [OF b]) (use f in blast)+
  then show ?case by simp
qed

text \<open>Computing the handle of a stream fails in its own ways only.\<close>

lemma wp_stream_handle:
  assumes "\<And>h. Q h s" and "\<And>e. \<not> host_fault e \<Longrightarrow> E e s"
  shows "wp (stream_of x) Q E s"
  by (simp add: assms stream_of_def streamIdType_def check_at_def wp_if Let_def)

lemma evk_createEvent:
  assumes C: "host_calls_ok D R H cur live" and K: "evk D live A (x, st)" and i: "0 \<le> i" "i < device_count D"
  shows "wp (createEvent D R i) (\<lambda>_. evk D live A) (\<lambda>e t. evk D live A t \<and> \<not> host_fault e) (x, st)"
  unfolding createEvent_def wp_seq wp_mod
proof (simp, rule evk_guard [OF C i], goal_cases)
  case 1 then show ?case using K by (simp add: evk_def)
next
  case (2 w) then show ?case using evk_drv [OF _ host_calls(7) [OF C]] by (auto simp: wp_if split: prod.splits)
qed

lemma evk_record_created:
  assumes C: "host_calls_ok D R H cur live" and K: "evk D live A (x, st)" and i: "0 \<le> s_device y" "s_device y < device_count D"
  shows "wp (record_created D y) (\<lambda>_. evk D live A) (\<lambda>e t. evk D live A t \<and> \<not> host_fault e) (x, st)"
proof (cases "device_index x = s_device y")
  case True
  have "wp (ev_guard D (device_index x) (sx_bind (on_streams (stream_of y)) (\<lambda>h.
         sx_seq (on_evw (supa_check (supaEventRecord D (event x) h))) (set_event (\<lambda>x. x\<lparr>was_recorded := True\<rparr>)))))
      (\<lambda>_. evk D live A) (\<lambda>e t. evk D live A t \<and> \<not> host_fault e) (x, st)"
  proof (rule evk_guard [OF C _ _ K], goal_cases)
    case (3 w)
    then show ?case using evk_drv [OF 3 host_calls(6) [OF C]] by (auto intro!: wp_stream_handle split: prod.splits)
  qed (use True i in auto)
  then show ?thesis using True by (simp add: record_created_def)
next
  case False
  then show ?thesis using K by (simp add: record_created_def)
qed

lemma evk_record_on:
  assumes C: "host_calls_ok D R H cur live" and K: "evk D live A (x, st)" and i: "0 \<le> s_device y" "s_device y < device_count D"
  shows "wp (record_on D R y) (\<lambda>_. evk D live A) (\<lambda>e t. evk D live A t \<and> \<not> host_fault e) (x, st)"
proof (cases "is_created x")
  case True
  then show ?thesis using evk_record_created [OF C K i] by (simp add: record_on_def)
next
  case False
  then show ?thesis
    using evk_record_created [OF C _ i] by (simp add: record_on_def) (rule wp_conseq [OF evk_createEvent [OF C K i]], auto)
qed

section \<open>Operations beside the blocks\<close>

abbreviation host_ranges :: "('d \<Rightarrow> (nat \<times> nat) set) \<Rightarrow> 'd hosts \<Rightarrow> (nat \<times> nat) set" where
  "host_ranges live s \<equiv> live (drv (st_world (ho_streams s)))"

text \<open>What only queries the driver and moves events leaves the blocks and the ranges alone.\<close>

definition aside :: "'d driver \<Rightarrow> ('d \<Rightarrow> (nat \<times> nat) set) \<Rightarrow> 'd hosts \<Rightarrow> 'd hosts \<Rightarrow> bool" where
  "aside D live s t \<longleftrightarrow> ho_heap t = ho_heap s \<and> ho_blocks t = ho_blocks s \<and> ptr_to_block t = ptr_to_block s
     \<and> free_list t = free_list s \<and> supa_events t = supa_events s \<and> event_pool t = event_pool s
     \<and> host_ranges live t = host_ranges live s \<and> thread_ok D (ho_streams t)"

lemma aside_refl: "thread_ok D (ho_streams s) \<Longrightarrow> aside D live s s"
  by (simp add: aside_def)

lemma aside_trans: "aside D live s t \<Longrightarrow> aside D live t u \<Longrightarrow> aside D live s u"
  by (simp add: aside_def)

text \<open>A call of the driver.\<close>

lemma aside_drv: "aside D live s t \<Longrightarrow> keeps_live live f \<Longrightarrow> f (drv (st_world (ho_streams t))) = (r, d) \<Longrightarrow>
    aside D live s (t\<lparr>ho_streams := (ho_streams t)\<lparr>st_world := (st_world (ho_streams t))\<lparr>drv := d\<rparr>\<rparr>\<rparr>)"
  using keeps_drv by (fastforce simp: aside_def thread_ok_def)

lemma aside_query_event:
  assumes C: "host_calls_ok D R H cur live" and a: "aside D live s t"
  shows "wp (query_event D x) (\<lambda>_. aside D live s) (\<lambda>e u. aside D live s u \<and> \<not> host_fault e) t"
  using aside_drv [OF a host_calls(5) [OF C]] aside_drv [OF _ host_calls(4) [OF C]]
  by (fastforce simp: query_event_def wp_if split: prod.splits)

lemma aside_release: "aside D live s t \<Longrightarrow> wp (hEvent_release e) (\<lambda>_. aside D live s) E t"
  by (simp add: hEvent_release_def aside_def)

lemma aside_releases: "aside D live s t \<Longrightarrow> wp (sx_for es hEvent_release) (\<lambda>_. aside D live s) E t"
  by (rule wp_for [where I = "aside D live s"]) (auto intro: aside_release)

lemma aside_streams: "aside D live s t \<Longrightarrow> thread_ok D st \<Longrightarrow> live (drv (st_world st)) = host_ranges live t \<Longrightarrow>
    aside D live s (t\<lparr>ho_streams := st\<rparr>)"
  by (simp add: aside_def)

lemma wp_on_event:
  assumes "wp m (\<lambda>v t. Q (Inr v, fst t) (s\<lparr>ho_streams := snd t\<rparr>)) (\<lambda>e t. Q (Inl e, fst t) (s\<lparr>ho_streams := snd t\<rparr>)) (x, ho_streams s)"
  shows "wp (on_event x m) Q E s"
  using assms by (auto simp: on_event_def wp_def split: prod.splits sum.splits)

lemma aside_record_stream:
  assumes C: "host_calls_ok D R H cur live" and a: "aside D live s t"
  shows "wp (record_stream D R x) (\<lambda>_. aside D live s) (\<lambda>e u. aside D live s u \<and> \<not> host_fault e) t"
proof -
  have step: "wp (sx_bind (on_event ev (record_on D R x)) (\<lambda>(r, ev'). case r of
       Inl e \<Rightarrow> sx_seq (hEvent_release (s_device x, ev')) (sx_throw e) | Inr _ \<Rightarrow> sx_ret (s_device x, ev')))
      (\<lambda>_. aside D live s) (\<lambda>e u. aside D live s u \<and> \<not> host_fault e) t"
    if a: "aside D live s t" and i: "0 \<le> s_device x" "s_device x < device_count D" for ev t
    unfolding wp_bind
  proof (rule wp_on_event, rule wp_conseq [OF evk_record_on [OF C _ i]])
    show "evk D live (host_ranges live t) (ev, ho_streams t)" using a by (simp add: evk_def aside_def)
  qed (use a in \<open>auto simp: evk_def intro!: aside_streams aside_release\<close>)
  show ?thesis
    using a step by (simp add: record_stream_def hEventPool_get_def wp_if) (auto simp: aside_def)
qed

lemma aside_record_streams:
  assumes C: "host_calls_ok D R H cur live" and a: "aside D live s t"
  shows "wp (record_streams D R es xs) (\<lambda>es' u. aside D live s u \<and> length es' = length es + length xs)
    (\<lambda>e u. aside D live s u \<and> \<not> host_fault e) t"
  using a
proof (induction xs arbitrary: es t)
  case (Cons x xs)
  have "wp (record_stream D R x) (\<lambda>e. wp (record_streams D R (es @ [e]) xs)
      (\<lambda>es' u. aside D live s u \<and> length es' = length es + length (x # xs)) (\<lambda>e u. aside D live s u \<and> \<not> host_fault e))
      (\<lambda>e. wp (sx_for es hEvent_release) (\<lambda>_ u. aside D live s u \<and> \<not> host_fault e) (\<lambda>e u. aside D live s u \<and> \<not> host_fault e)) t"
  proof (rule wp_conseq [OF aside_record_stream [OF C Cons.prems]])
    show "wp (record_streams D R (es @ [e]) xs)
      (\<lambda>es' u. aside D live s u \<and> length es' = length es + length (x # xs)) (\<lambda>e u. aside D live s u \<and> \<not> host_fault e) u"
      if "aside D live s u" for e u
      by (rule wp_conseq [OF Cons.IH [OF that]]) auto
    show "wp (sx_for es hEvent_release) (\<lambda>_ u. aside D live s u \<and> \<not> host_fault e) (\<lambda>e u. aside D live s u \<and> \<not> host_fault e) u"
      if "aside D live s u \<and> \<not> host_fault e" for e u
      using that by (intro wp_conseq [OF aside_releases [where E = "\<lambda>_ _. False"]]) auto
  qed
  then show ?case by simp
qed simp

lemma aside_empty_pool:
  assumes "aside D live s t" and "event_pool s = (\<lambda>_. [])"
  shows "wp (hEventPool_empty_cache D R) (\<lambda>_. aside D live s) E t"
  unfolding hEventPool_empty_cache_def
  by (rule wp_for [where I = "aside D live s"]) (use assms in \<open>auto simp: aside_def\<close>)

text \<open>Looking for a device with a context.\<close>

definition wkeep :: "'d driver \<Rightarrow> ('d \<Rightarrow> (nat \<times> nat) set) \<Rightarrow> 'd world \<Rightarrow> 'd world \<Rightarrow> bool" where
  "wkeep D live w w' \<longleftrightarrow> live (drv w') = live (drv w) \<and> k_device w' = k_device w"

lemma wkeep_has_context:
  assumes "keeps_live live (suDevicePrimaryCtxGetState D i)" and "wkeep D live w w'"
  shows "wp (hasPrimaryContext D i) (\<lambda>_. wkeep D live w) (\<lambda>e u. wkeep D live w u \<and> \<not> host_fault e) w'"
  using assms keeps_drv [OF assms(1)] by (fastforce simp: hasPrimaryContext_def wp_if wkeep_def split: prod.splits)

lemma wkeep_first:
  assumes "\<And>i. keeps_live live (suDevicePrimaryCtxGetState D i)" and "wkeep D live w w'" and "\<forall>i \<in> set is. 0 \<le> i \<and> i < device_count D"
  shows "wp (first_with_context D c is) (\<lambda>r u. wkeep D live w u \<and> (\<forall>i. r = Some i \<longrightarrow> 0 \<le> i \<and> i < device_count D))
    (\<lambda>e u. wkeep D live w u \<and> \<not> host_fault e) w'"
  using assms(2,3)
proof (induction "is" arbitrary: w')
  case (Cons i "is")
  then show ?case by (auto intro!: wp_conseq [OF wkeep_has_context [OF assms(1) Cons.prems(1)]] simp: wp_if)
qed simp

lemma wkeep_primary:
  assumes C: "host_calls_ok D R H cur live" and k: "0 \<le> k_device w \<longrightarrow> k_device w < device_count D"
  shows "wp (getDeviceIndexWithPrimaryContext D) (\<lambda>r u. wkeep D live w u \<and> (\<forall>i. r = Some i \<longrightarrow> 0 \<le> i \<and> i < device_count D))
    (\<lambda>e u. wkeep D live w u \<and> \<not> host_fault e) w"
proof -
  let ?i = "thread_device cur w"
  have i: "0 \<le> ?i" "?i < device_count D" using thread_device_bounds [OF host_calls(1) [OF C]] k by blast+
  have w: "wkeep D live w w" by (simp add: wkeep_def)
  have "wp (hasPrimaryContext D ?i) (\<lambda>has. wp (if has then sx_ret (Some ?i) else first_with_context D ?i [0 .. device_count D - 1])
      (\<lambda>r u. wkeep D live w u \<and> (\<forall>i. r = Some i \<longrightarrow> 0 \<le> i \<and> i < device_count D)) (\<lambda>e u. wkeep D live w u \<and> \<not> host_fault e))
      (\<lambda>e u. wkeep D live w u \<and> \<not> host_fault e) w"
    by (rule wp_conseq [OF wkeep_has_context [OF host_calls(8) [OF C] w]])
      (use i in \<open>auto simp: wp_if intro!: wkeep_first [OF host_calls(8) [OF C]]\<close>)
  then show ?thesis using i by (simp add: getDeviceIndexWithPrimaryContext_def wp_current_device [OF host_calls(1) [OF C]])
qed

end
