(* ===== verification/Host_Blocks.thy ===== *)
theory Host_Blocks
  imports Host_Safety
begin

text \<open>
  The invariant of the blocks of pinned memory, and that every operation of the allocator keeps it,
  however it ends.
\<close>

section \<open>The invariant\<close>

text \<open>The pending events of a block.\<close>

definition pending_of :: "(pooled_event \<times> nat) list \<Rightarrow> nat \<Rightarrow> nat" where
  "pending_of q b = length (filter (\<lambda>x. snd x = b) q)"

text \<open>The blocks of the allocator lie in different ranges.\<close>

definition placed_blocks :: "(nat \<times> nat) set \<Rightarrow> nat set \<Rightarrow> (nat \<Rightarrow> HBlock option) \<Rightarrow> bool" where
  "placed_blocks L B h \<longleftrightarrow> ranges_ok L \<and> finite (dom h) \<and> h 0 = None \<and> B \<subseteq> dom h
     \<and> (\<forall>b x. b \<in> B \<longrightarrow> h b = Some x \<longrightarrow> 0 < hb_size x \<and> (hb_ptr x, hb_size x) \<in> L)
     \<and> (\<forall>b c x y. b \<in> B \<longrightarrow> c \<in> B \<longrightarrow> h b = Some x \<longrightarrow> h c = Some y \<longrightarrow> hb_ptr x = hb_ptr y \<longrightarrow> b = c)"

text \<open>The list of free blocks and the queue of events.\<close>

definition listed_blocks :: "nat set \<Rightarrow> (nat \<Rightarrow> HBlock option) \<Rightarrow> nat list \<Rightarrow> (pooled_event \<times> nat) list \<Rightarrow> bool" where
  "listed_blocks B h fl q \<longleftrightarrow> ordered BlockComparator (hkey h) fl
     \<and> (\<forall>b \<in> set fl. b \<in> B \<and> (\<exists>x. h b = Some x \<and> \<not> hb_allocated x \<and> hb_event_count x = 0))
     \<and> (\<forall>b \<in> snd ` set q. b \<in> B)
     \<and> (\<forall>b x. b \<in> B \<longrightarrow> h b = Some x \<longrightarrow> int (pending_of q b) \<le> hb_event_count x \<and> (hb_allocated x \<longrightarrow> hb_event_count x = 0))"

text \<open>The blocks the client has, with their addresses and the sizes it asked for.\<close>

type_synonym holding = "nat \<Rightarrow> (nat \<times> nat) option"

definition held_blocks :: "holding \<Rightarrow> nat set \<Rightarrow> (nat \<Rightarrow> HBlock option) \<Rightarrow> bool" where
  "held_blocks m B h \<longleftrightarrow> (\<forall>b p n. m b = Some (p, n) \<longrightarrow> b \<in> B \<and> (\<exists>x. h b = Some x \<and> hb_allocated x \<and> hb_ptr x = p \<and> n \<le> hb_size x))
     \<and> (\<forall>b x. b \<in> B \<longrightarrow> h b = Some x \<longrightarrow> hb_allocated x \<longrightarrow> m b \<noteq> None)"

text \<open>The map from addresses to blocks.\<close>

definition indexed_blocks :: "(nat \<Rightarrow> nat option) \<Rightarrow> nat set \<Rightarrow> (nat \<Rightarrow> HBlock option) \<Rightarrow> bool" where
  "indexed_blocks pm B h \<longleftrightarrow> (\<forall>p b. pm p = Some b \<longrightarrow> b \<in> B \<and> (\<exists>x. h b = Some x \<and> hb_ptr x = p))"

definition hinv :: "'d driver \<Rightarrow> ('d \<Rightarrow> (nat \<times> nat) set) \<Rightarrow> holding \<Rightarrow> 'd hosts \<Rightarrow> bool" where
  "hinv D live m s \<longleftrightarrow> thread_ok D (ho_streams s) \<and> event_pool s = (\<lambda>_. [])
     \<and> placed_blocks (host_ranges live s) (ho_blocks s) (ho_heap s)
     \<and> listed_blocks (ho_blocks s) (ho_heap s) (free_list s) (supa_events s) \<and> held_blocks m (ho_blocks s) (ho_heap s)
     \<and> indexed_blocks (ptr_to_block s) (ho_blocks s) (ho_heap s)"

lemma hinv_aside: "hinv D live m s \<Longrightarrow> aside D live s t \<Longrightarrow> hinv D live m t"
  by (simp add: hinv_def aside_def)

lemma hinv_thread: "hinv D live m s \<Longrightarrow> thread_ok D (ho_streams s)"
  by (simp add: hinv_def)

lemma aside_self: "hinv D live m s \<Longrightarrow> aside D live s s"
  by (rule aside_refl) (rule hinv_thread)

lemma hinv_block: "hinv D live m s \<Longrightarrow> b \<in> ho_blocks s \<Longrightarrow> \<exists>x. ho_heap s b = Some x"
  unfolding hinv_def placed_blocks_def by auto

section \<open>Changes of one block\<close>

text \<open>A change that keeps the address and the size.\<close>

definition same_place :: "HBlock \<Rightarrow> HBlock \<Rightarrow> bool" where
  "same_place x y \<longleftrightarrow> hb_ptr y = hb_ptr x \<and> hb_size y = hb_size x"

lemma hkey_same: "h b = Some x \<Longrightarrow> same_place x y \<Longrightarrow> hkey (h(b \<mapsto> y)) = hkey h"
  by (auto simp: hkey_def same_place_def fun_eq_iff)

lemma placed_same: "placed_blocks L B h \<Longrightarrow> h b = Some x \<Longrightarrow> same_place x y \<Longrightarrow> placed_blocks L B (h(b \<mapsto> y))"
proof -
  assume P: "placed_blocks L B h" and x: "h b = Some x" "same_place x y"
  have z: "\<exists>w. h c = Some w \<and> hb_ptr w = hb_ptr z \<and> hb_size w = hb_size z" if "(h(b \<mapsto> y)) c = Some z" for c z
    using that x by (auto simp: same_place_def split: if_splits)
  have "b \<noteq> 0" using P x(1) unfolding placed_blocks_def by (metis option.distinct(1))
  moreover have "dom (h(b \<mapsto> y)) = dom h" using x by auto
  moreover have "\<forall>c z. c \<in> B \<longrightarrow> (h(b \<mapsto> y)) c = Some z \<longrightarrow> 0 < hb_size z \<and> (hb_ptr z, hb_size z) \<in> L"
    using P z unfolding placed_blocks_def by metis
  moreover have "\<forall>c d z w. c \<in> B \<longrightarrow> d \<in> B \<longrightarrow> (h(b \<mapsto> y)) c = Some z \<longrightarrow> (h(b \<mapsto> y)) d = Some w \<longrightarrow> hb_ptr z = hb_ptr w \<longrightarrow> c = d"
    using P z unfolding placed_blocks_def by metis
  ultimately show ?thesis using P unfolding placed_blocks_def by simp
qed

lemma free_list_member:
  "listed_blocks B h fl q \<Longrightarrow> b \<in> set fl \<Longrightarrow> h b = Some x \<Longrightarrow> \<not> hb_allocated x \<and> hb_event_count x = 0"
  unfolding listed_blocks_def by fastforce

lemma pending_of_pos: "b \<in> snd ` set q \<longleftrightarrow> 0 < pending_of q b"
  by (auto simp: pending_of_def length_greater_0_conv filter_empty_conv image_iff)

lemma listed_update:
  assumes "listed_blocks B h fl q" and "h b = Some x" and "same_place x y" and "b \<notin> set fl"
    and "b \<in> B \<Longrightarrow> int (pending_of q b) \<le> hb_event_count y \<and> (hb_allocated y \<longrightarrow> hb_event_count y = 0)"
  shows "listed_blocks B (h(b \<mapsto> y)) fl q"
  using assms unfolding listed_blocks_def hkey_same [of h b x y, OF assms(2,3)] by auto

lemma held_update: "held_blocks m B h \<Longrightarrow> h b = Some x \<Longrightarrow> same_place x y \<Longrightarrow> hb_allocated y = hb_allocated x \<Longrightarrow>
    held_blocks m B (h(b \<mapsto> y))"
  unfolding held_blocks_def same_place_def fun_upd_apply by (smt (verit) option.inject)

lemma indexed_same: "indexed_blocks pm B h \<Longrightarrow> h b = Some x \<Longrightarrow> same_place x y \<Longrightarrow> indexed_blocks pm B (h(b \<mapsto> y))"
  unfolding indexed_blocks_def same_place_def by fastforce

lemma hinv_parts:
  assumes "hinv D live m s"
  shows "placed_blocks (host_ranges live s) (ho_blocks s) (ho_heap s)"
    and "listed_blocks (ho_blocks s) (ho_heap s) (free_list s) (supa_events s)" and "held_blocks m (ho_blocks s) (ho_heap s)"
    and "indexed_blocks (ptr_to_block s) (ho_blocks s) (ho_heap s)"
  using assms by (auto simp: hinv_def)

text \<open>A block that becomes free.\<close>

lemma listed_free:
  assumes "placed_blocks L B h" and "listed_blocks B h fl q" and "b \<in> B" and "h b = Some x" and "b \<notin> set fl"
    and "\<not> hb_allocated x" and "hb_event_count x = 0"
  shows "listed_blocks B h (set_insert BlockComparator (hkey h) b fl) q"
proof -
  have o: "ordered BlockComparator (hkey h) fl" using assms(2) by (simp add: listed_blocks_def)
  have "BlockComparator (hkey h b) (hkey h c) \<or> BlockComparator (hkey h c) (hkey h b)" if c: "c \<in> set fl" for c
  proof -
    obtain y where y: "h c = Some y" "c \<in> B" using assms(2) c unfolding listed_blocks_def by blast
    have "b \<noteq> c" using c assms(5) by blast
    moreover have "hb_ptr x = hb_ptr y \<longrightarrow> b = c" using assms(1,3,4) y unfolding placed_blocks_def by blast
    ultimately show ?thesis using assms(4) y(1) by (auto simp: hkey_def BlockComparator_def)
  qed
  then have "set (set_insert BlockComparator (hkey h) b fl) = insert b (set fl)"
    using by_host_size.insert_set(1) [OF o] by blast
  then show ?thesis using assms(2-4,6,7) by_host_size.insert_ordered [OF o] unfolding listed_blocks_def by simp
qed

section \<open>Processing events\<close>

lemma wp_finish_event:
  assumes I: "hinv D live m s" and b: "b \<in> ho_blocks s" and x: "ho_heap s b = Some x" "int (pending_of (supa_events s) b) + 1 \<le> hb_event_count x"
  shows "wp (finish_event b) (\<lambda>_ t. hinv D live m t \<and> supa_events t = supa_events s) (\<lambda>_ _. False) s"
proof -
  let ?y = "x\<lparr>hb_event_count := hb_event_count x - 1\<rparr>" and ?h = "(ho_heap s)(b \<mapsto> x\<lparr>hb_event_count := hb_event_count x - 1\<rparr>)"
  note pl = hinv_parts(1) [OF I] and li = hinv_parts(2) [OF I] and he = hinv_parts(3) [OF I]
  have sp: "same_place x ?y" by (simp add: same_place_def)
  have al: "\<not> hb_allocated x" using li b x unfolding listed_blocks_def by fastforce
  have fl: "b \<notin> set (free_list s)" using free_list_member [OF li _ x(1)] x(2) by auto
  have pl': "placed_blocks (host_ranges live s) (ho_blocks s) ?h"
    and li': "listed_blocks (ho_blocks s) ?h (free_list s) (supa_events s)" and he': "held_blocks m (ho_blocks s) ?h"
    using placed_same [OF pl x(1) sp] listed_update [OF li x(1) sp fl] held_update [OF he x(1) sp] x(2) al by auto
  have "listed_blocks (ho_blocks s) ?h (set_insert BlockComparator (hkey ?h) b (free_list s)) (supa_events s)"
    if "hb_event_count x = 1"
    by (rule listed_free [OF pl' li' b, where x = ?y]) (use that al fl in auto)
  then show ?thesis
    using I x(1) al pl' li' he' indexed_same [OF hinv_parts(4) [OF I] x(1) sp] by (auto simp: finish_event_def hderef_def set_hblock_def free_list_insert_def hinv_def)
qed

text \<open>The state after the oldest event was taken.\<close>

lemma hinv_pop:
  assumes I: "hinv D live m s" and q: "supa_events s = q @ [(e, b)]"
  shows "hinv D live m (s\<lparr>supa_events := q\<rparr>)" and "b \<in> ho_blocks s"
    and "ho_heap s b = Some x \<Longrightarrow> int (pending_of q b) + 1 \<le> hb_event_count x"
proof -
  have w: "pending_of (q @ [(e, b)]) c = pending_of q c + (if c = b then 1 else 0)" for c by (simp add: pending_of_def)
  have li: "listed_blocks (ho_blocks s) (ho_heap s) (free_list s) (q @ [(e, b)])" using I q by (simp add: hinv_def)
  then show "b \<in> ho_blocks s" by (simp add: listed_blocks_def)
  then show "ho_heap s b = Some x \<Longrightarrow> int (pending_of q b) + 1 \<le> hb_event_count x"
    using li w [of b] unfolding listed_blocks_def by fastforce
  have "listed_blocks (ho_blocks s) (ho_heap s) (free_list s) q"
    using li unfolding listed_blocks_def w by (auto split: if_splits)
  then show "hinv D live m (s\<lparr>supa_events := q\<rparr>)" using I by (simp add: hinv_def)
qed

lemma wp_events_loop:
  assumes C: "host_calls_ok D R H cur live" and "hinv D live m s" and "length (supa_events s) < fuel"
  shows "wp (events_loop D (-1) k fuel c) (\<lambda>_. hinv D live m) (\<lambda>e t. hinv D live m t \<and> \<not> host_fault e) s"
  using assms(2,3)
proof (induction fuel arbitrary: s)
  case (Suc fuel)
  show ?case
  proof (cases "supa_events s" rule: rev_cases)
    case Nil then show ?thesis using Suc.prems by simp
  next
    case (snoc q x)
    obtain e b where q: "supa_events s = q @ [(e, b)]" using snoc by (cases x) auto
    let ?t = "s\<lparr>supa_events := q\<rparr>"
    note pop = hinv_pop [OF Suc.prems(1) q]
    obtain x where x: "ho_heap s b = Some x" using hinv_block [OF Suc.prems(1) pop(2)] by blast
    have again: "hinv D live m (u\<lparr>supa_events := supa_events u @ [(e, b)]\<rparr>)" if "aside D live ?t u" for u
    proof -
      have "aside D live s (u\<lparr>supa_events := supa_events u @ [(e, b)]\<rparr>)" using that q by (simp add: aside_def)
      then show ?thesis by (rule hinv_aside [OF Suc.prems(1)])
    qed
    have go: "wp (finish_event b) (\<lambda>_ v. wp (hEvent_release e) (\<lambda>_. wp (events_loop D (-1) k fuel c) (\<lambda>_. hinv D live m)
          (\<lambda>e t. hinv D live m t \<and> \<not> host_fault e)) (\<lambda>e t. hinv D live m t \<and> \<not> host_fault e) v)
        (\<lambda>e' v. wp (hEvent_release e) (\<lambda>_ t. hinv D live m t \<and> \<not> host_fault e') (\<lambda>e t. hinv D live m t \<and> \<not> host_fault e) v) u"
      if u: "aside D live ?t u" for u
    proof -
      have "b \<in> ho_blocks u" "ho_heap u b = Some x" "int (pending_of (supa_events u) b) + 1 \<le> hb_event_count x"
        using u x pop(2) pop(3) [OF x] by (simp_all add: aside_def)
      note finish = wp_finish_event [OF hinv_aside [OF pop(1) u] this]
      show ?thesis
      proof (rule wp_conseq [OF finish], goal_cases)
        case (1 _ v)
        have "wp (hEvent_release e) (\<lambda>_. aside D live v) (\<lambda>_ _. False) v" by (rule aside_release) (use 1 in \<open>blast intro: aside_self\<close>)
        then show ?case
        proof (rule wp_conseq)
          fix w assume w: "aside D live v w"
          then have "length (supa_events w) < fuel" using 1 u q Suc.prems(2) by (simp add: aside_def)
          then show "wp (events_loop D (-1) k fuel c) (\<lambda>_. hinv D live m) (\<lambda>e t. hinv D live m t \<and> \<not> host_fault e) w"
            using 1 w by (intro Suc.IH) (auto intro: hinv_aside)
        qed simp
      qed simp
    qed
    have "wp (query_event D (snd e)) (\<lambda>ready. wp (if \<not> ready then sx_mod (\<lambda>s. s\<lparr>supa_events := supa_events s @ [(e, b)]\<rparr>)
          else sx_seq (sx_finally (finish_event b) (hEvent_release e)) (events_loop D (-1) k fuel c))
          (\<lambda>_. hinv D live m) (\<lambda>e t. hinv D live m t \<and> \<not> host_fault e))
        (\<lambda>e'. wp (hEvent_release e) (\<lambda>_ t. hinv D live m t \<and> \<not> host_fault e') (\<lambda>e t. hinv D live m t \<and> \<not> host_fault e)) ?t"
    proof (rule wp_conseq [OF aside_query_event [OF C aside_self [OF pop(1)]]], goal_cases)
      case (1 ready u) then show ?case using again [OF 1] go [OF 1] by (simp add: wp_if)
    next
      case (2 e' u)
      then show ?case
        by (intro wp_conseq [OF aside_release [where E = "\<lambda>_ _. False"]]) (auto intro: hinv_aside [OF pop(1)])
    qed
    then show ?thesis using q by (simp add: Let_def)
  qed
qed simp

lemma wp_process:
  assumes "host_calls_ok D R H cur live" and "hinv D live m s"
  shows "wp (host_process_events D) (\<lambda>_. hinv D live m) (\<lambda>e t. hinv D live m t \<and> \<not> host_fault e) s"
  unfolding host_process_events_def process_events_for_specific_size_def wp_bind wp_get
  by (rule wp_events_loop [OF assms]) simp

end
