(* ===== verification/Host_Properties.thy ===== *)
theory Host_Properties
  imports Host_Blocks
begin

text \<open>
  The operations of the allocator of pinned memory keep its invariant, and the properties of its
  histories.
\<close>

section \<open>Recording and freeing\<close>

lemma wp_use_on_stream:
  assumes I: "hinv D live m s" and b: "b \<in> ho_blocks s"
  shows "wp (use_on_stream b x) (\<lambda>_ t. hinv D live m t \<and> m b \<noteq> None) (\<lambda>e t. t = s \<and> \<not> host_fault e) s"
proof -
  obtain k where k: "ho_heap s b = Some k" using hinv_block [OF I b] by blast
  let ?y = "k\<lparr>hb_streams := List.insert x (hb_streams k)\<rparr>"
  note pl = hinv_parts(1) [OF I] and li = hinv_parts(2) [OF I] and he = hinv_parts(3) [OF I]
  have sp: "same_place k ?y" by (simp add: same_place_def)
  have "hinv D live m (s\<lparr>ho_heap := (ho_heap s)(b \<mapsto> ?y)\<rparr>) \<and> m b \<noteq> None" if al: "hb_allocated k"
  proof -
    have "b \<notin> set (free_list s)" using free_list_member [OF li _ k] al by blast
    moreover have "int (pending_of (supa_events s) b) \<le> hb_event_count k \<and> (hb_allocated k \<longrightarrow> hb_event_count k = 0)"
      using li b k unfolding listed_blocks_def by blast
    ultimately have "listed_blocks (ho_blocks s) ((ho_heap s)(b \<mapsto> ?y)) (free_list s) (supa_events s)"
      by (intro listed_update [OF li k sp]) auto
    moreover have "m b \<noteq> None" using he b k al unfolding held_blocks_def by blast
    ultimately show ?thesis using I placed_same [OF pl k sp] held_update [OF he k sp] indexed_same [OF hinv_parts(4) [OF I] k sp] by (simp add: hinv_def)
  qed
  then show ?thesis using k by (simp add: use_on_stream_def hderef_def set_hblock_def)
qed

lemma wp_record_event:
  assumes "hinv D live m s"
  shows "wp (record_event p b x) (\<lambda>_. hinv D live m) (\<lambda>e t. hinv D live m t \<and> \<not> host_fault e) s"
proof -
  have "wp (use_on_stream c x) (\<lambda>_. hinv D live m) (\<lambda>e t. hinv D live m t \<and> \<not> host_fault e) s" if "c \<in> ho_blocks s" for c
    by (rule wp_conseq [OF wp_use_on_stream [OF assms that]]) (use assms in auto)
  moreover have "ptr_to_block s p = Some c \<Longrightarrow> c \<in> ho_blocks s" for c using hinv_parts(4) [OF assms] by (simp add: indexed_blocks_def)
  ultimately show ?thesis using assms by (auto simp: record_event_def wp_if split: option.splits)
qed

text \<open>Putting the events of a block in the queue.\<close>

lemma push_events:
  "wp (sx_for es (\<lambda>e. sx_mod (\<lambda>s. s\<lparr>supa_events := (e, b) # supa_events s\<rparr>))) Q E
    = (\<lambda>s. Q () (s\<lparr>supa_events := rev (map (\<lambda>e. (e, b)) es) @ supa_events s\<rparr>))"
  by (induction es) simp_all

lemma pending_of_push: "pending_of (rev (map (\<lambda>e. (e, b)) es) @ q) c = pending_of q c + (if c = b then length es else 0)"
  by (induction es arbitrary: q) (auto simp: pending_of_def rev_map filter_empty_conv)

lemma listed_push:
  assumes "listed_blocks B h fl q" and "h b = Some x" and "b \<in> B" and "b \<notin> set fl" and "\<not> hb_allocated x"
    and "int (pending_of q b + length es) \<le> hb_event_count x"
  shows "listed_blocks B h fl (rev (map (\<lambda>e. (e, b)) es) @ q)"
  using assms unfolding listed_blocks_def pending_of_push by auto

text \<open>A block that the client gives back, with the number of events it waits for.\<close>

lemma hinv_drop:
  assumes I: "hinv D live m s" and x: "m b \<noteq> None" "ho_heap s b = Some x"
    and y: "same_place x y" "\<not> hb_allocated y" "0 \<le> hb_event_count y"
  shows "hinv D live (m(b := None)) (s\<lparr>ho_heap := (ho_heap s)(b \<mapsto> y)\<rparr>)" and "b \<in> ho_blocks s" and "b \<noteq> 0"
    and "b \<notin> set (free_list s)" and "hb_event_count x = 0" and "pending_of (supa_events s) b = 0"
proof -
  note pl = hinv_parts(1) [OF I] and li = hinv_parts(2) [OF I] and he = hinv_parts(3) [OF I]
  show b: "b \<in> ho_blocks s" using he x(1) unfolding held_blocks_def by fast
  have al: "hb_allocated x" using he x unfolding held_blocks_def by fastforce
  show fl: "b \<notin> set (free_list s)" using free_list_member [OF li _ x(2)] al by blast
  show ec: "hb_event_count x = 0" using li b x(2) al unfolding listed_blocks_def by blast
  then show w: "pending_of (supa_events s) b = 0" using li b x(2) unfolding listed_blocks_def by fastforce
  show "b \<noteq> 0" using pl x(2) unfolding placed_blocks_def by (metis option.distinct(1))
  have "listed_blocks (ho_blocks s) ((ho_heap s)(b \<mapsto> y)) (free_list s) (supa_events s)"
    by (rule listed_update [OF li x(2) y(1) fl]) (use y w in auto)
  moreover have "held_blocks (m(b := None)) (ho_blocks s) ((ho_heap s)(b \<mapsto> y))"
    using he y(2) unfolding held_blocks_def by auto
  ultimately show "hinv D live (m(b := None)) (s\<lparr>ho_heap := (ho_heap s)(b \<mapsto> y)\<rparr>)"
    using I placed_same [OF pl x(2) y(1)] indexed_same [OF hinv_parts(4) [OF I] x(2) y(1)] by (simp add: hinv_def)
qed

lemma hinv_free_list:
  "hinv D live m s \<Longrightarrow> listed_blocks (ho_blocks s) (ho_heap s) fl (supa_events s) \<Longrightarrow> hinv D live m (s\<lparr>free_list := fl\<rparr>)"
  by (simp add: hinv_def)

lemma hinv_queue:
  "hinv D live m s \<Longrightarrow> listed_blocks (ho_blocks s) (ho_heap s) (free_list s) q \<Longrightarrow> hinv D live m (s\<lparr>supa_events := q\<rparr>)"
  by (simp add: hinv_def)

lemma free_unused:
  assumes I: "hinv D live m s" and x: "m b \<noteq> None" "ho_heap s b = Some x" and n: "hb_streams x = []"
  shows "wp (host_free D R b) (\<lambda>_ t. hinv D live (m(b := None)) t \<and> pending_of (supa_events t) b = 0) (\<lambda>_ _. False) s"
proof -
  let ?y = "x\<lparr>hb_allocated := False\<rparr>"
  let ?t = "s\<lparr>ho_heap := (ho_heap s)(b \<mapsto> ?y)\<rparr>"
  have "hb_event_count x = 0" by (rule hinv_drop(5) [OF I x, of "x\<lparr>hb_allocated := False, hb_event_count := 0\<rparr>"]) (simp_all add: same_place_def)
  then have y: "same_place x ?y" "\<not> hb_allocated ?y" "0 \<le> hb_event_count ?y" by (simp_all add: same_place_def)
  note d = hinv_drop [OF I x y]
  have "listed_blocks (ho_blocks ?t) (ho_heap ?t) (set_insert BlockComparator (hkey (ho_heap ?t)) b (free_list ?t)) (supa_events ?t)"
  proof (rule listed_free [OF hinv_parts(1,2) [OF d(1)]])
    show "ho_heap ?t b = Some ?y" by simp
  qed (use d(2,4,5) y in simp_all)
  from hinv_free_list [OF d(1) this] show ?thesis
    using d(3,5,6) n x(2) by (simp add: host_free_def hderef_def set_hblock_def free_list_insert_def)
qed

lemma free_used:
  assumes C: "host_calls_ok D R H cur live" and I: "hinv D live m s" and x: "m b \<noteq> None" "ho_heap s b = Some x" and n: "hb_streams x \<noteq> []"
  shows "wp (host_free D R b) (\<lambda>_ t. hinv D live (m(b := None)) t \<and> pending_of (supa_events t) b = length (hb_streams x) \<and> b \<notin> set (free_list t))
    (\<lambda>e t. hinv D live (m(b := None)) t \<and> \<not> host_fault e) s"
proof -
  let ?n = "length (hb_streams x)"
  let ?y = "x\<lparr>hb_allocated := False, hb_event_count := hb_event_count x + int ?n, hb_streams := []\<rparr>"
  let ?t = "s\<lparr>ho_heap := (ho_heap s)(b \<mapsto> ?y)\<rparr>"
  have ec: "hb_event_count x = 0" by (rule hinv_drop(5) [OF I x, of "x\<lparr>hb_allocated := False, hb_event_count := 0\<rparr>"]) (simp_all add: same_place_def)
  then have y: "same_place x ?y" "\<not> hb_allocated ?y" "0 \<le> hb_event_count ?y" by (simp_all add: same_place_def)
  note d = hinv_drop [OF I x y]
  let ?Q = "\<lambda>t. hinv D live (m(b := None)) t \<and> pending_of (supa_events t) b = ?n \<and> b \<notin> set (free_list t)"
  let ?E = "\<lambda>e t. hinv D live (m(b := None)) t \<and> \<not> host_fault e"
  have "wp (record_streams D R [] (hb_streams x)) (\<lambda>es t. ?Q (t\<lparr>supa_events := rev (map (\<lambda>e. (e, b)) es) @ supa_events t\<rparr>)) ?E ?t"
  proof (rule wp_conseq [OF aside_record_streams [OF C aside_self [OF d(1)]]], goal_cases)
    case (1 es u)
    then have a: "aside D live ?t u" and len: "length es = ?n" by simp_all
    have u: "hinv D live (m(b := None)) u" by (rule hinv_aside [OF d(1) a])
    have f: "ho_blocks u = ho_blocks s" "ho_heap u b = Some ?y" "free_list u = free_list s" "supa_events u = supa_events s"
      using a by (simp_all add: aside_def)
    have "listed_blocks (ho_blocks u) (ho_heap u) (free_list u) (rev (map (\<lambda>e. (e, b)) es) @ supa_events u)"
      by (rule listed_push [OF hinv_parts(2) [OF u] f(2)]) (use f d(2,4,6) len ec in simp_all)
    from hinv_queue [OF u this] show ?case using f d(4,6) len by (simp add: pending_of_push)
  qed (use hinv_aside [OF d(1)] in blast)
  then have "wp (sx_bind (record_streams D R [] (hb_streams x)) (\<lambda>es. sx_for es (\<lambda>e. sx_mod (\<lambda>s. s\<lparr>supa_events := (e, b) # supa_events s\<rparr>)))) (\<lambda>_. ?Q) ?E ?t"
    by (simp only: wp_bind push_events)
  then show ?thesis using d(3) n x(2) by (simp add: host_free_def hderef_def set_hblock_def)
qed

lemma wp_host_free:
  assumes C: "host_calls_ok D R H cur live" and I: "hinv D live m s" and x: "m b \<noteq> None" "ho_heap s b = Some x"
  shows "wp (host_free D R b) (\<lambda>_ t. hinv D live (m(b := None)) t \<and> pending_of (supa_events t) b = length (hb_streams x)
      \<and> (hb_streams x \<noteq> [] \<longrightarrow> b \<notin> set (free_list t)))
    (\<lambda>e t. hinv D live (m(b := None)) t \<and> \<not> host_fault e) s"
proof (cases "hb_streams x = []")
  case True
  show ?thesis by (rule wp_conseq [OF free_unused [OF I x True]]) (use True in auto)
next
  case False
  show ?thesis by (rule wp_conseq [OF free_used [OF C I x False]]) auto
qed

section \<open>Allocating\<close>

lemma fresh_ranges: "ranges_ok A \<Longrightarrow> fresh_range A p n \<Longrightarrow> 0 < n \<Longrightarrow> ranges_ok (insert (p, n) A)"
  unfolding ranges_ok_def fresh_range_def by (auto simp: Int_commute)

lemma fresh_ptr: "ranges_ok A \<Longrightarrow> fresh_range A p n \<Longrightarrow> 0 < n \<Longrightarrow> (q, k) \<in> A \<Longrightarrow> q \<noteq> p"
  unfolding ranges_ok_def fresh_range_def span_def by fastforce

text \<open>Mapping pages writes to memory only.\<close>

lemma aside_page_loop: "aside D live s t \<Longrightarrow> wp (page_loop fuel p stop sz) (\<lambda>_. aside D live s) (\<lambda>_. aside D live s) t"
proof (induction fuel arbitrary: p t)
  case (Suc fuel)
  have "aside D live s (t\<lparr>written := ps\<rparr>)" for ps using Suc.prems by (simp add: aside_def)
  then show ?case using Suc by (simp add: touch_def wp_if)
qed simp

lemma aside_map_one: "aside D live s t \<Longrightarrow> wp (mapPagesForRegister p k i n sz) (\<lambda>_. aside D live s) (\<lambda>_. aside D live s) t"
  unfolding mapPagesForRegister_def by (simp add: aside_page_loop split: prod.splits del: page_loop.simps)

lemma aside_map_pages: "aside D live s t \<Longrightarrow> wp (map_pages H n p k) (\<lambda>_. aside D live s) (\<lambda>_. aside D live s) t"
  unfolding map_pages_def wp_if
  by (auto intro!: wp_for [where I = "aside D live s"] aside_map_one simp del: wp_if)

text \<open>A block of fresh memory.\<close>

lemma hinv_ranges:
  assumes I: "hinv D live m s" and t: "thread_ok D st" "ranges_ok (live (drv (st_world st)))"
    and sub: "host_ranges live s \<subseteq> live (drv (st_world st))"
  shows "hinv D live m (s\<lparr>ho_streams := st\<rparr>)"
proof -
  have "placed_blocks (live (drv (st_world st))) (ho_blocks s) (ho_heap s)"
    using hinv_parts(1) [OF I] t(2) sub unfolding placed_blocks_def by blast
  then show ?thesis using I t(1) by (simp add: hinv_def)
qed

text \<open>The memory the new block gets: a range that no block has.\<close>

definition unused_range :: "('d \<Rightarrow> (nat \<times> nat) set) \<Rightarrow> 'd hosts \<Rightarrow> nat \<Rightarrow> nat \<Rightarrow> bool" where
  "unused_range live s p n \<longleftrightarrow> (p, n) \<in> host_ranges live s \<and> (\<forall>b x. b \<in> ho_blocks s \<longrightarrow> ho_heap s b = Some x \<longrightarrow> hb_ptr x \<noteq> p)"

lemma placed_new:
  assumes P: "placed_blocks L B h" and u: "(p, k) \<in> L" "\<And>b x. b \<in> B \<Longrightarrow> h b = Some x \<Longrightarrow> hb_ptr x \<noteq> p" "0 < k"
    and b: "b \<notin> dom h" "b \<noteq> 0" and y: "hb_ptr y = p" "hb_size y = k"
  shows "placed_blocks L (insert b B) (h(b \<mapsto> y))"
proof -
  note d = P [unfolded placed_blocks_def]
  have "0 < hb_size z \<and> (hb_ptr z, hb_size z) \<in> L" if "c \<in> insert b B" "(h(b \<mapsto> y)) c = Some z" for c z
  proof (cases "c = b")
    case True then show ?thesis using that u y by simp
  next
    case False then show ?thesis using that d by auto
  qed
  moreover have "c = e" if "c \<in> insert b B" "e \<in> insert b B" "(h(b \<mapsto> y)) c = Some z" "(h(b \<mapsto> y)) e = Some w" "hb_ptr z = hb_ptr w" for c e z w
  proof (cases "c = b \<or> e = b")
    case True
    then show ?thesis using that u(2) [of c z] u(2) [of e w] y(1) by (auto split: if_splits)
  next
    case False
    then have "c \<in> B" "e \<in> B" "h c = Some z" "h e = Some w" using that by auto
    then show ?thesis using d that(5) by blast
  qed
  moreover have "finite (dom (h(b \<mapsto> y)))" "(h(b \<mapsto> y)) 0 = None" "insert b B \<subseteq> dom (h(b \<mapsto> y))" using d b by auto
  ultimately show ?thesis using d unfolding placed_blocks_def by blast
qed

lemma listed_new:
  assumes P: "placed_blocks L B h" and li: "listed_blocks B h fl q" and b: "b \<notin> dom h" and y: "hb_event_count y = 0"
  shows "listed_blocks (insert b B) (h(b \<mapsto> y)) fl q" and "b \<notin> snd ` set q" and "b \<notin> B"
proof -
  show nb: "b \<notin> B" using P b unfolding placed_blocks_def by blast
  show w: "b \<notin> snd ` set q" using li nb unfolding listed_blocks_def by blast
  have fl: "b \<notin> set fl" using li nb unfolding listed_blocks_def by blast
  have "hkey (h(b \<mapsto> y)) c = hkey h c" if "c \<in> set fl" for c
    using that fl by (auto simp: hkey_def)
  then have "ordered BlockComparator (hkey (h(b \<mapsto> y))) fl"
    using li set_ops_cong(4) [of fl "hkey (h(b \<mapsto> y))" "hkey h" BlockComparator] unfolding listed_blocks_def by blast
  moreover have "c \<in> insert b B \<and> (\<exists>x. (h(b \<mapsto> y)) c = Some x \<and> \<not> hb_allocated x \<and> hb_event_count x = 0)" if "c \<in> set fl" for c
  proof -
    have "c \<noteq> b" using that fl by blast
    then show ?thesis using that li unfolding listed_blocks_def by auto
  qed
  moreover have "int (pending_of q c) \<le> hb_event_count x \<and> (hb_allocated x \<longrightarrow> hb_event_count x = 0)"
    if "c \<in> insert b B" "(h(b \<mapsto> y)) c = Some x" for c x
  proof (cases "c = b")
    case True then show ?thesis using that(2) w y by (simp add: pending_of_pos)
  next
    case False then show ?thesis using that li unfolding listed_blocks_def by simp
  qed
  ultimately show "listed_blocks (insert b B) (h(b \<mapsto> y)) fl q" using li unfolding listed_blocks_def by auto
qed

lemma held_new:
  assumes "held_blocks m B h" and "b \<notin> B" and "hb_ptr y = p" "n \<le> hb_size y" "hb_allocated y"
  shows "held_blocks (m(b \<mapsto> (p, n))) (insert b B) (h(b \<mapsto> y))" and "m b = None"
proof -
  show "m b = None" using assms(1,2) unfolding held_blocks_def by (metis option.exhaust surj_pair)
  show "held_blocks (m(b \<mapsto> (p, n))) (insert b B) (h(b \<mapsto> y))" using assms unfolding held_blocks_def by simp
qed

lemma hinv_new_block:
  assumes I: "hinv D live m s" and u: "unused_range live s p k" "0 < k" "n \<le> k" and b: "b \<notin> dom (ho_heap s)" "b \<noteq> 0"
    and pb: "indexed_blocks pb (insert b (ho_blocks s)) ((ho_heap s)(b \<mapsto> y))" and y: "y = \<lparr>hb_size = k, hb_ptr = p, hb_allocated = True, hb_event_count = 0, hb_streams = []\<rparr>"
  shows "hinv D live (m(b \<mapsto> (p, n))) (s\<lparr>ho_heap := (ho_heap s)(b \<mapsto> y), ho_blocks := insert b (ho_blocks s), ptr_to_block := pb\<rparr>)"
    and "m b = None" and "b \<notin> snd ` set (supa_events s)"
proof -
  note parts = hinv_parts [OF I]
  have yf: "hb_ptr y = p" "hb_size y = k" "hb_event_count y = 0" "hb_allocated y" by (simp_all add: y)
  note li = listed_new [OF parts(1,2) b(1) yf(3)]
  note he = held_new [OF parts(3) li(3) yf(1), of n]
  show "b \<notin> snd ` set (supa_events s)" by (rule li(2))
  show "m b = None" by (rule he(2)) (use yf u(3) in auto)
  have "placed_blocks (host_ranges live s) (insert b (ho_blocks s)) ((ho_heap s)(b \<mapsto> y))"
    using u by (intro placed_new [OF parts(1) _ _ u(2) b yf(1,2)]) (auto simp: unused_range_def)
  moreover have "held_blocks (m(b \<mapsto> (p, n))) (insert b (ho_blocks s)) ((ho_heap s)(b \<mapsto> y))" by (rule he(1)) (use yf u(3) in auto)
  ultimately show "hinv D live (m(b \<mapsto> (p, n))) (s\<lparr>ho_heap := (ho_heap s)(b \<mapsto> y), ho_blocks := insert b (ho_blocks s), ptr_to_block := pb\<rparr>)"
    using I li(1) pb by (simp add: hinv_def)
qed

lemma fresh_unused:
  assumes I: "hinv D live m s" and f: "fresh_range (host_ranges live s) p k" "0 < k"
    and st: "thread_ok D st" "live (drv (st_world st)) = insert (p, k) (host_ranges live s)"
  shows "hinv D live m (s\<lparr>ho_streams := st\<rparr>)" and "unused_range live (s\<lparr>ho_streams := st\<rparr>) p k"
proof -
  have r: "ranges_ok (host_ranges live s)" using hinv_parts(1) [OF I] by (simp add: placed_blocks_def)
  show "hinv D live m (s\<lparr>ho_streams := st\<rparr>)" by (rule hinv_ranges [OF I st(1)]) (use fresh_ranges [OF r f] st(2) in auto)
  have "hb_ptr x \<noteq> p" if "b \<in> ho_blocks s" "ho_heap s b = Some x" for b x
    using that hinv_parts(1) [OF I] fresh_ptr [OF r f] unfolding placed_blocks_def by blast
  then show "unused_range live (s\<lparr>ho_streams := st\<rparr>) p k" using st(2) by (simp add: unused_range_def)
qed

lemma unused_aside: "unused_range live s p k \<Longrightarrow> aside D live s t \<Longrightarrow> unused_range live t p k"
  by (simp add: unused_range_def aside_def)

text \<open>What may go wrong when memory is registered: only that \<^verbatim>\<open>malloc\<close> had none.\<close>

definition no_memory :: "SUPAAllocatorConfig \<Rightarrow> exn \<Rightarrow> bool" where
  "no_memory c e \<longleftrightarrow> (host_fault e \<longrightarrow> e = UseAfterFree \<and> m_pinned_use_supa_host_register c)"

lemma wp_registerPages:
  assumes C: "host_calls_ok D R H cur live" and I: "hinv D live m s" and u: "unused_range live s p k"
  shows "wp (registerPages H p k) (\<lambda>_ t. hinv D live m t \<and> unused_range live t p k) (\<lambda>e t. hinv D live m t \<and> \<not> host_fault e) s"
proof -
  have a: "hinv D live m (s\<lparr>ho_streams := (ho_streams s)\<lparr>st_world := (st_world (ho_streams s))\<lparr>drv := d\<rparr>\<rparr>\<rparr>)
      \<and> unused_range live (s\<lparr>ho_streams := (ho_streams s)\<lparr>st_world := (st_world (ho_streams s))\<lparr>drv := d\<rparr>\<rparr>\<rparr>) p k"
    if "live d = host_ranges live s" for d
  proof -
    have "aside D live s (s\<lparr>ho_streams := (ho_streams s)\<lparr>st_world := (st_world (ho_streams s))\<lparr>drv := d\<rparr>\<rparr>\<rparr>)"
      using hinv_thread [OF I] that by (simp add: aside_def thread_ok_def)
    then show ?thesis using hinv_aside [OF I] unused_aside [OF u] by blast
  qed
  note keep = keeps_drv [OF host_calls(9) [OF C]] keeps_drv [OF host_calls(11) [OF C]]
  show ?thesis
    unfolding registerPages_def using a keep by (auto simp: wp_if split: prod.splits)
qed

lemma wp_alloc_register:
  assumes C: "host_calls_ok D R H cur live" and I: "hinv D live m s" and j: "m_pinned_num_register_threads c = 2 ^ j" "j \<le> 7"
    and k: "k \<le> 56"
  shows "wp (allocWithSupaHostRegister c H (2 ^ k)) (\<lambda>p t. hinv D live m t \<and> unused_range live t p (2 ^ k))
    (\<lambda>e t. hinv D live m t \<and> (host_fault e \<longrightarrow> e = UseAfterFree)) s"
proof -
  obtain p d where md: "std_malloc H (2 ^ k) (drv (st_world (ho_streams s))) = (p, d)" by fastforce
  let ?st = "(ho_streams s)\<lparr>st_world := (st_world (ho_streams s))\<lparr>drv := d\<rparr>\<rparr>" 
  let ?t = "s\<lparr>ho_streams := ?st\<rparr>"
  have r: "ranges_ok (host_ranges live s)" using hinv_parts(1) [OF I] by (simp add: placed_blocks_def)
  have th: "thread_ok D ?st" using hinv_thread [OF I] by (simp add: thread_ok_def)
  have law: "if p \<noteq> 0 then fresh_range (host_ranges live s) p (2 ^ k) \<and> live d = insert (p, 2 ^ k) (host_ranges live s)
      else live d = host_ranges live s" using host_calls(14) [OF C, of "2 ^ k"] r md unfolding acquires_ptr_def by blast
  have small: "p = 0 \<or> p + 2 ^ k \<le> 2 ^ 56" using host_calls(15) [OF C, of "2 ^ k"] md by (metis fst_conv)
  have "wp (sx_seq (map_pages H (2 ^ j) p (2 ^ k)) (sx_seq (registerPages H p (2 ^ k)) (sx_ret p)))
      (\<lambda>p t. hinv D live m t \<and> unused_range live t p (2 ^ k)) (\<lambda>e t. hinv D live m t \<and> (host_fault e \<longrightarrow> e = UseAfterFree)) ?t"
  proof (cases "p = 0")
    case True
    have "aside D live s ?t" using aside_self [OF I] th law True by (intro aside_streams) auto
    then have "wp (map_pages H (2 ^ j) p (2 ^ k)) (\<lambda>_. aside D live s) (\<lambda>_. aside D live s) ?t" by (rule aside_map_pages)
    moreover have "fst (map_pages H (2 ^ j) p (2 ^ k) ?t) = Inl UseAfterFree"
      unfolding True by (rule map_pages_null [OF j(2) host_calls(20) [OF C] k])
    ultimately have "wp (map_pages H (2 ^ j) p (2 ^ k)) (\<lambda>_ _. False) (\<lambda>e t. aside D live s t \<and> e = UseAfterFree) ?t"
      by (auto simp: wp_def split: prod.splits sum.splits)
    then have "wp (map_pages H (2 ^ j) p (2 ^ k)) (\<lambda>_. wp (sx_seq (registerPages H p (2 ^ k)) (sx_ret p)) (\<lambda>p t. hinv D live m t \<and> unused_range live t p (2 ^ k))
        (\<lambda>e t. hinv D live m t \<and> (host_fault e \<longrightarrow> e = UseAfterFree))) (\<lambda>e t. hinv D live m t \<and> (host_fault e \<longrightarrow> e = UseAfterFree)) ?t"
      by (rule wp_conseq) (auto intro: hinv_aside [OF I])
    then show ?thesis by (simp only: wp_seq)
  next
    case False
    then have f: "hinv D live m ?t" "unused_range live ?t p (2 ^ k)"
      using law th by (auto intro!: fresh_unused [OF I])
    obtain ps where ps: "map_pages H (2 ^ j) p (2 ^ k) ?t = (Inr (), ?t\<lparr>written := written ?t @ ps\<rparr>)"
      using map_pages_run [OF j(2) host_calls(20) [OF C], of p k ?t] False small by blast
    have a: "aside D live ?t (?t\<lparr>written := written ?t @ ps\<rparr>)" using th by (simp add: aside_def)
    have "wp (registerPages H p (2 ^ k)) (\<lambda>_ t. hinv D live m t \<and> unused_range live t p (2 ^ k))
        (\<lambda>e t. hinv D live m t \<and> (host_fault e \<longrightarrow> e = UseAfterFree)) (?t\<lparr>written := written ?t @ ps\<rparr>)"
      by (rule wp_conseq [OF wp_registerPages [OF C hinv_aside [OF f(1) a] unused_aside [OF f(2) a]]]) auto
    then have "wp (map_pages H (2 ^ j) p (2 ^ k)) (\<lambda>_. wp (sx_seq (registerPages H p (2 ^ k)) (sx_ret p)) (\<lambda>p t. hinv D live m t \<and> unused_range live t p (2 ^ k))
        (\<lambda>e t. hinv D live m t \<and> (host_fault e \<longrightarrow> e = UseAfterFree))) (\<lambda>e t. hinv D live m t \<and> (host_fault e \<longrightarrow> e = UseAfterFree)) ?t"
      unfolding wp_def [of "map_pages H (2 ^ j) p (2 ^ k)"] ps by simp
    then show ?thesis by (simp only: wp_seq)
  qed
  then show ?thesis using md by (simp add: allocWithSupaHostRegister_def j(1) del: wp_seq)
qed

text \<open>The new block.\<close>

definition new_post :: "'d driver \<Rightarrow> ('d \<Rightarrow> (nat \<times> nat) set) \<Rightarrow> holding \<Rightarrow> nat \<Rightarrow> nat \<times> nat \<Rightarrow> 'd hosts \<Rightarrow> bool" where
  "new_post D live m n r t \<longleftrightarrow> (case r of (p, b) \<Rightarrow> hinv D live (m(b \<mapsto> (p, n))) t \<and> m b = None \<and> b \<notin> snd ` set (supa_events t) \<and> b \<noteq> 0)"

lemma wp_add_block:
  assumes C: "host_calls_ok D R H cur live" and I: "hinv D live m s" and u: "unused_range live s p k" "0 < k" "n \<le> k"
  shows "wp (sx_bind (sx_get (\<lambda>s. new_address H (dom (ho_heap s)))) (\<lambda>b.
      sx_seq (sx_mod (\<lambda>s. s\<lparr>
        ho_heap := (ho_heap s)(b \<mapsto> \<lparr>hb_size = k, hb_ptr = p, hb_allocated = True, hb_event_count = 0, hb_streams = []\<rparr>),
        ho_blocks := insert b (ho_blocks s),
        ptr_to_block := (case ptr_to_block s p of None \<Rightarrow> (ptr_to_block s)(p \<mapsto> b) | Some _ \<Rightarrow> ptr_to_block s)\<rparr>))
      (sx_ret (p, b)))) (new_post D live m n) E s"
proof -
  let ?b = "new_address H (dom (ho_heap s))"
  have "finite (dom (ho_heap s))" using hinv_parts(1) [OF I] by (simp add: placed_blocks_def)
  then have b: "?b \<notin> dom (ho_heap s)" "?b \<noteq> 0" using host_calls(19) [OF C] by blast+
  let ?pb = "case ptr_to_block s p of None \<Rightarrow> (ptr_to_block s)(p \<mapsto> ?b) | Some _ \<Rightarrow> ptr_to_block s"
  have "?b \<notin> ho_blocks s" using b(1) hinv_parts(1) [OF I] unfolding placed_blocks_def by blast
  then have pb: "indexed_blocks ?pb (insert ?b (ho_blocks s)) ((ho_heap s)(?b \<mapsto>
      \<lparr>hb_size = k, hb_ptr = p, hb_allocated = True, hb_event_count = 0, hb_streams = []\<rparr>))"
    using hinv_parts(4) [OF I] unfolding indexed_blocks_def by (auto split: option.split)
  show ?thesis using hinv_new_block [OF I u b pb refl] b(2) by (simp add: new_post_def)
qed

lemma wp_new_hblock:
  assumes C: "host_calls_ok D R H cur live" and I: "hinv D live m s" and j: "m_pinned_num_register_threads c = 2 ^ j" "j \<le> 7"
    and n: "0 < n" "n \<le> 2 ^ 56"
  shows "wp (new_hblock c H n) (new_post D live m n) (\<lambda>e t. hinv D live m t \<and> no_memory c e) s"
proof -
  obtain k where k: "PowerOf2Ceil H n = 2 ^ k" "n \<le> 2 ^ k" "2 ^ k < 2 * n" using host_calls(18) [OF C, of n] n by auto
  have "(2 :: nat) ^ k < 2 ^ 57" using k(3) n(2) by simp
  then have "k < 57" by (rule power_less_imp_less_exp [rotated]) simp
  then have k56: "k \<le> 56" by simp
  note add = wp_add_block [OF C _ _ _ k(2)]
  show ?thesis
  proof (cases "m_pinned_use_supa_host_register c")
    case True
    have "wp (allocWithSupaHostRegister c H (2 ^ k)) (\<lambda>p. wp (sx_bind (sx_get (\<lambda>s. new_address H (dom (ho_heap s)))) (\<lambda>b.
      sx_seq (sx_mod (\<lambda>s. s\<lparr>
        ho_heap := (ho_heap s)(b \<mapsto> \<lparr>hb_size = 2 ^ k, hb_ptr = p, hb_allocated = True, hb_event_count = 0, hb_streams = []\<rparr>),
        ho_blocks := insert b (ho_blocks s),
        ptr_to_block := (case ptr_to_block s p of None \<Rightarrow> (ptr_to_block s)(p \<mapsto> b) | Some _ \<Rightarrow> ptr_to_block s)\<rparr>))
      (sx_ret (p, b)))) (new_post D live m n) (\<lambda>e t. hinv D live m t \<and> no_memory c e)) (\<lambda>e t. hinv D live m t \<and> no_memory c e) s"
      by (rule wp_conseq [OF wp_alloc_register [OF C I j k56]]) (auto intro: add simp: no_memory_def True simp del: wp_bind wp_seq)
    then show ?thesis using True by (simp only: new_hblock_def Let_def k(1) wp_bind if_True)
  next
    case False
    obtain e p d where md: "supaHostAlloc H (2 ^ k) (drv (st_world (ho_streams s))) = ((e, p), d)" by (metis surj_pair)
    let ?st = "(ho_streams s)\<lparr>st_world := (st_world (ho_streams s))\<lparr>drv := d\<rparr>\<rparr>"
    have r: "ranges_ok (host_ranges live s)" using hinv_parts(1) [OF I] by (simp add: placed_blocks_def)
    have th: "thread_ok D ?st" using hinv_thread [OF I] by (simp add: thread_ok_def)
    have law: "if e = supaSuccess then fresh_range (host_ranges live s) p (2 ^ k) \<and> live d = insert (p, 2 ^ k) (host_ranges live s)
      else live d = host_ranges live s" using host_calls(13) [OF C, of "2 ^ k"] r md unfolding acquires_def by blast
    show ?thesis
    proof (cases "e = supaSuccess")
      case True
      then have "hinv D live m (s\<lparr>ho_streams := ?st\<rparr>)" "unused_range live (s\<lparr>ho_streams := ?st\<rparr>) p (2 ^ k)"
        using law th by (auto intro!: fresh_unused [OF I])
      from add [OF this] show ?thesis using False md True by (simp add: new_hblock_def k(1) Let_def)
    next
      case err: False
      have "hinv D live m (s\<lparr>ho_streams := ?st\<rparr>)" using law err th by (intro hinv_ranges [OF I]) (auto simp: r)
      then show ?thesis using False md err by (simp add: new_hblock_def k(1) Let_def no_memory_def)
    qed
  qed
qed

text \<open>The guard around it.\<close>

lemma hinv_switched:
  assumes "hinv D live m t" and "switched cur live i (st_world (ho_streams t)) w"
  shows "hinv D live m (ho_streams_update (st_world_update (\<lambda>_. w)) t)"
  using assms by (simp add: hinv_def switched_def thread_ok_def)

lemma guard_rule:
  assumes C: "host_calls_ok D R H cur live" and I: "hinv D live m s" and i: "0 \<le> i" "i < device_count D"
    and body: "\<And>t. hinv D live m t \<Longrightarrow> wp f Q E t"
    and Q: "\<And>r t w. Q r t \<Longrightarrow> switched cur live (thread_device cur (st_world (ho_streams s))) (st_world (ho_streams t)) w \<Longrightarrow>
        Q r (ho_streams_update (st_world_update (\<lambda>_. w)) t)"
    and E: "\<And>e t w. E e t \<Longrightarrow> switched cur live (thread_device cur (st_world (ho_streams s))) (st_world (ho_streams t)) w \<Longrightarrow>
        E e (ho_streams_update (st_world_update (\<lambda>_. w)) t)"
  shows "wp (ho_guard D i f) Q E s"
proof (rule wp_guarded [OF host_calls(1-3) [OF C] i], goal_cases)
  case 1 then show ?case using hinv_thread [OF I] by (simp add: thread_ok_def)
next
  case (2 w)
  show ?case by (rule wp_conseq [OF body [OF hinv_switched [OF I 2]]]) (use Q E in blast)+
qed

lemma new_post_switched:
  "new_post D live m n r t \<Longrightarrow> switched cur live i (st_world (ho_streams t)) w \<Longrightarrow> new_post D live m n r (ho_streams_update (st_world_update (\<lambda>_. w)) t)"
  using hinv_switched by (fastforce simp: new_post_def split: prod.splits)

text \<open>Looking for the device.\<close>

lemma wp_find_device:
  assumes C: "host_calls_ok D R H cur live" and I: "hinv D live m s"
  shows "wp (on_how (getDeviceIndexWithPrimaryContext D)) (\<lambda>r t. hinv D live m t \<and> (\<forall>i. r = Some i \<longrightarrow> 0 \<le> i \<and> i < device_count D))
    (\<lambda>e t. hinv D live m t \<and> \<not> host_fault e) s"
proof -
  have k: "0 \<le> k_device (st_world (ho_streams s)) \<longrightarrow> k_device (st_world (ho_streams s)) < device_count D"
    using hinv_thread [OF I] by (simp add: thread_ok_def)
  have "hinv D live m (ho_streams_update (\<lambda>_. (ho_streams s)\<lparr>st_world := w\<rparr>) s)" if "wkeep D live (st_world (ho_streams s)) w" for w
    using that I by (simp add: hinv_def wkeep_def thread_ok_def)
  then show ?thesis unfolding wp_field by (intro wp_conseq [OF wkeep_primary [OF C k]]) auto
qed

lemma sorted_wrt_remove1: "sorted_wrt P xs \<Longrightarrow> sorted_wrt P (remove1 x xs)"
  by (induction xs) (auto dest: set_remove1_subset [THEN subsetD])

text \<open>A free block that is large enough.\<close>

lemma wp_take_free:
  assumes I: "hinv D live m s" and f: "set_lower_bound BlockComparator (hkey (ho_heap s)) (n, 0) (free_list s) = b # bs"
  shows "wp (take_free_hblock b) (new_post D live m n) E s"
proof -
  note parts = hinv_parts [OF I]
  have o: "ordered BlockComparator (hkey (ho_heap s)) (free_list s)" using parts(2) by (simp add: listed_blocks_def)
  note lb = by_host_size.lower_bound_least [OF o f]
  obtain x where x: "b \<in> ho_blocks s" "ho_heap s b = Some x" "\<not> hb_allocated x" "hb_event_count x = 0"
    using parts(2) lb(1) unfolding listed_blocks_def by blast
  have n: "n \<le> hb_size x" using lb(2) x(2) by (auto simp: hkey_def BlockComparator_def split: if_splits)
  let ?y = "x\<lparr>hb_allocated := True\<rparr>"
  have sp: "same_place x ?y" by (simp add: same_place_def)
  have w: "pending_of (supa_events s) b = 0" using parts(2) x unfolding listed_blocks_def by fastforce
  have mb: "m b = None" using parts(3) x unfolding held_blocks_def by (metis option.exhaust option.inject surj_pair)
  have d: "distinct (free_list s)" using by_host_size.ordered_distinct [OF o] .
  have "ordered BlockComparator (hkey (ho_heap s)) (remove1 b (free_list s))"
    using o unfolding ordered_def by (rule sorted_wrt_remove1)
  then have li: "listed_blocks (ho_blocks s) (ho_heap s) (remove1 b (free_list s)) (supa_events s)"
    using parts(2) d unfolding listed_blocks_def by simp
  have "listed_blocks (ho_blocks s) ((ho_heap s)(b \<mapsto> ?y)) (remove1 b (free_list s)) (supa_events s)"
    by (rule listed_update [OF li x(2) sp]) (use d w x(4) in auto)
  moreover have "held_blocks (m(b \<mapsto> (hb_ptr x, n))) (ho_blocks s) ((ho_heap s)(b \<mapsto> ?y))"
    using parts(3) x(1) n unfolding held_blocks_def by simp
  moreover have "b \<noteq> 0" using parts(1) x(2) unfolding placed_blocks_def by (metis option.distinct(1))
  ultimately show ?thesis
    using I placed_same [OF parts(1) x(2) sp] indexed_same [OF parts(4) x(2) sp] x(2) mb w
    by (simp add: take_free_hblock_def set_hblock_def hderef_def new_post_def hinv_def pending_of_pos)
qed

lemma wp_host_allocate:
  assumes C: "host_calls_ok D R H cur live" and I: "hinv D live m s" and j: "m_pinned_num_register_threads c = 2 ^ j" "j \<le> 7"
    and n: "0 < n" "n \<le> 2 ^ 56"
  shows "wp (host_allocate D c H n) (new_post D live m n) (\<lambda>e t. hinv D live m t \<and> no_memory c e) s"
proof -
  let ?E = "\<lambda>e t. hinv D live m t \<and> no_memory c e"
  let ?make = "sx_bind (on_how (getDeviceIndexWithPrimaryContext D)) (\<lambda>i. case i of None \<Rightarrow> new_hblock c H n | Some i \<Rightarrow> ho_guard D i (new_hblock c H n))"
  note new = wp_new_hblock [OF C _ j n]
  have make: "wp ?make (new_post D live m n) ?E t" if t: "hinv D live m t" for t
    unfolding wp_bind
  proof (rule wp_conseq [OF wp_find_device [OF C t]], goal_cases)
    case (1 r u)
    have "wp (ho_guard D i (new_hblock c H n)) (new_post D live m n) ?E u" if "r = Some i" for i
    proof (rule guard_rule [OF C _ _ _ new])
      show "hinv D live m u" "0 \<le> i" "i < device_count D" using 1 that by auto
    qed (auto intro: new_post_switched hinv_switched)
    then show ?case using new 1 by (cases r) simp_all
  qed (simp add: no_memory_def)
  have "wp (host_process_events D) (\<lambda>_. wp (sx_bind (sx_get (\<lambda>s. set_lower_bound BlockComparator (hkey (ho_heap s)) (n, 0) (free_list s))) (\<lambda>found.
         case found of b # _ \<Rightarrow> take_free_hblock b | [] \<Rightarrow> ?make)) (new_post D live m n) ?E) ?E s"
  proof (rule wp_conseq [OF wp_process [OF C I]])
    show "wp (sx_bind (sx_get (\<lambda>s. set_lower_bound BlockComparator (hkey (ho_heap s)) (n, 0) (free_list s))) (\<lambda>found.
         case found of b # _ \<Rightarrow> take_free_hblock b | [] \<Rightarrow> ?make)) (new_post D live m n) ?E t" if t: "hinv D live m t" for t
      using make [OF t] wp_take_free [OF t] by (simp del: wp_field split: list.split)
  qed (simp add: no_memory_def)
  then show ?thesis using n(1) by (simp only: host_allocate_def wp_seq if_False less_not_refl2)
qed

section \<open>Emptying the cache\<close>

lemma ranges_subset: "ranges_ok A \<Longrightarrow> B \<subseteq> A \<Longrightarrow> ranges_ok B"
  unfolding ranges_ok_def by (meson subsetD)

lemma held_forget:
  assumes "held_blocks m B h0" and "h0 b = Some x" "\<not> hb_allocated x" and same: "\<And>c. c \<in> B - {b} \<Longrightarrow> h c = h0 c"
  shows "held_blocks m (B - {b}) h"
  unfolding held_blocks_def
proof (intro conjI allI impI)
  fix c p n assume m: "m c = Some (p, n)"
  then obtain y where y: "c \<in> B" "h0 c = Some y" "hb_allocated y" "hb_ptr y = p" "n \<le> hb_size y"
    using assms(1) unfolding held_blocks_def by blast
  moreover have "c \<noteq> b" using y(2,3) assms(2,3) by auto
  ultimately show "c \<in> B - {b}" and "\<exists>y. h c = Some y \<and> hb_allocated y \<and> hb_ptr y = p \<and> n \<le> hb_size y" using same [of c] by auto
next
  fix c y assume "c \<in> B - {b}" "h c = Some y" "hb_allocated y"
  then show "m c \<noteq> None" using assms(1) same [of c] unfolding held_blocks_def by auto
qed

lemma indexed_forget:
  assumes "indexed_blocks pm B h0" and "h0 b = Some x" and same: "\<And>c. c \<in> B - {b} \<Longrightarrow> h c = h0 c"
  shows "indexed_blocks (pm(hb_ptr x := None)) (B - {b}) h"
  unfolding indexed_blocks_def
proof (intro allI impI)
  fix p c assume p: "(pm(hb_ptr x := None)) p = Some c"
  then obtain y where y: "c \<in> B" "h0 c = Some y" "hb_ptr y = p" "p \<noteq> hb_ptr x"
    using assms(1) unfolding indexed_blocks_def by (metis fun_upd_apply option.distinct(1))
  moreover have "c \<noteq> b" using y assms(2) by auto
  ultimately show "c \<in> B - {b} \<and> (\<exists>x. h c = Some x \<and> hb_ptr x = p)" using same [of c] by auto
qed

lemma listed_forget:
  assumes "listed_blocks B h0 [] q" and "b \<notin> snd ` set q" and same: "\<And>c. c \<in> B - {b} \<Longrightarrow> h c = h0 c"
  shows "listed_blocks (B - {b}) h [] q"
  unfolding listed_blocks_def
proof (intro conjI allI impI ballI)
  show "ordered BlockComparator (hkey h) []" by (simp add: ordered_def)
  show "c \<in> B - {b}" if "c \<in> snd ` set q" for c using that assms(1,2) unfolding listed_blocks_def by blast
  fix c y assume c: "c \<in> B - {b}" "h c = Some y"
  then have "c \<in> B" "h0 c = Some y" using same [of c] by auto
  then show "int (pending_of q c) \<le> hb_event_count y" and "hb_allocated y \<Longrightarrow> hb_event_count y = 0"
    using assms(1) unfolding listed_blocks_def by blast+
qed simp_all

text \<open>A block that is taken out of the tables, with or without its memory and its object.\<close>

lemma hinv_forget:
  assumes I: "hinv D live m s" and fl: "free_list s = []" and b: "b \<in> ho_blocks s" "ho_heap s b = Some x"
    and x: "\<not> hb_allocated x" "hb_event_count x = 0"
    and st: "thread_ok D st" "live (drv (st_world st)) = host_ranges live s - {(hb_ptr x, hb_size x)} \<or> live (drv (st_world st)) = host_ranges live s"
    and h: "h = ho_heap s \<or> h = (ho_heap s)(b := None)"
  shows "hinv D live m (s\<lparr>ho_blocks := ho_blocks s - {b}, ptr_to_block := (ptr_to_block s)(hb_ptr x := None), ho_streams := st, ho_heap := h\<rparr>)"
proof -
  note parts = hinv_parts [OF I]
  note pl = parts(1) [unfolded placed_blocks_def]
  have same: "h c = ho_heap s c" if "c \<in> ho_blocks s - {b}" for c using that h by auto
  have w: "b \<notin> snd ` set (supa_events s)" using parts(2) b x(2) unfolding listed_blocks_def pending_of_pos by fastforce
  let ?B = "ho_blocks s - {b}" and ?L = "live (drv (st_world st))"
  have L: "ranges_ok ?L" using pl st(2) by (auto intro: ranges_subset)
  have fin: "finite (dom h)" "h 0 = None" "?B \<subseteq> dom h" using pl h by (auto split: if_splits)
  have other: "(hb_ptr z, hb_size z) \<in> ?L \<and> 0 < hb_size z" if "c \<in> ?B" "h c = Some z" for c z
  proof -
    have c: "c \<in> ho_blocks s" "ho_heap s c = Some z" "c \<noteq> b" using that same by auto
    then have "hb_ptr z \<noteq> hb_ptr x" using pl b by blast
    moreover have "(hb_ptr z, hb_size z) \<in> host_ranges live s" "0 < hb_size z" using pl c by blast+
    ultimately show ?thesis using st(2) by auto
  qed
  have inj: "c = e" if "c \<in> ?B" "e \<in> ?B" "h c = Some z" "h e = Some y" "hb_ptr z = hb_ptr y" for c e z y
  proof -
    have "c \<in> ho_blocks s" "e \<in> ho_blocks s" "ho_heap s c = Some z" "ho_heap s e = Some y" using that same by auto
    then show ?thesis using pl that(5) by blast
  qed
  have "placed_blocks ?L ?B h" using L fin other inj unfolding placed_blocks_def by blast
  moreover have "listed_blocks ?B h [] (supa_events s)" using parts(2) w same unfolding fl by (rule listed_forget)
  moreover have "held_blocks m ?B h" using parts(3) b(2) x(1) same by (rule held_forget)
  moreover have "indexed_blocks ((ptr_to_block s)(hb_ptr x := None)) ?B h" using parts(4) b(2) same by (rule indexed_forget)
  ultimately show ?thesis using I fl st(1) by (simp add: hinv_def)
qed

definition removable :: "'d hosts \<Rightarrow> nat \<Rightarrow> bool" where
  "removable s b \<longleftrightarrow> b \<in> ho_blocks s \<and> (\<exists>x. ho_heap s b = Some x \<and> \<not> hb_allocated x \<and> hb_event_count x = 0)"

lemma wp_remove_hblock:
  assumes C: "host_calls_ok D R H cur live" and I: "hinv D live m s" and fl: "free_list s = []" and b: "removable s b"
  shows "wp (remove_hblock c H b) (\<lambda>_ t. hinv D live m t \<and> free_list t = [] \<and> (\<forall>e. e \<noteq> b \<longrightarrow> removable s e \<longrightarrow> removable t e))
    (\<lambda>e t. hinv D live m t \<and> \<not> host_fault e) s"
proof -
  obtain x where x: "b \<in> ho_blocks s" "ho_heap s b = Some x" "\<not> hb_allocated x" "hb_event_count x = 0" using b by (auto simp: removable_def)
  let ?w = "st_world (ho_streams s)" and ?L = "host_ranges live s" and ?r = "(hb_ptr x, hb_size x)"
  have pl: "ranges_ok ?L" "?r \<in> ?L" "0 < hb_size x" using hinv_parts(1) [OF I] x(1,2) unfolding placed_blocks_def by blast+
  have sole: "sole_range ?L (hb_ptr x) (hb_size x)"
    using pl ranges_ok_def [of ?L] unfolding sole_range_def span_def by (metis (no_types, opaque_lifting) Int_iff empty_iff
        atLeastLessThan_iff le_refl less_add_same_cancel1 prod.inject)
  let ?t = "\<lambda>d. s\<lparr>ho_blocks := ho_blocks s - {b}, ptr_to_block := (ptr_to_block s)(hb_ptr x := None),
      ho_streams := (ho_streams s)\<lparr>st_world := ?w\<lparr>drv := d\<rparr>\<rparr>\<rparr>"
  let ?s = "\<lambda>d. ?t d\<lparr>ho_heap := (ho_heap s)(b := None)\<rparr>"
  have th: "thread_ok D ((ho_streams s)\<lparr>st_world := ?w\<lparr>drv := d\<rparr>\<rparr>)" for d using hinv_thread [OF I] by (simp add: thread_ok_def)
  have gone: "hinv D live m (?s d)" if "live d = ?L - {?r} \<or> live d = ?L" for d
    using hinv_forget [OF I fl x th, of d "(ho_heap s)(b := None)"] that by simp
  have left: "hinv D live m (?t d)" if "live d = ?L - {?r} \<or> live d = ?L" for d
  proof -
    have "hinv D live m (?t d\<lparr>ho_heap := ho_heap s\<rparr>)" using hinv_forget [OF I fl x th, of d "ho_heap s"] that by simp
    moreover have "?t d\<lparr>ho_heap := ho_heap s\<rparr> = ?t d" by simp
    ultimately show ?thesis by simp
  qed
  have keep: "removable (?s d) e" if "e \<noteq> b" "removable s e" for d e using that by (auto simp: removable_def)
  have live: "live d = ?L - {?r} \<or> e \<noteq> supaSuccess \<and> live d = ?L" if "supaFreeHost H (hb_ptr x) (drv ?w) = (e, d)" for e d
    using host_calls(16) [OF C] pl(1) sole that unfolding releases_def by blast
  have unreg: "live d = ?L" if "supaHostUnregister H (hb_ptr x) (drv ?w) = (e, d)" for e d by (rule keeps_drv [OF host_calls(10) [OF C] that])
  have freed: "live (std_free H (hb_ptr x) d) = ?L - {?r}" if "live d = ?L" for d
    using host_calls(17) [OF C, of "hb_ptr x" "hb_size x"] pl(1) sole that unfolding releases_def by auto
  show ?thesis
    using x(2) fl gone left keep live unreg freed
    by (auto simp: remove_hblock_def hderef_def wp_if fun_upd_def [symmetric] split: prod.splits)
qed

lemma wp_host_empty_cache:
  assumes C: "host_calls_ok D R H cur live" and I: "hinv D live m s"
  shows "wp (host_empty_cache D R c H) (\<lambda>_ t. hinv D live m t \<and> free_list t = []) (\<lambda>e t. hinv D live m t \<and> \<not> host_fault e) s"
proof -
  let ?Q = "\<lambda>_ t. hinv D live m t \<and> free_list t = []" and ?E = "\<lambda>e t. hinv D live m t \<and> \<not> host_fault e"
  have loop: "wp (sx_for (free_list t) (remove_hblock c H)) ?Q ?E (t\<lparr>free_list := []\<rparr>)" if t: "hinv D live m t" for t
  proof -
    note li = hinv_parts(2) [OF t, unfolded listed_blocks_def]
    have d: "distinct (free_list t)" using by_host_size.ordered_distinct li by blast
    let ?I = "\<lambda>ys u. hinv D live m u \<and> free_list u = [] \<and> (\<forall>b \<in> set (free_list t) - set ys. removable u b)"
    have "wp (sx_for (free_list t) (remove_hblock c H)) (\<lambda>_. ?I (free_list t)) ?E (t\<lparr>free_list := []\<rparr>)"
    proof (rule wp_for_visited [where I = ?I])
      have "listed_blocks (ho_blocks t) (ho_heap t) [] (supa_events t)" using li by (auto simp: listed_blocks_def ordered_def)
      then show "?I [] (t\<lparr>free_list := []\<rparr>)" using hinv_free_list [OF t] li by (simp add: removable_def)
      show "wp (remove_hblock c H b) (\<lambda>_. ?I (ys @ [b])) ?E u" if "free_list t = ys @ b # zs" "?I ys u" for ys b zs u
      proof -
        have "removable u b" using that d by auto
        then show ?thesis using that by (intro wp_conseq [OF wp_remove_hblock [OF C]]) auto
      qed
    qed
    then show ?thesis by (rule wp_conseq) auto
  qed
  have "wp (host_process_events D) (\<lambda>_. wp (sx_seq (hEventPool_empty_cache D R)
      (sx_bind (sx_get free_list) (\<lambda>bs. sx_seq (sx_mod (\<lambda>s. s\<lparr>free_list := []\<rparr>)) (sx_for bs (remove_hblock c H))))) ?Q ?E) ?E s"
  proof (rule wp_conseq [OF wp_process [OF C I]])
    fix t assume t: "hinv D live m t"
    then have "event_pool t = (\<lambda>_. [])" by (simp add: hinv_def)
    then have "wp (hEventPool_empty_cache D R) (\<lambda>_. aside D live t) (\<lambda>_ _. False) t" by (rule aside_empty_pool [OF aside_self [OF t]])
    then have "wp (hEventPool_empty_cache D R) (\<lambda>_. wp (sx_bind (sx_get free_list) (\<lambda>bs. sx_seq (sx_mod (\<lambda>s. s\<lparr>free_list := []\<rparr>))
        (sx_for bs (remove_hblock c H)))) ?Q ?E) ?E t"
      by (rule wp_conseq) (use hinv_aside [OF t] loop in auto)
    then show "wp (sx_seq (hEventPool_empty_cache D R) (sx_bind (sx_get free_list) (\<lambda>bs. sx_seq (sx_mod (\<lambda>s. s\<lparr>free_list := []\<rparr>))
        (sx_for bs (remove_hblock c H))))) ?Q ?E t" by (simp only: wp_seq)
  qed
  then show ?thesis by (simp only: host_empty_cache_def wp_seq)
qed

lemma wp_isPinnedPtr:
  assumes C: "host_calls_ok D R H cur live" and I: "hinv D live m s"
  shows "wp (isPinnedPtr D H p) (\<lambda>_. hinv D live m) (\<lambda>e t. hinv D live m t \<and> \<not> host_fault e) s"
proof -
  let ?E = "\<lambda>e t. hinv D live m t \<and> \<not> host_fault e"
  let ?ask = "sx_bind (on_how (drv_call (supaPointerIsHost H p))) (\<lambda>(err, is_host).
          if err \<noteq> supaSuccess then sx_bind (on_how (drv_call (supaGetLastError D))) (\<lambda>_. sx_ret False) else sx_ret is_host)"
  have ask: "wp ?ask (\<lambda>_. hinv D live m) ?E t" if t: "hinv D live m t" for t
  proof -
    have "hinv D live m (t\<lparr>ho_streams := (ho_streams t)\<lparr>st_world := (st_world (ho_streams t))\<lparr>drv := d\<rparr>\<rparr>\<rparr>)"
      if "live d = host_ranges live t" for d
      using hinv_thread [OF t] that by (intro hinv_aside [OF t]) (simp add: aside_def thread_ok_def)
    then show ?thesis using keeps_drv [OF host_calls(12) [OF C]] keeps_drv [OF host_calls(4) [OF C]] by (auto simp: wp_if split: prod.splits)
  qed
  have "wp (on_how (getDeviceIndexWithPrimaryContext D)) (\<lambda>i. wp (case i of None \<Rightarrow> ?ask | Some i \<Rightarrow> ho_guard D i ?ask) (\<lambda>_. hinv D live m) ?E) ?E s"
  proof (rule wp_conseq [OF wp_find_device [OF C I]], goal_cases)
    case (1 r u)
    have "wp (ho_guard D i ?ask) (\<lambda>_. hinv D live m) ?E u" if "r = Some i" for i
    proof (rule guard_rule [OF C _ _ _ ask])
      show "hinv D live m u" "0 \<le> i" "i < device_count D" using 1 that by auto
    qed (auto intro: hinv_switched)
    then show ?case using ask 1 by (cases r) simp_all
  qed simp
  then have "wp (sx_bind (on_how (getDeviceIndexWithPrimaryContext D)) (\<lambda>i. case i of None \<Rightarrow> ?ask | Some i \<Rightarrow> ho_guard D i ?ask)) (\<lambda>_. hinv D live m) ?E s"
    by (simp only: wp_bind)
  then show ?thesis using I by (simp only: isPinnedPtr_def Let_def) (simp del: wp_bind)
qed

section \<open>Histories\<close>

text \<open>
  What a client does with pinned memory. It frees only what it has; it may record the use of any address
  and ask about any.
\<close>

datatype host_op =
    HostAllocate nat
  | HostFree nat
  | HostRecord nat nat SUPAStream
  | HostEmptyCache
  | HostIsPinned nat

fun host_op_ok :: "holding \<Rightarrow> host_op \<Rightarrow> bool" where
  "host_op_ok m (HostAllocate n) = (n \<le> 2 ^ 56)"
| "host_op_ok m (HostFree b) = (b = 0 \<or> m b \<noteq> None)"
| "host_op_ok m _ = True"

text \<open>An operation, and what the client holds after it.\<close>

fun run_host :: "'d driver \<Rightarrow> 'd rt \<Rightarrow> SUPAAllocatorConfig \<Rightarrow> 'd hrt \<Rightarrow> holding \<Rightarrow> host_op \<Rightarrow> ('d, holding) hox" where
  "run_host D R c H m (HostAllocate n) =
     sx_bind (host_allocate D c H n) (\<lambda>(p, b). sx_ret (if n = 0 then m else m(b \<mapsto> (p, n))))"
| "run_host D R c H m (HostFree b) = sx_bind (host_free D R b) (\<lambda>_. sx_ret (m(b := None)))"
| "run_host D R c H m (HostRecord p b x) = sx_bind (record_event p b x) (\<lambda>_. sx_ret m)"
| "run_host D R c H m HostEmptyCache = sx_bind (host_empty_cache D R c H) (\<lambda>_. sx_ret m)"
| "run_host D R c H m (HostIsPinned p) = sx_bind (isPinnedPtr D H p) (\<lambda>_. sx_ret m)"

text \<open>A call of \<^verbatim>\<open>free\<close> that throws has taken the block from the client.\<close>

fun after_throw :: "holding \<Rightarrow> host_op \<Rightarrow> holding" where
  "after_throw m (HostFree b) = m(b := None)"
| "after_throw m _ = m"

inductive host_reach :: "'d driver \<Rightarrow> 'd rt \<Rightarrow> SUPAAllocatorConfig \<Rightarrow> 'd hrt \<Rightarrow> 'd strm \<Rightarrow> holding \<Rightarrow> 'd hosts \<Rightarrow> bool"
  for D R c H st where
  host_start: "host_reach D R c H st (\<lambda>_. None) (SUPAHostAllocator_ctor st)"
| host_returns: "host_reach D R c H st m s \<Longrightarrow> host_op_ok m q \<Longrightarrow> run_host D R c H m q s = (Inr m', t) \<Longrightarrow> host_reach D R c H st m' t"
| host_throws: "host_reach D R c H st m s \<Longrightarrow> host_op_ok m q \<Longrightarrow> run_host D R c H m q s = (Inl e, t) \<Longrightarrow>
    host_reach D R c H st (after_throw m q) t"

lemma hinv_start:
  "thread_ok D st \<Longrightarrow> ranges_ok (live (drv (st_world st))) \<Longrightarrow> hinv D live (\<lambda>_. None) (SUPAHostAllocator_ctor st)"
  by (simp add: hinv_def SUPAHostAllocator_ctor_def placed_blocks_def listed_blocks_def held_blocks_def indexed_blocks_def ordered_def)

lemma hinv_zero: "hinv D live m s \<Longrightarrow> m 0 = None"
  using hinv_parts(1,3) unfolding placed_blocks_def held_blocks_def by (metis option.distinct(1) option.exhaust surj_pair)

lemma wp_run_host:
  assumes C: "host_calls_ok D R H cur live" and I: "hinv D live m s" and j: "m_pinned_num_register_threads c = 2 ^ j" "j \<le> 7"
    and q: "host_op_ok m q"
  shows "wp (run_host D R c H m q) (hinv D live) (\<lambda>e t. hinv D live (after_throw m q) t \<and> no_memory c e) s"
proof (cases q)
  case (HostAllocate n)
  show ?thesis
  proof (cases "n = 0")
    case True
    then show ?thesis using I HostAllocate by (simp add: host_allocate_def)
  next
    case False
    then have "wp (host_allocate D c H n) (new_post D live m n) (\<lambda>e t. hinv D live m t \<and> no_memory c e) s"
      using q HostAllocate by (intro wp_host_allocate [OF C I j]) auto
    then have "wp (host_allocate D c H n) (\<lambda>(p, b). hinv D live (m(b \<mapsto> (p, n)))) (\<lambda>e t. hinv D live m t \<and> no_memory c e) s"
      by (rule wp_conseq) (auto simp: new_post_def)
    then show ?thesis using False HostAllocate by (simp add: case_prod_unfold del: fun_upd_apply)
  qed
next
  case (HostFree b)
  show ?thesis
  proof (cases "m b = None")
    case True
    then have "b = 0" "m(b := None) = m" using q HostFree by auto
    then show ?thesis using I HostFree by (simp add: host_free_def)
  next
    case False
    then obtain x where "ho_heap s b = Some x" using hinv_parts(3) [OF I] unfolding held_blocks_def by (metis option.exhaust surj_pair)
    from wp_host_free [OF C I False this] show ?thesis
      unfolding HostFree run_host.simps wp_bind by (rule wp_conseq) (auto simp: no_memory_def)
  qed
next
  case (HostRecord p b x)
  show ?thesis unfolding HostRecord run_host.simps wp_bind by (rule wp_conseq [OF wp_record_event [OF I]]) (auto simp: no_memory_def)
next
  case HostEmptyCache
  show ?thesis unfolding HostEmptyCache run_host.simps wp_bind by (rule wp_conseq [OF wp_host_empty_cache [OF C I]]) (auto simp: no_memory_def)
next
  case (HostIsPinned p)
  show ?thesis unfolding HostIsPinned run_host.simps wp_bind by (rule wp_conseq [OF wp_isPinnedPtr [OF C I]]) (auto simp: no_memory_def)
qed

lemma host_reach_hinv:
  assumes C: "host_calls_ok D R H cur live" and j: "m_pinned_num_register_threads c = 2 ^ j" "j \<le> 7"
    and st: "thread_ok D st" "ranges_ok (live (drv (st_world st)))" and r: "host_reach D R c H st m s"
  shows "hinv D live m s"
  using r
proof induction
  case host_start show ?case using hinv_start [where live = live] st by blast
next
  case (host_returns m s q m' t)
  show ?case by (rule wpD_Inr [OF wp_run_host [OF C host_returns.IH j host_returns.hyps(2)] host_returns.hyps(3)])
next
  case (host_throws m s q e t)
  show ?case using wpD_Inl [OF wp_run_host [OF C host_throws.IH j host_throws.hyps(2)] host_throws.hyps(3)] by blast
qed

section \<open>Property\<close>

lemma host_facts:
  assumes "host_calls_ok D R H cur live" and "cxx_lib_ok L" and "c = settings_after L conf envs"
    and "thread_ok D st" and "ranges_ok (live (drv (st_world st)))" and "host_reach D R c H st m s"
  shows "m b = Some (p, n) \<Longrightarrow> \<exists>x. ho_heap s b = Some x \<and> hb_ptr x = p \<and> n \<le> hb_size x \<and> (p, hb_size x) \<in> host_ranges live s
      \<and> b \<notin> set (free_list s) \<and> pending_of (supa_events s) b = 0"
    and "m b = Some (p, n) \<Longrightarrow> m b' = Some (p', n') \<Longrightarrow> b \<noteq> b' \<Longrightarrow> span p n \<inter> span p' n' = {}"
    and "0 < pending_of (supa_events s) b \<Longrightarrow> b \<notin> set (free_list s)"
    and "0 < n \<Longrightarrow> n \<le> 2 ^ 56 \<Longrightarrow> host_allocate D c H n s = (Inr (p, b), t) \<Longrightarrow> m b = None \<and> pending_of (supa_events t) b = 0"
    and "m b \<noteq> None \<Longrightarrow> ho_heap s b = Some x \<Longrightarrow> host_free D R b s = (Inr (), t) \<Longrightarrow>
      pending_of (supa_events t) b = length (hb_streams x)"
    and "host_op_ok m q \<Longrightarrow> run_host D R c H m q s = (Inl e, t) \<Longrightarrow> host_fault e \<Longrightarrow>
      e = UseAfterFree \<and> m_pinned_use_supa_host_register c"
proof -
  obtain j where j: "m_pinned_num_register_threads c = 2 ^ j" "j \<le> 7" using settings_threads [OF assms(2)] assms(3) by metis
  have I: "hinv D live m s" by (rule host_reach_hinv [OF assms(1) j assms(4-6)])
  note parts = hinv_parts [OF I] and pl = hinv_parts(1) [OF I, unfolded placed_blocks_def]
  have held: "\<exists>x. b \<in> ho_blocks s \<and> ho_heap s b = Some x \<and> hb_allocated x \<and> hb_ptr x = p \<and> n \<le> hb_size x \<and> (p, hb_size x) \<in> host_ranges live s"
    if "m b = Some (p, n)" for b p n using that parts(3) pl unfolding held_blocks_def by blast
  show "\<exists>x. ho_heap s b = Some x \<and> hb_ptr x = p \<and> n \<le> hb_size x \<and> (p, hb_size x) \<in> host_ranges live s
      \<and> b \<notin> set (free_list s) \<and> pending_of (supa_events s) b = 0" if "m b = Some (p, n)"
  proof -
    obtain x where x: "b \<in> ho_blocks s" "ho_heap s b = Some x" "hb_allocated x" "hb_ptr x = p" "n \<le> hb_size x" "(p, hb_size x) \<in> host_ranges live s"
      using held [OF \<open>m b = Some (p, n)\<close>] by blast
    then have "int (pending_of (supa_events s) b) \<le> 0" using parts(2) unfolding listed_blocks_def by force
    moreover have "b \<notin> set (free_list s)" using free_list_member [OF parts(2) _ x(2)] x(3) by blast
    ultimately show ?thesis using x by auto
  qed
  show "span p n \<inter> span p' n' = {}" if h: "m b = Some (p, n)" "m b' = Some (p', n')" "b \<noteq> b'"
  proof -
    obtain x y where x: "b \<in> ho_blocks s" "ho_heap s b = Some x" "hb_ptr x = p" "n \<le> hb_size x" "(p, hb_size x) \<in> host_ranges live s"
      and y: "b' \<in> ho_blocks s" "ho_heap s b' = Some y" "hb_ptr y = p'" "n' \<le> hb_size y" "(p', hb_size y) \<in> host_ranges live s"
      using held [OF h(1)] held [OF h(2)] by blast
    have "p \<noteq> p'" using pl x(1-3) y(1-3) h(3) by blast
    then have "span p (hb_size x) \<inter> span p' (hb_size y) = {}" using pl x(5) y(5) unfolding ranges_ok_def by blast
    then show ?thesis using x(4) y(4) by (auto simp: span_def)
  qed
  show "b \<notin> set (free_list s)" if "0 < pending_of (supa_events s) b"
    using that parts(2) unfolding listed_blocks_def by force
  show "m b = None \<and> pending_of (supa_events t) b = 0" if n: "0 < n" "n \<le> 2 ^ 56" and r: "host_allocate D c H n s = (Inr (p, b), t)"
    using wpD_Inr [OF wp_host_allocate [OF assms(1) I j n] r] pending_of_pos [of b "supa_events t"] by (auto simp: new_post_def)
  show "pending_of (supa_events t) b = length (hb_streams x)" if "m b \<noteq> None" "ho_heap s b = Some x" and r: "host_free D R b s = (Inr (), t)"
    using wpD_Inr [OF wp_host_free [OF assms(1) I that(1,2)] r] by blast
  show "e = UseAfterFree \<and> m_pinned_use_supa_host_register c" if "host_op_ok m q" "host_fault e" and r: "run_host D R c H m q s = (Inl e, t)"
    using wpD_Inl [OF wp_run_host [OF assms(1) I j that(1)] r] that(2) by (simp add: no_memory_def)
qed


text \<open>The reference libraries keep the laws.\<close>

lemma ref_hrt_simps:
  "supaHostAlloc ref_hrt = ref_acquire" "supaFreeHost ref_hrt = (\<lambda>p d. (supaSuccess, ref_drop p d))"
  "supaHostRegister ref_hrt = (\<lambda>_ _. ref_ok)" "supaHostUnregister ref_hrt = (\<lambda>_. ref_ok)"
  "supaHostGetDevicePointer ref_hrt = (\<lambda>p d. ((supaSuccess, p), d))" "supaPointerIsHost ref_hrt = (\<lambda>_ d. ((supaSuccess, True), d))"
  "std_malloc ref_hrt = ref_malloc" "std_free ref_hrt = ref_drop"
  "PowerOf2Ceil ref_hrt = (\<lambda>n. if n \<le> 1 then n else 2 * 2 ^ log2_nat (n - 1))"
  "new_address ref_hrt = (\<lambda>A. Suc (Max (insert 0 A)))" "task_order ref_hrt = (\<lambda>n. rev [0 ..< n])"
  by (simp_all add: ref_hrt_def ref_driver_def)

lemma ref_releases: "releases ref_live p n (\<lambda>d. (supaSuccess, ref_drop p d))"
  using ref_gives_back [of p n] unfolding releases_def gives_back_def by blast

lemma ref_malloc_acquires: "acquires_ptr ref_live n (ref_malloc n)"
proof -
  have "if p \<noteq> 0 then fresh_range (ref_live d) p n \<and> ref_live d' = insert (p, n) (ref_live d) else ref_live d' = ref_live d"
    if "ranges_ok (ref_live d)" "ref_malloc n d = (p, d')" for d p d'
  proof -
    obtain e q d1 where a: "ref_acquire n d = ((e, q), d1)" by (metis surj_pair)
    then have "(case ref_acquire n d of ((e, p), d') \<Rightarrow> (p, d')) = (q, d1)" by simp
    then have "if q \<noteq> 0 then fresh_range (ref_live d) q n \<and> ref_live d1 = insert (q, n) (ref_live d) else ref_live d1 = ref_live d"
      using ref_acquires_ptr [of n] that(1) unfolding acquires_ptr_def by blast
    then show ?thesis using that(2) a by (auto simp: ref_malloc_def split: if_splits)
  qed
  then show ?thesis unfolding acquires_ptr_def by blast
qed

lemma ref_ceil:
  assumes "0 < n"
  shows "\<exists>k. (if n \<le> 1 then n else 2 * 2 ^ log2_nat (n - 1)) = 2 ^ k \<and> n \<le> 2 ^ k \<and> 2 ^ k < 2 * (n :: nat)"
proof (cases "n = 1")
  case True then show ?thesis by (intro exI [of _ 0]) simp
next
  case False
  then show ?thesis using assms log2_nat_bounds [of "n - 1"] by (intro exI [of _ "Suc (log2_nat (n - 1))"]) auto
qed

lemma ref_new_address: "finite A \<Longrightarrow> Suc (Max (insert 0 A)) \<notin> A \<and> Suc (Max (insert 0 A)) \<noteq> 0"
  by (metis Max_ge Suc_n_not_le_n finite.insertI insertCI nat.distinct(1))

lemma ref_host_calls_ok: "host_calls_ok ref_driver ref_rt ref_hrt ref_current ref_live"
proof -
  have keep: "keeps_live ref_live (supaGetLastError ref_driver)" "\<forall>e. keeps_live ref_live (supaEventQuery ref_driver e)"
    "\<forall>e h. keeps_live ref_live (supaEventRecord ref_driver e h)" "\<forall>i. keeps_live ref_live (suDevicePrimaryCtxGetState ref_driver i)"
    by (simp_all add: keeps_live_def ref_driver_def ref_ok_def)
  have ev: "\<forall>f. keeps_live ref_live (supaEventCreateFlags ref_rt f)"
    by (auto simp: keeps_live_def ref_rt_def ref_live_def Let_def)
  have ok: "keeps_live ref_live ref_ok" "keeps_live ref_live (\<lambda>d. ((supaSuccess, x :: 'x), d))" for x
    by (simp_all add: keeps_live_def ref_ok_def)
  have small: "fst (ref_malloc n d) = 0 \<or> fst (ref_malloc n d) + n \<le> 2 ^ 56" for n d
    by (auto simp: ref_malloc_def split: prod.splits)
  show ?thesis
    unfolding host_calls_ok_def ref_hrt_simps
    by (intro conjI allI impI ref_device_calls_ok ref_accepts_devices ref_device_neutral keep [rule_format] ev [rule_format] ok
        ref_acquires ref_malloc_acquires small ref_releases ref_ceil ref_new_address [THEN conjunct1] ref_new_address [THEN conjunct2] mset_rev)
qed

text \<open>A client that has pinned 100 bytes: it got a block of 128 bytes.\<close>

definition ref_host_world :: "ref_state world" where
  "ref_host_world = \<lparr>drv = ref_start 1000, k_device = -1, event_pools = \<lambda>_. []\<rparr>"

abbreviation ref_config :: SUPAAllocatorConfig where
  "ref_config \<equiv> settings_after ref_lib None []"

lemma ref_config_driver: "\<not> m_pinned_use_supa_host_register ref_config"
  by (simp add: settings_after_def parseArgs_def sx_defs SUPAAllocatorConfig_ctor_def)

lemma ref_allocate:
  "\<exists>t. run_host ref_driver ref_rt ref_config ref_hrt (\<lambda>_. None) (HostAllocate 100) (SUPAHostAllocator_ctor (initial_streams ref_host_world))
     = (Inr ((\<lambda>_. None)(1 \<mapsto> (4096, 100))), t)"
proof -
  have "(2 :: nat) * 2 ^ log2_nat 99 = 128" by (simp add: log2_nat.simps)
  then have "PowerOf2Ceil ref_hrt 100 = 128" by (simp add: ref_hrt_simps)
  then show ?thesis
    using ref_config_driver
    by (simp add: host_allocate_def host_process_events_def process_events_for_specific_size_def SUPAHostAllocator_ctor_def
        getDeviceIndexWithPrimaryContext_def current_device_def GetDevice_def hasPrimaryContext_def new_hblock_def ref_hrt_simps guard_run
        set_lower_bound_def initial_streams_def ref_host_world_def ref_start_def ref_current_def ref_acquire_def ref_top_def Let_def
        sx_defs sx_field_def sx_finally_def sx_noexcept_def drv_call_def driver_check_out_def driver_err_def supa_check_out_def supa_check_def
        check_err_def ref_ok_def numeral_3_eq_3)
qed


end
