(* ===== verification/Graph_State.thy ===== *)
theory Graph_State
  imports Native_Allocator
begin

text \<open>
  The data of the random number generators and of the graph capture: the classes of
  \<^verbatim>\<open>aten/SUPAGeneratorImpl.h\<close> and \<^verbatim>\<open>core/supa/SUPAGraph.h\<close>, the state of a process that uses them on top
  of the process-wide allocator and the streams, and the capture status of the current stream
  (\<^verbatim>\<open>core/supa/SUPAGraphsUtils.h\<close>). Objects live in stores indexed by their numbers, which stand for
  the pointers of the program.
\<close>

section \<open>Objects\<close>

text \<open>
  The argument of a kernel that draws random numbers: the seed and the offset themselves, or, in a
  graph, the addresses from which the kernel reads them, with the offset inside the graph.
\<close>

datatype PhiloxSupaState = PhiloxVal "64 word" "64 word" | PhiloxPtr nat nat "32 word"

text \<open>An undefined tensor is \<open>None\<close>, otherwise the address of its single element.\<close>

record SUPAGeneratorState =
  seed :: "64 word"
  philox_offset_per_thread :: "64 word"
  offset_intragraph :: "32 word"
  gs_capturing :: bool
  registered_graphs :: "nat set"
  seed_extragraph :: "nat option"
  offset_extragraph :: "nat option"

definition SUPAGeneratorState_ctor :: "64 word \<Rightarrow> 64 word \<Rightarrow> 32 word \<Rightarrow> SUPAGeneratorState" where
  "SUPAGeneratorState_ctor sd offset intragraph = \<lparr>seed = sd, philox_offset_per_thread = offset, offset_intragraph = intragraph,
     gs_capturing = False, registered_graphs = {}, seed_extragraph = None, offset_extragraph = None\<rparr>"

record SUPAGeneratorImpl =
  gen_device :: int
  gen_state :: nat
  no_reset_rnn_state :: bool

record SUPAGraph =
  graph_handle :: nat
  graph_exec :: nat
  has_graph :: bool
  has_graph_exec :: bool
  capture_id :: nat
  mempool_id :: mempool_id
  capture_stream :: SUPAStream
  captured_generator_states :: "nat \<Rightarrow> 64 word option"
  capture_dev :: int

section \<open>The state of the process\<close>

record 'd gst =
  g_nca :: "'d nca"
  gen_states :: "nat \<Rightarrow> SUPAGeneratorState option"
  generators :: "nat \<Rightarrow> SUPAGeneratorImpl option"
  graph_objs :: "nat \<Rightarrow> SUPAGraph option"
  next_state :: nat
  next_generator :: nat
  next_graph :: nat
  num_gpu_init_flag :: bool
  gens_num_gpus :: int
  supa_gens_init_flag :: "int \<Rightarrow> bool"
  default_gens_supa :: "int \<Rightarrow> nat option"
  uid :: "64 word"
  uuid :: "64 word"
  pending_event_queries :: int
  supa_graphs_debug :: bool

type_synonym ('d, 'a) gx = "('d gst, exn, 'a) sx"

definition initial_graphs :: "'d nca \<Rightarrow> 'd gst" where
  "initial_graphs n = \<lparr>g_nca = n, gen_states = \<lambda>_. None, generators = \<lambda>_. None, graph_objs = \<lambda>_. None,
     next_state = 0, next_generator = 0, next_graph = 0, num_gpu_init_flag = False, gens_num_gpus = 0,
     supa_gens_init_flag = \<lambda>_. False, default_gens_supa = \<lambda>_. None, uid = 1, uuid = 1,
     pending_event_queries = 0, supa_graphs_debug = False\<rparr>"

section \<open>The graph runtime and the tensor library\<close>

text \<open>
  The runtime's functions on graphs, and the functions of the framework's tensor library that the
  generators call: making and filling a tensor of one element, which run on the whole process, and
  dropping one. \<open>map_order\<close> is the order in which a hash map of the program is walked through, and
  \<open>capture_filter\<close> answers for a graph and a stream what the filter given to the allocator answers.
\<close>

datatype CaptureStatus = CaptureStatusNone | CaptureStatusActive | CaptureStatusInvalidated

record 'd genv =
  GEnv :: "'d penv"
  supaStreamIsCapturing :: "nat \<Rightarrow> ('d, CaptureStatus) drv_out"
  supaStreamGetCaptureInfo :: "nat \<Rightarrow> ('d, CaptureStatus \<times> nat) drv_out"
  supaStreamBeginCapture :: "nat \<Rightarrow> nat \<Rightarrow> 'd drv_call"
  supaStreamEndCapture :: "nat \<Rightarrow> ('d, nat) drv_out"
  supaGraphInstantiateWithFlags :: "nat \<Rightarrow> ('d, nat) drv_out"
  supaGraphGetNodes :: "nat \<Rightarrow> ('d, nat) drv_out"
  supaGraphDestroy :: "nat \<Rightarrow> 'd drv_call"
  supaGraphExecDestroy :: "nat \<Rightarrow> 'd drv_call"
  supaGraphLaunch :: "nat \<Rightarrow> nat \<Rightarrow> 'd drv_call"
  supaGraphDebugDotPrint :: "nat \<Rightarrow> string \<Rightarrow> 'd drv_call"
  launch_kernel :: "PhiloxSupaState \<Rightarrow> nat \<Rightarrow> 'd drv_call"
  tensor_empty :: "('d, nat) nx"
  tensor_fill :: "nat \<Rightarrow> 64 word \<Rightarrow> ('d, unit) nx"
  tensor_drop :: "nat \<Rightarrow> 'd nca \<Rightarrow> 'd nca"
  getNonDeterministicRandom :: "'d \<Rightarrow> 64 word \<times> 'd"
  default_rng_seed_val :: "64 word"
  map_order :: "nat set \<Rightarrow> nat list"
  capture_filter :: "nat \<Rightarrow> nat \<Rightarrow> bool"

abbreviation GDrv :: "'d genv \<Rightarrow> 'd driver" where "GDrv G \<equiv> Drv (Env (GEnv G))"
abbreviation GRt :: "'d genv \<Rightarrow> 'd rt" where "GRt G \<equiv> Rt (GEnv G)"

abbreviation on_nca :: "('d, 'a) nx \<Rightarrow> ('d, 'a) gx" where
  "on_nca \<equiv> sx_field g_nca g_nca_update"

abbreviation on_gs :: "('d, 'a) stx \<Rightarrow> ('d, 'a) gx" where
  "on_gs m \<equiv> on_nca (on_str m)"

abbreviation on_gw :: "('d, 'a) wx \<Rightarrow> ('d, 'a) gx" where
  "on_gw m \<equiv> on_nca (on_pw m)"

abbreviation g_streams :: "'d gst \<Rightarrow> 'd strm" where
  "g_streams s \<equiv> p_streams (g_nca s)"

abbreviation g_world :: "'d gst \<Rightarrow> 'd world" where
  "g_world s \<equiv> st_world (g_streams s)"

abbreviation g_guard :: "'d genv \<Rightarrow> int \<Rightarrow> ('d, 'a) gx \<Rightarrow> ('d, 'a) gx" where
  "g_guard G \<equiv> guarded g_world (\<lambda>f. g_nca_update (p_streams_update (st_world_update f))) (GDrv G)"

section \<open>Access to objects\<close>

definition gs_ref :: "nat \<Rightarrow> ('d, SUPAGeneratorState) gx" where
  "gs_ref i = (\<lambda>s. case gen_states s i of None \<Rightarrow> (Inl UseAfterFree, s) | Some x \<Rightarrow> (Inr x, s))"

definition set_gs :: "nat \<Rightarrow> (SUPAGeneratorState \<Rightarrow> SUPAGeneratorState) \<Rightarrow> ('d, unit) gx" where
  "set_gs i f = sx_bind (gs_ref i) (\<lambda>x. sx_mod (\<lambda>s. s\<lparr>gen_states := (gen_states s)(i \<mapsto> f x)\<rparr>))"

definition new_gs :: "SUPAGeneratorState \<Rightarrow> ('d, nat) gx" where
  "new_gs x = sx_bind (sx_get next_state) (\<lambda>i.
     sx_seq (sx_mod (\<lambda>s. s\<lparr>gen_states := (gen_states s)(i \<mapsto> x), next_state := Suc i\<rparr>)) (sx_ret i))"

definition gen_ref :: "nat \<Rightarrow> ('d, SUPAGeneratorImpl) gx" where
  "gen_ref g = (\<lambda>s. case generators s g of None \<Rightarrow> (Inl UseAfterFree, s) | Some x \<Rightarrow> (Inr x, s))"

definition set_gen :: "nat \<Rightarrow> (SUPAGeneratorImpl \<Rightarrow> SUPAGeneratorImpl) \<Rightarrow> ('d, unit) gx" where
  "set_gen g f = sx_bind (gen_ref g) (\<lambda>x. sx_mod (\<lambda>s. s\<lparr>generators := (generators s)(g \<mapsto> f x)\<rparr>))"

definition new_gen :: "SUPAGeneratorImpl \<Rightarrow> ('d, nat) gx" where
  "new_gen x = sx_bind (sx_get next_generator) (\<lambda>g.
     sx_seq (sx_mod (\<lambda>s. s\<lparr>generators := (generators s)(g \<mapsto> x), next_generator := Suc g\<rparr>)) (sx_ret g))"

definition graph_ref :: "nat \<Rightarrow> ('d, SUPAGraph) gx" where
  "graph_ref gr = (\<lambda>s. case graph_objs s gr of None \<Rightarrow> (Inl UseAfterFree, s) | Some x \<Rightarrow> (Inr x, s))"

definition set_graph :: "nat \<Rightarrow> (SUPAGraph \<Rightarrow> SUPAGraph) \<Rightarrow> ('d, unit) gx" where
  "set_graph gr f = sx_bind (graph_ref gr) (\<lambda>x. sx_mod (\<lambda>s. s\<lparr>graph_objs := (graph_objs s)(gr \<mapsto> f x)\<rparr>))"

section \<open>Is the current stream capturing?\<close>

definition currentStreamCaptureStatusMayInitCtx :: "'d genv \<Rightarrow> ('d, CaptureStatus) gx" where
  "currentStreamCaptureStatusMayInitCtx G =
     sx_bind (on_gs (getCurrentSUPAStream (GDrv G) (GRt G) (-1))) (\<lambda>stream.
     sx_bind (on_gs (stream_of stream)) (\<lambda>h.
     on_gw (supa_check_out (supaStreamIsCapturing G h))))"

definition currentStreamCaptureStatus :: "'d genv \<Rightarrow> ('d, CaptureStatus) gx" where
  "currentStreamCaptureStatus G =
     sx_bind (on_gw (current_device (GDrv G))) (\<lambda>i.
     sx_bind (on_gw (hasPrimaryContext (GDrv G) i)) (\<lambda>has.
     if has then currentStreamCaptureStatusMayInitCtx G else sx_ret CaptureStatusNone))"

definition assertNotCapturing :: "'d genv \<Rightarrow> string \<Rightarrow> ('d, unit) gx" where
  "assertNotCapturing G attempt =
     sx_bind (currentStreamCaptureStatus G) (\<lambda>status. sx_check (status = CaptureStatusNone) (TorchCheck attempt))"

lemma wp_gs_ref [simp, wp_simps]:
  "wp (gs_ref i) Q E = (\<lambda>s. case gen_states s i of None \<Rightarrow> E UseAfterFree s | Some x \<Rightarrow> Q x s)"
  by (intro ext) (simp add: wp_def gs_ref_def split: option.splits)

lemma wp_set_gs [simp, wp_simps]:
  "wp (set_gs i f) Q E = (\<lambda>s. case gen_states s i of None \<Rightarrow> E UseAfterFree s
     | Some x \<Rightarrow> Q () (s\<lparr>gen_states := (gen_states s)(i \<mapsto> f x)\<rparr>))"
  by (intro ext) (simp add: set_gs_def split: option.splits)

lemma wp_new_gs [simp, wp_simps]:
  "wp (new_gs x) Q E = (\<lambda>s. Q (next_state s) (s\<lparr>gen_states := (gen_states s)(next_state s \<mapsto> x), next_state := Suc (next_state s)\<rparr>))"
  by (intro ext) (simp add: new_gs_def)

lemma wp_gen_ref [simp, wp_simps]:
  "wp (gen_ref g) Q E = (\<lambda>s. case generators s g of None \<Rightarrow> E UseAfterFree s | Some x \<Rightarrow> Q x s)"
  by (intro ext) (simp add: wp_def gen_ref_def split: option.splits)

lemma wp_set_gen [simp, wp_simps]:
  "wp (set_gen g f) Q E = (\<lambda>s. case generators s g of None \<Rightarrow> E UseAfterFree s
     | Some x \<Rightarrow> Q () (s\<lparr>generators := (generators s)(g \<mapsto> f x)\<rparr>))"
  by (intro ext) (simp add: set_gen_def split: option.splits)

lemma wp_new_gen [simp, wp_simps]:
  "wp (new_gen x) Q E = (\<lambda>s. Q (next_generator s)
     (s\<lparr>generators := (generators s)(next_generator s \<mapsto> x), next_generator := Suc (next_generator s)\<rparr>))"
  by (intro ext) (simp add: new_gen_def)

lemma wp_graph_ref [simp, wp_simps]:
  "wp (graph_ref gr) Q E = (\<lambda>s. case graph_objs s gr of None \<Rightarrow> E UseAfterFree s | Some x \<Rightarrow> Q x s)"
  by (intro ext) (simp add: wp_def graph_ref_def split: option.splits)

lemma wp_set_graph [simp, wp_simps]:
  "wp (set_graph gr f) Q E = (\<lambda>s. case graph_objs s gr of None \<Rightarrow> E UseAfterFree s
     | Some x \<Rightarrow> Q () (s\<lparr>graph_objs := (graph_objs s)(gr \<mapsto> f x)\<rparr>))"
  by (intro ext) (simp add: set_graph_def split: option.splits)

end
