(* ===== verification/Rng_State.thy ===== *)
theory Rng_State
  imports Graph_State
begin

text \<open>
  The random number generators, \<^verbatim>\<open>aten/SUPAGeneratorImpl.cpp\<close>: a generator refers to a state, which
  holds the seed and the offset from which the next kernel draws, and which manages the offset inside
  a graph while one is captured. The state tensors that \<^verbatim>\<open>get_state\<close> and \<^verbatim>\<open>set_state\<close> exchange are lists
  of bytes.
\<close>

section \<open>The state of a generator\<close>

definition gs_clone :: "nat \<Rightarrow> ('d, nat) gx" where
  "gs_clone i = sx_bind (gs_ref i) (\<lambda>x.
     new_gs (SUPAGeneratorState_ctor (seed x) (philox_offset_per_thread x) (offset_intragraph x)))"

definition round_increment :: "64 word \<Rightarrow> 64 word" where
  "round_increment increment = ((increment + 3) div 4) * 4"

text \<open>The largest 32-bit number less the increment is computed with 64 bits and wraps around.\<close>

definition increase :: "'d genv \<Rightarrow> nat \<Rightarrow> 64 word \<Rightarrow> ('d, unit) gx" where
  "increase G i inc =
     (let increment = round_increment inc in
      sx_bind (currentStreamCaptureStatus G) (\<lambda>status.
      if status \<noteq> CaptureStatusNone then
        sx_bind (gs_ref i) (\<lambda>x.
        sx_seq (sx_check (gs_capturing x) (TorchCheck ''Attempt to increase offset for a SUPA generator not in capture mode.''))
        (sx_seq (sx_check (offset_intragraph x mod 4 = 0) (InternalAssert ''RNG offset must be a multiple of 4.''))
        (sx_seq (sx_check (ucast (offset_intragraph x) \<le> (0xFFFFFFFF :: 64 word) - increment)
          (InternalAssert ''Increment causes overflow in the offset value.''))
        (set_gs i (\<lambda>x. x\<lparr>offset_intragraph := ucast (ucast (offset_intragraph x) + increment)\<rparr>)))))
      else
        sx_bind (gs_ref i) (\<lambda>x.
        sx_seq (sx_check (\<not> gs_capturing x) (TorchCheck ''Offset increment outside graph capture encountered unexpectedly.''))
        (sx_seq (sx_check (philox_offset_per_thread x mod 4 = 0) (InternalAssert ''RNG offset must be a multiple of 4.''))
        (set_gs i (\<lambda>x. x\<lparr>philox_offset_per_thread := philox_offset_per_thread x + increment\<rparr>))))))"

text \<open>Assigning a tensor drops the one that was there.\<close>

definition drop_tensor :: "'d genv \<Rightarrow> nat option \<Rightarrow> ('d, unit) gx" where
  "drop_tensor G tn = (case tn of None \<Rightarrow> sx_ret () | Some p \<Rightarrow> on_nca (sx_mod (tensor_drop G p)))"

definition gs_register_graph :: "'d genv \<Rightarrow> nat \<Rightarrow> nat \<Rightarrow> ('d, unit) gx" where
  "gs_register_graph G i gr =
     sx_seq (assertNotCapturing G ''Cannot register the state during capturing stage.'')
     (sx_bind (gs_ref i) (\<lambda>x.
      sx_seq (sx_when (registered_graphs x = {})
        (sx_bind (on_nca (tensor_empty G)) (\<lambda>p.
         sx_seq (set_gs i (\<lambda>x. x\<lparr>seed_extragraph := Some p\<rparr>))
         (sx_seq (drop_tensor G (seed_extragraph x))
         (sx_bind (on_nca (tensor_empty G)) (\<lambda>q.
          sx_seq (set_gs i (\<lambda>x. x\<lparr>offset_extragraph := Some q\<rparr>))
          (drop_tensor G (offset_extragraph x))))))))
      (set_gs i (\<lambda>x. x\<lparr>registered_graphs := insert gr (registered_graphs x)\<rparr>))))"

definition gs_unregister_graph :: "'d genv \<Rightarrow> nat \<Rightarrow> nat \<Rightarrow> ('d, unit) gx" where
  "gs_unregister_graph G i gr =
     sx_bind (gs_ref i) (\<lambda>x.
     sx_seq (sx_check (gr \<in> registered_graphs x) (TorchCheck ''The graph should be registered to the state''))
     (sx_seq (set_gs i (\<lambda>x. x\<lparr>registered_graphs := registered_graphs x - {gr}\<rparr>))
     (sx_when (registered_graphs x - {gr} = {})
       (sx_seq (set_gs i (\<lambda>x. x\<lparr>seed_extragraph := None\<rparr>))
       (sx_seq (drop_tensor G (seed_extragraph x))
       (sx_seq (set_gs i (\<lambda>x. x\<lparr>offset_extragraph := None\<rparr>))
       (drop_tensor G (offset_extragraph x))))))))"

definition fill_tensor :: "'d genv \<Rightarrow> nat option \<Rightarrow> 64 word \<Rightarrow> ('d, unit) gx" where
  "fill_tensor G tn v = (case tn of None \<Rightarrow> sx_throw (TorchCheck ''undefined tensor'') | Some p \<Rightarrow> on_nca (tensor_fill G p v))"

definition capture_prologue :: "'d genv \<Rightarrow> nat \<Rightarrow> ('d, unit) gx" where
  "capture_prologue G i =
     sx_seq (set_gs i (\<lambda>x. x\<lparr>gs_capturing := True\<rparr>))
     (sx_seq (set_gs i (\<lambda>x. x\<lparr>offset_intragraph := 0\<rparr>))
     (sx_bind (gs_ref i) (\<lambda>x.
      sx_seq (fill_tensor G (seed_extragraph x) (seed x))
      (fill_tensor G (offset_extragraph x) 0))))"

definition capture_epilogue :: "nat \<Rightarrow> ('d, 64 word) gx" where
  "capture_epilogue i =
     sx_seq (set_gs i (\<lambda>x. x\<lparr>gs_capturing := False\<rparr>))
     (sx_bind (gs_ref i) (\<lambda>x. sx_ret (ucast (offset_intragraph x))))"

definition replay_prologue :: "'d genv \<Rightarrow> nat \<Rightarrow> 64 word \<Rightarrow> ('d, unit) gx" where
  "replay_prologue G i wholegraph_increment =
     sx_seq (assertNotCapturing G ''Cannot prepare for replay during capturing stage.'')
     (sx_bind (gs_ref i) (\<lambda>x.
      sx_seq (fill_tensor G (seed_extragraph x) (seed x))
      (sx_seq (fill_tensor G (offset_extragraph x) (philox_offset_per_thread x))
      (increase G i wholegraph_increment))))"

section \<open>The generator\<close>

definition SUPAGeneratorImpl_ctor :: "'d genv \<Rightarrow> int \<Rightarrow> ('d, nat) gx" where
  "SUPAGeneratorImpl_ctor G device_index =
     sx_seq (assertNotCapturing G ''Cannot construct a new SUPAGeneratorImpl'')
     (sx_bind (new_gs (SUPAGeneratorState_ctor (default_rng_seed_val G) 0 0)) (\<lambda>i.
      new_gen \<lparr>gen_device = device_index, gen_state = i, no_reset_rnn_state = False\<rparr>))"

definition SUPAGeneratorImpl_ctor_state :: "int \<Rightarrow> nat \<Rightarrow> ('d, nat) gx" where
  "SUPAGeneratorImpl_ctor_state device_index i = new_gen \<lparr>gen_device = device_index, gen_state = i, no_reset_rnn_state = False\<rparr>"

definition set_current_seed :: "'d genv \<Rightarrow> nat \<Rightarrow> 64 word \<Rightarrow> ('d, unit) gx" where
  "set_current_seed G g sd =
     sx_seq (assertNotCapturing G ''Cannot call SUPAGeneratorImpl::set_current_seed'')
     (sx_bind (gen_ref g) (\<lambda>x.
      sx_seq (set_gs (gen_state x) (\<lambda>y. y\<lparr>seed := sd, philox_offset_per_thread := 0\<rparr>))
      (set_gen g (\<lambda>x. x\<lparr>no_reset_rnn_state := False\<rparr>))))"

definition current_seed :: "'d genv \<Rightarrow> nat \<Rightarrow> ('d, 64 word) gx" where
  "current_seed G g =
     sx_seq (assertNotCapturing G ''Cannot call SUPAGeneratorImpl::current_seed'')
     (sx_bind (gen_ref g) (\<lambda>x. sx_bind (gs_ref (gen_state x)) (\<lambda>y. sx_ret (seed y))))"

definition gen_seed :: "'d genv \<Rightarrow> nat \<Rightarrow> ('d, 64 word) gx" where
  "gen_seed G g =
     sx_seq (assertNotCapturing G ''Cannot call SUPAGeneratorImpl::seed'')
     (sx_bind (on_gw (drv_call (getNonDeterministicRandom G))) (\<lambda>random.
      sx_seq (set_current_seed G g random) (sx_ret random)))"

definition get_philox_offset_per_thread :: "nat \<Rightarrow> ('d, 64 word) gx" where
  "get_philox_offset_per_thread g =
     sx_bind (gen_ref g) (\<lambda>x. sx_bind (gs_ref (gen_state x)) (\<lambda>y. sx_ret (philox_offset_per_thread y)))"

definition set_philox_offset_per_thread :: "nat \<Rightarrow> 64 word \<Rightarrow> ('d, unit) gx" where
  "set_philox_offset_per_thread g offset =
     sx_seq (sx_check (offset mod 4 = 0) (TorchCheck ''offset must be a multiple of 4''))
     (sx_bind (gen_ref g) (\<lambda>x. set_gs (gen_state x) (\<lambda>y. y\<lparr>philox_offset_per_thread := offset\<rparr>)))"

text \<open>\<^verbatim>\<open>memcpy\<close> of a 64-bit number to and from memory, least significant byte first.\<close>

definition bytes_of :: "64 word \<Rightarrow> 8 word list" where
  "bytes_of w = map (\<lambda>k. ucast (drop_bit (8 * k) w)) [0 ..< 8]"

definition word_of :: "8 word list \<Rightarrow> 64 word" where
  "word_of bs = foldr (\<lambda>b w. push_bit 8 w OR ucast b) bs 0"

definition get_state :: "'d genv \<Rightarrow> nat \<Rightarrow> ('d, 8 word list) gx" where
  "get_state G g =
     sx_seq (assertNotCapturing G ''Cannot call SUPAGeneratorImpl::get_state'')
     (sx_bind (current_seed G g) (\<lambda>sd.
      sx_bind (get_philox_offset_per_thread g) (\<lambda>offset.
      sx_ret (bytes_of sd @ bytes_of offset))))"

definition set_state :: "'d genv \<Rightarrow> nat \<Rightarrow> 8 word list \<Rightarrow> ('d, unit) gx" where
  "set_state G g new_state =
     (let no_philox_seed = (length new_state = 16 - 8) in
      sx_seq (sx_check (no_philox_seed \<or> length new_state = 16) (TorchCheck ''RNG state is wrong size''))
      (sx_seq (set_current_seed G g (word_of (take 8 new_state)))
      (set_philox_offset_per_thread g (if no_philox_seed then 0 else word_of (take 8 (drop 8 new_state))))))"

definition graphsafe_set_state :: "nat \<Rightarrow> nat \<Rightarrow> ('d, unit) gx" where
  "graphsafe_set_state g gen = sx_bind (gen_ref gen) (\<lambda>x. set_gen g (\<lambda>y. y\<lparr>gen_state := gen_state x\<rparr>))"

definition graphsafe_get_state :: "nat \<Rightarrow> ('d, nat) gx" where
  "graphsafe_get_state g = sx_bind (gen_ref g) (\<lambda>x. SUPAGeneratorImpl_ctor_state (gen_device x) (gen_state x))"

definition register_generator_state :: "nat \<Rightarrow> nat \<Rightarrow> ('d, unit) gx" where
  "register_generator_state gr i = set_graph gr (\<lambda>x. x\<lparr>captured_generator_states := (captured_generator_states x)(i \<mapsto> 0)\<rparr>)"

definition gen_register_graph :: "'d genv \<Rightarrow> nat \<Rightarrow> nat \<Rightarrow> ('d, unit) gx" where
  "gen_register_graph G g gr =
     sx_bind (gen_ref g) (\<lambda>x.
     sx_seq (register_generator_state gr (gen_state x)) (gs_register_graph G (gen_state x) gr))"

definition gen_unregister_graph :: "'d genv \<Rightarrow> nat \<Rightarrow> nat \<Rightarrow> ('d, unit) gx" where
  "gen_unregister_graph G g gr = sx_bind (gen_ref g) (\<lambda>x. gs_unregister_graph G (gen_state x) gr)"

definition data_ptr :: "nat option \<Rightarrow> ('d, nat) gx" where
  "data_ptr tn = (case tn of None \<Rightarrow> sx_throw (TorchCheck ''undefined tensor'') | Some p \<Rightarrow> sx_ret p)"

definition philox_supa_state :: "'d genv \<Rightarrow> nat \<Rightarrow> 64 word \<Rightarrow> ('d, PhiloxSupaState) gx" where
  "philox_supa_state G g increment =
     sx_bind (currentStreamCaptureStatus G) (\<lambda>status.
     sx_bind (gen_ref g) (\<lambda>gen.
     sx_bind (gs_ref (gen_state gen)) (\<lambda>x.
     if status \<noteq> CaptureStatusNone then
       sx_seq (increase G (gen_state gen) increment)
       (sx_bind (gs_ref (gen_state gen)) (\<lambda>y.
        sx_bind (data_ptr (seed_extragraph y)) (\<lambda>p.
        sx_bind (data_ptr (offset_extragraph y)) (\<lambda>q.
        sx_ret (PhiloxPtr p q (offset_intragraph x))))))
     else
       sx_seq (increase G (gen_state gen) increment)
       (sx_bind (gs_ref (gen_state gen)) (\<lambda>y.
        sx_ret (PhiloxVal (seed y) (philox_offset_per_thread x)))))))"

definition set_offset :: "'d genv \<Rightarrow> nat \<Rightarrow> 64 word \<Rightarrow> ('d, unit) gx" where
  "set_offset G g offset =
     sx_seq (assertNotCapturing G ''Cannot call SUPAGeneratorImpl::set_offset'')
     (sx_seq (set_philox_offset_per_thread g offset)
     (set_gen g (\<lambda>x. x\<lparr>no_reset_rnn_state := False\<rparr>)))"

definition get_offset :: "'d genv \<Rightarrow> nat \<Rightarrow> ('d, 64 word) gx" where
  "get_offset G g =
     sx_seq (assertNotCapturing G ''Cannot call SUPAGeneratorImpl::get_offset'') (get_philox_offset_per_thread g)"

definition philox_engine_inputs :: "'d genv \<Rightarrow> nat \<Rightarrow> 64 word \<Rightarrow> ('d, 64 word \<times> 64 word) gx" where
  "philox_engine_inputs G g increment =
     sx_seq (assertNotCapturing G ''Cannot call SUPAGeneratorImpl::philox_engine_inputs'')
     (sx_bind (gen_ref g) (\<lambda>gen.
      sx_bind (gs_ref (gen_state gen)) (\<lambda>x.
      sx_seq (increase G (gen_state gen) increment)
      (sx_bind (gs_ref (gen_state gen)) (\<lambda>y. sx_ret (seed y, philox_offset_per_thread x))))))"

definition clone_impl :: "'d genv \<Rightarrow> nat \<Rightarrow> ('d, nat) gx" where
  "clone_impl G g =
     sx_seq (assertNotCapturing G ''Cannot call SUPAGeneratorImpl::clone_impl'')
     (sx_bind (gen_ref g) (\<lambda>x. sx_bind (gs_clone (gen_state x)) (SUPAGeneratorImpl_ctor_state (gen_device x))))"

definition make_supa_generator :: "'d genv \<Rightarrow> int \<Rightarrow> ('d, nat) gx" where
  "make_supa_generator G device_index =
     sx_seq (assertNotCapturing G ''Not support Generator while in capture mode'') (SUPAGeneratorImpl_ctor G device_index)"

definition reset_rnn_state :: "nat \<Rightarrow> ('d, bool) gx" where
  "reset_rnn_state g = sx_bind (gen_ref g) (\<lambda>x.
     sx_seq (set_gen g (\<lambda>x. x\<lparr>no_reset_rnn_state := True\<rparr>)) (sx_ret (\<not> no_reset_rnn_state x)))"

section \<open>The default generators\<close>

definition initSUPAGenVector :: "'d genv \<Rightarrow> ('d, unit) gx" where
  "initSUPAGenVector G = sx_mod (\<lambda>s. s\<lparr>gens_num_gpus := device_count (GDrv G)\<rparr>)"

definition init_gens :: "'d genv \<Rightarrow> ('d, unit) gx" where
  "init_gens G = sx_once num_gpu_init_flag (\<lambda>s. s\<lparr>num_gpu_init_flag := True\<rparr>) (initSUPAGenVector G)"

definition make_default :: "'d genv \<Rightarrow> int \<Rightarrow> ('d, unit) gx" where
  "make_default G idx =
     sx_bind (SUPAGeneratorImpl_ctor G idx) (\<lambda>g.
     sx_seq (sx_mod (\<lambda>s. s\<lparr>default_gens_supa := (default_gens_supa s)(idx \<mapsto> g)\<rparr>))
     (sx_bind (gen_seed G g) (\<lambda>_. sx_ret ())))"

definition default_at :: "'d genv \<Rightarrow> int \<Rightarrow> ('d, nat) gx" where
  "default_at G idx =
     sx_bind (sx_get gens_num_gpus) (\<lambda>n.
     sx_seq (sx_check (0 \<le> idx \<and> idx < n) OutOfBounds)
     (sx_seq (sx_once (\<lambda>s. supa_gens_init_flag s idx) (\<lambda>s. s\<lparr>supa_gens_init_flag := (supa_gens_init_flag s)(idx := True)\<rparr>)
        (make_default G idx))
     (sx_bind (sx_get (\<lambda>s. default_gens_supa s idx)) (\<lambda>x. case x of
        None \<Rightarrow> sx_throw UseAfterFree | Some g \<Rightarrow> sx_ret g))))"

definition getDefaultSUPAGenerator :: "'d genv \<Rightarrow> int \<Rightarrow> ('d, nat) gx" where
  "getDefaultSUPAGenerator G device_index =
     sx_seq (init_gens G)
     (sx_bind (if device_index = -1 then on_gw (current_device (GDrv G)) else
        sx_bind (sx_get gens_num_gpus) (\<lambda>n.
        sx_seq (sx_check (0 \<le> device_index \<and> device_index < n) (TorchCheck ''idx >= 0 && idx < num_gpus''))
        (sx_ret device_index))) (default_at G))"

definition createSUPAGenerator :: "'d genv \<Rightarrow> int \<Rightarrow> ('d, nat) gx" where
  "createSUPAGenerator G device_index =
     sx_seq (init_gens G)
     (sx_bind (if device_index = -1 then on_gw (current_device (GDrv G)) else sx_ret device_index) (\<lambda>idx.
      sx_bind (sx_get gens_num_gpus) (\<lambda>n.
      sx_seq (sx_check (0 \<le> idx \<and> idx < n) (TorchCheck ''The device_index is invalid.''))
      (sx_bind (SUPAGeneratorImpl_ctor G idx) (\<lambda>g.
       sx_seq (set_current_seed G g (default_rng_seed_val G))
       (sx_seq (set_philox_offset_per_thread g 0) (sx_ret g)))))))"

end
