(* ===== verification/Graph_Capture.thy ===== *)
theory Graph_Capture
  imports Rng_State
begin

text \<open>
  Capturing and replaying graphs: \<^verbatim>\<open>core/supa/SUPAGraph.cpp\<close>, with the identifiers of memory pools that
  \<^verbatim>\<open>core/supa/MemPool.cpp\<close> hands out. A graph takes a private pool of the allocator for its capture and
  manages the states of the generators registered with it.
\<close>

section \<open>Identifiers of memory pools\<close>

definition mempool_graph_pool_handle :: "bool \<Rightarrow> ('d, mempool_id) gx" where
  "mempool_graph_pool_handle is_user_created =
     (if is_user_created then sx_bind (sx_get uid) (\<lambda>n. sx_seq (sx_mod (\<lambda>s. s\<lparr>uid := n + 1\<rparr>)) (sx_ret (0, unat n)))
      else sx_bind (sx_get uuid) (\<lambda>n. sx_seq (sx_mod (\<lambda>s. s\<lparr>uuid := n + 1\<rparr>)) (sx_ret (unat n, 0))))"

definition graph_pool_handle :: "('d, mempool_id) gx" where
  "graph_pool_handle = mempool_graph_pool_handle True"

section \<open>Event queries\<close>

definition inc_pending_event_queries :: "('d, unit) gx" where
  "inc_pending_event_queries = sx_mod (\<lambda>s. s\<lparr>pending_event_queries := pending_event_queries s + 1\<rparr>)"

definition dec_pending_event_queries :: "('d, unit) gx" where
  "dec_pending_event_queries =
     sx_bind (sx_get pending_event_queries) (\<lambda>n.
     sx_seq (sx_check (0 < n) (InternalAssert ''Attempted to decrement the number of outstanding events to be queried, but it was <= 0.''))
     (sx_mod (\<lambda>s. s\<lparr>pending_event_queries := pending_event_queries s - 1\<rparr>)))"

text \<open>
  The wait for the queries of other threads: with no query open it is over at once, otherwise it lasts
  until another thread has closed the last one, which is no step of this thread.
\<close>

definition wait_for_event_queries :: "('d, unit) gx" where
  "wait_for_event_queries = sx_bind (sx_get pending_event_queries) (\<lambda>n. sx_check (n = 0) LoopBound)"

section \<open>Capture\<close>

definition SUPAGraph_ctor :: "'d genv \<Rightarrow> ('d, nat) gx" where
  "SUPAGraph_ctor G =
     sx_bind (on_gs (getCurrentSUPAStream (GDrv G) (GRt G) (-1))) (\<lambda>stream.
     sx_bind (sx_get next_graph) (\<lambda>gr.
     sx_seq (sx_mod (\<lambda>s. s\<lparr>next_graph := Suc gr, graph_objs := (graph_objs s)(gr \<mapsto>
       \<lparr>graph_handle = 0, graph_exec = 0, has_graph = False, has_graph_exec = False, capture_id = 2 ^ 64 - 1, mempool_id = (0, 0),
        capture_stream = stream, captured_generator_states = \<lambda>_. None, capture_dev = -1\<rparr>)\<rparr>))
     (sx_ret gr)))"

text \<open>The loop over the states of the generators, in the order of the hash map.\<close>

definition for_states :: "'d genv \<Rightarrow> nat \<Rightarrow> (nat \<Rightarrow> 64 word \<Rightarrow> ('d, unit) gx) \<Rightarrow> ('d, unit) gx" where
  "for_states G gr f = sx_bind (graph_ref gr) (\<lambda>x.
     sx_for (map_order G (dom (captured_generator_states x))) (\<lambda>i.
       case captured_generator_states x i of None \<Rightarrow> sx_ret () | Some wholegraph_increments \<Rightarrow> f i wholegraph_increments))"

definition choose_pool :: "mempool_id \<Rightarrow> ('d, mempool_id) gx" where
  "choose_pool pool =
     (if fst pool \<noteq> 0 \<or> snd pool \<noteq> 0 then
        sx_seq (sx_check (\<not> (fst pool \<noteq> 0 \<and> snd pool \<noteq> 0)) (InternalAssert ''!(pool.first && pool.second)'')) (sx_ret pool)
      else
        sx_bind (mempool_graph_pool_handle False) (\<lambda>i.
        sx_seq (sx_check (0 < fst i) (InternalAssert ''mempool_id_.first > 0'')) (sx_ret i)))"

definition begin_capture :: "'d genv \<Rightarrow> nat \<Rightarrow> SUPAStream \<Rightarrow> nat \<Rightarrow> ('d, unit) gx" where
  "begin_capture G gr stream capture_mode =
     sx_bind (on_gs (stream_of stream)) (\<lambda>h.
     sx_seq (on_gw (supa_check (supaStreamBeginCapture G h capture_mode)))
     (sx_bind (on_gs (stream_of stream)) (\<lambda>h.
      sx_bind (on_gw (supa_check_out (supaStreamGetCaptureInfo G h))) (\<lambda>(status, cid).
      sx_seq (set_graph gr (\<lambda>x. x\<lparr>capture_id := cid\<rparr>))
      (sx_check (status = CaptureStatusActive) (InternalAssert ''status == supaStreamCaptureStatusActive''))))))"

definition capture_begin :: "'d genv \<Rightarrow> nat \<Rightarrow> mempool_id \<Rightarrow> nat \<Rightarrow> ('d, unit) gx" where
  "capture_begin G gr pool capture_mode =
     sx_bind (graph_ref gr) (\<lambda>x.
     sx_seq (sx_check (\<not> has_graph_exec x) (TorchCheck ''This SUPAGraph instance already owns a captured graph.''))
     (sx_bind (getDefaultSUPAGenerator G (-1)) (\<lambda>gen.
      sx_seq (gen_register_graph G gen gr)
      (sx_seq (for_states G gr (\<lambda>i _. capture_prologue G i))
      (sx_bind (on_gs (getCurrentSUPAStream (GDrv G) (GRt G) (-1))) (\<lambda>stream.
       sx_bind (on_gs (getDefaultSUPAStream (GDrv G) (GRt G) (-1))) (\<lambda>default.
       sx_seq (sx_check (stream \<noteq> default) (TorchCheck ''SUPA graphs must be captured on a non-default stream.''))
       (sx_seq (set_graph gr (\<lambda>x. x\<lparr>capture_stream := stream\<rparr>))
       (sx_bind (on_gw (current_device (GDrv G))) (\<lambda>dev.
        sx_seq (set_graph gr (\<lambda>x. x\<lparr>capture_dev := dev\<rparr>))
        (sx_bind (choose_pool pool) (\<lambda>i.
         sx_seq (set_graph gr (\<lambda>x. x\<lparr>mempool_id := i\<rparr>))
         (sx_seq (on_nca (native_beginAllocateToPool dev i (capture_filter G gr)))
         (sx_seq wait_for_event_queries
         (begin_capture G gr stream capture_mode)))))))))))))))"

definition capture_end :: "'d genv \<Rightarrow> nat \<Rightarrow> ('d, unit) gx" where
  "capture_end G gr =
     sx_bind (on_gs (getCurrentSUPAStream (GDrv G) (GRt G) (-1))) (\<lambda>stream.
     sx_bind (graph_ref gr) (\<lambda>x.
     sx_seq (sx_check (stream = capture_stream x) (TorchCheck ''Capture must end on the same stream it began on.''))
     (sx_bind (on_gs (stream_of (capture_stream x))) (\<lambda>h.
      sx_bind (on_gw (supa_check_out (supaStreamEndCapture G h))) (\<lambda>graph.
      sx_seq (set_graph gr (\<lambda>x. x\<lparr>graph_handle := graph\<rparr>))
      (sx_seq (on_nca (native_endAllocateToPool (capture_dev x) (mempool_id x)))
      (sx_seq (sx_check (graph \<noteq> 0) (TorchCheck ''Invalid capture.''))
      (sx_seq (set_graph gr (\<lambda>x. x\<lparr>has_graph := True\<rparr>))
      (sx_bind (on_gw (supa_check_out (supaGraphInstantiateWithFlags G graph))) (\<lambda>exec.
       sx_seq (set_graph gr (\<lambda>x. x\<lparr>graph_exec := exec, has_graph_exec := True\<rparr>))
       (sx_seq (for_states G gr (\<lambda>i _. sx_bind (capture_epilogue i) (\<lambda>n.
          set_graph gr (\<lambda>x. x\<lparr>captured_generator_states := (captured_generator_states x)(i \<mapsto> n)\<rparr>))))
       (sx_bind (on_gw (supa_check_out (supaGraphGetNodes G graph))) (\<lambda>_.
        sx_bind (sx_get supa_graphs_debug) (\<lambda>debug.
        sx_when (\<not> debug)
          (sx_seq (on_gw (supa_check (supaGraphDestroy G graph)))
          (set_graph gr (\<lambda>x. x\<lparr>has_graph := False\<rparr>)))))))))))))))))"

section \<open>Replay\<close>

definition replay :: "'d genv \<Rightarrow> nat \<Rightarrow> ('d, unit) gx" where
  "replay G gr =
     sx_bind (graph_ref gr) (\<lambda>x.
     sx_seq (sx_check (has_graph_exec x) (TorchCheck ''Called SUPAGraph::replay without a preceding successful capture.''))
     (g_guard G (s_device (capture_stream x))
       (sx_seq (for_states G gr (replay_prologue G))
       (sx_bind (on_gs (getCurrentSUPAStream (GDrv G) (GRt G) (-1))) (\<lambda>stream.
        sx_bind (on_gs (stream_of stream)) (\<lambda>h.
        on_gw (supa_check (supaGraphLaunch G (graph_exec x) h))))))))"

section \<open>Debugging and the end of a graph\<close>

definition enable_debug_mode :: "('d, unit) gx" where
  "enable_debug_mode = sx_mod (\<lambda>s. s\<lparr>supa_graphs_debug := True\<rparr>)"

definition check_graph_warn :: "'d genv \<Rightarrow> 'd drv_call \<Rightarrow> ('d, unit) gx" where
  "check_graph_warn G f = on_gw (sx_bind (drv_call f) (check_warn (GDrv G)))"

definition debug_dump :: "'d genv \<Rightarrow> nat \<Rightarrow> string \<Rightarrow> ('d, unit) gx" where
  "debug_dump G gr debug_path =
     sx_bind (sx_get supa_graphs_debug) (\<lambda>debug.
     sx_when debug (sx_bind (graph_ref gr) (\<lambda>x.
       sx_when (has_graph x)
         (sx_seq (check_graph_warn G (supaGraphDebugDotPrint G (graph_handle x) debug_path))
         (sx_seq (on_gw (supa_check (supaGraphDestroy G (graph_handle x))))
         (set_graph gr (\<lambda>x. x\<lparr>has_graph := False\<rparr>)))))))"

definition reset :: "'d genv \<Rightarrow> nat \<Rightarrow> ('d, unit) gx" where
  "reset G gr =
     sx_bind (graph_ref gr) (\<lambda>x.
     sx_seq (sx_when (has_graph x \<or> has_graph_exec x) (on_nca (native_releasePool (capture_dev x) (mempool_id x))))
     (sx_seq (sx_when (has_graph x)
        (sx_seq (check_graph_warn G (supaGraphDestroy G (graph_handle x))) (set_graph gr (\<lambda>x. x\<lparr>has_graph := False\<rparr>))))
     (sx_when (has_graph_exec x)
        (sx_seq (check_graph_warn G (supaGraphExecDestroy G (graph_exec x))) (set_graph gr (\<lambda>x. x\<lparr>has_graph_exec := False\<rparr>))))))"

definition graph_pool :: "nat \<Rightarrow> ('d, mempool_id) gx" where
  "graph_pool gr = sx_bind (graph_ref gr) (\<lambda>x.
     sx_seq (sx_check (has_graph_exec x) (TorchCheck ''Called SUPAGraph::pool() without a preceding successful capture.''))
     (sx_ret (mempool_id x)))"

definition SUPAGraph_dtor :: "'d genv \<Rightarrow> nat \<Rightarrow> ('d, unit) gx" where
  "SUPAGraph_dtor G gr = sx_noexcept
     (sx_seq (for_states G gr (\<lambda>i _. gs_unregister_graph G i gr))
     (sx_seq (reset G gr)
     (sx_mod (\<lambda>s. s\<lparr>graph_objs := (graph_objs s)(gr := None)\<rparr>))))"

section \<open>The operations of a client\<close>

text \<open>
  A random operation draws the numbers of one kernel and launches the kernel on the current stream; an
  operation of an older style asks for the seed and the offset themselves.
\<close>

definition random_op :: "'d genv \<Rightarrow> nat \<Rightarrow> 64 word \<Rightarrow> ('d, PhiloxSupaState) gx" where
  "random_op G g increment =
     sx_bind (philox_supa_state G g increment) (\<lambda>ps.
     sx_bind (on_gs (getCurrentSUPAStream (GDrv G) (GRt G) (-1))) (\<lambda>stream.
     sx_bind (on_gs (stream_of stream)) (\<lambda>h.
     sx_seq (on_gw (supa_check (launch_kernel G ps h))) (sx_ret ps))))"

definition engine_op :: "'d genv \<Rightarrow> nat \<Rightarrow> 64 word \<Rightarrow> ('d, PhiloxSupaState) gx" where
  "engine_op G g increment =
     sx_bind (philox_engine_inputs G g increment) (\<lambda>(sd, offset).
     sx_bind (on_gs (getCurrentSUPAStream (GDrv G) (GRt G) (-1))) (\<lambda>stream.
     sx_bind (on_gs (stream_of stream)) (\<lambda>h.
     sx_seq (on_gw (supa_check (launch_kernel G (PhiloxVal sd offset) h))) (sx_ret (PhiloxVal sd offset)))))"

datatype gop = GNew int | GDefault int | GClone nat | GShare nat nat | GSeed nat "64 word" | GRandomSeed nat
  | GOffset nat "64 word" | GRestore nat "8 word list" | GRandom nat "64 word" | GInputs nat "64 word"
  | GGraph | GRegister nat nat | GBegin nat mempool_id nat | GEnd nat | GReplay nat | GReset nat | GDestroy nat
  | GDebug | GDump nat string | GStream SUPAStream | GDevice int

datatype gres = RUnit | RObject nat | RSeed "64 word" | RPhilox PhiloxSupaState

abbreviation returns :: "('d, 'a) gx \<Rightarrow> ('a \<Rightarrow> gres) \<Rightarrow> ('d, gres) gx" where
  "returns m f \<equiv> sx_bind m (\<lambda>x. sx_ret (f x))"

fun run_gop :: "'d genv \<Rightarrow> gop \<Rightarrow> ('d, gres) gx" where
  "run_gop G (GNew i) = returns (createSUPAGenerator G i) RObject"
| "run_gop G (GDefault i) = returns (getDefaultSUPAGenerator G i) RObject"
| "run_gop G (GClone g) = returns (clone_impl G g) RObject"
| "run_gop G (GShare g h) = returns (graphsafe_set_state g h) (\<lambda>_. RUnit)"
| "run_gop G (GSeed g sd) = returns (set_current_seed G g sd) (\<lambda>_. RUnit)"
| "run_gop G (GRandomSeed g) = returns (gen_seed G g) RSeed"
| "run_gop G (GOffset g offset) = returns (set_offset G g offset) (\<lambda>_. RUnit)"
| "run_gop G (GRestore g bytes) = returns (set_state G g bytes) (\<lambda>_. RUnit)"
| "run_gop G (GRandom g increment) = returns (random_op G g increment) RPhilox"
| "run_gop G (GInputs g increment) = returns (engine_op G g increment) RPhilox"
| "run_gop G GGraph = returns (SUPAGraph_ctor G) RObject"
| "run_gop G (GRegister gr g) = returns (gen_register_graph G g gr) (\<lambda>_. RUnit)"
| "run_gop G (GBegin gr pool mode) = returns (capture_begin G gr pool mode) (\<lambda>_. RUnit)"
| "run_gop G (GEnd gr) = returns (capture_end G gr) (\<lambda>_. RUnit)"
| "run_gop G (GReplay gr) = returns (replay G gr) (\<lambda>_. RUnit)"
| "run_gop G (GReset gr) = returns (reset G gr) (\<lambda>_. RUnit)"
| "run_gop G (GDestroy gr) = returns (SUPAGraph_dtor G gr) (\<lambda>_. RUnit)"
| "run_gop G GDebug = returns enable_debug_mode (\<lambda>_. RUnit)"
| "run_gop G (GDump gr path) = returns (debug_dump G gr path) (\<lambda>_. RUnit)"
| "run_gop G (GStream stream) = returns (on_gs (setCurrentSUPAStream (GDrv G) (GRt G) stream)) (\<lambda>_. RUnit)"
| "run_gop G (GDevice i) = returns (on_gw (set_device (GDrv G) i False)) (\<lambda>_. RUnit)"

end
