(* ===== verification/Graph_Laws.thy ===== *)
theory Graph_Laws
  imports Graph_Capture
begin

text \<open>
  What the runtime and the tensor library document of streams that capture, of graphs and of tensors of
  one element, in terms of what can be observed on the device, and how the operations that ask for the
  state of the current stream behave under these laws.
\<close>

section \<open>What is observed\<close>

text \<open>
  The contents of the tensors, the tensors there are, what the streams have captured, the kernels of
  the graphs and of the executable graphs, and the seeds and offsets from which the kernels that have
  run drew their numbers.
\<close>

record graph_obs =
  word_at :: "nat \<Rightarrow> 64 word"
  tensors :: "nat set"
  stream_captures :: "nat \<Rightarrow> PhiloxSupaState list option"
  graph_nodes :: "nat \<Rightarrow> PhiloxSupaState list option"
  exec_nodes :: "nat \<Rightarrow> PhiloxSupaState list option"
  consumed :: "(64 word \<times> 64 word) list"

text \<open>Where a kernel draws from: in a graph, from the offset in memory plus its offset inside the graph.\<close>

fun unpack :: "(nat \<Rightarrow> 64 word) \<Rightarrow> PhiloxSupaState \<Rightarrow> 64 word \<times> 64 word" where
  "unpack mem (PhiloxVal sd offset) = (sd, offset)"
| "unpack mem (PhiloxPtr p q intragraph) = (mem p, mem q + ucast intragraph)"

section \<open>The laws\<close>

definition keeps_graphs :: "('d \<Rightarrow> int) \<Rightarrow> ('d \<Rightarrow> graph_obs) \<Rightarrow> ('d \<Rightarrow> 'a \<times> 'd) \<Rightarrow> bool" where
  "keeps_graphs cur ob f \<longleftrightarrow> (\<forall>d x d'. f d = (x, d') \<longrightarrow> cur d' = cur d \<and> ob d' = ob d)"

definition gives :: "('d \<Rightarrow> int) \<Rightarrow> ('d \<Rightarrow> graph_obs) \<Rightarrow> ('d, 'a) drv_out \<Rightarrow> ('a \<Rightarrow> graph_obs \<Rightarrow> graph_obs \<Rightarrow> bool) \<Rightarrow> bool" where
  "gives cur ob f P \<longleftrightarrow> (\<forall>d x d'. f d = ((supaSuccess, x), d') \<longrightarrow> cur d' = cur d \<and> P x (ob d) (ob d'))"

definition does :: "('d \<Rightarrow> int) \<Rightarrow> ('d \<Rightarrow> graph_obs) \<Rightarrow> 'd drv_call \<Rightarrow> (graph_obs \<Rightarrow> graph_obs \<Rightarrow> bool) \<Rightarrow> bool" where
  "does cur ob f P \<longleftrightarrow> (\<forall>d d'. f d = (supaSuccess, d') \<longrightarrow> cur d' = cur d \<and> P (ob d) (ob d'))"

text \<open>A call whose failure is only warned about may change what it was asked to destroy.\<close>

definition destroys :: "('d \<Rightarrow> int) \<Rightarrow> ('d \<Rightarrow> graph_obs) \<Rightarrow> 'd drv_call \<Rightarrow> (graph_obs \<Rightarrow> graph_obs \<Rightarrow> bool) \<Rightarrow> bool" where
  "destroys cur ob f P \<longleftrightarrow> (\<forall>d e d'. f d = (e, d') \<longrightarrow> cur d' = cur d \<and> P (ob d) (ob d'))"

text \<open>The tensor library works on the allocator of the process and leaves the thread's streams and device alone.\<close>

definition same_process :: "'d driver \<Rightarrow> ('d \<Rightarrow> int) \<Rightarrow> 'd nca \<Rightarrow> 'd nca \<Rightarrow> bool" where
  "same_process D cur n n' \<longleftrightarrow> p_streams n' = (p_streams n)\<lparr>st_world := st_world (p_streams n')\<rparr>
     \<and> thread_device cur (st_world (p_streams n')) = thread_device cur (st_world (p_streams n))
     \<and> (k_device (st_world (p_streams n)) < device_count D \<longrightarrow> k_device (st_world (p_streams n')) < device_count D)"

abbreviation nca_drv :: "'d nca \<Rightarrow> 'd" where
  "nca_drv n \<equiv> drv (st_world (p_streams n))"

definition tensor_calls_ok :: "'d genv \<Rightarrow> ('d \<Rightarrow> int) \<Rightarrow> ('d \<Rightarrow> graph_obs) \<Rightarrow> bool" where
  "tensor_calls_ok G cur ob \<longleftrightarrow>
     (\<forall>n p n'. tensor_empty G n = (Inr p, n') \<longrightarrow> same_process (GDrv G) cur n n' \<and> p \<notin> tensors (ob (nca_drv n))
        \<and> (\<exists>mem. ob (nca_drv n') = (ob (nca_drv n))\<lparr>word_at := mem, tensors := insert p (tensors (ob (nca_drv n)))\<rparr>
          \<and> (\<forall>a \<in> tensors (ob (nca_drv n)). mem a = word_at (ob (nca_drv n)) a)))
   \<and> (\<forall>p v n n'. p \<in> tensors (ob (nca_drv n)) \<longrightarrow> (\<forall>h. stream_captures (ob (nca_drv n)) h = None) \<longrightarrow> tensor_fill G p v n = (Inr (), n') \<longrightarrow>
        same_process (GDrv G) cur n n' \<and> ob (nca_drv n') = (ob (nca_drv n))\<lparr>word_at := (word_at (ob (nca_drv n)))(p := v)\<rparr>)
   \<and> (\<forall>p n. p \<in> tensors (ob (nca_drv n)) \<longrightarrow> same_process (GDrv G) cur n (tensor_drop G p n)
        \<and> (\<exists>mem. ob (nca_drv (tensor_drop G p n)) = (ob (nca_drv n))\<lparr>word_at := mem, tensors := tensors (ob (nca_drv n)) - {p}\<rparr>
          \<and> (\<forall>a \<in> tensors (ob (nca_drv n)) - {p}. mem a = word_at (ob (nca_drv n)) a)))"

text \<open>\<open>own i\<close> are the streams of device \<open>i\<close>: none of them captures before the device has a context.\<close>

definition graph_calls_ok :: "'d genv \<Rightarrow> ('d \<Rightarrow> int) \<Rightarrow> (int \<Rightarrow> nat set) \<Rightarrow> ('d \<Rightarrow> graph_obs) \<Rightarrow> bool" where
  "graph_calls_ok G cur own ob \<longleftrightarrow> device_calls_ok (GDrv G) cur \<and> accepts_devices (GDrv G) \<and> device_neutral (GDrv G) ob
     \<and> tensor_calls_ok G cur ob
     \<and> (\<forall>A. finite A \<longrightarrow> distinct (map_order G A) \<and> set (map_order G A) = A)
     \<and> keeps_graphs cur ob (supaGetLastError (GDrv G)) \<and> keeps_graphs cur ob (getNonDeterministicRandom G)
     \<and> (\<forall>i. keeps_graphs cur ob (suDevicePrimaryCtxGetState (GDrv G) i))
     \<and> (\<forall>i d d'. suDevicePrimaryCtxGetState (GDrv G) i d = ((supaSuccess, False), d') \<longrightarrow> (\<forall>h \<in> own i. stream_captures (ob d) h = None))
     \<and> (\<forall>h. gives cur ob (supaStreamIsCapturing G h) (\<lambda>st u v. v = u \<and> (st = CaptureStatusNone \<longleftrightarrow> stream_captures u h = None)))
     \<and> (\<forall>h. gives cur ob (supaStreamGetCaptureInfo G h) (\<lambda>_ u v. v = u))
     \<and> (\<forall>h m. does cur ob (supaStreamBeginCapture G h m) (\<lambda>u v. v = u\<lparr>stream_captures := (stream_captures u)(h \<mapsto> [])\<rparr>))
     \<and> (\<forall>h. gives cur ob (supaStreamEndCapture G h) (\<lambda>g u v. \<exists>ns. stream_captures u h = Some ns
          \<and> v = u\<lparr>stream_captures := (stream_captures u)(h := None), graph_nodes := (graph_nodes u)(g \<mapsto> ns)\<rparr>))
     \<and> (\<forall>g. gives cur ob (supaGraphInstantiateWithFlags G g) (\<lambda>e u v. exec_nodes u e = None
          \<and> v = u\<lparr>exec_nodes := (exec_nodes u)(e := graph_nodes u g)\<rparr>))
     \<and> (\<forall>g. gives cur ob (supaGraphGetNodes G g) (\<lambda>_ u v. v = u))
     \<and> (\<forall>g path. destroys cur ob (supaGraphDebugDotPrint G g path) (\<lambda>u v. v = u))
     \<and> (\<forall>g. destroys cur ob (supaGraphDestroy G g) (\<lambda>u v. \<exists>x. v = u\<lparr>graph_nodes := (graph_nodes u)(g := x)\<rparr>))
     \<and> (\<forall>e. destroys cur ob (supaGraphExecDestroy G e) (\<lambda>u v. \<exists>x. v = u\<lparr>exec_nodes := (exec_nodes u)(e := x)\<rparr>))
     \<and> (\<forall>e h. does cur ob (supaGraphLaunch G e h) (\<lambda>u v. stream_captures u h = None \<longrightarrow> (\<exists>ns. exec_nodes u e = Some ns
          \<and> v = u\<lparr>consumed := consumed u @ map (unpack (word_at u)) ns\<rparr>)))
     \<and> (\<forall>ps h. does cur ob (launch_kernel G ps h) (\<lambda>u v. v = (case stream_captures u h of
          None \<Rightarrow> u\<lparr>consumed := consumed u @ [unpack (word_at u) ps]\<rparr>
        | Some ns \<Rightarrow> u\<lparr>stream_captures := (stream_captures u)(h \<mapsto> ns @ [ps])\<rparr>)))"

lemma graph_calls:
  assumes "graph_calls_ok G cur own ob"
  shows "device_calls_ok (GDrv G) cur" and "accepts_devices (GDrv G)" and "device_neutral (GDrv G) ob"
    and "tensor_calls_ok G cur ob" and "finite A \<Longrightarrow> distinct (map_order G A) \<and> set (map_order G A) = A"
    and "keeps_graphs cur ob (supaGetLastError (GDrv G))" and "keeps_graphs cur ob (getNonDeterministicRandom G)"
    and "keeps_graphs cur ob (suDevicePrimaryCtxGetState (GDrv G) i)"
    and "gives cur ob (supaStreamIsCapturing G h) (\<lambda>st u v. v = u \<and> (st = CaptureStatusNone \<longleftrightarrow> stream_captures u h = None))"
    and "gives cur ob (supaStreamGetCaptureInfo G h) (\<lambda>_ u v. v = u)"
    and "does cur ob (supaStreamBeginCapture G h m) (\<lambda>u v. v = u\<lparr>stream_captures := (stream_captures u)(h \<mapsto> [])\<rparr>)"
    and "gives cur ob (supaStreamEndCapture G h) (\<lambda>g u v. \<exists>ns. stream_captures u h = Some ns
          \<and> v = u\<lparr>stream_captures := (stream_captures u)(h := None), graph_nodes := (graph_nodes u)(g \<mapsto> ns)\<rparr>)"
    and "gives cur ob (supaGraphInstantiateWithFlags G g) (\<lambda>e u v. exec_nodes u e = None
          \<and> v = u\<lparr>exec_nodes := (exec_nodes u)(e := graph_nodes u g)\<rparr>)"
    and "gives cur ob (supaGraphGetNodes G g) (\<lambda>_ u v. v = u)"
    and "destroys cur ob (supaGraphDebugDotPrint G g path) (\<lambda>u v. v = u)"
    and "destroys cur ob (supaGraphDestroy G g) (\<lambda>u v. \<exists>x. v = u\<lparr>graph_nodes := (graph_nodes u)(g := x)\<rparr>)"
    and "destroys cur ob (supaGraphExecDestroy G e) (\<lambda>u v. \<exists>x. v = u\<lparr>exec_nodes := (exec_nodes u)(e := x)\<rparr>)"
    and "does cur ob (supaGraphLaunch G e h) (\<lambda>u v. stream_captures u h = None \<longrightarrow> (\<exists>ns. exec_nodes u e = Some ns
          \<and> v = u\<lparr>consumed := consumed u @ map (unpack (word_at u)) ns\<rparr>))"
    and "does cur ob (launch_kernel G ps h) (\<lambda>u v. v = (case stream_captures u h of
          None \<Rightarrow> u\<lparr>consumed := consumed u @ [unpack (word_at u) ps]\<rparr>
        | Some ns \<Rightarrow> u\<lparr>stream_captures := (stream_captures u)(h \<mapsto> ns @ [ps])\<rparr>))"
  using assms by (simp_all add: graph_calls_ok_def)

lemma no_context_no_capture:
  assumes "graph_calls_ok G cur own ob" and "suDevicePrimaryCtxGetState (GDrv G) i d = ((supaSuccess, False), d')" and "h \<in> own i"
  shows "stream_captures (ob d) h = None"
proof -
  have "\<forall>i d d'. suDevicePrimaryCtxGetState (GDrv G) i d = ((supaSuccess, False), d') \<longrightarrow> (\<forall>h \<in> own i. stream_captures (ob d) h = None)"
    using assms(1) unfolding graph_calls_ok_def by (elim conjE)
  then show ?thesis using assms(2,3) by blast
qed

section \<open>Steps that change the device only\<close>

text \<open>A step of the process that leaves the thread's streams, its device and the objects alone, to a given observation.\<close>

definition acts :: "'d genv \<Rightarrow> ('d \<Rightarrow> int) \<Rightarrow> ('d \<Rightarrow> graph_obs) \<Rightarrow> graph_obs \<Rightarrow> 'd gst \<Rightarrow> 'd gst \<Rightarrow> bool" where
  "acts G cur ob v s t \<longleftrightarrow> t = s\<lparr>g_nca := g_nca t\<rparr> \<and> same_process (GDrv G) cur (g_nca s) (g_nca t) \<and> ob (nca_drv (g_nca t)) = v"

lemma same_process_refl: "same_process D cur n n"
  by (simp add: same_process_def)

lemma same_process_trans: "same_process D cur n n' \<Longrightarrow> same_process D cur n' n'' \<Longrightarrow> same_process D cur n n''"
  unfolding same_process_def by (metis strm.surjective strm.update_convs(1))

lemma acts_refl: "acts G cur ob (ob (nca_drv (g_nca s))) s s"
  by (simp add: acts_def same_process_refl)

lemma acts_trans: "acts G cur ob u s t \<Longrightarrow> acts G cur ob v t t' \<Longrightarrow> acts G cur ob v s t'"
  unfolding acts_def by (metis gst.surjective gst.update_convs(1) same_process_trans)

lemma acts_fields:
  assumes "acts G cur ob v s t"
  shows "gen_states t = gen_states s" and "generators t = generators s" and "graph_objs t = graph_objs s"
    and "next_state t = next_state s" and "next_generator t = next_generator s" and "next_graph t = next_graph s"
    and "gens_num_gpus t = gens_num_gpus s" and "supa_gens_init_flag t = supa_gens_init_flag s"
    and "default_gens_supa t = default_gens_supa s" and "num_gpu_init_flag t = num_gpu_init_flag s"
    and "uid t = uid s" and "uuid t = uuid s" and "pending_event_queries t = pending_event_queries s"
    and "supa_graphs_debug t = supa_graphs_debug s" and "ob (nca_drv (g_nca t)) = v"
    and "thread_device cur (g_world t) = thread_device cur (g_world s)"
  using assms unfolding acts_def same_process_def by (metis gst.ext_inject gst.surjective gst.update_convs(1))+

text \<open>The streams of the thread: initialised, and the current stream of every device is one of its streams.\<close>

definition raw_stream :: "SUPAStream \<Rightarrow> 'd gst \<Rightarrow> exn + nat" where
  "raw_stream x s = fst (stream_of x (g_streams s))"

definition current_stream :: "('d \<Rightarrow> int) \<Rightarrow> 'd gst \<Rightarrow> SUPAStream" where
  "current_stream cur s = (let i = thread_device cur (g_world s) in SUPAStreamForId i (the (current_streams (g_streams s)) i))"

definition streams_settled :: "'d genv \<Rightarrow> (int \<Rightarrow> nat set) \<Rightarrow> 'd gst \<Rightarrow> bool" where
  "streams_settled G own s \<longleftrightarrow> init_flag (g_streams s) \<and> num_gpus (g_streams s) = device_count (GDrv G)
     \<and> k_device (g_world s) < device_count (GDrv G)
     \<and> (\<exists>cs. current_streams (g_streams s) = Some cs \<and> (\<forall>i h. 0 \<le> i \<longrightarrow> i < device_count (GDrv G) \<longrightarrow>
          raw_stream (SUPAStreamForId i (cs i)) s = Inr h \<longrightarrow> h \<in> own i))"

lemma stream_of_reads: "stream_of x st = (fst (stream_of x st), st)"
  by (auto simp: stream_of_def streamIdType_def sx_defs check_at_def Let_def split: prod.splits)

lemma stream_of_world: "fst (stream_of x (st\<lparr>st_world := w\<rparr>)) = fst (stream_of x st)"
  by (auto simp: stream_of_def streamIdType_def sx_defs check_at_def Let_def split: prod.splits)

lemma wp_g_stream_of: "wp (on_gs (stream_of x)) Q E s = (case raw_stream x s of Inl e \<Rightarrow> E e s | Inr h \<Rightarrow> Q h s)"
  using stream_of_reads [of x "g_streams s"] by (auto simp: wp_def sx_field_def raw_stream_def split: prod.splits sum.splits)

lemma acts_streams:
  assumes "acts G cur ob v s t"
  shows "raw_stream x t = raw_stream x s" and "current_stream cur t = current_stream cur s"
    and "streams_settled G own s \<Longrightarrow> streams_settled G own t"
proof -
  obtain w where w: "g_streams t = (g_streams s)\<lparr>st_world := w\<rparr>" using assms unfolding acts_def same_process_def by blast
  show h: "raw_stream x t = raw_stream x s" for x by (simp add: raw_stream_def w stream_of_world)
  show "current_stream cur t = current_stream cur s" using acts_fields(16) [OF assms] by (simp add: current_stream_def w)
  have "k_device (g_world t) < device_count (GDrv G)" if "k_device (g_world s) < device_count (GDrv G)"
    using that assms unfolding acts_def same_process_def by blast
  then show "streams_settled G own s \<Longrightarrow> streams_settled G own t" by (simp add: streams_settled_def h w)
qed

section \<open>Calls of the runtime\<close>

abbreviation seen :: "('d \<Rightarrow> graph_obs) \<Rightarrow> 'd gst \<Rightarrow> graph_obs" where
  "seen ob s \<equiv> ob (nca_drv (g_nca s))"

abbreviation quiet :: "'d genv \<Rightarrow> ('d \<Rightarrow> int) \<Rightarrow> ('d \<Rightarrow> graph_obs) \<Rightarrow> 'd gst \<Rightarrow> 'd gst \<Rightarrow> bool" where
  "quiet G cur ob s \<equiv> acts G cur ob (seen ob s) s"

abbreviation whatever :: "exn \<Rightarrow> 's \<Rightarrow> bool" where
  "whatever e t \<equiv> True"

text \<open>The state after a driver call.\<close>

definition with_drv :: "'d \<Rightarrow> 'd gst \<Rightarrow> 'd gst" where
  "with_drv d s = s\<lparr>g_nca := (g_nca s)\<lparr>p_streams := (g_streams s)\<lparr>st_world := (g_world s)\<lparr>drv := d\<rparr>\<rparr>\<rparr>\<rparr>"

lemma acts_with_drv: "cur d = cur (nca_drv (g_nca s)) \<Longrightarrow> acts G cur ob (ob d) s (with_drv d s)"
  by (simp add: acts_def with_drv_def same_process_def thread_device_def)

lemma wp_gives:
  assumes "gives cur ob f P"
  shows "wp (on_gw (supa_check_out f)) (\<lambda>x t. \<exists>v. P x (seen ob s) v \<and> acts G cur ob v s t) whatever s"
proof (rule wpI)
  fix x t assume r: "on_gw (supa_check_out f) s = (Inr x, t)"
  obtain e y d where f: "f (nca_drv (g_nca s)) = ((e, y), d)" by (metis surj_pair)
  then have "e = supaSuccess" "y = x" "t = with_drv d s"
    using r by (auto simp: supa_check_out_def sx_field_def sx_defs drv_call_def check_err_def with_drv_def split: if_splits)
  then show "\<exists>v. P x (seen ob s) v \<and> acts G cur ob v s t"
    using assms f acts_with_drv [of cur d s G ob] unfolding gives_def by blast
qed simp

lemma wp_does:
  assumes "does cur ob f P"
  shows "wp (on_gw (supa_check f)) (\<lambda>_ t. \<exists>v. P (seen ob s) v \<and> acts G cur ob v s t) whatever s"
proof (rule wpI)
  fix x t assume r: "on_gw (supa_check f) s = (Inr x, t)"
  obtain e d where f: "f (nca_drv (g_nca s)) = (e, d)" by (metis surj_pair)
  then have "e = supaSuccess" "t = with_drv d s"
    using r by (auto simp: supa_check_def sx_field_def sx_defs drv_call_def check_err_def with_drv_def split: if_splits)
  then show "\<exists>v. P (seen ob s) v \<and> acts G cur ob v s t"
    using assms f acts_with_drv [of cur d s G ob] unfolding does_def by blast
qed simp

lemma wp_keeps:
  assumes "keeps_graphs cur ob f"
  shows "wp (on_gw (drv_call f)) (\<lambda>_ t. quiet G cur ob s t) whatever s"
proof (rule wpI)
  fix x t assume r: "on_gw (drv_call f) s = (Inr x, t)"
  obtain y d where f: "f (nca_drv (g_nca s)) = (y, d)" by (metis surj_pair)
  then have "t = with_drv d s" using r by (auto simp: sx_field_def drv_call_def with_drv_def)
  moreover have "cur d = cur (nca_drv (g_nca s))" "ob d = seen ob s" using assms f unfolding keeps_graphs_def by blast+
  ultimately show "quiet G cur ob s t" using acts_with_drv [of cur d s G ob] by simp
qed simp

lemma wp_check_graph_warn:
  assumes "graph_calls_ok G cur own ob" and "destroys cur ob f P"
  shows "wp (check_graph_warn G f) (\<lambda>_ t. \<exists>v. P (seen ob s) v \<and> acts G cur ob v s t) whatever s"
proof (rule wpI)
  fix x t assume r: "check_graph_warn G f s = (Inr x, t)"
  obtain e d where f: "f (nca_drv (g_nca s)) = (e, d)" by (metis surj_pair)
  obtain y d' where l: "supaGetLastError (GDrv G) d = (y, d')" by (metis surj_pair)
  have t: "t = with_drv (if e = supaSuccess then d else d') s"
    using r f l by (auto simp: check_graph_warn_def check_warn_def sx_field_def sx_defs drv_call_def with_drv_def split: if_splits)
  have "cur d' = cur d" "ob d' = ob d" using graph_calls(6) [OF assms(1)] l unfolding keeps_graphs_def by blast+
  moreover have "cur d = cur (nca_drv (g_nca s))" "P (seen ob s) (ob d)" using assms(2) f unfolding destroys_def by blast+
  ultimately show "\<exists>v. P (seen ob s) v \<and> acts G cur ob v s t"
    using acts_with_drv [of cur "if e = supaSuccess then d else d'" s G ob] unfolding t by (intro exI [of _ "ob d"]) (auto split: if_splits)
qed simp

lemma wp_g_current_device:
  assumes "graph_calls_ok G cur own ob"
  shows "wp (on_gw (current_device (GDrv G))) Q E s = Q (thread_device cur (g_world s)) s"
  using graph_calls(1) [OF assms] by (simp add: wp_current_device)

section \<open>The current stream\<close>

lemma settled_world:
  assumes "graph_calls_ok G cur own ob" and "streams_settled G own s"
  shows "0 \<le> thread_device cur (g_world s)" and "thread_device cur (g_world s) < device_count (GDrv G)"
  using thread_device_bounds [OF graph_calls(1) [OF assms(1)], of "g_world s"] assms(2) by (auto simp: streams_settled_def)

lemma wp_target:
  assumes C: "graph_calls_ok G cur own ob" and S: "streams_settled G own s"
  shows "wp (on_gw (SetTargetDevice (GDrv G))) (\<lambda>_ t. quiet G cur ob s t) whatever s"
proof (cases "0 \<le> k_device (g_world s)")
  case True
  let ?k = "k_device (g_world s)"
  have k: "?k < device_count (GDrv G)" using S by (simp add: streams_settled_def)
  note dc = graph_calls(1-3) [OF C]
  obtain d' where d: "supaSetDevice (GDrv G) ?k (drv (g_world s)) = (supaSuccess, d')" "cur d' = ?k" "ob d' = ob (drv (g_world s))"
    using set_device_call [OF dc True k] .
  have n: "0 < device_count (GDrv G)" using True k by simp
  show ?thesis
    using True k d dc(1) n
    by (auto simp: SetTargetDevice_def SetDevice_def device_calls_ok_def wp_if acts_def same_process_def thread_device_def)
next
  case False
  then show ?thesis using acts_refl [of G cur ob s] by (simp add: SetTargetDevice_def)
qed

lemma wp_current_stream:
  assumes C: "graph_calls_ok G cur own ob" and S: "streams_settled G own s"
  shows "wp (on_gs (getCurrentSUPAStream (GDrv G) (GRt G) (-1))) (\<lambda>x t. x = current_stream cur s \<and> quiet G cur ob s t) whatever s"
proof -
  have fl: "init_flag (g_streams s)" "current_streams (g_streams s) \<noteq> None" using S by (auto simp: streams_settled_def)
  have init: "wp (initSUPAStreamsOnce (GDrv G) (GRt G)) Q E (g_streams s) = Q () (g_streams s)" for Q E
    using fl by (auto simp: initSUPAStreamsOnce_def)
  note dev = settled_world [OF C S]
  have rest: "wp (on_gs (sx_seq (check_gpu (thread_device cur (g_world s)))
      (sx_bind (current_at (thread_device cur (g_world s))) (\<lambda>cs. sx_ret (SUPAStreamForId (thread_device cur (g_world s)) (cs (thread_device cur (g_world s))))))))
      (\<lambda>x u. x = current_stream cur s \<and> quiet G cur ob s u) whatever t" if q: "quiet G cur ob s t" for t
  proof -
    obtain w where w: "g_streams t = (g_streams s)\<lparr>st_world := w\<rparr>" using q unfolding acts_def same_process_def by blast
    then have "num_gpus (g_streams t) = num_gpus (g_streams s)" "current_streams (g_streams t) = current_streams (g_streams s)" by simp_all
    then show ?thesis
      using S dev q by (auto simp: check_gpu_def current_at_def streams_settled_def current_stream_def Let_def)
  qed
  have "wp (on_gs (resolve_device (GDrv G) (-1))) (\<lambda>i t. i = thread_device cur (g_world s) \<and> quiet G cur ob s t) whatever s"
    using wp_conseq [OF wp_target [OF C S], where Q' = "\<lambda>_ t. quiet G cur ob s t" and E' = whatever]
    by (simp add: resolve_device_def wp_current_device [OF graph_calls(1) [OF C]] del: wp_mod)
  then have "wp (on_gs (resolve_device (GDrv G) (-1))) (\<lambda>i t. wp (on_gs (sx_seq (check_gpu i)
      (sx_bind (current_at i) (\<lambda>cs. sx_ret (SUPAStreamForId i (cs i)))))) (\<lambda>x u. x = current_stream cur s \<and> quiet G cur ob s u) whatever t) whatever s"
    by (rule wp_conseq) (use rest in auto)
  then show ?thesis using init by (simp add: getCurrentSUPAStream_def)
qed

definition capturing_now :: "('d \<Rightarrow> int) \<Rightarrow> ('d \<Rightarrow> graph_obs) \<Rightarrow> 'd gst \<Rightarrow> bool" where
  "capturing_now cur ob s \<longleftrightarrow> (\<exists>h. raw_stream (current_stream cur s) s = Inr h \<and> stream_captures (seen ob s) h \<noteq> None)"

text \<open>The streams do not depend on the objects.\<close>

lemma raw_stream_frame [simp]:
  "raw_stream x (s\<lparr>gen_states := v1\<rparr>) = raw_stream x s"
  "raw_stream x (s\<lparr>generators := v2\<rparr>) = raw_stream x s"
  "raw_stream x (s\<lparr>graph_objs := v3\<rparr>) = raw_stream x s"
  "raw_stream x (s\<lparr>next_state := v4\<rparr>) = raw_stream x s"
  "raw_stream x (s\<lparr>next_generator := v5\<rparr>) = raw_stream x s"
  "raw_stream x (s\<lparr>next_graph := v6\<rparr>) = raw_stream x s"
  "raw_stream x (s\<lparr>num_gpu_init_flag := v7\<rparr>) = raw_stream x s"
  "raw_stream x (s\<lparr>gens_num_gpus := v8\<rparr>) = raw_stream x s"
  "raw_stream x (s\<lparr>supa_gens_init_flag := v9\<rparr>) = raw_stream x s"
  "raw_stream x (s\<lparr>default_gens_supa := v10\<rparr>) = raw_stream x s"
  "raw_stream x (s\<lparr>uid := v11\<rparr>) = raw_stream x s"
  "raw_stream x (s\<lparr>uuid := v12\<rparr>) = raw_stream x s"
  "raw_stream x (s\<lparr>pending_event_queries := v13\<rparr>) = raw_stream x s"
  "raw_stream x (s\<lparr>supa_graphs_debug := v14\<rparr>) = raw_stream x s"
  by (simp_all add: raw_stream_def)

lemma streams_settled_frame [simp]:
  "streams_settled G own (s\<lparr>gen_states := v15\<rparr>) = streams_settled G own s"
  "streams_settled G own (s\<lparr>generators := v16\<rparr>) = streams_settled G own s"
  "streams_settled G own (s\<lparr>graph_objs := v17\<rparr>) = streams_settled G own s"
  "streams_settled G own (s\<lparr>next_state := v18\<rparr>) = streams_settled G own s"
  "streams_settled G own (s\<lparr>next_generator := v19\<rparr>) = streams_settled G own s"
  "streams_settled G own (s\<lparr>next_graph := v20\<rparr>) = streams_settled G own s"
  "streams_settled G own (s\<lparr>num_gpu_init_flag := v21\<rparr>) = streams_settled G own s"
  "streams_settled G own (s\<lparr>gens_num_gpus := v22\<rparr>) = streams_settled G own s"
  "streams_settled G own (s\<lparr>supa_gens_init_flag := v23\<rparr>) = streams_settled G own s"
  "streams_settled G own (s\<lparr>default_gens_supa := v24\<rparr>) = streams_settled G own s"
  "streams_settled G own (s\<lparr>uid := v25\<rparr>) = streams_settled G own s"
  "streams_settled G own (s\<lparr>uuid := v26\<rparr>) = streams_settled G own s"
  "streams_settled G own (s\<lparr>pending_event_queries := v27\<rparr>) = streams_settled G own s"
  "streams_settled G own (s\<lparr>supa_graphs_debug := v28\<rparr>) = streams_settled G own s"
  by (simp_all add: streams_settled_def)

lemma capturing_now_frame [simp]:
  "capturing_now cur ob (s\<lparr>gen_states := v29\<rparr>) = capturing_now cur ob s"
  "capturing_now cur ob (s\<lparr>generators := v30\<rparr>) = capturing_now cur ob s"
  "capturing_now cur ob (s\<lparr>graph_objs := v31\<rparr>) = capturing_now cur ob s"
  "capturing_now cur ob (s\<lparr>next_state := v32\<rparr>) = capturing_now cur ob s"
  "capturing_now cur ob (s\<lparr>next_generator := v33\<rparr>) = capturing_now cur ob s"
  "capturing_now cur ob (s\<lparr>next_graph := v34\<rparr>) = capturing_now cur ob s"
  "capturing_now cur ob (s\<lparr>num_gpu_init_flag := v35\<rparr>) = capturing_now cur ob s"
  "capturing_now cur ob (s\<lparr>gens_num_gpus := v36\<rparr>) = capturing_now cur ob s"
  "capturing_now cur ob (s\<lparr>supa_gens_init_flag := v37\<rparr>) = capturing_now cur ob s"
  "capturing_now cur ob (s\<lparr>default_gens_supa := v38\<rparr>) = capturing_now cur ob s"
  "capturing_now cur ob (s\<lparr>uid := v39\<rparr>) = capturing_now cur ob s"
  "capturing_now cur ob (s\<lparr>uuid := v40\<rparr>) = capturing_now cur ob s"
  "capturing_now cur ob (s\<lparr>pending_event_queries := v41\<rparr>) = capturing_now cur ob s"
  "capturing_now cur ob (s\<lparr>supa_graphs_debug := v42\<rparr>) = capturing_now cur ob s"
  by (simp_all add: capturing_now_def current_stream_def)

lemma acts_capturing:
  "acts G cur ob v s t \<Longrightarrow> stream_captures v = stream_captures (seen ob s) \<Longrightarrow> capturing_now cur ob t = capturing_now cur ob s"
  using acts_streams(1,2) acts_fields(15) unfolding capturing_now_def by metis

lemma wp_current_handle:
  assumes C: "graph_calls_ok G cur own ob" and S: "streams_settled G own s"
    and Q: "\<And>h t. raw_stream (current_stream cur s) s = Inr h \<Longrightarrow> quiet G cur ob s t \<Longrightarrow> wp (f h) Q whatever t"
  shows "wp (sx_bind (on_gs (getCurrentSUPAStream (GDrv G) (GRt G) (-1))) (\<lambda>x. sx_bind (on_gs (stream_of x)) f)) Q whatever s"
  unfolding wp_bind
proof (rule wp_conseq [OF wp_current_stream [OF C S]], elim conjE, goal_cases)
  case (1 x t)
  have "raw_stream x t = raw_stream (current_stream cur s) s" using acts_streams(1) [OF 1(2)] 1(1) by simp
  then show ?case unfolding wp_g_stream_of using Q 1(2) by (auto split: sum.splits)
qed simp

lemma wp_status:
  assumes C: "graph_calls_ok G cur own ob" and S: "streams_settled G own s"
  shows "wp (currentStreamCaptureStatus G) (\<lambda>st t. quiet G cur ob s t \<and> (st = CaptureStatusNone \<longleftrightarrow> \<not> capturing_now cur ob s)) whatever s"
proof -
  let ?i = "thread_device cur (g_world s)"
  let ?Q = "\<lambda>st t. quiet G cur ob s t \<and> (st = CaptureStatusNone \<longleftrightarrow> \<not> capturing_now cur ob s)"
  have may: "wp (currentStreamCaptureStatusMayInitCtx G) ?Q whatever t" if q: "quiet G cur ob s t" for t
    unfolding currentStreamCaptureStatusMayInitCtx_def
  proof (rule wp_current_handle [OF C acts_streams(3) [OF q S]], goal_cases)
    case (1 h u)
    have h: "raw_stream (current_stream cur s) s = Inr h" using 1(1) acts_streams [OF q] by simp
    have su: "quiet G cur ob s u" using acts_trans [OF q 1(2)] acts_fields(15) [OF q] by simp
    show ?case
    proof (rule wp_conseq [OF wp_gives [where G = G, OF graph_calls(9) [OF C, of h]]], goal_cases)
      case (1 st w)
      then have w: "acts G cur ob (seen ob u) u w" "st = CaptureStatusNone \<longleftrightarrow> stream_captures (seen ob u) h = None" by blast+
      have "quiet G cur ob s w" using acts_trans [OF su w(1)] acts_fields(15) [OF su] by simp
      then show ?case using w(2) h acts_fields(15) [OF su] by (simp add: capturing_now_def)
    qed simp
  qed
  have has: "wp (on_gw (hasPrimaryContext (GDrv G) ?i)) (\<lambda>has t. quiet G cur ob s t \<and> (\<not> has \<longrightarrow> \<not> capturing_now cur ob s)) whatever s"
  proof (rule wpI)
    fix has t assume r: "on_gw (hasPrimaryContext (GDrv G) ?i) s = (Inr has, t)"
    obtain e b d where f: "suDevicePrimaryCtxGetState (GDrv G) ?i (nca_drv (g_nca s)) = ((e, b), d)" by (metis surj_pair)
    then have b: "e = supaSuccess" "has = b" "t = with_drv d s"
      using r by (auto simp: hasPrimaryContext_def driver_check_out_def driver_err_def sx_field_def sx_defs drv_call_def with_drv_def split: if_splits)
    have "cur d = cur (nca_drv (g_nca s))" "ob d = seen ob s" using graph_calls(8) [OF C] f unfolding keeps_graphs_def by blast+
    then have q: "quiet G cur ob s t" using acts_with_drv [of cur d s G ob] unfolding b by simp
    obtain cs where cs: "current_streams (g_streams s) = Some cs"
      "\<forall>i h. 0 \<le> i \<longrightarrow> i < device_count (GDrv G) \<longrightarrow> raw_stream (SUPAStreamForId i (cs i)) s = Inr h \<longrightarrow> h \<in> own i"
      using S unfolding streams_settled_def by blast
    have "\<not> capturing_now cur ob s" if "\<not> has"
    proof -
      have "stream_captures (seen ob s) h = None" if "raw_stream (current_stream cur s) s = Inr h" for h
      proof (rule no_context_no_capture [OF C])
        show "suDevicePrimaryCtxGetState (GDrv G) ?i (nca_drv (g_nca s)) = ((supaSuccess, False), d)" using f b \<open>\<not> has\<close> by simp
        show "h \<in> own ?i" using cs that settled_world [OF C S] by (simp add: current_stream_def Let_def)
      qed
      then show ?thesis by (auto simp: capturing_now_def)
    qed
    with q show "quiet G cur ob s t \<and> (\<not> has \<longrightarrow> \<not> capturing_now cur ob s)" by blast
  qed simp
  have "wp (on_gw (hasPrimaryContext (GDrv G) ?i)) (\<lambda>has. wp (if has then currentStreamCaptureStatusMayInitCtx G else sx_ret CaptureStatusNone) ?Q whatever) whatever s"
    by (rule wp_conseq [OF has]) (auto intro: may)
  then show ?thesis unfolding currentStreamCaptureStatus_def wp_bind wp_g_current_device [OF C] .
qed

lemma wp_assertNotCapturing:
  assumes C: "graph_calls_ok G cur own ob" and S: "streams_settled G own s"
  shows "wp (assertNotCapturing G msg) (\<lambda>_ t. quiet G cur ob s t \<and> \<not> capturing_now cur ob s) whatever s"
  unfolding assertNotCapturing_def wp_bind by (rule wp_conseq [OF wp_status [OF C S]]) auto

section \<open>Tensors\<close>

lemma acts_nca: "same_process (GDrv G) cur (g_nca s) n \<Longrightarrow> acts G cur ob (ob (nca_drv n)) s (s\<lparr>g_nca := n\<rparr>)"
  by (simp add: acts_def)

lemma wp_tensor_empty:
  assumes C: "graph_calls_ok G cur own ob"
  shows "wp (on_nca (tensor_empty G)) (\<lambda>p t. p \<notin> tensors (seen ob s)
    \<and> (\<exists>mem. acts G cur ob ((seen ob s)\<lparr>word_at := mem, tensors := insert p (tensors (seen ob s))\<rparr>) s t
       \<and> (\<forall>a \<in> tensors (seen ob s). mem a = word_at (seen ob s) a))) whatever s"
proof (rule wpI)
  fix p t assume "on_nca (tensor_empty G) s = (Inr p, t)"
  then obtain n where n: "tensor_empty G (g_nca s) = (Inr p, n)" "t = s\<lparr>g_nca := n\<rparr>" by (auto simp: sx_field_def split: prod.splits)
  then obtain mem where m: "same_process (GDrv G) cur (g_nca s) n" "p \<notin> tensors (seen ob s)"
    "ob (nca_drv n) = (seen ob s)\<lparr>word_at := mem, tensors := insert p (tensors (seen ob s))\<rparr>" "\<forall>a \<in> tensors (seen ob s). mem a = word_at (seen ob s) a"
    using graph_calls(4) [OF C] unfolding tensor_calls_ok_def by blast
  show "p \<notin> tensors (seen ob s) \<and> (\<exists>mem. acts G cur ob ((seen ob s)\<lparr>word_at := mem, tensors := insert p (tensors (seen ob s))\<rparr>) s t
       \<and> (\<forall>a \<in> tensors (seen ob s). mem a = word_at (seen ob s) a))"
    using acts_nca [OF m(1), of ob] m(2-4) n(2) by (intro conjI exI [of _ mem]) auto
qed simp

lemma wp_tensor_fill:
  assumes C: "graph_calls_ok G cur own ob" and "p \<in> tensors (seen ob s)" and "\<forall>h. stream_captures (seen ob s) h = None"
  shows "wp (on_nca (tensor_fill G p v)) (\<lambda>_ t. acts G cur ob ((seen ob s)\<lparr>word_at := (word_at (seen ob s))(p := v)\<rparr>) s t) whatever s"
proof (rule wpI)
  fix x t assume "on_nca (tensor_fill G p v) s = (Inr x, t)"
  then obtain n where n: "tensor_fill G p v (g_nca s) = (Inr (), n)" "t = s\<lparr>g_nca := n\<rparr>" by (auto simp: sx_field_def split: prod.splits)
  then have m: "same_process (GDrv G) cur (g_nca s) n" "ob (nca_drv n) = (seen ob s)\<lparr>word_at := (word_at (seen ob s))(p := v)\<rparr>"
    using graph_calls(4) [OF C] assms(2,3) unfolding tensor_calls_ok_def by blast+
  then show "acts G cur ob ((seen ob s)\<lparr>word_at := (word_at (seen ob s))(p := v)\<rparr>) s t" using acts_nca [OF m(1), of ob] n(2) by simp
qed simp

lemma wp_drop_tensor:
  assumes C: "graph_calls_ok G cur own ob" and "p \<in> tensors (seen ob s)"
  shows "wp (drop_tensor G (Some p)) (\<lambda>_ t. \<exists>mem. acts G cur ob ((seen ob s)\<lparr>word_at := mem, tensors := tensors (seen ob s) - {p}\<rparr>) s t
       \<and> (\<forall>a \<in> tensors (seen ob s) - {p}. mem a = word_at (seen ob s) a)) whatever s"
proof -
  let ?n = "tensor_drop G p (g_nca s)"
  obtain mem where m: "same_process (GDrv G) cur (g_nca s) ?n"
    "ob (nca_drv ?n) = (seen ob s)\<lparr>word_at := mem, tensors := tensors (seen ob s) - {p}\<rparr>" "\<forall>a \<in> tensors (seen ob s) - {p}. mem a = word_at (seen ob s) a"
    using graph_calls(4) [OF C] assms(2) unfolding tensor_calls_ok_def by blast
  then show ?thesis using acts_nca [OF m(1), of ob] by (auto simp: drop_tensor_def)
qed

section \<open>The allocator\<close>

lemma wp_g_on_valid:
  assumes "\<And>d. world (snd (m d)) = world d"
  shows "wp (on_nca (on_valid i m)) (\<lambda>_ t. quiet G cur ob s t) whatever s"
proof (rule wpI)
  fix x t assume r: "on_nca (on_valid i m) s = (Inr x, t)"
  have "p_streams (snd (on_valid i m n)) = p_streams n" for n
    using assms [of "(device_allocator n ! nat i)\<lparr>world := st_world (p_streams n)\<rparr>"]
    by (auto simp: on_valid_def assertValidDevice_def on_dev_def run_dev_def sx_defs split: prod.splits)
  then obtain n where "t = s\<lparr>g_nca := n\<rparr>" "p_streams n = g_streams s"
    using r by (auto simp: sx_field_def split: prod.splits) (metis snd_conv)
  then show "quiet G cur ob s t" by (simp add: acts_def same_process_def)
qed simp

lemma world_pool_ops:
  "world (snd (beginAllocateToPool i flt d)) = world d" "world (snd (endAllocateToPool i d)) = world d"
  "world (snd (releasePool i d)) = world d"
  by (auto simp: beginAllocateToPool_def create_or_incref_pool_def upd_private_pool_def endAllocateToPool_def releasePool_def
      get_private_pool_def sx_defs Let_def split: option.splits prod.splits if_splits)

lemma wp_pool_ops:
  "wp (on_nca (native_beginAllocateToPool dev i flt)) (\<lambda>_ t. quiet G cur ob s t) whatever s"
  "wp (on_nca (native_endAllocateToPool dev i)) (\<lambda>_ t. quiet G cur ob s t) whatever s"
  "wp (on_nca (native_releasePool dev i)) (\<lambda>_ t. quiet G cur ob s t) whatever s"
  unfolding native_beginAllocateToPool_def native_endAllocateToPool_def native_releasePool_def
  by (rule wp_g_on_valid; rule world_pool_ops)+

end
