(* ===== verification/Eager_Rng.thy ===== *)
theory Eager_Rng
  imports Graph_Capture
begin

text \<open>
  The reference for the random numbers of a process with graphs: a process without graphs, in which
  every random operation runs at once. A graph is the list of the random operations issued during its
  capture, and to replay it is to issue them again, one after the other.
\<close>

section \<open>The reference\<close>

text \<open>
  For every generator state its seed and the offset of its next draw, for every generator its state, the
  operations of the graphs and those of the capture under way, and the seeds and offsets drawn so far.
\<close>

record eager =
  e_pos :: "nat \<Rightarrow> (64 word \<times> 64 word) option"
  e_gen :: "nat \<Rightarrow> nat option"
  e_graph :: "nat \<Rightarrow> (nat \<times> 64 word) list option"
  e_rec :: "(nat \<times> (nat \<times> 64 word) list) option"
  e_out :: "(64 word \<times> 64 word) list"

definition eager_start :: "(64 word \<times> 64 word) list \<Rightarrow> eager" where
  "eager_start out = \<lparr>e_pos = \<lambda>_. None, e_gen = \<lambda>_. None, e_graph = \<lambda>_. None, e_rec = None, e_out = out\<rparr>"

text \<open>A draw takes the offset and moves it on by the increment, rounded up to a multiple of four.\<close>

definition draw :: "nat \<times> 64 word \<Rightarrow> eager \<Rightarrow> eager" where
  "draw r e = (case r of (i, increment) \<Rightarrow> case e_pos e i of None \<Rightarrow> e
     | Some (sd, offset) \<Rightarrow> e\<lparr>e_pos := (e_pos e)(i \<mapsto> (sd, offset + round_increment increment)), e_out := e_out e @ [(sd, offset)]\<rparr>)"

definition set_pos :: "nat \<Rightarrow> 64 word \<Rightarrow> 64 word \<Rightarrow> eager \<Rightarrow> eager" where
  "set_pos i sd offset e = e\<lparr>e_pos := (e_pos e)(i \<mapsto> (sd, offset))\<rparr>"

text \<open>A new generator \<open>g\<close> with a state of its own.\<close>

definition adds_generator :: "nat \<Rightarrow> 64 word \<Rightarrow> 64 word \<Rightarrow> eager \<Rightarrow> eager \<Rightarrow> bool" where
  "adds_generator g sd offset e e' \<longleftrightarrow> e_gen e g = None
     \<and> (\<exists>i. e_pos e i = None \<and> e' = (set_pos i sd offset e)\<lparr>e_gen := (e_gen e)(g \<mapsto> i)\<rparr>)"

text \<open>The default generator of a device is made and seeded when it is first asked for.\<close>

definition may_add_default :: "eager \<Rightarrow> eager \<Rightarrow> bool" where
  "may_add_default e e' \<longleftrightarrow> e' = e \<or> (\<exists>g sd. adds_generator g sd 0 e e')"

definition at_state :: "nat \<Rightarrow> eager \<Rightarrow> (nat \<Rightarrow> 64 word \<Rightarrow> 64 word \<Rightarrow> bool) \<Rightarrow> bool" where
  "at_state g e P = (case e_gen e g of None \<Rightarrow> False | Some i \<Rightarrow> (case e_pos e i of None \<Rightarrow> False | Some (sd, offset) \<Rightarrow> P i sd offset))"

text \<open>
  A step of the reference for an operation and its result. A kernel that got its numbers as values was
  issued at once; one that got addresses belongs to the graph that is captured.
\<close>

fun espec :: "64 word \<Rightarrow> gop \<Rightarrow> gres \<Rightarrow> eager \<Rightarrow> eager \<Rightarrow> bool" where
  "espec sd0 (GNew i) r e e' = (\<exists>g. r = RObject g \<and> adds_generator g sd0 0 e e')"
| "espec sd0 (GDefault i) r e e' = may_add_default e e'"
| "espec sd0 (GClone g) r e e' = (\<exists>h. r = RObject h \<and> at_state g e (\<lambda>_ sd offset. adds_generator h sd offset e e'))"
| "espec sd0 (GShare g h) r e e' = (e' = e\<lparr>e_gen := (e_gen e)(g := e_gen e h)\<rparr>)"
| "espec sd0 (GSeed g sd) r e e' = at_state g e (\<lambda>i _ _. e' = set_pos i sd 0 e)"
| "espec sd0 (GRandomSeed g) r e e' = at_state g e (\<lambda>i _ _. \<exists>sd. r = RSeed sd \<and> e' = set_pos i sd 0 e)"
| "espec sd0 (GOffset g offset) r e e' = at_state g e (\<lambda>i sd _. e' = set_pos i sd offset e)"
| "espec sd0 (GRestore g bytes) r e e' = at_state g e (\<lambda>i _ _. e' = set_pos i (word_of (take 8 bytes))
     (if length bytes = 8 then 0 else word_of (take 8 (drop 8 bytes))) e)"
| "espec sd0 (GRandom g increment) r e e' = at_state g e (\<lambda>i sd offset.
     (r = RPhilox (PhiloxVal sd offset) \<and> e' = draw (i, increment) e)
     \<or> (\<exists>p q k gr rs. r = RPhilox (PhiloxPtr p q k) \<and> e_rec e = Some (gr, rs) \<and> e' = e\<lparr>e_rec := Some (gr, rs @ [(i, increment)])\<rparr>))"
| "espec sd0 (GInputs g increment) r e e' = at_state g e (\<lambda>i sd offset.
     r = RPhilox (PhiloxVal sd offset) \<and> e' = draw (i, increment) e)"
| "espec sd0 (GBegin gr pool mode) r e e' = (e_rec e = None \<and> (\<exists>e1. may_add_default e e1 \<and> e' = e1\<lparr>e_rec := Some (gr, [])\<rparr>))"
| "espec sd0 (GEnd gr) r e e' = (\<exists>rs. e_rec e = Some (gr, rs) \<and> e' = e\<lparr>e_rec := None, e_graph := (e_graph e)(gr \<mapsto> rs)\<rparr>)"
| "espec sd0 (GReplay gr) r e e' = (\<exists>rs. e_graph e gr = Some rs \<and> e' = fold draw rs e)"
| "espec sd0 (GReset gr) r e e' = (e' = e\<lparr>e_graph := (e_graph e)(gr := None)\<rparr>)"
| "espec sd0 (GDestroy gr) r e e' = (e' = e\<lparr>e_graph := (e_graph e)(gr := None)\<rparr>)"
| "espec sd0 _ r e e' = (e' = e)"

section \<open>Issuing a list of operations\<close>

text \<open>How far a list of operations moves the offset of a state, and where its operations draw from.\<close>

definition advance_of :: "nat \<Rightarrow> (nat \<times> 64 word) list \<Rightarrow> 64 word" where
  "advance_of i rs = (\<Sum>(j, increment) \<leftarrow> rs. if j = i then round_increment increment else 0)"

fun emits :: "(nat \<Rightarrow> 64 word) \<Rightarrow> (nat \<Rightarrow> 64 word) \<Rightarrow> (nat \<times> 64 word) list \<Rightarrow> (64 word \<times> 64 word) list" where
  "emits sd off [] = []"
| "emits sd off ((i, increment) # rs) = (sd i, off i) # emits sd (off(i := off i + round_increment increment)) rs"

lemma advance_simps [simp]:
  "advance_of i [] = 0" "advance_of i ((j, increment) # rs) = (if j = i then round_increment increment else 0) + advance_of i rs"
  "advance_of i (rs @ rs') = advance_of i rs + advance_of i rs'"
  by (simp_all add: advance_of_def)

lemma advance_absent: "i \<notin> fst ` set rs \<Longrightarrow> advance_of i rs = 0"
  by (induction rs) auto

lemma emits_snoc: "emits sd off (rs @ [(i, increment)]) = emits sd off rs @ [(sd i, off i + advance_of i rs)]"
  by (induction rs arbitrary: off) (auto simp: add.assoc)

lemma emits_cong: "(\<And>i. i \<in> fst ` set rs \<Longrightarrow> sd i = sd' i \<and> off i = off' i) \<Longrightarrow> emits sd off rs = emits sd' off' rs"
proof (induction rs arbitrary: off off')
  case (Cons r rs)
  obtain i increment where r: "r = (i, increment)" by fastforce
  have "emits sd (off(i := off i + round_increment increment)) rs = emits sd' (off'(i := off' i + round_increment increment)) rs"
    by (rule Cons.IH) (use Cons.prems [of i] Cons.prems r in auto)
  then show ?case using Cons.prems [of i] by (simp add: r)
qed simp

definition moved_on :: "(nat \<times> 64 word) list \<Rightarrow> (nat \<Rightarrow> (64 word \<times> 64 word) option) \<Rightarrow> nat \<Rightarrow> (64 word \<times> 64 word) option" where
  "moved_on rs pos i = map_option (\<lambda>(sd, offset). (sd, offset + advance_of i rs)) (pos i)"

lemma moved_on_Nil: "moved_on [] pos = pos"
proof
  fix i show "moved_on [] pos i = pos i" by (cases "pos i") (auto simp: moved_on_def)
qed

lemma fold_draw:
  assumes "fst ` set rs \<subseteq> dom (e_pos e)"
  shows "fold draw rs e = e\<lparr>e_pos := moved_on rs (e_pos e),
    e_out := e_out e @ emits (\<lambda>i. fst (the (e_pos e i))) (\<lambda>i. snd (the (e_pos e i))) rs\<rparr>"
  using assms
proof (induction rs arbitrary: e)
  case Nil
  then show ?case by (simp add: moved_on_Nil)
next
  case (Cons r rs)
  obtain i increment where r: "r = (i, increment)" by fastforce
  obtain sd offset where p: "e_pos e i = Some (sd, offset)" using Cons.prems r by auto
  let ?e = "e\<lparr>e_pos := (e_pos e)(i \<mapsto> (sd, offset + round_increment increment)), e_out := e_out e @ [(sd, offset)]\<rparr>"
  have d: "draw r e = ?e" by (simp add: draw_def r p)
  have "fold draw rs ?e = ?e\<lparr>e_pos := moved_on rs (e_pos ?e),
      e_out := e_out ?e @ emits (\<lambda>i. fst (the (e_pos ?e i))) (\<lambda>i. snd (the (e_pos ?e i))) rs\<rparr>"
    by (rule Cons.IH) (use Cons.prems in auto)
  moreover have "moved_on rs (e_pos ?e) = moved_on (r # rs) (e_pos e)"
    by (rule ext) (auto simp: moved_on_def r p add.assoc split: option.splits)
  moreover have "emits (\<lambda>i. fst (the (e_pos ?e i))) (\<lambda>i. snd (the (e_pos ?e i))) rs
      = emits (\<lambda>i. fst (the (e_pos e i))) ((\<lambda>i. snd (the (e_pos e i)))(i := offset + round_increment increment)) rs"
    by (rule emits_cong) (auto simp: p)
  ultimately show ?case using d by (simp add: r p)
qed

section \<open>Increments\<close>

text \<open>A rounded increment is a multiple of four, and rounding it again changes nothing.\<close>

lemma round_increment_small:
  assumes "unat w + 3 < 2 ^ 64"
  shows "unat (round_increment w) = (unat w + 3) div 4 * 4"
proof -
  have a: "unat (w + 3) = unat w + 3" using assms unat_add_small [of w 3] by simp
  have "unat ((w + 3) div 4) = (unat w + 3) div 4" using a by (simp add: unat_div)
  moreover have "(unat w + 3) div 4 * 4 < 2 ^ 64" using assms by linarith
  ultimately show ?thesis using unat_mult_small [of "(w + 3) div 4" 4] by (simp add: round_increment_def)
qed

lemma dvd_unat_add:
  assumes "4 dvd unat (a :: 64 word)" and "4 dvd unat b"
  shows "4 dvd unat (a + b)"
proof -
  have "unat (a + b) = (unat a + unat b) mod 2 ^ 64" by (simp add: unat_word_ariths(1))
  moreover have "(4 :: nat) dvd 2 ^ 64" by simp
  ultimately show ?thesis using assms by (simp add: dvd_mod_iff)
qed

lemma dvd_round_increment: "4 dvd unat (round_increment w)"
proof -
  have "unat (round_increment w) = unat ((w + 3) div 4) * 4 mod 2 ^ 64" by (simp add: round_increment_def unat_word_ariths(2))
  then show ?thesis by (simp add: dvd_mod_iff)
qed

lemma dvd_advance: "4 dvd unat (advance_of i rs)"
proof (induction rs)
  case (Cons r rs)
  obtain j increment where "r = (j, increment)" by fastforce
  then show ?case using dvd_unat_add [OF dvd_round_increment Cons.IH, of increment] Cons.IH by (cases "j = i") simp_all
qed simp

lemma round_advance: "round_increment (advance_of i rs) = advance_of i rs"
proof -
  have d: "4 dvd unat (advance_of i rs)" by (rule dvd_advance)
  then obtain k where k: "unat (advance_of i rs) = 4 * k" by blast
  have "unat (advance_of i rs) < 2 ^ 64" by (rule unat_less_64)
  then have "unat (advance_of i rs) + 3 < 2 ^ 64" using k by simp
  then have "unat (round_increment (advance_of i rs)) = unat (advance_of i rs)" using round_increment_small k by simp
  then show ?thesis by (simp add: word_unat_eq_iff)
qed

text \<open>The check against an overflow of the offset inside a graph is exact for increments of up to 32 bits.\<close>

lemma intragraph_check:
  assumes "unat inc \<le> 2 ^ 32 - 4" and "ucast (k :: 32 word) \<le> (0xFFFFFFFF :: 64 word) - round_increment inc"
  shows "ucast (ucast (ucast k + round_increment inc) :: 32 word) = ucast k + round_increment inc"
proof -
  have r: "unat (round_increment inc) = (unat inc + 3) div 4 * 4" using round_increment_small [of inc] assms(1) by simp
  then have b: "unat (round_increment inc) \<le> 2 ^ 32 - 4" using assms(1) by simp
  then have "round_increment inc \<le> 0xFFFFFFFF" by (simp add: word_le_nat_alt)
  then have "unat ((0xFFFFFFFF :: 64 word) - round_increment inc) = 0xFFFFFFFF - unat (round_increment inc)"
    by (simp add: unat_sub)
  then have "unat k \<le> 0xFFFFFFFF - unat (round_increment inc)"
    using assms(2) by (simp add: word_le_nat_alt unat_ucast_up)
  then have s: "unat k + unat (round_increment inc) < 2 ^ 32" using b by simp
  then have u: "unat (ucast k + round_increment inc) = unat k + unat (round_increment inc)"
    using unat_add_small [of "ucast k" "round_increment inc"] by (simp add: unat_ucast_up)
  have "unat (ucast (ucast (ucast k + round_increment inc) :: 32 word) :: 64 word) = unat (ucast k + round_increment inc)"
    using u s by (simp add: unat_ucast_up unat_ucast_down)
  then show ?thesis by (simp add: word_unat_eq_iff)
qed

section \<open>Saving and restoring a generator\<close>

lemma bit_foldr_bytes:
  "bit (foldr (\<lambda>b w. push_bit 8 w OR ucast (b :: 8 word)) bs (0 :: 64 word)) n
    \<longleftrightarrow> n < 64 \<and> n div 8 < length bs \<and> bit (bs ! (n div 8)) (n mod 8)"
proof (induction bs arbitrary: n)
  case (Cons b bs)
  show ?case
  proof (cases "n < 8")
    case True
    then show ?thesis using Cons.IH by (auto simp: bit_simps)
  next
    case False
    then have "n div 8 = Suc ((n - 8) div 8)" "n mod 8 = (n - 8) mod 8" by (simp_all add: le_div_geq le_mod_geq)
    moreover have "\<not> bit (ucast b :: 64 word) n" using False bit_imp_le_length [of b n] by (auto simp: bit_simps)
    ultimately show ?thesis using False Cons.IH [of "n - 8"] by (auto simp: bit_simps)
  qed
qed simp

lemma word_of_bytes: "word_of (bytes_of w) = w"
proof (rule bit_word_eqI)
  fix n assume "n < LENGTH(64)"
  then show "bit (word_of (bytes_of w)) n = bit w n"
    by (simp add: word_of_def bit_foldr_bytes bytes_of_def nth_map bit_simps less_mult_imp_div_less div_less_iff_less_mult)
qed

lemma length_bytes_of [simp]: "length (bytes_of w) = 8"
  by (simp add: bytes_of_def)

end
