(* ===== verification/Graph_Sim.thy ===== *)
theory Graph_Sim
  imports Graph_Laws Eager_Rng
begin

text \<open>
  The simulation between a process with graphs and the reference of \<^verbatim>\<open>Eager_Rng\<close>: what the states of the
  generators, their tensors, the graphs and the capture under way have to do with the reference, and
  the operations on generators, which keep it.
\<close>

section \<open>The relation\<close>

abbreviation seed_at :: "(nat \<Rightarrow> SUPAGeneratorState option) \<Rightarrow> nat \<Rightarrow> nat" where
  "seed_at S i \<equiv> the (seed_extragraph (the (S i)))"

abbreviation offset_at :: "(nat \<Rightarrow> SUPAGeneratorState option) \<Rightarrow> nat \<Rightarrow> nat" where
  "offset_at S i \<equiv> the (offset_extragraph (the (S i)))"

text \<open>The kernels of a graph draw what its operations draw, from whatever seeds and offsets the tensors hold.\<close>

definition plays :: "(nat \<Rightarrow> SUPAGeneratorState option) \<Rightarrow> PhiloxSupaState list \<Rightarrow> (nat \<times> 64 word) list \<Rightarrow> bool" where
  "plays S ns rs \<longleftrightarrow> (\<forall>mem. map (unpack mem) ns = emits (\<lambda>i. mem (seed_at S i)) (\<lambda>i. mem (offset_at S i)) rs)"

definition objects_ok :: "'d gst \<Rightarrow> bool" where
  "objects_ok s \<longleftrightarrow> (\<forall>g x. generators s g = Some x \<longrightarrow> gen_states s (gen_state x) \<noteq> None)
     \<and> (\<forall>i \<ge> next_state s. gen_states s i = None) \<and> (\<forall>g \<ge> next_generator s. generators s g = None)
     \<and> (\<forall>gr \<ge> next_graph s. graph_objs s gr = None)"

definition own_tensors :: "SUPAGeneratorState \<Rightarrow> nat set" where
  "own_tensors x = set_option (seed_extragraph x) \<union> set_option (offset_extragraph x)"

text \<open>A state has two tensors of its own as long as a graph is registered with it.\<close>

definition has_tensors :: "nat set \<Rightarrow> SUPAGeneratorState \<Rightarrow> bool" where
  "has_tensors T x \<longleftrightarrow> (if registered_graphs x = {} then seed_extragraph x = None \<and> offset_extragraph x = None
     else (\<exists>p q. seed_extragraph x = Some p \<and> offset_extragraph x = Some q \<and> p \<noteq> q \<and> p \<in> T \<and> q \<in> T))"

definition tensors_ok :: "nat set \<Rightarrow> (nat \<Rightarrow> SUPAGeneratorState option) \<Rightarrow> bool" where
  "tensors_ok T S \<longleftrightarrow> (\<forall>i x. S i = Some x \<longrightarrow> has_tensors T x)
     \<and> (\<forall>i j x y. S i = Some x \<longrightarrow> S j = Some y \<longrightarrow> i \<noteq> j \<longrightarrow> own_tensors x \<inter> own_tensors y = {})"

abbreviation members :: "SUPAGraph \<Rightarrow> nat set" where
  "members y \<equiv> dom (captured_generator_states y)"

definition graphs_ok :: "(nat \<Rightarrow> SUPAGeneratorState option) \<Rightarrow> (nat \<Rightarrow> SUPAGraph option) \<Rightarrow> bool" where
  "graphs_ok S H \<longleftrightarrow> (\<forall>gr y. H gr = Some y \<longrightarrow> finite (members y)
     \<and> (\<forall>i \<in> members y. \<exists>x. S i = Some x \<and> gr \<in> registered_graphs x))"

text \<open>A captured graph: its kernels, and what a replay moves the offsets on by.\<close>

definition captured :: "(nat \<Rightarrow> SUPAGeneratorState option) \<Rightarrow> (nat \<Rightarrow> PhiloxSupaState list option) \<Rightarrow> SUPAGraph \<Rightarrow> (nat \<times> 64 word) list \<Rightarrow> bool" where
  "captured S X y rs \<longleftrightarrow> members y \<noteq> {} \<and> fst ` set rs \<subseteq> members y
     \<and> (\<forall>i n. captured_generator_states y i = Some n \<longrightarrow> n = advance_of i rs)
     \<and> (\<exists>ns. X (graph_exec y) = Some ns \<and> plays S ns rs)"

definition captures_ok :: "(nat \<Rightarrow> SUPAGeneratorState option) \<Rightarrow> (nat \<Rightarrow> SUPAGraph option) \<Rightarrow> (nat \<Rightarrow> PhiloxSupaState list option) \<Rightarrow>
    (nat \<Rightarrow> (nat \<times> 64 word) list option) \<Rightarrow> bool" where
  "captures_ok S H X eg \<longleftrightarrow> (\<forall>gr y. H gr = Some y \<longrightarrow> has_graph_exec y \<longrightarrow> (\<exists>rs. eg gr = Some rs \<and> captured S X y rs))
     \<and> (\<forall>gr gr' y y'. H gr = Some y \<longrightarrow> H gr' = Some y' \<longrightarrow> has_graph_exec y \<longrightarrow> has_graph_exec y' \<longrightarrow> gr \<noteq> gr' \<longrightarrow>
          graph_exec y \<noteq> graph_exec y')"

text \<open>
  The capture under way: the kernels captured so far play the operations issued so far, and every state
  that the graph manages counts its part of them. Outside a capture no stream and no state captures.
\<close>

definition recording :: "(nat \<Rightarrow> SUPAGeneratorState option) \<Rightarrow> PhiloxSupaState list \<Rightarrow> SUPAGraph \<Rightarrow> (nat \<times> 64 word) list \<Rightarrow> bool" where
  "recording S ns y rs \<longleftrightarrow> \<not> has_graph_exec y \<and> members y \<noteq> {} \<and> fst ` set rs \<subseteq> members y \<and> plays S ns rs
     \<and> (\<forall>i x. S i = Some x \<longrightarrow> gs_capturing x = (i \<in> members y) \<and> (i \<in> members y \<longrightarrow> ucast (offset_intragraph x) = advance_of i rs))"

definition capture_ok :: "'d gst \<Rightarrow> (nat \<Rightarrow> PhiloxSupaState list option) \<Rightarrow> (nat \<times> (nat \<times> 64 word) list) option \<Rightarrow> bool" where
  "capture_ok s C rec = (case rec of
     None \<Rightarrow> (\<forall>h. C h = None) \<and> (\<forall>i x. gen_states s i = Some x \<longrightarrow> \<not> gs_capturing x)
   | Some (gr, rs) \<Rightarrow> (\<exists>y h ns. graph_objs s gr = Some y \<and> raw_stream (capture_stream y) s = Inr h \<and> C = (\<lambda>_. None)(h \<mapsto> ns)
        \<and> recording (gen_states s) ns y rs))"

definition positions :: "'d gst \<Rightarrow> nat \<Rightarrow> (64 word \<times> 64 word) option" where
  "positions s i = map_option (\<lambda>x. (seed x, philox_offset_per_thread x)) (gen_states s i)"

definition gen_map :: "'d gst \<Rightarrow> nat \<Rightarrow> nat option" where
  "gen_map s g = map_option gen_state (generators s g)"

definition sim :: "'d genv \<Rightarrow> (int \<Rightarrow> nat set) \<Rightarrow> ('d \<Rightarrow> graph_obs) \<Rightarrow> 'd gst \<Rightarrow> eager \<Rightarrow> bool" where
  "sim G own ob s e \<longleftrightarrow> streams_settled G own s \<and> objects_ok s \<and> e_pos e = positions s \<and> e_gen e = gen_map s
     \<and> e_out e = consumed (seen ob s) \<and> tensors_ok (tensors (seen ob s)) (gen_states s) \<and> graphs_ok (gen_states s) (graph_objs s)
     \<and> captures_ok (gen_states s) (graph_objs s) (exec_nodes (seen ob s)) (e_graph e)
     \<and> capture_ok s (stream_captures (seen ob s)) (e_rec e)"

lemma capture_ok_cong:
  assumes "g_nca t = g_nca s" and "gen_states t = gen_states s" and "graph_objs t = graph_objs s"
  shows "capture_ok t C r = capture_ok s C r"
  using assms by (cases r) (auto simp: capture_ok_def raw_stream_def)

lemma sim_cong:
  assumes "g_nca t = g_nca s" and "gen_states t = gen_states s" and "generators t = generators s" and "graph_objs t = graph_objs s"
    and "next_state t = next_state s" and "next_generator t = next_generator s" and "next_graph t = next_graph s"
  shows "sim G own ob t e = sim G own ob s e"
proof -
  have "positions t = positions s" "gen_map t = gen_map s" using assms by (simp_all add: positions_def gen_map_def fun_eq_iff)
  moreover have "objects_ok t = objects_ok s" "streams_settled G own t = streams_settled G own s"
    using assms by (simp_all add: objects_ok_def streams_settled_def raw_stream_def)
  ultimately show ?thesis using assms capture_ok_cong [OF assms(1,2,4)] by (simp add: sim_def)
qed

lemma simD:
  assumes "sim G own ob s e"
  shows "streams_settled G own s" and "objects_ok s" and "e_pos e = positions s" and "e_gen e = gen_map s"
    and "e_out e = consumed (seen ob s)" and "tensors_ok (tensors (seen ob s)) (gen_states s)" and "graphs_ok (gen_states s) (graph_objs s)"
    and "captures_ok (gen_states s) (graph_objs s) (exec_nodes (seen ob s)) (e_graph e)"
    and "capture_ok s (stream_captures (seen ob s)) (e_rec e)"
  using assms by (simp_all add: sim_def)

section \<open>Changes that keep the relation\<close>

text \<open>What the graphs and tensors have to do with a state does not involve its seed and offset.\<close>

definition same_links_and_mode :: "SUPAGeneratorState \<Rightarrow> SUPAGeneratorState \<Rightarrow> bool" where
  "same_links_and_mode x x' \<longleftrightarrow> offset_intragraph x' = offset_intragraph x \<and> gs_capturing x' = gs_capturing x
     \<and> registered_graphs x' = registered_graphs x \<and> seed_extragraph x' = seed_extragraph x \<and> offset_extragraph x' = offset_extragraph x"

definition same_shapes :: "(nat \<Rightarrow> SUPAGeneratorState option) \<Rightarrow> (nat \<Rightarrow> SUPAGeneratorState option) \<Rightarrow> bool" where
  "same_shapes S S' \<longleftrightarrow> (\<forall>i. case S i of None \<Rightarrow> S' i = None | Some x \<Rightarrow> (\<exists>x'. S' i = Some x' \<and> same_links_and_mode x x'))"

lemma same_shapesD:
  assumes "same_shapes S S'"
  shows "S' i = Some x' \<Longrightarrow> \<exists>x. S i = Some x \<and> same_links_and_mode x x'" and "S i = Some x \<Longrightarrow> \<exists>x'. S' i = Some x' \<and> same_links_and_mode x x'"
    and "S' i = None \<longleftrightarrow> S i = None"
proof -
  show "S i = Some x \<Longrightarrow> \<exists>x'. S' i = Some x' \<and> same_links_and_mode x x'" and n: "S' i = None \<longleftrightarrow> S i = None" for x
    using assms [unfolded same_shapes_def, rule_format, of i] by (auto split: option.splits)
  show "S' i = Some x' \<Longrightarrow> \<exists>x. S i = Some x \<and> same_links_and_mode x x'"
    using assms [unfolded same_shapes_def, rule_format, of i] by (auto split: option.splits)
qed

lemma plays_cong:
  assumes "\<And>i. i \<in> fst ` set rs \<Longrightarrow> seed_at S' i = seed_at S i \<and> offset_at S' i = offset_at S i"
  shows "plays S' ns rs = plays S ns rs"
  unfolding plays_def using emits_cong [of rs] assms by (metis (no_types, lifting))

lemma plays_same_shapes: "same_shapes S S' \<Longrightarrow> S i \<noteq> None \<longrightarrow> seed_at S' i = seed_at S i \<and> offset_at S' i = offset_at S i"
  using same_shapesD(2) [of S S' i] by (auto simp: same_links_and_mode_def)

lemma same_shapes_upd: "S i = Some x \<Longrightarrow> same_links_and_mode x x' \<Longrightarrow> same_shapes S (S(i \<mapsto> x'))"
  by (auto simp: same_shapes_def same_links_and_mode_def split: option.splits)

lemma same_shape_tensors:
  assumes "same_links_and_mode x x'"
  shows "has_tensors T x' = has_tensors T x" and "own_tensors x' = own_tensors x"
  using assms by (simp_all add: same_links_and_mode_def has_tensors_def own_tensors_def)

lemma tensors_ok_shapes:
  assumes "same_shapes S S'" and "tensors_ok T S"
  shows "tensors_ok T S'"
  unfolding tensors_ok_def
proof (intro conjI allI impI)
  fix i x' assume "S' i = Some x'"
  then obtain x where "S i = Some x" "same_links_and_mode x x'" using same_shapesD(1) [OF assms(1)] by blast
  then show "has_tensors T x'" using assms(2) same_shape_tensors(1) unfolding tensors_ok_def by blast
next
  fix i j x' y' assume "S' i = Some x'" "S' j = Some y'" "i \<noteq> j"
  then obtain x y where "S i = Some x" "same_links_and_mode x x'" "S j = Some y" "same_links_and_mode y y'" using same_shapesD(1) [OF assms(1)] by metis
  then show "own_tensors x' \<inter> own_tensors y' = {}" using assms(2) \<open>i \<noteq> j\<close> same_shape_tensors(2) unfolding tensors_ok_def by metis
qed

lemma graphs_ok_shapes:
  assumes "same_shapes S S'" and "graphs_ok S H"
  shows "graphs_ok S' H"
proof -
  have "\<exists>x'. S' i = Some x' \<and> gr \<in> registered_graphs x'" if "\<exists>x. S i = Some x \<and> gr \<in> registered_graphs x" for i gr
    using that same_shapesD(2) [OF assms(1)] unfolding same_links_and_mode_def by metis
  then show ?thesis using assms(2) unfolding graphs_ok_def by blast
qed

lemma members_known: "graphs_ok S H \<Longrightarrow> H gr = Some y \<Longrightarrow> i \<in> members y \<Longrightarrow> S i \<noteq> None"
  unfolding graphs_ok_def by blast

lemma captured_shapes:
  assumes "same_shapes S S'" and "graphs_ok S H" and "H gr = Some y" and "captured S X y rs"
  shows "captured S' X y rs"
proof -
  have "plays S' ns rs = plays S ns rs" for ns
  proof (rule plays_cong)
    fix i assume "i \<in> fst ` set rs"
    then have "S i \<noteq> None" using assms members_known unfolding captured_def by blast
    then show "seed_at S' i = seed_at S i \<and> offset_at S' i = offset_at S i" using plays_same_shapes [OF assms(1)] by blast
  qed
  then show ?thesis using assms(4) by (simp add: captured_def)
qed

lemma captures_ok_shapes:
  assumes "same_shapes S S'" and "graphs_ok S H" and "captures_ok S H X eg"
  shows "captures_ok S' H X eg"
  using assms(3) captured_shapes [OF assms(1,2)] unfolding captures_ok_def by blast

lemma recording_shapes:
  assumes "same_shapes S S'" and "graphs_ok S H" and "H gr = Some y" and "recording S ns y rs"
  shows "recording S' ns y rs"
proof -
  have "plays S' ns rs = plays S ns rs"
  proof (rule plays_cong)
    fix i assume "i \<in> fst ` set rs"
    then have "S i \<noteq> None" using assms members_known unfolding recording_def by blast
    then show "seed_at S' i = seed_at S i \<and> offset_at S' i = offset_at S i" using plays_same_shapes [OF assms(1)] by blast
  qed
  moreover have "gs_capturing x' = (i \<in> members y) \<and> (i \<in> members y \<longrightarrow> ucast (offset_intragraph x') = advance_of i rs)" if "S' i = Some x'" for i x'
    using same_shapesD(1) [OF assms(1) that] assms(4) unfolding recording_def same_links_and_mode_def by metis
  ultimately show ?thesis using assms(4) by (simp add: recording_def)
qed

lemma capture_ok_shapes:
  assumes "same_shapes (gen_states s) S'" and "graphs_ok (gen_states s) (graph_objs s)" and "capture_ok s C rec"
  shows "capture_ok (s\<lparr>gen_states := S'\<rparr>) C rec"
proof (cases rec)
  case None
  then show ?thesis using assms(3) same_shapesD(1) [OF assms(1)] by (fastforce simp: capture_ok_def same_links_and_mode_def)
next
  case (Some r)
  obtain gr rs where r: "r = (gr, rs)" by fastforce
  have h: "raw_stream z (s\<lparr>gen_states := S'\<rparr>) = raw_stream z s" for z by (simp add: raw_stream_def)
  show ?thesis using assms(3) recording_shapes [OF assms(1,2)] unfolding capture_ok_def Some r by (fastforce simp: h)
qed

lemma sim_shapes:
  assumes "sim G own ob s e" and "same_shapes (gen_states s) S'"
  shows "sim G own ob (s\<lparr>gen_states := S'\<rparr>) (e\<lparr>e_pos := (\<lambda>i. map_option (\<lambda>x. (seed x, philox_offset_per_thread x)) (S' i))\<rparr>)"
proof -
  note D = simD [OF assms(1)]
  have "streams_settled G own (s\<lparr>gen_states := S'\<rparr>)" using D(1) by (simp add: streams_settled_def raw_stream_def)
  moreover have "objects_ok (s\<lparr>gen_states := S'\<rparr>)" using D(2) same_shapesD(3) [OF assms(2)] by (auto simp: objects_ok_def)
  ultimately show ?thesis
    using D tensors_ok_shapes [OF assms(2) D(6)] graphs_ok_shapes [OF assms(2) D(7)] captures_ok_shapes [OF assms(2) D(7) D(8)]
      capture_ok_shapes [OF assms(2) D(7) D(9)]
    by (auto simp: sim_def positions_def gen_map_def)
qed

text \<open>A state is moved to another seed and offset.\<close>

lemma sim_pos:
  assumes "sim G own ob s e" and "gen_states s i = Some x"
  shows "sim G own ob (s\<lparr>gen_states := (gen_states s)(i \<mapsto> x\<lparr>seed := sd, philox_offset_per_thread := offset\<rparr>)\<rparr>) (set_pos i sd offset e)"
proof -
  let ?x = "x\<lparr>seed := sd, philox_offset_per_thread := offset\<rparr>"
  have "set_pos i sd offset e = e\<lparr>e_pos := (\<lambda>j. map_option (\<lambda>x. (seed x, philox_offset_per_thread x)) (((gen_states s)(i \<mapsto> ?x)) j))\<rparr>"
    using simD(3) [OF assms(1)] by (auto simp: set_pos_def positions_def fun_eq_iff)
  then show ?thesis
    using sim_shapes [OF assms(1) same_shapes_upd [where S = "gen_states s" and i = i and x = x and x' = ?x]] assms(2) by (simp add: same_links_and_mode_def)
qed

text \<open>A generator refers to another state.\<close>

lemma sim_gen:
  assumes "sim G own ob s e" and "gen_states s (gen_state x) \<noteq> None" and "g < next_generator s"
  shows "sim G own ob (s\<lparr>generators := (generators s)(g \<mapsto> x)\<rparr>) (e\<lparr>e_gen := (e_gen e)(g \<mapsto> gen_state x)\<rparr>)"
  using assms simD(2) [OF assms(1)]
  by (auto simp: sim_def streams_settled_def raw_stream_def objects_ok_def positions_def gen_map_def capture_ok_def fun_eq_iff split: option.splits)

lemma sim_flag:
  assumes "sim G own ob s e" and "generators s g = Some x" and "gen_state x' = gen_state x"
  shows "sim G own ob (s\<lparr>generators := (generators s)(g \<mapsto> x')\<rparr>) e"
proof -
  have "gen_states s (gen_state x') \<noteq> None" "g < next_generator s"
    using simD(2) [OF assms(1)] assms(2,3) unfolding objects_ok_def by (metis not_le option.distinct(1))+
  moreover have "e\<lparr>e_gen := (e_gen e)(g \<mapsto> gen_state x')\<rparr> = e"
    using simD(4) [OF assms(1)] assms(2,3) by (auto simp: gen_map_def fun_upd_idem)
  ultimately show ?thesis using sim_gen [OF assms(1), of x' g] by simp
qed

text \<open>A step of the device that the reference does not see.\<close>

lemma sim_acts:
  assumes S: "sim G own ob s e" and a: "acts G cur ob v s t" and "consumed v = consumed (seen ob s)" and "tensors v = tensors (seen ob s)"
    and "exec_nodes v = exec_nodes (seen ob s)" and "stream_captures v = stream_captures (seen ob s)"
  shows "sim G own ob t e"
proof -
  note D = simD [OF S] and F = acts_fields [OF a] and T = acts_streams [OF a]
  have "positions t = positions s" "gen_map t = gen_map s" by (simp_all add: positions_def gen_map_def F fun_eq_iff)
  moreover have "objects_ok t" using D(2) by (simp add: objects_ok_def F)
  moreover have "capture_ok t C r = capture_ok s C r" for C r by (cases r) (auto simp: capture_ok_def F T(1))
  ultimately show ?thesis using D T(3) [OF D(1)] assms(3-6) by (simp add: sim_def F)
qed

lemma sim_quiet: "sim G own ob s e \<Longrightarrow> quiet G cur ob s t \<Longrightarrow> sim G own ob t e"
  by (erule sim_acts) simp_all

end
