(* ===== verification/Graph_Draws.thy ===== *)
theory Graph_Draws
  imports Graph_Sim
begin

text \<open>The operations on generators keep the simulation with the reference.\<close>

section \<open>Generators and their states\<close>

lemma sim_lookup:
  assumes "sim G own ob s e" and "generators s g = Some x"
  obtains y where "gen_states s (gen_state x) = Some y" and "e_gen e g = Some (gen_state x)"
    and "e_pos e (gen_state x) = Some (seed y, philox_offset_per_thread y)"
proof -
  obtain y where "gen_states s (gen_state x) = Some y" using simD(2) [OF assms(1)] assms(2) unfolding objects_ok_def by blast
  then show thesis using that simD(3,4) [OF assms(1)] assms(2) by (simp add: positions_def gen_map_def)
qed

text \<open>A new state, to which no graph is registered.\<close>

lemma sim_new_state:
  assumes S: "sim G own ob s e"
  shows "sim G own ob (s\<lparr>gen_states := (gen_states s)(next_state s \<mapsto> SUPAGeneratorState_ctor sd offset k), next_state := Suc (next_state s)\<rparr>)
    (set_pos (next_state s) sd offset e)" (is "sim _ _ _ ?t ?e")
proof -
  let ?i = "next_state s" and ?x = "SUPAGeneratorState_ctor sd offset k"
  let ?S = "(gen_states s)(?i \<mapsto> ?x)"
  note D = simD [OF S]
  have n: "gen_states s ?i = None" using D(2) by (simp add: objects_ok_def)
  have x: "registered_graphs ?x = {}" "seed_extragraph ?x = None" "offset_extragraph ?x = None" "\<not> gs_capturing ?x" "own_tensors ?x = {}"
    "has_tensors T ?x" for T
    by (simp_all add: SUPAGeneratorState_ctor_def own_tensors_def has_tensors_def)
  have out: "i \<noteq> ?i" if "graph_objs s gr = Some y" "i \<in> members y" for gr y i using members_known [OF D(7) that] n by auto
  have p: "plays ?S ns rs = plays (gen_states s) ns rs" if "graph_objs s gr = Some y" "fst ` set rs \<subseteq> members y" for gr y ns rs
  proof (rule plays_cong)
    fix i assume "i \<in> fst ` set rs"
    then have "i \<noteq> ?i" using that out [OF that(1)] by blast
    then show "seed_at ?S i = seed_at (gen_states s) i \<and> offset_at ?S i = offset_at (gen_states s) i" by simp
  qed
  have "objects_ok ?t" using D(2) n unfolding objects_ok_def by (auto split: if_splits)
  moreover have "positions ?t = e_pos ?e" "gen_map ?t = e_gen ?e"
    using D(3,4) by (auto simp: positions_def gen_map_def set_pos_def SUPAGeneratorState_ctor_def)
  moreover have "tensors_ok (tensors (seen ob s)) ?S" using D(6) x unfolding tensors_ok_def by auto
  moreover have "graphs_ok ?S (graph_objs s)"
    unfolding graphs_ok_def
  proof (intro allI impI conjI ballI)
    fix gr y assume y: "graph_objs s gr = Some y"
    then show "finite (members y)" using D(7) unfolding graphs_ok_def by blast
    fix i assume "i \<in> members y"
    then show "\<exists>x. ?S i = Some x \<and> gr \<in> registered_graphs x" using y D(7) out [OF y] unfolding graphs_ok_def by fastforce
  qed
  moreover have "captures_ok ?S (graph_objs s) X eg = captures_ok (gen_states s) (graph_objs s) X eg" for X eg
    using p unfolding captures_ok_def captured_def by meson
  moreover have "capture_ok ?t C r" if c: "capture_ok s C r" for C r
  proof (cases r)
    case None
    then show ?thesis using c x(4) by (auto simp: capture_ok_def)
  next
    case (Some q)
    obtain gr rs where q: "q = (gr, rs)" by fastforce
    obtain y h ns where y: "graph_objs s gr = Some y" "raw_stream (capture_stream y) s = Inr h" "C = (\<lambda>_. None)(h \<mapsto> ns)" "recording (gen_states s) ns y rs"
      using c by (auto simp: capture_ok_def Some q)
    have "recording ?S ns y rs" using y(4) p [OF y(1), of rs ns] out [OF y(1)] x(4) unfolding recording_def by auto
    then show ?thesis using y(1-3) by (auto simp: capture_ok_def Some q)
  qed
  ultimately show ?thesis using D by (simp add: sim_def set_pos_def)
qed

lemma sim_new_generator:
  assumes S: "sim G own ob s e" and "gen_states s i \<noteq> None" and "gen_state x = i"
  shows "sim G own ob (s\<lparr>generators := (generators s)(next_generator s \<mapsto> x), next_generator := Suc (next_generator s)\<rparr>)
    (e\<lparr>e_gen := (e_gen e)(next_generator s \<mapsto> i)\<rparr>)" (is "sim _ _ _ ?t ?e")
proof -
  note D = simD [OF S]
  have "objects_ok ?t" using D(2) assms(2,3) unfolding objects_ok_def by (auto split: if_splits)
  moreover have "gen_map ?t = e_gen ?e" "positions ?t = positions s" using D(4) assms(3) by (auto simp: gen_map_def positions_def)
  moreover have "capture_ok ?t C r = capture_ok s C r" for C r by (cases r) (auto simp: capture_ok_def)
  ultimately show ?thesis using D by (simp add: sim_def)
qed

lemma sim_fresh:
  assumes "sim G own ob s e"
  shows "e_gen e (next_generator s) = None" and "e_pos e (next_state s) = None"
  using simD(2-4) [OF assms] by (simp_all add: objects_ok_def gen_map_def positions_def)

text \<open>Both at once: a new generator with a state of its own.\<close>

lemma sim_new_pair:
  assumes S: "sim G own ob s e" and x: "gen_state x = next_state s"
  shows "\<exists>e'. adds_generator (next_generator s) sd offset e e'
    \<and> sim G own ob (s\<lparr>gen_states := (gen_states s)(next_state s \<mapsto> SUPAGeneratorState_ctor sd offset k), next_state := Suc (next_state s),
        generators := (generators s)(next_generator s \<mapsto> x), next_generator := Suc (next_generator s)\<rparr>) e'"
proof -
  let ?s = "s\<lparr>gen_states := (gen_states s)(next_state s \<mapsto> SUPAGeneratorState_ctor sd offset k), next_state := Suc (next_state s)\<rparr>"
  have "sim G own ob (?s\<lparr>generators := (generators ?s)(next_generator ?s \<mapsto> x), next_generator := Suc (next_generator ?s)\<rparr>)
      ((set_pos (next_state s) sd offset e)\<lparr>e_gen := (e_gen (set_pos (next_state s) sd offset e))(next_generator ?s \<mapsto> next_state s)\<rparr>)"
    by (rule sim_new_generator [OF sim_new_state [OF S]]) (simp_all add: x)
  then show ?thesis using sim_fresh [OF S] by (auto simp: adds_generator_def set_pos_def)
qed

lemma wp_ctor:
  assumes C: "graph_calls_ok G cur own ob" and S: "sim G own ob s e"
  shows "wp (SUPAGeneratorImpl_ctor G i) (\<lambda>g t. (\<exists>e'. adds_generator g (default_rng_seed_val G) 0 e e' \<and> sim G own ob t e')) whatever s"
  unfolding SUPAGeneratorImpl_ctor_def wp_seq wp_bind
proof (rule wp_conseq [OF wp_assertNotCapturing [OF C simD(1) [OF S]]], elim conjE, goal_cases)
  case (1 x t)
  have "sim G own ob t e" by (rule sim_quiet [OF S 1(1)])
  from sim_new_pair [OF this, of "\<lparr>gen_device = i, gen_state = next_state t, no_reset_rnn_state = False\<rparr>" "default_rng_seed_val G" 0 0]
  show ?case by simp
qed simp

lemma wp_set_current_seed:
  assumes C: "graph_calls_ok G cur own ob" and S: "sim G own ob s e"
  shows "wp (set_current_seed G g sd) (\<lambda>_ t. at_state g e (\<lambda>i _ _. sim G own ob t (set_pos i sd 0 e))) whatever s"
  unfolding set_current_seed_def wp_seq wp_bind
proof (rule wp_conseq [OF wp_assertNotCapturing [OF C simD(1) [OF S]]], elim conjE, goal_cases)
  case (1 x t)
  have T: "sim G own ob t e" by (rule sim_quiet [OF S 1(1)])
  show ?case
  proof (cases "generators t g")
    case (Some z)
    obtain y where y: "gen_states t (gen_state z) = Some y" "e_gen e g = Some (gen_state z)"
      "e_pos e (gen_state z) = Some (seed y, philox_offset_per_thread y)" by (rule sim_lookup [OF T Some])
    note U = sim_pos [OF T y(1), where sd = sd and offset = 0]
    have "sim G own ob (t\<lparr>gen_states := (gen_states t)(gen_state z \<mapsto> y\<lparr>seed := sd, philox_offset_per_thread := 0\<rparr>),
        generators := (generators t)(g \<mapsto> z\<lparr>no_reset_rnn_state := False\<rparr>)\<rparr>) (set_pos (gen_state z) sd 0 e)"
      using sim_flag [OF U, of g z "z\<lparr>no_reset_rnn_state := False\<rparr>"] Some by simp
    then show ?thesis by (simp add: Some y at_state_def)
  qed simp
qed simp

lemma wp_set_philox:
  assumes S: "sim G own ob s e"
  shows "wp (set_philox_offset_per_thread g offset) (\<lambda>_ t. at_state g e (\<lambda>i sd _. sim G own ob t (set_pos i sd offset e))) whatever s"
proof (cases "generators s g")
  case (Some z)
  obtain y where y: "gen_states s (gen_state z) = Some y" "e_gen e g = Some (gen_state z)"
    "e_pos e (gen_state z) = Some (seed y, philox_offset_per_thread y)" by (rule sim_lookup [OF S Some])
  have "y\<lparr>seed := seed y, philox_offset_per_thread := offset\<rparr> = y\<lparr>philox_offset_per_thread := offset\<rparr>" by (cases y) simp
  then show ?thesis using sim_pos [OF S y(1), where sd = "seed y" and offset = offset] y by (simp add: set_philox_offset_per_thread_def Some at_state_def)
qed (simp add: set_philox_offset_per_thread_def)

lemma wp_gen_seed:
  assumes C: "graph_calls_ok G cur own ob" and S: "sim G own ob s e"
  shows "wp (gen_seed G g) (\<lambda>sd t. at_state g e (\<lambda>i _ _. sim G own ob t (set_pos i sd 0 e))) whatever s"
  unfolding gen_seed_def wp_seq wp_bind wp_ret
proof (rule wp_conseq [OF wp_assertNotCapturing [OF C simD(1) [OF S]]], elim conjE, goal_cases)
  case (1 x t)
  have T: "sim G own ob t e" by (rule sim_quiet [OF S 1(1)])
  show ?case
  proof (rule wp_conseq [OF wp_keeps [where G = G, OF graph_calls(7) [OF C]]], goal_cases)
    case (1 sd u)
    show ?case by (rule wp_conseq [OF wp_set_current_seed [OF C sim_quiet [OF T 1]]]) simp_all
  qed simp
qed simp

section \<open>Creating and sharing\<close>

lemma adds_set_pos:
  assumes "adds_generator g sd offset e e'" and "at_state g e' (\<lambda>i sd0 offset0. P i sd0 offset0)"
  obtains i where "P i sd offset" and "adds_generator g sd' offset' e (set_pos i sd' offset' e')"
proof -
  obtain i where i: "e_gen e g = None" "e_pos e i = None" "e' = (set_pos i sd offset e)\<lparr>e_gen := (e_gen e)(g \<mapsto> i)\<rparr>"
    using assms(1) unfolding adds_generator_def by blast
  then have "P i sd offset" using assms(2) by (simp add: at_state_def set_pos_def)
  moreover have "set_pos i sd' offset' e' = (set_pos i sd' offset' e)\<lparr>e_gen := (e_gen e)(g \<mapsto> i)\<rparr>" by (simp add: i(3) set_pos_def)
  ultimately show thesis using that i(1,2) unfolding adds_generator_def by blast
qed

lemma init_gens_frame:
  "wp (init_gens G) Q E s = Q () (if num_gpu_init_flag s then s else s\<lparr>gens_num_gpus := device_count (GDrv G), num_gpu_init_flag := True\<rparr>)"
  by (simp add: init_gens_def initSUPAGenVector_def)

lemma wp_make_default:
  assumes C: "graph_calls_ok G cur own ob" and S: "sim G own ob s e"
  shows "wp (make_default G idx) (\<lambda>_ t. \<exists>e'. may_add_default e e' \<and> sim G own ob t e') whatever s"
  unfolding make_default_def wp_bind
proof (rule wp_conseq [OF wp_ctor [OF C S]], elim exE conjE, goal_cases)
  case (1 g u e1)
  have U: "sim G own ob (u\<lparr>default_gens_supa := (default_gens_supa u)(idx \<mapsto> g)\<rparr>) e1"
    using 1(2) by (subst sim_cong [where s = u]) simp_all
  note g = 1(1)
  show ?case
    unfolding wp_seq wp_mod wp_bind wp_ret
  proof (rule wp_conseq [OF wp_gen_seed [OF C U]], goal_cases)
    case (1 sd v)
    from adds_set_pos [OF g 1, of sd 0]
    obtain j where "sim G own ob v (set_pos j sd 0 e1)" "adds_generator g sd 0 e (set_pos j sd 0 e1)" .
    then show ?case unfolding may_add_default_def by blast
  qed simp
qed simp

lemma wp_default_at:
  assumes C: "graph_calls_ok G cur own ob" and S: "sim G own ob s e"
  shows "wp (default_at G idx) (\<lambda>_ t. \<exists>e'. may_add_default e e' \<and> sim G own ob t e') whatever s"
proof -
  let ?P = "\<lambda>t. \<exists>e'. may_add_default e e' \<and> sim G own ob t e'"
  have mark: "?P (u\<lparr>supa_gens_init_flag := f\<rparr>)" if "?P u" for u f
    using that sim_cong [of "u\<lparr>supa_gens_init_flag := f\<rparr>" u] by auto
  have ret: "wp (case default_gens_supa v idx of None \<Rightarrow> sx_throw UseAfterFree | Some g \<Rightarrow> sx_ret g) (\<lambda>_. ?P) whatever u" if "?P u" for u v
    using that by (auto split: option.splits)
  have "wp (make_default G idx) (\<lambda>_ u. ?P (u\<lparr>supa_gens_init_flag := (supa_gens_init_flag u)(idx := True)\<rparr>)) whatever s"
    by (rule wp_conseq [OF wp_make_default [OF C S]]) (use mark in auto)
  then have "wp (make_default G idx) (\<lambda>_ u. wp (case default_gens_supa (u\<lparr>supa_gens_init_flag := (supa_gens_init_flag u)(idx := True)\<rparr>) idx of
      None \<Rightarrow> sx_throw UseAfterFree | Some g \<Rightarrow> sx_ret g) (\<lambda>_. ?P) whatever (u\<lparr>supa_gens_init_flag := (supa_gens_init_flag u)(idx := True)\<rparr>)) whatever s"
    by (rule wp_conseq) (use ret in auto)
  moreover have "?P s" using S by (auto simp: may_add_default_def)
  then have "wp (case default_gens_supa s idx of None \<Rightarrow> sx_throw UseAfterFree | Some g \<Rightarrow> sx_ret g) (\<lambda>_. ?P) whatever s" by (rule ret)
  ultimately show ?thesis by (simp add: default_at_def)
qed

lemma wp_default:
  assumes C: "graph_calls_ok G cur own ob" and S: "sim G own ob s e"
  shows "wp (getDefaultSUPAGenerator G i) (\<lambda>_ t. \<exists>e'. may_add_default e e' \<and> sim G own ob t e') whatever s"
proof -
  have "sim G own ob (s\<lparr>gens_num_gpus := n, num_gpu_init_flag := b\<rparr>) e" for n b
    using S by (subst sim_cong [where s = s]) simp_all
  then show ?thesis
    using S wp_default_at [OF C] by (simp add: getDefaultSUPAGenerator_def init_gens_frame wp_g_current_device [OF C] wp_if del: wp_field)
qed

lemma wp_create:
  assumes C: "graph_calls_ok G cur own ob" and S: "sim G own ob s e"
  shows "wp (createSUPAGenerator G i) (\<lambda>g t. \<exists>e'. adds_generator g (default_rng_seed_val G) 0 e e' \<and> sim G own ob t e') whatever s"
proof -
  let ?Q = "\<lambda>g t. \<exists>e'. adds_generator g (default_rng_seed_val G) 0 e e' \<and> sim G own ob t e'"
  have init: "sim G own ob (s\<lparr>gens_num_gpus := n, num_gpu_init_flag := b\<rparr>) e" for n b
    using S by (subst sim_cong [where s = s]) simp_all
  have new: "wp (sx_bind (SUPAGeneratorImpl_ctor G idx) (\<lambda>g. sx_seq (set_current_seed G g (default_rng_seed_val G))
      (sx_seq (set_philox_offset_per_thread g 0) (sx_ret g)))) ?Q whatever t" if T: "sim G own ob t e" for t idx
    unfolding wp_bind wp_seq wp_ret
  proof (rule wp_conseq [OF wp_ctor [OF C T]], elim exE conjE, goal_cases)
    case (1 g u e1)
    note g = 1(1)
    show ?case
    proof (rule wp_conseq [OF wp_set_current_seed [OF C 1(2)]], goal_cases)
      case (1 x v)
      from adds_set_pos [OF g 1, of "default_rng_seed_val G" 0] obtain j
        where j: "sim G own ob v (set_pos j (default_rng_seed_val G) 0 e1)"
          "adds_generator g (default_rng_seed_val G) 0 e (set_pos j (default_rng_seed_val G) 0 e1)" .
      show ?case
      proof (rule wp_conseq [OF wp_set_philox [OF j(1)]], goal_cases)
        case (1 x w)
        from adds_set_pos [OF j(2) 1, of "default_rng_seed_val G" 0] show ?case by blast
      qed simp
    qed simp
  qed simp
  show ?thesis
    using S init new unfolding createSUPAGenerator_def
    by (simp add: init_gens_frame wp_g_current_device [OF C] wp_if del: wp_field)
qed

lemma wp_clone:
  assumes C: "graph_calls_ok G cur own ob" and S: "sim G own ob s e"
  shows "wp (clone_impl G g) (\<lambda>h t. at_state g e (\<lambda>_ sd offset. \<exists>e'. adds_generator h sd offset e e' \<and> sim G own ob t e')) whatever s"
  unfolding clone_impl_def wp_seq
proof (rule wp_conseq [OF wp_assertNotCapturing [OF C simD(1) [OF S]]], elim conjE, goal_cases)
  case (1 x t)
  have T: "sim G own ob t e" by (rule sim_quiet [OF S 1(1)])
  show ?case
  proof (cases "generators t g")
    case (Some z)
    obtain y where y: "gen_states t (gen_state z) = Some y" "e_gen e g = Some (gen_state z)"
      "e_pos e (gen_state z) = Some (seed y, philox_offset_per_thread y)" by (rule sim_lookup [OF T Some])
    from sim_new_pair [OF T, of "\<lparr>gen_device = gen_device z, gen_state = next_state t, no_reset_rnn_state = False\<rparr>"
        "seed y" "philox_offset_per_thread y" "offset_intragraph y"]
    show ?thesis by (simp add: Some y at_state_def gs_clone_def SUPAGeneratorImpl_ctor_state_def)
  qed simp
qed simp

lemma wp_share:
  assumes S: "sim G own ob s e"
  shows "wp (graphsafe_set_state g h) (\<lambda>_ t. sim G own ob t (e\<lparr>e_gen := (e_gen e)(g := e_gen e h)\<rparr>)) whatever s"
proof (cases "generators s h")
  case (Some z)
  obtain y where y: "gen_states s (gen_state z) = Some y" "e_gen e h = Some (gen_state z)" by (rule sim_lookup [OF S Some])
  show ?thesis
  proof (cases "generators s g")
    case (Some x)
    have "g < next_generator s" using simD(2) [OF S] Some unfolding objects_ok_def by (metis not_le option.distinct(1))
    then show ?thesis using sim_gen [OF S, of "x\<lparr>gen_state := gen_state z\<rparr>" g] y
      by (simp add: graphsafe_set_state_def Some \<open>generators s h = Some z\<close>)
  qed (simp add: graphsafe_set_state_def \<open>generators s h = Some z\<close>)
qed (simp add: graphsafe_set_state_def)

lemma wp_restore:
  assumes C: "graph_calls_ok G cur own ob" and S: "sim G own ob s e"
  shows "wp (set_state G g bytes) (\<lambda>_ t. at_state g e (\<lambda>i _ _. sim G own ob t (set_pos i (word_of (take 8 bytes))
     (if length bytes = 8 then 0 else word_of (take 8 (drop 8 bytes))) e))) whatever s"
proof -
  let ?sd = "word_of (take 8 bytes)" and ?off = "if length bytes = 8 then 0 else word_of (take 8 (drop 8 bytes))"
  have "wp (set_current_seed G g ?sd) (\<lambda>_. wp (set_philox_offset_per_thread g ?off) (\<lambda>_ t. at_state g e (\<lambda>i _ _. sim G own ob t (set_pos i ?sd ?off e))) whatever) whatever s"
  proof (rule wp_conseq [OF wp_set_current_seed [OF C S]], goal_cases)
    case (1 x t)
    then obtain i where i: "e_gen e g = Some i" "e_pos e i \<noteq> None" "sim G own ob t (set_pos i ?sd 0 e)"
      unfolding at_state_def by (auto split: option.splits)
    show ?case
    proof (rule wp_conseq [OF wp_set_philox [OF i(3)]], goal_cases)
      case (1 x u)
      then show ?case using i(1,2) by (auto simp: at_state_def set_pos_def)
    qed simp
  qed simp
  then show ?thesis by (simp add: set_state_def Let_def)
qed

lemma wp_set_offset:
  assumes C: "graph_calls_ok G cur own ob" and S: "sim G own ob s e"
  shows "wp (set_offset G g offset) (\<lambda>_ t. at_state g e (\<lambda>i sd _. sim G own ob t (set_pos i sd offset e))) whatever s"
  unfolding set_offset_def wp_seq
proof (rule wp_conseq [OF wp_assertNotCapturing [OF C simD(1) [OF S]]], elim conjE, goal_cases)
  case (1 x t)
  show ?case
  proof (rule wp_conseq [OF wp_set_philox [OF sim_quiet [OF S 1(1)]]], goal_cases)
    case (1 x u)
    then obtain i sd o0 where i: "e_gen e g = Some i" "e_pos e i = Some (sd, o0)" "sim G own ob u (set_pos i sd offset e)"
      unfolding at_state_def by (auto split: option.splits)
    show ?case
    proof (cases "generators u g")
      case (Some z)
      then show ?thesis using sim_flag [OF i(3) Some, of "z\<lparr>no_reset_rnn_state := False\<rparr>"] i(1,2) by (simp add: at_state_def)
    qed simp
  qed simp
qed simp

end
