(* ===== verification/Graph_Random.thy ===== *)
theory Graph_Random
  imports Graph_Draws
begin

text \<open>
  Operations that draw random numbers: outside a capture their kernels run at once and draw what the
  reference draws; in a capture they become kernels of the graph.
\<close>

section \<open>Moving the offset on\<close>

lemma wp_increase:
  assumes C: "graph_calls_ok G cur own ob" and S: "streams_settled G own s" and x: "gen_states s i = Some x"
  shows "wp (increase G i inc) (\<lambda>_ t. \<exists>u. quiet G cur ob s u \<and> (if capturing_now cur ob s
      then gs_capturing x \<and> ucast (offset_intragraph x) \<le> (0xFFFFFFFF :: 64 word) - round_increment inc
        \<and> t = u\<lparr>gen_states := (gen_states u)(i \<mapsto> x\<lparr>offset_intragraph := ucast (ucast (offset_intragraph x) + round_increment inc)\<rparr>)\<rparr>
      else \<not> gs_capturing x
        \<and> t = u\<lparr>gen_states := (gen_states u)(i \<mapsto> x\<lparr>philox_offset_per_thread := philox_offset_per_thread x + round_increment inc\<rparr>)\<rparr>)) whatever s"
  unfolding increase_def Let_def wp_bind
proof (rule wp_conseq [OF wp_status [OF C S]], elim conjE, goal_cases)
  case (1 st u)
  have "gen_states u i = Some x" using acts_fields(1) [OF 1(1)] x by simp
  then show ?case using 1 by (auto simp: wp_if)
qed simp

lemma sim_consume:
  assumes S: "sim G own ob s e" and a: "acts G cur ob ((seen ob s)\<lparr>consumed := consumed (seen ob s) @ xs\<rparr>) s t"
  shows "sim G own ob t (e\<lparr>e_out := e_out e @ xs\<rparr>)"
proof -
  note D = simD [OF S] and F = acts_fields [OF a] and T = acts_streams [OF a]
  have "positions t = positions s" "gen_map t = gen_map s" by (simp_all add: positions_def gen_map_def F fun_eq_iff)
  moreover have "objects_ok t" using D(2) by (simp add: objects_ok_def F)
  moreover have "capture_ok t C r = capture_ok s C r" for C r by (cases r) (auto simp: capture_ok_def F T(1))
  ultimately show ?thesis using D T(3) [OF D(1)] by (simp add: sim_def F)
qed

text \<open>A draw outside a capture: the offset is moved on, and the kernel runs.\<close>

lemma sim_draw:
  assumes S: "sim G own ob s e" and x: "gen_states s i = Some x"
    and a: "acts G cur ob ((seen ob t)\<lparr>consumed := consumed (seen ob t) @ [(seed x, philox_offset_per_thread x)]\<rparr>) t u"
    and t: "t = s\<lparr>gen_states := (gen_states s)(i \<mapsto> x\<lparr>philox_offset_per_thread := philox_offset_per_thread x + round_increment inc\<rparr>)\<rparr>"
  shows "sim G own ob u (draw (i, inc) e)"
proof -
  let ?off = "philox_offset_per_thread x"
  have "x\<lparr>seed := seed x, philox_offset_per_thread := ?off + round_increment inc\<rparr> = x\<lparr>philox_offset_per_thread := ?off + round_increment inc\<rparr>"
    by (cases x) simp
  then have "sim G own ob t (set_pos i (seed x) (?off + round_increment inc) e)"
    using sim_pos [OF S x, where sd = "seed x" and offset = "?off + round_increment inc"] unfolding t by simp
  from sim_consume [OF this a] show ?thesis using simD(3) [OF S] x by (simp add: draw_def set_pos_def positions_def)
qed

section \<open>Kernels\<close>

lemma wp_launch:
  assumes C: "graph_calls_ok G cur own ob" and S: "streams_settled G own s"
  shows "wp (sx_bind (on_gs (getCurrentSUPAStream (GDrv G) (GRt G) (-1))) (\<lambda>stream. sx_bind (on_gs (stream_of stream)) (\<lambda>h.
      sx_seq (on_gw (supa_check (launch_kernel G ps h))) (sx_ret r))))
    (\<lambda>r' t. r' = r \<and> (\<exists>h. raw_stream (current_stream cur s) s = Inr h \<and> acts G cur ob (case stream_captures (seen ob s) h of
        None \<Rightarrow> (seen ob s)\<lparr>consumed := consumed (seen ob s) @ [unpack (word_at (seen ob s)) ps]\<rparr>
      | Some ns \<Rightarrow> (seen ob s)\<lparr>stream_captures := (stream_captures (seen ob s))(h \<mapsto> ns @ [ps])\<rparr>) s t)) whatever s"
proof (rule wp_current_handle [OF C S], goal_cases)
  case (1 h t)
  note t = 1
  show ?case
    unfolding wp_seq wp_ret
  proof (rule wp_conseq [OF wp_does [where G = G, OF graph_calls(19) [OF C, of ps h]]], goal_cases)
    case (1 x u)
    then have "acts G cur ob (case stream_captures (seen ob s) h of
        None \<Rightarrow> (seen ob s)\<lparr>consumed := consumed (seen ob s) @ [unpack (word_at (seen ob s)) ps]\<rparr>
      | Some ns \<Rightarrow> (seen ob s)\<lparr>stream_captures := (stream_captures (seen ob s))(h \<mapsto> ns @ [ps])\<rparr>) t u"
      using acts_fields(15) [OF t(2)] by (auto split: option.splits)
    then show ?case using acts_trans [OF t(2)] t(1) by blast
  qed simp
qed

lemma capturing_handle: "capturing_now cur ob s \<longleftrightarrow> (\<exists>h ns. raw_stream (current_stream cur s) s = Inr h \<and> stream_captures (seen ob s) h = Some ns)"
  by (auto simp: capturing_now_def)

lemma quiet_capturing: "quiet G cur ob s u \<Longrightarrow> capturing_now cur ob u = capturing_now cur ob s"
  by (rule acts_capturing) simp_all

section \<open>The operation of older style\<close>

lemma wp_engine:
  assumes C: "graph_calls_ok G cur own ob" and S: "sim G own ob s e"
  shows "wp (engine_op G g inc) (\<lambda>r t. at_state g e (\<lambda>i sd offset. r = PhiloxVal sd offset \<and> sim G own ob t (draw (i, inc) e))) whatever s"
  unfolding engine_op_def philox_engine_inputs_def wp_bind wp_seq
proof (rule wp_conseq [OF wp_assertNotCapturing [OF C simD(1) [OF S]]], elim conjE, goal_cases)
  case (1 x t)
  have T: "sim G own ob t e" by (rule sim_quiet [OF S 1(1)])
  have nc: "\<not> capturing_now cur ob t" using quiet_capturing [OF 1(1)] 1(2) by simp
  show ?case
  proof (cases "generators t g")
    case (Some z)
    obtain y where y: "gen_states t (gen_state z) = Some y" "e_gen e g = Some (gen_state z)"
      "e_pos e (gen_state z) = Some (seed y, philox_offset_per_thread y)" by (rule sim_lookup [OF T Some])
    show ?thesis
      unfolding wp_gen_ref wp_gs_ref wp_ret Some option.case y(1)
    proof (rule wp_conseq [OF wp_increase [OF C simD(1) [OF T] y(1)]], elim exE conjE, goal_cases)
      case (1 x v u)
      let ?y = "y\<lparr>philox_offset_per_thread := philox_offset_per_thread y + round_increment inc\<rparr>"
      have v: "v = u\<lparr>gen_states := (gen_states u)(gen_state z \<mapsto> ?y)\<rparr>" using 1(2) nc by simp
      have U: "sim G own ob u e" "gen_states u (gen_state z) = Some y" using sim_quiet [OF T 1(1)] acts_fields(1) [OF 1(1)] y(1) by simp_all
      have V: "streams_settled G own v" "\<not> capturing_now cur ob v" "gen_states v (gen_state z) = Some ?y"
        using simD(1) [OF U(1)] quiet_capturing [OF 1(1)] nc by (simp_all add: v)
      show ?case
        unfolding V(3) option.case prod.case
      proof (rule wp_conseq [OF wp_launch [OF C V(1)]], elim exE conjE, goal_cases)
        case (1 r w h)
        then have "stream_captures (seen ob v) h = None" using V(2) by (auto simp: capturing_now_def)
        then have "sim G own ob w (draw (gen_state z, inc) e)" using sim_draw [OF U _ v, where u = w and cur = cur] 1(3) by simp
        then show ?case using y 1(1) by (simp add: at_state_def)
      qed simp
    qed simp
  qed simp
qed simp

section \<open>Drawing in and out of a capture\<close>

text \<open>A change of a state that leaves its graphs and tensors alone.\<close>

definition same_links :: "SUPAGeneratorState \<Rightarrow> SUPAGeneratorState \<Rightarrow> bool" where
  "same_links x x' \<longleftrightarrow> registered_graphs x' = registered_graphs x \<and> seed_extragraph x' = seed_extragraph x
     \<and> offset_extragraph x' = offset_extragraph x"

lemma tensors_ok_upd:
  assumes "S i = Some x" and "same_links x x'" and "tensors_ok T S"
  shows "tensors_ok T (S(i \<mapsto> x'))"
proof -
  have old: "\<exists>z0. S j = Some z0 \<and> has_tensors T z = has_tensors T z0 \<and> own_tensors z = own_tensors z0" if "(S(i \<mapsto> x')) j = Some z" for j z
    using that assms(1,2) by (cases "j = i") (auto simp: same_links_def has_tensors_def own_tensors_def)
  show ?thesis
    unfolding tensors_ok_def
  proof (intro conjI allI impI)
    fix j z assume "(S(i \<mapsto> x')) j = Some z"
    from old [OF this] show "has_tensors T z" using assms(3) unfolding tensors_ok_def by blast
  next
    fix j k z w assume z: "(S(i \<mapsto> x')) j = Some z" and w: "(S(i \<mapsto> x')) k = Some w" and "j \<noteq> k"
    then show "own_tensors z \<inter> own_tensors w = {}" using old [OF z] old [OF w] assms(3) unfolding tensors_ok_def by metis
  qed
qed

lemma graphs_ok_upd:
  assumes "S i = Some x" and "same_links x x'" and "graphs_ok S H"
  shows "graphs_ok (S(i \<mapsto> x')) H"
proof -
  have "\<exists>z. (S(i \<mapsto> x')) j = Some z \<and> gr \<in> registered_graphs z" if "\<exists>z. S j = Some z \<and> gr \<in> registered_graphs z" for j gr
    using that assms(1,2) by (cases "j = i") (auto simp: same_links_def)
  then show ?thesis using assms(3) unfolding graphs_ok_def by blast
qed

lemma plays_upd: "S i = Some x \<Longrightarrow> same_links x x' \<Longrightarrow> plays (S(i \<mapsto> x')) ns rs = plays S ns rs"
  by (rule plays_cong) (simp add: same_links_def)

text \<open>Where a capture is under way, the state of a drawing generator is one that the graph manages.\<close>

lemma capture_under_way:
  assumes S: "sim G own ob s e" and "capturing_now cur ob s" and x: "gen_states s i = Some x" "gs_capturing x"
  obtains gr rs y h ns where "e_rec e = Some (gr, rs)" and "graph_objs s gr = Some y" and "raw_stream (capture_stream y) s = Inr h"
    and "raw_stream (current_stream cur s) s = Inr h" and "stream_captures (seen ob s) = (\<lambda>_. None)(h \<mapsto> ns)"
    and "recording (gen_states s) ns y rs" and "i \<in> members y" and "ucast (offset_intragraph x) = advance_of i rs"
proof (cases "e_rec e")
  case None
  then show thesis using simD(9) [OF S] assms(2) by (auto simp: capture_ok_def capturing_now_def)
next
  case (Some r)
  obtain gr rs where r: "r = (gr, rs)" by fastforce
  obtain y h ns where y: "graph_objs s gr = Some y" "raw_stream (capture_stream y) s = Inr h"
    "stream_captures (seen ob s) = (\<lambda>_. None)(h \<mapsto> ns)" "recording (gen_states s) ns y rs"
    using simD(9) [OF S] by (auto simp: capture_ok_def Some r)
  have "raw_stream (current_stream cur s) s = Inr h" using assms(2) y(3) by (auto simp: capturing_now_def split: if_splits)
  moreover have "i \<in> members y" "ucast (offset_intragraph x) = advance_of i rs" using y(4) x unfolding recording_def by blast+
  ultimately show thesis using that Some r y by blast
qed

text \<open>One more kernel of the graph.\<close>

lemma plays_snoc:
  assumes "plays S ns rs" and "ucast k = advance_of i rs"
  shows "plays S (ns @ [PhiloxPtr (seed_at S i) (offset_at S i) k]) (rs @ [(i, inc)])"
  using assms by (simp add: plays_def emits_snoc)

lemma sim_record:
  assumes S: "sim G own ob s e" and now: "capturing_now cur ob s" and x: "gen_states s i = Some x" "gs_capturing x"
    and inc: "unat inc \<le> 2 ^ 32 - 4" "ucast (offset_intragraph x) \<le> (0xFFFFFFFF :: 64 word) - round_increment inc"
    and t: "t = s\<lparr>gen_states := (gen_states s)(i \<mapsto> x\<lparr>offset_intragraph := ucast (ucast (offset_intragraph x) + round_increment inc)\<rparr>)\<rparr>"
    and h: "raw_stream (current_stream cur t) t = Inr h"
    and a: "acts G cur ob (case stream_captures (seen ob t) h of None \<Rightarrow> v
      | Some ns \<Rightarrow> (seen ob t)\<lparr>stream_captures := (stream_captures (seen ob t))(h \<mapsto> ns @ [PhiloxPtr p q (offset_intragraph x)])\<rparr>) t u"
    and p: "seed_extragraph x = Some p" "offset_extragraph x = Some q"
  shows "\<exists>gr rs. e_rec e = Some (gr, rs) \<and> sim G own ob u (e\<lparr>e_rec := Some (gr, rs @ [(i, inc)])\<rparr>)"
proof -
  note D = simD [OF S]
  let ?x = "x\<lparr>offset_intragraph := ucast (ucast (offset_intragraph x) + round_increment inc)\<rparr>"
  let ?S = "(gen_states s)(i \<mapsto> ?x)"
  obtain gr rs y h' ns where r: "e_rec e = Some (gr, rs)" "graph_objs s gr = Some y" "raw_stream (capture_stream y) s = Inr h'"
    "raw_stream (current_stream cur s) s = Inr h'" "stream_captures (seen ob s) = (\<lambda>_. None)(h' \<mapsto> ns)"
    "recording (gen_states s) ns y rs" "i \<in> members y" "ucast (offset_intragraph x) = advance_of i rs"
    by (rule capture_under_way [OF S now x])
  have hh: "h = h'" using h r(4) by (simp add: t current_stream_def)
  let ?v = "(seen ob s)\<lparr>stream_captures := (\<lambda>_. None)(h \<mapsto> ns @ [PhiloxPtr p q (offset_intragraph x)])\<rparr>"
  have a': "acts G cur ob ?v t u" using a r(5) by (simp add: t hh)
  note F = acts_fields [OF a'] and T = acts_streams [OF a']
  have l: "same_links x ?x" by (simp add: same_links_def)
  note pl = plays_upd [where S = "gen_states s" and i = i, OF x(1) l]
  have play: "plays ?S (ns @ [PhiloxPtr p q (offset_intragraph x)]) (rs @ [(i, inc)])"
    using plays_snoc [of "gen_states s" ns rs "offset_intragraph x" i inc] r(6,8) x(1) p unfolding pl by (simp add: recording_def)
  have adv: "ucast (offset_intragraph ?x) = advance_of i (rs @ [(i, inc)])" using intragraph_check [OF inc] r(8) by simp
  have rec: "recording ?S (ns @ [PhiloxPtr p q (offset_intragraph x)]) y (rs @ [(i, inc)])"
    unfolding recording_def
  proof (intro conjI allI impI)
    fix j z assume "?S j = Some z"
    then show "gs_capturing z = (j \<in> members y)"
      using r(6,7) x by (cases "j = i") (auto simp: recording_def)
  next
    fix j z assume "?S j = Some z" "j \<in> members y"
    then show "ucast (offset_intragraph z) = advance_of j (rs @ [(i, inc)])"
      using r(6) adv by (cases "j = i") (auto simp: recording_def)
  qed (use r(6,7) play in \<open>auto simp: recording_def\<close>)
  have "positions u = positions s" "gen_map u = gen_map s" using x(1) by (auto simp: positions_def gen_map_def F t fun_eq_iff)
  moreover have "objects_ok u" using D(2) x(1) by (auto simp: objects_ok_def F t split: if_splits)
  moreover have "streams_settled G own u" using T(3) D(1) by (simp add: t)
  moreover note tensors_ok_upd [where S = "gen_states s" and i = i, OF x(1) l D(6)] graphs_ok_upd [where S = "gen_states s" and i = i, OF x(1) l D(7)]
  moreover have "captures_ok ?S (graph_objs s) X eg = captures_ok (gen_states s) (graph_objs s) X eg" for X eg
    unfolding captures_ok_def captured_def pl ..
  moreover have "capture_ok u (stream_captures ?v) (Some (gr, rs @ [(i, inc)]))"
    using r(2,3) rec by (auto simp: capture_ok_def F T(1) t hh)
  ultimately show ?thesis using D r(1) by (auto simp: sim_def F t)
qed

lemma wp_random:
  assumes C: "graph_calls_ok G cur own ob" and S: "sim G own ob s e" and small: "e_rec e \<noteq> None \<Longrightarrow> unat inc \<le> 2 ^ 32 - 4"
  shows "wp (random_op G g inc) (\<lambda>r t. \<exists>e'. espec sd0 (GRandom g inc) (RPhilox r) e e' \<and> sim G own ob t e') whatever s"
  unfolding random_op_def philox_supa_state_def wp_bind
proof (rule wp_conseq [OF wp_status [OF C simD(1) [OF S]]], elim conjE, goal_cases)
  case (1 st t)
  have T: "sim G own ob t e" by (rule sim_quiet [OF S 1(1)])
  have st: "st = CaptureStatusNone \<longleftrightarrow> \<not> capturing_now cur ob t" using quiet_capturing [OF 1(1)] 1(2) by simp
  show ?case
  proof (cases "generators t g")
    case (Some z)
    let ?i = "gen_state z"
    obtain y where y: "gen_states t ?i = Some y" "e_gen e g = Some ?i" "e_pos e ?i = Some (seed y, philox_offset_per_thread y)"
      by (rule sim_lookup [OF T Some])
    show ?thesis
    proof (cases "capturing_now cur ob t")
      case False
      have "wp (increase G ?i inc) (\<lambda>_ v. wp (sx_bind (gs_ref ?i) (\<lambda>x. sx_ret (PhiloxVal (seed x) (philox_offset_per_thread y))))
          (\<lambda>ps. wp (sx_bind (on_gs (getCurrentSUPAStream (GDrv G) (GRt G) (-1))) (\<lambda>stream. sx_bind (on_gs (stream_of stream)) (\<lambda>h.
            sx_seq (on_gw (supa_check (launch_kernel G ps h))) (sx_ret ps))))
            (\<lambda>r t. \<exists>e'. espec sd0 (GRandom g inc) (RPhilox r) e e' \<and> sim G own ob t e') whatever) whatever v) whatever t"
      proof (rule wp_conseq [OF wp_increase [OF C simD(1) [OF T] y(1)]], elim exE conjE, goal_cases)
        case (1 x v u)
        let ?y = "y\<lparr>philox_offset_per_thread := philox_offset_per_thread y + round_increment inc\<rparr>"
        have v: "v = u\<lparr>gen_states := (gen_states u)(?i \<mapsto> ?y)\<rparr>" using 1(2) False by simp
        have U: "sim G own ob u e" "gen_states u ?i = Some y" using sim_quiet [OF T 1(1)] acts_fields(1) [OF 1(1)] y(1) by simp_all
        have V: "streams_settled G own v" "\<not> capturing_now cur ob v" "gen_states v ?i = Some ?y"
          using simD(1) [OF U(1)] quiet_capturing [OF 1(1)] False by (simp_all add: v)
        show ?case
          unfolding wp_bind [where m = "gs_ref ?i"] wp_gs_ref V(3) option.case wp_ret
        proof (rule wp_conseq [OF wp_launch [OF C V(1)]], elim exE conjE, goal_cases)
          case (1 r w h)
          then have "stream_captures (seen ob v) h = None" using V(2) by (auto simp: capturing_now_def)
          then have "sim G own ob w (draw (?i, inc) e)" using sim_draw [OF U _ v, where u = w and cur = cur] 1(3) by simp
          then show ?case using y 1(1) by (intro exI [of _ "draw (?i, inc) e"]) (simp add: at_state_def)
        qed simp
      qed simp
      then show ?thesis using st False by (simp add: Some y(1) wp_if del: wp_field espec.simps)
    next
      case True
      let ?k = "\<lambda>ps. sx_bind (on_gs (getCurrentSUPAStream (GDrv G) (GRt G) (-1))) (\<lambda>stream. sx_bind (on_gs (stream_of stream)) (\<lambda>h.
            sx_seq (on_gw (supa_check (launch_kernel G ps h))) (sx_ret ps)))"
      have "wp (increase G ?i inc) (\<lambda>_ v. wp (sx_bind (gs_ref ?i) (\<lambda>x. sx_bind (data_ptr (seed_extragraph x)) (\<lambda>p.
          sx_bind (data_ptr (offset_extragraph x)) (\<lambda>q. sx_ret (PhiloxPtr p q (offset_intragraph y))))))
          (\<lambda>ps. wp (?k ps) (\<lambda>r t. \<exists>e'. espec sd0 (GRandom g inc) (RPhilox r) e e' \<and> sim G own ob t e') whatever) whatever v) whatever t"
      proof (rule wp_conseq [OF wp_increase [OF C simD(1) [OF T] y(1)]], elim exE conjE, goal_cases)
        case (1 x v u)
        let ?y = "y\<lparr>offset_intragraph := ucast (ucast (offset_intragraph y) + round_increment inc)\<rparr>"
        have v: "v = u\<lparr>gen_states := (gen_states u)(?i \<mapsto> ?y)\<rparr>" and cap: "gs_capturing y"
          and b: "ucast (offset_intragraph y) \<le> (0xFFFFFFFF :: 64 word) - round_increment inc" using 1(2) True by auto
        have U: "sim G own ob u e" "gen_states u ?i = Some y" using sim_quiet [OF T 1(1)] acts_fields(1) [OF 1(1)] y(1) by simp_all
        have now: "capturing_now cur ob u" using quiet_capturing [OF 1(1)] True by simp
        have V: "streams_settled G own v" "gen_states v ?i = Some ?y" using simD(1) [OF U(1)] by (simp_all add: v)
        have rec: "e_rec e \<noteq> None" by (rule capture_under_way [OF U(1) now U(2) cap]) simp
        show ?case
        proof (cases "seed_extragraph y = None \<or> offset_extragraph y = None")
          case False
          then obtain p q where p: "seed_extragraph y = Some p" "offset_extragraph y = Some q" by auto
          have "wp (?k (PhiloxPtr p q (offset_intragraph y))) (\<lambda>r t. \<exists>e'. espec sd0 (GRandom g inc) (RPhilox r) e e' \<and> sim G own ob t e') whatever v"
          proof (rule wp_conseq [OF wp_launch [OF C V(1)]], elim exE conjE, goal_cases)
            case (1 r w h)
            from sim_record [OF U(1) now U(2) cap small [OF rec] b v 1(2) 1(3) p]
            obtain gr rs where "e_rec e = Some (gr, rs)" "sim G own ob w (e\<lparr>e_rec := Some (gr, rs @ [(?i, inc)])\<rparr>)" by blast
            then show ?case using y 1(1) by (intro exI [of _ "e\<lparr>e_rec := Some (gr, rs @ [(?i, inc)])\<rparr>"]) (simp add: at_state_def)
          qed simp
          then show ?thesis using p by (simp add: V(2) data_ptr_def del: wp_field espec.simps)
        qed (auto simp: V(2) data_ptr_def simp del: wp_field espec.simps split: option.splits)
      qed simp
      then show ?thesis using st True by (simp add: Some y(1) wp_if del: wp_field espec.simps)
    qed
  qed simp
qed simp

end
