(* ===== verification/Graph_Ops.thy ===== *)
theory Graph_Ops
  imports Graph_Random
begin

text \<open>
  Making, registering, resetting and destroying graphs, and changes of the current stream and device,
  keep the simulation with the reference.
\<close>

section \<open>Parts of the state that stay\<close>

definition leaves :: "('s \<Rightarrow> 'f) \<Rightarrow> ('s, exn, 'a) sx \<Rightarrow> bool" where
  "leaves f m \<longleftrightarrow> (\<forall>s. f (snd (m s)) = f s)"

lemma leaves_bind: "leaves f m \<Longrightarrow> (\<And>x. leaves f (k x)) \<Longrightarrow> leaves f (sx_bind m k)"
  unfolding leaves_def sx_bind_def by (auto split: prod.splits sum.splits) (metis snd_conv)+

lemma leaves_seq: "leaves f m \<Longrightarrow> leaves f k \<Longrightarrow> leaves f (sx_seq m k)"
  unfolding sx_seq_def by (rule leaves_bind)

lemma leaves_ret: "leaves f (sx_ret x)" and leaves_throw: "leaves f (sx_throw e)" and leaves_get: "leaves f (sx_get g)"
  and leaves_check: "leaves f (sx_check b e)"
  by (simp_all add: leaves_def sx_defs)

lemma leaves_mod: "(\<And>s. f (g s) = f s) \<Longrightarrow> leaves f (sx_mod g)"
  by (simp add: leaves_def sx_mod_def)

lemma leaves_if: "leaves f m \<Longrightarrow> leaves f k \<Longrightarrow> leaves f (if b then m else k)"
  by simp

lemma leaves_once: "leaves f m \<Longrightarrow> (\<And>s. f (mark s) = f s) \<Longrightarrow> leaves f (sx_once flag mark m)"
  unfolding sx_once_def by (intro leaves_bind leaves_get leaves_if leaves_ret leaves_seq leaves_mod)

lemma leaves_option: "leaves f m \<Longrightarrow> (\<And>x. leaves f (k x)) \<Longrightarrow> leaves f (case z of None \<Rightarrow> m | Some x \<Rightarrow> k x)"
  by (cases z) simp_all

lemma leaves_nca: "leaves graph_objs (on_nca m)"
  by (auto simp: leaves_def sx_field_def split: prod.splits)

lemma leaves_refs: "leaves f (gs_ref i)" "leaves f (gen_ref g)"
  by (simp_all add: leaves_def gs_ref_def gen_ref_def split: option.splits)

lemma leaves_sets: "leaves graph_objs (set_gs i f)" "leaves graph_objs (new_gs x)" "leaves graph_objs (set_gen g h)" "leaves graph_objs (new_gen y)"
  unfolding set_gs_def new_gs_def set_gen_def new_gen_def by (intro leaves_bind leaves_refs leaves_seq leaves_mod leaves_get leaves_ret; simp)+

lemmas leaves_intros = leaves_bind leaves_seq leaves_ret leaves_throw leaves_get leaves_check leaves_if leaves_once leaves_option
  leaves_nca leaves_refs leaves_sets

lemma leaves_status: "leaves graph_objs (assertNotCapturing G msg)"
  unfolding assertNotCapturing_def currentStreamCaptureStatus_def currentStreamCaptureStatusMayInitCtx_def by (intro leaves_intros)

lemma leaves_default: "leaves graph_objs (getDefaultSUPAGenerator G i)"
  unfolding getDefaultSUPAGenerator_def init_gens_def initSUPAGenVector_def default_at_def make_default_def SUPAGeneratorImpl_ctor_def
    gen_seed_def set_current_seed_def
  by (intro leaves_intros leaves_status leaves_mod) simp_all

lemma leaves_wp: "leaves f m \<Longrightarrow> wp m (\<lambda>_ t. f t = f s) whatever s"
  unfolding leaves_def wp_def by (auto split: prod.splits sum.splits) (metis snd_conv)

section \<open>Graph objects\<close>

text \<open>What the relation says of a graph object depends on these parts of it.\<close>

definition same_graph :: "SUPAGraph \<Rightarrow> SUPAGraph \<Rightarrow> bool" where
  "same_graph y y' \<longleftrightarrow> graph_exec y' = graph_exec y \<and> has_graph_exec y' = has_graph_exec y
     \<and> captured_generator_states y' = captured_generator_states y \<and> capture_stream y' = capture_stream y"

lemma captured_same_graph: "same_graph y y' \<Longrightarrow> captured S X y' rs = captured S X y rs"
  by (simp add: captured_def same_graph_def)

lemma graph_upd_cases: "(H(gr \<mapsto> y')) gr' = Some z \<Longrightarrow> (gr' = gr \<and> z = y') \<or> (gr' \<noteq> gr \<and> H gr' = Some z)"
  by (auto split: if_splits)

lemma graphs_ok_graph:
  assumes "graphs_ok S H" and "finite (members y')" and "\<And>i. i \<in> members y' \<Longrightarrow> \<exists>x. S i = Some x \<and> gr \<in> registered_graphs x"
  shows "graphs_ok S (H(gr \<mapsto> y'))"
  unfolding graphs_ok_def
proof (intro allI impI)
  fix gr' z assume "(H(gr \<mapsto> y')) gr' = Some z"
  then show "finite (members z) \<and> (\<forall>i \<in> members z. \<exists>x. S i = Some x \<and> gr' \<in> registered_graphs x)"
    using assms graph_upd_cases unfolding graphs_ok_def by (metis (no_types, lifting))
qed

lemma captures_ok_graph:
  assumes K: "captures_ok S H X eg" and "has_graph_exec y' \<Longrightarrow> (\<exists>rs. eg' gr = Some rs \<and> captured S X' y' rs)"
    and "\<And>gr'. gr' \<noteq> gr \<Longrightarrow> eg' gr' = eg gr'"
    and "\<And>gr' z. has_graph_exec y' \<Longrightarrow> H gr' = Some z \<Longrightarrow> has_graph_exec z \<Longrightarrow> gr' \<noteq> gr \<Longrightarrow> graph_exec z \<noteq> graph_exec y'"
    and X: "\<And>gr' z. H gr' = Some z \<Longrightarrow> has_graph_exec z \<Longrightarrow> gr' \<noteq> gr \<Longrightarrow> X' (graph_exec z) = X (graph_exec z)"
  shows "captures_ok S (H(gr \<mapsto> y')) X' eg'"
  unfolding captures_ok_def
proof (intro conjI allI impI)
  fix gr' z assume z: "(H(gr \<mapsto> y')) gr' = Some z" "has_graph_exec z"
  show "\<exists>rs. eg' gr' = Some rs \<and> captured S X' z rs"
  proof (cases "gr' = gr")
    case True
    then show ?thesis using z assms(2) by simp
  next
    case False
    then have h: "H gr' = Some z" using z(1) by simp
    then obtain rs where "eg gr' = Some rs" "captured S X z rs" using K z(2) unfolding captures_ok_def by blast
    then show ?thesis using assms(3) False X [OF h z(2) False] by (auto simp: captured_def)
  qed
next
  fix gr1 gr2 y z assume "(H(gr \<mapsto> y')) gr1 = Some y" "(H(gr \<mapsto> y')) gr2 = Some z" "has_graph_exec y" "has_graph_exec z" "gr1 \<noteq> gr2"
  then show "graph_exec y \<noteq> graph_exec z"
    using K assms(4) unfolding captures_ok_def by (cases "gr1 = gr"; cases "gr2 = gr") fastforce+
qed

lemma captures_ok_exec: "captures_ok S H X eg \<Longrightarrow> H gr = Some y \<Longrightarrow> has_graph_exec y \<Longrightarrow> \<exists>rs. eg gr = Some rs \<and> captured S X y rs"
  unfolding captures_ok_def by blast

lemma captures_ok_distinct:
  "captures_ok S H X eg \<Longrightarrow> H gr = Some y \<Longrightarrow> H gr' = Some z \<Longrightarrow> has_graph_exec y \<Longrightarrow> has_graph_exec z \<Longrightarrow> gr' \<noteq> gr \<Longrightarrow> graph_exec z \<noteq> graph_exec y"
  unfolding captures_ok_def by metis

lemma sim_same_graph:
  assumes S: "sim G own ob s e" and y: "graph_objs s gr = Some y" and g: "same_graph y y'"
  shows "sim G own ob (s\<lparr>graph_objs := (graph_objs s)(gr \<mapsto> y')\<rparr>) e" (is "sim _ _ _ ?t _")
proof -
  note D = simD [OF S]
  have m: "members y' = members y" using g by (simp add: same_graph_def)
  have "positions ?t = positions s" "gen_map ?t = gen_map s" by (simp_all add: positions_def gen_map_def fun_eq_iff)
  moreover have "objects_ok ?t" using D(2) y unfolding objects_ok_def by auto
  moreover have "graphs_ok (gen_states s) ((graph_objs s)(gr \<mapsto> y'))"
    by (rule graphs_ok_graph [OF D(7)]) (use D(7) y in \<open>auto simp: graphs_ok_def m\<close>)
  moreover have "captures_ok (gen_states s) ((graph_objs s)(gr \<mapsto> y')) (exec_nodes (seen ob s)) (e_graph e)"
    by (rule captures_ok_graph [OF D(8)])
      (use captures_ok_exec [OF D(8) y] captures_ok_distinct [OF D(8) y] g captured_same_graph [OF g] in \<open>auto simp: same_graph_def\<close>)
  moreover have "capture_ok ?t C r" if c: "capture_ok s C r" for C r
  proof (cases r)
    case (Some q)
    obtain gr' rs where q: "q = (gr', rs)" by fastforce
    obtain z h ns where z: "graph_objs s gr' = Some z" "raw_stream (capture_stream z) s = Inr h" "C = (\<lambda>_. None)(h \<mapsto> ns)" "recording (gen_states s) ns z rs"
      using c by (auto simp: capture_ok_def Some q)
    have "\<exists>z'. graph_objs ?t gr' = Some z' \<and> raw_stream (capture_stream z') s = Inr h \<and> recording (gen_states s) ns z' rs"
      using z y g by (cases "gr' = gr") (auto simp: same_graph_def recording_def)
    then show ?thesis using z(3) by (auto simp: capture_ok_def Some q)
  qed (use c in \<open>simp add: capture_ok_def\<close>)
  ultimately show ?thesis using D by (simp add: sim_def)
qed

text \<open>A new graph.\<close>

lemma wp_graph:
  assumes C: "graph_calls_ok G cur own ob" and S: "sim G own ob s e"
  shows "wp (SUPAGraph_ctor G) (\<lambda>_ t. sim G own ob t e) whatever s"
  unfolding SUPAGraph_ctor_def wp_bind
proof (rule wp_conseq [OF wp_current_stream [OF C simD(1) [OF S]]], elim conjE, goal_cases)
  case (1 stream t)
  note T = sim_quiet [OF S 1(2)]
  note D = simD [OF T]
  define y' where "y' = \<lparr>graph_handle = 0, graph_exec = 0, has_graph = False, has_graph_exec = False, capture_id = 2 ^ 64 - 1, mempool_id = (0, 0),
      capture_stream = stream, captured_generator_states = (\<lambda>_. None), capture_dev = -1\<rparr>"
  let ?gr = "next_graph t"
  let ?t = "t\<lparr>next_graph := Suc ?gr, graph_objs := (graph_objs t)(?gr \<mapsto> y')\<rparr>"
  have n: "graph_objs t ?gr = None" using D(2) by (simp add: objects_ok_def)
  have "positions ?t = positions t" "gen_map ?t = gen_map t" by (simp_all add: positions_def gen_map_def fun_eq_iff)
  moreover have "objects_ok ?t" using D(2) by (auto simp: objects_ok_def)
  moreover have "graphs_ok (gen_states t) ((graph_objs t)(?gr \<mapsto> y'))" by (rule graphs_ok_graph [OF D(7)]) (simp_all add: y'_def)
  moreover have "captures_ok (gen_states t) ((graph_objs t)(?gr \<mapsto> y')) (exec_nodes (seen ob t)) (e_graph e)"
    by (rule captures_ok_graph [OF D(8)]) (simp_all add: y'_def)
  moreover have "capture_ok ?t C r" if c: "capture_ok t C r" for C r
  proof (cases r)
    case (Some q)
    obtain gr' rs where q: "q = (gr', rs)" by fastforce
    then have "gr' \<noteq> ?gr" using c n by (auto simp: capture_ok_def Some)
    then show ?thesis using c by (simp add: capture_ok_def Some q)
  qed (use c in \<open>simp add: capture_ok_def\<close>)
  ultimately have "sim G own ob ?t e" using D by (simp add: sim_def)
  then show ?case by (simp add: y'_def)
qed simp

text \<open>A graph is no longer there; the reference forgets it.\<close>

lemma sim_without_graph:
  assumes S: "sim G own ob s e" and "e_rec e = None"
  shows "sim G own ob (s\<lparr>graph_objs := (graph_objs s)(gr := None)\<rparr>) (e\<lparr>e_graph := (e_graph e)(gr := None)\<rparr>)" (is "sim _ _ _ ?t _")
proof -
  note D = simD [OF S]
  have "positions ?t = positions s" "gen_map ?t = gen_map s" by (simp_all add: positions_def gen_map_def fun_eq_iff)
  moreover have "objects_ok ?t" using D(2) by (auto simp: objects_ok_def)
  moreover have "graphs_ok (gen_states s) ((graph_objs s)(gr := None))" using D(7) unfolding graphs_ok_def by (auto split: if_splits)
  moreover have "captures_ok (gen_states s) ((graph_objs s)(gr := None)) (exec_nodes (seen ob s)) ((e_graph e)(gr := None))"
    using D(8) unfolding captures_ok_def by (auto split: if_splits)
  moreover have "capture_ok ?t C None" if "capture_ok s C None" for C using that by (auto simp: capture_ok_def)
  ultimately show ?thesis using D assms(2) by (simp add: sim_def)
qed

section \<open>Streams and devices\<close>

lemma sim_process:
  assumes S: "sim G own ob s e" and t: "t = s\<lparr>g_nca := g_nca t\<rparr>" and "streams_settled G own t" and "seen ob t = seen ob s"
    and "\<And>x. raw_stream x t = raw_stream x s"
  shows "sim G own ob t e"
proof -
  note D = simD [OF S]
  have F: "gen_states t = gen_states s" "generators t = generators s" "graph_objs t = graph_objs s" "next_state t = next_state s"
    "next_generator t = next_generator s" "next_graph t = next_graph s" by (subst t, simp)+
  have "positions t = positions s" "gen_map t = gen_map s" by (simp_all add: positions_def gen_map_def F fun_eq_iff)
  moreover have "objects_ok t" using D(2) by (simp add: objects_ok_def F)
  moreover have "capture_ok t C r = capture_ok s C r" for C r by (cases r) (auto simp: capture_ok_def F assms(5))
  ultimately show ?thesis using D assms(3,4) by (simp add: sim_def F)
qed

text \<open>The world of the thread with another device.\<close>

lemma sim_world:
  assumes S: "sim G own ob s e" and t: "t = s\<lparr>g_nca := (g_nca s)\<lparr>p_streams := (g_streams s)\<lparr>st_world := w\<rparr>\<rparr>\<rparr>"
    and "ob (drv w) = seen ob s" and "k_device w < device_count (GDrv G)"
  shows "sim G own ob t e"
proof (rule sim_process [OF S])
  have h: "raw_stream x t = raw_stream x s" for x by (simp add: raw_stream_def t stream_of_world)
  then show "raw_stream x t = raw_stream x s" for x .
  show "streams_settled G own t" using simD(1) [OF S] assms(4) by (simp add: streams_settled_def h) (simp add: t)
qed (simp_all add: t assms(3))

lemma wp_device:
  assumes C: "graph_calls_ok G cur own ob" and S: "sim G own ob s e"
  shows "wp (on_gw (set_device (GDrv G) i False)) (\<lambda>_ t. sim G own ob t e) whatever s"
proof -
  note dc = graph_calls(1,3) [OF C]
  have n: "0 < device_count (GDrv G)" using dc(1) unfolding device_calls_ok_def by (metis le_less_trans)
  obtain e' d' where r: "supaSetDevice (GDrv G) i (nca_drv (g_nca s)) = (e', d')" by fastforce
  then have "ob d' = seen ob s" using dc(2) unfolding device_neutral_def by (metis snd_conv)
  then have "sim G own ob (s\<lparr>g_nca := (g_nca s)\<lparr>p_streams := (g_streams s)\<lparr>st_world := (g_world s)\<lparr>k_device := -1, drv := d\<rparr>\<rparr>\<rparr>\<rparr>) e"
    if "d = nca_drv (g_nca s) \<or> d = d'" for d
    using that n by (intro sim_world [OF S refl]) auto
  from this [of "nca_drv (g_nca s)"] this [of d'] show ?thesis
    using dc(1) r by (auto simp: set_device_def SetDevice_def device_calls_ok_def wp_if)
qed

lemma raw_stream_current: "fst (stream_of x (st\<lparr>current_streams := cs\<rparr>)) = fst (stream_of x st)"
  by (auto simp: stream_of_def streamIdType_def sx_defs check_at_def Let_def split: prod.splits)

lemma wp_set_stream:
  assumes C: "graph_calls_ok G cur own ob" and S: "sim G own ob s e"
    and x: "0 \<le> s_device x" and "\<And>h. raw_stream x s = Inr h \<Longrightarrow> h \<in> own (s_device x)"
  shows "wp (on_gs (setCurrentSUPAStream (GDrv G) (GRt G) x)) (\<lambda>_ t. sim G own ob t e) whatever s"
proof -
  obtain cs where cs: "current_streams (g_streams s) = Some cs" "init_flag (g_streams s)" "num_gpus (g_streams s) = device_count (GDrv G)"
    "\<And>i h. 0 \<le> i \<Longrightarrow> i < device_count (GDrv G) \<Longrightarrow> raw_stream (SUPAStreamForId i (cs i)) s = Inr h \<Longrightarrow> h \<in> own i"
    using simD(1) [OF S] unfolding streams_settled_def by blast
  let ?t = "s\<lparr>g_nca := (g_nca s)\<lparr>p_streams := (g_streams s)\<lparr>current_streams := Some (cs(s_device x := s_id x))\<rparr>\<rparr>\<rparr>"
  have h: "raw_stream z ?t = raw_stream z s" for z by (simp add: raw_stream_def raw_stream_current)
  have "SUPAStreamForId (s_device x) (s_id x) = x" by (simp add: SUPAStreamForId_def)
  then have "streams_settled G own ?t" using simD(1) [OF S] cs assms(4) by (auto simp: streams_settled_def h)
  then have "sim G own ob ?t e" using h by (intro sim_process [OF S]) simp_all
  then show ?thesis using cs x by (auto simp: setCurrentSUPAStream_def initSUPAStreamsOnce_def current_at_def)
qed

end
