(* ===== verification/Graph_Register.thy ===== *)
theory Graph_Register
  imports Graph_Ops
begin

text \<open>
  Registering a generator with a graph, which gives its state two tensors when it had none, and the end
  of a graph, which takes them back from the states that no other graph needs.
\<close>

section \<open>Registering\<close>

definition attached :: "graph_obs \<Rightarrow> graph_obs \<Rightarrow> nat \<Rightarrow> SUPAGeneratorState \<Rightarrow> SUPAGeneratorState \<Rightarrow> bool" where
  "attached u v gr x x' \<longleftrightarrow> seed x' = seed x \<and> philox_offset_per_thread x' = philox_offset_per_thread x \<and> gs_capturing x' = gs_capturing x
     \<and> registered_graphs x' = insert gr (registered_graphs x)
     \<and> (if registered_graphs x = {}
        then (\<exists>mem p q. p \<notin> tensors u \<and> q \<notin> tensors u \<and> p \<noteq> q \<and> seed_extragraph x' = Some p \<and> offset_extragraph x' = Some q
          \<and> v = u\<lparr>word_at := mem, tensors := insert q (insert p (tensors u))\<rparr>)
        else seed_extragraph x' = seed_extragraph x \<and> offset_extragraph x' = offset_extragraph x \<and> v = u)"

text \<open>Steps in which the states of the generators are changed on the way.\<close>

lemma acts_states: "acts G cur ob v (s\<lparr>gen_states := S\<rparr>) t \<Longrightarrow> acts G cur ob v s (t\<lparr>gen_states := gen_states s\<rparr>)"
  by (cases s, cases t) (simp add: acts_def)

lemma acts_own_states: "acts G cur ob v s t \<Longrightarrow> acts G cur ob v s (t\<lparr>gen_states := gen_states s\<rparr>)"
  by (cases s, cases t) (simp add: acts_def)

lemma wp_gs_register:
  assumes C: "graph_calls_ok G cur own ob" and S: "streams_settled G own s" and x: "gen_states s i = Some x"
    and none: "registered_graphs x = {} \<Longrightarrow> seed_extragraph x = None \<and> offset_extragraph x = None"
  shows "wp (gs_register_graph G i gr) (\<lambda>_ t. \<exists>v x'. acts G cur ob v s (t\<lparr>gen_states := gen_states s\<rparr>)
      \<and> gen_states t = (gen_states s)(i \<mapsto> x') \<and> attached (seen ob s) v gr x x') whatever s"
    (is "wp _ (\<lambda>_. ?Q) _ _")
  unfolding gs_register_graph_def wp_seq
proof (rule wp_conseq [OF wp_assertNotCapturing [OF C S]], elim conjE, goal_cases)
  case (1 r s1)
  note q1 = 1(1)
  have x1: "gen_states s1 i = Some x" "gen_states s1 = gen_states s" using acts_fields(1) [OF q1] x by simp_all
  let ?reg = "\<lambda>t. wp (set_gs i (\<lambda>x. x\<lparr>registered_graphs := insert gr (registered_graphs x)\<rparr>)) (\<lambda>_. ?Q) whatever t"
  show ?case
  proof (cases "registered_graphs x = {}")
    case False
    let ?x = "x\<lparr>registered_graphs := insert gr (registered_graphs x)\<rparr>"
    let ?t = "s1\<lparr>gen_states := (gen_states s1)(i \<mapsto> ?x)\<rparr>"
    have "acts G cur ob (seen ob s) s (?t\<lparr>gen_states := gen_states s\<rparr>)" using acts_own_states [OF q1] by simp
    moreover have "attached (seen ob s) (seen ob s) gr x ?x" "gen_states ?t = (gen_states s)(i \<mapsto> ?x)" using False x1(2) by (simp_all add: attached_def)
    ultimately have "?Q ?t" by blast
    then show ?thesis using False x1(1) by simp
  next
    case True
    let ?u = "seen ob s"
    have n: "seed_extragraph x = None" "offset_extragraph x = None" using none [OF True] by simp_all
    have u1: "seen ob s1 = ?u" by (rule acts_fields(15) [OF q1])
    have "wp (sx_bind (on_nca (tensor_empty G)) (\<lambda>p. sx_seq (set_gs i (\<lambda>x. x\<lparr>seed_extragraph := Some p\<rparr>))
        (sx_seq (drop_tensor G (seed_extragraph x)) (sx_bind (on_nca (tensor_empty G)) (\<lambda>q.
         sx_seq (set_gs i (\<lambda>x. x\<lparr>offset_extragraph := Some q\<rparr>)) (drop_tensor G (offset_extragraph x))))))) (\<lambda>_. ?reg) whatever s1"
      unfolding wp_bind
    proof (rule wp_conseq [OF wp_tensor_empty [OF C]], elim exE conjE, goal_cases)
      case (1 p s2 mem)
      note p = 1(1)
      have q2: "acts G cur ob (?u\<lparr>word_at := mem, tensors := insert p (tensors ?u)\<rparr>) s s2" using acts_trans [OF q1 1(2)] u1 by simp
      have g2: "gen_states s2 = gen_states s" "seen ob s2 = ?u\<lparr>word_at := mem, tensors := insert p (tensors ?u)\<rparr>"
        using acts_fields(1,15) [OF q2] by simp_all
      let ?s2 = "s2\<lparr>gen_states := (gen_states s2)(i \<mapsto> x\<lparr>seed_extragraph := Some p\<rparr>)\<rparr>"
      have "wp (on_nca (tensor_empty G)) (\<lambda>q. wp (set_gs i (\<lambda>x. x\<lparr>offset_extragraph := Some q\<rparr>)) (\<lambda>_. ?reg) whatever) whatever ?s2"
      proof (rule wp_conseq [OF wp_tensor_empty [OF C]], elim exE conjE, goal_cases)
        case (1 q s3 mem')
        let ?v = "?u\<lparr>word_at := mem', tensors := insert q (insert p (tensors ?u))\<rparr>"
        let ?x = "x\<lparr>seed_extragraph := Some p, offset_extragraph := Some q, registered_graphs := insert gr {}\<rparr>"
        let ?t = "s3\<lparr>gen_states := (gen_states s)(i \<mapsto> ?x)\<rparr>"
        have "acts G cur ob ?v s2 (s3\<lparr>gen_states := gen_states s2\<rparr>)" using acts_states [OF 1(2)] g2(2) by simp
        from acts_own_states [OF acts_trans [OF q2 this]] have q3: "acts G cur ob ?v s (s3\<lparr>gen_states := gen_states s\<rparr>)" by simp
        have g3: "gen_states s3 = (gen_states s)(i \<mapsto> x\<lparr>seed_extragraph := Some p\<rparr>)" using acts_fields(1) [OF 1(2)] g2(1) by simp
        have "attached ?u ?v gr x ?x" using True 1(1) p u1 g2(2) by (auto simp: attached_def)
        then have "?Q ?t" using q3 by (intro exI [of _ ?v] exI [of _ ?x]) simp
        then show ?case using True g3 by simp
      qed simp
      then show ?case using x g2 n by (simp add: drop_tensor_def del: wp_field)
    qed simp
    then show ?thesis using True x1 n by (simp del: wp_field)
  qed
qed simp

text \<open>The relation after a registration, which nothing happens in between.\<close>

lemma own_tensors_known:
  assumes "tensors_ok T S" and "S i = Some x"
  shows "own_tensors x \<subseteq> T"
proof -
  have "has_tensors T x" using assms unfolding tensors_ok_def by blast
  then show ?thesis by (auto simp: has_tensors_def own_tensors_def split: if_splits)
qed

lemma has_tensors_mono: "has_tensors T z \<Longrightarrow> T \<subseteq> T' \<Longrightarrow> has_tensors T' z"
  unfolding has_tensors_def by (cases "registered_graphs z = {}") (simp_all, blast)

lemma tensors_ok_entries:
  assumes "tensors_ok T S"
    and e: "\<And>j z. S' j = Some z \<Longrightarrow> \<exists>z0. S j = Some z0 \<and> (has_tensors T z0 \<longrightarrow> has_tensors T' z) \<and> own_tensors z \<subseteq> own_tensors z0"
  shows "tensors_ok T' S'"
  unfolding tensors_ok_def
proof (intro conjI allI impI)
  fix j z assume "S' j = Some z"
  from e [OF this] show "has_tensors T' z" using assms(1) unfolding tensors_ok_def by blast
next
  fix j k z w assume "S' j = Some z" "S' k = Some w" "j \<noteq> k"
  then obtain z0 w0 where "S j = Some z0" "S k = Some w0" "own_tensors z \<subseteq> own_tensors z0" "own_tensors w \<subseteq> own_tensors w0" using e by metis
  moreover from this have "own_tensors z0 \<inter> own_tensors w0 = {}" using assms(1) \<open>j \<noteq> k\<close> unfolding tensors_ok_def by blast
  ultimately show "own_tensors z \<inter> own_tensors w = {}" by blast
qed

lemma tensors_ok_attach:
  assumes T: "tensors_ok (tensors u) S" and x: "S i = Some x" and a: "attached u v gr x x'"
  shows "tensors_ok (tensors v) (S(i \<mapsto> x'))"
proof (cases "registered_graphs x = {}")
  case False
  then have "tensors v = tensors u" "own_tensors x' = own_tensors x" "has_tensors (tensors u) x' = has_tensors (tensors u) x"
    using a by (auto simp: attached_def own_tensors_def has_tensors_def)
  then show ?thesis using x by (intro tensors_ok_entries [OF T]) (auto split: if_splits)
next
  case True
  then obtain p q where p: "p \<notin> tensors u" "q \<notin> tensors u" "p \<noteq> q" "seed_extragraph x' = Some p" "offset_extragraph x' = Some q"
    "tensors v = insert q (insert p (tensors u))" using a by (auto simp: attached_def)
  have own: "own_tensors x' = {p, q}" using p(4,5) by (auto simp: own_tensors_def)
  have new: "has_tensors (tensors v) x'" using a p by (auto simp: has_tensors_def attached_def)
  have old: "has_tensors (tensors v) z" if "S j = Some z" for j z
  proof -
    have "has_tensors (tensors u) z" using T that unfolding tensors_ok_def by blast
    then show ?thesis by (rule has_tensors_mono) (auto simp: p(6))
  qed
  have sep: "own_tensors x' \<inter> own_tensors z = {}" if "S j = Some z" for j z
    using own_tensors_known [OF T that] p(1,2) own by auto
  show ?thesis
    unfolding tensors_ok_def
  proof (intro conjI allI impI)
    fix j z assume "(S(i \<mapsto> x')) j = Some z" then show "has_tensors (tensors v) z" using new old by (cases "j = i") auto
  next
    fix j k z w assume z: "(S(i \<mapsto> x')) j = Some z" "(S(i \<mapsto> x')) k = Some w" "j \<noteq> k"
    then show "own_tensors z \<inter> own_tensors w = {}"
      using T sep [of j] sep [of k] unfolding tensors_ok_def by (cases "j = i"; cases "k = i") (simp_all add: Int_commute)
  qed
qed

text \<open>A state without graphs belongs to no captured graph.\<close>

lemma attach_links:
  assumes "graphs_ok S H" and "H gr' = Some z" and "j \<in> members z" and "S i = Some x" and "attached u v gr x x'"
  shows "seed_at (S(i \<mapsto> x')) j = seed_at S j \<and> offset_at (S(i \<mapsto> x')) j = offset_at S j"
proof (cases "j = i")
  case True
  have "\<exists>x0. S j = Some x0 \<and> gr' \<in> registered_graphs x0" using assms(1-3) unfolding graphs_ok_def by blast
  then have "registered_graphs x \<noteq> {}" using True assms(4) by auto
  then show ?thesis using True assms(4,5) by (simp add: attached_def)
qed simp

lemma captured_links:
  assumes "captured S X y rs" and "\<And>j. j \<in> members y \<Longrightarrow> seed_at S' j = seed_at S j \<and> offset_at S' j = offset_at S j"
  shows "captured S' X y rs"
proof -
  have "plays S' ns rs = plays S ns rs" for ns
    by (rule plays_cong) (use assms in \<open>unfold captured_def, blast\<close>)
  then show ?thesis using assms(1) by (simp add: captured_def)
qed

lemma sim_attach:
  assumes S: "sim G own ob s e" and rec: "e_rec e = None" and y: "graph_objs s gr = Some y" "\<not> has_graph_exec y" and x: "gen_states s i = Some x"
    and a: "attached (seen ob s) v gr x x'" and t: "acts G cur ob v s (t\<lparr>gen_states := gen_states s, graph_objs := graph_objs s\<rparr>)"
    and tS: "gen_states t = (gen_states s)(i \<mapsto> x')"
    and tH: "graph_objs t = (graph_objs s)(gr \<mapsto> y\<lparr>captured_generator_states := (captured_generator_states y)(i \<mapsto> 0)\<rparr>)"
  shows "sim G own ob t e"
proof -
  note D = simD [OF S] and F = acts_fields [OF t, simplified] and T = acts_streams [OF t, simplified]
  let ?y = "y\<lparr>captured_generator_states := (captured_generator_states y)(i \<mapsto> 0)\<rparr>"
  have v: "consumed v = consumed (seen ob s)" "exec_nodes v = exec_nodes (seen ob s)" "stream_captures v = stream_captures (seen ob s)"
    using a by (auto simp: attached_def split: if_splits)
  have x': "seed x' = seed x" "philox_offset_per_thread x' = philox_offset_per_thread x" "gs_capturing x' = gs_capturing x"
    "gr \<in> registered_graphs x'" "registered_graphs x \<subseteq> registered_graphs x'" using a by (auto simp: attached_def)
  have "positions t = positions s" "gen_map t = gen_map s" using x x'(1,2) by (auto simp: positions_def gen_map_def F tS fun_eq_iff)
  moreover have "objects_ok t" using D(2) x y unfolding objects_ok_def F tS tH by (auto split: if_splits)
  moreover have "tensors_ok (tensors v) (gen_states t)" unfolding tS by (rule tensors_ok_attach [OF D(6) x a])
  moreover have "graphs_ok (gen_states t) (graph_objs t)"
    unfolding tH
  proof (rule graphs_ok_graph)
    have "\<exists>z. (gen_states t) j = Some z \<and> gr' \<in> registered_graphs z" if "\<exists>z. gen_states s j = Some z \<and> gr' \<in> registered_graphs z" for j gr'
      using that x x'(5) by (cases "j = i") (auto simp: tS)
    then show g: "graphs_ok (gen_states t) (graph_objs s)" using D(7) unfolding graphs_ok_def by blast
    show "finite (members ?y)" using D(7) y(1) unfolding graphs_ok_def by simp
    show "\<exists>z. gen_states t j = Some z \<and> gr \<in> registered_graphs z" if m: "j \<in> members ?y" for j
    proof (cases "j = i")
      case True
      then show ?thesis using x'(4) by (simp add: tS)
    next
      case False
      then have "j \<in> members y" using m by simp
      then show ?thesis using g y(1) unfolding graphs_ok_def by blast
    qed
  qed
  moreover have "captures_ok (gen_states t) (graph_objs t) (exec_nodes v) (e_graph e)"
    unfolding tH
  proof (rule captures_ok_graph)
    have "captured (gen_states t) X z rs" if z: "graph_objs s gr' = Some z" "captured (gen_states s) X z rs" for gr' z X rs
      unfolding tS by (rule captured_links [OF z(2)]) (rule attach_links [OF D(7) z(1) _ x a])
    then show "captures_ok (gen_states t) (graph_objs s) (exec_nodes (seen ob s)) (e_graph e)" using D(8) unfolding captures_ok_def by blast
  qed (use y v in simp_all)
  moreover have "capture_ok t (stream_captures v) (e_rec e)"
    using D(9) x x'(3) v(3) by (auto simp: capture_ok_def rec tS)
  ultimately show ?thesis using D T(3) v(1) by (simp add: sim_def F)
qed

lemma wp_register:
  assumes C: "graph_calls_ok G cur own ob" and S: "sim G own ob s e" and rec: "e_rec e = None" and y: "graph_objs s gr = Some y" "\<not> has_graph_exec y"
  shows "wp (gen_register_graph G g gr) (\<lambda>_ t. sim G own ob t e
    \<and> (\<exists>y'. graph_objs t gr = Some y' \<and> \<not> has_graph_exec y' \<and> members y' \<noteq> {})) whatever s"
proof (cases "generators s g")
  case (Some z)
  let ?i = "gen_state z" and ?y = "y\<lparr>captured_generator_states := (captured_generator_states y)(gen_state z \<mapsto> 0)\<rparr>"
  obtain x where x: "gen_states s ?i = Some x" by (rule sim_lookup [OF S Some])
  let ?s = "s\<lparr>graph_objs := (graph_objs s)(gr \<mapsto> ?y)\<rparr>"
  have none: "registered_graphs x = {} \<Longrightarrow> seed_extragraph x = None \<and> offset_extragraph x = None"
    using simD(6) [OF S] x unfolding tensors_ok_def has_tensors_def by metis
  have st: "streams_settled G own ?s" and xs: "gen_states ?s ?i = Some x" using simD(1) [OF S] x by simp_all
  have "wp (gs_register_graph G ?i gr) (\<lambda>_ t. sim G own ob t e \<and> (\<exists>y'. graph_objs t gr = Some y' \<and> \<not> has_graph_exec y' \<and> members y' \<noteq> {})) whatever ?s"
  proof (rule wp_conseq [OF wp_gs_register [OF C st xs none]], goal_cases)
    case (2 r t)
    then obtain v x' where v: "acts G cur ob v ?s (t\<lparr>gen_states := gen_states s\<rparr>)" "gen_states t = (gen_states s)(?i \<mapsto> x')"
      "attached (seen ob s) v gr x x'" by auto
    have H: "graph_objs t = (graph_objs s)(gr \<mapsto> ?y)" using acts_fields(3) [OF v(1)] by simp
    have "acts G cur ob v s (t\<lparr>gen_states := gen_states s, graph_objs := graph_objs s\<rparr>)"
      using v(1) by (cases s, cases t) (simp add: acts_def)
    from sim_attach [OF S rec y x v(3) this v(2) H] show ?case using H y(2) by simp
  qed simp_all
  then show ?thesis by (simp add: gen_register_graph_def register_generator_state_def Some y)
qed (simp add: gen_register_graph_def)

end
