(* ===== verification/Graph_Release.thy ===== *)
theory Graph_Release
  imports Graph_Register
begin

text \<open>
  The end of graphs: a reset gives the executable graph back, and the destructor also takes the graph
  from the states of its generators, which drop their tensors when no other graph needs them.
\<close>

section \<open>Dumping\<close>

lemma destroys_does: "destroys cur ob f P \<Longrightarrow> does cur ob f P"
  unfolding destroys_def does_def by blast

lemma wp_dump:
  assumes C: "graph_calls_ok G cur own ob" and S: "sim G own ob s e"
  shows "wp (debug_dump G gr path) (\<lambda>_ t. sim G own ob t e) whatever s"
proof (cases "supa_graphs_debug s \<and> (\<exists>y. graph_objs s gr = Some y \<and> has_graph y)")
  case True
  then obtain y where y: "graph_objs s gr = Some y" "has_graph y" "supa_graphs_debug s" by blast
  let ?clear = "set_graph gr (\<lambda>x. x\<lparr>has_graph := False\<rparr>)"
  have "wp (check_graph_warn G (supaGraphDebugDotPrint G (graph_handle y) path)) (\<lambda>_. wp (on_gw (supa_check (supaGraphDestroy G (graph_handle y))))
      (\<lambda>_. wp ?clear (\<lambda>_ t. sim G own ob t e) whatever) whatever) whatever s"
  proof (rule wp_conseq [OF wp_check_graph_warn [OF C graph_calls(15) [OF C]]], goal_cases)
    case (1 x t)
    then have q: "quiet G cur ob s t" by blast
    have T: "sim G own ob t e" by (rule sim_quiet [OF S q])
    show ?case
    proof (rule wp_conseq [OF wp_does [where G = G, OF destroys_does [OF graph_calls(16) [OF C]]]], elim exE conjE, goal_cases)
      case (1 x u v w)
      then have U: "sim G own ob u e" by (intro sim_acts [OF T 1(1)]) simp_all
      have "graph_objs u gr = Some y" using acts_fields(3) [OF 1(1)] acts_fields(3) [OF q] y(1) by simp
      then show ?case using sim_same_graph [OF U, of gr y "y\<lparr>has_graph := False\<rparr>"] by (simp add: same_graph_def)
    qed simp
  qed simp
  then show ?thesis using y by (simp add: debug_dump_def del: wp_field wp_set_graph)
next
  case False
  then show ?thesis using S by (auto simp: debug_dump_def split: option.splits)
qed

section \<open>Resetting\<close>

lemma acts_graphs:
  "acts G cur ob v s t \<Longrightarrow> acts G cur ob v (s\<lparr>graph_objs := H\<rparr>) (t\<lparr>graph_objs := H\<rparr>)"
  "acts G cur ob v (s\<lparr>graph_objs := H\<rparr>) t \<Longrightarrow> acts G cur ob v s (t\<lparr>graph_objs := graph_objs s\<rparr>)"
  by (cases s, cases t, simp add: acts_def)+

text \<open>What a reset of the graph \<open>y\<close> can change of what is observed.\<close>

definition released :: "SUPAGraph \<Rightarrow> graph_obs \<Rightarrow> graph_obs \<Rightarrow> bool" where
  "released y u v \<longleftrightarrow> u\<lparr>graph_nodes := graph_nodes v, exec_nodes := exec_nodes v\<rparr> = v
     \<and> (\<forall>h. exec_nodes v h = exec_nodes u h \<or> (has_graph_exec y \<and> h = graph_exec y))"

lemma released_refl: "released y u u"
  by (simp add: released_def)

lemma released_nodes: "released y u v \<Longrightarrow> w = v\<lparr>graph_nodes := gn\<rparr> \<Longrightarrow> released y u w"
  by (cases u, cases v, simp add: released_def)

lemma released_exec: "released y u v \<Longrightarrow> has_graph_exec y \<Longrightarrow> w = v\<lparr>exec_nodes := (exec_nodes v)(graph_exec y := x)\<rparr> \<Longrightarrow> released y u w"
  by (cases u, cases v, simp add: released_def, blast)

lemma releasedD:
  assumes "released y u v"
  shows "consumed v = consumed u" and "tensors v = tensors u" and "stream_captures v = stream_captures u"
    and "h \<noteq> graph_exec y \<or> \<not> has_graph_exec y \<Longrightarrow> exec_nodes v h = exec_nodes u h"
proof -
  have "u\<lparr>graph_nodes := graph_nodes v, exec_nodes := exec_nodes v\<rparr> = v" using assms by (simp add: released_def)
  then show "consumed v = consumed u" and "tensors v = tensors u" and "stream_captures v = stream_captures u"
    by (cases u, cases v, simp)+
  show "h \<noteq> graph_exec y \<or> \<not> has_graph_exec y \<Longrightarrow> exec_nodes v h = exec_nodes u h" using assms unfolding released_def by blast
qed

lemma wp_reset_raw:
  assumes C: "graph_calls_ok G cur own ob" and y: "graph_objs s gr = Some y"
  shows "wp (reset G gr) (\<lambda>_ t. (\<exists>v. released y (seen ob s) v \<and> acts G cur ob v s (t\<lparr>graph_objs := graph_objs s\<rparr>))
    \<and> graph_objs t = (graph_objs s)(gr \<mapsto> y\<lparr>has_graph := False, has_graph_exec := False\<rparr>)) whatever s"
proof -
  let ?I = "\<lambda>y' t. (\<exists>v. released y (seen ob s) v \<and> acts G cur ob v s (t\<lparr>graph_objs := graph_objs s\<rparr>)) \<and> graph_objs t = (graph_objs s)(gr \<mapsto> y')"
  let ?y1 = "y\<lparr>has_graph := False\<rparr>" and ?y2 = "y\<lparr>has_graph := False, has_graph_exec := False\<rparr>"
  have step: "wp (check_graph_warn G f) (\<lambda>_ u. ?I y' u) whatever t"
    if I: "?I y' t" and f: "destroys cur ob f P" and P: "\<And>v w. released y (seen ob s) v \<Longrightarrow> P v w \<Longrightarrow> released y (seen ob s) w" for f P t y'
  proof (rule wp_conseq [OF wp_check_graph_warn [OF C f]], elim exE conjE, goal_cases)
    case (1 x u w)
    obtain v where v: "released y (seen ob s) v" "acts G cur ob v s (t\<lparr>graph_objs := graph_objs s\<rparr>)" using I by blast
    have "seen ob t = v" using acts_fields(15) [OF v(2)] by simp
    then have "released y (seen ob s) w" using P v(1) 1(1) by simp
    moreover have "acts G cur ob w s (u\<lparr>graph_objs := graph_objs s\<rparr>)" by (rule acts_trans [OF v(2) acts_graphs(1) [OF 1(2)]])
    ultimately show ?case using I acts_fields(3) [OF 1(2)] by auto
  qed simp
  have I0: "?I y s"
    using acts_refl [of G cur ob s] released_refl [of y "seen ob s"] y by (auto simp: fun_upd_idem)
  have exec: "wp (sx_when (has_graph_exec y) (sx_seq (check_graph_warn G (supaGraphExecDestroy G (graph_exec y)))
      (set_graph gr (\<lambda>x. x\<lparr>has_graph_exec := False\<rparr>)))) (\<lambda>_ t. ?I ?y2 t) whatever t" if I: "?I ?y1 t" for t
  proof (cases "has_graph_exec y")
    case True
    show ?thesis
      unfolding wp_when wp_seq
      by (simp add: True del: wp_set_graph, rule wp_conseq [OF step [OF I graph_calls(17) [OF C]]]) (auto elim: released_exec simp: True)
  next
    case False
    then have "?y2 = ?y1" by (cases y) simp
    then show ?thesis using I False by (simp only: wp_when if_False)
  qed
  have graph: "wp (sx_when (has_graph y) (sx_seq (check_graph_warn G (supaGraphDestroy G (graph_handle y)))
      (set_graph gr (\<lambda>x. x\<lparr>has_graph := False\<rparr>)))) (\<lambda>_ t. ?I ?y1 t) whatever t" if I: "?I y t" for t
  proof (cases "has_graph y")
    case True
    show ?thesis
      unfolding wp_when wp_seq
      by (simp add: True del: wp_set_graph, rule wp_conseq [OF step [OF I graph_calls(16) [OF C]]]) (auto elim: released_nodes)
  next
    case False
    then have "?y1 = y" by (cases y) simp
    then show ?thesis using I False by (simp only: wp_when if_False)
  qed
  have pool: "wp (sx_when (has_graph y \<or> has_graph_exec y) (on_nca (native_releasePool (capture_dev y) (mempool_id y)))) (\<lambda>_ t. ?I y t) whatever s"
  proof (cases "has_graph y \<or> has_graph_exec y")
    case True
    have I: "?I y t" if q: "quiet G cur ob s t" for t
      using acts_graphs(1) [OF q, of "graph_objs s"] acts_fields(3) [OF q] released_refl [of y "seen ob s"] y by (auto simp: fun_upd_idem)
    have "wp (on_nca (native_releasePool (capture_dev y) (mempool_id y))) (\<lambda>_ t. ?I y t) whatever s"
      by (rule wp_conseq [OF wp_pool_ops(3) [where G = G and cur = cur and ob = ob]]) (use I in auto)
    then show ?thesis using True by (simp only: wp_when if_True)
  next
    case False
    then show ?thesis using I0 by simp
  qed
  have "wp (sx_when (has_graph y \<or> has_graph_exec y) (on_nca (native_releasePool (capture_dev y) (mempool_id y)))) (\<lambda>_.
      wp (sx_when (has_graph y) (sx_seq (check_graph_warn G (supaGraphDestroy G (graph_handle y))) (set_graph gr (\<lambda>x. x\<lparr>has_graph := False\<rparr>)))) (\<lambda>_.
      wp (sx_when (has_graph_exec y) (sx_seq (check_graph_warn G (supaGraphExecDestroy G (graph_exec y)))
      (set_graph gr (\<lambda>x. x\<lparr>has_graph_exec := False\<rparr>)))) (\<lambda>_ t. ?I ?y2 t) whatever) whatever) whatever s"
  proof (rule wp_conseq [OF pool], goal_cases)
    case (1 x t)
    show ?case by (rule wp_conseq [OF graph [OF 1]], erule exec, rule TrueI)
  qed (rule TrueI)
  then show ?thesis unfolding reset_def wp_bind wp_seq wp_graph_ref y option.case by simp
qed

text \<open>An executable graph that no graph object refers to is gone.\<close>

lemma sim_released:
  assumes S: "sim G own ob s e" and a: "acts G cur ob v s t" and v: "released y (seen ob s) v"
    and out: "\<And>gr z. has_graph_exec y \<Longrightarrow> graph_objs s gr = Some z \<Longrightarrow> has_graph_exec z \<Longrightarrow> graph_exec z \<noteq> graph_exec y"
  shows "sim G own ob t e"
proof -
  note D = simD [OF S] and F = acts_fields [OF a] and T = acts_streams [OF a] and V = releasedD [OF v]
  have "positions t = positions s" "gen_map t = gen_map s" by (simp_all add: positions_def gen_map_def F fun_eq_iff)
  moreover have "objects_ok t" using D(2) by (simp add: objects_ok_def F)
  moreover have "capture_ok t C r = capture_ok s C r" for C r by (cases r) (auto simp: capture_ok_def F T(1))
  moreover have "captures_ok (gen_states s) (graph_objs s) (exec_nodes v) (e_graph e)"
    unfolding captures_ok_def
  proof (intro conjI allI impI)
    fix gr z assume z: "graph_objs s gr = Some z" "has_graph_exec z"
    then obtain rs where "e_graph e gr = Some rs" "captured (gen_states s) (exec_nodes (seen ob s)) z rs" using captures_ok_exec [OF D(8)] by blast
    moreover have "exec_nodes v (graph_exec z) = exec_nodes (seen ob s) (graph_exec z)" using V(4) out [OF _ z] by metis
    ultimately show "\<exists>rs. e_graph e gr = Some rs \<and> captured (gen_states s) (exec_nodes v) z rs" by (auto simp: captured_def)
  qed (use D(8) in \<open>unfold captures_ok_def, blast\<close>)
  ultimately show ?thesis using D T(3) V(1-3) by (simp add: sim_def F)
qed

text \<open>A graph object without an executable graph, of which the reference knows nothing.\<close>

lemma sim_cleared:
  assumes S: "sim G own ob s e" and y: "graph_objs s gr = Some y" and y': "captured_generator_states y' = captured_generator_states y"
      "\<not> has_graph_exec y'" "capture_stream y' = capture_stream y"
  shows "sim G own ob (s\<lparr>graph_objs := (graph_objs s)(gr \<mapsto> y')\<rparr>) (e\<lparr>e_graph := (e_graph e)(gr := None)\<rparr>)" (is "sim _ _ _ ?t _")
proof -
  note D = simD [OF S]
  have "positions ?t = positions s" "gen_map ?t = gen_map s" by (simp_all add: positions_def gen_map_def fun_eq_iff)
  moreover have "objects_ok ?t" using D(2) y unfolding objects_ok_def by auto
  moreover have "graphs_ok (gen_states s) ((graph_objs s)(gr \<mapsto> y'))"
    by (rule graphs_ok_graph [OF D(7)]) (use D(7) y in \<open>auto simp: graphs_ok_def y'\<close>)
  moreover have "captures_ok (gen_states s) ((graph_objs s)(gr \<mapsto> y')) (exec_nodes (seen ob s)) ((e_graph e)(gr := None))"
    by (rule captures_ok_graph [OF D(8)]) (simp_all add: y')
  moreover have "capture_ok ?t C r" if c: "capture_ok s C r" for C r
  proof (cases r)
    case (Some q)
    obtain gr' rs where q: "q = (gr', rs)" by fastforce
    obtain z h ns where z: "graph_objs s gr' = Some z" "raw_stream (capture_stream z) s = Inr h" "C = (\<lambda>_. None)(h \<mapsto> ns)" "recording (gen_states s) ns z rs"
      using c by (auto simp: capture_ok_def Some q)
    have "\<exists>z'. graph_objs ?t gr' = Some z' \<and> raw_stream (capture_stream z') s = Inr h \<and> recording (gen_states s) ns z' rs"
      using z y y' by (cases "gr' = gr") (auto simp: recording_def)
    then show ?thesis using z(3) by (auto simp: capture_ok_def Some q)
  qed (use c in \<open>simp add: capture_ok_def\<close>)
  ultimately show ?thesis using D by (simp add: sim_def)
qed

lemma wp_reset:
  assumes C: "graph_calls_ok G cur own ob" and S: "sim G own ob s e"
  shows "wp (reset G gr) (\<lambda>_ t. sim G own ob t (e\<lparr>e_graph := (e_graph e)(gr := None)\<rparr>)) whatever s"
proof (cases "graph_objs s gr")
  case (Some y)
  let ?y = "y\<lparr>has_graph := False, has_graph_exec := False\<rparr>"
  let ?s = "s\<lparr>graph_objs := (graph_objs s)(gr \<mapsto> ?y)\<rparr>"
  have S': "sim G own ob ?s (e\<lparr>e_graph := (e_graph e)(gr := None)\<rparr>)" by (rule sim_cleared [OF S Some]) simp_all
  show ?thesis
  proof (rule wp_conseq [OF wp_reset_raw [OF C Some]], elim conjE exE, goal_cases)
    case (1 x t v)
    have "acts G cur ob v ?s (t\<lparr>graph_objs := graph_objs ?s\<rparr>)" using acts_graphs(1) [OF 1(3), of "graph_objs ?s"] by simp
    then have a: "acts G cur ob v ?s t" using 1(1) by (cases t) simp
    show ?case
    proof (rule sim_released [OF S' a])
      show "released y (seen ob ?s) v" using 1(2) by simp
      show "graph_exec z \<noteq> graph_exec y" if "has_graph_exec y" "graph_objs ?s gr' = Some z" "has_graph_exec z" for gr' z
        using captures_ok_distinct [OF simD(8) [OF S] Some] that by (auto split: if_splits)
    qed
  qed simp
qed (simp add: reset_def)

section \<open>The destructor\<close>

definition detached :: "graph_obs \<Rightarrow> graph_obs \<Rightarrow> nat \<Rightarrow> SUPAGeneratorState \<Rightarrow> SUPAGeneratorState \<Rightarrow> bool" where
  "detached u v gr x x' \<longleftrightarrow> seed x' = seed x \<and> philox_offset_per_thread x' = philox_offset_per_thread x \<and> gs_capturing x' = gs_capturing x
     \<and> registered_graphs x' = registered_graphs x - {gr}
     \<and> (if registered_graphs x - {gr} = {}
        then seed_extragraph x' = None \<and> offset_extragraph x' = None \<and> (\<exists>mem. v = u\<lparr>word_at := mem, tensors := tensors u - own_tensors x\<rparr>)
        else seed_extragraph x' = seed_extragraph x \<and> offset_extragraph x' = offset_extragraph x \<and> v = u)"

lemma wp_gs_unregister:
  assumes C: "graph_calls_ok G cur own ob" and x: "gen_states s i = Some x" and has: "has_tensors (tensors (seen ob s)) x"
  shows "wp (gs_unregister_graph G i gr) (\<lambda>_ t. \<exists>v x'. acts G cur ob v s (t\<lparr>gen_states := gen_states s\<rparr>)
      \<and> gen_states t = (gen_states s)(i \<mapsto> x') \<and> detached (seen ob s) v gr x x') whatever s"
    (is "wp _ (\<lambda>_. ?Q) _ _")
proof (cases "gr \<in> registered_graphs x")
  case True
  let ?x = "x\<lparr>registered_graphs := registered_graphs x - {gr}\<rparr>" and ?u = "seen ob s"
  show ?thesis
  proof (cases "registered_graphs x - {gr} = {}")
    case False
    let ?t = "s\<lparr>gen_states := (gen_states s)(i \<mapsto> ?x)\<rparr>"
    have "acts G cur ob ?u s (?t\<lparr>gen_states := gen_states s\<rparr>)" using acts_refl [of G cur ob s] by simp
    moreover have "detached ?u ?u gr x ?x" using False by (simp add: detached_def)
    ultimately have "?Q ?t" by (intro exI [of _ ?u] exI [of _ ?x]) simp
    then show ?thesis using True False x by (simp add: gs_unregister_graph_def)
  next
    case none: True
    obtain p q where p: "seed_extragraph x = Some p" "offset_extragraph x = Some q" "p \<noteq> q" "p \<in> tensors ?u" "q \<in> tensors ?u"
      using has True by (auto simp: has_tensors_def split: if_splits)
    let ?x1 = "?x\<lparr>seed_extragraph := None\<rparr>" and ?x2 = "?x\<lparr>seed_extragraph := None, offset_extragraph := None\<rparr>"
    let ?s1 = "s\<lparr>gen_states := (gen_states s)(i \<mapsto> ?x1)\<rparr>"
    let ?off = "set_gs i (\<lambda>x. x\<lparr>offset_extragraph := None\<rparr>)"
    have "wp (drop_tensor G (Some p)) (\<lambda>_. wp ?off (\<lambda>_. wp (drop_tensor G (Some q)) (\<lambda>_. ?Q) whatever) whatever) whatever ?s1"
    proof (rule wp_conseq [OF wp_drop_tensor [OF C]], goal_cases)
      case (2 r t)
      then obtain mem where t: "acts G cur ob (?u\<lparr>word_at := mem, tensors := tensors ?u - {p}\<rparr>) ?s1 t" by auto
      let ?v = "?u\<lparr>word_at := mem, tensors := tensors ?u - {p}\<rparr>"
      have S: "gen_states t = (gen_states s)(i \<mapsto> ?x1)" using acts_fields(1) [OF t] by simp
      let ?t = "t\<lparr>gen_states := (gen_states s)(i \<mapsto> ?x2)\<rparr>"
      have st: "seen ob t = ?v" by (rule acts_fields(15) [OF t])
      have "wp (drop_tensor G (Some q)) (\<lambda>_. ?Q) whatever ?t"
      proof (rule wp_conseq [OF wp_drop_tensor [OF C]], goal_cases)
        case (2 r w)
        then obtain mem' where w: "acts G cur ob (?v\<lparr>word_at := mem', tensors := tensors ?v - {q}\<rparr>) ?t w" using st by auto
        let ?w = "?u\<lparr>word_at := mem', tensors := tensors ?u - own_tensors x\<rparr>"
        have own: "tensors ?u - {p} - {q} = tensors ?u - own_tensors x" using p by (auto simp: own_tensors_def)
        have w': "acts G cur ob ?w ?t w" using w own by simp
        have "acts G cur ob ?w s (w\<lparr>gen_states := gen_states s\<rparr>)"
          using acts_trans [OF acts_states [OF t] acts_states [where s = "t\<lparr>gen_states := gen_states s\<rparr>" and S = "(gen_states s)(i \<mapsto> ?x2)"]] w' by simp
        moreover have "gen_states w = (gen_states s)(i \<mapsto> ?x2)" using acts_fields(1) [OF w'] by simp
        moreover have "detached ?u ?w gr x ?x2" using none by (auto simp: detached_def)
        ultimately show ?case by blast
      qed (use p st in simp_all)
      then show ?case by (simp add: S)
    qed (use p in simp_all)
    moreover have "registered_graphs x \<subseteq> {gr}" using none by simp
    ultimately show ?thesis using True x p(1,2) by (simp add: gs_unregister_graph_def none del: Diff_eq_empty_iff)
  qed
qed (simp add: gs_unregister_graph_def x)

text \<open>The relation after a state lost a graph that is no longer there.\<close>

lemma has_tensors_own: "has_tensors T z \<Longrightarrow> own_tensors z \<subseteq> T' \<Longrightarrow> has_tensors T' z"
  unfolding has_tensors_def own_tensors_def by (cases "registered_graphs z = {}") auto

lemma tensors_ok_detach:
  assumes T: "tensors_ok (tensors u) S" and x: "S i = Some x" and d: "detached u v gr x x'"
  shows "tensors_ok (tensors v) (S(i \<mapsto> x'))"
proof (cases "registered_graphs x - {gr} = {}")
  case False
  then have "tensors v = tensors u" "own_tensors x' = own_tensors x" "has_tensors (tensors u) x' = has_tensors (tensors u) x"
    using d by (auto simp: detached_def own_tensors_def has_tensors_def)
  then show ?thesis using x by (intro tensors_ok_entries [OF T]) (auto split: if_splits)
next
  case True
  then have v: "tensors v = tensors u - own_tensors x" and x': "own_tensors x' = {}" "has_tensors (tensors v) x'"
    using d by (auto simp: detached_def own_tensors_def has_tensors_def)
  show ?thesis
  proof (rule tensors_ok_entries [OF T])
    fix j z assume z: "(S(i \<mapsto> x')) j = Some z"
    show "\<exists>z0. S j = Some z0 \<and> (has_tensors (tensors u) z0 \<longrightarrow> has_tensors (tensors v) z) \<and> own_tensors z \<subseteq> own_tensors z0"
    proof (cases "j = i")
      case True
      then show ?thesis using z x x' by simp
    next
      case False
      then have j: "S j = Some z" using z by simp
      then have "own_tensors z \<inter> own_tensors x = {}" using T x False unfolding tensors_ok_def by blast
      then have "own_tensors z \<subseteq> tensors v" using own_tensors_known [OF T j] v by blast
      then show ?thesis using j has_tensors_own by blast
    qed
  qed
qed

lemma sim_detach:
  assumes S: "sim G own ob s e" and rec: "e_rec e = None" and gone: "graph_objs s gr = None" and x: "gen_states s i = Some x"
    and d: "detached (seen ob s) v gr x x'" and t: "acts G cur ob v s (t\<lparr>gen_states := gen_states s\<rparr>)" and tS: "gen_states t = (gen_states s)(i \<mapsto> x')"
  shows "sim G own ob t e"
proof -
  note D = simD [OF S] and F = acts_fields [OF t, simplified] and T = acts_streams [OF t, simplified]
  have v: "consumed v = consumed (seen ob s)" "exec_nodes v = exec_nodes (seen ob s)" "stream_captures v = stream_captures (seen ob s)"
    using d by (auto simp: detached_def split: if_splits)
  have x': "seed x' = seed x" "philox_offset_per_thread x' = philox_offset_per_thread x" "gs_capturing x' = gs_capturing x"
    "registered_graphs x' = registered_graphs x - {gr}" using d by (auto simp: detached_def)
  have other: "gr' \<noteq> gr" if "graph_objs s gr' = Some z" for gr' z using that gone by auto
  have "positions t = positions s" "gen_map t = gen_map s" using x x'(1,2) by (auto simp: positions_def gen_map_def F tS fun_eq_iff)
  moreover have "objects_ok t" using D(2) x unfolding objects_ok_def F tS by (auto split: if_splits)
  moreover have "tensors_ok (tensors v) (gen_states t)" unfolding tS by (rule tensors_ok_detach [OF D(6) x d])
  moreover have "graphs_ok (gen_states t) (graph_objs s)"
    unfolding graphs_ok_def
  proof (intro allI impI conjI ballI)
    fix gr' z assume z: "graph_objs s gr' = Some z"
    then show "finite (members z)" using D(7) unfolding graphs_ok_def by blast
    fix j assume "j \<in> members z"
    then obtain w where "gen_states s j = Some w" "gr' \<in> registered_graphs w" using z D(7) unfolding graphs_ok_def by blast
    then show "\<exists>w. gen_states t j = Some w \<and> gr' \<in> registered_graphs w" using other [OF z] x x'(4) by (cases "j = i") (auto simp: tS)
  qed
  moreover have "captured (gen_states t) X z rs" if z: "graph_objs s gr' = Some z" "captured (gen_states s) X z rs" for gr' z X rs
  proof (rule captured_links [OF z(2)])
    fix j assume j: "j \<in> members z"
    show "seed_at (gen_states t) j = seed_at (gen_states s) j \<and> offset_at (gen_states t) j = offset_at (gen_states s) j"
    proof (cases "j = i")
      case True
      have "\<exists>w. gen_states s j = Some w \<and> gr' \<in> registered_graphs w" using j z(1) D(7) unfolding graphs_ok_def by blast
      then have "registered_graphs x - {gr} \<noteq> {}" using True x other [OF z(1)] by auto
      then show ?thesis using True x d by (simp add: tS detached_def)
    qed (simp add: tS)
  qed
  then have "captures_ok (gen_states t) (graph_objs s) (exec_nodes v) (e_graph e)" using D(8) unfolding captures_ok_def v by blast
  moreover have "capture_ok t (stream_captures v) (e_rec e)"
    using D(9) x x'(3) v(3) by (auto simp: capture_ok_def rec tS)
  ultimately show ?thesis using D T(3) v(1) by (simp add: sim_def F)
qed

lemma wp_destroy:
  assumes C: "graph_calls_ok G cur own ob" and S: "sim G own ob s e" and rec: "e_rec e = None"
  shows "wp (SUPAGraph_dtor G gr) (\<lambda>_ t. sim G own ob t (e\<lparr>e_graph := (e_graph e)(gr := None)\<rparr>)) whatever s"
proof (cases "graph_objs s gr")
  case (Some y)
  let ?e = "e\<lparr>e_graph := (e_graph e)(gr := None)\<rparr>" and ?H = "(graph_objs s)(gr := None)"
  let ?I = "\<lambda>t. sim G own ob (t\<lparr>graph_objs := ?H\<rparr>) ?e \<and> graph_objs t = graph_objs s"
  have unregister: "wp (gs_unregister_graph G i gr) (\<lambda>_. ?I) whatever t" if I: "?I t" for i t
  proof (cases "gen_states t i")
    case x: (Some x)
    note D = simD [OF conjunct1 [OF I]]
    have has: "has_tensors (tensors (seen ob t)) x" using D(6) x unfolding tensors_ok_def by simp
    show ?thesis
    proof (rule wp_conseq [OF wp_gs_unregister [OF C x has]], elim exE conjE, goal_cases)
      case (1 r t' v x')
      have "acts G cur ob v (t\<lparr>graph_objs := ?H\<rparr>) ((t'\<lparr>graph_objs := ?H\<rparr>)\<lparr>gen_states := gen_states (t\<lparr>graph_objs := ?H\<rparr>)\<rparr>)"
        using acts_graphs(1) [OF 1(1), of ?H] by (cases t') simp
      moreover have "detached (seen ob (t\<lparr>graph_objs := ?H\<rparr>)) v gr x x'" using 1(3) by simp
      ultimately have "sim G own ob (t'\<lparr>graph_objs := ?H\<rparr>) ?e"
        using sim_detach [OF conjunct1 [OF I] _ _ _ , of gr i x v x' cur "t'\<lparr>graph_objs := ?H\<rparr>"] rec x 1(2) by simp
      then show ?case using I acts_fields(3) [OF 1(1)] by simp
    qed simp
  qed (simp add: gs_unregister_graph_def)
  have I0: "?I s" using sim_without_graph [OF S rec] by simp
  have loop: "wp (for_states G gr (\<lambda>i _. gs_unregister_graph G i gr)) (\<lambda>_. ?I) whatever s"
    unfolding for_states_def wp_bind wp_graph_ref Some option.case
  proof (rule wp_for [where I = ?I, OF I0], goal_cases)
    case (1 i t)
    then show ?case using unregister by (cases "captured_generator_states y i") simp_all
  qed
  have "wp (for_states G gr (\<lambda>i _. gs_unregister_graph G i gr)) (\<lambda>_. wp (reset G gr)
      (\<lambda>_ t. sim G own ob (t\<lparr>graph_objs := (graph_objs t)(gr := None)\<rparr>) ?e) whatever) whatever s"
  proof (rule wp_conseq [OF loop], elim conjE, goal_cases)
    case (1 r t)
    have y: "graph_objs t gr = Some y" using 1(2) Some by simp
    show ?case
    proof (rule wp_conseq [OF wp_reset_raw [OF C y]], elim conjE exE, goal_cases)
      case (1 r t' v)
      let ?t = "t\<lparr>graph_objs := ?H\<rparr>" and ?t' = "t'\<lparr>graph_objs := ?H\<rparr>"
      have H: "graph_objs t = graph_objs s" using \<open>graph_objs t = graph_objs s\<close> .
      have a: "acts G cur ob v ?t ?t'" using acts_graphs(1) [OF 1(3), of ?H] by simp
      have "sim G own ob ?t' ?e"
      proof (rule sim_released [OF \<open>sim G own ob ?t ?e\<close> a])
        show "released y (seen ob ?t) v" using 1(2) by simp
        show "graph_exec z \<noteq> graph_exec y" if "has_graph_exec y" "graph_objs ?t gr' = Some z" "has_graph_exec z" for gr' z
          using captures_ok_distinct [OF simD(8) [OF S] Some] that by (auto split: if_splits)
      qed
      then show ?case using 1(1) H by simp
    qed simp
  qed simp
  then show ?thesis by (simp add: SUPAGraph_dtor_def)
qed (simp add: SUPAGraph_dtor_def for_states_def)

end
