(* ===== verification/Graph_Begin.thy ===== *)
theory Graph_Begin
  imports Graph_Release
begin

text \<open>
  The begin of a capture: the states of the graph's generators go into capture mode, the allocator is
  pointed to the graph's pool, and the current stream starts to capture. The reference starts a list.
\<close>

section \<open>Longer steps\<close>

text \<open>A step that changes the device, the states of the generators and the graph objects.\<close>

definition stepped :: "'d genv \<Rightarrow> ('d \<Rightarrow> int) \<Rightarrow> ('d \<Rightarrow> graph_obs) \<Rightarrow> graph_obs \<Rightarrow> (nat \<Rightarrow> SUPAGeneratorState option) \<Rightarrow>
    (nat \<Rightarrow> SUPAGraph option) \<Rightarrow> 'd gst \<Rightarrow> 'd gst \<Rightarrow> bool" where
  "stepped G cur ob v S H s t \<longleftrightarrow> (\<exists>n u. t = s\<lparr>g_nca := n, gen_states := S, graph_objs := H, uuid := u\<rparr> \<and> acts G cur ob v s (s\<lparr>g_nca := n\<rparr>))"

lemma moved_refl: "stepped G cur ob (seen ob s) (gen_states s) (graph_objs s) s s"
  unfolding stepped_def using acts_refl [of G cur ob s] by (intro exI [of _ "g_nca s"] exI [of _ "uuid s"]) simp

lemma moved_acts:
  assumes "stepped G cur ob v S H s t" and "acts G cur ob w t t'"
  shows "stepped G cur ob w S H s t'"
proof -
  obtain n u where n: "t = s\<lparr>g_nca := n, gen_states := S, graph_objs := H, uuid := u\<rparr>" "acts G cur ob v s (s\<lparr>g_nca := n\<rparr>)"
    using assms(1) unfolding stepped_def by blast
  have "t' = t\<lparr>g_nca := g_nca t'\<rparr>" using assms(2) by (simp add: acts_def)
  then have "t' = s\<lparr>g_nca := g_nca t', gen_states := S, graph_objs := H, uuid := u\<rparr>" by (cases s, cases t') (simp add: n(1))
  moreover have "acts G cur ob w s (s\<lparr>g_nca := g_nca t'\<rparr>)"
    using assms(2) n same_process_trans [of "GDrv G" cur "g_nca s" n "g_nca t'"] by (simp add: acts_def)
  ultimately show ?thesis unfolding stepped_def by blast
qed

lemma moved_upd:
  assumes "stepped G cur ob v S H s t"
  shows "stepped G cur ob v S' H s (t\<lparr>gen_states := S'\<rparr>)" and "stepped G cur ob v S H' s (t\<lparr>graph_objs := H'\<rparr>)"
    and "stepped G cur ob v S H s (t\<lparr>uuid := k\<rparr>)"
proof -
  obtain n u where n: "t = s\<lparr>g_nca := n, gen_states := S, graph_objs := H, uuid := u\<rparr>" "acts G cur ob v s (s\<lparr>g_nca := n\<rparr>)"
    using assms unfolding stepped_def by blast
  show "stepped G cur ob v S' H s (t\<lparr>gen_states := S'\<rparr>)" "stepped G cur ob v S H' s (t\<lparr>graph_objs := H'\<rparr>)"
    unfolding stepped_def n(1) by (intro exI [of _ n] exI [of _ u], simp add: n(2))+
  show "stepped G cur ob v S H s (t\<lparr>uuid := k\<rparr>)" unfolding stepped_def n(1) by (intro exI [of _ n] exI [of _ k]) (simp add: n(2))
qed

lemma moved_fields:
  assumes "stepped G cur ob v S H s t"
  shows "gen_states t = S" and "graph_objs t = H" and "seen ob t = v" and "generators t = generators s" and "next_state t = next_state s"
    and "next_generator t = next_generator s" and "next_graph t = next_graph s" and "supa_graphs_debug t = supa_graphs_debug s"
    and "raw_stream x t = raw_stream x s" and "current_stream cur t = current_stream cur s"
    and "streams_settled G own s \<Longrightarrow> streams_settled G own t"
proof -
  obtain n u where n: "t = s\<lparr>g_nca := n, gen_states := S, graph_objs := H, uuid := u\<rparr>" "acts G cur ob v s (s\<lparr>g_nca := n\<rparr>)"
    using assms unfolding stepped_def by blast
  let ?n = "s\<lparr>g_nca := n\<rparr>"
  have t: "t = ?n\<lparr>gen_states := S, graph_objs := H, uuid := u\<rparr>" by (simp add: n(1))
  show "gen_states t = S" "graph_objs t = H" "seen ob t = v" "generators t = generators s" "next_state t = next_state s"
    "next_generator t = next_generator s" "next_graph t = next_graph s" "supa_graphs_debug t = supa_graphs_debug s"
    using acts_fields(15) [OF n(2)] by (simp_all add: n(1))
  show "raw_stream x t = raw_stream x s" using acts_streams(1) [OF n(2)] by (simp add: t)
  show "current_stream cur t = current_stream cur s" using acts_streams(2) [OF n(2)] by (simp add: t current_stream_def)
  show "streams_settled G own s \<Longrightarrow> streams_settled G own t" using acts_streams(3) [OF n(2)] by (simp add: t)
qed

text \<open>The relation after such a step.\<close>

lemma sim_moved:
  assumes S: "sim G own ob s e" and m: "stepped G cur ob v S' H s t"
    and S': "\<And>i. S' i = None \<longleftrightarrow> gen_states s i = None" and H: "\<And>gr. graph_objs s gr = None \<Longrightarrow> H gr = None"
    and e: "e_gen e' = e_gen e" "e_pos e' = (\<lambda>i. map_option (\<lambda>x. (seed x, philox_offset_per_thread x)) (S' i))" "e_out e' = consumed v"
    and ok: "tensors_ok (tensors v) S'" "graphs_ok S' H" "captures_ok S' H (exec_nodes v) (e_graph e')" "capture_ok t (stream_captures v) (e_rec e')"
  shows "sim G own ob t e'"
proof -
  note D = simD [OF S] and F = moved_fields [OF m]
  have "objects_ok t" using D(2) S' H unfolding objects_ok_def F by auto
  moreover have "positions t = e_pos e'" "gen_map t = e_gen e'" using e D(4) by (simp_all add: positions_def gen_map_def F fun_eq_iff)
  ultimately show ?thesis using ok e(3) F(11) [OF D(1)] by (simp add: sim_def F(1-3))
qed

section \<open>States in capture mode\<close>

definition prologued :: "nat set \<Rightarrow> (nat \<Rightarrow> SUPAGeneratorState option) \<Rightarrow> nat \<Rightarrow> SUPAGeneratorState option" where
  "prologued V S i = (if i \<in> V then map_option (\<lambda>x. x\<lparr>gs_capturing := True, offset_intragraph := 0\<rparr>) (S i) else S i)"

lemma prologued_empty: "prologued {} S = S"
  by (simp add: prologued_def fun_eq_iff)

lemma prologued_insert: "S i = Some x \<Longrightarrow> prologued (insert i V) S = (prologued V S)(i \<mapsto> x\<lparr>gs_capturing := True, offset_intragraph := 0\<rparr>)"
  by (auto simp: prologued_def fun_eq_iff)

lemma prologued_links: "seed_at (prologued V S) i = seed_at S i" "offset_at (prologued V S) i = offset_at S i"
  by (cases "S i"; simp add: prologued_def)+

lemma wp_fill:
  assumes C: "graph_calls_ok G cur own ob" and m: "stepped G cur ob (u\<lparr>word_at := mem\<rparr>) S H s t"
    and none: "\<forall>h. stream_captures u h = None" and p: "\<And>p. tn = Some p \<Longrightarrow> p \<in> tensors u"
  shows "wp (fill_tensor G tn v) (\<lambda>_ t'. \<exists>p. tn = Some p \<and> stepped G cur ob (u\<lparr>word_at := mem(p := v)\<rparr>) S H s t') whatever t"
proof (cases tn)
  case (Some p)
  have u: "seen ob t = u\<lparr>word_at := mem\<rparr>" by (rule moved_fields(3) [OF m])
  show ?thesis
    unfolding fill_tensor_def Some option.case
  proof (rule wp_conseq [OF wp_tensor_fill [OF C]], goal_cases)
    case (3 x t')
    then show ?case using moved_acts [OF m] u by simp
  qed (use u none p [OF Some] in simp_all)
qed (simp add: fill_tensor_def)

lemma wp_capture_prologue:
  assumes C: "graph_calls_ok G cur own ob" and m: "stepped G cur ob (u\<lparr>word_at := mem\<rparr>) (prologued V S) H s t"
    and none: "\<forall>h. stream_captures u h = None" and T: "tensors_ok (tensors u) S"
  shows "wp (capture_prologue G i) (\<lambda>_ t'. \<exists>mem. stepped G cur ob (u\<lparr>word_at := mem\<rparr>) (prologued (insert i V) S) H s t') whatever t"
proof (cases "S i")
  case None
  then have "gen_states t i = None" using moved_fields(1) [OF m] by (simp add: prologued_def)
  then show ?thesis by (simp add: capture_prologue_def)
next
  case (Some x)
  have x0: "\<exists>x0. gen_states t i = Some x0 \<and> x0\<lparr>gs_capturing := True, offset_intragraph := 0\<rparr> = x\<lparr>gs_capturing := True, offset_intragraph := 0\<rparr>"
    using moved_fields(1) [OF m] Some by (auto simp: prologued_def)
  then obtain x0 where x0: "gen_states t i = Some x0" "x0\<lparr>gs_capturing := True, offset_intragraph := 0\<rparr> = x\<lparr>gs_capturing := True, offset_intragraph := 0\<rparr>" by blast
  let ?x = "x\<lparr>gs_capturing := True, offset_intragraph := 0\<rparr>"
  let ?t = "t\<lparr>gen_states := (gen_states t)(i \<mapsto> ?x)\<rparr>"
  have m': "stepped G cur ob (u\<lparr>word_at := mem\<rparr>) (prologued (insert i V) S) H s ?t"
    using moved_upd(1) [OF m, of "(gen_states t)(i \<mapsto> ?x)"] moved_fields(1) [OF m] prologued_insert [where S = S and i = i and V = V, OF Some] by simp
  have p: "p \<in> tensors u" if "seed_extragraph x = Some p \<or> offset_extragraph x = Some p" for p
    using own_tensors_known [OF T Some] that by (auto simp: own_tensors_def)
  have "wp (sx_seq (fill_tensor G (seed_extragraph ?x) (seed ?x)) (fill_tensor G (offset_extragraph ?x) 0))
      (\<lambda>_ t'. \<exists>mem. stepped G cur ob (u\<lparr>word_at := mem\<rparr>) (prologued (insert i V) S) H s t') whatever ?t"
    unfolding wp_seq
  proof (rule wp_conseq [OF wp_fill [OF C m' none]], goal_cases)
    case (2 r t')
    then obtain p where p1: "stepped G cur ob (u\<lparr>word_at := mem(p := seed ?x)\<rparr>) (prologued (insert i V) S) H s t'" by blast
    show ?case by (rule wp_conseq [OF wp_fill [OF C p1 none]]) (use p in auto)
  qed (use p in simp_all)
  then show ?thesis using x0 by (simp add: capture_prologue_def)
qed

lemma tensors_ok_prologued: "tensors_ok T S \<Longrightarrow> tensors_ok T (prologued V S)"
  by (rule tensors_ok_entries) (auto simp: prologued_def has_tensors_def own_tensors_def split: if_splits)

lemma graphs_ok_prologued: "graphs_ok S H \<Longrightarrow> graphs_ok (prologued V S) H"
proof -
  have "\<exists>z. prologued V S j = Some z \<and> gr \<in> registered_graphs z" if "\<exists>z. S j = Some z \<and> gr \<in> registered_graphs z" for j gr
    using that by (auto simp: prologued_def)
  then show "graphs_ok S H \<Longrightarrow> ?thesis" unfolding graphs_ok_def by blast
qed

lemma captures_ok_prologued: "captures_ok S H X eg \<Longrightarrow> captures_ok (prologued V S) H X eg"
  unfolding captures_ok_def using captured_links prologued_links by metis

section \<open>The parts of the begin of a capture\<close>

lemma wp_default_stream:
  assumes C: "graph_calls_ok G cur own ob" and S: "streams_settled G own s"
  shows "wp (on_gs (getDefaultSUPAStream (GDrv G) (GRt G) (-1))) (\<lambda>_ t. quiet G cur ob s t) whatever s"
proof -
  have fl: "init_flag (g_streams s)" "current_streams (g_streams s) \<noteq> None" using S by (auto simp: streams_settled_def)
  have init: "wp (initSUPAStreamsOnce (GDrv G) (GRt G)) Q E (g_streams s) = Q () (g_streams s)" for Q E
    using fl by (auto simp: initSUPAStreamsOnce_def)
  have dev: "wp (on_gs (resolve_device (GDrv G) (-1))) (\<lambda>i t. quiet G cur ob s t) whatever s"
    using wp_conseq [OF wp_target [OF C S], where Q' = "\<lambda>_ t. quiet G cur ob s t" and E' = whatever]
    by (simp add: resolve_device_def wp_current_device [OF graph_calls(1) [OF C]] del: wp_mod)
  have rest: "wp (on_gs (sx_seq (check_gpu i) (sx_ret (SUPAStreamForId i (makeStreamId DEFAULT 0))))) (\<lambda>_ t. quiet G cur ob s t) whatever t"
    if "quiet G cur ob s t" for i t
    using that by (auto simp: check_gpu_def)
  have "wp (on_gs (resolve_device (GDrv G) (-1))) (\<lambda>i t. wp (on_gs (sx_seq (check_gpu i) (sx_ret (SUPAStreamForId i (makeStreamId DEFAULT 0)))))
      (\<lambda>_ t. quiet G cur ob s t) whatever t) whatever s"
    by (rule wp_conseq [OF dev]) (use rest in auto)
  then show ?thesis using init by (simp add: getDefaultSUPAStream_def)
qed

lemma wp_choose_pool: "wp (choose_pool pool) (\<lambda>_ t. t = s \<or> (\<exists>k. t = s\<lparr>uuid := k\<rparr>)) whatever s"
  by (auto simp: choose_pool_def mempool_graph_pool_handle_def wp_if)

lemma wp_wait: "wp wait_for_event_queries (\<lambda>_ t. t = s) whatever s"
  by (simp add: wait_for_event_queries_def)

lemma wp_begin_capture:
  assumes C: "graph_calls_ok G cur own ob" and m: "stepped G cur ob v S H s t" and y: "H gr = Some y"
  shows "wp (begin_capture G gr stream mode) (\<lambda>_ t'. \<exists>h cid. raw_stream stream s = Inr h
    \<and> stepped G cur ob (v\<lparr>stream_captures := (stream_captures v)(h \<mapsto> [])\<rparr>) S (H(gr \<mapsto> y\<lparr>capture_id := cid\<rparr>)) s t') whatever t"
proof (cases "raw_stream stream s")
  case (Inr h)
  let ?v = "v\<lparr>stream_captures := (stream_captures v)(h \<mapsto> [])\<rparr>"
  let ?Q = "\<lambda>_ t'. \<exists>h cid. raw_stream stream s = Inr h
    \<and> stepped G cur ob (v\<lparr>stream_captures := (stream_captures v)(h \<mapsto> [])\<rparr>) S (H(gr \<mapsto> y\<lparr>capture_id := cid\<rparr>)) s t'"
  have finish: "wp (set_graph gr (\<lambda>x. x\<lparr>capture_id := cid\<rparr>)) (\<lambda>_. wp (sx_check (status = CaptureStatusActive)
      (InternalAssert ''status == supaStreamCaptureStatusActive'')) ?Q whatever) whatever w" if "stepped G cur ob ?v S H s w" for cid status w
    using moved_upd(2) [OF that, of "H(gr \<mapsto> y\<lparr>capture_id := cid\<rparr>)"] moved_fields(2) [OF that] y Inr by auto
  have "wp (on_gw (supa_check (supaStreamBeginCapture G h mode))) (\<lambda>_. wp (sx_bind (on_gs (stream_of stream)) (\<lambda>h.
      sx_bind (on_gw (supa_check_out (supaStreamGetCaptureInfo G h))) (\<lambda>(status, cid).
      sx_seq (set_graph gr (\<lambda>x. x\<lparr>capture_id := cid\<rparr>))
      (sx_check (status = CaptureStatusActive) (InternalAssert ''status == supaStreamCaptureStatusActive''))))) ?Q whatever) whatever t"
  proof (rule wp_conseq [OF wp_does [where G = G, OF graph_calls(11) [OF C]]], elim exE conjE, goal_cases)
    case (1 x u w)
    have u: "stepped G cur ob ?v S H s u" using moved_acts [OF m 1(2)] 1(1) moved_fields(3) [OF m] by simp
    show ?case
      unfolding wp_bind wp_g_stream_of moved_fields(9) [OF u] Inr sum.case
    proof (rule wp_conseq [OF wp_gives [where G = G, OF graph_calls(10) [OF C]]], elim exE conjE, goal_cases)
      case (1 r w z)
      have w: "stepped G cur ob ?v S H s w" using moved_acts [OF u 1(2)] 1(1) moved_fields(3) [OF u] by simp
      obtain status cid where "r = (status, cid)" by fastforce
      then show ?case using finish [OF w, of cid status] Inr by (simp only: prod.case wp_seq)
    qed simp
  qed simp
  then show ?thesis unfolding begin_capture_def wp_bind [where m = "on_gs (stream_of stream)"] wp_g_stream_of moved_fields(9) [OF m] Inr sum.case wp_seq .
qed (simp add: begin_capture_def wp_g_stream_of moved_fields(9) [OF m] del: wp_field)

section \<open>The begin of a capture\<close>

lemma moved_quiet: "stepped G cur ob v S H s t \<Longrightarrow> quiet G cur ob t t' \<Longrightarrow> stepped G cur ob v S H s t'"
  using moved_acts moved_fields(3) by metis

text \<open>Rules for the steps of a longer operation: they take the place of the conditions of the calls.\<close>

lemma wp_moved_graph:
  assumes m: "stepped G cur ob v S H s t" and y: "H gr = Some y" and Q: "\<And>t'. stepped G cur ob v S (H(gr \<mapsto> f y)) s t' \<Longrightarrow> Q () t'"
  shows "wp (set_graph gr f) Q E t"
  using Q [OF moved_upd(2) [OF m]] moved_fields(2) [OF m] y by simp

lemma wp_moved_quiet:
  assumes m: "stepped G cur ob v S H s t" and w: "wp m (\<lambda>_ t'. quiet G cur ob t t') whatever t"
    and Q: "\<And>x t'. stepped G cur ob v S H s t' \<Longrightarrow> Q x t'"
  shows "wp m Q whatever t"
  by (rule wp_conseq [OF w]) (auto intro: Q moved_quiet [OF m])

lemma sim_started:
  assumes S: "sim G own ob s e" and rec: "e_rec e = None" and y: "graph_objs s gr = Some y" "members y \<noteq> {}"
    and y': "captured_generator_states y' = captured_generator_states y" "\<not> has_graph_exec y'" "raw_stream (capture_stream y') s = Inr h"
    and m: "stepped G cur ob ((seen ob s)\<lparr>word_at := mem, stream_captures := (stream_captures (seen ob s))(h \<mapsto> [])\<rparr>)
      (prologued (members y) (gen_states s)) ((graph_objs s)(gr \<mapsto> y')) s t"
  shows "sim G own ob t (e\<lparr>e_rec := Some (gr, [])\<rparr>)"
proof (rule sim_moved [OF S m])
  let ?S = "prologued (members y) (gen_states s)" and ?H = "(graph_objs s)(gr \<mapsto> y')"
  note D = simD [OF S]
  have none: "stream_captures (seen ob s) = (\<lambda>_. None)" "\<And>i x. gen_states s i = Some x \<Longrightarrow> \<not> gs_capturing x"
    using D(9) by (auto simp: capture_ok_def rec)
  show "?S i = None \<longleftrightarrow> gen_states s i = None" for i by (simp add: prologued_def)
  show "graph_objs s gr' = None \<Longrightarrow> ?H gr' = None" for gr' using y by auto
  show "e_pos (e\<lparr>e_rec := Some (gr, [])\<rparr>) = (\<lambda>i. map_option (\<lambda>x. (seed x, philox_offset_per_thread x)) (?S i))"
    using D(3) by (auto simp: positions_def prologued_def fun_eq_iff option.map_comp comp_def)
  have g: "graphs_ok ?S (graph_objs s)" by (rule graphs_ok_prologued [OF D(7)])
  show "graphs_ok ?S ?H" by (rule graphs_ok_graph [OF g]) (use g y(1) y'(1) in \<open>auto simp: graphs_ok_def\<close>)
  have cap: "captures_ok ?S ?H (exec_nodes (seen ob s)) (e_graph e)"
    by (rule captures_ok_graph [OF captures_ok_prologued [OF D(8)]]) (simp_all add: y'(2))
  show "captures_ok ?S ?H (exec_nodes ((seen ob s)\<lparr>word_at := mem, stream_captures := (stream_captures (seen ob s))(h \<mapsto> [])\<rparr>)) (e_graph (e\<lparr>e_rec := Some (gr, [])\<rparr>))"
    using cap by simp
  have rec': "recording ?S [] y' []"
    unfolding recording_def
  proof (intro conjI allI impI)
    show "members y' \<noteq> {}" using y(2) y'(1) by simp
    show "plays ?S [] []" by (simp add: plays_def)
    fix i x assume x: "?S i = Some x"
    then show "gs_capturing x = (i \<in> members y')" using none(2) y'(1) by (auto simp: prologued_def split: if_splits)
    assume "i \<in> members y'"
    then show "ucast (offset_intragraph x) = advance_of i []" using x y'(1) by (auto simp: prologued_def)
  qed (simp_all add: y')
  show "capture_ok t (stream_captures ((seen ob s)\<lparr>word_at := mem, stream_captures := (stream_captures (seen ob s))(h \<mapsto> [])\<rparr>))
      (e_rec (e\<lparr>e_rec := Some (gr, [])\<rparr>))"
    using rec' y'(3) by (auto simp: capture_ok_def moved_fields [OF m] none(1))
qed (use simD [OF S] tensors_ok_prologued in simp_all)

text \<open>What follows once the states of the generators are in capture mode.\<close>

lemma wp_begin_rest:
  assumes C: "graph_calls_ok G cur own ob" and S: "sim G own ob s e" and rec: "e_rec e = None"
    and y: "graph_objs s gr = Some y" "\<not> has_graph_exec y" "members y \<noteq> {}"
    and d: "may_add_default e0 e"
    and m: "stepped G cur ob ((seen ob s)\<lparr>word_at := mem\<rparr>) (prologued (members y) (gen_states s)) (graph_objs s) s t"
  shows "wp (sx_bind (on_gs (getCurrentSUPAStream (GDrv G) (GRt G) (-1))) (\<lambda>stream.
       sx_bind (on_gs (getDefaultSUPAStream (GDrv G) (GRt G) (-1))) (\<lambda>default.
       sx_seq (sx_check (stream \<noteq> default) (TorchCheck ''SUPA graphs must be captured on a non-default stream.''))
       (sx_seq (set_graph gr (\<lambda>x. x\<lparr>capture_stream := stream\<rparr>))
       (sx_bind (on_gw (current_device (GDrv G))) (\<lambda>dev.
        sx_seq (set_graph gr (\<lambda>x. x\<lparr>capture_dev := dev\<rparr>))
        (sx_bind (choose_pool pool) (\<lambda>i.
         sx_seq (set_graph gr (\<lambda>x. x\<lparr>mempool_id := i\<rparr>))
         (sx_seq (on_nca (native_beginAllocateToPool dev i (capture_filter G gr)))
         (sx_seq wait_for_event_queries
         (begin_capture G gr stream mode)))))))))))
    (\<lambda>_ t. \<exists>e1. may_add_default e0 e1 \<and> sim G own ob t (e1\<lparr>e_rec := Some (gr, [])\<rparr>)) whatever t"
  unfolding wp_bind wp_seq
proof (rule wp_moved_quiet [OF m wp_conseq [OF wp_current_stream [OF C moved_fields(11) [OF m simD(1) [OF S]]]]], goal_cases)
  case (3 stream t1)
  let ?v = "(seen ob s)\<lparr>word_at := mem\<rparr>" and ?S = "prologued (members y) (gen_states s)" and ?H = "\<lambda>y'. (graph_objs s)(gr \<mapsto> y')"
  let ?Q = "\<lambda>_ t. \<exists>e1. may_add_default e0 e1 \<and> sim G own ob t (e1\<lparr>e_rec := Some (gr, [])\<rparr>)"
  show ?case
  proof (rule wp_moved_quiet [OF 3 wp_default_stream [OF C moved_fields(11) [OF 3 simD(1) [OF S]]]], goal_cases)
    case (1 default t2)
    let ?y1 = "y\<lparr>capture_stream := stream\<rparr>"
    have rest: "wp (sx_bind (on_gw (current_device (GDrv G))) (\<lambda>dev.
        sx_seq (set_graph gr (\<lambda>x. x\<lparr>capture_dev := dev\<rparr>))
        (sx_bind (choose_pool pool) (\<lambda>i.
         sx_seq (set_graph gr (\<lambda>x. x\<lparr>mempool_id := i\<rparr>))
         (sx_seq (on_nca (native_beginAllocateToPool dev i (capture_filter G gr)))
         (sx_seq wait_for_event_queries
         (begin_capture G gr stream mode))))))) ?Q whatever t3" if t3: "stepped G cur ob ?v ?S (?H ?y1) s t3" for t3
      unfolding wp_bind wp_seq wp_g_current_device [OF C]
    proof (rule wp_moved_graph [OF t3 fun_upd_same], goal_cases)
      case (1 t4)
      let ?dev = "thread_device cur (g_world t3)"
      have t4: "stepped G cur ob ?v ?S (?H (?y1\<lparr>capture_dev := ?dev\<rparr>)) s t4" using 1 by (simp only: fun_upd_upd)
      show ?case
      proof (rule wp_conseq [OF wp_choose_pool], goal_cases)
        case (1 i t5)
        have t5: "stepped G cur ob ?v ?S (?H (?y1\<lparr>capture_dev := ?dev\<rparr>)) s t5" using t4 moved_upd(3) [OF t4] 1 by blast
        let ?y2 = "?y1\<lparr>capture_dev := ?dev, mempool_id := i\<rparr>"
        show ?case
        proof (rule wp_moved_graph [OF t5 fun_upd_same], goal_cases)
          case (1 t6)
          have t6: "stepped G cur ob ?v ?S (?H ?y2) s t6" using 1 by (simp only: fun_upd_upd)
          show ?case
          proof (rule wp_moved_quiet [OF t6 wp_pool_ops(1)], goal_cases)
            case (1 x t7)
            have "wp (begin_capture G gr stream mode) ?Q whatever t7"
            proof (rule wp_conseq [OF wp_begin_capture [OF C 1 fun_upd_same]], elim exE conjE, goal_cases)
              case (1 x t8 h cid)
              have "stepped G cur ob ((seen ob s)\<lparr>word_at := mem, stream_captures := (stream_captures (seen ob s))(h \<mapsto> [])\<rparr>)
                  ?S (?H (?y2\<lparr>capture_id := cid\<rparr>)) s t8" using 1(2) unfolding fun_upd_upd by simp
              from sim_started [OF S rec y(1,3) _ _ _ this] show ?case using 1(1) y(2) d by auto
            qed simp
            then show ?case by (intro wp_conseq [OF wp_wait]) simp_all
          qed
        qed
      qed simp
    qed
    have "wp (set_graph gr (\<lambda>x. x\<lparr>capture_stream := stream\<rparr>)) (\<lambda>_. wp (sx_bind (on_gw (current_device (GDrv G))) (\<lambda>dev.
        sx_seq (set_graph gr (\<lambda>x. x\<lparr>capture_dev := dev\<rparr>))
        (sx_bind (choose_pool pool) (\<lambda>i.
         sx_seq (set_graph gr (\<lambda>x. x\<lparr>mempool_id := i\<rparr>))
         (sx_seq (on_nca (native_beginAllocateToPool dev i (capture_filter G gr)))
         (sx_seq wait_for_event_queries
         (begin_capture G gr stream mode))))))) ?Q whatever) whatever t2"
      by (rule wp_moved_graph [OF 1 y(1)]) (rule rest)
    then show ?case by (simp only: wp_check wp_bind wp_seq)  simp
  qed
qed simp_all

lemma may_add_default_rec: "may_add_default e e' \<Longrightarrow> e_rec e' = e_rec e"
  by (auto simp: may_add_default_def adds_generator_def set_pos_def)

lemma wp_capture_begin:
  assumes C: "graph_calls_ok G cur own ob" and S: "sim G own ob s e" and rec: "e_rec e = None"
  shows "wp (capture_begin G gr pool mode) (\<lambda>_ t. \<exists>e1. may_add_default e e1 \<and> sim G own ob t (e1\<lparr>e_rec := Some (gr, [])\<rparr>)) whatever s"
proof (cases "\<exists>y. graph_objs s gr = Some y \<and> \<not> has_graph_exec y")
  case True
  then obtain y0 where y0: "graph_objs s gr = Some y0" "\<not> has_graph_exec y0" by blast
  let ?Q = "\<lambda>_ t. \<exists>e1. may_add_default e e1 \<and> sim G own ob t (e1\<lparr>e_rec := Some (gr, [])\<rparr>)"
  have keep: "wp (getDefaultSUPAGenerator G (-1)) (\<lambda>_ t. graph_objs t = graph_objs s) whatever s" by (rule leaves_wp [OF leaves_default])
  show ?thesis
    unfolding capture_begin_def wp_bind [where m = "graph_ref gr"] wp_graph_ref y0(1) option.case wp_seq [where m = "sx_check _ _"] wp_check
  proof (simp only: y0(2) not_False_eq_True if_True, unfold wp_bind wp_seq, rule wp_conseq [OF wp_conj [OF wp_default [OF C S] keep]], elim exE conjE, goal_cases)
    case (1 g t1 e1)
    have T1: "sim G own ob t1 e1" "e_rec e1 = None" using 1 rec may_add_default_rec by auto
    have d: "may_add_default e e1" by (rule 1)
    have y1: "graph_objs t1 gr = Some y0" using 1 y0(1) by simp
    show ?case
    proof (rule wp_conseq [OF wp_register [OF C T1 y1 y0(2)]], elim exE conjE, goal_cases)
      case (1 r t2 y)
      note D = simD [OF 1(1)]
      have fin: "finite (members y)" using D(7) 1(2) unfolding graphs_ok_def by blast
      have none: "\<forall>h. stream_captures (seen ob t2) h = None" using D(9) T1(2) by (auto simp: capture_ok_def)
      let ?u = "seen ob t2" and ?S = "gen_states t2"
      let ?I = "\<lambda>V t. \<exists>mem. stepped G cur ob (?u\<lparr>word_at := mem\<rparr>) (prologued V ?S) (graph_objs t2) t2 t"
      have "stepped G cur ob (?u\<lparr>word_at := word_at ?u\<rparr>) (prologued (set []) ?S) (graph_objs t2) t2 t2"
        using moved_refl [of G cur ob t2] by (simp add: prologued_empty)
      then have I0: "?I (set []) t2" by blast
      have "wp (sx_for (map_order G (members y)) (\<lambda>i. case captured_generator_states y i of None \<Rightarrow> sx_ret () | Some n \<Rightarrow> capture_prologue G i))
          (\<lambda>_. ?I (set (map_order G (members y)))) whatever t2"
      proof (rule wp_for_visited [where I = "\<lambda>ys. ?I (set ys)", OF I0], elim exE, goal_cases)
        case (1 ys i zs t mem)
        have "i \<in> members y" using arg_cong [OF 1(1), of set] graph_calls(5) [OF C fin] by auto
        then obtain n where n: "captured_generator_states y i = Some n" by blast
        show ?case using wp_capture_prologue [OF C 1(2) none D(6)] by (simp add: n)
      qed
      then have loop: "wp (for_states G gr (\<lambda>i _. capture_prologue G i)) (\<lambda>_. ?I (members y)) whatever t2"
        using graph_calls(5) [OF C fin] by (simp add: for_states_def 1(2))
      show ?case
      proof (rule wp_conseq [OF loop], elim exE, goal_cases)
        case (1 r t mem)
        show ?case
          by (rule wp_begin_rest [OF C \<open>sim G own ob t2 e1\<close> T1(2) \<open>graph_objs t2 gr = Some y\<close> \<open>\<not> has_graph_exec y\<close> \<open>members y \<noteq> {}\<close> d 1,
            unfolded wp_bind wp_seq])
      qed simp
    qed simp
  qed simp
next
  case False
  then show ?thesis by (auto simp: capture_begin_def split: option.splits)
qed

end
