(* ===== verification/Graph_Close.thy ===== *)
theory Graph_Close
  imports Graph_Begin
begin

text \<open>
  The end of a capture: the stream gives its graph, which becomes executable, and the graph object
  keeps for every state of its generators how far a replay moves the offset on.
\<close>

section \<open>States that leave capture mode\<close>

definition epilogued :: "nat set \<Rightarrow> (nat \<Rightarrow> SUPAGeneratorState option) \<Rightarrow> nat \<Rightarrow> SUPAGeneratorState option" where
  "epilogued V S i = (if i \<in> V then map_option (\<lambda>x. x\<lparr>gs_capturing := False\<rparr>) (S i) else S i)"

lemma epilogued_empty: "epilogued {} S = S"
  by (simp add: epilogued_def fun_eq_iff)

lemma epilogued_insert: "S i = Some x \<Longrightarrow> epilogued (insert i V) S = (epilogued V S)(i \<mapsto> x\<lparr>gs_capturing := False\<rparr>)"
  by (auto simp: epilogued_def fun_eq_iff)

lemma epilogued_links: "seed_at (epilogued V S) i = seed_at S i" "offset_at (epilogued V S) i = offset_at S i"
  by (cases "S i"; simp add: epilogued_def)+

lemma tensors_ok_epilogued: "tensors_ok T S \<Longrightarrow> tensors_ok T (epilogued V S)"
  by (rule tensors_ok_entries) (auto simp: epilogued_def has_tensors_def own_tensors_def split: if_splits)

lemma graphs_ok_epilogued: "graphs_ok S H \<Longrightarrow> graphs_ok (epilogued V S) H"
proof -
  have "\<exists>z. epilogued V S j = Some z \<and> gr \<in> registered_graphs z" if "\<exists>z. S j = Some z \<and> gr \<in> registered_graphs z" for j gr
    using that by (auto simp: epilogued_def)
  then show "graphs_ok S H \<Longrightarrow> ?thesis" unfolding graphs_ok_def by blast
qed

lemma plays_epilogued: "plays (epilogued V S) ns rs = plays S ns rs"
  by (rule plays_cong) (simp only: epilogued_links simp_thms)

lemma captures_ok_epilogued: "captures_ok S H X eg \<Longrightarrow> captures_ok (epilogued V S) H X eg"
  unfolding captures_ok_def captured_def plays_epilogued .

section \<open>The relation at the end of a capture\<close>

definition counted :: "nat set \<Rightarrow> (nat \<times> 64 word) list \<Rightarrow> (nat \<Rightarrow> 64 word option) \<Rightarrow> nat \<Rightarrow> 64 word option" where
  "counted V rs c i = (if i \<in> V then Some (advance_of i rs) else c i)"

lemma counted_empty: "counted {} rs c = c"
  by (simp add: counted_def fun_eq_iff)

lemma sim_ended:
  assumes S: "sim G own ob s e" and rec: "e_rec e = Some (gr, rs)"
    and y: "graph_objs s gr = Some y" "stream_captures (seen ob s) = (\<lambda>_. None)(h \<mapsto> ns)" "recording (gen_states s) ns y rs"
    and y': "captured_generator_states y' = counted (members y) rs (captured_generator_states y)" "has_graph_exec y'" "graph_exec y' = ex"
    and ex: "exec_nodes (seen ob s) ex = None"
    and v: "consumed v = consumed (seen ob s)" "tensors v = tensors (seen ob s)" "stream_captures v = (\<lambda>_. None)"
      "exec_nodes v = (exec_nodes (seen ob s))(ex \<mapsto> ns)"
    and m: "stepped G cur ob v (epilogued (members y) (gen_states s)) ((graph_objs s)(gr \<mapsto> y')) s t"
  shows "sim G own ob t (e\<lparr>e_rec := None, e_graph := (e_graph e)(gr \<mapsto> rs)\<rparr>)"
proof (rule sim_moved [OF S m])
  let ?S = "epilogued (members y) (gen_states s)" and ?H = "(graph_objs s)(gr \<mapsto> y')"
  note D = simD [OF S]
  have mem: "members y' = members y" by (auto simp: y'(1) counted_def dom_def split: if_splits)
  show "?S i = None \<longleftrightarrow> gen_states s i = None" for i by (simp add: epilogued_def)
  show "graph_objs s gr' = None \<Longrightarrow> ?H gr' = None" for gr' using y by auto
  show "e_pos (e\<lparr>e_rec := None, e_graph := (e_graph e)(gr \<mapsto> rs)\<rparr>) = (\<lambda>i. map_option (\<lambda>x. (seed x, philox_offset_per_thread x)) (?S i))"
    using D(3) by (auto simp: positions_def epilogued_def fun_eq_iff option.map_comp comp_def)
  have g: "graphs_ok ?S (graph_objs s)" by (rule graphs_ok_epilogued [OF D(7)])
  show "graphs_ok ?S ?H" by (rule graphs_ok_graph [OF g]) (use g y(1) in \<open>auto simp: graphs_ok_def mem\<close>)
  have new: "graph_exec z \<noteq> ex" if "graph_objs s gr' = Some z" "has_graph_exec z" for gr' z
    using captures_ok_exec [OF D(8) that] ex by (auto simp: captured_def)
  have cap: "captured ?S (exec_nodes v) y' rs"
    unfolding captured_def
  proof (intro conjI allI impI)
    show "members y' \<noteq> {}" "fst ` set rs \<subseteq> members y'" using y(3) unfolding mem recording_def by simp_all
    show "n = advance_of i rs" if "captured_generator_states y' i = Some n" for i n
    proof -
      have "i \<in> members y" using that mem by blast
      then show ?thesis using that by (simp add: y'(1) counted_def)
    qed
    show "\<exists>ns. exec_nodes v (graph_exec y') = Some ns \<and> plays ?S ns rs" using y(3) by (simp add: y'(3) v(4) plays_epilogued recording_def)
  qed
  show "captures_ok ?S ?H (exec_nodes v) (e_graph (e\<lparr>e_rec := None, e_graph := (e_graph e)(gr \<mapsto> rs)\<rparr>))"
    by (rule captures_ok_graph [OF captures_ok_epilogued [OF D(8)]]) (use cap new y'(3) v(4) in auto)
  have off: "\<not> gs_capturing x" if "?S i = Some x" for i x
    using that y(3) unfolding epilogued_def recording_def by (auto split: if_splits)
  show "capture_ok t (stream_captures v) (e_rec (e\<lparr>e_rec := None, e_graph := (e_graph e)(gr \<mapsto> rs)\<rparr>))"
    using off by (simp add: capture_ok_def moved_fields [OF m] v(3))
qed (use simD [OF S] tensors_ok_epilogued v in simp_all)

section \<open>The loop over the states\<close>

lemma wp_moved_again:
  assumes m: "stepped G cur ob v S (H(gr \<mapsto> y)) s t" and Q: "\<And>t'. stepped G cur ob v S (H(gr \<mapsto> f y)) s t' \<Longrightarrow> Q () t'"
  shows "wp (set_graph gr f) Q E t"
  by (rule wp_moved_graph [OF m fun_upd_same]) (use Q in \<open>simp only: fun_upd_upd\<close>)

lemma wp_end_states:
  assumes C: "graph_calls_ok G cur own ob" and fin: "finite (members z)" and y: "recording S ns y rs" "members y = members z"
    and m: "stepped G cur ob v S (H(gr \<mapsto> z)) s t" and known: "\<And>i. i \<in> members z \<Longrightarrow> S i \<noteq> None"
  shows "wp (for_states G gr (\<lambda>i _. sx_bind (capture_epilogue i) (\<lambda>n.
          set_graph gr (\<lambda>x. x\<lparr>captured_generator_states := (captured_generator_states x)(i \<mapsto> n)\<rparr>))))
    (\<lambda>_ t'. stepped G cur ob v (epilogued (members z) S) (H(gr \<mapsto> z\<lparr>captured_generator_states := counted (members z) rs (captured_generator_states z)\<rparr>)) s t')
    whatever t"
proof -
  let ?z = "\<lambda>V. z\<lparr>captured_generator_states := counted V rs (captured_generator_states z)\<rparr>"
  let ?I = "\<lambda>V t. stepped G cur ob v (epilogued V S) (H(gr \<mapsto> ?z V)) s t"
  note order = graph_calls(5) [OF C fin]
  have "?z {} = z" by (simp add: counted_empty)
  then have I0: "?I (set []) t" using m by (simp add: epilogued_empty)
  have "wp (sx_for (map_order G (members z)) (\<lambda>i. case captured_generator_states z i of None \<Rightarrow> sx_ret ()
      | Some _ \<Rightarrow> sx_bind (capture_epilogue i) (\<lambda>n. set_graph gr (\<lambda>x. x\<lparr>captured_generator_states := (captured_generator_states x)(i \<mapsto> n)\<rparr>))))
      (\<lambda>_. ?I (set (map_order G (members z)))) whatever t"
  proof (rule wp_for_visited [where I = "\<lambda>ys. ?I (set ys)", OF I0], goal_cases)
    case (1 ys i zs t)
    have i: "i \<in> members z" "i \<notin> set ys" using arg_cong [OF 1(1), of set] order 1(1) by auto
    obtain x where x: "S i = Some x" using known [OF i(1)] by blast
    have n: "ucast (offset_intragraph x) = advance_of i rs" using y i(1) x unfolding recording_def by simp
    let ?S = "epilogued (insert i (set ys)) S"
    have tx: "gen_states t i = Some x" "graph_objs t gr = Some (?z (set ys))"
      using moved_fields(1,2) [OF 1(2)] x i(2) by (simp_all add: epilogued_def)
    have S: "(gen_states t)(i \<mapsto> x\<lparr>gs_capturing := False\<rparr>) = ?S"
      using epilogued_insert [where S = S and i = i and V = "set ys", OF x] moved_fields(1) [OF 1(2)] by simp
    have ei: "?S i = Some (x\<lparr>gs_capturing := False\<rparr>)" using S by (metis fun_upd_same)
    have run: "wp (capture_epilogue i) Q E t = Q (advance_of i rs) (t\<lparr>gen_states := ?S\<rparr>)" for Q E
      by (simp add: capture_epilogue_def tx n S ei)
    have c: "(counted (set ys) rs (captured_generator_states z))(i \<mapsto> advance_of i rs) = counted (insert i (set ys)) rs (captured_generator_states z)"
      by (auto simp: counted_def fun_eq_iff)
    obtain k where "captured_generator_states z i = Some k" using i(1) by blast
    then show ?case
      by (simp only: option.case wp_bind run, intro wp_moved_again [OF moved_upd(1) [OF 1(2)]]) (simp add: c)
  qed
  then show ?thesis using order moved_fields(2) [OF m] by (simp add: for_states_def)
qed

section \<open>The end of a capture\<close>

lemma wp_capture_end:
  assumes C: "graph_calls_ok G cur own ob" and S: "sim G own ob s e" and rec: "e_rec e = Some (gr, rs)"
  shows "wp (capture_end G gr) (\<lambda>_ t. sim G own ob t (e\<lparr>e_rec := None, e_graph := (e_graph e)(gr \<mapsto> rs)\<rparr>)) whatever s"
proof -
  note D = simD [OF S]
  let ?u = "seen ob s" and ?S = "gen_states s" and ?H = "\<lambda>z. (graph_objs s)(gr \<mapsto> z)"
  let ?Q = "\<lambda>_ t. sim G own ob t (e\<lparr>e_rec := None, e_graph := (e_graph e)(gr \<mapsto> rs)\<rparr>)"
  obtain y h ns where y: "graph_objs s gr = Some y" "raw_stream (capture_stream y) s = Inr h" "stream_captures ?u = (\<lambda>_. None)(h \<mapsto> ns)"
    "recording ?S ns y rs" using D(9) by (auto simp: capture_ok_def rec)
  have fin: "finite (members y)" using D(7) y(1) unfolding graphs_ok_def by blast
  have known: "?S i \<noteq> None" if "i \<in> members y" for i using members_known [OF D(7) y(1) that] .
  let ?loop = "for_states G gr (\<lambda>i _. sx_bind (capture_epilogue i) (\<lambda>n.
          set_graph gr (\<lambda>x. x\<lparr>captured_generator_states := (captured_generator_states x)(i \<mapsto> n)\<rparr>)))"
  let ?tail = "\<lambda>graph. sx_bind (on_gw (supa_check_out (supaGraphGetNodes G graph))) (\<lambda>_.
        sx_bind (sx_get supa_graphs_debug) (\<lambda>debug.
        sx_when (\<not> debug)
          (sx_seq (on_gw (supa_check (supaGraphDestroy G graph)))
          (set_graph gr (\<lambda>x. x\<lparr>has_graph := False\<rparr>)))))"
  let ?ends = "\<lambda>z v. captured_generator_states z = counted (members y) rs (captured_generator_states y) \<and> has_graph_exec z
    \<and> exec_nodes ?u (graph_exec z) = None \<and> consumed v = consumed ?u \<and> tensors v = tensors ?u \<and> stream_captures v = (\<lambda>_. None)
    \<and> exec_nodes v = (exec_nodes ?u)(graph_exec z \<mapsto> ns)"
  have tail: "wp (?tail graph) ?Q whatever t" if t: "stepped G cur ob v (epilogued (members y) ?S) (?H z) s t" and z: "?ends z v" for graph t v z
    unfolding wp_bind
  proof (rule wp_conseq [OF wp_gives [where G = G, OF graph_calls(14) [OF C]]], elim exE conjE, goal_cases)
    case (1 x t1 w)
    have t1: "stepped G cur ob v (epilogued (members y) ?S) (?H z) s t1" using moved_acts [OF t 1(2)] 1(1) moved_fields(3) [OF t] by simp
    have fine: "?Q () t'" if "stepped G cur ob v' (epilogued (members y) ?S) (?H z') s t'" "?ends z' v'" for t' v' z'
      using sim_ended [OF S rec y(1,3,4) _ _ refl _ _ _ _ _ that(1)] that(2) by simp
    show ?case
    proof (cases "supa_graphs_debug t1")
      case True
      then show ?thesis using fine [OF t1 z] by simp
    next
      case False
      have "wp (on_gw (supa_check (supaGraphDestroy G graph))) (\<lambda>_. wp (set_graph gr (\<lambda>x. x\<lparr>has_graph := False\<rparr>)) ?Q whatever) whatever t1"
      proof (rule wp_conseq [OF wp_does [where G = G, OF destroys_does [OF graph_calls(16) [OF C]]]], elim exE conjE, goal_cases)
        case (1 x t2 w gn)
        have t2: "stepped G cur ob w (epilogued (members y) ?S) (?H z) s t2" by (rule moved_acts [OF t1 1(1)])
        have w: "?ends (z\<lparr>has_graph := False\<rparr>) w" using z 1(2) moved_fields(3) [OF t1] by simp
        show ?case
          by (rule wp_moved_again [OF t2]) (use fine w in blast)
      qed simp
      then show ?thesis using False by (simp del: wp_field wp_set_graph)
    qed
  qed simp
  have rest: "wp (sx_seq (on_nca (native_endAllocateToPool (capture_dev y) (mempool_id y)))
      (sx_seq (sx_check (graph \<noteq> 0) (TorchCheck ''Invalid capture.''))
      (sx_seq (set_graph gr (\<lambda>x. x\<lparr>has_graph := True\<rparr>))
      (sx_bind (on_gw (supa_check_out (supaGraphInstantiateWithFlags G graph))) (\<lambda>exec.
       sx_seq (set_graph gr (\<lambda>x. x\<lparr>graph_exec := exec, has_graph_exec := True\<rparr>))
       (sx_seq ?loop (?tail graph))))))) ?Q whatever t"
    if t: "stepped G cur ob v ?S (?H (y\<lparr>graph_handle := graph\<rparr>)) s t"
      and v: "consumed v = consumed ?u" "tensors v = tensors ?u" "stream_captures v = (\<lambda>_. None)" "exec_nodes v = exec_nodes ?u" "graph_nodes v graph = Some ns"
    for graph t v
    unfolding wp_seq
  proof (rule wp_moved_quiet [OF t wp_pool_ops(2)], goal_cases)
    case (1 x t1)
    have inst: "wp (set_graph gr (\<lambda>x. x\<lparr>has_graph := True\<rparr>)) (\<lambda>_. wp (sx_bind (on_gw (supa_check_out (supaGraphInstantiateWithFlags G graph))) (\<lambda>exec.
        sx_seq (set_graph gr (\<lambda>x. x\<lparr>graph_exec := exec, has_graph_exec := True\<rparr>)) (sx_seq ?loop (?tail graph)))) ?Q whatever) whatever t1"
    proof (rule wp_moved_again [OF 1], unfold wp_bind [where m = "on_gw _"] wp_seq, rule wp_conseq [OF wp_gives [where G = G, OF graph_calls(13) [OF C]]], elim exE conjE, goal_cases)
      case (1 t2 ex t3 w)
      let ?w = "v\<lparr>exec_nodes := (exec_nodes v)(ex \<mapsto> ns)\<rparr>"
      have t3: "stepped G cur ob ?w ?S (?H (y\<lparr>graph_handle := graph, has_graph := True\<rparr>)) s t3"
        using moved_acts [OF 1(1) 1(2)] 1(4) moved_fields(3) [OF 1(1)] v(5) by simp
      have fresh: "exec_nodes ?u ex = None" using 1(3) moved_fields(3) [OF 1(1)] v(4) by simp
      show ?case
      proof (rule wp_moved_again [OF t3], goal_cases)
        case (1 t4)
        let ?z = "y\<lparr>graph_handle := graph, has_graph := True, graph_exec := ex, has_graph_exec := True\<rparr>"
        show ?case
        proof (rule wp_conseq [OF wp_end_states [OF C _ y(4) _ 1]], goal_cases)
          case (4 x t5)
          have t5: "stepped G cur ob ?w (epilogued (members y) ?S)
              (?H (?z\<lparr>captured_generator_states := counted (members y) rs (captured_generator_states y)\<rparr>)) s t5" using 4 by simp
          show ?case by (rule tail [OF t5, unfolded wp_bind [where m = "on_gw m" for m]]) (use fresh v in simp_all)
        qed (use fin known in simp_all)
      qed
    qed simp
    then show ?case by (simp only: wp_check) simp
  qed
  show ?thesis
    unfolding capture_end_def wp_bind [where m = "on_gs (getCurrentSUPAStream _ _ _)"]
  proof (rule wp_moved_quiet [OF moved_refl [of G cur ob s] wp_conseq [OF wp_current_stream [OF C D(1)]]], goal_cases)
    case (3 stream t)
    note t = 3
    have ref: "graph_objs t gr = Some y" "raw_stream (capture_stream y) t = Inr h" using moved_fields(2,9) [OF t] y(1,2) by simp_all
    have "wp (on_gw (supa_check_out (supaStreamEndCapture G h))) (\<lambda>graph. wp (sx_seq (set_graph gr (\<lambda>x. x\<lparr>graph_handle := graph\<rparr>))
      (sx_seq (on_nca (native_endAllocateToPool (capture_dev y) (mempool_id y)))
      (sx_seq (sx_check (graph \<noteq> 0) (TorchCheck ''Invalid capture.''))
      (sx_seq (set_graph gr (\<lambda>x. x\<lparr>has_graph := True\<rparr>))
      (sx_bind (on_gw (supa_check_out (supaGraphInstantiateWithFlags G graph))) (\<lambda>exec.
       sx_seq (set_graph gr (\<lambda>x. x\<lparr>graph_exec := exec, has_graph_exec := True\<rparr>))
       (sx_seq ?loop (?tail graph)))))))) ?Q whatever) whatever t"
    proof (rule wp_conseq [OF wp_gives [where G = G, OF graph_calls(12) [OF C]]], elim exE conjE, goal_cases)
      case (1 graph t1 v ns')
      let ?v = "?u\<lparr>stream_captures := (\<lambda>_. None), graph_nodes := (graph_nodes ?u)(graph \<mapsto> ns)\<rparr>"
      have "ns' = ns" "v = ?v" using 1(2,3) moved_fields(3) [OF t] y(3) by simp_all
      then have t1: "stepped G cur ob ?v ?S (graph_objs s) s t1" using moved_acts [OF t 1(1)] by simp
      show ?case
        unfolding wp_seq [where m = "set_graph _ _"]
        by (rule wp_moved_graph [OF t1 y(1)], erule rest) simp_all
    qed simp
    then show ?case by (simp add: ref wp_g_stream_of del: wp_field wp_set_graph)
  qed simp_all
qed

end
