(* ===== verification/Graph_Replay.thy ===== *)
theory Graph_Replay
  imports Graph_Close
begin

text \<open>
  The replay of a graph: every state gives its seed and offset to its tensors and moves its offset on,
  and the kernels of the graph draw what the reference draws when it issues the captured operations again.
\<close>

section \<open>A guard around a step\<close>

abbreviation in_world :: "'d gst \<Rightarrow> 'd world \<Rightarrow> 'd gst" where
  "in_world s w \<equiv> g_nca_update (p_streams_update (st_world_update (\<lambda>_. w))) s"

lemma sim_in_world:
  assumes "sim G own ob s e" and "ob (drv w) = seen ob s" and "k_device w < device_count (GDrv G)"
  shows "sim G own ob (in_world s w) e"
  by (rule sim_world [OF assms(1) _ assms(2,3)]) (cases s, cases "g_nca s", cases "g_streams s", simp)

lemma wp_whatever: "wp m (\<lambda>_ _. True) whatever s"
  by (rule wpI) simp_all

lemma wp_guard_enter:
  assumes C: "graph_calls_ok G cur own ob" and S: "streams_settled G own s"
  shows "wp (if i = -1 then getDevice (GDrv G) else exchangeDevice (GDrv G) i)
    (\<lambda>original w. original = thread_device cur (g_world s) \<and> ob (drv w) = seen ob s \<and> k_device w < device_count (GDrv G)) whatever (g_world s)"
proof (cases "i = -1")
  case True
  then show ?thesis using S by (simp add: wp_getDevice [OF graph_calls(1) [OF C]] streams_settled_def)
next
  case False
  note dc = graph_calls(1,3) [OF C]
  have n: "0 < device_count (GDrv G)" using dc(1) unfolding device_calls_ok_def by (metis le_less_trans)
  obtain e' d' where r: "supaSetDevice (GDrv G) i (nca_drv (g_nca s)) = (e', d')" by fastforce
  have "ob d' = seen ob s" using dc(2) r unfolding device_neutral_def by (metis snd_conv)
  then show ?thesis
    using False dc(1) r n by (auto simp: exchangeDevice_def ExchangeDevice_def wp_if device_calls_ok_def thread_device_def)
qed

lemma wp_guard_sim:
  assumes C: "graph_calls_ok G cur own ob" and S: "sim G own ob s e"
    and m: "\<And>w. sim G own ob (in_world s w) e \<Longrightarrow> wp m (\<lambda>_ t. sim G own ob t e') whatever (in_world s w)"
  shows "wp (g_guard G i m) (\<lambda>_ t. sim G own ob t e') whatever s"
proof -
  let ?sel = "g_world" and ?upd = "\<lambda>f. g_nca_update (p_streams_update (st_world_update f))"
  let ?old = "thread_device cur (g_world s)"
  let ?restore = "sx_field ?sel ?upd (uncheckedSetDevice (GDrv G) ?old)"
  note st = simD(1) [OF S]
  have restore: "wp ?restore (\<lambda>_ t. sim G own ob t e') whatever t" if T: "sim G own ob t e'" for t
    unfolding wp_field
  proof (rule wp_conseq [OF wp_uncheckedSetDevice [OF graph_calls(1-3) [OF C] settled_world [OF C st]]], goal_cases)
    case (1 x w)
    have "0 < device_count (GDrv G)" using settled_world [OF C st] by simp
    then show ?case using 1 by (intro sim_in_world [OF T]) (simp_all add: switched_def)
  qed simp
  have "wp (if i = -1 then getDevice (GDrv G) else exchangeDevice (GDrv G) i)
      (\<lambda>original w. wp (sx_finally m (sx_field ?sel ?upd (uncheckedSetDevice (GDrv G) original))) (\<lambda>_ t. sim G own ob t e') whatever (in_world s w))
      whatever (g_world s)"
  proof (rule wp_conseq [OF wp_guard_enter [OF C st]], elim conjE, goal_cases)
    case (1 original w)
    have "wp m (\<lambda>_ t. sim G own ob t e') whatever (in_world s w)" by (rule m [OF sim_in_world [OF S 1(2,3)]])
    then have "wp m (\<lambda>_. wp ?restore (\<lambda>_ t. sim G own ob t e') whatever) (\<lambda>e'. wp ?restore (\<lambda>_. whatever e') whatever) (in_world s w)"
      by (rule wp_conseq) (use restore wp_whatever in auto)
    then show ?case unfolding 1(1) wp_finally .
  qed simp
  then show ?thesis unfolding guarded_def wp_bind wp_field .
qed

section \<open>The loop over the states\<close>

definition replayed :: "nat set \<Rightarrow> (nat \<times> 64 word) list \<Rightarrow> (nat \<Rightarrow> SUPAGeneratorState option) \<Rightarrow> nat \<Rightarrow> SUPAGeneratorState option" where
  "replayed V rs S i = (if i \<in> V then map_option (\<lambda>x. x\<lparr>philox_offset_per_thread := philox_offset_per_thread x + advance_of i rs\<rparr>) (S i) else S i)"

lemma replayed_empty: "replayed {} rs S = S"
  by (simp add: replayed_def fun_eq_iff)

lemma replayed_insert:
  "S i = Some x \<Longrightarrow> replayed (insert i V) rs S = (replayed V rs S)(i \<mapsto> x\<lparr>philox_offset_per_thread := philox_offset_per_thread x + advance_of i rs\<rparr>)"
  by (auto simp: replayed_def fun_eq_iff)

lemma replayed_shapes: "same_shapes S (replayed V rs S)"
  by (auto simp: same_shapes_def same_links_and_mode_def replayed_def split: option.splits)

text \<open>The tensors of the states that were visited hold the seeds and offsets from before the replay.\<close>

definition loaded :: "nat set \<Rightarrow> (nat \<Rightarrow> SUPAGeneratorState option) \<Rightarrow> (nat \<Rightarrow> 64 word) \<Rightarrow> bool" where
  "loaded V S mem \<longleftrightarrow> (\<forall>i x p q. i \<in> V \<longrightarrow> S i = Some x \<longrightarrow> seed_extragraph x = Some p \<longrightarrow> offset_extragraph x = Some q \<longrightarrow>
     mem p = seed x \<and> mem q = philox_offset_per_thread x)"

lemma loaded_insert:
  assumes T: "tensors_ok T S" and l: "loaded V S mem" and x: "S i = Some x" "seed_extragraph x = Some p" "offset_extragraph x = Some q"
  shows "loaded (insert i V) S (mem(p := seed x, q := philox_offset_per_thread x))"
  unfolding loaded_def
proof (intro allI impI)
  fix j z p' q' assume z: "j \<in> insert i V" "S j = Some z" "seed_extragraph z = Some p'" "offset_extragraph z = Some q'"
  have pq: "p \<noteq> q" using T x unfolding tensors_ok_def has_tensors_def by (metis option.distinct(1) option.inject)
  show "(mem(p := seed x, q := philox_offset_per_thread x)) p' = seed z \<and> (mem(p := seed x, q := philox_offset_per_thread x)) q' = philox_offset_per_thread z"
  proof (cases "j = i")
    case True
    then show ?thesis using z x pq by simp
  next
    case False
    have "own_tensors z \<inter> own_tensors x = {}" using T z(2) x(1) False unfolding tensors_ok_def by blast
    then have "p' \<noteq> p" "p' \<noteq> q" "q' \<noteq> p" "q' \<noteq> q" using z(3,4) x(2,3) by (auto simp: own_tensors_def)
    moreover have "mem p' = seed z \<and> mem q' = philox_offset_per_thread z" using l z False unfolding loaded_def by simp
    ultimately show ?thesis by simp
  qed
qed

lemma no_captures_not_capturing: "\<forall>h. stream_captures (seen ob s) h = None \<Longrightarrow> \<not> capturing_now cur ob s"
  by (simp add: capturing_now_def)

lemma wp_replay_prologue:
  assumes C: "graph_calls_ok G cur own ob" and settled: "streams_settled G own s" and none: "\<forall>h. stream_captures u h = None" and T: "tensors_ok (tensors u) S"
    and m: "stepped G cur ob (u\<lparr>word_at := mem\<rparr>) (replayed V rs S) H s t" and l: "loaded V S mem" and i: "i \<notin> V"
  shows "wp (replay_prologue G i (advance_of i rs)) (\<lambda>_ t'. \<exists>mem. stepped G cur ob (u\<lparr>word_at := mem\<rparr>) (replayed (insert i V) rs S) H s t'
    \<and> loaded (insert i V) S mem) whatever t"
proof (cases "S i")
  case None
  let ?S = "replayed V rs S"
  show ?thesis
    unfolding replay_prologue_def wp_seq [where m = "assertNotCapturing _ _"]
  proof (rule wp_moved_quiet [OF m wp_conseq [OF wp_assertNotCapturing [OF C moved_fields(11) [OF m settled]]]], goal_cases)
    case (3 x t1)
    then show ?case using None i moved_fields(1) [OF 3] by (simp add: replayed_def)
  qed simp_all
next
  case (Some x)
  let ?S = "replayed V rs S" and ?n = "advance_of i rs"
  let ?Q = "\<lambda>_ t'. \<exists>mem. stepped G cur ob (u\<lparr>word_at := mem\<rparr>) (replayed (insert i V) rs S) H s t' \<and> loaded (insert i V) S mem"
  have p: "p \<in> tensors u" if "seed_extragraph x = Some p \<or> offset_extragraph x = Some p" for p
    using own_tensors_known [OF T Some] that by (auto simp: own_tensors_def)
  have Si: "?S i = Some x" using Some i by (simp add: replayed_def)
  show ?thesis
    unfolding replay_prologue_def wp_seq [where m = "assertNotCapturing _ _"]
  proof (rule wp_moved_quiet [OF m wp_conseq [OF wp_assertNotCapturing [OF C moved_fields(11) [OF m settled]]]], goal_cases)
    case (3 r t1)
    note t1 = 3
    have "wp (fill_tensor G (seed_extragraph x) (seed x)) (\<lambda>_. wp (fill_tensor G (offset_extragraph x) (philox_offset_per_thread x)) (\<lambda>_. wp (increase G i ?n) ?Q whatever) whatever) whatever t1"
    proof (rule wp_conseq [OF wp_fill [OF C t1 none]], goal_cases)
      case (2 r t2)
      then obtain a where a: "seed_extragraph x = Some a" "stepped G cur ob (u\<lparr>word_at := mem(a := seed x)\<rparr>) ?S H s t2" by blast
      show ?case
      proof (rule wp_conseq [OF wp_fill [OF C a(2) none]], goal_cases)
        case (2 r t3)
        then obtain b where b: "offset_extragraph x = Some b"
          "stepped G cur ob (u\<lparr>word_at := mem(a := seed x, b := philox_offset_per_thread x)\<rparr>) ?S H s t3" by blast
        let ?mem = "mem(a := seed x, b := philox_offset_per_thread x)"
        have t3i: "gen_states t3 i = Some x" using moved_fields(1) [OF b(2)] Si by simp
        have now: "\<not> capturing_now cur ob t3" using moved_fields(3) [OF b(2)] none by (intro no_captures_not_capturing) simp
        show ?case
        proof (rule wp_conseq [OF wp_increase [OF C moved_fields(11) [OF b(2) settled] t3i]], elim exE conjE, goal_cases)
          case (1 r t4 t5)
          let ?x = "x\<lparr>philox_offset_per_thread := philox_offset_per_thread x + ?n\<rparr>"
          have t5: "stepped G cur ob (u\<lparr>word_at := ?mem\<rparr>) ?S H s t5" by (rule moved_quiet [OF b(2) 1(1)])
          have "t4 = t5\<lparr>gen_states := (gen_states t5)(i \<mapsto> ?x)\<rparr>" using 1(2) now by (simp add: round_advance)
          moreover have "(gen_states t5)(i \<mapsto> ?x) = replayed (insert i V) rs S"
            using replayed_insert [where S = S and i = i and V = V and rs = rs, OF Some] moved_fields(1) [OF t5] by simp
          ultimately have "stepped G cur ob (u\<lparr>word_at := ?mem\<rparr>) (replayed (insert i V) rs S) H s t4" using moved_upd(1) [OF t5] by metis
          then show ?case using loaded_insert [where S = S and i = i, OF T l Some a(1) b(1)] by blast
        qed simp
      qed (use p in simp_all)
    qed (use p in simp_all)
    then show ?case using moved_fields(1) [OF t1] Si by simp
  qed simp_all
qed

section \<open>The replay\<close>

lemma sim_replayed:
  assumes S: "sim G own ob s e" and rec: "e_rec e = None" and y: "graph_objs s gr = Some y" "captured (gen_states s) (exec_nodes (seen ob s)) y rs"
    and l: "loaded (members y) (gen_states s) mem" and ns: "exec_nodes (seen ob s) (graph_exec y) = Some ns"
    and m: "stepped G cur ob ((seen ob s)\<lparr>word_at := mem, consumed := consumed (seen ob s) @ map (unpack mem) ns\<rparr>)
      (replayed (members y) rs (gen_states s)) (graph_objs s) s t"
  shows "sim G own ob t (fold draw rs e)"
proof -
  let ?S = "replayed (members y) rs (gen_states s)"
  note D = simD [OF S]
  have sub: "fst ` set rs \<subseteq> members y" and play: "plays (gen_states s) ns rs" using y(2) ns by (auto simp: captured_def)
  have known: "\<exists>x p q. gen_states s i = Some x \<and> seed_extragraph x = Some p \<and> offset_extragraph x = Some q" if i: "i \<in> members y" for i
  proof -
    obtain x where x: "gen_states s i = Some x" "gr \<in> registered_graphs x" using D(7) y(1) i unfolding graphs_ok_def by blast
    then have "has_tensors (tensors (seen ob s)) x" using D(6) unfolding tensors_ok_def by blast
    then show ?thesis using x by (auto simp: has_tensors_def split: if_splits)
  qed
  have "emits (\<lambda>i. mem (seed_at (gen_states s) i)) (\<lambda>i. mem (offset_at (gen_states s) i)) rs
      = emits (\<lambda>i. fst (the (e_pos e i))) (\<lambda>i. snd (the (e_pos e i))) rs"
  proof (rule emits_cong)
    fix i assume "i \<in> fst ` set rs"
    then have i: "i \<in> members y" using sub by blast
    obtain x p q where x: "gen_states s i = Some x" "seed_extragraph x = Some p" "offset_extragraph x = Some q" using known [OF i] by blast
    then have "mem p = seed x \<and> mem q = philox_offset_per_thread x" using l i unfolding loaded_def by blast
    then show "mem (seed_at (gen_states s) i) = fst (the (e_pos e i)) \<and> mem (offset_at (gen_states s) i) = snd (the (e_pos e i))"
      using x D(3) by (simp add: positions_def)
  qed
  then have out: "map (unpack mem) ns = emits (\<lambda>i. fst (the (e_pos e i))) (\<lambda>i. snd (the (e_pos e i))) rs" using play by (simp add: plays_def)
  have "fst ` set rs \<subseteq> dom (e_pos e)"
  proof
    fix i assume "i \<in> fst ` set rs"
    then have "gen_states s i \<noteq> None" using known sub by blast
    then show "i \<in> dom (e_pos e)" using D(3) by (auto simp: positions_def)
  qed
  note fd = fold_draw [OF this]
  have pos: "moved_on rs (e_pos e) = (\<lambda>i. map_option (\<lambda>x. (seed x, philox_offset_per_thread x)) (?S i))"
  proof
    fix i
    have "advance_of i rs = 0" if "i \<notin> members y" using sub that by (intro advance_absent) blast
    then show "moved_on rs (e_pos e) i = map_option (\<lambda>x. (seed x, philox_offset_per_thread x)) (?S i)"
      by (cases "gen_states s i") (auto simp: moved_on_def D(3) positions_def replayed_def)
  qed
  note sh = replayed_shapes [of "gen_states s" "members y" rs]
  show ?thesis
    unfolding fd
  proof (rule sim_moved [OF S m])
    show "?S i = None \<longleftrightarrow> gen_states s i = None" for i by (simp add: replayed_def)
    have "\<not> gs_capturing x" if "?S i = Some x" for i x
      using same_shapesD(1) [OF sh that] D(9) by (auto simp: capture_ok_def rec same_links_and_mode_def)
    then show "capture_ok t (stream_captures ((seen ob s)\<lparr>word_at := mem, consumed := consumed (seen ob s) @ map (unpack mem) ns\<rparr>))
        (e_rec (e\<lparr>e_pos := moved_on rs (e_pos e), e_out := e_out e @ emits (\<lambda>i. fst (the (e_pos e i))) (\<lambda>i. snd (the (e_pos e i))) rs\<rparr>))"
      using D(9) by (simp add: capture_ok_def rec moved_fields [OF m])
  qed (use D pos out tensors_ok_shapes [OF sh D(6)] graphs_ok_shapes [OF sh D(7)] captures_ok_shapes [OF sh D(7,8)] in simp_all)
qed

lemma wp_replay_body:
  assumes C: "graph_calls_ok G cur own ob" and S: "sim G own ob s e" and rec: "e_rec e = None"
    and y: "graph_objs s gr = Some y" "captured (gen_states s) (exec_nodes (seen ob s)) y rs"
  shows "wp (sx_seq (for_states G gr (replay_prologue G))
       (sx_bind (on_gs (getCurrentSUPAStream (GDrv G) (GRt G) (-1))) (\<lambda>stream.
        sx_bind (on_gs (stream_of stream)) (\<lambda>h.
        on_gw (supa_check (supaGraphLaunch G (graph_exec y) h)))))) (\<lambda>_ t. sim G own ob t (fold draw rs e)) whatever s"
proof -
  note D = simD [OF S]
  let ?u = "seen ob s" and ?S = "gen_states s"
  let ?I = "\<lambda>V t. \<exists>mem. stepped G cur ob (?u\<lparr>word_at := mem\<rparr>) (replayed V rs ?S) (graph_objs s) s t \<and> loaded V ?S mem"
  have fin: "finite (members y)" using D(7) y(1) unfolding graphs_ok_def by blast
  have none: "\<forall>h. stream_captures ?u h = None" using D(9) rec by (auto simp: capture_ok_def)
  note order = graph_calls(5) [OF C fin]
  have "stepped G cur ob (?u\<lparr>word_at := word_at ?u\<rparr>) (replayed {} rs ?S) (graph_objs s) s s"
    using moved_refl [of G cur ob s] by (simp add: replayed_empty)
  then have I0: "?I (set []) s" unfolding loaded_def by (intro exI [of _ "word_at ?u"]) simp
  have "wp (sx_for (map_order G (members y)) (\<lambda>i. case captured_generator_states y i of None \<Rightarrow> sx_ret () | Some n \<Rightarrow> replay_prologue G i n))
      (\<lambda>_. ?I (set (map_order G (members y)))) whatever s"
  proof (rule wp_for_visited [where I = "\<lambda>ys. ?I (set ys)", OF I0], elim exE conjE, goal_cases)
    case (1 ys i zs t mem)
    have i: "i \<in> members y" "i \<notin> set ys" using arg_cong [OF 1(1), of set] order 1(1) by auto
    obtain n where n: "captured_generator_states y i = Some n" using i(1) by blast
    then have "n = advance_of i rs" using y(2) unfolding captured_def by blast
    then show ?case using wp_replay_prologue [OF C D(1) none D(6) 1(2,3) i(2)] n by simp
  qed
  then have loop: "wp (for_states G gr (replay_prologue G)) (\<lambda>_. ?I (members y)) whatever s"
    using order by (simp add: for_states_def y(1))
  show ?thesis
    unfolding wp_seq
  proof (rule wp_conseq [OF loop], elim exE conjE, goal_cases)
    case (1 x t mem)
    show ?case
    proof (rule wp_current_handle [OF C moved_fields(11) [OF 1(1) D(1)]], goal_cases)
      case (1 h t1)
      have t1: "stepped G cur ob (?u\<lparr>word_at := mem\<rparr>) (replayed (members y) rs ?S) (graph_objs s) s t1"
        by (rule moved_quiet [OF \<open>stepped G cur ob (?u\<lparr>word_at := mem\<rparr>) _ _ s t\<close> 1(2)])
      show ?case
      proof (rule wp_conseq [OF wp_does [where G = G, OF graph_calls(18) [OF C]]], elim exE conjE, goal_cases)
        case (1 x t2 v)
        have "\<exists>ns. exec_nodes ?u (graph_exec y) = Some ns \<and> v = ?u\<lparr>word_at := mem, consumed := consumed ?u @ map (unpack mem) ns\<rparr>"
          using 1(1) none moved_fields(3) [OF t1] by auto
        then obtain ns where ns: "exec_nodes ?u (graph_exec y) = Some ns" "v = ?u\<lparr>word_at := mem, consumed := consumed ?u @ map (unpack mem) ns\<rparr>" by blast
        have "stepped G cur ob v (replayed (members y) rs ?S) (graph_objs s) s t2" by (rule moved_acts [OF t1 1(2)])
        then show ?case using sim_replayed [OF S rec y \<open>loaded (members y) ?S mem\<close> ns(1)] ns(2) by simp
      qed simp
    qed
  qed simp
qed

lemma wp_replay:
  assumes C: "graph_calls_ok G cur own ob" and S: "sim G own ob s e" and rec: "e_rec e = None"
  shows "wp (replay G gr) (\<lambda>_ t. \<exists>rs. e_graph e gr = Some rs \<and> sim G own ob t (fold draw rs e)) whatever s"
proof (cases "\<exists>y. graph_objs s gr = Some y \<and> has_graph_exec y")
  case True
  then obtain y where y: "graph_objs s gr = Some y" "has_graph_exec y" by blast
  obtain rs where rs: "e_graph e gr = Some rs" "captured (gen_states s) (exec_nodes (seen ob s)) y rs"
    using captures_ok_exec [OF simD(8) [OF S] y] by blast
  have "wp (g_guard G (s_device (capture_stream y))
       (sx_seq (for_states G gr (replay_prologue G))
       (sx_bind (on_gs (getCurrentSUPAStream (GDrv G) (GRt G) (-1))) (\<lambda>stream.
        sx_bind (on_gs (stream_of stream)) (\<lambda>h.
        on_gw (supa_check (supaGraphLaunch G (graph_exec y) h))))))) (\<lambda>_ t. sim G own ob t (fold draw rs e)) whatever s"
  proof (rule wp_guard_sim [OF C S])
    fix w assume W: "sim G own ob (in_world s w) e"
    have "graph_objs (in_world s w) gr = Some y" by (simp add: y)
    moreover from captures_ok_exec [OF simD(8) [OF W] this y(2)] rs(1)
    have "captured (gen_states (in_world s w)) (exec_nodes (seen ob (in_world s w))) y rs" by auto
    ultimately show "wp (sx_seq (for_states G gr (replay_prologue G))
       (sx_bind (on_gs (getCurrentSUPAStream (GDrv G) (GRt G) (-1))) (\<lambda>stream.
        sx_bind (on_gs (stream_of stream)) (\<lambda>h.
        on_gw (supa_check (supaGraphLaunch G (graph_exec y) h)))))) (\<lambda>_ t. sim G own ob t (fold draw rs e)) whatever (in_world s w)"
      by (rule wp_replay_body [OF C W rec])
  qed
  then have "wp (g_guard G (s_device (capture_stream y))
       (sx_seq (for_states G gr (replay_prologue G))
       (sx_bind (on_gs (getCurrentSUPAStream (GDrv G) (GRt G) (-1))) (\<lambda>stream.
        sx_bind (on_gs (stream_of stream)) (\<lambda>h.
        on_gw (supa_check (supaGraphLaunch G (graph_exec y) h))))))) (\<lambda>_ t. \<exists>rs. e_graph e gr = Some rs \<and> sim G own ob t (fold draw rs e)) whatever s"
    by (rule wp_conseq) (use rs(1) in auto)
  then show ?thesis unfolding replay_def wp_bind wp_graph_ref y(1) option.case wp_seq [where m = "sx_check _ _"] wp_check
    by (simp only: y(2) if_True)
next
  case False
  then show ?thesis by (auto simp: replay_def split: option.splits)
qed

end
