(* ===== verification/Graph_Properties.thy ===== *)
theory Graph_Properties
  imports Graph_Replay
begin

text \<open>
  Histories of a process that draws random numbers in and out of captures, and their meaning: whatever
  the process replays, its kernels draw the numbers that eager execution draws.
\<close>

section \<open>Histories\<close>

text \<open>
  What a client keeps to: one capture at a time, ended on its graph, with no registration, replay or
  destruction while it is open; a generator is registered with a graph before the graph is captured;
  a random operation in a capture draws less than \<open>2\<^sup>3\<^sup>2\<close> numbers per thread, and the streams it
  selects are streams of their device. \<open>c\<close> is the graph whose capture is open.
\<close>

fun gop_ok :: "(int \<Rightarrow> nat set) \<Rightarrow> nat option \<Rightarrow> 'd gst \<Rightarrow> gop \<Rightarrow> bool" where
  "gop_ok own c s (GRandom g increment) = (c \<noteq> None \<longrightarrow> unat increment \<le> 2 ^ 32 - 4)"
| "gop_ok own c s (GRegister gr g) = (c = None \<and> (case graph_objs s gr of None \<Rightarrow> False | Some y \<Rightarrow> \<not> has_graph_exec y))"
| "gop_ok own c s (GBegin gr pool mode) = (c = None)"
| "gop_ok own c s (GEnd gr) = (c = Some gr)"
| "gop_ok own c s (GReplay gr) = (c = None)"
| "gop_ok own c s (GDestroy gr) = (c = None)"
| "gop_ok own c s (GStream x) = (0 \<le> s_device x \<and> (case raw_stream x s of Inl _ \<Rightarrow> True | Inr h \<Rightarrow> h \<in> own (s_device x)))"
| "gop_ok own c s _ = True"

fun opened :: "nat option \<Rightarrow> gop \<Rightarrow> nat option" where
  "opened c (GBegin gr pool mode) = Some gr"
| "opened c (GEnd gr) = None"
| "opened c _ = c"

text \<open>
  A history is a list of operations that returned, with their results. Between them the process does
  other things, which leave the generators, the graphs and what is observed of them alone.
\<close>

inductive graph_history :: "'d genv \<Rightarrow> ('d \<Rightarrow> int) \<Rightarrow> (int \<Rightarrow> nat set) \<Rightarrow> ('d \<Rightarrow> graph_obs) \<Rightarrow> 'd nca \<Rightarrow>
    (gop \<times> gres) list \<Rightarrow> nat option \<Rightarrow> 'd gst \<Rightarrow> bool" for G cur own ob n where
  start: "graph_history G cur own ob n [] None (initial_graphs n)"
| operation: "graph_history G cur own ob n hs c s \<Longrightarrow> gop_ok own c s op \<Longrightarrow> run_gop G op s = (Inr r, t) \<Longrightarrow>
    graph_history G cur own ob n (hs @ [(op, r)]) (opened c op) t"
| other: "graph_history G cur own ob n hs c s \<Longrightarrow> quiet G cur ob s t \<Longrightarrow> graph_history G cur own ob n hs c t"

fun eager_runs :: "64 word \<Rightarrow> (gop \<times> gres) list \<Rightarrow> eager \<Rightarrow> eager \<Rightarrow> bool" where
  "eager_runs sd [] e e' = (e' = e)"
| "eager_runs sd ((op, r) # hs) e e' = (\<exists>e1. espec sd op r e e1 \<and> eager_runs sd hs e1 e')"

lemma eager_runs_snoc: "eager_runs sd (hs @ [(op, r)]) e e' \<longleftrightarrow> (\<exists>e1. eager_runs sd hs e e1 \<and> espec sd op r e1 e')"
proof (induction hs arbitrary: e)
  case (Cons h hs)
  obtain a b where "h = (a, b)" by fastforce
  then show ?case by (simp add: Cons.IH) blast
qed simp

section \<open>One operation\<close>

abbreviation open_capture :: "eager \<Rightarrow> nat option" where
  "open_capture e \<equiv> map_option fst (e_rec e)"

lemma run_gop_sim:
  assumes C: "graph_calls_ok G cur own ob" and S: "sim G own ob s e" and ok: "gop_ok own (open_capture e) s op"
  shows "wp (run_gop G op) (\<lambda>r t. \<exists>e'. espec (default_rng_seed_val G) op r e e' \<and> sim G own ob t e') whatever s"
proof (cases op)
  case (GNew i)
  show ?thesis unfolding GNew run_gop.simps wp_bind wp_ret by (rule wp_conseq [OF wp_create [OF C S]]) auto
next
  case (GDefault i)
  show ?thesis unfolding GDefault run_gop.simps wp_bind wp_ret by (rule wp_conseq [OF wp_default [OF C S]]) auto
next
  case (GClone g)
  show ?thesis unfolding GClone run_gop.simps wp_bind wp_ret
    by (rule wp_conseq [OF wp_clone [OF C S]]) (auto simp: at_state_def split: option.splits)
next
  case (GShare g h)
  show ?thesis unfolding GShare run_gop.simps wp_bind wp_ret by (rule wp_conseq [OF wp_share [OF S]]) auto
next
  case (GSeed g sd)
  show ?thesis unfolding GSeed run_gop.simps wp_bind wp_ret
    by (rule wp_conseq [OF wp_set_current_seed [OF C S]]) (auto simp: at_state_def split: option.splits)
next
  case (GRandomSeed g)
  show ?thesis unfolding GRandomSeed run_gop.simps wp_bind wp_ret
    by (rule wp_conseq [OF wp_gen_seed [OF C S]]) (auto simp: at_state_def split: option.splits)
next
  case (GOffset g offset)
  show ?thesis unfolding GOffset run_gop.simps wp_bind wp_ret
    by (rule wp_conseq [OF wp_set_offset [OF C S]]) (auto simp: at_state_def split: option.splits)
next
  case (GRestore g bytes)
  show ?thesis unfolding GRestore run_gop.simps wp_bind wp_ret
    by (rule wp_conseq [OF wp_restore [OF C S]]) (auto simp: at_state_def split: option.splits)
next
  case (GRandom g increment)
  have "e_rec e \<noteq> None \<Longrightarrow> unat increment \<le> 2 ^ 32 - 4" using ok by (simp add: GRandom)
  then show ?thesis unfolding GRandom run_gop.simps wp_bind wp_ret by (rule wp_random [OF C S])
next
  case (GInputs g increment)
  show ?thesis unfolding GInputs run_gop.simps wp_bind wp_ret
    by (rule wp_conseq [OF wp_engine [OF C S]]) (auto simp: at_state_def split: option.splits)
next
  case GGraph
  show ?thesis unfolding GGraph run_gop.simps wp_bind wp_ret by (rule wp_conseq [OF wp_graph [OF C S]]) auto
next
  case (GRegister gr g)
  then obtain y where "graph_objs s gr = Some y" "\<not> has_graph_exec y" "e_rec e = None" using ok by (auto split: option.splits)
  then show ?thesis unfolding GRegister run_gop.simps wp_bind wp_ret by (intro wp_conseq [OF wp_register [OF C S]]) auto
next
  case (GBegin gr pool mode)
  then have "e_rec e = None" using ok by simp
  then show ?thesis unfolding GBegin run_gop.simps wp_bind wp_ret by (intro wp_conseq [OF wp_capture_begin [OF C S]]) auto
next
  case (GEnd gr)
  then obtain rs where "e_rec e = Some (gr, rs)" using ok by auto
  then show ?thesis unfolding GEnd run_gop.simps wp_bind wp_ret by (intro wp_conseq [OF wp_capture_end [OF C S]]) auto
next
  case (GReplay gr)
  then have "e_rec e = None" using ok by simp
  then show ?thesis unfolding GReplay run_gop.simps wp_bind wp_ret by (intro wp_conseq [OF wp_replay [OF C S]]) auto
next
  case (GReset gr)
  show ?thesis unfolding GReset run_gop.simps wp_bind wp_ret by (rule wp_conseq [OF wp_reset [OF C S]]) auto
next
  case (GDestroy gr)
  then have "e_rec e = None" using ok by simp
  then show ?thesis unfolding GDestroy run_gop.simps wp_bind wp_ret by (intro wp_conseq [OF wp_destroy [OF C S]]) auto
next
  case GDebug
  have "sim G own ob (s\<lparr>supa_graphs_debug := True\<rparr>) e" using S by (subst sim_cong [where s = s]) simp_all
  then show ?thesis unfolding GDebug by (simp add: enable_debug_mode_def)
next
  case (GDump gr path)
  show ?thesis unfolding GDump run_gop.simps wp_bind wp_ret by (rule wp_conseq [OF wp_dump [OF C S]]) auto
next
  case (GStream x)
  have "0 \<le> s_device x" "\<And>h. raw_stream x s = Inr h \<Longrightarrow> h \<in> own (s_device x)" using ok by (auto simp: GStream)
  then show ?thesis unfolding GStream run_gop.simps wp_bind wp_ret by (intro wp_conseq [OF wp_set_stream [OF C S]]) auto
next
  case (GDevice i)
  show ?thesis unfolding GDevice run_gop.simps wp_bind wp_ret by (rule wp_conseq [OF wp_device [OF C S]]) auto
qed

lemma draw_rec: "e_rec (draw r e) = e_rec e"
  by (auto simp: draw_def split: prod.splits option.splits)

lemma fold_draw_rec: "e_rec (fold draw rs e) = e_rec e"
  by (induction rs arbitrary: e) (simp_all add: draw_rec)

lemma adds_rec: "adds_generator g sd offset e e' \<Longrightarrow> e_rec e' = e_rec e"
  by (auto simp: adds_generator_def set_pos_def)

lemma set_pos_rec: "e_rec (set_pos i sd offset e) = e_rec e"
  by (simp add: set_pos_def)

lemma at_stateD: "at_state g e P \<Longrightarrow> \<exists>i sd offset. P i sd offset"
  by (auto simp: at_state_def split: option.splits)

lemma espec_opened:
  assumes "espec sd op r e e'"
  shows "open_capture e' = opened (open_capture e) op"
  using assms
  by (cases op) (auto simp: fold_draw_rec draw_rec set_pos_rec dest!: at_stateD adds_rec may_add_default_rec)

section \<open>Replay is eager execution\<close>

lemma initial_sim:
  assumes "streams_settled G own (initial_graphs n)" and "\<forall>h. stream_captures (ob (nca_drv n)) h = None"
  shows "sim G own ob (initial_graphs n) (eager_start (consumed (ob (nca_drv n))))"
  using assms
  by (simp add: sim_def eager_start_def positions_def gen_map_def objects_ok_def tensors_ok_def graphs_ok_def captures_ok_def capture_ok_def
      initial_graphs_def fun_eq_iff)

lemma history_sim:
  assumes "graph_history G cur own ob n hs c s" and C: "graph_calls_ok G cur own ob"
    and "streams_settled G own (initial_graphs n)" and "\<forall>h. stream_captures (ob (nca_drv n)) h = None"
  shows "\<exists>e. eager_runs (default_rng_seed_val G) hs (eager_start (consumed (ob (nca_drv n)))) e \<and> sim G own ob s e \<and> open_capture e = c"
  using assms(1)
proof induction
  case start
  then show ?case using initial_sim [where ob = ob and n = n, OF assms(3,4)] by (intro exI [of _ "eager_start (consumed (ob (nca_drv n)))"]) (simp add: eager_start_def)
next
  case (operation hs c s op r t)
  then obtain e where e: "eager_runs (default_rng_seed_val G) hs (eager_start (consumed (ob (nca_drv n)))) e" "sim G own ob s e" "open_capture e = c"
    by blast
  have "gop_ok own (open_capture e) s op" using operation.hyps(2) e(3) by simp
  from wpD_Inr [OF run_gop_sim [OF C e(2) this] operation.hyps(3)]
  obtain e' where "espec (default_rng_seed_val G) op r e e'" "sim G own ob t e'" by blast
  then show ?case using e(1,3) espec_opened eager_runs_snoc by metis
next
  case (other hs c s t)
  then show ?case using sim_quiet by blast
qed


end
