(* ===== verification/Graph_Examples.thy ===== *)
theory Graph_Examples
  imports Graph_Properties
begin

text \<open>
  A reference runtime for graphs, which keeps nothing but what is observed and the next free handle, and
  a short history on it: a graph with one random kernel is captured and replayed.
\<close>

section \<open>The reference runtime\<close>

record graph_state =
  gs_seen :: graph_obs
  gs_next :: nat

definition g_ok :: "graph_state drv_call" where
  "g_ok d = (supaSuccess, d)"

definition g_out :: "'a \<Rightarrow> (graph_state, 'a) drv_out" where
  "g_out x d = ((supaSuccess, x), d)"

definition g_driver :: "graph_state driver" where
  "g_driver =
     \<lparr>supaMalloc = \<lambda>_. g_out 0, supaFree = \<lambda>_. g_ok, supaGetLastError = g_ok, supaMemGetInfo = g_out (0, 0),
      supaEventCreateWithFlags = g_out 0, supaEventRecord = \<lambda>_ _. g_ok, supaEventQuery = \<lambda>_. g_ok,
      supaEventSynchronize = \<lambda>_. g_ok, supaStreamSynchronize = \<lambda>_. g_ok, supaGetDevice = g_out 0,
      supaSetDevice = \<lambda>i d. (if i = 0 then supaSuccess else supaErrorOther 1, d),
      suDevicePrimaryCtxGetState = \<lambda>_. g_out True, supaIpcGetMemHandle = \<lambda>_. g_out [], totalGlobalMem = \<lambda>_. g_out 0,
      suMemAddressReserve = \<lambda>_. g_out 0, suMemAddressFree = \<lambda>_ _. g_ok, suMemCreate = \<lambda>_ _. g_out 0, suMemRelease = \<lambda>_. g_ok,
      suMemMap = \<lambda>_ _ _. g_ok, suMemUnmap = \<lambda>_ _. g_ok, suMemSetAccess = \<lambda>_ _ _. g_ok,
      suMemExportToShareableHandle = \<lambda>_. g_out 0, suMemImportFromShareableHandle = \<lambda>_. g_out 0,
      pidfd_open = \<lambda>p d. (Some p, d), pidfd_getfd = \<lambda>_ f d. (Some f, d), close_fd = \<lambda>_ d. d, getpid = 1,
      capturing = \<lambda>d. (False, d), exchangeCaptureMode = \<lambda>_ d. (0, d), raw_alloc_hook = \<lambda>_ _ d. (0, d),
      raw_delete_hook = \<lambda>_ _ d. d, callback_keys = [], callback_execute = \<lambda>_ d. (False, d), device_count = 1\<rparr>"

definition g_rt :: "graph_state rt" where
  "g_rt =
     \<lparr>supaGetDeviceCount = g_out 1, supaDriverGetVersion = g_out 1, supaDeviceGetStreamPriorityRange = g_out (0, -1),
      supaStreamCreateWithPriority = \<lambda>_. g_out 0, supaStreamQuery = \<lambda>_. g_ok, supaStreamGetPriority = \<lambda>_. g_out 0,
      supaStreamWaitEvent = \<lambda>_ _. g_ok, supaEventCreateFlags = \<lambda>_. g_out 0, supaEventDestroy = \<lambda>_. g_ok,
      supaEventElapsedTime = \<lambda>_ _. g_out 0, supaIpcOpenEventHandle = \<lambda>_. g_out 0, supaIpcGetEventHandle = \<lambda>_. g_out [],
      supaDeviceSynchronize = g_ok, supaDeviceCanAccessPeer = \<lambda>_ _. g_out 0, supaDeviceEnablePeerAccess = \<lambda>_. g_ok,
      supaMemcpy = \<lambda>_ _ _. g_ok, supaMemcpyAsync = \<lambda>_ _ _ _. g_ok, supaMemcpyPeerAsync = \<lambda>_ _ _ _ _ _. g_ok,
      supaIpcOpenMemHandle = \<lambda>_. g_out 0, supaIpcCloseMemHandle = \<lambda>_. g_ok, gpu_trace = False\<rparr>"

text \<open>An operation that observes \<open>f u\<close> after \<open>u\<close>, or fails.\<close>

definition g_upd :: "(graph_obs \<Rightarrow> graph_obs option) \<Rightarrow> graph_state drv_call" where
  "g_upd f d = (case f (gs_seen d) of None \<Rightarrow> (supaErrorOther 1, d) | Some v \<Rightarrow> (supaSuccess, d\<lparr>gs_seen := v\<rparr>))"

text \<open>An operation that also makes an object with a new handle.\<close>

definition g_make :: "(nat \<Rightarrow> graph_obs \<Rightarrow> graph_obs option) \<Rightarrow> (graph_state, nat) drv_out" where
  "g_make f d = (case f (gs_next d) (gs_seen d) of None \<Rightarrow> ((supaErrorOther 1, 0), d)
     | Some v \<Rightarrow> ((supaSuccess, gs_next d), d\<lparr>gs_seen := v, gs_next := Suc (gs_next d)\<rparr>))"

definition touch_drv :: "('d \<Rightarrow> 'd) \<Rightarrow> 'd nca \<Rightarrow> 'd nca" where
  "touch_drv f = p_streams_update (st_world_update (drv_update f))"

definition g_env :: "graph_state genv" where
  "g_env =
     \<lparr>GEnv = \<lparr>Env = \<lparr>Drv = g_driver, Cfg = SUPAAllocatorConfig_ctor, Lib = ref_lib, ActiveMemPool = None\<rparr>, Rt = g_rt, force_uncached = False\<rparr>,
      supaStreamIsCapturing = \<lambda>h d. g_out (if stream_captures (gs_seen d) h = None then CaptureStatusNone else CaptureStatusActive) d,
      supaStreamGetCaptureInfo = \<lambda>h d. g_out (if stream_captures (gs_seen d) h = None then CaptureStatusNone else CaptureStatusActive, 1) d,
      supaStreamBeginCapture = \<lambda>h _. g_upd (\<lambda>u. Some (u\<lparr>stream_captures := (stream_captures u)(h \<mapsto> [])\<rparr>)),
      supaStreamEndCapture = \<lambda>h. g_make (\<lambda>g u. case stream_captures u h of None \<Rightarrow> None
        | Some ns \<Rightarrow> Some (u\<lparr>stream_captures := (stream_captures u)(h := None), graph_nodes := (graph_nodes u)(g \<mapsto> ns)\<rparr>)),
      supaGraphInstantiateWithFlags = \<lambda>g. g_make (\<lambda>e u. if exec_nodes u e = None
        then Some (u\<lparr>exec_nodes := (exec_nodes u)(e := graph_nodes u g)\<rparr>) else None),
      supaGraphGetNodes = \<lambda>_. g_out 1,
      supaGraphDestroy = \<lambda>g. g_upd (\<lambda>u. Some (u\<lparr>graph_nodes := (graph_nodes u)(g := None)\<rparr>)),
      supaGraphExecDestroy = \<lambda>e. g_upd (\<lambda>u. Some (u\<lparr>exec_nodes := (exec_nodes u)(e := None)\<rparr>)),
      supaGraphLaunch = \<lambda>e h. g_upd (\<lambda>u. case exec_nodes u e of None \<Rightarrow> None
        | Some ns \<Rightarrow> Some (u\<lparr>consumed := consumed u @ map (unpack (word_at u)) ns\<rparr>)),
      supaGraphDebugDotPrint = \<lambda>_ _. g_ok,
      launch_kernel = \<lambda>ps h. g_upd (\<lambda>u. Some (case stream_captures u h of
          None \<Rightarrow> u\<lparr>consumed := consumed u @ [unpack (word_at u) ps]\<rparr>
        | Some ns \<Rightarrow> u\<lparr>stream_captures := (stream_captures u)(h \<mapsto> ns @ [ps])\<rparr>)),
      tensor_empty = \<lambda>n. (let p = gs_next (nca_drv n) in if p \<in> tensors (gs_seen (nca_drv n)) then (Inl OutOfMemoryError, n)
        else (Inr p, touch_drv (\<lambda>d. d\<lparr>gs_next := Suc p, gs_seen := (gs_seen d)\<lparr>tensors := insert p (tensors (gs_seen d))\<rparr>\<rparr>) n)),
      tensor_fill = \<lambda>p v n. (Inr (), touch_drv (gs_seen_update (\<lambda>u. u\<lparr>word_at := (word_at u)(p := v)\<rparr>)) n),
      tensor_drop = \<lambda>p. touch_drv (gs_seen_update (\<lambda>u. u\<lparr>tensors := tensors u - {p}\<rparr>)),
      getNonDeterministicRandom = \<lambda>d. (42, d), default_rng_seed_val = 67280421310721, map_order = sorted_list_of_set,
      capture_filter = \<lambda>_ _. False\<rparr>"

section \<open>Its laws\<close>

lemma g_driver_ok: "device_calls_ok (GDrv g_env) (\<lambda>_. 0)" "accepts_devices (GDrv g_env)" "device_neutral (GDrv g_env) gs_seen"
  by (simp_all add: g_env_def g_driver_def g_out_def device_calls_ok_def accepts_devices_def device_neutral_def split: if_splits)

lemma touch_drv_process: "same_process D (\<lambda>_. 0) n (touch_drv f n)" "nca_drv (touch_drv f n) = f (nca_drv n)"
  by (simp_all add: same_process_def touch_drv_def thread_device_def)

lemma same_words: "u\<lparr>tensors := T\<rparr> = u\<lparr>word_at := word_at u, tensors := T\<rparr>"
  by (cases u) simp

lemma g_tensors_ok: "tensor_calls_ok g_env (\<lambda>_. 0) gs_seen"
  unfolding tensor_calls_ok_def
  by (auto simp: g_env_def Let_def touch_drv_process split: if_splits intro!: exI [where x = "word_at (gs_seen (nca_drv n))" for n] same_words)

lemma g_laws: "graph_calls_ok g_env (\<lambda>_. 0) (\<lambda>_. UNIV) gs_seen"
  unfolding graph_calls_ok_def
proof (intro conjI g_driver_ok g_tensors_ok allI impI)
qed (auto simp: g_env_def g_driver_def g_ok_def g_out_def g_upd_def g_make_def keeps_graphs_def gives_def does_def destroys_def split: option.splits)

section \<open>States of the example\<close>

text \<open>
  One device, no device selected, and an external stream with handle 4 as the current one; the thread has
  one generator at most, the default one.
\<close>

definition ex_nca :: "graph_obs \<Rightarrow> nat \<Rightarrow> graph_state dca list \<Rightarrow> graph_state nca" where
  "ex_nca u k ds = \<lparr>allocator_enabled = True, allocated_blocks = \<lambda>_. None, device_allocator = ds, ipcMemHandle_to_devptr = \<lambda>_. None,
     p_streams = \<lparr>st_world = \<lparr>drv = \<lparr>gs_seen = u, gs_next = k\<rparr>, k_device = -1, event_pools = \<lambda>_. []\<rparr>,
       init_flag = True, num_gpus = 1, max_stream_priorities = 0, device_flags = \<lambda>_. False, priority_counters = \<lambda>_ _. 0,
       streams = \<lambda>_ _ _. 0, current_streams = Some (\<lambda>_. 4), sync_debug_mode = L_DISABLED\<rparr>\<rparr>"

definition ex_gst :: "graph_obs \<Rightarrow> nat \<Rightarrow> graph_state dca list \<Rightarrow> bool \<Rightarrow> (nat \<Rightarrow> SUPAGeneratorState option) \<Rightarrow> (nat \<Rightarrow> SUPAGraph option) \<Rightarrow>
    64 word \<Rightarrow> graph_state gst" where
  "ex_gst u k ds made S H i =
     \<lparr>g_nca = ex_nca u k ds, gen_states = S,
      generators = if made then [0 \<mapsto> \<lparr>gen_device = 0, gen_state = 0, no_reset_rnn_state = False\<rparr>] else (\<lambda>_. None), graph_objs = H,
      next_state = if made then 1 else 0, next_generator = if made then 1 else 0, next_graph = if H 0 = None then 0 else 1,
      num_gpu_init_flag = made, gens_num_gpus = if made then 1 else 0, supa_gens_init_flag = if made then (\<lambda>_. False)(0 := True) else (\<lambda>_. False),
      default_gens_supa = if made then [0 \<mapsto> 0] else (\<lambda>_. None), uid = 1, uuid = i, pending_event_queries = 0, supa_graphs_debug = False\<rparr>"

lemma ex_sel:
  "g_nca (ex_gst u k ds made S H i) = ex_nca u k ds" "gen_states (ex_gst u k ds made S H i) = S" "graph_objs (ex_gst u k ds made S H i) = H"
  "uuid (ex_gst u k ds made S H i) = i" "pending_event_queries (ex_gst u k ds made S H i) = 0" "supa_graphs_debug (ex_gst u k ds made S H i) = False"
  "generators (ex_gst u k ds True S H i) = [0 \<mapsto> \<lparr>gen_device = 0, gen_state = 0, no_reset_rnn_state = False\<rparr>]"
  by (simp_all add: ex_gst_def)

lemma ex_upd:
  "(ex_gst u k ds made S H i)\<lparr>g_nca := ex_nca u' k' ds'\<rparr> = ex_gst u' k' ds' made S H i"
  "(ex_gst u k ds made S H i)\<lparr>gen_states := S'\<rparr> = ex_gst u k ds made S' H i"
  "(ex_gst u k ds made S H i)\<lparr>uuid := i'\<rparr> = ex_gst u k ds made S H i'"
  "(ex_gst u k ds made S [0 \<mapsto> y] i)\<lparr>graph_objs := [0 \<mapsto> y']\<rparr> = ex_gst u k ds made S [0 \<mapsto> y'] i"
  by (simp_all add: ex_gst_def)

lemma ex_drv [simp]: "nca_drv (ex_nca u k ds) = \<lparr>gs_seen = u, gs_next = k\<rparr>" "device_allocator (ex_nca u k ds) = ds"
  by (simp_all add: ex_nca_def)

lemma ex_on_drv: "touch_drv f (ex_nca u k ds) = ex_nca (gs_seen (f \<lparr>gs_seen = u, gs_next = k\<rparr>)) (gs_next (f \<lparr>gs_seen = u, gs_next = k\<rparr>)) ds"
  by (cases "f \<lparr>gs_seen = u, gs_next = k\<rparr>") (simp add: ex_nca_def touch_drv_def)

section \<open>Calls on these states\<close>

lemma g_env_sel:
  "GDrv g_env = g_driver" "GRt g_env = g_rt"
  "supaStreamIsCapturing g_env h d = ((supaSuccess, if stream_captures (gs_seen d) h = None then CaptureStatusNone else CaptureStatusActive), d)"
  "supaStreamGetCaptureInfo g_env h d = ((supaSuccess, if stream_captures (gs_seen d) h = None then CaptureStatusNone else CaptureStatusActive, 1), d)"
  "supaStreamBeginCapture g_env h m = g_upd (\<lambda>u. Some (u\<lparr>stream_captures := (stream_captures u)(h \<mapsto> [])\<rparr>))"
  "supaStreamEndCapture g_env h = g_make (\<lambda>g u. case stream_captures u h of None \<Rightarrow> None
        | Some ns \<Rightarrow> Some (u\<lparr>stream_captures := (stream_captures u)(h := None), graph_nodes := (graph_nodes u)(g \<mapsto> ns)\<rparr>))"
  "supaGraphInstantiateWithFlags g_env g = g_make (\<lambda>e u. if exec_nodes u e = None
        then Some (u\<lparr>exec_nodes := (exec_nodes u)(e := graph_nodes u g)\<rparr>) else None)"
  "supaGraphGetNodes g_env g d = ((supaSuccess, 1), d)"
  "supaGraphDestroy g_env g = g_upd (\<lambda>u. Some (u\<lparr>graph_nodes := (graph_nodes u)(g := None)\<rparr>))"
  "supaGraphLaunch g_env e h = g_upd (\<lambda>u. case exec_nodes u e of None \<Rightarrow> None
        | Some ns \<Rightarrow> Some (u\<lparr>consumed := consumed u @ map (unpack (word_at u)) ns\<rparr>))"
  "launch_kernel g_env ps h = g_upd (\<lambda>u. Some (case stream_captures u h of
          None \<Rightarrow> u\<lparr>consumed := consumed u @ [unpack (word_at u) ps]\<rparr>
        | Some ns \<Rightarrow> u\<lparr>stream_captures := (stream_captures u)(h \<mapsto> ns @ [ps])\<rparr>))"
  "tensor_fill g_env p v n = (Inr (), touch_drv (gs_seen_update (\<lambda>u. u\<lparr>word_at := (word_at u)(p := v)\<rparr>)) n)"
  "tensor_empty g_env n = (let p = gs_next (nca_drv n) in if p \<in> tensors (gs_seen (nca_drv n)) then (Inl OutOfMemoryError, n)
        else (Inr p, touch_drv (\<lambda>d. d\<lparr>gs_next := Suc p, gs_seen := (gs_seen d)\<lparr>tensors := insert p (tensors (gs_seen d))\<rparr>\<rparr>) n))"
  "getNonDeterministicRandom g_env d = (42, d)" "default_rng_seed_val g_env = 67280421310721" "map_order g_env = sorted_list_of_set"
  "capture_filter g_env gr = (\<lambda>_. False)"
  by (simp_all add: g_env_def g_out_def)

lemma g_driver_sel:
  "device_count g_driver = 1" "supaGetDevice g_driver d = ((supaSuccess, 0), d)"
  "suDevicePrimaryCtxGetState g_driver i d = ((supaSuccess, True), d)" "supaSetDevice g_driver i d = (if i = 0 then supaSuccess else supaErrorOther 1, d)"
  by (simp_all add: g_driver_def g_out_def)

abbreviation at_nca :: "graph_state gst \<Rightarrow> graph_obs \<Rightarrow> nat \<Rightarrow> graph_state dca list \<Rightarrow> bool" where
  "at_nca s u k ds \<equiv> g_nca s = ex_nca u k ds"

lemma ex_streams: "at_nca s u k ds \<Longrightarrow> init_flag (g_streams s) \<and> num_gpus (g_streams s) = 1 \<and> current_streams (g_streams s) = Some (\<lambda>_. 4) \<and> k_device (g_world s) = -1"
  by (simp add: ex_nca_def)

lemma ex_device: "at_nca s u k ds \<Longrightarrow> wp (on_gw (current_device g_driver)) Q E s = Q 0 s"
  by (drule ex_streams) (simp add: current_device_def GetDevice_def g_driver_sel)

lemma ex_current: "at_nca s u k ds \<Longrightarrow> wp (on_gs (getCurrentSUPAStream g_driver g_rt (-1))) Q E s = Q (SUPAStreamForId 0 4) s"
  by (drule ex_streams) (simp add: getCurrentSUPAStream_def initSUPAStreamsOnce_def resolve_device_def current_device_def GetDevice_def
      SetTargetDevice_def check_gpu_def current_at_def g_driver_sel)

lemma ex_default_stream: "at_nca s u k ds \<Longrightarrow> wp (on_gs (getDefaultSUPAStream g_driver g_rt (-1))) Q E s = Q (SUPAStreamForId 0 0) s"
  by (drule ex_streams) (simp add: getDefaultSUPAStream_def initSUPAStreamsOnce_def resolve_device_def current_device_def GetDevice_def
      SetTargetDevice_def check_gpu_def current_at_def g_driver_sel makeStreamId_def)

lemma ex_handle: "wp (on_gs (stream_of (SUPAStreamForId 0 4))) Q E s = Q 4 s"
  unfolding wp_g_stream_of by (simp add: raw_stream_def stream_of_def SUPAStreamForId_def streamIdType_def sx_defs Let_def stream_constants)

lemma ex_context: "wp (on_gw (hasPrimaryContext g_driver 0)) Q E s = Q True s"
  by (simp add: hasPrimaryContext_def g_driver_sel driver_check_out_def driver_err_def)

lemma ex_capturing: "wp (on_gw (supa_check_out (supaStreamIsCapturing g_env 4))) Q E s
    = Q (if stream_captures (seen gs_seen s) 4 = None then CaptureStatusNone else CaptureStatusActive) s"
  by (simp add: g_env_sel supa_check_out_def)

lemma ex_status: "at_nca s u k ds \<Longrightarrow> wp (currentStreamCaptureStatus g_env) Q E s
    = Q (if stream_captures u 4 = None then CaptureStatusNone else CaptureStatusActive) s"
  unfolding currentStreamCaptureStatus_def currentStreamCaptureStatusMayInitCtx_def g_env_sel(1,2) wp_bind
  by (simp only: ex_device ex_context if_True wp_bind ex_current ex_handle ex_capturing ex_drv graph_state.select_convs)

lemma ex_assert: "at_nca s u k ds \<Longrightarrow> stream_captures u 4 = None \<Longrightarrow> wp (assertNotCapturing g_env msg) Q E s = Q () s"
  by (simp add: assertNotCapturing_def ex_status)

lemma ex_call: "at_nca s u k ds \<Longrightarrow> f u = Some v \<Longrightarrow> wp (on_gw (supa_check (g_upd f))) Q E s = Q () (s\<lparr>g_nca := ex_nca v k ds\<rparr>)"
  by (simp add: supa_check_def g_upd_def ex_nca_def)

lemma ex_make: "at_nca s u k ds \<Longrightarrow> f k u = Some v \<Longrightarrow> wp (on_gw (supa_check_out (g_make f))) Q E s = Q k (s\<lparr>g_nca := ex_nca v (Suc k) ds\<rparr>)"
  by (simp add: supa_check_out_def g_make_def ex_nca_def)

lemma ex_empty: "at_nca s u k ds \<Longrightarrow> k \<notin> tensors u \<Longrightarrow>
    wp (on_nca (tensor_empty g_env)) Q E s = Q k (s\<lparr>g_nca := ex_nca (u\<lparr>tensors := insert k (tensors u)\<rparr>) (Suc k) ds\<rparr>)"
  by (simp add: wp_def sx_field_def g_env_sel Let_def ex_on_drv)

lemma ex_fill: "at_nca s u k ds \<Longrightarrow>
    wp (on_nca (tensor_fill g_env p v)) Q E s = Q () (s\<lparr>g_nca := ex_nca (u\<lparr>word_at := (word_at u)(p := v)\<rparr>) k ds\<rparr>)"
  by (simp add: wp_def sx_field_def g_env_sel ex_on_drv)

lemma ex_info: "wp (on_gw (supa_check_out (supaStreamGetCaptureInfo g_env 4))) Q E s
    = Q (if stream_captures (seen gs_seen s) 4 = None then CaptureStatusNone else CaptureStatusActive, 1) s"
  by (simp add: g_env_sel supa_check_out_def)

lemma ex_streams_differ: "SUPAStreamForId 0 4 \<noteq> SUPAStreamForId 0 0"
  by (simp add: SUPAStreamForId_def)

lemma ex_entropy: "wp (on_gw (drv_call (getNonDeterministicRandom g_env))) Q E s = Q 42 s"
  by (simp add: g_env_sel)


section \<open>A history\<close>

lemmas ex_steps = ex_sel ex_upd ex_device ex_current ex_default_stream ex_handle ex_status ex_assert ex_call ex_make ex_empty ex_fill ex_entropy
  g_env_sel

abbreviation ex_gs :: "64 word \<Rightarrow> SUPAGeneratorState" where
  "ex_gs sd \<equiv> \<lparr>seed = sd, philox_offset_per_thread = 0, offset_intragraph = 0, gs_capturing = False, registered_graphs = {},
     seed_extragraph = None, offset_extragraph = None\<rparr>"

lemma ex_default: "stream_captures u 4 = None \<Longrightarrow> wp (getDefaultSUPAGenerator g_env (-1)) Q E (ex_gst u k ds False (\<lambda>_. None) [0 \<mapsto> y] i)
    = Q 0 (ex_gst u k ds True [0 \<mapsto> ex_gs 42] [0 \<mapsto> y] i)"
  by (simp add: getDefaultSUPAGenerator_def init_gens_def initSUPAGenVector_def default_at_def make_default_def SUPAGeneratorImpl_ctor_def
     SUPAGeneratorState_ctor_def gen_seed_def set_current_seed_def g_driver_sel ex_steps ex_gst_def del: wp_field)

abbreviation ex_gs_graph :: "SUPAGeneratorState" where
  "ex_gs_graph \<equiv> \<lparr>seed = 42, philox_offset_per_thread = 0, offset_intragraph = 0, gs_capturing = False, registered_graphs = {0},
     seed_extragraph = Some 1, offset_extragraph = Some 2\<rparr>"

lemma ex_register: "stream_captures u 4 = None \<Longrightarrow> tensors u = {} \<Longrightarrow>
    wp (gen_register_graph g_env 0 0) Q E (ex_gst u 1 ds True [0 \<mapsto> ex_gs 42] [0 \<mapsto> y] i)
    = Q () (ex_gst (u\<lparr>tensors := {2, 1}\<rparr>) 3 ds True [0 \<mapsto> ex_gs_graph] [0 \<mapsto> y\<lparr>captured_generator_states := (captured_generator_states y)(0 \<mapsto> 0)\<rparr>] i)"
  by (simp add: gen_register_graph_def register_generator_state_def gs_register_graph_def drop_tensor_def ex_steps numeral_2_eq_2 numeral_3_eq_3 del: wp_field)

lemma ex_prologue: "members y = {0} \<Longrightarrow> wp (for_states g_env 0 (\<lambda>i _. capture_prologue g_env i)) Q E (ex_gst u k ds True [0 \<mapsto> ex_gs_graph] [0 \<mapsto> y] i)
    = Q () (ex_gst (u\<lparr>word_at := (word_at u)(1 := 42, 2 := 0)\<rparr>) k ds True [0 \<mapsto> ex_gs_graph\<lparr>gs_capturing := True\<rparr>] [0 \<mapsto> y] i)"
proof -
  assume m: "members y = {0}"
  then obtain n where "captured_generator_states y 0 = Some n" by blast
  then show ?thesis using m by (simp add: for_states_def capture_prologue_def fill_tensor_def ex_steps del: wp_field)
qed

text \<open>The allocator of the device, before, in and after the capture.\<close>

definition ex_world :: "graph_obs \<Rightarrow> nat \<Rightarrow> graph_state world" where
  "ex_world u k = \<lparr>drv = \<lparr>gs_seen = u, gs_next = k\<rparr>, k_device = -1, event_pools = \<lambda>_. []\<rparr>"

lemma ex_on_dev:
  assumes "at_nca s u k [d]" and "m (d\<lparr>world := ex_world u k\<rparr>) = (Inr x, d')" and "world d' = ex_world u k"
  shows "wp (on_nca (on_valid 0 m)) Q E s = Q x (s\<lparr>g_nca := ex_nca u k [d']\<rparr>)"
  using assms
  by (simp add: wp_def on_valid_def assertValidDevice_def on_dev_def run_dev_def sx_field_def sx_defs ex_nca_def ex_world_def)

definition ex_before :: "graph_state dca" where
  "ex_before = DeviceCachingAllocator_ctor (Env (GEnv g_env)) (ex_world \<lparr>word_at = \<lambda>_. 0, tensors = {}, stream_captures = \<lambda>_. None, graph_nodes = \<lambda>_. None,
     exec_nodes = \<lambda>_. None, consumed = []\<rparr> 1)"

definition ex_during :: "graph_state world \<Rightarrow> graph_state dca" where
  "ex_during w = ex_before\<lparr>world := w, graph_pools := [((1, 0), PrivatePool_ctor None)],
     pools := (pools ex_before)(Private (1, 0) True := BlockPool_ctor, Private (1, 0) False := BlockPool_ctor), captures_underway := [((1, 0), \<lambda>_. False)]\<rparr>"

definition ex_after :: "graph_state world \<Rightarrow> graph_state dca" where
  "ex_after w = (ex_during w)\<lparr>captures_underway := []\<rparr>"

lemma ex_before_sel: "graph_pools ex_before = []" "captures_underway ex_before = []"
  by (simp_all add: ex_before_def DeviceCachingAllocator_ctor_def)

lemma ex_begin_alloc: "at_nca s u k [ex_before] \<Longrightarrow> wp (on_nca (native_beginAllocateToPool 0 (1, 0) (\<lambda>_. False))) Q E s
    = Q () (s\<lparr>g_nca := ex_nca u k [ex_during (ex_world u k)]\<rparr>)"
  unfolding native_beginAllocateToPool_def
  by (erule ex_on_dev)
    (simp_all add: ex_during_def ex_before_sel beginAllocateToPool_def create_or_incref_pool_def sx_defs)

lemma ex_end_alloc: "at_nca s u k [ex_during w] \<Longrightarrow> wp (on_nca (native_endAllocateToPool 0 (1, 0))) Q E s
    = Q () (s\<lparr>g_nca := ex_nca u k [ex_after (ex_world u k)]\<rparr>)"
  unfolding native_endAllocateToPool_def
  by (erule ex_on_dev) (simp_all add: ex_during_def ex_after_def endAllocateToPool_def sx_defs)

text \<open>The states after the operations of the history.\<close>

definition ex_obs :: "(nat \<Rightarrow> 64 word) \<Rightarrow> nat set \<Rightarrow> PhiloxSupaState list option \<Rightarrow> (nat \<Rightarrow> PhiloxSupaState list option) \<Rightarrow>
    (nat \<Rightarrow> PhiloxSupaState list option) \<Rightarrow> (64 word \<times> 64 word) list \<Rightarrow> graph_obs" where
  "ex_obs mem T cap gn xn out = \<lparr>word_at = mem, tensors = T, stream_captures = (\<lambda>_. None)(4 := cap), graph_nodes = gn, exec_nodes = xn, consumed = out\<rparr>"

abbreviation ex_graph :: SUPAGraph where
  "ex_graph \<equiv> \<lparr>graph_handle = 0, graph_exec = 0, has_graph = False, has_graph_exec = False, capture_id = 2 ^ 64 - 1, mempool_id = (0, 0),
     capture_stream = SUPAStreamForId 0 4, captured_generator_states = \<lambda>_. None, capture_dev = -1\<rparr>"

abbreviation ex_u0 :: graph_obs where
  "ex_u0 \<equiv> \<lparr>word_at = \<lambda>_. 0, tensors = {}, stream_captures = \<lambda>_. None, graph_nodes = \<lambda>_. None, exec_nodes = \<lambda>_. None, consumed = []\<rparr>"

abbreviation ex_none :: "nat \<Rightarrow> 'a option" where
  "ex_none \<equiv> \<lambda>_. None"

definition ex_start :: "graph_state nca" where
  "ex_start = ex_nca ex_u0 1 [ex_before]"

abbreviation ex_s1 :: "graph_state gst" where
  "ex_s1 \<equiv> ex_gst ex_u0 1 [ex_before] False ex_none [0 \<mapsto> ex_graph] 1"

lemma ex_initial: "initial_graphs ex_start = ex_gst ex_u0 1 [ex_before] False ex_none ex_none 1"
  by (simp add: initial_graphs_def ex_start_def ex_gst_def)

lemma ex_run1: "wp (run_gop g_env GGraph) Q E (initial_graphs ex_start) = Q (RObject 0) ex_s1"
  by (simp add: ex_initial SUPAGraph_ctor_def ex_steps del: wp_field) (simp add: ex_gst_def)

abbreviation ex_mem :: "nat \<Rightarrow> 64 word" where
  "ex_mem \<equiv> (\<lambda>_. 0)(1 := 42, 2 := 0)"

abbreviation ex_s2 :: "graph_state gst" where
  "ex_s2 \<equiv> ex_gst \<lparr>word_at = ex_mem, tensors = {2, 1}, stream_captures = [4 \<mapsto> []], graph_nodes = ex_none, exec_nodes = ex_none, consumed = []\<rparr> 3
     [ex_during (ex_world \<lparr>word_at = ex_mem, tensors = {2, 1}, stream_captures = ex_none, graph_nodes = ex_none, exec_nodes = ex_none, consumed = []\<rparr> 3)]
     True [0 \<mapsto> ex_gs_graph\<lparr>gs_capturing := True\<rparr>]
     [0 \<mapsto> ex_graph\<lparr>captured_generator_states := [0 \<mapsto> 0], capture_dev := 0, mempool_id := (1, 0), capture_id := 1\<rparr>] 2"

lemma ex_run2: "wp (run_gop g_env (GBegin 0 (0, 0) 0)) Q E ex_s1 = Q RUnit ex_s2"
  by (simp add: capture_begin_def ex_default ex_register ex_prologue choose_pool_def mempool_graph_pool_handle_def ex_begin_alloc wait_for_event_queries_def
      begin_capture_def ex_steps ex_info ex_streams_differ del: wp_field One_nat_def)

abbreviation ex_kernel :: PhiloxSupaState where
  "ex_kernel \<equiv> PhiloxPtr 1 2 0"

abbreviation ex_d1 :: "graph_state dca" where
  "ex_d1 \<equiv> ex_during (ex_world \<lparr>word_at = ex_mem, tensors = {2, 1}, stream_captures = ex_none, graph_nodes = ex_none, exec_nodes = ex_none, consumed = []\<rparr> 3)"

abbreviation ex_s3 :: "graph_state gst" where
  "ex_s3 \<equiv> ex_gst \<lparr>word_at = ex_mem, tensors = {2, 1}, stream_captures = [4 \<mapsto> [ex_kernel]], graph_nodes = ex_none, exec_nodes = ex_none, consumed = []\<rparr> 3
     [ex_d1] True [0 \<mapsto> ex_gs_graph\<lparr>gs_capturing := True, offset_intragraph := 8\<rparr>]
     [0 \<mapsto> ex_graph\<lparr>captured_generator_states := [0 \<mapsto> 0], capture_dev := 0, mempool_id := (1, 0), capture_id := 1\<rparr>] 2"

lemma ex_run3: "wp (run_gop g_env (GRandom 0 5)) Q E ex_s2 = Q (RPhilox ex_kernel) ex_s3"
  by (simp add: random_op_def philox_supa_state_def increase_def round_increment_def data_ptr_def ex_steps del: wp_field One_nat_def)

abbreviation ex_d2 :: "graph_state dca" where
  "ex_d2 \<equiv> ex_after (ex_world \<lparr>word_at = ex_mem, tensors = {2, 1}, stream_captures = ex_none(4 := None), graph_nodes = [3 \<mapsto> [ex_kernel]], exec_nodes = ex_none,
     consumed = []\<rparr> 4)"

abbreviation ex_captured :: SUPAGraph where
  "ex_captured \<equiv> ex_graph\<lparr>captured_generator_states := [0 \<mapsto> 8], capture_dev := 0, mempool_id := (1, 0), capture_id := 1, graph_handle := 3, graph_exec := 4,
     has_graph_exec := True\<rparr>"

abbreviation ex_s4 :: "graph_state gst" where
  "ex_s4 \<equiv> ex_gst \<lparr>word_at = ex_mem, tensors = {2, 1}, stream_captures = ex_none(4 := None), graph_nodes = ex_none(3 := None), exec_nodes = [4 \<mapsto> [ex_kernel]],
     consumed = []\<rparr> 5 [ex_d2] True [0 \<mapsto> ex_gs_graph\<lparr>offset_intragraph := 8\<rparr>] [0 \<mapsto> ex_captured] 2"

lemma ex_nodes: "wp (on_gw (supa_check_out (supaGraphGetNodes g_env g))) Q E s = Q 1 s"
  by (simp add: g_env_sel supa_check_out_def)

lemma ex_run4: "wp (run_gop g_env (GEnd 0)) Q E ex_s3 = Q RUnit ex_s4"
  by (simp add: capture_end_def for_states_def capture_epilogue_def ex_end_alloc ex_nodes ex_steps del: wp_field One_nat_def)

text \<open>The guard of the replay finds its device selected.\<close>

lemma ex_same: "in_world s (g_world s) = s"
  by (cases s, cases "g_nca s", cases "p_streams (g_nca s)") simp

lemma ex_unselected: "k_device w = -1 \<Longrightarrow> w\<lparr>k_device := -1\<rparr> = w" "w\<lparr>drv := drv w\<rparr> = w"
  by (cases w, simp)+

lemma ex_exchange: "at_nca s u k ds \<Longrightarrow> wp (sx_field g_world (\<lambda>f. g_nca_update (p_streams_update (st_world_update f))) (exchangeDevice g_driver 0)) Q E s = Q 0 s"
  by (drule ex_streams) (simp add: exchangeDevice_def ExchangeDevice_def g_driver_sel supa_check_out_def ex_unselected ex_same)

lemma ex_restore: "at_nca s u k ds \<Longrightarrow> wp (sx_field g_world (\<lambda>f. g_nca_update (p_streams_update (st_world_update f))) (uncheckedSetDevice g_driver 0)) Q E s = Q () s"
  by (drule ex_streams) (simp add: uncheckedSetDevice_def SetDevice_def check_warn_def g_driver_sel wp_if ex_unselected ex_same)

abbreviation ex_s5 :: "graph_state gst" where
  "ex_s5 \<equiv> ex_gst \<lparr>word_at = ex_mem(1 := 42, 2 := 0), tensors = {2, 1}, stream_captures = ex_none(4 := None), graph_nodes = ex_none(3 := None),
     exec_nodes = [4 \<mapsto> [ex_kernel]], consumed = [(42, 0)]\<rparr> 5 [ex_d2] True [0 \<mapsto> ex_gs_graph\<lparr>offset_intragraph := 8, philox_offset_per_thread := 8\<rparr>]
     [0 \<mapsto> ex_captured] 2"

lemma ex_run5: "wp (run_gop g_env (GReplay 0)) Q E ex_s4 = Q RUnit ex_s5"
  by (simp add: replay_def guarded_def SUPAStreamForId_def [of 0 4] for_states_def replay_prologue_def fill_tensor_def increase_def round_increment_def ex_exchange ex_restore
      ex_steps del: wp_field One_nat_def)

abbreviation ex_s6 :: "graph_state gst" where
  "ex_s6 \<equiv> ex_gst \<lparr>word_at = ex_mem(1 := 42, 2 := 0), tensors = {2, 1}, stream_captures = ex_none(4 := None), graph_nodes = ex_none(3 := None),
     exec_nodes = [4 \<mapsto> [ex_kernel]], consumed = [(42, 0), (42, 8)]\<rparr> 5 [ex_d2] True
     [0 \<mapsto> ex_gs_graph\<lparr>offset_intragraph := 8, philox_offset_per_thread := 12\<rparr>] [0 \<mapsto> ex_captured] 2"

lemma ex_run6: "wp (run_gop g_env (GRandom 0 1)) Q E ex_s5 = Q (RPhilox (PhiloxVal 42 8)) ex_s6"
  by (simp add: random_op_def philox_supa_state_def increase_def round_increment_def ex_steps del: wp_field One_nat_def)

text \<open>The history, and the theorem on it.\<close>

definition ex_history :: "(gop \<times> gres) list" where
  "ex_history = [(GGraph, RObject 0), (GBegin 0 (0, 0) 0, RUnit), (GRandom 0 5, RPhilox ex_kernel), (GEnd 0, RUnit), (GReplay 0, RUnit),
     (GRandom 0 1, RPhilox (PhiloxVal 42 8))]"

lemma ex_step:
  assumes "graph_history g_env (\<lambda>_. 0) (\<lambda>_. UNIV) gs_seen ex_start hs c s" and "gop_ok (\<lambda>_. UNIV) c s op"
    and "\<And>Q E. wp (run_gop g_env op) Q E s = Q r t"
  shows "graph_history g_env (\<lambda>_. 0) (\<lambda>_. UNIV) gs_seen ex_start (hs @ [(op, r)]) (opened c op) t"
proof -
  have "wp (run_gop g_env op) (\<lambda>r' t'. r' = r \<and> t' = t) (\<lambda>_ _. False) s" using assms(3) by simp
  then have "run_gop g_env op s = (Inr r, t)" by (auto simp: wp_def split: prod.splits sum.splits)
  then show ?thesis by (rule graph_history.operation [OF assms(1,2)])
qed

lemma ex_reached: "graph_history g_env (\<lambda>_. 0) (\<lambda>_. UNIV) gs_seen ex_start ex_history None ex_s6"
proof -
  let ?H = "graph_history g_env (\<lambda>_. 0) (\<lambda>_. UNIV) gs_seen ex_start"
  have "?H [] None (initial_graphs ex_start)" by (rule graph_history.start)
  from ex_step [OF this _ ex_run1] have "?H [(GGraph, RObject 0)] None ex_s1" by simp
  from ex_step [OF this _ ex_run2] have "?H [(GGraph, RObject 0), (GBegin 0 (0, 0) 0, RUnit)] (Some 0) ex_s2" by simp
  from ex_step [OF this _ ex_run3]
  have "?H [(GGraph, RObject 0), (GBegin 0 (0, 0) 0, RUnit), (GRandom 0 5, RPhilox ex_kernel)] (Some 0) ex_s3" by simp
  from ex_step [OF this _ ex_run4]
  have "?H [(GGraph, RObject 0), (GBegin 0 (0, 0) 0, RUnit), (GRandom 0 5, RPhilox ex_kernel), (GEnd 0, RUnit)] None ex_s4" by simp
  from ex_step [OF this _ ex_run5]
  have "?H [(GGraph, RObject 0), (GBegin 0 (0, 0) 0, RUnit), (GRandom 0 5, RPhilox ex_kernel), (GEnd 0, RUnit), (GReplay 0, RUnit)] None ex_s5" by simp
  from ex_step [OF this _ ex_run6] show ?thesis by (simp add: ex_history_def)
qed

lemma ex_settled: "streams_settled g_env (\<lambda>_. UNIV) (initial_graphs ex_start)"
  by (simp add: streams_settled_def ex_initial ex_sel ex_nca_def g_env_sel g_driver_sel)


end
