(* ===== verification/Mem_Pool.thy ===== *)
theory Mem_Pool
  imports Graph_Capture
begin

text \<open>
  User-made memory pools, \<^verbatim>\<open>core/supa/MemPool.cpp\<close>: a pool is an identifier in the allocator of the current
  device. The pool that is active in the thread is part of the environment of the allocator; a context
  object puts another one there for the time of its scope.
\<close>

section \<open>The active pool\<close>

text \<open>What runs while a \<^verbatim>\<open>MemPoolContext\<close> is alive sees its pool; the previous one is back afterwards.\<close>

definition MemPoolContext :: "(mempool_id \<times> nat option) option \<Rightarrow> 'd genv \<Rightarrow> 'd genv" where
  "MemPoolContext pool G = G\<lparr>GEnv := (GEnv G)\<lparr>Env := (Env (GEnv G))\<lparr>ActiveMemPool := pool\<rparr>\<rparr>\<rparr>"

definition getActiveMemPool :: "'d genv \<Rightarrow> (mempool_id \<times> nat option) option" where
  "getActiveMemPool G = ActiveMemPool (Env (GEnv G))"

section \<open>Pools\<close>

record MemPool =
  mp_allocator :: "nat option"
  mp_is_user_created :: bool
  mp_id :: mempool_id
  mp_device :: int

definition MemPool_ctor :: "'d genv \<Rightarrow> nat option \<Rightarrow> bool \<Rightarrow> bool \<Rightarrow> bool \<Rightarrow> ('d, MemPool) gx" where
  "MemPool_ctor G allocator is_user_created use_on_oom no_split =
     sx_bind (mempool_graph_pool_handle is_user_created) (\<lambda>i.
     sx_bind (on_gw (current_device (GDrv G))) (\<lambda>device.
     sx_seq (on_nca (native_createOrIncrefPool device i allocator))
     (sx_seq (sx_when use_on_oom (on_nca (native_setUseOnOOM device i)))
     (sx_seq (sx_when no_split (on_nca (native_setNoSplit device i)))
     (sx_ret \<lparr>mp_allocator = allocator, mp_is_user_created = is_user_created, mp_id = i, mp_device = device\<rparr>)))))"

definition MemPool_dtor :: "'d genv \<Rightarrow> MemPool \<Rightarrow> ('d, unit) gx" where
  "MemPool_dtor G p = sx_noexcept
     (sx_seq (on_nca (native_releasePool (mp_device p) (mp_id p)))
     (on_nca (native_emptyCache (GEnv (MemPoolContext (Some (mp_id p, mp_allocator p)) G)) (mp_id p))))"

definition mempool_use_count :: "MemPool \<Rightarrow> ('d, int) gx" where
  "mempool_use_count p = on_nca (native_getPoolUseCount (mp_device p) (mp_id p))"

lemma active_in_context: "getActiveMemPool (MemPoolContext pool G) = pool"
  by (simp add: getActiveMemPool_def MemPoolContext_def)

lemma context_over: "MemPoolContext (getActiveMemPool G) (MemPoolContext pool G) = G"
  by (cases G) (simp add: getActiveMemPool_def MemPoolContext_def)

text \<open>Pools of users and pools of graphs never share an identifier, and identifiers are new until a counter wraps around.\<close>

lemma handles_apart:
  assumes "mempool_graph_pool_handle b s = (Inr i, t)" and "mempool_graph_pool_handle b' t = (Inr j, t')"
    and "0 < uid s" and "0 < uuid s" and "uid s + 1 \<noteq> 0" and "uuid s + 1 \<noteq> 0"
  shows "i \<noteq> j"
  using assms
  by (cases b; cases b') (auto simp: mempool_graph_pool_handle_def sx_defs simp flip: word_unat_eq_iff simp: unat_eq_zero)

end
