(* ===== verification/Spec2Isabelle.thy ===== *)
theory Spec2Isabelle
  imports Offset_Calculator Device_Checkpoint Device_Properties Alloc_Trace Stream_Pools Event_Ownership Ipc_Cache Handle_Pool
    Host_Properties Graph_Examples Mem_Pool
begin

text \<open>
  A model of the runtime core of torch-supa, the SUPA backend of PyTorch: the memory allocators, the
  streams, events and devices they rest on, its random number generators and captured graphs, and the index
  arithmetic of its kernels. File names below are
  under \<^verbatim>\<open>src/torch_supa/csrc/\<close>.

  \<^bold>\<open>The parts and how they interact.\<close> A tensor gets its memory from the process-wide allocator
  (\<^verbatim>\<open>NativeCachingAllocator\<close>), which has one caching allocator per device (\<^verbatim>\<open>DeviceCachingAllocator\<close>) and a
  table from addresses to blocks. A device allocator cuts the segments it gets from the driver into
  blocks, keeps free blocks in ordered sets, and holds a freed block back while events say that another
  stream still uses it. Segments are fixed (\<^verbatim>\<open>supaMalloc\<close>) or expandable (\<^verbatim>\<open>ExpandableSegment\<close>, pages mapped
  into a reserved range). Streams come from pools per device and priority; the guards switch the device of
  the thread; events are created lazily. Pinned host memory has an allocator of its own with the same idea
  of events. Library handles come from a pool that threads borrow from. A graph records the kernels of a
  stream: while it is captured, the allocator takes the stream's memory from a pool of the graph, and a random
  number generator gives the kernels the addresses of its seed and offset, which each replay fills anew.

  \<^bold>\<open>How the code is modelled.\<close> A member function is a function from the state of its object to an outcome
  and the state it leaves (\<open>sx\<close> in \<open>Supa_Prelude\<close>): an exception keeps what was written before it. Objects
  that are reached by pointers (blocks, segments) live in a store, and a use of a deleted one is the outcome
  \<open>UseAfterFree\<close>; an index past the end of an array is \<open>OutOfBounds\<close>. The driver and the runtime are
  arguments of the definitions (the records \<open>driver\<close>, \<open>rt\<close>, \<open>hrt\<close>, \<open>genv\<close> of functions on an arbitrary driver state),
  and so are \<^verbatim>\<open>std::stod\<close> and the bit functions of the framework (\<open>cxx_lib\<close>). What the code relies on is a
  named hypothesis on them (\<open>memory_calls_ok\<close>, \<open>device_calls_ok\<close>, \<open>stream_calls_ok\<close>, \<open>host_calls_ok\<close>, \<open>graph_calls_ok\<close>, ...); the
  reference driver \<open>ref_driver\<close> satisfies each of them and runs in the witnesses. Sizes are natural numbers
  with the wrap-around of 64 bits written out where it can occur, identifiers and divisors are words.

  \<^bold>\<open>The theories.\<close>
  \<^item> \<open>Supa_Prelude\<close>: computations, weakest preconditions, intervals and words. \<open>Ordered_Set\<close>: \<^verbatim>\<open>std::set\<close> with
    a comparator, with the interface \<open>weak_order\<close> of a comparator, interpreted on the three comparators.
  \<^item> \<open>Supa_Runtime\<close>, \<open>Supa_Guard\<close>: \<^verbatim>\<open>core/supa/SUPAFunctions.cpp\<close>, the device functions of
    \<^verbatim>\<open>core/supa/impl/SUPAGuardImpl.cpp\<close>, and the event pool of the allocator.
  \<^item> \<open>Supa_Stream\<close>, \<open>Stream_Pools\<close>: \<^verbatim>\<open>core/supa/SUPAStream.cpp\<close>; the identifiers, the pools and the current
    streams, with their invariant and the order in which streams are handed out.
  \<^item> \<open>Supa_Event\<close>, \<open>Event_Ownership\<close>: \<^verbatim>\<open>core/supa/SUPAEvent.cpp\<close>; every event has one owner.
  \<^item> \<open>Handle_Pool\<close>: \<^verbatim>\<open>core/supa/DeviceThreadHandles.h\<close>.
  \<^item> \<open>Alloc_Config\<close>, \<open>Alloc_Sizes\<close>, \<open>Alloc_Stats\<close>: \<^verbatim>\<open>core/supa/SUPAAllocatorConfig.cpp\<close> and the sizes and counters
    of \<^verbatim>\<open>core/supa/SUPACachingAllocator.cpp\<close>.
  \<^item> \<open>Expandable_Segment\<close>: the pages of a reserved range, all or nothing.
  \<^item> \<open>Block_Store\<close>, \<open>Device_Allocator\<close>, \<open>Device_Api\<close>, \<open>Device_Checkpoint\<close>: the data, the private and the public
    functions of \<^verbatim>\<open>DeviceCachingAllocator\<close>, checkpoints and snapshots.
  \<^item> \<open>Block_Heap\<close>, \<open>Pool_Invariant\<close>, \<open>Segment_Walk\<close>, \<open>Best_Fit\<close>, \<open>Device_Wp\<close>, \<open>Device_Invariant\<close>, \<open>Free_Safety\<close>,
    \<open>Event_Safety\<close>, \<open>Alloc_Safety\<close>, \<open>Cache_Safety\<close>, \<open>Malloc_Safety\<close>, \<open>Device_Safety\<close>: the shape of the block
    store, the contents of the pools, and that every operation keeps them. The locale \<open>framing\<close> collects the
    operations that leave a part of the state alone.
  \<^item> \<open>Device_Examples\<close>, \<open>Device_Properties\<close>, \<open>Alloc_Trace\<close>: reachable states of a device allocator, the abstract
    allocator that they refine, and the trace.
  \<^item> \<open>Native_Allocator\<close>: the process-wide allocator, composed from the device allocators, the streams and the
    device selection. \<open>Device_Tags\<close>, \<open>Native_Safety\<close>, \<open>Native_Process\<close>, \<open>Native_Properties\<close>: a process with several
    devices and wrong frees refines one abstract allocator. \<open>Ipc_Cache\<close>: memory of other processes.
  \<^item> \<open>Host_Allocator\<close>: \<^verbatim>\<open>core/supa/CachingHostAllocator.cpp\<close>. \<open>Host_Pages\<close>: the threads that map registered
    memory. \<open>Host_Safety\<close>, \<open>Host_Blocks\<close>, \<open>Host_Properties\<close>: the invariant of its blocks and its histories.
  \<^item> \<open>Graph_State\<close>, \<open>Rng_State\<close>, \<open>Graph_Capture\<close>, \<open>Mem_Pool\<close>: \<^verbatim>\<open>aten/SUPAGeneratorImpl.cpp\<close>,
    \<^verbatim>\<open>core/supa/SUPAGraph.cpp\<close>, \<^verbatim>\<open>core/supa/SUPAGraphsUtils.cpp\<close> and \<^verbatim>\<open>core/supa/MemPool.cpp\<close>; the state has the
    generators, their states and the graphs in stores above the state of the process-wide allocator.
    \<open>Graph_Laws\<close> has what the runtime and the tensor library promise (\<open>graph_calls_ok\<close>), \<open>Eager_Rng\<close> the reference:
    a machine without graphs, that issues the recorded operations again where the code replays.
    \<open>Graph_Sim\<close> relates the two. \<open>Graph_Draws\<close>, \<open>Graph_Random\<close>, \<open>Graph_Ops\<close>, \<open>Graph_Register\<close>,
    \<open>Graph_Release\<close>, \<open>Graph_Begin\<close>, \<open>Graph_Close\<close>, \<open>Graph_Replay\<close> prove that each operation keeps the relation,
    \<open>Graph_Properties\<close> that every history does, and \<open>Graph_Examples\<close> runs one on a runtime that keeps the laws.
  \<^item> \<open>Int_Divider\<close>, \<open>Offset_Calculator\<close>: \<^verbatim>\<open>aten/ops/kernels/elementwise/IntegerDivider.cuh\<close> and
    \<^verbatim>\<open>OffsetCalculator.cuh\<close>, with the interface \<open>index_divider\<close> of a divider, interpreted on the host and the
    device version.

  \<^bold>\<open>Histories.\<close> The safety properties range over every history of operations from the initial state, with
  any arguments the client may pass: \<open>reachable\<close> for one device, \<open>preachable\<close> for a process, \<open>events_reach\<close>,
  \<open>handles_reach\<close> and \<open>host_reach\<close>. The histories of the device allocators are those without expandable
  segments and with an unlimited \<^verbatim>\<open>max_split_size\<close>, of requests that do not wrap around (\<open>request_ok\<close>), and go on
  after an out-of-memory error but not after another driver error; those of events, handles and pinned
  memory go on after every exception. The histories of graphs (\<open>graph_history\<close>) are those in which
  every operation returns and in which the client keeps the rules of \<open>gop_ok\<close>.

  \<^bold>\<open>Loops.\<close> A loop over pointers or a queue has a fuel that is the size of what it walks: the number of
  blocks for chains, the length of the pools for searches, the length of the queue for events, the number
  of tokens for the parser, the number of pages for mapping. Running out is the outcome \<open>LoopBound\<close>, which
  the safety properties exclude (for the parser: more fuel never changes the outcome).

  \<^bold>\<open>Concurrency.\<close> An operation runs to its end on one state, as it does under the lock of its object.
  Where the code lets another thread in between, the steps are separate operations: the last owner of an
  opened handle and its deleter (\<open>Ipc_Cache\<close>), the tasks of a thread pool in any order (\<open>Host_Pages\<close>).

  \<^bold>\<open>Not modelled.\<close> Trace hooks, observers, profiler reports and the texts of messages, which change no state
  of the components; time stamps of the trace. Device hooks, contexts and
  error reporting only register or format. The operators and their kernels,
  the process group for collective communication, the profiler and the Python bindings work on tensors,
  threads and libraries of the framework and of the vendor, whose code is not part of the repository.
\<close>

end
